(* ===== verification/Sf_Prelude.thy ===== *)
theory Sf_Prelude
  imports Main "HOL-Library.Word" "HOL-Library.Monad_Syntax"
begin

text \<open>
  Shared vocabulary of the development: the C integer types at their width, checked array
  accesses (an access outside the array is the value \<open>None\<close>, so that an out-of-bounds read
  or write of the C code is visible in the model), null-terminated pointer chains in a store,
  and the generic list and option lemmas that the component proofs use.
\<close>

unbundle bit_operations_syntax

section \<open>Types\<close>

type_synonym u8 = "8 word"
type_synonym u16 = "16 word"
type_synonym u32 = "32 word"
type_synonym u64 = "64 word"

text \<open>A pointer value: the address of an object, or \<open>None\<close> for NULL.\<close>

type_synonym addr = nat
type_synonym ptr = "addr option"

text \<open>A pointer field of every object of one kind, indexed by the object's address.\<close>

type_synonym pfield = "addr \<Rightarrow> ptr"

named_theorems arr_simps "checked array accesses"
named_theorems chain_simps "null-terminated chains in a store"

section \<open>Checked array accesses\<close>

definition arr_read :: "'a list \<Rightarrow> nat \<Rightarrow> 'a option" where
  "arr_read xs i = (if i < length xs then Some (xs ! i) else None)"

definition arr_write :: "'a list \<Rightarrow> nat \<Rightarrow> 'a \<Rightarrow> 'a list option" where
  "arr_write xs i v = (if i < length xs then Some (xs[i := v]) else None)"

lemma arr_read_in [arr_simps]: "i < length xs \<Longrightarrow> arr_read xs i = Some (xs ! i)"
  by (simp add: arr_read_def)

lemma arr_write_in [arr_simps]: "i < length xs \<Longrightarrow> arr_write xs i v = Some (xs[i := v])"
  by (simp add: arr_write_def)

lemma arr_write_SomeD: "arr_write xs i v = Some ys \<Longrightarrow> i < length xs \<and> ys = xs[i := v]"
  by (auto simp: arr_write_def split: if_splits)

lemma arr_read_SomeD: "arr_read xs i = Some v \<Longrightarrow> i < length xs \<and> v = xs ! i"
  by (auto simp: arr_read_def split: if_splits)

section \<open>Chains\<close>

text \<open>
  \<open>chain f p xs\<close>: following the pointer field \<open>f\<close> from \<open>p\<close> visits exactly the objects
  \<open>xs\<close>, in this order, and ends at NULL.
\<close>

fun chain :: "pfield \<Rightarrow> ptr \<Rightarrow> addr list \<Rightarrow> bool" where
  "chain f p [] \<longleftrightarrow> p = None"
| "chain f p (x # xs) \<longleftrightarrow> p = Some x \<and> chain f (f x) xs"

lemma chain_None [simp]: "chain f None xs \<longleftrightarrow> xs = []"
  by (cases xs) auto

lemma chain_Some: "chain f (Some a) xs \<longleftrightarrow> (\<exists>ys. xs = a # ys \<and> chain f (f a) ys)"
  by (cases xs) auto

lemma chain_upd_notin [simp]: "a \<notin> set xs \<Longrightarrow> chain (f(a := q)) p xs \<longleftrightarrow> chain f p xs"
  by (induction xs arbitrary: p) auto

lemma chain_cong: "(\<And>x. x \<in> set xs \<Longrightarrow> f x = g x) \<Longrightarrow> chain f p xs \<longleftrightarrow> chain g p xs"
  by (induction xs arbitrary: p) auto

lemma chain_unique: "chain f p xs \<Longrightarrow> chain f p ys \<Longrightarrow> xs = ys"
  by (induction xs arbitrary: p ys) (auto simp: chain_Some)

text \<open>Cutting off the last cell and linking another chain behind it.\<close>

lemma chain_relink:
  "chain f p (xs @ [z]) \<Longrightarrow> z \<notin> set xs \<Longrightarrow> z \<notin> set ys \<Longrightarrow> chain f q ys
    \<Longrightarrow> chain (f(z := q)) p (xs @ [z] @ ys)"
  by (induction xs arbitrary: p) auto

section \<open>Lists\<close>

lemma list_update_take_drop: "i < length xs \<Longrightarrow> take (Suc i) (xs[i := v]) = take i xs @ [v]"
  by (simp add: take_Suc_conv_app_nth)

lemma set_list_update_cases:
  assumes "x \<in> set (xs[i := y])" "i < length xs"
  shows "x = y \<or> (\<exists>j<length xs. j \<noteq> i \<and> x = xs ! j)"
proof -
  obtain j where "j < length xs" "x = xs[i := y] ! j" using assms(1) by (auto simp: in_set_conv_nth)
  then show ?thesis using assms(2) by (cases "j = i") (simp, metis nth_list_update_neq)
qed

lemma distinct_concat_disjoint:
  assumes "distinct (concat (map f xs))" "i < length xs" "j < length xs" "i \<noteq> j"
  shows "set (f (xs ! i)) \<inter> set (f (xs ! j)) = {}"
  using assms
proof (induction xs arbitrary: i j)
  case (Cons a xs)
  have apart: "set (f a) \<inter> set (f (xs ! k)) = {}" if "k < length xs" for k
    using Cons.prems(1) nth_mem [OF that] by auto
  show ?case
  proof (cases i)
    case 0
    then obtain k where "j = Suc k" "k < length xs" using Cons.prems(3,4) by (cases j) auto
    then show ?thesis using apart [of k] 0 by simp
  next
    case (Suc m)
    show ?thesis
    proof (cases j)
      case 0
      then show ?thesis using apart [of m] Suc Cons.prems(2) by (simp add: Int_commute)
    next
      case (Suc n)
      then show ?thesis using Cons.IH [of m n] Cons.prems \<open>i = Suc m\<close> by simp
    qed
  qed
qed simp

lemma sum_list_map_update:
  "i < length xs \<Longrightarrow> sum_list (map f (xs[i := y])) + f (xs ! i) = sum_list (map f xs) + (f y :: nat)"
proof (induction xs arbitrary: i)
  case (Cons a xs)
  then show ?case by (cases i) (auto simp: ac_simps)
qed simp

lemma set_concat_update:
  assumes "i < length xs"
  shows "set (concat (xs[i := y])) = (\<Union>j\<in>{j. j < length xs \<and> j \<noteq> i}. set (xs ! j)) \<union> set y"
proof -
  have "set (xs[i := y]) = (\<lambda>j. xs ! j) ` {j. j < length xs \<and> j \<noteq> i} \<union> {y}"
  proof (intro equalityI subsetI)
    fix x assume "x \<in> set (xs[i := y])"
    then show "x \<in> (\<lambda>j. xs ! j) ` {j. j < length xs \<and> j \<noteq> i} \<union> {y}"
      using set_list_update_cases [OF _ assms] by blast
  next
    fix x assume "x \<in> (\<lambda>j. xs ! j) ` {j. j < length xs \<and> j \<noteq> i} \<union> {y}"
    then consider j where "j < length xs" "j \<noteq> i" "x = xs ! j" | "x = y" by blast
    then show "x \<in> set (xs[i := y])"
    proof cases
      case 1
      then have "x = xs[i := y] ! j" by simp
      then show ?thesis using 1(1) by (metis length_list_update nth_mem)
    next
      case 2
      then show ?thesis using assms by (simp add: set_update_memI)
    qed
  qed
  then show ?thesis by auto
qed

lemma distinct_concat_iff_nth:
  "distinct (concat xs) \<longleftrightarrow> (\<forall>i<length xs. distinct (xs ! i))
     \<and> (\<forall>i<length xs. \<forall>j<i. set (xs ! j) \<inter> set (xs ! i) = {})"
proof (induction xs)
  case (Cons a xs)
  have all: "(\<forall>i<length (a # xs). P i) \<longleftrightarrow> P 0 \<and> (\<forall>i<length xs. P (Suc i))" for P
    by (auto simp: less_Suc_eq_0_disj)
  have all2: "(\<forall>j<Suc i. P j) \<longleftrightarrow> P 0 \<and> (\<forall>j<i. P (Suc j))" for P i
    by (auto simp: less_Suc_eq_0_disj)
  have "set a \<inter> set (concat xs) = {} \<longleftrightarrow> (\<forall>x\<in>set xs. set a \<inter> set x = {})" by auto
  then have "set a \<inter> set (concat xs) = {} \<longleftrightarrow> (\<forall>j<length xs. set a \<inter> set (xs ! j) = {})"
    by (simp only: all_set_conv_all_nth)
  then show ?case
    by (simp only: all all2 concat.simps distinct_append Cons.IH nth_Cons_0 nth_Cons_Suc not_less0 simp_thms) 
     (simp only: conj_ac imp_conjR all_conj_distrib)
qed simp

lemma in_concat_nth: "a \<in> set (concat xs) \<Longrightarrow> \<exists>j<length xs. a \<in> set (xs ! j)"
  by (induction xs) (auto, metis Suc_mono nth_Cons_Suc)

lemma take_update_ge: "i \<le> j \<Longrightarrow> take i (xs[j := v]) = take i xs"
  by simp

section \<open>Words\<close>

lemma unat_of_nat32 [simp]: "n < 2 ^ 32 \<Longrightarrow> unat (of_nat n :: u32) = n"
  by (simp add: unat_of_nat)

lemma of_nat_eq32:
  assumes "m < 2 ^ 32" "n < 2 ^ 32"
  shows "(of_nat m :: u32) = of_nat n \<longleftrightarrow> m = n"
proof
  assume "(of_nat m :: u32) = of_nat n"
  then have "unat (of_nat m :: u32) = unat (of_nat n :: u32)" by simp
  then show "m = n" using assms by simp
qed simp

lemma of_nat_small:
  assumes "n < 2 ^ 32"
  shows "(of_nat n :: u32) = 1 \<longleftrightarrow> n = 1" and "(of_nat n :: u32) = 0 \<longleftrightarrow> n = 0"
    and "(ucast (of_nat n :: u32) :: u64) = of_nat n"
  using of_nat_eq32 [OF assms, of 1] of_nat_eq32 [OF assms, of 0] assms
  by (simp_all add: unsigned_of_nat take_bit_nat_eq_self)

lemma unat_power32: "k < 32 \<Longrightarrow> unat (2 ^ k :: u32) = 2 ^ k"
proof -
  assume "k < 32"
  then have "(2 :: nat) ^ k < 2 ^ 32" by (intro power_strict_increasing) simp_all
  then show ?thesis using unat_of_nat32 [of "2 ^ k"] by simp
qed

end
