(* ===== verification/Sf_Hash.thy ===== *)
theory Sf_Hash
  imports Sf_Prelude
begin

text \<open>
  The generic chained hash table of \<open>sf_lib/sf_hash\<close>: buckets of doubly linked nodes with
  32-bit statistics counters.  The nodes' links are two pointer fields in a store; dereferencing
  NULL or indexing outside the bucket array is the value \<open>None\<close>.  The counters are 32-bit words,
  so that every increment and decrement wraps as in C.  A traversal of a bucket is a
  \<open>partial_function\<close>: it returns exactly when the chain it follows ends.
\<close>

section \<open>State\<close>

record generic_buck_t =
  buck_ncount :: u32
  head :: ptr

record generic_hash_t =
  hashsize :: u32
  hashmax :: u32
  bcount :: u32
  ncount :: u32
  lmax :: u32
  nmax :: u32
  bmax :: u32
  weight :: u64
  buckets :: "generic_buck_t list"

text \<open>The table together with the link fields of all nodes.\<close>

record hash_world =
  htab :: generic_hash_t
  node_next :: pfield
  node_prev :: pfield

section \<open>Operations\<close>

definition zero_hash :: generic_hash_t where
  "zero_hash = \<lparr>hashsize = 0, hashmax = 0, bcount = 0, ncount = 0, lmax = 0, nmax = 0, bmax = 0,
                weight = 0, buckets = []\<rparr>"

definition GENERIC_MAX_HASH_SIZE :: u32 where "GENERIC_MAX_HASH_SIZE = 0x2000000"

text \<open>\<open>while((temp1 & 0x80000000) == 0) { hashsize_admit >>= 1; temp1 <<= 1; }\<close>\<close>

partial_function (option) admit_loop :: "u32 \<Rightarrow> u32 \<Rightarrow> u32 option" where
  "admit_loop temp1 hashsize_admit =
    (if temp1 AND 0x80000000 = 0 then admit_loop (push_bit 1 temp1) (drop_bit 1 hashsize_admit)
     else Some hashsize_admit)"

text \<open>The result is the return code and the table; \<open>mem\<close> says whether the vector was allocated.\<close>

definition hashInit :: "bool \<Rightarrow> generic_hash_t \<Rightarrow> u32 \<Rightarrow> u32 \<Rightarrow> (int \<times> generic_hash_t) option" where
  "hashInit mem h hsize hmax =
    (if hsize = 0 \<or> hmax = 0 then Some (-1, h)
     else
       (let hsize = (if hsize > GENERIC_MAX_HASH_SIZE then GENERIC_MAX_HASH_SIZE else hsize) in
        do { admit \<leftarrow> admit_loop hsize 0x80000000;
             if mem then
               Some (0, zero_hash\<lparr>buckets := replicate (unat admit) \<lparr>buck_ncount = 0, head = None\<rparr>,
                                  hashsize := admit, hashmax := hmax\<rparr>)
             else Some (-1, zero_hash) }))"

definition hashFree :: "generic_hash_t \<Rightarrow> generic_hash_t" where
  "hashFree h = zero_hash"

text \<open>\<open>hash = hash & (h->hashsize-1)\<close>\<close>

definition bucket_index :: "generic_hash_t \<Rightarrow> u32 \<Rightarrow> nat" where
  "bucket_index h hash = unat (hash AND (hashsize h - 1))"

partial_function (option) find_loop :: "(addr \<Rightarrow> bool) \<Rightarrow> pfield \<Rightarrow> ptr \<Rightarrow> ptr option" where
  "find_loop cmp nx node =
    (case node of
       None \<Rightarrow> Some None
     | Some a \<Rightarrow> if cmp a then Some (Some a) else find_loop cmp nx (nx a))"

text \<open>\<open>cmp\<close> holds for a node when the caller's comparison function returns 0 on it.\<close>

definition hashFindNode :: "hash_world \<Rightarrow> u32 \<Rightarrow> (addr \<Rightarrow> bool) \<Rightarrow> ptr option" where
  "hashFindNode w hash cmp =
    do { buck \<leftarrow> arr_read (buckets (htab w)) (bucket_index (htab w) hash);
         find_loop cmp (node_next w) (head buck) }"

text \<open>The variant that compares \<open>key_len\<close> bytes of the node's data.\<close>

definition hashFindNode_memcmp ::
  "(addr \<Rightarrow> u8 list) \<Rightarrow> hash_world \<Rightarrow> u32 \<Rightarrow> u8 list \<Rightarrow> nat \<Rightarrow> ptr option" where
  "hashFindNode_memcmp node_data w hash key key_len =
    do { buck \<leftarrow> arr_read (buckets (htab w)) (bucket_index (htab w) hash);
         find_loop (\<lambda>a. take key_len key = take key_len (node_data a)) (node_next w) (head buck) }"

definition hashFindNodeByPtr :: "hash_world \<Rightarrow> u32 \<Rightarrow> addr \<Rightarrow> ptr option" where
  "hashFindNodeByPtr w hash c_node =
    do { buck \<leftarrow> arr_read (buckets (htab w)) (bucket_index (htab w) hash);
         find_loop (\<lambda>a. a = c_node) (node_next w) (head buck) }"

definition hashNodeGet :: "hash_world \<Rightarrow> u32 \<Rightarrow> ptr \<Rightarrow> ptr option" where
  "hashNodeGet w hash c_node =
    do { buck \<leftarrow> arr_read (buckets (htab w)) (bucket_index (htab w) hash);
         Some (case c_node of None \<Rightarrow> head buck | Some a \<Rightarrow> node_next w a) }"

definition hashNodeCountGet :: "hash_world \<Rightarrow> u32 \<Rightarrow> u32 option" where
  "hashNodeCountGet w hash =
    do { buck \<leftarrow> arr_read (buckets (htab w)) (bucket_index (htab w) hash);
         Some (buck_ncount buck) }"

text \<open>The statistics of \<open>hashInsertNode\<close>; \<open>cnt\<close> is the bucket's new node count.\<close>

definition insert_stats :: "u32 \<Rightarrow> generic_hash_t \<Rightarrow> generic_hash_t" where
  "insert_stats cnt h =
    (let h = h\<lparr>ncount := ncount h + 1, weight := weight h + ucast cnt\<rparr>;
         h = (if cnt = 1
              then let h = h\<lparr>bcount := bcount h + 1\<rparr>
                   in if bcount h > bmax h then h\<lparr>bmax := bcount h\<rparr> else h
              else h);
         h = (if ncount h > nmax h then h\<lparr>nmax := ncount h\<rparr> else h)
     in if cnt > lmax h then h\<lparr>lmax := cnt\<rparr> else h)"

definition hashInsertNode :: "hash_world \<Rightarrow> u32 \<Rightarrow> addr \<Rightarrow> (int \<times> hash_world) option" where
  "hashInsertNode w hash node =
    (let i = bucket_index (htab w) hash in
     do { buck \<leftarrow> arr_read (buckets (htab w)) i;
          let w = w\<lparr>node_next := (node_next w)(node := None), node_prev := (node_prev w)(node := None)\<rparr>;
          let w = (case head buck of
                     None \<Rightarrow> w
                   | Some hd0 \<Rightarrow> w\<lparr>node_next := (node_next w)(node := Some hd0),
                                  node_prev := (node_prev w)(hd0 := Some node)\<rparr>);
          let buck = buck\<lparr>head := Some node, buck_ncount := buck_ncount buck + 1\<rparr>;
          Some (0, w\<lparr>htab := insert_stats (buck_ncount buck)
                              ((htab w)\<lparr>buckets := (buckets (htab w))[i := buck]\<rparr>)\<rparr>) })"

text \<open>Unlinking a node: the new link fields and the bucket's new head.\<close>

definition unlink_node :: "pfield \<Rightarrow> pfield \<Rightarrow> ptr \<Rightarrow> addr \<Rightarrow> (pfield \<times> pfield \<times> ptr) option" where
  "unlink_node nx pr hd0 node =
    (if hd0 = Some node then
       Some (nx, (case nx node of None \<Rightarrow> pr | Some n \<Rightarrow> pr(n := None)), nx node)
     else
       case pr node of
         None \<Rightarrow> None
       | Some p \<Rightarrow>
           (let nx' = nx(p := nx node)
            in Some (nx', (case nx' node of None \<Rightarrow> pr | Some n \<Rightarrow> pr(n := pr node)), hd0)))"

definition hashFreeNode :: "hash_world \<Rightarrow> addr \<Rightarrow> u32 \<Rightarrow> hash_world option" where
  "hashFreeNode w node hash =
    (let i = bucket_index (htab w) hash in
     do { buck \<leftarrow> arr_read (buckets (htab w)) i;
          if node_prev w node = None \<and> head buck = None then Some w
          else
            do { (nx, pr, hd0) \<leftarrow> unlink_node (node_next w) (node_prev w) (head buck) node;
                 let buck = buck\<lparr>head := hd0, buck_ncount := buck_ncount buck - 1\<rparr>;
                 let h = (htab w)\<lparr>buckets := (buckets (htab w))[i := buck]\<rparr>;
                 let h = h\<lparr>weight := weight h - ucast (buck_ncount buck + 1), ncount := ncount h - 1\<rparr>;
                 let h = (if buck_ncount buck = 0 then h\<lparr>bcount := bcount h - 1\<rparr> else h);
                 Some (w\<lparr>node_next := nx, node_prev := pr, htab := h\<rparr>) } })"

text \<open>
  \<open>hashTraverse\<close>: the handler gets the context and a node and says whether to stop.  The
  result is the context after the last call.
\<close>

partial_function (option) traverse_bucket ::
  "('c \<Rightarrow> addr \<Rightarrow> 'c \<times> bool) \<Rightarrow> pfield \<Rightarrow> ptr \<Rightarrow> 'c \<Rightarrow> ('c \<times> bool) option" where
  "traverse_bucket handler nx node c =
    (case node of
       None \<Rightarrow> Some (c, False)
     | Some a \<Rightarrow>
         (case handler c a of
            (c', stop) \<Rightarrow> if stop then Some (c', True) else traverse_bucket handler nx (nx a) c'))"

fun traverse_buckets ::
  "('c \<Rightarrow> addr \<Rightarrow> 'c \<times> bool) \<Rightarrow> pfield \<Rightarrow> generic_buck_t list \<Rightarrow> nat list \<Rightarrow> 'c \<Rightarrow> 'c option" where
  "traverse_buckets handler nx bucks [] c = Some c"
| "traverse_buckets handler nx bucks (i # is) c =
    do { buck \<leftarrow> arr_read bucks i;
         (c', stop) \<leftarrow> traverse_bucket handler nx (head buck) c;
         if stop then Some c' else traverse_buckets handler nx bucks is c' }"

definition hashTraverse :: "('c \<Rightarrow> addr \<Rightarrow> 'c \<times> bool) \<Rightarrow> hash_world \<Rightarrow> 'c \<Rightarrow> 'c option" where
  "hashTraverse handler w c =
    traverse_buckets handler (node_next w) (buckets (htab w)) [0..<unat (hashsize (htab w))] c"

section \<open>Size adjustment\<close>

lemma top_bit_clear: "(t :: u32) AND 0x80000000 = 0 \<longleftrightarrow> unat t < 2 ^ 31"
proof -
  have "unat t < 2 * 2 ^ 31" using unsigned_less [of t, where 'a = nat] by simp
  then have "unat t div 2 ^ 31 < 2" by (metis less_mult_imp_div_less mult.commute)
  then have "odd (unat t div 2 ^ 31) \<longleftrightarrow> \<not> unat t < 2 ^ 31"
    by (cases "unat t div 2 ^ 31") auto
  moreover have "bit t 31 \<longleftrightarrow> odd (unat t div 2 ^ 31)"
    using bit_unsigned_iff [of t 31, where 'a = nat] by (simp add: bit_iff_odd [of "unat t"])
  moreover have "(0x80000000 :: u32) = 2 ^ 31" by simp
  ultimately show ?thesis by (simp only: and_exp_eq_0_iff_not_bit not_not)
qed

lemma unat_shift1: "unat (t :: u32) < 2 ^ 31 \<Longrightarrow> unat (t * 2) = 2 * unat t"
  by (simp add: unat_word_ariths)

lemma admit_loop_correct:
  "n \<le> 31 \<Longrightarrow> 2 ^ (31 - n) \<le> unat t \<Longrightarrow> unat t < 2 ^ (32 - n) \<Longrightarrow> admit_loop t a = Some (drop_bit n a)"
proof (induction n arbitrary: t a)
  case 0
  then show ?case by (subst admit_loop.simps) (simp add: top_bit_clear)
next
  case (Suc n)
  have pow: "(2 :: nat) ^ (31 - n) = 2 * 2 ^ (31 - Suc n)" "(2 :: nat) ^ (32 - n) = 2 * 2 ^ (32 - Suc n)"
    using Suc.prems(1) by (simp_all add: Suc_diff_le flip: power_Suc)
  have "(2 :: nat) ^ (32 - Suc n) \<le> 2 ^ 31" by (rule power_increasing) simp_all
  then have lt: "unat t < 2 ^ 31" using Suc.prems(3) by linarith
  have "admit_loop (push_bit 1 t) (drop_bit 1 a) = Some (drop_bit n (drop_bit 1 a))"
    using Suc.prems by (intro Suc.IH) (simp_all add: unat_shift1 [OF lt] pow)
  then show ?case using lt
    by (subst admit_loop.simps) (simp add: top_bit_clear drop_bit_drop_bit add.commute)
qed

text \<open>Every positive number has a unique leading bit.\<close>

lemma leading_bit: "0 < (x :: nat) \<Longrightarrow> x < 2 ^ 32 \<Longrightarrow> \<exists>n\<le>31. 2 ^ (31 - n) \<le> x \<and> x < 2 ^ (32 - n)"
proof -
  assume x: "0 < x" "x < 2 ^ 32"
  obtain k where k: "2 ^ k \<le> x" "x < 2 ^ (k + 1)"
    using ex_power_ivl1 [of 2 x] x(1) by auto
  have "k \<le> 31"
  proof (rule ccontr)
    assume "\<not> k \<le> 31"
    then have "(2 :: nat) ^ 32 \<le> 2 ^ k" by (intro power_increasing) simp_all
    then show False using k x by linarith
  qed
  then show ?thesis using k by (intro exI [of _ "31 - k"]) (auto simp: Suc_diff_le numeral_eq_Suc)
qed

lemma admit_loop_pow:
  assumes "t \<noteq> 0"
  shows "\<exists>k\<le>31. admit_loop t 0x80000000 = Some (2 ^ k) \<and> 2 ^ k \<le> unat t \<and> unat t < 2 ^ (k + 1)"
proof -
  obtain n where n: "n \<le> 31" "2 ^ (31 - n) \<le> unat t" "unat t < 2 ^ (32 - n)"
    using leading_bit [of "unat t"] assms unsigned_less [of t, where 'a = nat]
    by (auto simp: unat_gt_0)
  have "drop_bit n (0x80000000 :: u32) = drop_bit n (push_bit n (2 ^ (31 - n)))"
    using n(1) by (simp add: push_bit_eq_mult flip: power_add)
  also have "\<dots> = 2 ^ (31 - n)"
  proof (rule bit_word_eqI)
    fix i assume "i < LENGTH(32)"
    then show "bit (drop_bit n (push_bit n (2 ^ (31 - n) :: u32))) i = bit (2 ^ (31 - n) :: u32) i"
      using n(1) by (auto simp: bit_simps)
  qed
  finally show ?thesis
    using admit_loop_correct [OF n] n by (intro exI [of _ "31 - n"]) (auto simp: Suc_diff_le numeral_eq_Suc)
qed

section \<open>Invariant\<close>

fun prevs :: "pfield \<Rightarrow> ptr \<Rightarrow> addr list \<Rightarrow> bool" where
  "prevs pr p [] \<longleftrightarrow> True"
| "prevs pr p (x # xs) \<longleftrightarrow> pr x = p \<and> prevs pr (Some x) xs"

lemma prevs_upd_notin [simp]: "a \<notin> set xs \<Longrightarrow> prevs (pr(a := q)) p xs \<longleftrightarrow> prevs pr p xs"
  by (induction xs arbitrary: p) auto

lemma prevs_cong: "(\<And>x. x \<in> set xs \<Longrightarrow> pr x = pr' x) \<Longrightarrow> prevs pr p xs \<longleftrightarrow> prevs pr' p xs"
  by (induction xs arbitrary: p) auto

definition bucket_ok :: "pfield \<Rightarrow> pfield \<Rightarrow> generic_buck_t \<Rightarrow> addr list \<Rightarrow> bool" where
  "bucket_ok nx pr buck xs \<longleftrightarrow> chain nx (head buck) xs \<and> prevs pr None xs
     \<and> buck_ncount buck = of_nat (length xs)"

definition tri :: "nat \<Rightarrow> nat" where
  "tri n = n * (n + 1) div 2"

lemma tri_Suc: "tri (Suc n) = tri n + Suc n"
  by (simp add: tri_def)

definition used :: "addr list \<Rightarrow> nat" where
  "used xs = (if xs = [] then 0 else 1)"

text \<open>
  \<open>B\<close> is the abstract content: the nodes of every bucket, most recently inserted first.  The
  statistics counters are functions of it.
\<close>

definition hash_inv :: "hash_world \<Rightarrow> addr list list \<Rightarrow> bool" where
  "hash_inv w B \<longleftrightarrow>
     (\<exists>k\<le>31. hashsize (htab w) = 2 ^ k)
   \<and> length (buckets (htab w)) = unat (hashsize (htab w)) \<and> length B = length (buckets (htab w))
   \<and> (\<forall>i<length B. bucket_ok (node_next w) (node_prev w) (buckets (htab w) ! i) (B ! i))
   \<and> distinct (concat B) \<and> length (concat B) < 2 ^ 32
   \<and> ncount (htab w) = of_nat (sum_list (map length B))
   \<and> bcount (htab w) = of_nat (sum_list (map used B))
   \<and> weight (htab w) = of_nat (sum_list (map (tri \<circ> length) B))"

lemma bucket_index_less:
  assumes "hash_inv w B"
  shows "bucket_index (htab w) hash < length B"
proof -
  obtain k where k: "k \<le> 31" "hashsize (htab w) = 2 ^ k" "length B = unat (hashsize (htab w))"
    using assms by (auto simp: hash_inv_def)
  have "hash AND (2 ^ k - 1) = take_bit k hash" by (simp add: take_bit_eq_mask mask_eq_exp_minus_1)
  then have "bucket_index (htab w) hash < 2 ^ k"
    by (simp add: bucket_index_def k unsigned_take_bit_eq)
  moreover have "unat (2 ^ k :: u32) = 2 ^ k" using k(1) by (intro unat_power32) simp
  ultimately show ?thesis using k by simp
qed

lemma bucket_read:
  assumes "hash_inv w B"
  shows "arr_read (buckets (htab w)) (bucket_index (htab w) hash)
           = Some (buckets (htab w) ! bucket_index (htab w) hash)"
    and "bucket_ok (node_next w) (node_prev w) (buckets (htab w) ! bucket_index (htab w) hash)
           (B ! bucket_index (htab w) hash)"
  using bucket_index_less [OF assms] assms by (auto simp: hash_inv_def arr_simps)

section \<open>Lookup\<close>

lemma find_loop_correct: "chain nx p xs \<Longrightarrow> find_loop cmp nx p = Some (find cmp xs)"
proof (induction xs arbitrary: p)
  case Nil
  then show ?case by (subst find_loop.simps) simp
next
  case (Cons x xs)
  then show ?case by (subst find_loop.simps) simp
qed

lemma hashFindNode_eq:
  "hash_inv w B \<Longrightarrow> hashFindNode w hash cmp = Some (find cmp (B ! bucket_index (htab w) hash))"
  using bucket_read [of w B hash] by (simp add: hashFindNode_def bucket_ok_def find_loop_correct)

section \<open>Insertion and removal\<close>

text \<open>Changing the content of one bucket, with every other bucket left as it is.\<close>

lemma hash_inv_update:
  assumes inv: "hash_inv w B" and i: "i < length B"
    and h: "hashsize h' = hashsize (htab w)" "buckets h' = (buckets (htab w))[i := buck]"
      "ncount h' = of_nat (sum_list (map length (B[i := ys])))"
      "bcount h' = of_nat (sum_list (map used (B[i := ys])))"
      "weight h' = of_nat (sum_list (map (tri \<circ> length) (B[i := ys])))"
    and ok: "bucket_ok nx pr buck ys" and dist: "distinct ys"
    and new: "set ys \<subseteq> set (B ! i) \<union> N" "N \<inter> set (concat B) = {}"
    and small: "length (concat (B[i := ys])) < 2 ^ 32"
    and frame: "\<And>a. a \<in> set (concat B) \<Longrightarrow> a \<notin> set (B ! i) \<Longrightarrow> nx a = node_next w a \<and> pr a = node_prev w a"
  shows "hash_inv \<lparr>htab = h', node_next = nx, node_prev = pr\<rparr> (B[i := ys])"
proof -
  have d: "distinct (concat B)" using inv by (simp add: hash_inv_def)
  have apart: "set (B ! j) \<inter> set (B ! i) = {}" if "j < length B" "j \<noteq> i" for j
    using distinct_concat_disjoint [of id B j i] d i that by simp
  have sub: "set (B ! j) \<subseteq> set (concat B)" if "j < length B" for j
    using nth_mem [OF that] by auto
  have "bucket_ok nx pr (buckets h' ! j) (B[i := ys] ! j)" if "j < length B" for j
  proof (cases "j = i")
    case True
    then show ?thesis using ok i inv h(2) by (simp add: hash_inv_def)
  next
    case False
    have "nx a = node_next w a" "pr a = node_prev w a" if "a \<in> set (B ! j)" for a
      using frame [of a] that sub [OF \<open>j < length B\<close>] apart [OF \<open>j < length B\<close> False] by auto
    then have "chain nx p (B ! j) \<longleftrightarrow> chain (node_next w) p (B ! j)"
      "prevs pr q (B ! j) \<longleftrightarrow> prevs (node_prev w) q (B ! j)" for p q
      by (auto intro!: chain_cong prevs_cong)
    then show ?thesis using inv that False h(2) by (simp add: hash_inv_def bucket_ok_def)
  qed
  moreover have "distinct (concat (B[i := ys]))"
  proof -
    have "set (B[i := ys] ! j) \<inter> set (B[i := ys] ! m) = {}" if "m < length B" "j < m" for j m
    proof -
      have j: "j < length B" using that by simp
      have "set (B ! j) \<inter> set (B ! m) = {}"
        using distinct_concat_disjoint [of id B j m] d that j by simp
      moreover have "set (B ! j) \<inter> set ys = {}" if "j \<noteq> i"
        using apart [OF j that] new sub [OF j] by blast
      moreover have "set ys \<inter> set (B ! m) = {}" if "m \<noteq> i"
        using apart [OF \<open>m < length B\<close> that] new sub [OF \<open>m < length B\<close>] by blast
      ultimately show ?thesis using that by (cases "j = i"; cases "m = i") simp_all
    qed
    moreover have "distinct (B[i := ys] ! j)" if "j < length B" for j
      using that d dist by (cases "j = i") (simp_all add: distinct_concat_iff_nth)
    ultimately show ?thesis by (simp add: distinct_concat_iff_nth)
  qed
  ultimately show ?thesis using inv h small by (simp add: hash_inv_def)
qed

lemma insert_stats_fields:
  "hashsize (insert_stats c h) = hashsize h" "buckets (insert_stats c h) = buckets h"
  "ncount (insert_stats c h) = ncount h + 1" "weight (insert_stats c h) = weight h + ucast c"
  "bcount (insert_stats c h) = bcount h + (if c = 1 then 1 else 0)"
  by (simp_all add: insert_stats_def Let_def)

lemma bucket_length_less:
  "hash_inv w B \<Longrightarrow> i < length B \<Longrightarrow> length (B ! i) < 2 ^ 32"
  using sum_list_map_update [of i B length "[]"] by (simp add: hash_inv_def length_concat)

lemma concat_length_update:
  "i < length B \<Longrightarrow> length (concat (B[i := ys])) + length (B ! i) = length (concat B) + length ys"
  using sum_list_map_update [of i B length ys] by (simp add: length_concat)

lemma stats_update:
  assumes "i < length B"
  shows "(of_nat (sum_list (map f (B[i := ys]))) :: 'b :: ring_1)
    = of_nat (sum_list (map f B)) + of_nat (f ys) - of_nat (f (B ! i))"
  using arg_cong [OF sum_list_map_update [OF assms, of f ys], of "of_nat :: nat \<Rightarrow> 'b"]
  by (simp add: eq_diff_eq)

lemma hashInsertNode_inv:
  assumes inv: "hash_inv w B" and a: "a \<notin> set (concat B)" and room: "length (concat B) + 1 < 2 ^ 32"
    and i_def: "i = bucket_index (htab w) hash"
  shows "\<exists>w'. hashInsertNode w hash a = Some (0, w') \<and> hash_inv w' (B[i := a # B ! i])
           \<and> hashsize (htab w') = hashsize (htab w)"
proof -
  let ?b = "buckets (htab w) ! i" and ?xs = "B ! i"
  have i: "i < length B" using bucket_index_less [OF inv] by (simp add: i_def)
  have ok: "bucket_ok (node_next w) (node_prev w) ?b ?xs" and rd: "arr_read (buckets (htab w)) i = Some ?b"
    using bucket_read [OF inv] by (auto simp: i_def)
  have axs: "a \<notin> set ?xs" using a nth_mem [OF i] by auto
  have dxs: "distinct ?xs" using inv i by (simp add: hash_inv_def distinct_concat_iff_nth)
  define nx where "nx = (node_next w)(a := head ?b)"
  define pr where "pr = (case head ?b of None \<Rightarrow> (node_prev w)(a := None)
                         | Some h \<Rightarrow> (node_prev w)(a := None, h := Some a))"
  let ?buck = "?b\<lparr>head := Some a, buck_ncount := buck_ncount ?b + 1\<rparr>"
  let ?h = "insert_stats (buck_ncount ?b + 1) ((htab w)\<lparr>buckets := (buckets (htab w))[i := ?buck]\<rparr>)"
  have len: "Suc (length ?xs) < 2 ^ 32" using concat_length_update [OF i, of "[]"] room by simp
  have cnt: "buck_ncount ?b + 1 = of_nat (Suc (length ?xs))" using ok by (simp add: bucket_ok_def)
  have "hashInsertNode w hash a = Some (0, \<lparr>htab = ?h, node_next = nx, node_prev = pr\<rparr>)"
    using rd by (auto simp: hashInsertNode_def i_def [symmetric] Let_def nx_def pr_def split: option.splits)
  moreover have "hash_inv \<lparr>htab = ?h, node_next = nx, node_prev = pr\<rparr> (B[i := a # ?xs])"
  proof (rule hash_inv_update [OF inv i, where N = "{a}"])
    show "ncount ?h = of_nat (sum_list (map length (B[i := a # ?xs])))"
      "weight ?h = of_nat (sum_list (map (tri \<circ> length) (B[i := a # ?xs])))"
      "bcount ?h = of_nat (sum_list (map used (B[i := a # ?xs])))"
      using inv of_nat_small [OF len] cnt unfolding insert_stats_fields stats_update [OF i] hash_inv_def
      by (auto simp: tri_Suc used_def ac_simps)
    show "bucket_ok nx pr ?buck (a # ?xs)"
      using ok axs dxs by (cases ?xs) (auto simp: bucket_ok_def nx_def pr_def chain_Some)
    show "nx b = node_next w b \<and> pr b = node_prev w b" if "b \<in> set (concat B)" "b \<notin> set ?xs" for b
      using that a ok by (cases ?xs) (auto simp: nx_def pr_def bucket_ok_def)
    show "length (concat (B[i := a # ?xs])) < 2 ^ 32"
      using concat_length_update [OF i, of "a # ?xs"] room by simp
  qed (use a axs inv i in \<open>auto simp: insert_stats_fields hash_inv_def distinct_concat_iff_nth\<close>)
  ultimately show ?thesis by (simp add: insert_stats_fields)
qed

lemma chain_unlink:
  "chain f p (us @ u # a # ys) \<Longrightarrow> distinct (us @ u # a # ys) \<Longrightarrow> chain (f(u := f a)) p (us @ u # ys)"
  by (induction us arbitrary: p) auto

lemma prevs_append:
  "prevs pr p (us @ ys) \<longleftrightarrow> prevs pr p us \<and> prevs pr (if us = [] then p else Some (last us)) ys"
  by (induction us arbitrary: p) auto

lemma chain_at: "chain f p (us @ a # ys) \<Longrightarrow> chain f (f a) ys"
  by (induction us arbitrary: p) auto

lemma unlink_node_correct:
  assumes ch: "chain nx hd0 (xs @ a # ys)" and pv: "prevs pr None (xs @ a # ys)"
    and d: "distinct (xs @ a # ys)"
  shows "\<exists>nx' pr' hd'. unlink_node nx pr hd0 a = Some (nx', pr', hd') \<and> chain nx' hd' (xs @ ys)
     \<and> prevs pr' None (xs @ ys) \<and> (\<forall>z. z \<notin> set (xs @ ys) \<longrightarrow> nx' z = nx z \<and> pr' z = pr z)"
proof (cases xs rule: rev_cases)
  case Nil
  then show ?thesis
    using assms by (cases ys) (auto simp: unlink_node_def)
next
  case (snoc us u)
  have ya: "chain nx (nx a) ys" using ch by (rule chain_at)
  have pa: "pr a = Some u" using pv snoc by (simp add: prevs_append)
  have hd: "hd0 \<noteq> Some a" using ch d snoc by (cases us) auto
  have ua: "u \<noteq> a" "u \<notin> set ys" using d snoc by auto
  have c': "chain (nx(u := nx a)) hd0 (xs @ ys)"
    using chain_unlink [of nx hd0 us u a ys] ch d snoc by simp
  show ?thesis
  proof (cases ys)
    case Nil
    then show ?thesis
      using c' pa hd ua ya pv snoc by (simp add: unlink_node_def prevs_append)
  next
    case (Cons y zs)
    then have "nx a = Some y" using ya by simp
    moreover have "prevs (pr(y := Some u)) None (xs @ ys)"
      using pv d snoc Cons by (auto simp: prevs_append)
    ultimately show ?thesis using c' pa hd ua Cons snoc by (auto simp: unlink_node_def Let_def)
  qed
qed

lemma hashFreeNode_inv:
  assumes inv: "hash_inv w B" and i_def: "i = bucket_index (htab w) hash" and a: "a \<in> set (B ! i)"
  shows "\<exists>w'. hashFreeNode w a hash = Some w' \<and> hash_inv w' (B[i := remove1 a (B ! i)])
           \<and> hashsize (htab w') = hashsize (htab w)"
proof -
  let ?b = "buckets (htab w) ! i"
  have i: "i < length B" using bucket_index_less [OF inv] by (simp add: i_def)
  have ok: "bucket_ok (node_next w) (node_prev w) ?b (B ! i)"
    and rd: "arr_read (buckets (htab w)) i = Some ?b"
    using bucket_read [OF inv] by (auto simp: i_def)
  obtain xs ys where B: "B ! i = xs @ a # ys" using a by (meson split_list)
  have "distinct (B ! i)" using inv i by (simp add: hash_inv_def distinct_concat_iff_nth)
  then have d: "distinct (xs @ a # ys)" and rm: "remove1 a (B ! i) = xs @ ys"
    using B by (auto simp: remove1_append)
  obtain nx pr hd' where u: "unlink_node (node_next w) (node_prev w) (head ?b) a = Some (nx, pr, hd')"
      "chain nx hd' (xs @ ys)" "prevs pr None (xs @ ys)"
      "\<And>z. z \<notin> set (xs @ ys) \<Longrightarrow> nx z = node_next w z \<and> pr z = node_prev w z"
    using unlink_node_correct [of "node_next w" "head ?b" xs a ys "node_prev w"] ok d B
    by (auto simp: bucket_ok_def)
  obtain hd0 where ne: "head ?b = Some hd0" using ok B by (cases xs) (auto simp: bucket_ok_def)
  define buck where "buck = ?b\<lparr>head := hd', buck_ncount := buck_ncount ?b - 1\<rparr>"
  define h where "h = (let h = (htab w)\<lparr>buckets := (buckets (htab w))[i := buck],
       weight := weight (htab w) - ucast (buck_ncount buck + 1), ncount := ncount (htab w) - 1\<rparr>
     in if buck_ncount buck = 0 then h\<lparr>bcount := bcount h - 1\<rparr> else h)"
  have len: "length (xs @ ys) < 2 ^ 32" "Suc (length (xs @ ys)) < 2 ^ 32"
    using bucket_length_less [OF inv i] B by auto
  have cnt: "buck_ncount buck = of_nat (length (xs @ ys))"
    "buck_ncount buck + 1 = of_nat (Suc (length (xs @ ys)))"
    using ok B by (simp_all add: bucket_ok_def buck_def)
  have "hashFreeNode w a hash = Some \<lparr>htab = h, node_next = nx, node_prev = pr\<rparr>"
    using rd u(1) ne
    by (simp add: hashFreeNode_def i_def [symmetric] Let_def h_def buck_def)
  moreover have "hash_inv \<lparr>htab = h, node_next = nx, node_prev = pr\<rparr> (B[i := xs @ ys])"
  proof (rule hash_inv_update [OF inv i, where N = "{}"])
    have c1: "ucast (buck_ncount buck + 1) = (of_nat (Suc (length (xs @ ys))) :: u64)"
      unfolding cnt(2) by (rule of_nat_small(3) [OF len(2)])
    have c0: "buck_ncount buck = 0 \<longleftrightarrow> xs @ ys = []"
      unfolding cnt(1) of_nat_small(2) [OF len(1)] by simp
    show "ncount h = of_nat (sum_list (map length (B[i := xs @ ys])))"
      "weight h = of_nat (sum_list (map (tri \<circ> length) (B[i := xs @ ys])))"
      "bcount h = of_nat (sum_list (map used (B[i := xs @ ys])))"
      using inv c1 c0 unfolding stats_update [OF i] B hash_inv_def
      by (auto simp: h_def Let_def tri_Suc used_def)
    show "bucket_ok nx pr buck (xs @ ys)"
      using u(2,3) cnt(1) by (simp add: bucket_ok_def buck_def)
    show "nx b = node_next w b \<and> pr b = node_prev w b" if "b \<in> set (concat B)" "b \<notin> set (B ! i)" for b
      using u(4) [of b] that B by simp
    show "length (concat (B[i := xs @ ys])) < 2 ^ 32"
      using concat_length_update [OF i, of "xs @ ys"] inv B by (simp add: hash_inv_def)
  qed (use d B in \<open>auto simp: h_def Let_def\<close>)
  ultimately show ?thesis unfolding rm by (simp add: h_def Let_def)
qed

section \<open>Interface\<close>

text \<open>
  What a client relies on: the table holds a finite map from nodes to the hash each was inserted
  with; a lookup under a hash finds a node that satisfies the comparison if one was inserted with
  that hash, and only nodes of the table.
\<close>

locale node_index =
  fixes rep :: "'s \<Rightarrow> (addr \<rightharpoonup> 'h) \<Rightarrow> bool"
    and room :: "'s \<Rightarrow> bool"
    and find_node :: "'s \<Rightarrow> 'h \<Rightarrow> (addr \<Rightarrow> bool) \<Rightarrow> ptr option"
    and insert_node :: "'s \<Rightarrow> 'h \<Rightarrow> addr \<Rightarrow> (int \<times> 's) option"
    and free_node :: "'s \<Rightarrow> addr \<Rightarrow> 'h \<Rightarrow> 's option"
  assumes find_total: "rep s f \<Longrightarrow> \<exists>r. find_node s h cmp = Some r"
    and find_sound: "rep s f \<Longrightarrow> find_node s h cmp = Some (Some a) \<Longrightarrow> a \<in> dom f \<and> cmp a"
    and find_complete: "rep s f \<Longrightarrow> f a = Some h \<Longrightarrow> cmp a \<Longrightarrow> find_node s h cmp \<noteq> Some None"
    and insert_ok: "rep s f \<Longrightarrow> a \<notin> dom f \<Longrightarrow> room s \<Longrightarrow>
        \<exists>s'. insert_node s h a = Some (0, s') \<and> rep s' (f(a \<mapsto> h))"
    and free_ok: "rep s f \<Longrightarrow> f a = Some h \<Longrightarrow> \<exists>s'. free_node s a h = Some s' \<and> rep s' (f(a := None))"
begin

text \<open>
  Nodes with keys: if every node was inserted under the hash of its key and no two nodes of the
  table have the same key, the lookup of a key is exact.
\<close>

lemma find_key:
  assumes "rep s f" "\<forall>a\<in>dom f. f a = Some (H (key a))" "inj_on key (dom f)"
  shows "find_node s (H k) (\<lambda>a. key a = k) = Some (Some a) \<longleftrightarrow> a \<in> dom f \<and> key a = k"
proof
  assume "a \<in> dom f \<and> key a = k"
  then have "f a = Some (H k)" using assms(2) by blast
  then obtain b where b: "find_node s (H k) (\<lambda>a. key a = k) = Some (Some b)"
    using find_complete [OF assms(1), of a "H k" "\<lambda>a. key a = k"] find_total [OF assms(1)] \<open>_ \<and> _\<close>
    by (metis option.exhaust)
  then have "b \<in> dom f \<and> key b = k" using find_sound [OF assms(1)] by blast
  then have "b = a" using \<open>a \<in> dom f \<and> _\<close> assms(3) by (auto dest: inj_onD)
  then show "find_node s (H k) (\<lambda>a. key a = k) = Some (Some a)" using b by simp
qed (use find_sound [OF assms(1)] in blast)

lemma find_key_none:
  assumes "rep s f" "\<forall>a\<in>dom f. f a = Some (H (key a))" "inj_on key (dom f)"
  shows "find_node s (H k) (\<lambda>a. key a = k) = Some None \<longleftrightarrow> k \<notin> key ` dom f"
proof -
  obtain r where "find_node s (H k) (\<lambda>a. key a = k) = Some r" using find_total [OF assms(1)] by blast
  then show ?thesis
    using find_key [OF assms, of k] by (cases r) force+
qed

end

definition hash_rep :: "hash_world \<Rightarrow> (addr \<rightharpoonup> u32) \<Rightarrow> bool" where
  "hash_rep w f \<longleftrightarrow> (\<exists>B. hash_inv w B \<and> dom f = set (concat B)
     \<and> (\<forall>i<length B. \<forall>a\<in>set (B ! i). \<exists>h. f a = Some h \<and> bucket_index (htab w) h = i))"

text \<open>The 32-bit node count can still be incremented.\<close>

definition hash_room :: "hash_world \<Rightarrow> bool" where
  "hash_room w \<longleftrightarrow> ncount (htab w) \<noteq> - 1"

lemma hash_room_iff:
  assumes "hash_inv w B"
  shows "hash_room w \<longleftrightarrow> length (concat B) + 1 < 2 ^ 32"
proof -
  have n: "ncount (htab w) = of_nat (length (concat B))" and l: "length (concat B) < 2 ^ 32"
    using assms by (auto simp: hash_inv_def length_concat)
  have "(- 1 :: u32) = of_nat (2 ^ 32 - 1)" by simp
  then have "hash_room w \<longleftrightarrow> length (concat B) \<noteq> 2 ^ 32 - 1"
    unfolding hash_room_def n by (simp only:) (rule arg_cong [OF of_nat_eq32], use l in simp_all)
  then show ?thesis using l by auto
qed

lemma find_mem: "find P xs = Some a \<Longrightarrow> a \<in> set xs \<and> P a"
  by (auto simp: find_Some_iff in_set_conv_nth)

lemma bucket_index_cong: "hashsize h = hashsize h' \<Longrightarrow> bucket_index h = bucket_index h'"
  by (simp add: bucket_index_def fun_eq_iff)

lemma hash_rep_insert:
  assumes rep: "hash_rep w f" and a: "a \<notin> dom f" and room: "hash_room w"
  shows "\<exists>w'. hashInsertNode w h a = Some (0, w') \<and> hash_rep w' (f(a \<mapsto> h))"
proof -
  obtain B where B: "hash_inv w B" "dom f = set (concat B)"
      "\<And>i a. i < length B \<Longrightarrow> a \<in> set (B ! i) \<Longrightarrow> \<exists>h. f a = Some h \<and> bucket_index (htab w) h = i"
    using rep unfolding hash_rep_def by blast
  let ?i = "bucket_index (htab w) h"
  have i: "?i < length B" using bucket_index_less [OF B(1)] .
  obtain w' where w': "hashInsertNode w h a = Some (0, w')" "hash_inv w' (B[?i := a # B ! ?i])"
      "hashsize (htab w') = hashsize (htab w)"
    using hashInsertNode_inv [OF B(1), of a ?i h] a B(2) room hash_room_iff [OF B(1)] by auto
  have idx: "bucket_index (htab w') = bucket_index (htab w)" using bucket_index_cong [OF w'(3)] .
  have a': "a \<notin> set (B ! j)" if "j < length B" for j using a B(2) nth_mem [OF that] by auto
  have mem: "\<exists>k. (f(a \<mapsto> h)) b = Some k \<and> bucket_index (htab w') k = j"
    if "j < length B" "b \<in> set (B[?i := a # B ! ?i] ! j)" for j b
    using that B(3) [of j b] a' [of j] i unfolding idx by (cases "j = ?i"; cases "b = a") auto
  have "dom (f(a \<mapsto> h)) = set (concat (B[?i := a # B ! ?i]))"
    using B(2) set_concat_update [OF i, of "a # B ! ?i"] set_concat_update [OF i, of "B ! ?i"]
    unfolding list_update_id by auto
  then have "hash_rep w' (f(a \<mapsto> h))" unfolding hash_rep_def
    using w'(2) mem by (intro exI [of _ "B[?i := a # B ! ?i]"]) simp
  then show ?thesis using w'(1) by blast
qed

lemma hash_rep_free:
  assumes rep: "hash_rep w f" and a: "f a = Some h"
  shows "\<exists>w'. hashFreeNode w a h = Some w' \<and> hash_rep w' (f(a := None))"
proof -
  obtain B where B: "hash_inv w B" "dom f = set (concat B)"
      "\<And>i a. i < length B \<Longrightarrow> a \<in> set (B ! i) \<Longrightarrow> \<exists>h. f a = Some h \<and> bucket_index (htab w) h = i"
    using rep unfolding hash_rep_def by blast
  let ?i = "bucket_index (htab w) h" and ?ys = "remove1 a (B ! bucket_index (htab w) h)"
  have i: "?i < length B" using bucket_index_less [OF B(1)] .
  have ai: "j = ?i" if "j < length B" "a \<in> set (B ! j)" for j using B(3) [OF that] a by auto
  have "a \<in> set (concat B)" using a B(2) by auto
  then obtain j where "j < length B" "a \<in> set (B ! j)" using in_concat_nth [of a B] by auto
  then have mem: "a \<in> set (B ! ?i)" using ai by blast
  obtain w' where w': "hashFreeNode w a h = Some w'" "hash_inv w' (B[?i := ?ys])"
      "hashsize (htab w') = hashsize (htab w)"
    using hashFreeNode_inv [OF B(1) refl mem] by auto
  have idx: "bucket_index (htab w') = bucket_index (htab w)" using bucket_index_cong [OF w'(3)] .
  have d: "distinct (B ! ?i)" using B(1) i by (simp add: hash_inv_def distinct_concat_iff_nth)
  have mem': "\<exists>k. (f(a := None)) b = Some k \<and> bucket_index (htab w') k = j"
    if "j < length B" "b \<in> set (B[?i := ?ys] ! j)" for j b
  proof -
    have "b \<in> set (B ! j) \<and> b \<noteq> a"
    proof (cases "j = ?i")
      case True
      then show ?thesis using that(2) i d by (simp add: set_remove1_eq)
    next
      case False
      then show ?thesis using that ai [OF that(1)] by auto
    qed
    then show ?thesis using B(3) [OF that(1)] by (simp add: idx)
  qed
  have "dom (f(a := None)) = set (concat (B[?i := ?ys]))"
    using B(2) ai set_concat_update [OF i, of ?ys] set_concat_update [OF i, of "B ! ?i"] d mem
    unfolding list_update_id by auto
  then have "hash_rep w' (f(a := None))" unfolding hash_rep_def
    using w'(2) mem' by (intro exI [of _ "B[?i := ?ys]"]) simp
  then show ?thesis using w'(1) by blast
qed

interpretation ght: node_index hash_rep hash_room hashFindNode hashInsertNode hashFreeNode
proof
  fix s f h cmp assume "hash_rep s f"
  then show "\<exists>r. hashFindNode s h cmp = Some r" by (auto simp: hash_rep_def hashFindNode_eq)
next
  fix s f h cmp a assume rep: "hash_rep s f" and f: "hashFindNode s h cmp = Some (Some a)"
  then obtain B where B: "hash_inv s B" "dom f = set (concat B)" by (auto simp: hash_rep_def)
  have "a \<in> set (B ! bucket_index (htab s) h) \<and> cmp a"
    using f B(1) by (intro find_mem) (simp add: hashFindNode_eq)
  then show "a \<in> dom f \<and> cmp a" using B nth_mem [OF bucket_index_less [OF B(1), of h]] by auto
next
  fix s f a h cmp assume rep: "hash_rep s f" and a: "f a = Some h" "cmp a"
  then obtain B where B: "hash_inv s B" "dom f = set (concat B)"
      "\<And>i b. i < length B \<Longrightarrow> b \<in> set (B ! i) \<Longrightarrow> \<exists>h. f b = Some h \<and> bucket_index (htab s) h = i"
    unfolding hash_rep_def by blast
  have "a \<in> set (concat B)" using a B(2) by auto
  then obtain j where j: "j < length B" "a \<in> set (B ! j)" using in_concat_nth [of a B] by auto
  then have "j = bucket_index (htab s) h" using B(3) a by fastforce
  then show "hashFindNode s h cmp \<noteq> Some None"
    using j a(2) B(1) by (auto simp: hashFindNode_eq find_None_iff)
next
  fix s f a h assume "hash_rep s f" "a \<notin> dom f" "hash_room s"
  then show "\<exists>s'. hashInsertNode s h a = Some (0, s') \<and> hash_rep s' (f(a \<mapsto> h))"
    by (rule hash_rep_insert)
next
  fix s f a h assume "hash_rep s f" "f a = Some h"
  then show "\<exists>s'. hashFreeNode s a h = Some s' \<and> hash_rep s' (f(a := None))"
    by (rule hash_rep_free)
qed

section \<open>Creation and traversal\<close>

lemma hashInit_eq:
  assumes "hsize \<noteq> 0" "hmax \<noteq> 0"
  defines "m \<equiv> min (unat hsize) 0x2000000"
  shows "\<exists>k\<le>31. hashInit True h0 hsize hmax
      = Some (0, zero_hash\<lparr>buckets := replicate (2 ^ k) \<lparr>buck_ncount = 0, head = None\<rparr>,
                            hashsize := 2 ^ k, hashmax := hmax\<rparr>)
     \<and> 2 ^ k \<le> m \<and> m < 2 ^ (k + 1)"
proof -
  let ?s = "if hsize > GENERIC_MAX_HASH_SIZE then GENERIC_MAX_HASH_SIZE else hsize"
  have s: "?s \<noteq> 0" "unat ?s = m"
    using assms(1) by (auto simp: GENERIC_MAX_HASH_SIZE_def m_def word_less_nat_alt)
  obtain k where k: "k \<le> 31" "admit_loop ?s 0x80000000 = Some (2 ^ k)" "2 ^ k \<le> m" "m < 2 ^ (k + 1)"
    using admit_loop_pow [OF s(1)] s(2) by auto
  have "unat (2 ^ k :: u32) = 2 ^ k" using k(1) by (intro unat_power32) simp
  then show ?thesis using k assms(1,2) by (intro exI [of _ k]) (simp add: hashInit_def Let_def)
qed

lemma hash_inv_empty:
  assumes "k \<le> 31"
  shows "hash_inv \<lparr>htab = zero_hash\<lparr>buckets := replicate (2 ^ k) \<lparr>buck_ncount = 0, head = None\<rparr>,
      hashsize := 2 ^ k, hashmax := m\<rparr>, node_next = nx, node_prev = pr\<rparr> (replicate (2 ^ k) [])"
  using assms unat_power32 [of k]
  by (auto simp: hash_inv_def zero_hash_def bucket_ok_def sum_list_replicate used_def tri_def)

fun fold_until :: "('c \<Rightarrow> 'a \<Rightarrow> 'c \<times> bool) \<Rightarrow> 'a list \<Rightarrow> 'c \<Rightarrow> 'c \<times> bool" where
  "fold_until g [] c = (c, False)"
| "fold_until g (x # xs) c = (case g c x of (c', stop) \<Rightarrow> if stop then (c', True) else fold_until g xs c')"

lemma fold_until_append:
  "fold_until g (xs @ ys) c
    = (case fold_until g xs c of (c', stop) \<Rightarrow> if stop then (c', True) else fold_until g ys c')"
  by (induction xs arbitrary: c) (auto split: prod.splits)

lemma traverse_bucket_correct:
  "chain nx p xs \<Longrightarrow> traverse_bucket g nx p c = Some (fold_until g xs c)"
proof (induction xs arbitrary: p c)
  case Nil
  then show ?case by (subst traverse_bucket.simps) simp
next
  case (Cons x xs)
  then show ?case by (subst traverse_bucket.simps) (simp split: prod.splits)
qed

lemma traverse_buckets_correct:
  assumes "\<And>i. i \<in> set is \<Longrightarrow> i < length bucks \<and> chain nx (head (bucks ! i)) (B ! i)"
  shows "traverse_buckets g nx bucks is c = Some (fst (fold_until g (concat (map ((!) B) is)) c))"
  using assms
proof (induction "is" arbitrary: c)
  case (Cons i js)
  have i: "i < length bucks" and "chain nx (head (bucks ! i)) (B ! i)"
    using Cons.prems [of i] by simp_all
  then have tb: "traverse_bucket g nx (head (bucks ! i)) c = Some (fold_until g (B ! i) c)"
    by (simp add: traverse_bucket_correct)
  have IH: "traverse_buckets g nx bucks js c' = Some (fst (fold_until g (concat (map ((!) B) js)) c'))" for c'
    using Cons.prems by (intro Cons.IH) simp
  show ?case
    by (cases "fold_until g (B ! i) c") (simp add: arr_read_in [OF i] tb IH fold_until_append)
qed simp

lemma hashTraverse_eq:
  assumes "hash_inv w B"
  shows "hashTraverse g w c = Some (fst (fold_until g (concat B) c))"
proof -
  have len: "length B = unat (hashsize (htab w))" "length B = length (buckets (htab w))"
    using assms by (simp_all add: hash_inv_def)
  have "i < length (buckets (htab w)) \<and> chain (node_next w) (head (buckets (htab w) ! i)) (B ! i)"
    if "i \<in> set [0..<length B]" for i
    using assms that by (simp add: hash_inv_def bucket_ok_def)
  from traverse_buckets_correct [of "[0..<length B]", OF this] show ?thesis
    unfolding hashTraverse_def by (simp add: len(1) [symmetric] map_nth)
qed

section \<open>Properties\<close>

definition ex_hash_world :: hash_world where
  "ex_hash_world = \<lparr>htab = zero_hash\<lparr>buckets := replicate 4 \<lparr>buck_ncount = 0, head = None\<rparr>,
     hashsize := 4, hashmax := 10\<rparr>, node_next = Map.empty, node_prev = Map.empty\<rparr>"

lemma ex_hash_rep: "hash_rep ex_hash_world Map.empty" "hash_room ex_hash_world"
proof -
  have "hash_inv ex_hash_world (replicate 4 [])"
    using hash_inv_empty [of 2 10 Map.empty Map.empty] by (simp add: ex_hash_world_def)
  then show "hash_rep ex_hash_world Map.empty" unfolding hash_rep_def by auto
  show "hash_room ex_hash_world" by (simp add: hash_room_def ex_hash_world_def zero_hash_def)
qed

text \<open>C16: In a table in which every node is stored under the hash of its key and the keys are
  distinct, inserting a node with a new key succeeds, the new node is then found under its key, and
  the lookup of every other key gives what it gave before; the table stays well formed.\<close>

theorem hash_insert_lookup:
  assumes "hash_rep w f" "hash_room w" "a \<notin> dom f"
    and "\<forall>b\<in>dom f. f b = Some (H (key b))" "inj_on key (insert a (dom f))"
  shows "\<exists>w'. hashInsertNode w (H (key a)) a = Some (0, w') \<and> hash_rep w' (f(a \<mapsto> H (key a)))
     \<and> (\<forall>k. hashFindNode w' (H k) (\<lambda>b. key b = k)
            = (if k = key a then Some (Some a) else hashFindNode w (H k) (\<lambda>b. key b = k)))"
proof -
  obtain w' where w': "hashInsertNode w (H (key a)) a = Some (0, w')" "hash_rep w' (f(a \<mapsto> H (key a)))"
    using ght.insert_ok [OF assms(1,3,2)] by blast
  have inj: "inj_on key (dom f)" and na: "key a \<notin> key ` dom f" using assms(3,5) by (auto simp: inj_on_insert)
  have keyed': "\<forall>b\<in>dom (f(a \<mapsto> H (key a))). (f(a \<mapsto> H (key a))) b = Some (H (key b))"
    and inj': "inj_on key (dom (f(a \<mapsto> H (key a))))"
    using assms(4,5) by auto
  have "hashFindNode w' (H k) (\<lambda>b. key b = k) = hashFindNode w (H k) (\<lambda>b. key b = k)" if "k \<noteq> key a" for k
  proof -
    obtain r where r: "hashFindNode w (H k) (\<lambda>b. key b = k) = Some r" using ght.find_total [OF assms(1)] by blast
    then show ?thesis
    proof (cases r)
      case None
      then have "k \<notin> key ` dom (f(a \<mapsto> H (key a)))"
        using r ght.find_key_none [OF assms(1,4) inj, of k] that by auto
      then show ?thesis using None r ght.find_key_none [OF w'(2) keyed' inj', of k] by metis
    next
      case (Some b)
      then have "b \<in> dom (f(a \<mapsto> H (key a))) \<and> key b = k"
        using r ght.find_key [OF assms(1,4) inj, of k b] by auto
      then show ?thesis using Some r ght.find_key [OF w'(2) keyed' inj', of k b] by metis
    qed
  qed
  moreover have "hashFindNode w' (H (key a)) (\<lambda>b. key b = key a) = Some (Some a)"
    using ght.find_key [OF w'(2) keyed' inj', of "key a" a] by simp
  ultimately show ?thesis using w' by auto
qed

theorem hash_insert_lookup_witness:
  "\<exists>w'. hashInsertNode ex_hash_world 7 100 = Some (0, w') \<and> hashFindNode w' 7 (\<lambda>b. b = 100) = Some (Some 100)"
  using hash_insert_lookup [OF ex_hash_rep, of 100 "\<lambda>_. 7" "\<lambda>b. b"] by (auto simp: inj_on_def)

text \<open>C17: Removing a node that is in the table under the given hash succeeds without a NULL
  dereference; afterwards no lookup returns that node, and every other node of the table is still
  found by its address.\<close>

theorem hash_free_lookup:
  assumes "hash_rep w f" "f a = Some h"
  shows "\<exists>w'. hashFreeNode w a h = Some w' \<and> hash_rep w' (f(a := None))
     \<and> (\<forall>h' cmp. hashFindNode w' h' cmp \<noteq> Some (Some a))
     \<and> (\<forall>b. b \<noteq> a \<longrightarrow> b \<in> dom f \<longrightarrow> hashFindNodeByPtr w' (the (f b)) b = Some (Some b))"
proof -
  obtain w' where w': "hashFreeNode w a h = Some w'" "hash_rep w' (f(a := None))"
    using ght.free_ok [OF assms] by blast
  have "hashFindNodeByPtr w' (the (f b)) b = Some (Some b)" if "b \<noteq> a" "b \<in> dom f" for b
  proof -
    have fb: "(f(a := None)) b = Some (the (f b))" using that by auto
    obtain r where r: "hashFindNode w' (the (f b)) (\<lambda>x. x = b) = Some r" using ght.find_total [OF w'(2)] by blast
    then have "r \<noteq> None" using ght.find_complete [OF w'(2) fb, of "\<lambda>x. x = b"] by auto
    then have "hashFindNode w' (the (f b)) (\<lambda>x. x = b) = Some (Some b)"
      using r ght.find_sound [OF w'(2)] by fastforce
    then show ?thesis by (simp add: hashFindNodeByPtr_def hashFindNode_def)
  qed
  moreover have "hashFindNode w' h' cmp \<noteq> Some (Some a)" for h' cmp
    using ght.find_sound [OF w'(2)] by fastforce
  ultimately show ?thesis using w' by auto
qed

theorem hash_free_lookup_witness:
  "\<exists>w w'. hashInsertNode ex_hash_world 7 100 = Some (0, w) \<and> hashFreeNode w 100 7 = Some w'
     \<and> hashFindNode w' 7 (\<lambda>b. b = 100) \<noteq> Some (Some 100)"
proof -
  obtain w where "hashInsertNode ex_hash_world 7 100 = Some (0, w)" "hash_rep w [100 \<mapsto> 7]"
    using hash_rep_insert [OF ex_hash_rep(1) _ ex_hash_rep(2), of 100 7] by auto
  then show ?thesis using hash_free_lookup [of w "[100 \<mapsto> 7]" 100 7] by auto
qed

text \<open>\<open>hashInit\<close> with positive arguments terminates; it creates as many empty buckets as the
  largest power of two not above the requested size (capped at \<open>0x2000000\<close>), so that masking a
  hash with \<open>hashsize - 1\<close> is always a valid bucket index.\<close>

theorem hashInit_correct:
  assumes "hsize \<noteq> 0" "hmax \<noteq> 0"
  shows "\<exists>h k. hashInit True h0 hsize hmax = Some (0, h) \<and> unat (hashsize h) = 2 ^ k
     \<and> 2 ^ k \<le> min (unat hsize) 0x2000000 \<and> min (unat hsize) 0x2000000 < 2 ^ (k + 1)
     \<and> length (buckets h) = 2 ^ k \<and> (\<forall>hash. bucket_index h hash < 2 ^ k)
     \<and> hash_rep \<lparr>htab = h, node_next = nx, node_prev = pr\<rparr> Map.empty"
proof -
  obtain k where k: "k \<le> 31" "hashInit True h0 hsize hmax
      = Some (0, zero_hash\<lparr>buckets := replicate (2 ^ k) \<lparr>buck_ncount = 0, head = None\<rparr>,
                            hashsize := 2 ^ k, hashmax := hmax\<rparr>)"
      "2 ^ k \<le> min (unat hsize) 0x2000000" "min (unat hsize) 0x2000000 < 2 ^ (k + 1)"
    using hashInit_eq [OF assms, of h0] by blast
  let ?h = "zero_hash\<lparr>buckets := replicate (2 ^ k) \<lparr>buck_ncount = 0, head = None\<rparr>,
                            hashsize := 2 ^ k, hashmax := hmax\<rparr>"
  note inv = hash_inv_empty [OF k(1), of hmax nx pr]
  have "hash_rep \<lparr>htab = ?h, node_next = nx, node_prev = pr\<rparr> Map.empty"
    unfolding hash_rep_def using inv by (intro exI [of _ "replicate (2 ^ k) []"]) auto
  moreover have "bucket_index ?h hash < 2 ^ k" for hash using bucket_index_less [OF inv] by simp
  moreover have "unat (hashsize ?h) = 2 ^ k" using unat_power32 [of k] k(1) by simp
  ultimately show ?thesis using k(2-4) by (intro exI [of _ ?h] exI [of _ k]) simp
qed

theorem hashInit_correct_witness:
  "\<exists>h k. hashInit True zero_hash 100 1 = Some (0, h) \<and> unat (hashsize h) = 2 ^ k
     \<and> 2 ^ k \<le> min (unat (100 :: u32)) 0x2000000"
  using hashInit_correct [of 100 1 zero_hash Map.empty Map.empty] by auto

text \<open>\<open>hashTraverse\<close> terminates and calls the handler on every node of the table exactly once,
  bucket by bucket, until the handler asks to stop; the statistics counters agree with the content.\<close>

theorem hashTraverse_correct:
  assumes "hash_rep w f"
  shows "\<exists>xs. distinct xs \<and> set xs = dom f \<and> ncount (htab w) = of_nat (length xs)
     \<and> hashTraverse g w c = Some (fst (fold_until g xs c))"
proof -
  obtain B where B: "hash_inv w B" "dom f = set (concat B)" using assms by (auto simp: hash_rep_def)
  then show ?thesis
    using hashTraverse_eq [OF B(1)] by (intro exI [of _ "concat B"]) (simp add: hash_inv_def length_concat)
qed

theorem hashTraverse_correct_witness:
  "\<exists>xs. distinct xs \<and> set xs = dom (Map.empty :: addr \<rightharpoonup> u32)
     \<and> hashTraverse (\<lambda>c a. (c + 1, False)) ex_hash_world (0 :: nat) = Some (fst (fold_until (\<lambda>c a. (c + 1, False)) xs 0))"
  using hashTraverse_correct [OF ex_hash_rep(1), of "\<lambda>c a. (c + 1, False)" 0] by blast

end
