(* ===== verification/Sf_Pool.thy ===== *)
theory Sf_Pool
  imports Sf_Prelude "HOL-Library.Multiset"
begin

text \<open>
  The node pool of \<open>sf_lib/sf_pool\<close>: a global free list shared by the workers, and per
  worker a stack of cached nodes whose upper part doubles as a linked list that is handed back to
  the global list in one splice.  All operations of \<open>sf_pool.h\<close> and \<open>sf_pool.c\<close> that change
  state are modelled; every access to the stack array and every dereference of the last node is
  checked, so \<open>None\<close> is a memory error of the C code.

  The memory allocator of VPP is not part of the repository.  It is the field \<open>malloc\<close> of the
  world: the answer to the k-th request for n bytes.  The predicate \<open>malloc_ok\<close> states that
  blocks returned by different calls do not overlap.
  The 32-bit counters are natural numbers; the invariant shows that no decrement underflows and
  bounds every counter (\<open>pool_counters_fit\<close>).  Byte counts and offsets, which are products of two
  32-bit values, are reduced modulo \<open>2 ^ 32\<close> where the code computes them.
\<close>

section \<open>State\<close>

record sf_pool_per_thread_t =
  current_stack_len :: nat
  stack_max_len :: nat
  free_list_len :: nat
  free_list_max_len :: nat
  local_pool_stack :: "addr list"
  local_free_list :: ptr
  local_last_node :: ptr

record sf_pool_head_t =
  next_hdr :: ptr
  pool_name :: string
  init_size :: nat
  increase_size :: nat
  fill_free_size :: nat
  pool_mem_inc_max :: nat
  local_cache_size :: nat
  data_len :: nat
  data_align_len :: nat
  pool_mem_inc_time :: nat
  free_cnt :: nat
  total_cnt :: nat
  freelist :: ptr
  per_worker_pool :: "sf_pool_per_thread_t list"

text \<open>
  The world of one pool: its head, the field \<open>next\<close> of every node (a node's memory is the
  client's while it is allocated, so a client may overwrite this field), the allocator with the
  number of requests made so far, and the list of all pools.
\<close>

record pool_world =
  hdr :: sf_pool_head_t
  nxt :: pfield
  malloc :: "nat \<Rightarrow> nat \<Rightarrow> ptr"
  mcalls :: nat
  pool_record_header :: ptr

section \<open>Operations\<close>

definition CLIB_CACHE_LINE_BYTES :: nat where "CLIB_CACHE_LINE_BYTES = 64"
definition SF_POOL_ALIGNED_LEN :: nat where "SF_POOL_ALIGNED_LEN = 64"

definition align_data_len :: "nat \<Rightarrow> nat" where
  "align_data_len len =
    (let align_page_cnt = len div CLIB_CACHE_LINE_BYTES
                          + (if len mod CLIB_CACHE_LINE_BYTES > 0 then 1 else 0)
     in if len \<le> SF_POOL_ALIGNED_LEN then SF_POOL_ALIGNED_LEN
        else (align_page_cnt * CLIB_CACHE_LINE_BYTES) mod 2 ^ 32)"

text \<open>\<open>for(i=0 ; i<needed_size ; i++) target_array[i] = new_mem + data_align_len * i\<close>.\<close>

fun increase_loop :: "nat \<Rightarrow> addr \<Rightarrow> nat \<Rightarrow> nat \<Rightarrow> addr list \<Rightarrow> addr list option" where
  "increase_loop al new_mem i 0 target_array = Some target_array"
| "increase_loop al new_mem i (Suc k) target_array =
    do { target_array' \<leftarrow> arr_write target_array i (new_mem + (al * i) mod 2 ^ 32);
         increase_loop al new_mem (i + 1) k target_array' }"

definition sf_pool_increase_nodes ::
  "pool_world \<Rightarrow> addr list \<Rightarrow> nat \<Rightarrow> (nat \<times> pool_world \<times> addr list) option" where
  "sf_pool_increase_nodes w target_array needed_size =
    (let h = hdr w in
     if pool_mem_inc_time h < pool_mem_inc_max h then
       (let new_mem = malloc w (mcalls w) ((data_align_len h * needed_size) mod 2 ^ 32);
            w = w\<lparr>mcalls := mcalls w + 1\<rparr>
        in case new_mem of
             Some m \<Rightarrow>
               do { target_array' \<leftarrow> increase_loop (data_align_len h) m 0 needed_size target_array;
                    Some (needed_size,
                          w\<lparr>hdr := h\<lparr>pool_mem_inc_time := pool_mem_inc_time h + 1\<rparr>\<rparr>,
                          target_array') }
           | None \<Rightarrow> Some (0, w, target_array))
     else Some (0, w, target_array))"

text \<open>The loop that moves nodes from the global free list to the target array.\<close>

fun fill_loop ::
  "pfield \<Rightarrow> nat \<Rightarrow> nat \<Rightarrow> ptr \<Rightarrow> addr list \<Rightarrow> (nat \<times> ptr \<times> addr list) option" where
  "fill_loop nx idx 0 fl target_array = Some (idx, fl, target_array)"
| "fill_loop nx idx (Suc k) fl target_array =
    (case fl of
       None \<Rightarrow> Some (idx, fl, target_array)
     | Some p \<Rightarrow> do { target_array' \<leftarrow> arr_write target_array idx p;
                      fill_loop nx (idx + 1) k (nx p) target_array' })"

definition sf_pool_fill_cache ::
  "pool_world \<Rightarrow> addr list \<Rightarrow> bool \<Rightarrow> (nat \<times> pool_world \<times> addr list) option" where
  "sf_pool_fill_cache w target_array is_runtime =
    (let needed_size = (if is_runtime then fill_free_size (hdr w) else local_cache_size (hdr w)) in
     if free_cnt (hdr w) = 0 then
       do { (ret, w', target_array') \<leftarrow> sf_pool_increase_nodes w target_array needed_size;
            Some (ret, w'\<lparr>hdr := (hdr w')\<lparr>total_cnt := total_cnt (hdr w') + ret\<rparr>\<rparr>, target_array') }
     else
       do { (ret, fl, target_array') \<leftarrow>
              fill_loop (nxt w) 0 needed_size (freelist (hdr w)) target_array;
            Some (ret,
                  w\<lparr>hdr := (hdr w)\<lparr>freelist := fl, free_cnt := free_cnt (hdr w) - ret\<rparr>\<rparr>,
                  target_array') })"

text \<open>The splice of a worker's linked list in front of the global list; the last node is dereferenced.\<close>

definition sf_pool_recycle_cache :: "pool_world \<Rightarrow> ptr \<Rightarrow> ptr \<Rightarrow> pool_world option" where
  "sf_pool_recycle_cache w local_list last_node =
    (case last_node of
       None \<Rightarrow> None
     | Some l \<Rightarrow>
         Some (w\<lparr>nxt := (nxt w)(l := freelist (hdr w)),
                 hdr := (hdr w)\<lparr>freelist := local_list,
                                free_cnt := free_cnt (hdr w) + fill_free_size (hdr w)\<rparr>\<rparr>))"

text \<open>The worker's own pool: a pointer into \<open>per_worker_pool\<close>, here read and written by index.\<close>

definition get_local_pool :: "pool_world \<Rightarrow> nat \<Rightarrow> sf_pool_per_thread_t option" where
  "get_local_pool w worker_index = arr_read (per_worker_pool (hdr w)) worker_index"

definition put_local_pool :: "pool_world \<Rightarrow> nat \<Rightarrow> sf_pool_per_thread_t \<Rightarrow> pool_world" where
  "put_local_pool w worker_index lp =
    w\<lparr>hdr := (hdr w)\<lparr>per_worker_pool := (per_worker_pool (hdr w))[worker_index := lp]\<rparr>\<rparr>"

text \<open>The part of \<open>alloc_node_from_pool\<close> after the refill: pop the stack, repair the linked list.\<close>

definition pop_local :: "sf_pool_per_thread_t \<Rightarrow> (addr \<times> sf_pool_per_thread_t) option" where
  "pop_local lp =
    do { let cur = current_stack_len lp - 1;
         pnode \<leftarrow> arr_read (local_pool_stack lp) cur;
         let lp = lp\<lparr>current_stack_len := cur\<rparr>;
         if cur > stack_max_len lp then
           do { top \<leftarrow> arr_read (local_pool_stack lp) (cur - 1);
                Some (pnode, lp\<lparr>local_free_list := Some top, free_list_len := free_list_len lp - 1\<rparr>) }
         else if cur = stack_max_len lp then
           Some (pnode, lp\<lparr>local_free_list := None, local_last_node := None,
                           free_list_len := free_list_len lp - 1\<rparr>)
         else Some (pnode, lp) }"

definition alloc_node_from_pool :: "nat \<Rightarrow> pool_world \<Rightarrow> (pool_world \<times> ptr) option" where
  "alloc_node_from_pool wi w =
    do { lp \<leftarrow> get_local_pool w wi;
         (w, lp) \<leftarrow>
           (if current_stack_len lp = 0 then
              do { (ret, w, stack) \<leftarrow> sf_pool_fill_cache w (local_pool_stack lp) True;
                   let lp = lp\<lparr>local_pool_stack := stack\<rparr>;
                   Some (w, if ret = 0 then lp else lp\<lparr>current_stack_len := ret\<rparr>) }
            else Some (w, lp));
         if current_stack_len lp = 0 then Some (put_local_pool w wi lp, None)
         else
           do { (pnode, lp) \<leftarrow> pop_local lp;
                Some (put_local_pool w wi lp, Some pnode) } }"

definition free_node_to_pool :: "nat \<Rightarrow> pool_world \<Rightarrow> addr \<Rightarrow> pool_world option" where
  "free_node_to_pool wi w data_ptr =
    do { lp \<leftarrow> get_local_pool w wi;
         stack \<leftarrow> arr_write (local_pool_stack lp) (current_stack_len lp) data_ptr;
         let lp = lp\<lparr>local_pool_stack := stack, current_stack_len := current_stack_len lp + 1\<rparr>;
         if current_stack_len lp > stack_max_len lp then
           do { let w = w\<lparr>nxt := (nxt w)(data_ptr := local_free_list lp)\<rparr>;
                let lp = lp\<lparr>local_free_list := Some data_ptr, free_list_len := free_list_len lp + 1\<rparr>;
                let lp = (if local_last_node lp = None
                          then lp\<lparr>local_last_node := local_free_list lp\<rparr> else lp);
                if free_list_len lp \<ge> free_list_max_len lp then
                  do { w \<leftarrow> sf_pool_recycle_cache w (local_free_list lp) (local_last_node lp);
                       Some (put_local_pool w wi
                         (lp\<lparr>local_free_list := None, local_last_node := None, free_list_len := 0,
                             current_stack_len := current_stack_len lp - free_list_max_len lp\<rparr>)) }
                else Some (put_local_pool w wi lp) }
         else Some (put_local_pool w wi lp) }"

section \<open>Initialisation\<close>

datatype pool_init_error = Fill_free_gt_local_cache | Memory_not_enough | Pool_memory_error

text \<open>
  \<open>stack0\<close> is the content of the fresh vector \<open>vec_new_ha\<close> returns for the stack; only its
  length is determined by the code.
\<close>

definition sf_pool_init_local ::
  "pool_world \<Rightarrow> addr \<Rightarrow> (pool_world \<times> sf_pool_per_thread_t) option" where
  "sf_pool_init_local w junk =
    (let smax = local_cache_size (hdr w); fmax = fill_free_size (hdr w) in
     do { (ret, w, stack) \<leftarrow> sf_pool_fill_cache w (replicate (smax + fmax) junk) False;
          Some (w, \<lparr>current_stack_len = ret, stack_max_len = smax, free_list_len = 0,
                    free_list_max_len = fmax, local_pool_stack = stack,
                    local_free_list = None, local_last_node = None\<rparr>) })"

text \<open>The workers' local pools, in order; \<open>per_worker_pool\<close> grows as they are initialised.\<close>

fun init_locals :: "nat \<Rightarrow> addr \<Rightarrow> pool_world \<Rightarrow> pool_world option" where
  "init_locals 0 junk w = Some w"
| "init_locals (Suc k) junk w =
    do { (w, lp) \<leftarrow> sf_pool_init_local w junk;
         init_locals k junk (w\<lparr>hdr := (hdr w)\<lparr>per_worker_pool := per_worker_pool (hdr w) @ [lp]\<rparr>\<rparr>) }"

text \<open>\<open>for(i=0; i<init_size; i++)\<close>: split the first block and push every node on the free list.\<close>

fun split_memory :: "nat \<Rightarrow> addr \<Rightarrow> nat \<Rightarrow> nat \<Rightarrow> pfield \<Rightarrow> ptr \<Rightarrow> pfield \<times> ptr" where
  "split_memory al memory_start i 0 nx fl = (nx, fl)"
| "split_memory al memory_start i (Suc k) nx fl =
    (let pool_node = memory_start + (i * al) mod 2 ^ 32
     in split_memory al memory_start (i + 1) k (nx(pool_node := fl)) (Some pool_node))"

definition sf_pool_init ::
  "pool_world \<Rightarrow> addr \<Rightarrow> addr \<Rightarrow> nat \<Rightarrow> string \<Rightarrow> nat \<Rightarrow> nat \<Rightarrow> nat \<Rightarrow> nat \<Rightarrow> nat
    \<Rightarrow> pool_init_error + pool_world" where
  "sf_pool_init w junk hdr_addr workers nm dlen init_size_per_worker cache_size fill_size inc_max =
    (let al = align_data_len dlen;
         n = (init_size_per_worker * workers) mod 2 ^ 32;
         h = \<lparr>next_hdr = pool_record_header w, pool_name = nm, init_size = n, increase_size = fill_size,
              fill_free_size = fill_size, pool_mem_inc_max = inc_max, local_cache_size = cache_size,
              data_len = dlen, data_align_len = al, pool_mem_inc_time = 0, free_cnt = 0,
              total_cnt = 0, freelist = None, per_worker_pool = []\<rparr>;
         w = w\<lparr>hdr := h, pool_record_header := Some hdr_addr\<rparr>
     in if fill_size > cache_size then Inl Fill_free_gt_local_cache
        else case malloc w (mcalls w) ((al * n) mod 2 ^ 32) of
          None \<Rightarrow> Inl Memory_not_enough
        | Some memory_start \<Rightarrow>
            (let (nx, fl) = split_memory al memory_start 0 n (nxt w) None;
                 w = w\<lparr>mcalls := mcalls w + 1, nxt := nx,
                       hdr := h\<lparr>freelist := fl, total_cnt := n, free_cnt := n\<rparr>\<rparr>
             in case init_locals workers junk w of
                  None \<Rightarrow> Inl Pool_memory_error
                | Some w \<Rightarrow> Inr w))"

section \<open>Loops\<close>

definition block_nodes :: "nat \<Rightarrow> addr \<Rightarrow> nat \<Rightarrow> addr list" where
  "block_nodes al b n = map (\<lambda>i. b + al * i) [0..<n]"

lemma length_block_nodes [simp]: "length (block_nodes al b n) = n"
  by (simp add: block_nodes_def)

lemma block_nodes_Suc: "block_nodes al b (Suc n) = block_nodes al b n @ [b + al * n]"
  by (simp add: block_nodes_def)

lemma increase_loop_correct:
  assumes "i + k \<le> length arr" "al * (i + k) < 2 ^ 32"
    and "take i arr = block_nodes al b i"
  shows "\<exists>arr'. increase_loop al b i k arr = Some arr' \<and> length arr' = length arr
           \<and> take (i + k) arr' = block_nodes al b (i + k)"
  using assms
proof (induction k arbitrary: i arr)
  case 0
  then show ?case by simp
next
  case (Suc k)
  have lt: "al * i < 2 ^ 32"
    using Suc.prems(2) by (metis add_leD1 le_less_trans mult_le_mono2 order_refl)
  let ?arr = "arr[i := b + (al * i) mod 2 ^ 32]"
  have "\<exists>arr'. increase_loop al b (i + 1) k ?arr = Some arr' \<and> length arr' = length ?arr
           \<and> take (i + 1 + k) arr' = block_nodes al b (i + 1 + k)"
    using Suc.prems lt
    by (intro Suc.IH) (simp_all add: list_update_take_drop block_nodes_Suc)
  then show ?case using Suc.prems by (simp add: arr_simps)
qed

lemma fill_loop_correct:
  assumes "chain nx fl xs" "i + k \<le> length arr"
  shows "\<exists>fl' arr'. fill_loop nx i k fl arr = Some (i + min k (length xs), fl', arr')
           \<and> length arr' = length arr \<and> chain nx fl' (drop k xs)
           \<and> take (i + min k (length xs)) arr' = take i arr @ take k xs"
  using assms
proof (induction k arbitrary: i fl xs arr)
  case 0
  then show ?case by simp
next
  case (Suc k)
  show ?case
  proof (cases xs)
    case Nil
    then show ?thesis using Suc.prems by simp
  next
    case (Cons x ys)
    then have fl: "fl = Some x" and ch: "chain nx (nx x) ys" using Suc.prems by auto
    obtain fl' arr' where *:
      "fill_loop nx (i + 1) k (nx x) (arr[i := x]) = Some (i + 1 + min k (length ys), fl', arr')"
      "length arr' = length arr" "chain nx fl' (drop k ys)"
      "take (i + 1 + min k (length ys)) arr' = take (i + 1) (arr[i := x]) @ take k ys"
      using Suc.IH [OF ch, of "i + 1" "arr[i := x]"] Suc.prems(2) by auto
    have "i < length arr" using Suc.prems(2) by simp
    then show ?thesis
      using * fl Cons by (simp add: arr_simps list_update_take_drop)
  qed
qed

lemma split_memory_correct:
  assumes "chain nx fl (rev (block_nodes al b i))" "al * (i + k) < 2 ^ 32" "0 < al"
    and "split_memory al b i k nx fl = (nx', fl')"
  shows "chain nx' fl' (rev (block_nodes al b (i + k)))"
  using assms
proof (induction k arbitrary: i nx fl)
  case 0
  then show ?case by simp
next
  case (Suc k)
  have lt: "i * al < 2 ^ 32"
    using Suc.prems(2) by (metis add_leD1 le_less_trans mult.commute mult_le_mono2 order_refl)
  have notin: "b + al * i \<notin> set (block_nodes al b i)"
    using Suc.prems(3) by (auto simp: block_nodes_def)
  have "chain (nx(b + al * i := fl)) (Some (b + al * i)) (rev (block_nodes al b (i + 1)))"
    using Suc.prems(1) notin by (simp add: block_nodes_Suc)
  then show ?case
    using Suc.IH [of _ _ "i + 1"] Suc.prems lt by (simp add: mult.commute Let_def)
qed

section \<open>Invariant\<close>

text \<open>Blocks of different requests do not overlap.\<close>

definition malloc_ok :: "(nat \<Rightarrow> nat \<Rightarrow> ptr) \<Rightarrow> bool" where
  "malloc_ok m \<longleftrightarrow>
    (\<forall>k k' n n' b b'. k \<noteq> k' \<longrightarrow> m k n = Some b \<longrightarrow> m k' n' = Some b' \<longrightarrow> b + n \<le> b' \<or> b' + n' \<le> b)"

text \<open>The cells of a local stack that hold nodes.\<close>

abbreviation live :: "sf_pool_per_thread_t \<Rightarrow> addr list" where
  "live lp \<equiv> take (current_stack_len lp) (local_pool_stack lp)"

definition local_inv :: "sf_pool_head_t \<Rightarrow> pfield \<Rightarrow> sf_pool_per_thread_t \<Rightarrow> bool" where
  "local_inv h nx lp \<longleftrightarrow>
     stack_max_len lp = local_cache_size h \<and> free_list_max_len lp = fill_free_size h
   \<and> length (local_pool_stack lp) = stack_max_len lp + free_list_max_len lp
   \<and> current_stack_len lp < stack_max_len lp + free_list_max_len lp
   \<and> free_list_len lp = current_stack_len lp - stack_max_len lp
   \<and> chain nx (local_free_list lp) (rev (drop (stack_max_len lp) (live lp)))
   \<and> local_last_node lp = (if current_stack_len lp > stack_max_len lp
                            then Some (local_pool_stack lp ! stack_max_len lp) else None)"

definition config_ok :: "sf_pool_head_t \<Rightarrow> bool" where
  "config_ok h \<longleftrightarrow> 1 \<le> fill_free_size h \<and> fill_free_size h \<le> local_cache_size h
     \<and> 1 \<le> data_align_len h \<and> data_align_len h * local_cache_size h < 2 ^ 32"

text \<open>All nodes of the pool: the global list \<open>G\<close>, the local stacks, the nodes the clients hold.\<close>

definition pool_nodes :: "pool_world \<Rightarrow> addr list \<Rightarrow> addr list \<Rightarrow> addr list" where
  "pool_nodes w G outs = G @ concat (map live (per_worker_pool (hdr w))) @ outs"

definition separated :: "nat \<Rightarrow> addr set \<Rightarrow> bool" where
  "separated al A \<longleftrightarrow> (\<forall>a\<in>A. \<forall>b\<in>A. a \<noteq> b \<longrightarrow> a + al \<le> b \<or> b + al \<le> a)"

text \<open>Every node lies inside a block the allocator has already returned.\<close>

definition in_blocks :: "pool_world \<Rightarrow> addr set \<Rightarrow> bool" where
  "in_blocks w A \<longleftrightarrow> (\<forall>a\<in>A. \<exists>k<mcalls w. \<exists>n b. malloc w k n = Some b
                              \<and> b \<le> a \<and> a + data_align_len (hdr w) \<le> b + n)"

definition pool_inv_G :: "pool_world \<Rightarrow> addr list \<Rightarrow> addr list \<Rightarrow> bool" where
  "pool_inv_G w G outs \<longleftrightarrow>
     config_ok (hdr w) \<and> malloc_ok (malloc w)
   \<and> chain (nxt w) (freelist (hdr w)) G \<and> free_cnt (hdr w) = length G
   \<and> (\<forall>lp\<in>set (per_worker_pool (hdr w)). local_inv (hdr w) (nxt w) lp)
   \<and> distinct (pool_nodes w G outs) \<and> total_cnt (hdr w) = length (pool_nodes w G outs)
   \<and> separated (data_align_len (hdr w)) (set (pool_nodes w G outs))
   \<and> in_blocks w (set (pool_nodes w G outs))
   \<and> pool_mem_inc_time (hdr w) \<le> pool_mem_inc_max (hdr w)
   \<and> total_cnt (hdr w) \<le> init_size (hdr w) + pool_mem_inc_time (hdr w) * local_cache_size (hdr w)"

definition pool_inv :: "pool_world \<Rightarrow> addr list \<Rightarrow> bool" where
  "pool_inv w outs \<longleftrightarrow> (\<exists>G. pool_inv_G w G outs)"


text \<open>The fields that no operation after \<open>sf_pool_init\<close> changes.\<close>

definition same_config :: "sf_pool_head_t \<Rightarrow> sf_pool_head_t \<Rightarrow> bool" where
  "same_config h h' \<longleftrightarrow> init_size h' = init_size h \<and> fill_free_size h' = fill_free_size h
     \<and> pool_mem_inc_max h' = pool_mem_inc_max h \<and> local_cache_size h' = local_cache_size h
     \<and> data_align_len h' = data_align_len h"

lemma local_inv_config: "same_config h h' \<Longrightarrow> local_inv h' nx lp \<longleftrightarrow> local_inv h nx lp"
  by (simp add: same_config_def local_inv_def)

text \<open>
  Moving nodes between the three places preserves the invariant: it depends on the nodes only
  through their multiset.
\<close>

lemma pool_inv_transfer:
  assumes inv: "pool_inv_G w G outs"
    and same: "same_config (hdr w) (hdr w')" "malloc w' = malloc w" "mcalls w \<le> mcalls w'"
      "total_cnt (hdr w') = total_cnt (hdr w)"
      "pool_mem_inc_time (hdr w') = pool_mem_inc_time (hdr w)"
    and glob: "chain (nxt w') (freelist (hdr w')) G'" "free_cnt (hdr w') = length G'"
    and loc: "\<And>lp. lp \<in> set (per_worker_pool (hdr w')) \<Longrightarrow> local_inv (hdr w) (nxt w') lp"
    and nodes: "mset (pool_nodes w' G' outs') = mset (pool_nodes w G outs)"
  shows "pool_inv_G w' G' outs'"
proof -
  have "set (pool_nodes w' G' outs') = set (pool_nodes w G outs)"
    "length (pool_nodes w' G' outs') = length (pool_nodes w G outs)"
    "distinct (pool_nodes w' G' outs') = distinct (pool_nodes w G outs)"
    using nodes by (metis set_mset_mset, metis size_mset, metis mset_eq_imp_distinct_iff)
  moreover have "in_blocks w A \<Longrightarrow> in_blocks w' A" for A
    using same(1,2) less_le_trans [OF _ same(3)] unfolding in_blocks_def same_config_def
    by metis
  moreover have "local_inv (hdr w') (nxt w') lp" if "lp \<in> set (per_worker_pool (hdr w'))" for lp
    using loc [OF that] same(1) by (simp add: local_inv_config)
  ultimately show ?thesis
    using inv same glob unfolding pool_inv_G_def config_ok_def same_config_def by simp
qed

lemma mset_concat_update:
  "i < length xs \<Longrightarrow>
    mset (concat (map f (xs[i := y]))) + mset (f (xs ! i)) = mset (concat (map f xs)) + mset (f y)"
proof (induction xs arbitrary: i)
  case (Cons a xs)
  then show ?case by (cases i) (auto simp: ac_simps)
qed simp

text \<open>Replacing the local pool of one worker, with nodes exchanged with the clients.\<close>

lemma pool_inv_put_local:
  assumes inv: "pool_inv_G w G outs" and wi: "wi < length (per_worker_pool (hdr w))"
    and loc: "local_inv (hdr w) (nxt w) lp"
    and ex: "mset (live lp) + mset outs' = mset (live (per_worker_pool (hdr w) ! wi)) + mset outs"
  shows "pool_inv_G (put_local_pool w wi lp) G outs'"
proof (rule pool_inv_transfer [OF inv])
  have "mset (concat (map live ((per_worker_pool (hdr w))[wi := lp]))) + mset outs'
      + mset (live (per_worker_pool (hdr w) ! wi))
      = mset (concat (map live (per_worker_pool (hdr w)))) + mset outs
      + mset (live (per_worker_pool (hdr w) ! wi))"
    using mset_concat_update [OF wi, of live lp] ex by (simp add: ac_simps)
  then show "mset (pool_nodes (put_local_pool w wi lp) G outs') = mset (pool_nodes w G outs)"
    by (simp add: pool_nodes_def put_local_pool_def)
qed (use inv loc in \<open>auto simp: put_local_pool_def same_config_def pool_inv_G_def
        dest!: subsetD [OF set_update_subset_insert]\<close>)

text \<open>The order in which the clients hold their nodes does not matter.\<close>

lemma pool_inv_perm: "mset outs = mset outs' \<Longrightarrow> pool_inv w outs \<longleftrightarrow> pool_inv w outs'"
proof -
  have "pool_inv w outs'" if perm: "mset outs = mset outs'" and inv: "pool_inv w outs" for outs outs'
  proof -
    obtain G where G: "pool_inv_G w G outs" using inv by (auto simp: pool_inv_def)
    have "pool_inv_G w G outs'"
      by (rule pool_inv_transfer [OF G]) (use G perm in \<open>auto simp: pool_inv_G_def same_config_def pool_nodes_def\<close>)
    then show ?thesis by (auto simp: pool_inv_def)
  qed
  then show "mset outs = mset outs' \<Longrightarrow> pool_inv w outs \<longleftrightarrow> pool_inv w outs'" by metis
qed

section \<open>Refilling a local cache\<close>

lemma block_nodes_in: "a \<in> set (block_nodes al b n) \<Longrightarrow> b \<le> a \<and> a + al \<le> b + al * n"
proof -
  assume "a \<in> set (block_nodes al b n)"
  then obtain i where i: "a = b + al * i" "i < n" unfolding block_nodes_def by fastforce
  have "al * i + al \<le> al * n"
    using mult_le_mono2 [of "Suc i" n al] i(2) by simp
  then show ?thesis using i(1) by simp
qed

lemma distinct_block_nodes: "0 < al \<Longrightarrow> distinct (block_nodes al b n)"
  by (auto simp: block_nodes_def distinct_map inj_on_def)

lemma separated_block_nodes: "separated al (set (block_nodes al b n))"
proof -
  have "al * i + al \<le> al * j \<or> al * j + al \<le> al * i" if "i \<noteq> j" for i j
    using that mult_le_mono2 [of "Suc i" j al] mult_le_mono2 [of "Suc j" i al]
    by (cases "i < j") auto
  then show ?thesis by (fastforce simp: separated_def block_nodes_def)
qed

lemma separated_UnI:
  assumes "separated al A" "separated al B"
    and "\<And>a b. a \<in> A \<Longrightarrow> b \<in> B \<Longrightarrow> a + al \<le> b \<or> b + al \<le> a"
  shows "separated al (A \<union> B)"
  unfolding separated_def
proof (intro ballI impI)
  fix a b assume "a \<in> A \<union> B" "b \<in> A \<union> B" and ne: "a \<noteq> b"
  then consider "a \<in> A" "b \<in> A" | "a \<in> B" "b \<in> B" | "a \<in> A" "b \<in> B" | "b \<in> A" "a \<in> B"
    by blast
  then show "a + al \<le> b \<or> b + al \<le> a"
    using assms(1,2) ne assms(3) [of a b] assms(3) [of b a]
    by cases (auto simp: separated_def)
qed

text \<open>A block just returned by the allocator does not meet the nodes of earlier blocks.\<close>

lemma new_block_apart:
  assumes inb: "in_blocks w A" and ok: "malloc_ok (malloc w)"
    and m: "malloc w (mcalls w) (data_align_len (hdr w) * n) = Some b"
    and a: "a \<in> A" and x: "x \<in> set (block_nodes (data_align_len (hdr w)) b n)"
  shows "a + data_align_len (hdr w) \<le> x \<or> x + data_align_len (hdr w) \<le> a"
proof -
  obtain k n' b' where k: "k < mcalls w" "malloc w k n' = Some b'" "b' \<le> a"
      "a + data_align_len (hdr w) \<le> b' + n'"
    using inb a by (auto simp: in_blocks_def)
  have "b' + n' \<le> b \<or> b + data_align_len (hdr w) * n \<le> b'"
    using ok k(1,2) m unfolding malloc_ok_def by (metis less_irrefl)
  then show ?thesis using block_nodes_in [OF x] k(3,4) by auto
qed

lemma pool_inv_new_block:
  assumes inv: "pool_inv_G w G outs"
    and m: "malloc w (mcalls w) (data_align_len (hdr w) * n) = Some b"
    and inc: "pool_mem_inc_time (hdr w) < pool_mem_inc_max (hdr w)" "n \<le> local_cache_size (hdr w)"
  shows "pool_inv_G (w\<lparr>mcalls := mcalls w + 1,
           hdr := (hdr w)\<lparr>pool_mem_inc_time := pool_mem_inc_time (hdr w) + 1,
                           total_cnt := total_cnt (hdr w) + n\<rparr>\<rparr>)
           G (block_nodes (data_align_len (hdr w)) b n @ outs)"
    (is "pool_inv_G ?w G (?N @ outs)")
proof -
  let ?al = "data_align_len (hdr w)" and ?P = "set (pool_nodes w G outs)"
  have al: "0 < ?al" and inb: "in_blocks w ?P" and ok: "malloc_ok (malloc w)"
    using inv by (auto simp: pool_inv_G_def config_ok_def)
  have set: "set (pool_nodes ?w G (?N @ outs)) = ?P \<union> set ?N"
    by (auto simp: pool_nodes_def)
  have apart: "a + ?al \<le> x \<or> x + ?al \<le> a" if "a \<in> ?P" "x \<in> set ?N" for a x
    using new_block_apart [OF inb ok m that] .
  have "separated ?al (?P \<union> set ?N)"
    using inv apart by (intro separated_UnI separated_block_nodes) (auto simp: pool_inv_G_def)
  moreover have "?P \<inter> set ?N = {}" using apart al by fastforce
  then have "distinct (pool_nodes ?w G (?N @ outs))"
    using inv al by (auto simp: pool_inv_G_def pool_nodes_def distinct_block_nodes)
  moreover have "in_blocks ?w (?P \<union> set ?N)"
    using inb m block_nodes_in [of _ ?al b n] unfolding in_blocks_def
    by (fastforce simp: less_Suc_eq)
  moreover have "total_cnt (hdr ?w) \<le> init_size (hdr w) + (pool_mem_inc_time (hdr w) + 1) * local_cache_size (hdr w)"
    using inv inc(2) by (simp add: pool_inv_G_def)
  moreover have "length (pool_nodes ?w G (?N @ outs)) = length (pool_nodes w G outs) + n"
    by (simp add: pool_nodes_def)
  moreover have "\<forall>lp\<in>set (per_worker_pool (hdr ?w)). local_inv (hdr ?w) (nxt ?w) lp"
    using inv local_inv_config [of "hdr w" "hdr ?w" "nxt w"]
    by (simp add: pool_inv_G_def same_config_def)
  ultimately show ?thesis
    unfolding pool_inv_G_def set using inv inc(1) by (simp add: pool_inv_G_def config_ok_def)
qed

lemma pool_inv_mcalls:
  "pool_inv_G w G outs \<Longrightarrow> pool_inv_G (w\<lparr>mcalls := mcalls w + 1\<rparr>) G outs"
  by (rule pool_inv_transfer)
    (auto simp: same_config_def pool_inv_G_def pool_nodes_def)

lemma fill_cache_inv:
  assumes inv: "pool_inv_G w G outs"
    and need: "needed = (if rt then fill_free_size (hdr w) else local_cache_size (hdr w))"
    and len: "needed \<le> length arr"
  shows "\<exists>ret w' arr' G'. sf_pool_fill_cache w arr rt = Some (ret, w', arr')
     \<and> pool_inv_G w' G' (take ret arr' @ outs)
     \<and> length arr' = length arr \<and> ret \<le> needed
     \<and> per_worker_pool (hdr w') = per_worker_pool (hdr w) \<and> nxt w' = nxt w
     \<and> same_config (hdr w) (hdr w')
     \<and> (ret = 0 \<longleftrightarrow> G = [] \<and> (pool_mem_inc_time (hdr w) = pool_mem_inc_max (hdr w)
          \<or> malloc w (mcalls w) (data_align_len (hdr w) * needed) = None))"
proof -
  have cfg: "config_ok (hdr w)" and G: "chain (nxt w) (freelist (hdr w)) G" "free_cnt (hdr w) = length G"
    and inc: "pool_mem_inc_time (hdr w) \<le> pool_mem_inc_max (hdr w)"
    using inv by (auto simp: pool_inv_G_def)
  have n1: "1 \<le> needed" "needed \<le> local_cache_size (hdr w)"
    using cfg need by (auto simp: config_ok_def)
  have small: "data_align_len (hdr w) * needed < 2 ^ 32"
    using cfg n1(2) unfolding config_ok_def by (meson le_less_trans mult_le_mono2)
  show ?thesis
  proof (cases "G = []")
    case False
    obtain fl arr' where f: "fill_loop (nxt w) 0 needed (freelist (hdr w)) arr
          = Some (min needed (length G), fl, arr')" "length arr' = length arr"
        "chain (nxt w) fl (drop needed G)" "take (min needed (length G)) arr' = take needed G"
      using fill_loop_correct [OF G(1), of 0 needed arr] len by auto
    let ?w = "w\<lparr>hdr := (hdr w)\<lparr>freelist := fl, free_cnt := free_cnt (hdr w) - min needed (length G)\<rparr>\<rparr>"
    have "pool_inv_G ?w (drop needed G) (take (min needed (length G)) arr' @ outs)"
    proof (rule pool_inv_transfer [OF inv])
      show "mset (pool_nodes ?w (drop needed G) (take (min needed (length G)) arr' @ outs))
          = mset (pool_nodes w G outs)"
        unfolding f(4) using mset_append [of "take needed G" "drop needed G"]
        by (simp add: pool_nodes_def ac_simps)
    qed (use f G inv in \<open>auto simp: same_config_def pool_inv_G_def min_def\<close>)
    moreover have "sf_pool_fill_cache w arr rt = Some (min needed (length G), ?w, arr')"
      using f(1) G(2) False need by (simp add: sf_pool_fill_cache_def Let_def)
    ultimately show ?thesis
      using f(2) n1(1) False by (fastforce simp: same_config_def)
  next
    case True
    show ?thesis
    proof (cases "pool_mem_inc_time (hdr w) = pool_mem_inc_max (hdr w)")
      case eq: True
      have "sf_pool_fill_cache w arr rt = Some (0, w, arr)"
        using eq True G(2) by (simp add: sf_pool_fill_cache_def sf_pool_increase_nodes_def)
      then show ?thesis using inv eq True by (auto simp: same_config_def)
    next
      case neq: False
      then have lt: "pool_mem_inc_time (hdr w) < pool_mem_inc_max (hdr w)" using inc by simp
      note step = sf_pool_fill_cache_def sf_pool_increase_nodes_def Let_def
      show ?thesis
      proof (cases "malloc w (mcalls w) (data_align_len (hdr w) * needed)")
        case None
        have "sf_pool_fill_cache w arr rt = Some (0, w\<lparr>mcalls := mcalls w + 1\<rparr>, arr)"
          using lt True G(2) None small need by (simp add: step)
        then show ?thesis
          using pool_inv_mcalls [OF inv] None True by (auto simp: same_config_def)
      next
        case (Some b)
        obtain arr' where a: "increase_loop (data_align_len (hdr w)) b 0 needed arr = Some arr'"
            "length arr' = length arr" "take needed arr' = block_nodes (data_align_len (hdr w)) b needed"
          using increase_loop_correct [of 0 needed arr "data_align_len (hdr w)" b] len small
          by (auto simp: block_nodes_def)
        have "sf_pool_fill_cache w arr rt = Some (needed, w\<lparr>mcalls := mcalls w + 1,
           hdr := (hdr w)\<lparr>pool_mem_inc_time := pool_mem_inc_time (hdr w) + 1,
                           total_cnt := total_cnt (hdr w) + needed\<rparr>\<rparr>, arr')"
          using lt True G(2) Some small need a(1) by (simp add: step)
        then show ?thesis
          using pool_inv_new_block [OF inv Some lt n1(2)] Some True a(2,3) n1(1) neq
          by (auto simp: same_config_def)
      qed
    qed
  qed
qed

section \<open>Allocation and release\<close>

lemma pop_local_inv:
  assumes inv: "local_inv h nx lp" and cur: "0 < current_stack_len lp"
  shows "\<exists>p lp'. pop_local lp = Some (p, lp') \<and> local_inv h nx lp' \<and> live lp = live lp' @ [p]"
proof -
  obtain c where c: "current_stack_len lp = Suc c" using cur by (cases "current_stack_len lp") auto
  let ?st = "local_pool_stack lp" and ?s = "stack_max_len lp"
  have len: "c < length ?st" using inv c by (simp add: local_inv_def)
  have lv: "live lp = take c ?st @ [?st ! c]" using c len by (simp add: take_Suc_conv_app_nth)
  consider "c > ?s" | "c = ?s" | "c < ?s" by linarith
  then show ?thesis
  proof cases
    case 1
    have "drop ?s (take c ?st) = drop ?s (take (c - 1) ?st) @ [?st ! (c - 1)]"
      using 1 len take_Suc_conv_app_nth [of "c - 1" ?st] by simp
    then have "chain nx (Some (?st ! (c - 1))) (rev (drop ?s (take c ?st)))"
      using inv lv 1 len by (auto simp: local_inv_def)
    then show ?thesis
      using 1 inv c len lv by (auto simp: pop_local_def local_inv_def Let_def arr_simps)
  next
    case 2
    then show ?thesis
      using inv c len lv by (auto simp: pop_local_def local_inv_def Let_def arr_simps)
  next
    case 3
    then show ?thesis
      using inv c len lv by (auto simp: pop_local_def local_inv_def Let_def arr_simps)
  qed
qed

lemma local_inv_refill:
  assumes "local_inv h nx lp" "current_stack_len lp = 0" "length st = length (local_pool_stack lp)"
    and "ret \<le> fill_free_size h" "config_ok h"
  shows "local_inv h nx (lp\<lparr>local_pool_stack := st, current_stack_len := ret\<rparr>)"
  using assms by (auto simp: local_inv_def config_ok_def)

lemma local_inv_worker:
  "pool_inv_G w G outs \<Longrightarrow> wi < length (per_worker_pool (hdr w))
    \<Longrightarrow> local_inv (hdr w) (nxt w) (per_worker_pool (hdr w) ! wi)"
  by (simp add: pool_inv_G_def)

text \<open>Popping the local stack once it is not empty.\<close>

lemma pop_put_inv:
  assumes inv: "pool_inv_G w G outs" and wi: "wi < length (per_worker_pool (hdr w))"
    and loc: "local_inv (hdr w) (nxt w) lp" and cur: "0 < current_stack_len lp"
    and ex: "mset (live lp) + mset outs' = mset (live (per_worker_pool (hdr w) ! wi)) + mset outs"
  shows "\<exists>p lp'. pop_local lp = Some (p, lp') \<and> pool_inv_G (put_local_pool w wi lp') G (p # outs')"
proof -
  obtain p lp' where p: "pop_local lp = Some (p, lp')" "local_inv (hdr w) (nxt w) lp'"
      "live lp = live lp' @ [p]"
    using pop_local_inv [OF loc cur] by blast
  have "mset (live lp') + mset (p # outs') = mset (live (per_worker_pool (hdr w) ! wi)) + mset outs"
    using ex unfolding p(3) by simp
  then show ?thesis using pool_inv_put_local [OF inv wi p(2)] p(1) by blast
qed

definition pool_exhausted :: "nat \<Rightarrow> pool_world \<Rightarrow> bool" where
  "pool_exhausted wi w \<longleftrightarrow>
     current_stack_len (per_worker_pool (hdr w) ! wi) = 0 \<and> free_cnt (hdr w) = 0
   \<and> (pool_mem_inc_time (hdr w) = pool_mem_inc_max (hdr w)
      \<or> malloc w (mcalls w) (data_align_len (hdr w) * fill_free_size (hdr w)) = None)"

lemma alloc_inv_G:
  assumes inv: "pool_inv_G w G outs" and wi: "wi < length (per_worker_pool (hdr w))"
  shows "\<exists>w' r. alloc_node_from_pool wi w = Some (w', r)
     \<and> (r = None \<longleftrightarrow> pool_exhausted wi w)
     \<and> (case r of None \<Rightarrow> pool_inv w' outs | Some p \<Rightarrow> pool_inv w' (p # outs))
     \<and> length (per_worker_pool (hdr w')) = length (per_worker_pool (hdr w))"
proof -
  let ?lp = "per_worker_pool (hdr w) ! wi"
  have loc: "local_inv (hdr w) (nxt w) ?lp" using local_inv_worker [OF inv wi] .
  have get: "get_local_pool w wi = Some ?lp" using wi by (simp add: get_local_pool_def arr_simps)
  show ?thesis
  proof (cases "current_stack_len ?lp = 0")
    case False
    obtain p lp' where "pop_local ?lp = Some (p, lp')"
        "pool_inv_G (put_local_pool w wi lp') G (p # outs)"
      using pop_put_inv [OF inv wi loc, of outs] False by auto
    then show ?thesis
      using False get
      by (auto simp: alloc_node_from_pool_def pool_exhausted_def pool_inv_def put_local_pool_def)
  next
    case True
    let ?need = "fill_free_size (hdr w)"
    have cfg: "config_ok (hdr w)" and free: "free_cnt (hdr w) = length G"
      using inv by (auto simp: pool_inv_G_def)
    have need: "?need \<le> length (local_pool_stack ?lp)" using loc by (simp add: local_inv_def)
    obtain ret w1 st G1 where f: "sf_pool_fill_cache w (local_pool_stack ?lp) True = Some (ret, w1, st)"
        "pool_inv_G w1 G1 (take ret st @ outs)" "length st = length (local_pool_stack ?lp)"
        "ret \<le> ?need" "per_worker_pool (hdr w1) = per_worker_pool (hdr w)" "nxt w1 = nxt w"
        "same_config (hdr w) (hdr w1)"
        "ret = 0 \<longleftrightarrow> G = [] \<and> (pool_mem_inc_time (hdr w) = pool_mem_inc_max (hdr w)
          \<or> malloc w (mcalls w) (data_align_len (hdr w) * ?need) = None)"
      using fill_cache_inv [OF inv refl, of True, unfolded if_True, OF need]
      by (elim exE conjE) (rule that)
    have exh: "ret = 0 \<longleftrightarrow> pool_exhausted wi w"
      using f(8) free True by (simp add: pool_exhausted_def)
    let ?lp1 = "?lp\<lparr>local_pool_stack := st, current_stack_len := ret\<rparr>"
    have loc1: "local_inv (hdr w1) (nxt w1) ?lp1"
      using local_inv_refill [OF loc True f(3,4) cfg] f(6) local_inv_config [OF f(7)] by simp
    have wi1: "wi < length (per_worker_pool (hdr w1))" using wi f(5) by simp
    show ?thesis
    proof (cases "ret = 0")
      case 0: True
      have eq: "?lp\<lparr>local_pool_stack := st, current_stack_len := 0\<rparr> = ?lp\<lparr>local_pool_stack := st\<rparr>"
        using True by simp
      have loc2: "local_inv (hdr w1) (nxt w1) (?lp\<lparr>local_pool_stack := st\<rparr>)"
        using loc1 unfolding 0 eq .
      have "pool_inv_G (put_local_pool w1 wi (?lp\<lparr>local_pool_stack := st\<rparr>)) G1 outs"
        by (rule pool_inv_put_local [OF f(2) wi1 loc2]) (simp add: 0 f(5) True)
      moreover have "alloc_node_from_pool wi w
          = Some (put_local_pool w1 wi (?lp\<lparr>local_pool_stack := st\<rparr>), None)"
        using True f(1) get 0 by (simp add: alloc_node_from_pool_def)
      ultimately show ?thesis
        using exh 0 f(5) by (auto simp: pool_inv_def put_local_pool_def)
    next
      case pos: False
      obtain p lp' where "pop_local ?lp1 = Some (p, lp')"
          "pool_inv_G (put_local_pool w1 wi lp') G1 (p # outs)"
        using pop_put_inv [OF f(2) wi1 loc1, of outs] pos True f(5) by auto
      then show ?thesis
        using exh pos f(1,5) get True
        by (auto simp: alloc_node_from_pool_def pool_inv_def put_local_pool_def Let_def)
    qed
  qed
qed

text \<open>
  Pushing a node on a local stack.  \<open>lp1\<close> is the local pool after the push and before the
  possible splice; the other workers' lists are not touched, as the node is on none of them.
\<close>

lemma local_inv_nxt_upd:
  "a \<notin> set (live lp) \<Longrightarrow> local_inv h (nx(a := q)) lp \<longleftrightarrow> local_inv h nx lp"
proof -
  assume "a \<notin> set (live lp)"
  then have "a \<notin> set (rev (drop (stack_max_len lp) (live lp)))"
    by (auto dest: in_set_dropD)
  from chain_upd_notin [OF this] show ?thesis by (simp only: local_inv_def)
qed

lemma pool_inv_nxt_upd:
  assumes inv: "pool_inv_G w G outs" and a: "a \<in> set outs"
  shows "pool_inv_G (w\<lparr>nxt := (nxt w)(a := q)\<rparr>) G outs"
proof (rule pool_inv_transfer [OF inv])
  have "a \<notin> set G" "\<And>lp. lp \<in> set (per_worker_pool (hdr w)) \<Longrightarrow> a \<notin> set (live lp)"
    using inv a by (auto simp: pool_inv_G_def pool_nodes_def)
  then show "chain (nxt (w\<lparr>nxt := (nxt w)(a := q)\<rparr>)) (freelist (hdr (w\<lparr>nxt := (nxt w)(a := q)\<rparr>))) G"
    "\<And>lp. lp \<in> set (per_worker_pool (hdr (w\<lparr>nxt := (nxt w)(a := q)\<rparr>))) \<Longrightarrow>
       local_inv (hdr w) (nxt (w\<lparr>nxt := (nxt w)(a := q)\<rparr>)) lp"
    using inv by (auto simp: pool_inv_G_def local_inv_nxt_upd)
qed (use inv in \<open>auto simp: same_config_def pool_inv_G_def pool_nodes_def\<close>)

lemma local_inv_push_low:
  assumes "local_inv h nx lp" "current_stack_len lp < stack_max_len lp" "config_ok h"
  shows "local_inv h nx (lp\<lparr>local_pool_stack := (local_pool_stack lp)[current_stack_len lp := p],
                             current_stack_len := current_stack_len lp + 1\<rparr>)"
  using assms by (auto simp: local_inv_def config_ok_def)

lemma push_high:
  assumes inv: "local_inv h nx lp" and hi: "stack_max_len lp \<le> current_stack_len lp"
    and p: "p \<notin> set (live lp)"
  defines "lp1 \<equiv> lp\<lparr>local_pool_stack := (local_pool_stack lp)[current_stack_len lp := p],
       current_stack_len := current_stack_len lp + 1,
       local_free_list := Some p, free_list_len := free_list_len lp + 1,
       local_last_node := (case local_last_node lp of None \<Rightarrow> Some p | Some l \<Rightarrow> Some l)\<rparr>"
  shows "live lp1 = live lp @ [p]"
    and "chain (nx(p := local_free_list lp)) (Some p) (rev (drop (stack_max_len lp) (live lp1)))"
    and "local_last_node lp1 = Some (local_pool_stack lp1 ! stack_max_len lp)"
    and "free_list_len lp1 = current_stack_len lp1 - stack_max_len lp"
    and "length (local_pool_stack lp1) = length (local_pool_stack lp)"
proof -
  have len: "current_stack_len lp < length (local_pool_stack lp)" using inv by (simp add: local_inv_def)
  then show lv: "live lp1 = live lp @ [p]" by (simp add: lp1_def list_update_take_drop)
  have notin: "p \<notin> set (drop (stack_max_len lp) (live lp))" using p by (meson in_set_dropD)
  then have "chain (nx(p := local_free_list lp)) (local_free_list lp) (rev (drop (stack_max_len lp) (live lp)))"
    using inv by (auto simp: local_inv_def)
  then show "chain (nx(p := local_free_list lp)) (Some p) (rev (drop (stack_max_len lp) (live lp1)))"
    unfolding lv using hi len by simp
  show "local_last_node lp1 = Some (local_pool_stack lp1 ! stack_max_len lp)"
    using inv hi len by (auto simp: lp1_def local_inv_def nth_list_update)
  show "free_list_len lp1 = current_stack_len lp1 - stack_max_len lp"
    using inv hi by (simp add: lp1_def local_inv_def)
qed (simp add: lp1_def)

lemma pool_nodes_worker:
  assumes "pool_inv_G w G outs" "wi < length (per_worker_pool (hdr w))"
  shows "distinct (live (per_worker_pool (hdr w) ! wi))"
    and "set (live (per_worker_pool (hdr w) ! wi)) \<inter> (set G \<union> set outs) = {}"
    and "\<And>j. j < length (per_worker_pool (hdr w)) \<Longrightarrow> j \<noteq> wi \<Longrightarrow>
       set (live (per_worker_pool (hdr w) ! j)) \<inter> set (live (per_worker_pool (hdr w) ! wi)) = {}"
proof -
  let ?xs = "per_worker_pool (hdr w)"
  have d: "distinct (G @ concat (map live ?xs) @ outs)"
    using assms(1) by (simp add: pool_inv_G_def pool_nodes_def)
  have mem: "?xs ! wi \<in> set ?xs" using assms(2) by simp
  show "distinct (live (?xs ! wi))"
    using d mem by (auto simp: distinct_concat_iff)
  show "set (live (?xs ! wi)) \<inter> (set G \<union> set outs) = {}"
    using d mem by fastforce
  show "\<And>j. j < length ?xs \<Longrightarrow> j \<noteq> wi \<Longrightarrow> set (live (?xs ! j)) \<inter> set (live (?xs ! wi)) = {}"
    using d assms(2) by (intro distinct_concat_disjoint) auto
qed

lemma mset_exchange:
  fixes A L C T D N P :: "'a multiset"
  assumes "A + L = C + T" "T + D = N" "N = L + P"
  shows "A + D = C + P"
proof -
  have "A + D + L = C + P + L" using assms by (metis add.assoc add.commute)
  then show ?thesis by simp
qed

lemma mset_splice:
  fixes A C D :: "'a multiset"
  assumes "A + D = C + {#p#}" "p \<in># R"
  shows "D + G + (A + (R - {#p#})) = G + (C + R)"
proof -
  have "D + G + (A + (R - {#p#})) = (A + D) + (G + (R - {#p#}))" by (simp only: ac_simps)
  also have "\<dots> = G + (C + ({#p#} + (R - {#p#})))" unfolding assms(1) by (simp only: ac_simps)
  finally show ?thesis using assms(2) by simp
qed

text \<open>The splice: the worker's linked list goes in front of the global list.\<close>

lemma recycle_chain:
  assumes "chain nx (Some p) (rev (drop s xs))" "s < length xs" "distinct xs"
    and "chain nx fl G" "set xs \<inter> set G = {}"
  shows "chain (nx(xs ! s := fl)) (Some p) (rev (drop s xs) @ G)"
proof -
  have split: "drop s xs = xs ! s # drop (Suc s) xs" using assms(2) by (simp add: Cons_nth_drop_Suc)
  have "distinct (drop s xs)" using assms(3) by simp
  then have "xs ! s \<notin> set (rev (drop (Suc s) xs))" unfolding split by simp
  moreover have "xs ! s \<notin> set G" using assms(2,5) by (auto dest: nth_mem)
  ultimately show ?thesis
    using chain_relink [of nx "Some p" "rev (drop (Suc s) xs)" "xs ! s" G fl] assms(1,4)
    unfolding split by simp
qed

lemma free_recycle_inv:
  assumes inv: "pool_inv_G w G outs" and wi: "wi < length (per_worker_pool (hdr w))"
    and lp: "lp = per_worker_pool (hdr w) ! wi" and hi: "stack_max_len lp \<le> current_stack_len lp"
    and p: "p \<in> set outs" and full: "current_stack_len lp + 1 = stack_max_len lp + free_list_max_len lp"
  defines "stack \<equiv> (local_pool_stack lp)[current_stack_len lp := p]"
  shows "pool_inv_G (put_local_pool
     (w\<lparr>nxt := ((nxt w)(p := local_free_list lp))(stack ! stack_max_len lp := freelist (hdr w)),
        hdr := (hdr w)\<lparr>freelist := Some p, free_cnt := free_cnt (hdr w) + fill_free_size (hdr w)\<rparr>\<rparr>)
     wi (lp\<lparr>local_pool_stack := stack, local_free_list := None, local_last_node := None,
            free_list_len := 0, current_stack_len := stack_max_len lp\<rparr>))
     (rev (drop (stack_max_len lp) (live lp @ [p])) @ G) (remove1 p outs)"
    (is "pool_inv_G (put_local_pool ?w wi ?lp) (rev (drop ?s (live lp @ [p])) @ G) _")
proof (rule pool_inv_transfer [OF inv])
  have loc: "local_inv (hdr w) (nxt w) lp" using local_inv_worker [OF inv wi] lp by simp
  have len: "current_stack_len lp < length (local_pool_stack lp)"
    and sf: "stack_max_len lp = local_cache_size (hdr w)" "free_list_max_len lp = fill_free_size (hdr w)"
      "length (local_pool_stack lp) = ?s + fill_free_size (hdr w)"
    using loc by (simp_all add: local_inv_def)
  have dist: "distinct (live lp @ [p])" "set (live lp @ [p]) \<inter> set G = {}"
    and others: "j < length (per_worker_pool (hdr w)) \<Longrightarrow> j \<noteq> wi \<Longrightarrow>
        set (live (per_worker_pool (hdr w) ! j)) \<inter> set (live lp @ [p]) = {}" for j
    using pool_nodes_worker [OF inv wi] pool_nodes_worker(2) [OF inv, of j] p inv lp
    by (auto simp: pool_inv_G_def pool_nodes_def)
  have stk: "take (Suc (current_stack_len lp)) stack = live lp @ [p]"
    unfolding stack_def using len by (rule list_update_take_drop)
  have nth: "stack ! ?s = (live lp @ [p]) ! ?s"
    unfolding stk [symmetric] using hi by simp
  have notin: "p \<notin> set (live lp)" using dist by simp
  have ch: "chain ((nxt w)(p := local_free_list lp)) (Some p) (rev (drop ?s (live lp @ [p])))"
    using push_high(1,2) [OF loc hi notin] by simp
  have sl: "?s < length (live lp @ [p])" using hi len by simp
  show "chain (nxt (put_local_pool ?w wi ?lp)) (freelist (hdr (put_local_pool ?w wi ?lp)))
          (rev (drop ?s (live lp @ [p])) @ G)"
    using recycle_chain [OF ch sl dist(1) _ dist(2), of "freelist (hdr w)"] inv dist(2) nth
    by (simp add: put_local_pool_def pool_inv_G_def)
  show "free_cnt (hdr (put_local_pool ?w wi ?lp)) = length (rev (drop ?s (live lp @ [p])) @ G)"
    using inv full len sf by (simp add: put_local_pool_def pool_inv_G_def)
  show "mset (pool_nodes (put_local_pool ?w wi ?lp) (rev (drop ?s (live lp @ [p])) @ G) (remove1 p outs))
      = mset (pool_nodes w G outs)"
  proof -
    have lv: "live ?lp = take ?s (live lp @ [p])"
      unfolding stk [symmetric] using hi by (simp add: min_def)
    have "mset (concat (map live ((per_worker_pool (hdr w))[wi := ?lp]))) + mset (live lp)
        = mset (concat (map live (per_worker_pool (hdr w)))) + mset (take ?s (live lp @ [p]))"
      using mset_concat_update [OF wi, of live ?lp] unfolding lp [symmetric] lv .
    moreover have "mset (take ?s (live lp @ [p])) + mset (drop ?s (live lp @ [p])) = mset (live lp @ [p])"
      by (metis append_take_drop_id mset_append)
    ultimately have "mset (concat (map live ((per_worker_pool (hdr w))[wi := ?lp])))
        + mset (drop ?s (live lp @ [p])) = mset (concat (map live (per_worker_pool (hdr w)))) + {#p#}"
      by (rule mset_exchange [where L = "mset (live lp)"]) simp
    moreover have "p \<in># mset outs" using p by simp
    ultimately have "mset (drop ?s (live lp @ [p])) + mset G
        + (mset (concat (map live ((per_worker_pool (hdr w))[wi := ?lp]))) + (mset outs - {#p#}))
        = mset G + (mset (concat (map live (per_worker_pool (hdr w)))) + mset outs)"
      by (rule mset_splice)
    moreover have "per_worker_pool (hdr (put_local_pool ?w wi ?lp)) = (per_worker_pool (hdr w))[wi := ?lp]"
      by (simp add: put_local_pool_def)
    ultimately show ?thesis
      by (simp only: pool_nodes_def mset_append mset_rev mset_remove1)
  qed
  fix lp' assume "lp' \<in> set (per_worker_pool (hdr (put_local_pool ?w wi ?lp)))"
  then consider "lp' = ?lp" | j where "j < length (per_worker_pool (hdr w))" "j \<noteq> wi"
      "lp' = per_worker_pool (hdr w) ! j"
    using set_list_update_cases [OF _ wi, of lp' ?lp] by (auto simp: put_local_pool_def)
  then show "local_inv (hdr w) (nxt (put_local_pool ?w wi ?lp)) lp'"
  proof cases
    case 1
    then show ?thesis using sf inv stack_def
      by (auto simp: local_inv_def pool_inv_G_def config_ok_def)
  next
    case 2
    have "stack ! ?s \<in> set (live lp @ [p])" unfolding nth using sl by (rule nth_mem)
    then have "stack ! ?s \<notin> set (live lp')" "p \<notin> set (live lp')"
      using others [OF 2(1,2)] 2(3) by auto
    then show ?thesis
      using local_inv_worker [OF inv 2(1)] 2(3) by (simp add: put_local_pool_def local_inv_nxt_upd)
  qed
qed (use inv in \<open>auto simp: put_local_pool_def same_config_def\<close>)

lemma free_inv_G:
  assumes inv: "pool_inv_G w G outs" and wi: "wi < length (per_worker_pool (hdr w))"
    and p: "p \<in> set outs"
  shows "\<exists>w'. free_node_to_pool wi w p = Some w' \<and> pool_inv w' (remove1 p outs)
     \<and> length (per_worker_pool (hdr w')) = length (per_worker_pool (hdr w))"
proof -
  define lp where lp: "lp = per_worker_pool (hdr w) ! wi"
  let ?stack = "(local_pool_stack lp)[current_stack_len lp := p]"
  have loc: "local_inv (hdr w) (nxt w) lp" using local_inv_worker [OF inv wi] lp by simp
  have get: "get_local_pool w wi = Some lp" using wi lp by (simp add: get_local_pool_def arr_simps)
  have len: "current_stack_len lp < length (local_pool_stack lp)" using loc by (simp add: local_inv_def)
  have cfg: "config_ok (hdr w)" using inv by (simp add: pool_inv_G_def)
  have notin: "p \<notin> set (live lp)" using pool_nodes_worker(2) [OF inv wi] p lp by auto
  note step = free_node_to_pool_def get arr_write_in [OF len] Let_def
  show ?thesis
  proof (cases "current_stack_len lp < stack_max_len lp")
    case True
    let ?lp = "lp\<lparr>local_pool_stack := ?stack, current_stack_len := current_stack_len lp + 1\<rparr>"
    have "mset (live ?lp) + mset (remove1 p outs) = mset (live (per_worker_pool (hdr w) ! wi)) + mset outs"
      using p len lp by (simp add: list_update_take_drop)
    then have "pool_inv_G (put_local_pool w wi ?lp) G (remove1 p outs)"
      by (rule pool_inv_put_local [OF inv wi local_inv_push_low [OF loc True cfg]])
    moreover have "free_node_to_pool wi w p = Some (put_local_pool w wi ?lp)"
      using True by (simp add: step)
    ultimately show ?thesis by (auto simp: pool_inv_def put_local_pool_def)
  next
    case False
    then have hi: "stack_max_len lp \<le> current_stack_len lp" by simp
    let ?last = "case local_last_node lp of None \<Rightarrow> Some p | Some l \<Rightarrow> Some l"
    let ?lp = "lp\<lparr>local_pool_stack := ?stack, current_stack_len := current_stack_len lp + 1,
       local_free_list := Some p, free_list_len := free_list_len lp + 1, local_last_node := ?last\<rparr>"
    let ?w = "w\<lparr>nxt := (nxt w)(p := local_free_list lp)\<rparr>"
    note push = push_high [OF loc hi notin]
    have fll: "free_list_len lp = current_stack_len lp - stack_max_len lp"
      "length (local_pool_stack lp) = stack_max_len lp + free_list_max_len lp"
      "stack_max_len lp = local_cache_size (hdr w)" "free_list_max_len lp = fill_free_size (hdr w)"
      using loc by (auto simp: local_inv_def)
    show ?thesis
    proof (cases "free_list_len lp + 1 \<ge> free_list_max_len lp")
      case True
      then have full: "current_stack_len lp + 1 = stack_max_len lp + free_list_max_len lp"
        using fll len hi by simp
      have "free_node_to_pool wi w p = Some (put_local_pool
         (w\<lparr>nxt := ((nxt w)(p := local_free_list lp))(?stack ! stack_max_len lp := freelist (hdr w)),
            hdr := (hdr w)\<lparr>freelist := Some p, free_cnt := free_cnt (hdr w) + fill_free_size (hdr w)\<rparr>\<rparr>)
         wi (lp\<lparr>local_pool_stack := ?stack, local_free_list := None, local_last_node := None,
              free_list_len := 0, current_stack_len := stack_max_len lp\<rparr>))"
        using True full hi push(3) by (auto simp: step sf_pool_recycle_cache_def split: option.splits)
      then show ?thesis
        using free_recycle_inv [OF inv wi lp hi p full] by (auto simp: pool_inv_def put_local_pool_def)
    next
      case False
      have inv1: "pool_inv_G ?w G outs" using pool_inv_nxt_upd [OF inv p] .
      have "local_inv (hdr ?w) (nxt ?w) ?lp"
        using push(2-5) fll hi False len by (simp add: local_inv_def)
      moreover have "mset (live ?lp) + mset (remove1 p outs)
          = mset (live (per_worker_pool (hdr ?w) ! wi)) + mset outs"
        unfolding push(1) using p lp by simp
      ultimately have "pool_inv_G (put_local_pool ?w wi ?lp) G (remove1 p outs)"
        using pool_inv_put_local [OF inv1] wi by simp
      moreover have "free_node_to_pool wi w p = Some (put_local_pool ?w wi ?lp)"
        using hi False
        by (auto simp: step split: option.splits intro!: arg_cong [where f = "put_local_pool ?w wi"])
      ultimately show ?thesis by (auto simp: pool_inv_def put_local_pool_def)
    qed
  qed
qed

section \<open>Initialisation establishes the invariant\<close>

lemma init_locals_inv:
  assumes "pool_inv_G w G outs"
  shows "\<exists>w' G'. init_locals k junk w = Some w' \<and> pool_inv_G w' G' outs \<and> same_config (hdr w) (hdr w')
     \<and> length (per_worker_pool (hdr w')) = length (per_worker_pool (hdr w)) + k"
  using assms
proof (induction k arbitrary: w G)
  case 0
  then show ?case by (auto simp: same_config_def)
next
  case (Suc k)
  let ?smax = "local_cache_size (hdr w)" and ?fmax = "fill_free_size (hdr w)"
  let ?arr = "replicate (?smax + ?fmax) junk"
  have cfg: "config_ok (hdr w)" using Suc.prems by (simp add: pool_inv_G_def)
  have need: "?smax \<le> length ?arr" by simp
  obtain ret w1 st G1 where f: "sf_pool_fill_cache w ?arr False = Some (ret, w1, st)"
      "pool_inv_G w1 G1 (take ret st @ outs)" "length st = length ?arr" "ret \<le> ?smax"
      "per_worker_pool (hdr w1) = per_worker_pool (hdr w)" "same_config (hdr w) (hdr w1)"
    using fill_cache_inv [OF Suc.prems refl, of False, unfolded if_False, OF need]
    by (elim exE conjE) (rule that)
  let ?lp = "\<lparr>current_stack_len = ret, stack_max_len = ?smax, free_list_len = 0,
      free_list_max_len = ?fmax, local_pool_stack = st, local_free_list = None, local_last_node = None\<rparr>"
  let ?w = "w1\<lparr>hdr := (hdr w1)\<lparr>per_worker_pool := per_worker_pool (hdr w1) @ [?lp]\<rparr>\<rparr>"
  have loc: "local_inv (hdr w1) (nxt w1) ?lp"
    using f(3,4,6) cfg by (auto simp: local_inv_def same_config_def config_ok_def)
  have "pool_inv_G ?w G1 outs"
    by (rule pool_inv_transfer [OF f(2)])
      (use f(2) loc in \<open>auto simp: pool_inv_G_def same_config_def pool_nodes_def\<close>)
  from Suc.IH [OF this] show ?case
    using f(1,5,6) by (auto simp: sf_pool_init_local_def Let_def same_config_def)
qed

lemma align_data_len_pos: "len \<le> 2 ^ 32 - 64 \<Longrightarrow> 64 \<le> align_data_len len"
proof -
  assume len: "len \<le> 2 ^ 32 - 64"
  let ?c = "len div 64 + (if len mod 64 > 0 then 1 else 0)"
  have "len \<le> 4294967232" using len by simp
  then have "len mod 64 > 0 \<Longrightarrow> len div 64 < 67108863" using mult_div_mod_eq [of 64 len] by linarith
  then have "?c * 64 < 2 ^ 32" "len \<le> ?c * 64" using len by auto
  then show ?thesis
    by (auto simp: align_data_len_def CLIB_CACHE_LINE_BYTES_def SF_POOL_ALIGNED_LEN_def Let_def)
qed

section \<open>Interface\<close>

text \<open>
  What a client of a pool relies on: an allocation never runs into a memory error, a returned node
  is one that no client holds, and a node that a client holds can be released.  \<open>valid\<close> says
  which callers (worker indices) the pool has.
\<close>

locale node_pool =
  fixes inv :: "'s \<Rightarrow> addr list \<Rightarrow> bool"
    and valid :: "'s \<Rightarrow> 'w \<Rightarrow> bool"
    and alloc :: "'w \<Rightarrow> 's \<Rightarrow> ('s \<times> ptr) option"
    and release :: "'w \<Rightarrow> 's \<Rightarrow> addr \<Rightarrow> 's option"
  assumes alloc_total: "inv s outs \<Longrightarrow> valid s i \<Longrightarrow>
        \<exists>s' r. alloc i s = Some (s', r) \<and> inv s' (case r of None \<Rightarrow> outs | Some p \<Rightarrow> p # outs)"
    and alloc_valid: "inv s outs \<Longrightarrow> valid s i \<Longrightarrow> alloc i s = Some (s', r) \<Longrightarrow> valid s' j \<longleftrightarrow> valid s j"
    and release_total: "inv s outs \<Longrightarrow> valid s i \<Longrightarrow> p \<in> set outs \<Longrightarrow>
        \<exists>s'. release i s p = Some s' \<and> inv s' (remove1 p outs)"
    and release_valid: "inv s outs \<Longrightarrow> valid s i \<Longrightarrow> p \<in> set outs \<Longrightarrow> release i s p = Some s' \<Longrightarrow>
        valid s' j \<longleftrightarrow> valid s j"
    and inv_distinct: "inv s outs \<Longrightarrow> distinct outs"
begin

lemma alloc_fresh:
  "inv s outs \<Longrightarrow> valid s i \<Longrightarrow> alloc i s = Some (s', Some p) \<Longrightarrow> p \<notin> set outs \<and> inv s' (p # outs)"
  using alloc_total [of s outs i] inv_distinct by fastforce

text \<open>A client that holds nodes can give all of them back.\<close>

lemma release_all:
  "inv s outs \<Longrightarrow> valid s i \<Longrightarrow>
    \<exists>s'. fold (\<lambda>p so. Option.bind so (\<lambda>s. release i s p)) outs (Some s) = Some s' \<and> inv s' []"
proof (induction outs arbitrary: s)
  case (Cons p outs)
  then obtain s' where s': "release i s p = Some s'" "inv s' outs"
    using release_total [of s "p # outs" i p] by auto
  have "valid s' i" using release_valid [OF Cons.prems, of p s' i] s'(1) Cons.prems by simp
  from Cons.IH [OF s'(2) this] show ?case using s'(1) by simp
qed auto

text \<open>A node just allocated can be released by any caller, and the caller's holdings are as before.\<close>

lemma alloc_release:
  assumes "inv s outs" "valid s i" "valid s j" "alloc i s = Some (s', Some p)"
  shows "\<exists>s''. release j s' p = Some s'' \<and> inv s'' outs"
proof -
  have "inv s' (p # outs)" using alloc_fresh assms by blast
  moreover have "valid s' j" using alloc_valid [OF assms(1,2,4)] assms(3) by simp
  ultimately show ?thesis using release_total [of s' "p # outs" j p] by simp
qed

end

definition valid_worker :: "pool_world \<Rightarrow> nat \<Rightarrow> bool" where
  "valid_worker w i \<longleftrightarrow> i < length (per_worker_pool (hdr w))"

interpretation sfp: node_pool pool_inv valid_worker alloc_node_from_pool free_node_to_pool
proof
  fix s outs i assume "pool_inv s outs" "valid_worker s i"
  then show "\<exists>s' r. alloc_node_from_pool i s = Some (s', r)
      \<and> pool_inv s' (case r of None \<Rightarrow> outs | Some p \<Rightarrow> p # outs)"
    unfolding pool_inv_def [of s] valid_worker_def
    using alloc_inv_G by (fastforce split: option.splits)
next
  fix s outs i s' r j assume "pool_inv s outs" "valid_worker s i" "alloc_node_from_pool i s = Some (s', r)"
  then show "valid_worker s' j \<longleftrightarrow> valid_worker s j"
    unfolding pool_inv_def valid_worker_def using alloc_inv_G by fastforce
next
  fix s outs i p assume "pool_inv s outs" "valid_worker s i" "p \<in> set outs"
  then show "\<exists>s'. free_node_to_pool i s p = Some s' \<and> pool_inv s' (remove1 p outs)"
    unfolding pool_inv_def [of s] valid_worker_def using free_inv_G by blast
next
  fix s outs i p s' j
  assume "pool_inv s outs" "valid_worker s i" "p \<in> set outs" "free_node_to_pool i s p = Some s'"
  then show "valid_worker s' j \<longleftrightarrow> valid_worker s j"
    unfolding pool_inv_def valid_worker_def using free_inv_G by fastforce
next
  fix s outs assume "pool_inv s outs"
  then show "distinct outs" by (auto simp: pool_inv_def pool_inv_G_def pool_nodes_def)
qed

section \<open>Interleavings\<close>

text \<open>
  The worker threads' operations in any order.  A thread works on its own local pool and takes the
  spin lock for the shared part, so an operation is one step.  Between the operations the clients
  may write anything into the first word of a node they hold, which is the field \<open>next\<close>.
\<close>

inductive pool_step :: "pool_world \<times> addr list \<Rightarrow> pool_world \<times> addr list \<Rightarrow> bool" where
  alloc_null: "valid_worker w i \<Longrightarrow> alloc_node_from_pool i w = Some (w', None)
     \<Longrightarrow> pool_step (w, outs) (w', outs)"
| alloc_node: "valid_worker w i \<Longrightarrow> alloc_node_from_pool i w = Some (w', Some p)
     \<Longrightarrow> pool_step (w, outs) (w', p # outs)"
| free_node: "valid_worker w i \<Longrightarrow> p \<in> set outs \<Longrightarrow> free_node_to_pool i w p = Some w'
     \<Longrightarrow> pool_step (w, outs) (w', remove1 p outs)"
| client_write: "a \<in> set outs \<Longrightarrow> pool_step (w, outs) (w\<lparr>nxt := (nxt w)(a := q)\<rparr>, outs)"

inductive_cases pool_step_cases: "pool_step (w, outs) (w', outs')"

lemma pool_step_inv: "pool_step (w, outs) (w', outs') \<Longrightarrow> pool_inv w outs \<Longrightarrow> pool_inv w' outs'"
proof (erule pool_step_cases, goal_cases)
  case (1 i)
  then show ?case using sfp.alloc_total [of w outs i] by fastforce
next
  case (2 i p)
  then show ?case using sfp.alloc_fresh [of w outs i w' p] by simp
next
  case (3 i p)
  then show ?case using sfp.release_total [of w outs i p] by fastforce
next
  case (4 a q)
  then show ?case unfolding pool_inv_def using pool_inv_nxt_upd by blast
qed

lemma pool_steps_inv: "pool_step\<^sup>*\<^sup>* c d \<Longrightarrow> pool_inv (fst c) (snd c) \<Longrightarrow> pool_inv (fst d) (snd d)"
proof (induction rule: rtranclp_induct)
  case (step y z)
  then show ?case using pool_step_inv [of "fst y" "snd y" "fst z" "snd z"] by simp
qed simp

lemma pool_steps_workers:
  "pool_step\<^sup>*\<^sup>* c d \<Longrightarrow> pool_inv (fst c) (snd c) \<Longrightarrow> valid_worker (fst d) i \<longleftrightarrow> valid_worker (fst c) i"
proof (induction rule: rtranclp_induct)
  case (step y z)
  have inv: "pool_inv (fst y) (snd y)" using step pool_steps_inv by blast
  have "valid_worker (fst z) i \<longleftrightarrow> valid_worker (fst y) i"
    using step.hyps(2) inv
    by cases (auto dest: sfp.alloc_valid sfp.release_valid simp: valid_worker_def)
  then show ?case using step by simp
qed simp

text \<open>The parameters a caller of \<open>sf_pool_init\<close> has to choose sensibly.\<close>

definition init_args_ok :: "nat \<Rightarrow> nat \<Rightarrow> nat \<Rightarrow> nat \<Rightarrow> nat \<Rightarrow> bool" where
  "init_args_ok workers dlen per_worker cache_size fill_size \<longleftrightarrow>
     dlen \<le> 2 ^ 32 - 64 \<and> 1 \<le> fill_size \<and> align_data_len dlen * cache_size < 2 ^ 32
   \<and> per_worker * workers < 2 ^ 32 \<and> align_data_len dlen * (per_worker * workers) < 2 ^ 32"

lemma first_block_inv:
  assumes m: "malloc w (mcalls w) (al * n) = Some b" and ok: "malloc_ok (malloc w)"
    and cfg: "config_ok (h\<lparr>freelist := fl, total_cnt := n, free_cnt := n\<rparr>)"
    and h: "data_align_len h = al" "init_size h = n" "pool_mem_inc_time h = 0" "per_worker_pool h = []"
    and ch: "chain nx fl (rev (block_nodes al b n))"
  shows "pool_inv_G (w\<lparr>mcalls := mcalls w + 1, nxt := nx,
      hdr := h\<lparr>freelist := fl, total_cnt := n, free_cnt := n\<rparr>\<rparr>) (rev (block_nodes al b n)) []"
    (is "pool_inv_G ?w _ _")
proof -
  have al: "0 < al" using cfg h by (simp add: config_ok_def)
  have nodes: "pool_nodes ?w (rev (block_nodes al b n)) [] = rev (block_nodes al b n)"
    using h by (simp add: pool_nodes_def)
  have "in_blocks ?w (set (block_nodes al b n))"
    using block_nodes_in [of _ al b n] m h by (fastforce simp: in_blocks_def)
  then show ?thesis
    unfolding pool_inv_G_def nodes using cfg ok h ch al
    by (simp add: distinct_block_nodes separated_block_nodes)
qed

lemma sf_pool_init_inv:
  assumes args: "init_args_ok workers dlen per_worker cache_size fill_size"
    and le: "fill_size \<le> cache_size" and ok: "malloc_ok (malloc w)"
    and m: "malloc w (mcalls w) (align_data_len dlen * (per_worker * workers)) = Some b"
  shows "\<exists>w0. sf_pool_init w junk ha workers nm dlen per_worker cache_size fill_size inc_max = Inr w0
     \<and> pool_inv w0 [] \<and> length (per_worker_pool (hdr w0)) = workers
     \<and> init_size (hdr w0) = per_worker * workers \<and> pool_mem_inc_max (hdr w0) = inc_max
     \<and> local_cache_size (hdr w0) = cache_size"
proof -
  define al n where al: "al = align_data_len dlen" and n: "n = per_worker * workers"
  define h where h: "h = \<lparr>next_hdr = pool_record_header w, pool_name = nm, init_size = n,
     increase_size = fill_size, fill_free_size = fill_size, pool_mem_inc_max = inc_max,
     local_cache_size = cache_size, data_len = dlen, data_align_len = al, pool_mem_inc_time = 0,
     free_cnt = 0, total_cnt = 0, freelist = None, per_worker_pool = []\<rparr>"
  have small: "al * n < 2 ^ 32" "n < 2 ^ 32" "64 \<le> al"
    using args align_data_len_pos by (auto simp: init_args_ok_def al n)
  obtain nx fl where sp: "split_memory al b 0 n (nxt w) None = (nx, fl)" by (cases "split_memory al b 0 n (nxt w) None")
  then have ch: "chain nx fl (rev (block_nodes al b n))"
    using split_memory_correct [of "nxt w" None al b 0 n nx fl] small by (simp add: block_nodes_def)
  let ?w = "w\<lparr>hdr := h, pool_record_header := Some ha\<rparr>"
  let ?w1 = "?w\<lparr>mcalls := mcalls ?w + 1, nxt := nx, hdr := h\<lparr>freelist := fl, total_cnt := n, free_cnt := n\<rparr>\<rparr>"
  have "config_ok (h\<lparr>freelist := fl, total_cnt := n, free_cnt := n\<rparr>)"
    using args le small by (simp add: config_ok_def h init_args_ok_def al)
  then have "pool_inv_G ?w1 (rev (block_nodes al b n)) []"
    using m ok ch by (intro first_block_inv) (simp_all add: al n h)
  then obtain w0 G0 where w0: "init_locals workers junk ?w1 = Some w0" "pool_inv_G w0 G0 []"
      "same_config (hdr ?w1) (hdr w0)"
      "length (per_worker_pool (hdr w0)) = length (per_worker_pool (hdr ?w1)) + workers"
    using init_locals_inv by blast
  have "sf_pool_init w junk ha workers nm dlen per_worker cache_size fill_size inc_max = Inr w0"
    using le m small sp w0(1) by (simp add: sf_pool_init_def Let_def al [symmetric] n [symmetric] h [symmetric])
  then show ?thesis using w0(2-4) by (auto simp: pool_inv_def h same_config_def n)
qed

lemma sf_pool_init_InrD:
  assumes args: "init_args_ok workers dlen per_worker cache_size fill_size"
    and ok: "malloc_ok (malloc w)"
    and init: "sf_pool_init w junk ha workers nm dlen per_worker cache_size fill_size inc_max = Inr w0"
  shows "pool_inv w0 []" "length (per_worker_pool (hdr w0)) = workers"
    "init_size (hdr w0) = per_worker * workers" "pool_mem_inc_max (hdr w0) = inc_max"
    "local_cache_size (hdr w0) = cache_size"
proof -
  have "fill_size \<le> cache_size"
    using init by (auto simp: sf_pool_init_def Let_def split: if_splits)
  moreover obtain b where "malloc w (mcalls w) (align_data_len dlen * (per_worker * workers)) = Some b"
    using init args by (auto simp: sf_pool_init_def Let_def init_args_ok_def split: if_splits option.splits)
  ultimately show "pool_inv w0 []" "length (per_worker_pool (hdr w0)) = workers"
      "init_size (hdr w0) = per_worker * workers" "pool_mem_inc_max (hdr w0) = inc_max"
      "local_cache_size (hdr w0) = cache_size"
    using sf_pool_init_inv [OF args _ ok, of b junk ha nm inc_max] init by auto
qed

section \<open>Properties\<close>

text \<open>An allocator and a pool for the witnesses: two workers, four initial nodes.\<close>

definition ex_malloc :: "nat \<Rightarrow> nat \<Rightarrow> ptr" where
  "ex_malloc k n = (if n \<le> 4096 then Some (4096 * (k + 1)) else None)"

definition ex_world :: pool_world where
  "ex_world = \<lparr>hdr = \<lparr>next_hdr = None, pool_name = [], init_size = 0, increase_size = 0,
     fill_free_size = 0, pool_mem_inc_max = 0, local_cache_size = 0, data_len = 0,
     data_align_len = 0, pool_mem_inc_time = 0, free_cnt = 0, total_cnt = 0, freelist = None,
     per_worker_pool = []\<rparr>, nxt = (\<lambda>_. None), malloc = ex_malloc, mcalls = 0,
     pool_record_header = None\<rparr>"

lemma ex_malloc_ok: "malloc_ok (malloc ex_world)"
proof -
  have "4096 * k + 4096 \<le> 4096 * k' \<or> 4096 * k' + 4096 \<le> 4096 * k" if "k \<noteq> k'" for k k' :: nat
    using that by linarith
  then show ?thesis
    unfolding malloc_ok_def by (fastforce simp: ex_world_def ex_malloc_def split: if_splits)
qed

lemma ex_args: "init_args_ok 2 100 2 2 1"
  by (simp add: init_args_ok_def align_data_len_def CLIB_CACHE_LINE_BYTES_def SF_POOL_ALIGNED_LEN_def)

lemma ex_init: "\<exists>w0. sf_pool_init ex_world 0 8 2 ''p'' 100 2 2 1 3 = Inr w0"
proof -
  have "malloc ex_world (mcalls ex_world) (align_data_len 100 * (2 * 2)) = Some 4096"
    by (simp add: ex_world_def ex_malloc_def align_data_len_def CLIB_CACHE_LINE_BYTES_def
        SF_POOL_ALIGNED_LEN_def)
  then show ?thesis using sf_pool_init_inv [OF ex_args _ ex_malloc_ok] by fastforce
qed

text \<open>C14: After a successful \<open>sf_pool_init\<close> and any interleaving of the workers' allocations and
  releases, with clients overwriting the nodes they hold, an allocation by any worker makes no
  out-of-bounds access, returns NULL exactly when the worker's stack and the global list are empty
  and no memory can be added, and otherwise returns a node whose memory overlaps no node that a
  client holds; and every held node can be released by any worker without a memory error.\<close>

theorem pool_interleaving_safe:
  assumes "init_args_ok workers dlen per_worker cache_size fill_size" "malloc_ok (malloc w)"
    and "sf_pool_init w junk ha workers nm dlen per_worker cache_size fill_size inc_max = Inr w0"
    and "pool_step\<^sup>*\<^sup>* (w0, []) (v, outs)" and "i < workers"
  shows "(\<exists>v' r. alloc_node_from_pool i v = Some (v', r) \<and> (r = None \<longleftrightarrow> pool_exhausted i v)
            \<and> (\<forall>p\<in>set_option r. \<forall>q\<in>set outs.
                  p + data_align_len (hdr v') \<le> q \<or> q + data_align_len (hdr v') \<le> p))
       \<and> (\<forall>p\<in>set outs. \<exists>v'. free_node_to_pool i v p = Some v')"
proof -
  have inv0: "pool_inv w0 []" and i: "valid_worker w0 i"
    using sf_pool_init_InrD [OF assms(1-3)] assms(5) by (auto simp: valid_worker_def)
  have inv: "pool_inv v outs" and vi: "valid_worker v i"
    using pool_steps_inv [OF assms(4)] pool_steps_workers [OF assms(4)] inv0 i by auto
  then obtain G where G: "pool_inv_G v G outs" by (auto simp: pool_inv_def)
  obtain v' r where a: "alloc_node_from_pool i v = Some (v', r)" "r = None \<longleftrightarrow> pool_exhausted i v"
      "case r of None \<Rightarrow> pool_inv v' outs | Some p \<Rightarrow> pool_inv v' (p # outs)"
    using alloc_inv_G [OF G, of i] vi unfolding valid_worker_def by blast
  have "p + data_align_len (hdr v') \<le> q \<or> q + data_align_len (hdr v') \<le> p"
    if "r = Some p" "q \<in> set outs" for p q
    using a(3) that sfp.inv_distinct [of v' "p # outs"]
    by (fastforce simp: pool_inv_def pool_inv_G_def pool_nodes_def separated_def)
  moreover have "\<forall>p\<in>set outs. \<exists>v'. free_node_to_pool i v p = Some v'"
    using sfp.release_total [OF inv vi] by blast
  ultimately show ?thesis using a(1,2) by (auto simp: elem_set)
qed

theorem pool_interleaving_safe_witness:
  "\<exists>w0. sf_pool_init ex_world 0 8 2 ''p'' 100 2 2 1 3 = Inr w0
     \<and> (\<exists>v' r. alloc_node_from_pool 1 w0 = Some (v', r) \<and> (r = None \<longleftrightarrow> pool_exhausted 1 w0))"
proof -
  obtain w0 where w0: "sf_pool_init ex_world 0 8 2 ''p'' 100 2 2 1 3 = Inr w0" using ex_init by blast
  show ?thesis
    using pool_interleaving_safe [OF ex_args ex_malloc_ok w0 rtranclp.rtrancl_refl, of 1] w0 by auto
qed

text \<open>C15: Every node of the pool is accounted for at every moment: \<open>total_cnt\<close> is the number of
  nodes on the global list, plus those cached by the workers, plus those held by clients.\<close>

theorem pool_nodes_accounted:
  assumes "init_args_ok workers dlen per_worker cache_size fill_size" "malloc_ok (malloc w)"
    and "sf_pool_init w junk ha workers nm dlen per_worker cache_size fill_size inc_max = Inr w0"
    and "pool_step\<^sup>*\<^sup>* (w0, []) (v, outs)"
  shows "total_cnt (hdr v) = free_cnt (hdr v)
     + sum_list (map current_stack_len (per_worker_pool (hdr v))) + length outs"
proof -
  obtain G where G: "pool_inv_G v G outs"
    using sf_pool_init_InrD(1) [OF assms(1-3)] pool_steps_inv [OF assms(4)] by (auto simp: pool_inv_def)
  then have "map length (map live (per_worker_pool (hdr v))) = map current_stack_len (per_worker_pool (hdr v))"
    by (auto simp: pool_inv_G_def local_inv_def)
  then have "length (concat (map live (per_worker_pool (hdr v))))
      = sum_list (map current_stack_len (per_worker_pool (hdr v)))"
    by (simp only: length_concat)
  moreover have "total_cnt (hdr v) = length (pool_nodes v G outs)" "free_cnt (hdr v) = length G"
    using G by (simp_all add: pool_inv_G_def)
  ultimately show ?thesis by (simp only: pool_nodes_def length_append add.assoc)
qed

theorem pool_nodes_accounted_witness:
  "\<exists>w0. sf_pool_init ex_world 0 8 2 ''p'' 100 2 2 1 3 = Inr w0 \<and> total_cnt (hdr w0)
     = free_cnt (hdr w0) + sum_list (map current_stack_len (per_worker_pool (hdr w0))) + length ([] :: addr list)"
proof -
  obtain w0 where w0: "sf_pool_init ex_world 0 8 2 ''p'' 100 2 2 1 3 = Inr w0" using ex_init by blast
  show ?thesis
    using pool_nodes_accounted [OF ex_args ex_malloc_ok w0 rtranclp.rtrancl_refl] w0 by blast
qed

text \<open>\<open>sf_pool_init\<close> with sensible arguments and a successful first allocation returns a pool
  in which the invariant holds with no node handed out and one local pool per worker; with
  \<open>fill_free_size > local_cache_size\<close> it ends in the error exit.\<close>

theorem sf_pool_init_correct:
  assumes "init_args_ok workers dlen per_worker cache_size fill_size" "malloc_ok (malloc w)"
    and "malloc w (mcalls w) (align_data_len dlen * (per_worker * workers)) = Some b"
  shows "if fill_size > cache_size
         then sf_pool_init w junk ha workers nm dlen per_worker cache_size fill_size inc_max
                = Inl Fill_free_gt_local_cache
         else \<exists>w0. sf_pool_init w junk ha workers nm dlen per_worker cache_size fill_size inc_max = Inr w0
                \<and> pool_inv w0 [] \<and> length (per_worker_pool (hdr w0)) = workers"
proof (cases "fill_size > cache_size")
  case True
  then show ?thesis by (simp add: sf_pool_init_def Let_def)
next
  case False
  then show ?thesis using sf_pool_init_inv [OF assms(1) _ assms(2,3), of junk ha nm inc_max] by auto
qed

theorem sf_pool_init_correct_witness:
  "\<exists>w0. sf_pool_init ex_world 0 8 2 ''p'' 100 2 2 1 3 = Inr w0
      \<and> pool_inv w0 [] \<and> length (per_worker_pool (hdr w0)) = 2"
proof -
  have m: "malloc ex_world (mcalls ex_world) (align_data_len 100 * (2 * 2)) = Some 4096"
    by (simp add: ex_world_def ex_malloc_def align_data_len_def CLIB_CACHE_LINE_BYTES_def
        SF_POOL_ALIGNED_LEN_def)
  show ?thesis using sf_pool_init_correct [OF ex_args ex_malloc_ok m, of 0 8 "''p''" 3] by simp
qed

text \<open>If the initial size and all later increments together stay below \<open>2 ^ 32\<close> nodes, none
  of the pool's 32-bit counters ever wraps around.\<close>

theorem pool_counters_fit:
  assumes "pool_inv w outs" "pool_step\<^sup>*\<^sup>* (w, outs) (v, outs')"
    and "init_size (hdr v) + pool_mem_inc_max (hdr v) * local_cache_size (hdr v) < 2 ^ 32"
  shows "total_cnt (hdr v) < 2 ^ 32 \<and> free_cnt (hdr v) < 2 ^ 32
    \<and> list_all (\<lambda>lp. current_stack_len lp < 2 ^ 32 \<and> free_list_len lp < 2 ^ 32) (per_worker_pool (hdr v))"
proof -
  obtain G where G: "pool_inv_G v G outs'"
    using pool_steps_inv [OF assms(2)] assms(1) by (auto simp: pool_inv_def)
  have "pool_mem_inc_time (hdr v) * local_cache_size (hdr v) \<le> pool_mem_inc_max (hdr v) * local_cache_size (hdr v)"
    using G by (simp add: pool_inv_G_def)
  moreover have "total_cnt (hdr v) \<le> init_size (hdr v) + pool_mem_inc_time (hdr v) * local_cache_size (hdr v)"
    using G by (simp add: pool_inv_G_def)
  ultimately have total: "total_cnt (hdr v) < 2 ^ 32" using assms(3) by linarith
  moreover have "current_stack_len lp \<le> total_cnt (hdr v)" "free_list_len lp \<le> current_stack_len lp"
    if "lp \<in> set (per_worker_pool (hdr v))" for lp
  proof -
    have "length (live lp) \<le> length (concat (map live (per_worker_pool (hdr v))))"
      using that member_le_sum_list [of "length (live lp)" "map length (map live (per_worker_pool (hdr v)))"]
      by (simp add: length_concat)
    then show "current_stack_len lp \<le> total_cnt (hdr v)" "free_list_len lp \<le> current_stack_len lp"
      using G that by (auto simp: pool_inv_G_def pool_nodes_def local_inv_def)
  qed
  moreover have "free_cnt (hdr v) \<le> total_cnt (hdr v)" using G by (simp add: pool_inv_G_def pool_nodes_def)
  ultimately show ?thesis by (fastforce simp: list_all_iff intro: le_less_trans)
qed

theorem pool_counters_fit_witness:
  "\<exists>w0. sf_pool_init ex_world 0 8 2 ''p'' 100 2 2 1 3 = Inr w0 \<and> total_cnt (hdr w0) < 2 ^ 32"
proof -
  obtain w0 where w0: "sf_pool_init ex_world 0 8 2 ''p'' 100 2 2 1 3 = Inr w0" using ex_init by blast
  have "init_size (hdr w0) + pool_mem_inc_max (hdr w0) * local_cache_size (hdr w0) < 2 ^ 32"
    by (simp add: sf_pool_init_InrD(3-5) [OF ex_args ex_malloc_ok w0])
  then show ?thesis
    using pool_counters_fit [OF sf_pool_init_InrD(1) [OF ex_args ex_malloc_ok w0] rtranclp.rtrancl_refl] w0
    by blast
qed

end
