(* ===== verification/Vlib_Loop.thy ===== *)
theory Vlib_Loop
  imports Sf_Prelude
begin

text \<open>
  The frame loop that every graph node of the data plane repeats: an outer loop that asks VPP for a
  next frame, an inner loop that handles two buffers at a time while at least \<open>dual_min\<close> (usually four) are left, and an
  inner loop that handles one.  How much room a next frame has is VPP's choice: \<open>fresh t\<close> is what
  \<open>vlib_get_next_frame\<close> reports at the t-th request and \<open>left t\<close> is what remains after
  \<open>vlib_validate_buffer_enqueue_x1/x2\<close>, which may switch frames.  A node's bodies update a state
  of any type.  The interface locale \<open>dual_loop\<close> states when the unrolled loop is the plain
  left-to-right processing of the frame.
\<close>

section \<open>The loop\<close>

datatype phase = Outer | is_Dual: Dual (room: nat) | Single (room: nat)

record 's node_cfg =
  dual_min :: nat
  body_x2 :: "nat \<Rightarrow> nat \<Rightarrow> 's \<Rightarrow> 's"
  body_x1 :: "nat \<Rightarrow> 's \<Rightarrow> 's"
  fresh_room :: "nat \<Rightarrow> nat"
  left_room :: "nat \<Rightarrow> nat"

partial_function (option) vlib_loop ::
  "'s node_cfg \<Rightarrow> phase \<Rightarrow> nat \<Rightarrow> nat list \<Rightarrow> 's \<Rightarrow> 's option" where
  "vlib_loop c ph t from s =
    (if ph = Outer then
       if from = [] then Some s else vlib_loop c (Dual (fresh_room c t)) (t + 1) from s
     else if is_Dual ph then
       if length from \<ge> dual_min c \<and> room ph \<ge> 2 then
         vlib_loop c (Dual (left_room c t)) (t + 1) (drop 2 from) (body_x2 c (from ! 0) (from ! 1) s)
       else vlib_loop c (Single (room ph)) t from s
     else
       if from \<noteq> [] \<and> room ph > 0 then
         vlib_loop c (Single (left_room c t)) (t + 1) (drop 1 from) (body_x1 c (from ! 0) s)
       else vlib_loop c Outer t from s)"

definition vlib_node ::
  "(nat \<Rightarrow> nat \<Rightarrow> 's \<Rightarrow> 's) \<Rightarrow> (nat \<Rightarrow> 's \<Rightarrow> 's) \<Rightarrow> (nat \<Rightarrow> nat) \<Rightarrow> (nat \<Rightarrow> nat) \<Rightarrow> nat list \<Rightarrow> 's \<Rightarrow> 's option" where
  "vlib_node b2 b1 fresh left from s =
    vlib_loop \<lparr>dual_min = 4, body_x2 = b2, body_x1 = b1, fresh_room = fresh, left_room = left\<rparr> Outer 0 from s"

text \<open>VPP hands out next frames that have room for at least one buffer.\<close>

definition frames_ok :: "(nat \<Rightarrow> nat) \<Rightarrow> bool" where
  "frames_ok fresh \<longleftrightarrow> (\<forall>t. fresh t > 0)"

section \<open>Unrolled loops\<close>

text \<open>
  \<open>I xs s\<close>: an invariant of the state while the buffers \<open>xs\<close> are still to be handled.
\<close>

fun rank :: "phase \<Rightarrow> nat" where
  "rank Outer = 2"
| "rank (Dual n) = (if n = 0 then 4 else 1)"
| "rank (Single n) = (if n = 0 then 3 else 0)"

locale dual_loop =
  fixes b2 :: "nat \<Rightarrow> nat \<Rightarrow> 's \<Rightarrow> 's" and b1 :: "nat \<Rightarrow> 's \<Rightarrow> 's"
    and I :: "nat list \<Rightarrow> 's \<Rightarrow> bool"
  assumes b2_b1: "x \<noteq> y \<Longrightarrow> I (x # y # xs) s \<Longrightarrow> b2 x y s = b1 y (b1 x s)"
    and I_step: "x \<notin> set xs \<Longrightarrow> I (x # xs) s \<Longrightarrow> I xs (b1 x s)"
begin

lemma loop_eq:
  assumes "frames_ok fresh" "distinct from" "I from s" "2 \<le> m"
  shows "vlib_loop \<lparr>dual_min = m, body_x2 = b2, body_x1 = b1, fresh_room = fresh, left_room = left\<rparr> ph t from s
    = Some (fold b1 from s)"
  using assms(2,3)
proof (induction "5 * length from + rank ph" arbitrary: ph t "from" s rule: less_induct)
  case less
  let ?c = "\<lparr>dual_min = m, body_x2 = b2, body_x1 = b1, fresh_room = fresh, left_room = left\<rparr>"
  show ?case
  proof (cases ph)
    case Outer
    have "fresh t > 0" using assms(1) by (simp add: frames_ok_def)
    then have "vlib_loop ?c (Dual (fresh t)) (t + 1) from s = Some (fold b1 from s)"
      by (intro less.hyps less.prems) (simp add: Outer)
    then show ?thesis by (subst vlib_loop.simps) (cases "from = []"; simp add: Outer)
  next
    case (Dual n)
    show ?thesis
    proof (cases "length from \<ge> m \<and> n \<ge> 2")
      case True
      then obtain x y xs where f: "from = x # y # xs"
        using assms(4) by (cases "from"; cases "tl from") auto
      have step: "I xs (b1 y (b1 x s))" "b2 x y s = b1 y (b1 x s)"
        using less.prems f I_step [of x "y # xs" s] I_step [of y xs "b1 x s"] b2_b1 [of x y xs s]
        by simp_all
      have "vlib_loop ?c (Dual (left t)) (t + 1) xs (b1 y (b1 x s)) = Some (fold b1 xs (b1 y (b1 x s)))"
        using less.prems(1) by (intro less.hyps step) (simp_all add: f Dual)
      then show ?thesis by (subst vlib_loop.simps) (use True in \<open>simp add: Dual f step(2)\<close>)
    next
      case False
      have "vlib_loop ?c (Single n) t from s = Some (fold b1 from s)"
        by (intro less.hyps less.prems) (simp add: Dual)
      then show ?thesis by (subst vlib_loop.simps) (use False in \<open>auto simp: Dual\<close>)
    qed
  next
    case (Single n)
    show ?thesis
    proof (cases "from \<noteq> [] \<and> n > 0")
      case True
      then obtain x xs where f: "from = x # xs" by (cases "from") auto
      have "vlib_loop ?c (Single (left t)) (t + 1) xs (b1 x s) = Some (fold b1 xs (b1 x s))"
        using less.prems f I_step [of x xs s] by (intro less.hyps) (simp_all add: Single)
      then show ?thesis by (subst vlib_loop.simps) (use True in \<open>simp add: Single f\<close>)
    next
      case False
      show ?thesis
      proof (cases "from = []")
        case True
        then show ?thesis by (subst vlib_loop.simps, subst vlib_loop.simps) (simp add: Single)
      next
        case ne: False
        then have "vlib_loop ?c Outer t from s = Some (fold b1 from s)"
          using False by (intro less.hyps less.prems) (simp add: Single)
        then show ?thesis by (subst vlib_loop.simps) (use False in \<open>auto simp: Single\<close>)
      qed
    qed
  qed
qed

text \<open>The node returns, and its effect is that of handling the buffers one after the other.\<close>

lemma node_eq:
  "frames_ok fresh \<Longrightarrow> distinct from \<Longrightarrow> I from s \<Longrightarrow>
    vlib_node b2 b1 fresh left from s = Some (fold b1 from s)"
  unfolding vlib_node_def by (rule loop_eq) simp_all

end

section \<open>Nodes that work on each packet alone\<close>

text \<open>
  The state of such a node: the buffers' metadata by buffer index, and the buffers enqueued so far
  with their next node.
\<close>

record 'b vstate =
  bufs :: "nat \<Rightarrow> 'b"
  enq :: "(nat \<times> nat) list"

definition enqueue_x1 :: "nat \<Rightarrow> 'b \<times> nat \<Rightarrow> 'b vstate \<Rightarrow> 'b vstate" where
  "enqueue_x1 bi r s = s\<lparr>bufs := (bufs s)(bi := fst r), enq := enq s @ [(bi, snd r)]\<rparr>"

definition packet_node_x1 :: "('b \<Rightarrow> 'b \<times> nat) \<Rightarrow> nat \<Rightarrow> 'b vstate \<Rightarrow> 'b vstate" where
  "packet_node_x1 h1 bi s = enqueue_x1 bi (h1 (bufs s bi)) s"

definition packet_node_x2 ::
  "('b \<Rightarrow> 'b \<Rightarrow> ('b \<times> nat) \<times> ('b \<times> nat)) \<Rightarrow> nat \<Rightarrow> nat \<Rightarrow> 'b vstate \<Rightarrow> 'b vstate" where
  "packet_node_x2 h2 bi0 bi1 s =
    (case h2 (bufs s bi0) (bufs s bi1) of (r0, r1) \<Rightarrow> enqueue_x1 bi1 r1 (enqueue_x1 bi0 r0 s))"

definition packet_node ::
  "('b \<Rightarrow> 'b \<Rightarrow> ('b \<times> nat) \<times> ('b \<times> nat)) \<Rightarrow> ('b \<Rightarrow> 'b \<times> nat) \<Rightarrow> (nat \<Rightarrow> nat) \<Rightarrow> (nat \<Rightarrow> nat)
    \<Rightarrow> nat list \<Rightarrow> 'b vstate \<Rightarrow> 'b vstate option" where
  "packet_node h2 h1 = vlib_node (packet_node_x2 h2) (packet_node_x1 h1)"

text \<open>What such a node should do to a frame.\<close>

definition handle_frame :: "('b \<Rightarrow> 'b \<times> nat) \<Rightarrow> nat list \<Rightarrow> 'b vstate \<Rightarrow> 'b vstate" where
  "handle_frame h1 from s =
    s\<lparr>bufs := (\<lambda>bi. if bi \<in> set from then fst (h1 (bufs s bi)) else bufs s bi),
      enq := enq s @ map (\<lambda>bi. (bi, snd (h1 (bufs s bi)))) from\<rparr>"

lemma fold_packet_node:
  "distinct from \<Longrightarrow> fold (packet_node_x1 h1) from s = handle_frame h1 from s"
proof (induction "from" arbitrary: s)
  case (Cons x xs)
  have "fold (packet_node_x1 h1) (x # xs) s = handle_frame h1 xs (packet_node_x1 h1 x s)"
    using Cons by simp
  also have "\<dots> = handle_frame h1 (x # xs) s"
    using Cons.prems
    by (auto simp: handle_frame_def packet_node_x1_def enqueue_x1_def fun_eq_iff intro!: vstate.equality)
  finally show ?case .
qed (simp add: handle_frame_def)

locale dual_packet_node =
  fixes h2 :: "'b \<Rightarrow> 'b \<Rightarrow> ('b \<times> nat) \<times> ('b \<times> nat)" and h1 :: "'b \<Rightarrow> 'b \<times> nat"
    and ok :: "'b \<Rightarrow> bool"
  assumes h2_h1: "ok a \<Longrightarrow> ok b \<Longrightarrow> h2 a b = (h1 a, h1 b)"

sublocale dual_packet_node \<subseteq>
  dual_loop "packet_node_x2 h2" "packet_node_x1 h1" "\<lambda>xs s. \<forall>x\<in>set xs. ok (bufs s x)"
proof
  fix x y :: nat and xs :: "nat list" and s :: "'b vstate"
  assume "x \<noteq> y" "\<forall>z\<in>set (x # y # xs). ok (bufs s z)"
  then show "packet_node_x2 h2 x y s = packet_node_x1 h1 y (packet_node_x1 h1 x s)"
    by (simp add: packet_node_x2_def packet_node_x1_def h2_h1 enqueue_x1_def)
next
  fix x :: nat and xs :: "nat list" and s :: "'b vstate"
  assume "x \<notin> set xs" "\<forall>z\<in>set (x # xs). ok (bufs s z)"
  then show "\<forall>z\<in>set xs. ok (bufs (packet_node_x1 h1 x s) z)"
    by (auto simp: packet_node_x1_def enqueue_x1_def)
qed

context dual_packet_node begin

lemma packet_node_eq:
  assumes "frames_ok fresh" "distinct from" "\<forall>x\<in>set from. ok (bufs s x)"
  shows "packet_node h2 h1 fresh left from s = Some (handle_frame h1 from s)"
  unfolding packet_node_def using node_eq [OF assms] fold_packet_node [OF assms(2)] by metis

end

end
