(* ===== verification/Sf_Timer.thy ===== *)
theory Sf_Timer
  imports Sf_Pool Vlib_Loop
begin

text \<open>
  The timer wheel of \<open>sf_lib/sf_timer\<close>: per worker 2^14 buckets, each a list of chunks with 510 slots
  for timer handles.  Submitting puts a handle in the bucket \<open>ticks\<close> ahead, expiring moves the
  chunks of the passed buckets to the expire list, and the input node hands the timers of that list to
  the nodes registered for their groups and returns the chunks to their pool.  Chunks live in a store
  indexed by address; the pools are those of \<open>Sf_Pool\<close>.  The clock is a 64-bit float: its type and
  arithmetic are the parameter \<open>f64_ops\<close>, so nothing below depends on how it rounds.
\<close>

section \<open>State\<close>

record 'f f64_ops =
  f_zero :: 'f
  f_one :: 'f
  f_tick :: 'f  \<comment> \<open>the constant \<open>SF_TIMER_SECOND_PER_TICK\<close>\<close>
  f_lt :: "'f \<Rightarrow> 'f \<Rightarrow> bool"
  f_add :: "'f \<Rightarrow> 'f \<Rightarrow> 'f"
  f_sub :: "'f \<Rightarrow> 'f \<Rightarrow> 'f"
  f_mul :: "'f \<Rightarrow> 'f \<Rightarrow> 'f"
  f_div :: "'f \<Rightarrow> 'f \<Rightarrow> 'f"
  f_of_u32 :: "u32 \<Rightarrow> 'f"
  f_to_u32 :: "'f \<Rightarrow> u32"

definition SF_TIMER_MAX_TICKS :: u32 where "SF_TIMER_MAX_TICKS = 2 ^ 14"
definition SF_TW_TIMER_BUCKET_MASK :: u32 where "SF_TW_TIMER_BUCKET_MASK = SF_TIMER_MAX_TICKS - 1"
definition SF_TW_TIMER_BUCKET_CNT :: nat where "SF_TW_TIMER_BUCKET_CNT = unat SF_TIMER_MAX_TICKS"
definition SF_TW_TIMER_SLOT_CNT :: nat where "SF_TW_TIMER_SLOT_CNT = (32 * 128 - 8) div 8 - 1"
definition SF_TW_TIMER_GROUP_CNT :: nat where "SF_TW_TIMER_GROUP_CNT = 8"
definition SF_TW_TIMER_GROUP_IP_REASS :: u8 where "SF_TW_TIMER_GROUP_IP_REASS = 4"

text \<open>\<open>sf_timer_handle_t\<close>: a group in the low 8 bits, the distance of the timer's data in the upper 56.\<close>

definition timer_handle :: "u64 \<Rightarrow> u8 \<Rightarrow> u64" where
  "timer_handle timer_info_index group_id = push_bit 8 timer_info_index OR ucast group_id"

definition handle_group :: "u64 \<Rightarrow> u8" where "handle_group h = ucast h"
definition handle_index :: "u64 \<Rightarrow> u64" where "handle_index h = drop_bit 8 h"

record sf_timer_chunk_t =
  next_chunk :: ptr
  current_slot_cnt :: u64
  sf_timer_slots :: "u64 list"

record sf_timer_bucket_t =
  slot_used_cnt :: u32
  slot_left_cnt :: u32
  first_chunk :: ptr
  current_chunk :: ptr

text \<open>A slot handler points to a slot of a chunk.\<close>

record 'f sf_timer_record_t =
  slot_handler :: "addr \<times> nat"
  timer_info :: addr
  safe_clib_time :: 'f

record 'f sf_tw_timer_t =
  timer_info_start :: u64
  sf_timer_buckets :: "sf_timer_bucket_t list"
  expire_chunk_list :: ptr
  pre_bucket_index :: u32
  ticks_per_second :: 'f
  timer_interval :: 'f
  last_run_time :: 'f
  next_run_time :: 'f

text \<open>
  The wheels of all workers, the two pools, the chunks and the clients' timer data (of type \<open>'d\<close>).
  \<open>expired_timer_cnt\<close> is the input node's counter of each worker.
\<close>

record ('f, 'd) timer_world =
  tw_timer_array :: "'f sf_tw_timer_t list"
  next_index_vec :: "u32 list"
  timer_info_pool :: pool_world
  timer_chunk_pool :: pool_world
  tchunks :: "addr \<Rightarrow> sf_timer_chunk_t"
  tinfos :: "addr \<Rightarrow> 'd"
  expired_timer_cnt :: "nat \<Rightarrow> u64"

definition zero_bucket :: sf_timer_bucket_t where
  "zero_bucket = \<lparr>slot_used_cnt = 0, slot_left_cnt = 0, first_chunk = None, current_chunk = None\<rparr>"

section \<open>Operations\<close>

definition put_tw :: "nat \<Rightarrow> 'f sf_tw_timer_t \<Rightarrow> ('f, 'd) timer_world \<Rightarrow> ('f, 'd) timer_world" where
  "put_tw wi tw w = w\<lparr>tw_timer_array := (tw_timer_array w)[wi := tw]\<rparr>"

text \<open>\<open>start\<close> is the address the code takes as the origin; \<open>mem\<close>: the bucket vector was allocated.\<close>

definition sf_tw_timer_init ::
  "'f f64_ops \<Rightarrow> bool \<Rightarrow> u64 \<Rightarrow> int \<times> 'f sf_tw_timer_t" where
  "sf_tw_timer_init F mem start =
    (let tw = \<lparr>timer_info_start = 0, sf_timer_buckets = [], expire_chunk_list = None, pre_bucket_index = 0,
               ticks_per_second = f_zero F, timer_interval = f_zero F, last_run_time = f_zero F,
               next_run_time = f_zero F\<rparr>
     in if \<not> mem then (-1, tw)
        else (0, tw\<lparr>sf_timer_buckets := replicate SF_TW_TIMER_BUCKET_CNT zero_bucket,
                    timer_info_start := start,
                    ticks_per_second := f_div F (f_one F) (f_tick F), timer_interval := f_tick F\<rparr>))"

definition alloc_timer_info :: "nat \<Rightarrow> ('f, 'd) timer_world \<Rightarrow> (('f, 'd) timer_world \<times> ptr) option" where
  "alloc_timer_info wi w =
    do { (pool, r) \<leftarrow> alloc_node_from_pool wi (timer_info_pool w);
         Some (w\<lparr>timer_info_pool := pool\<rparr>, r) }"

definition free_timer_info :: "nat \<Rightarrow> ('f, 'd) timer_world \<Rightarrow> addr \<Rightarrow> ('f, 'd) timer_world option" where
  "free_timer_info wi w info =
    do { pool \<leftarrow> free_node_to_pool wi (timer_info_pool w) info;
         Some (w\<lparr>timer_info_pool := pool\<rparr>) }"

definition new_timer_record :: "'f f64_ops \<Rightarrow> 'f sf_tw_timer_t \<Rightarrow> addr \<Rightarrow> sf_timer_chunk_t \<Rightarrow> addr \<Rightarrow> u32
    \<Rightarrow> 'f sf_timer_record_t" where
  "new_timer_record F tw a c info ticks =
    \<lparr>slot_handler = (a, unat (current_slot_cnt c - 1)), timer_info = info,
     safe_clib_time = f_add F (last_run_time tw) (f_mul F (f_of_u32 F (ticks - 2)) (timer_interval tw))\<rparr>"

text \<open>
  The result is the return code, the content of the caller's timer record when the code is 0, and
  the new state.
\<close>

definition sf_submit_timer_tw ::
  "'f f64_ops \<Rightarrow> nat \<Rightarrow> addr \<Rightarrow> u8 \<Rightarrow> u32 \<Rightarrow> ('f, 'd) timer_world
    \<Rightarrow> (int \<times> 'f sf_timer_record_t option \<times> ('f, 'd) timer_world) option" where
  "sf_submit_timer_tw F wi info group_id ticks w =
    do { tw \<leftarrow> arr_read (tw_timer_array w) wi;
         let handle = timer_handle (of_nat info - timer_info_start tw) group_id;
         if ticks > SF_TIMER_MAX_TICKS then Some (-1, None, w)
         else
           do { let i = unat ((pre_bucket_index tw + ticks) AND SF_TW_TIMER_BUCKET_MASK);
                b \<leftarrow> arr_read (sf_timer_buckets tw) i;
                if slot_left_cnt b > 0 then
                  do { a \<leftarrow> current_chunk b;
                       let c = tchunks w a;
                       slots \<leftarrow> arr_write (sf_timer_slots c) (unat (current_slot_cnt c)) handle;
                       let c = c\<lparr>sf_timer_slots := slots, current_slot_cnt := current_slot_cnt c + 1\<rparr>;
                       let b = b\<lparr>slot_left_cnt := slot_left_cnt b - 1, slot_used_cnt := slot_used_cnt b + 1\<rparr>;
                       let tw' = tw\<lparr>sf_timer_buckets := (sf_timer_buckets tw)[i := b]\<rparr>;
                       Some (0, Some (new_timer_record F tw a c info ticks),
                             put_tw wi tw' (w\<lparr>tchunks := (tchunks w)(a := c)\<rparr>)) }
                else
                  do { (pool, r) \<leftarrow> alloc_node_from_pool wi (timer_chunk_pool w);
                       let w = w\<lparr>timer_chunk_pool := pool\<rparr>;
                       case r of
                         None \<Rightarrow> Some (-1, None, w)
                       | Some a \<Rightarrow>
                           do { slots \<leftarrow> arr_write (sf_timer_slots (tchunks w a)) 0 handle;
                                let c = (tchunks w a)\<lparr>next_chunk := None, sf_timer_slots := slots, current_slot_cnt := 1\<rparr>;
                                let w = w\<lparr>tchunks := (tchunks w)(a := c)\<rparr>;
                                let (w, b) =
                                  (case current_chunk b of
                                     None \<Rightarrow> (w, b\<lparr>first_chunk := Some a, current_chunk := Some a\<rparr>)
                                   | Some l \<Rightarrow>
                                       (w\<lparr>tchunks := (tchunks w)(l := (tchunks w l)\<lparr>next_chunk := Some a\<rparr>)\<rparr>,
                                        b\<lparr>current_chunk := Some a\<rparr>));
                                let b = b\<lparr>slot_left_cnt := slot_left_cnt b + of_nat SF_TW_TIMER_SLOT_CNT - 1,
                                          slot_used_cnt := slot_used_cnt b + 1\<rparr>;
                                let tw' = tw\<lparr>sf_timer_buckets := (sf_timer_buckets tw)[i := b]\<rparr>;
                                Some (0, Some (new_timer_record F tw a c info ticks), put_tw wi tw' w) } } } }"

text \<open>\<open>*(timer_record->slot_handler) = 0\<close>\<close>

definition clear_slot :: "'f sf_timer_record_t \<Rightarrow> ('f, 'd) timer_world \<Rightarrow> ('f, 'd) timer_world option" where
  "clear_slot rec w =
    (case slot_handler rec of (a, i) \<Rightarrow>
       do { slots \<leftarrow> arr_write (sf_timer_slots (tchunks w a)) i 0;
            Some (w\<lparr>tchunks := (tchunks w)(a := (tchunks w a)\<lparr>sf_timer_slots := slots\<rparr>)\<rparr>) })"

definition SF_TIMER_STATUS_BUSY :: int where "SF_TIMER_STATUS_BUSY = 1"
definition SF_TIMER_STATUS_SUCCESS :: int where "SF_TIMER_STATUS_SUCCESS = 0"

definition sf_stop_timer ::
  "'f f64_ops \<Rightarrow> 'f \<Rightarrow> 'f sf_timer_record_t \<Rightarrow> ('f, 'd) timer_world \<Rightarrow> (int \<times> ('f, 'd) timer_world) option" where
  "sf_stop_timer F time_now rec w =
    (if f_lt F time_now (safe_clib_time rec)
     then do { w \<leftarrow> clear_slot rec w; Some (SF_TIMER_STATUS_SUCCESS, w) }
     else Some (SF_TIMER_STATUS_BUSY, w))"

text \<open>\<open>zero\<close> is a zeroed timer data of the client's type.\<close>

definition sf_stop_timer_void ::
  "'f f64_ops \<Rightarrow> 'f \<Rightarrow> 'd \<Rightarrow> nat \<Rightarrow> 'f sf_timer_record_t \<Rightarrow> ('f, 'd) timer_world \<Rightarrow> ('f, 'd) timer_world option" where
  "sf_stop_timer_void F time_now zero wi rec w =
    (if f_lt F time_now (safe_clib_time rec)
     then do { w \<leftarrow> clear_slot rec w; free_timer_info wi w (timer_info rec) }
     else Some (w\<lparr>tinfos := (tinfos w)(timer_info rec := zero)\<rparr>))"

text \<open>The loop over the ticks that have passed.\<close>

fun expire_loop ::
  "nat \<Rightarrow> 'f sf_tw_timer_t \<Rightarrow> (addr \<Rightarrow> sf_timer_chunk_t) \<Rightarrow> u32 \<Rightarrow> ptr \<Rightarrow> ptr
    \<Rightarrow> ('f sf_tw_timer_t \<times> (addr \<Rightarrow> sf_timer_chunk_t) \<times> u32 \<times> ptr) option" where
  "expire_loop 0 tw ch ret_cnt first_expire last_expire = Some (tw, ch, ret_cnt, first_expire)"
| "expire_loop (Suc k) tw ch ret_cnt first_expire last_expire =
    do { let tw = tw\<lparr>pre_bucket_index := (pre_bucket_index tw + 1) AND SF_TW_TIMER_BUCKET_MASK\<rparr>;
         let i = unat (pre_bucket_index tw);
         b \<leftarrow> arr_read (sf_timer_buckets tw) i;
         if slot_used_cnt b = 0 then expire_loop k tw ch ret_cnt first_expire last_expire
         else
           do { (ch, first_expire) \<leftarrow>
                  (if first_expire = None then Some (ch, first_chunk b)
                   else do { l \<leftarrow> last_expire;
                             Some (ch(l := (ch l)\<lparr>next_chunk := first_chunk b\<rparr>), first_expire) });
                expire_loop k (tw\<lparr>sf_timer_buckets := (sf_timer_buckets tw)[i := zero_bucket]\<rparr>) ch
                  (ret_cnt + slot_used_cnt b) first_expire (current_chunk b) } }"

definition sf_tw_timer_expire_internal ::
  "'f f64_ops \<Rightarrow> nat \<Rightarrow> 'f \<Rightarrow> ('f, 'd) timer_world \<Rightarrow> (u32 \<times> ('f, 'd) timer_world) option" where
  "sf_tw_timer_expire_internal F wi now w =
    do { tw \<leftarrow> arr_read (tw_timer_array w) wi;
         if f_lt F now (next_run_time tw) then Some (0, w)
         else if expire_chunk_list tw \<noteq> None then Some (0, w)
         else
           do { let nticks = f_to_u32 F (f_mul F (ticks_per_second tw) (f_sub F now (last_run_time tw)));
                let tw = tw\<lparr>next_run_time := f_add F now (timer_interval tw)\<rparr>;
                (tw, ch, ret_cnt, first_expire) \<leftarrow> expire_loop (unat nticks) tw (tchunks w) 0 None None;
                let tw = tw\<lparr>expire_chunk_list := first_expire,
                            last_run_time := f_add F (last_run_time tw) (f_mul F (f_of_u32 F nticks) (timer_interval tw))\<rparr>;
                Some (ret_cnt, put_tw wi tw (w\<lparr>tchunks := ch\<rparr>)) } }"

text \<open>
  The two bodies of \<open>sf_timer_input_internal\<close>: the slots are walked by index, \<open>enqueued\<close> collects the
  pointers with their next node.  A group beyond the vector of next nodes is an error (\<open>None\<close>).
\<close>

record timer_out =
  enqueued :: "(u64 \<times> u32) list"
  not_zero_cnt :: u32

definition SF_NEXT_NODE_TIMER_ERROR_DROP :: u32 where "SF_NEXT_NODE_TIMER_ERROR_DROP = 0"

definition timer_next :: "u32 list \<Rightarrow> u64 \<Rightarrow> (u32 \<times> u32) option" where
  "timer_next vec h =
    (if handle_group h \<noteq> 0 then do { nx \<leftarrow> arr_read vec (unat (handle_group h)); Some (nx, 1) }
     else Some (SF_NEXT_NODE_TIMER_ERROR_DROP, 0))"

definition timer_input_x1 :: "u32 list \<Rightarrow> u64 \<Rightarrow> u64 list \<Rightarrow> nat \<Rightarrow> timer_out option \<Rightarrow> timer_out option" where
  "timer_input_x1 vec start slots i so =
    do { s \<leftarrow> so;
         bi0 \<leftarrow> arr_read slots i;
         let ptr0 = handle_index bi0 + start;
         (next0, nz0) \<leftarrow> timer_next vec bi0;
         Some (s\<lparr>enqueued := enqueued s @ [(ptr0, next0)], not_zero_cnt := not_zero_cnt s + nz0\<rparr>) }"

definition timer_input_x2 ::
  "u32 list \<Rightarrow> u64 \<Rightarrow> u64 list \<Rightarrow> nat \<Rightarrow> nat \<Rightarrow> timer_out option \<Rightarrow> timer_out option" where
  "timer_input_x2 vec start slots i j so =
    do { s \<leftarrow> so;
         bi0 \<leftarrow> arr_read slots i;
         bi1 \<leftarrow> arr_read slots j;
         let ptr0 = handle_index bi0 + start;
         let ptr1 = handle_index bi1 + start;
         (next0, nz0) \<leftarrow> timer_next vec bi0;
         (next1, nz1) \<leftarrow> timer_next vec bi1;
         Some (s\<lparr>enqueued := enqueued s @ [(ptr0, next0), (ptr1, next1)],
                 not_zero_cnt := not_zero_cnt s + nz0 + nz1\<rparr>) }"

definition sf_timer_input_internal ::
  "(nat \<Rightarrow> nat) \<times> (nat \<Rightarrow> nat) \<Rightarrow> u32 list \<Rightarrow> u64 \<Rightarrow> sf_timer_chunk_t \<Rightarrow> (u64 \<times> u32) list
    \<Rightarrow> ((u64 \<times> u32) list \<times> u32) option" where
  "sf_timer_input_internal rooms vec start c outs =
    do { so \<leftarrow> vlib_loop \<lparr>dual_min = 2, body_x2 = timer_input_x2 vec start (sf_timer_slots c),
                     body_x1 = timer_input_x1 vec start (sf_timer_slots c), fresh_room = fst rooms, left_room = snd rooms\<rparr>
                    Outer 0 [0..<unat (ucast (current_slot_cnt c) :: u32)] (Some \<lparr>enqueued = outs, not_zero_cnt = 0\<rparr>);
         s \<leftarrow> so;
         Some (enqueued s, not_zero_cnt s) }"

text \<open>
  The loop of the input node over the expire list; \<open>k\<close> counts the chunks, \<open>rooms k\<close> are VPP's frames
  for the k-th.
\<close>

partial_function (option) timer_input_loop ::
  "(nat \<Rightarrow> (nat \<Rightarrow> nat) \<times> (nat \<Rightarrow> nat)) \<Rightarrow> nat \<Rightarrow> nat \<Rightarrow> u32 \<Rightarrow> (u64 \<times> u32) list \<Rightarrow> ('f, 'd) timer_world
    \<Rightarrow> (u32 \<times> (u64 \<times> u32) list \<times> ('f, 'd) timer_world) option" where
  "timer_input_loop rooms wi k ret_cnt outs w =
    do { tw \<leftarrow> arr_read (tw_timer_array w) wi;
         case expire_chunk_list tw of
           None \<Rightarrow> Some (ret_cnt, outs, w)
         | Some a \<Rightarrow>
             do { let c = tchunks w a;
                  let w = put_tw wi (tw\<lparr>expire_chunk_list := next_chunk c\<rparr>) w;
                  (outs, n) \<leftarrow> sf_timer_input_internal (rooms k) (next_index_vec w) (timer_info_start tw) c outs;
                  pool \<leftarrow> free_node_to_pool wi (timer_chunk_pool w) a;
                  let w = w\<lparr>timer_chunk_pool := pool\<rparr>;
                  if ret_cnt + n \<ge> of_nat SF_TW_TIMER_SLOT_CNT then Some (ret_cnt + n, outs, w)
                  else timer_input_loop rooms wi (k + 1) (ret_cnt + n) outs w } }"

definition sf_timer_input_node ::
  "'f f64_ops \<Rightarrow> (nat \<Rightarrow> (nat \<Rightarrow> nat) \<times> (nat \<Rightarrow> nat)) \<Rightarrow> nat \<Rightarrow> 'f \<Rightarrow> ('f, 'd) timer_world
    \<Rightarrow> ((u64 \<times> u32) list \<times> ('f, 'd) timer_world) option" where
  "sf_timer_input_node F rooms wi time_now w =
    do { tw \<leftarrow> arr_read (tw_timer_array w) wi;
         w \<leftarrow> (if expire_chunk_list tw = None
               then do { (_, w) \<leftarrow> sf_tw_timer_expire_internal F wi time_now w; Some w }
               else Some w);
         (ret_cnt, outs, w) \<leftarrow> timer_input_loop rooms wi 0 0 [] w;
         Some (outs, w\<lparr>expired_timer_cnt := (expired_timer_cnt w)(wi := expired_timer_cnt w wi + ucast ret_cnt)\<rparr>) }"

definition sf_timer_input_regist_next_node :: "nat \<Rightarrow> u32 \<Rightarrow> ('f, 'd) timer_world \<Rightarrow> ('f, 'd) timer_world option" where
  "sf_timer_input_regist_next_node timer_group_id next_index w =
    do { vec \<leftarrow> arr_write (next_index_vec w) timer_group_id next_index;
         Some (w\<lparr>next_index_vec := vec\<rparr>) }"

section \<open>Invariant\<close>

lemma in_handles: "h \<in> set (concat (map snd cs)) \<longleftrightarrow> (\<exists>c\<in>set cs. h \<in> set (snd c))"
  by auto

lemma slot_cnt: "SF_TW_TIMER_SLOT_CNT = 510"
  by (simp add: SF_TW_TIMER_SLOT_CNT_def)

lemma bucket_cnt: "SF_TW_TIMER_BUCKET_CNT = 2 ^ 14"
  by (simp add: SF_TW_TIMER_BUCKET_CNT_def SF_TIMER_MAX_TICKS_def)

text \<open>A chunk as the invariant sees it: its address and the handles in its used slots.\<close>

type_synonym cview = "addr \<times> u64 list"

abbreviation handles :: "cview list \<Rightarrow> u64 list" where
  "handles cs \<equiv> concat (map snd cs)"

definition chunk_ok :: "(addr \<Rightarrow> sf_timer_chunk_t) \<Rightarrow> cview \<Rightarrow> bool" where
  "chunk_ok ch c \<longleftrightarrow> current_slot_cnt (ch (fst c)) = of_nat (length (snd c))
     \<and> take (length (snd c)) (sf_timer_slots (ch (fst c))) = snd c
     \<and> snd c \<noteq> [] \<and> length (snd c) \<le> SF_TW_TIMER_SLOT_CNT"

definition chunks_ok :: "(addr \<Rightarrow> sf_timer_chunk_t) \<Rightarrow> ptr \<Rightarrow> cview list \<Rightarrow> bool" where
  "chunks_ok ch p cs \<longleftrightarrow> chain (\<lambda>a. next_chunk (ch a)) p (map fst cs) \<and> (\<forall>c\<in>set cs. chunk_ok ch c)"

text \<open>All chunks of a bucket but the last are full.\<close>

definition bucket_rep :: "(addr \<Rightarrow> sf_timer_chunk_t) \<Rightarrow> sf_timer_bucket_t \<Rightarrow> cview list \<Rightarrow> bool" where
  "bucket_rep ch b cs \<longleftrightarrow>
     (if cs = [] then b = zero_bucket
      else chunks_ok ch (first_chunk b) cs \<and> current_chunk b = Some (fst (last cs))
         \<and> (\<forall>c\<in>set (butlast cs). length (snd c) = SF_TW_TIMER_SLOT_CNT)
         \<and> slot_left_cnt b = of_nat (SF_TW_TIMER_SLOT_CNT - length (snd (last cs)))
         \<and> slot_used_cnt b = of_nat (length (handles cs)) \<and> length (handles cs) < 2 ^ 32)"

record wheel =
  wbuckets :: "cview list list"
  wexpired :: "cview list"

definition wheel_addrs :: "wheel \<Rightarrow> addr list" where
  "wheel_addrs W = map fst (concat (wbuckets W) @ wexpired W)"

definition wheel_ok :: "(addr \<Rightarrow> sf_timer_chunk_t) \<Rightarrow> 'f sf_tw_timer_t \<Rightarrow> wheel \<Rightarrow> bool" where
  "wheel_ok ch tw W \<longleftrightarrow>
     length (sf_timer_buckets tw) = SF_TW_TIMER_BUCKET_CNT \<and> length (wbuckets W) = SF_TW_TIMER_BUCKET_CNT
   \<and> (\<forall>i<SF_TW_TIMER_BUCKET_CNT. bucket_rep ch (sf_timer_buckets tw ! i) (wbuckets W ! i))
   \<and> chunks_ok ch (expire_chunk_list tw) (wexpired W) \<and> unat (pre_bucket_index tw) < SF_TW_TIMER_BUCKET_CNT"

definition timers_inv :: "('f, 'd) timer_world \<Rightarrow> wheel list \<Rightarrow> bool" where
  "timers_inv w Ws \<longleftrightarrow> length Ws = length (tw_timer_array w)
     \<and> (\<forall>i<length Ws. wheel_ok (tchunks w) (tw_timer_array w ! i) (Ws ! i) \<and> valid_worker (timer_chunk_pool w) i)
     \<and> pool_inv (timer_chunk_pool w) (concat (map wheel_addrs Ws))
     \<and> (\<forall>a. length (sf_timer_slots (tchunks w a)) = SF_TW_TIMER_SLOT_CNT)"

subsection \<open>Frame\<close>

lemma chunk_ok_cong: "ch' (fst c) = ch (fst c) \<Longrightarrow> chunk_ok ch' c = chunk_ok ch c"
  by (simp add: chunk_ok_def)

lemma chunks_ok_cong:
  assumes "\<And>a. a \<in> fst ` set cs \<Longrightarrow> ch' a = ch a"
  shows "chunks_ok ch' p cs = chunks_ok ch p cs"
proof -
  have "chain (\<lambda>a. next_chunk (ch' a)) p (map fst cs) = chain (\<lambda>a. next_chunk (ch a)) p (map fst cs)"
    using assms by (intro chain_cong) auto
  moreover have "chunk_ok ch' c = chunk_ok ch c" if "c \<in> set cs" for c
    using assms that by (intro chunk_ok_cong) auto
  ultimately show ?thesis by (simp add: chunks_ok_def)
qed

lemma bucket_rep_cong:
  "(\<And>a. a \<in> fst ` set cs \<Longrightarrow> ch' a = ch a) \<Longrightarrow> bucket_rep ch' b cs = bucket_rep ch b cs"
  using chunks_ok_cong [of cs ch' ch] by (simp add: bucket_rep_def)

lemma in_wheel_bucket: "i < length (wbuckets W) \<Longrightarrow> c \<in> set (wbuckets W ! i) \<Longrightarrow> fst c \<in> set (wheel_addrs W)"
  using nth_mem [of i "wbuckets W"] unfolding wheel_addrs_def by fastforce

lemma wheel_ok_cong:
  assumes "\<And>a. a \<in> set (wheel_addrs W) \<Longrightarrow> ch' a = ch a"
  shows "wheel_ok ch' tw W = wheel_ok ch tw W"
proof -
  have "bucket_rep ch' b (wbuckets W ! i) = bucket_rep ch b (wbuckets W ! i)" if "i < length (wbuckets W)" for i b
    using assms in_wheel_bucket [OF that] by (intro bucket_rep_cong) auto
  moreover have "chunks_ok ch' p (wexpired W) = chunks_ok ch p (wexpired W)" for p
    using assms by (intro chunks_ok_cong) (auto simp: wheel_addrs_def)
  ultimately show ?thesis by (auto simp: wheel_ok_def)
qed

text \<open>Changing one bucket of a wheel.\<close>

lemma wheel_set_bucket:
  assumes ok: "wheel_ok ch tw W" and i: "i < SF_TW_TIMER_BUCKET_CNT"
    and d: "distinct (wheel_addrs W)" and A: "A \<inter> set (wheel_addrs W) \<subseteq> fst ` set (wbuckets W ! i)"
    and ch': "\<And>a. a \<notin> A \<Longrightarrow> ch' a = ch a" and b: "bucket_rep ch' b cs"
  shows "wheel_ok ch' (tw\<lparr>sf_timer_buckets := (sf_timer_buckets tw)[i := b]\<rparr>) (W\<lparr>wbuckets := (wbuckets W)[i := cs]\<rparr>)"
proof -
  have len: "length (wbuckets W) = SF_TW_TIMER_BUCKET_CNT" "length (sf_timer_buckets tw) = SF_TW_TIMER_BUCKET_CNT"
    using ok by (auto simp: wheel_ok_def)
  have dis: "fst ` set (wbuckets W ! i) \<inter> fst ` set (wbuckets W ! j) = {}" if "j < length (wbuckets W)" "j \<noteq> i" for j
    using distinct_concat_disjoint [of "map fst" "wbuckets W" i j] d that i len
    by (auto simp: wheel_addrs_def map_concat)
  have "bucket_rep ch' (sf_timer_buckets tw ! j) (wbuckets W ! j)" if j: "j < length (wbuckets W)" "j \<noteq> i" for j
  proof -
    have "ch' a = ch a" if "a \<in> fst ` set (wbuckets W ! j)" for a
      using ch' [of a] A dis [OF j] that in_wheel_bucket [OF j(1)] by blast
    then show ?thesis using bucket_rep_cong [of "wbuckets W ! j" ch' ch] ok j(1) len by (simp add: wheel_ok_def)
  qed
  moreover have "chunks_ok ch' (expire_chunk_list tw) (wexpired W)"
  proof -
    have "wbuckets W ! i \<in> set (wbuckets W)" using i len by simp
    then have "fst ` set (wbuckets W ! i) \<subseteq> fst ` set (concat (wbuckets W))" by (intro image_mono) auto
    moreover have "fst ` set (concat (wbuckets W)) \<inter> fst ` set (wexpired W) = {}"
      "fst ` set (wexpired W) \<subseteq> set (wheel_addrs W)"
      using d by (auto simp: wheel_addrs_def)
    moreover have "X \<inter> E = {} \<Longrightarrow> E \<subseteq> Y \<Longrightarrow> B \<subseteq> X \<Longrightarrow> A \<inter> Y \<subseteq> B \<Longrightarrow> x \<in> E \<Longrightarrow> x \<notin> A"
      for X E Y B :: "addr set" and x by blast
    ultimately have "ch' a = ch a" if "a \<in> fst ` set (wexpired W)" for a
      using ch' [of a] A that by presburger
    then show ?thesis using chunks_ok_cong [of "wexpired W" ch' ch] ok by (simp add: wheel_ok_def)
  qed
  ultimately show ?thesis using ok b len i by (auto simp: wheel_ok_def nth_list_update)
qed

subsection \<open>Adding a handle to a bucket\<close>

lemma bucket_left:
  assumes "bucket_rep ch b cs"
  shows "slot_left_cnt b > 0 \<longleftrightarrow> cs \<noteq> [] \<and> length (snd (last cs)) < SF_TW_TIMER_SLOT_CNT"
proof (cases "cs = []")
  case True
  then show ?thesis using assms by (simp add: bucket_rep_def zero_bucket_def)
next
  case False
  let ?n = "SF_TW_TIMER_SLOT_CNT - length (snd (last cs))"
  have "slot_left_cnt b = of_nat ?n" using assms False by (simp add: bucket_rep_def)
  moreover have "?n < 2 ^ 32" by (simp add: slot_cnt)
  ultimately show ?thesis using False of_nat_small(2) [of ?n] by (auto simp: word_greater_zero_iff)
qed

lemma bucket_rep_push:
  assumes rep: "bucket_rep ch b (cs @ [(a, hs)])" and room: "length hs < SF_TW_TIMER_SLOT_CNT"
    and d: "a \<notin> fst ` set cs" and few: "length (handles cs) + length hs + 1 < 2 ^ 32"
    and len: "length (sf_timer_slots (ch a)) = SF_TW_TIMER_SLOT_CNT"
    and c: "c = (ch a)\<lparr>sf_timer_slots := (sf_timer_slots (ch a))[length hs := h], current_slot_cnt := current_slot_cnt (ch a) + 1\<rparr>"
  shows "bucket_rep (ch(a := c)) (b\<lparr>slot_left_cnt := slot_left_cnt b - 1, slot_used_cnt := slot_used_cnt b + 1\<rparr>)
           (cs @ [(a, hs @ [h])])"
proof -
  have ok: "chunk_ok ch (a, hs)" "chunks_ok ch (first_chunk b) (cs @ [(a, hs)])"
    using rep by (auto simp: bucket_rep_def chunks_ok_def)
  have "chunk_ok (ch(a := c)) (a, hs @ [h])"
    using ok(1) room len by (simp add: chunk_ok_def c list_update_take_drop)
  moreover have "chunk_ok (ch(a := c)) x" if "x \<in> set cs" for x
    using ok(2) that d by (auto simp: chunks_ok_def chunk_ok_def)
  moreover have "chain (\<lambda>x. next_chunk ((ch(a := c)) x)) p xs = chain (\<lambda>x. next_chunk (ch x)) p xs" for p xs
    by (rule chain_cong) (simp add: c)
  ultimately have "chunks_ok (ch(a := c)) (first_chunk b) (cs @ [(a, hs @ [h])])"
    using ok(2) by (auto simp: chunks_ok_def)
  moreover have "(of_nat (SF_TW_TIMER_SLOT_CNT - length hs) :: u32) - 1 = of_nat (SF_TW_TIMER_SLOT_CNT - Suc (length hs))"
    using room by (simp add: of_nat_diff)
  ultimately show ?thesis using rep few by (simp add: bucket_rep_def)
qed

lemma bucket_rep_new:
  assumes rep: "bucket_rep ch b cs" and full: "cs \<noteq> [] \<Longrightarrow> length (snd (last cs)) = SF_TW_TIMER_SLOT_CNT"
    and d: "a \<notin> fst ` set cs" "distinct (map fst cs)" and few: "length (handles cs) + 1 < 2 ^ 32"
    and len: "length (sf_timer_slots (ch a)) = SF_TW_TIMER_SLOT_CNT"
    and c: "c = (ch a)\<lparr>next_chunk := None, sf_timer_slots := (sf_timer_slots (ch a))[0 := h], current_slot_cnt := 1\<rparr>"
    and ch': "ch' = (case current_chunk b of None \<Rightarrow> ch(a := c) | Some l \<Rightarrow> (ch(a := c))(l := (ch l)\<lparr>next_chunk := Some a\<rparr>))"
    and b': "b' = (case current_chunk b of None \<Rightarrow> b\<lparr>first_chunk := Some a, current_chunk := Some a\<rparr>
                   | Some l \<Rightarrow> b\<lparr>current_chunk := Some a\<rparr>)"
  shows "bucket_rep ch' (b'\<lparr>slot_left_cnt := slot_left_cnt b + of_nat SF_TW_TIMER_SLOT_CNT - 1, slot_used_cnt := slot_used_cnt b + 1\<rparr>)
           (cs @ [(a, [h])])"
proof -
  have "0 < SF_TW_TIMER_SLOT_CNT" by (simp add: slot_cnt)
  then have c0: "chunk_ok (ch(a := c)) (a, [h])"
    using len by (cases "sf_timer_slots (ch a)") (auto simp: chunk_ok_def c)
  have minus: "(of_nat SF_TW_TIMER_SLOT_CNT :: u32) - 1 = of_nat (SF_TW_TIMER_SLOT_CNT - Suc 0)"
    by (simp add: slot_cnt)
  show ?thesis
  proof (cases "cs = []")
    case True
    then show ?thesis
      using rep c0 minus by (simp add: bucket_rep_def zero_bucket_def ch' b' chunks_ok_def c)
  next
    case False
    then obtain ds l hs where cs: "cs = ds @ [(l, hs)]" by (metis surj_pair rev_exhaust)
    have cur: "current_chunk b = Some l" "length hs = SF_TW_TIMER_SLOT_CNT" "slot_left_cnt b = 0"
      using rep full cs by (simp_all add: bucket_rep_def)
    have la: "l \<noteq> a" "l \<notin> fst ` set ds" using d by (auto simp: cs)
    have ok: "chunks_ok ch (first_chunk b) (ds @ [(l, hs)])" using rep cs by (simp add: bucket_rep_def)
    have chs: "ch' = (ch(a := c))(l := (ch l)\<lparr>next_chunk := Some a\<rparr>)" by (simp add: ch' cur)
    have "chain (\<lambda>x. next_chunk (ch' x)) (first_chunk b) (map fst ds @ [l] @ [a])"
    proof -
      have "chain (\<lambda>x. next_chunk (ch x)) (first_chunk b) (map fst ds @ [l])" using ok by (simp add: chunks_ok_def)
      then have "chain (\<lambda>x. next_chunk ((ch(a := c)) x)) (first_chunk b) (map fst ds @ [l])"
        using d(1) by (subst chain_cong [where g = "\<lambda>x. next_chunk (ch x)"]) (auto simp: cs)
      then have "chain ((\<lambda>x. next_chunk ((ch(a := c)) x))(l := Some a)) (first_chunk b) (map fst ds @ [l] @ [a])"
        by (rule chain_relink) (use la in \<open>auto simp: c\<close>)
      moreover have "(\<lambda>x. next_chunk ((ch(a := c)) x))(l := Some a) = (\<lambda>x. next_chunk (ch' x))"
        by (auto simp: chs fun_eq_iff)
      ultimately show ?thesis by simp
    qed
    moreover have "chunk_ok ch' (a, [h])" using c0 la by (simp add: chunk_ok_def chs)
    moreover have "chunk_ok ch' x" if "x \<in> set (ds @ [(l, hs)])" for x
      using ok that d(1) by (auto simp: chunks_ok_def chunk_ok_def chs cs)
    ultimately have "chunks_ok ch' (first_chunk b) (cs @ [(a, [h])])" by (auto simp: chunks_ok_def cs)
    then show ?thesis
      using rep few minus cur full by (auto simp: bucket_rep_def b' cs butlast_append)
  qed
qed

subsection \<open>Changing one worker's wheel\<close>

lemma timers_addrs_distinct:
  assumes "timers_inv w Ws"
  shows "distinct (concat (map wheel_addrs Ws))"
  using assms sfp.inv_distinct by (auto simp: timers_inv_def)

lemma timers_wheel:
  assumes "timers_inv w Ws" "wi < length Ws"
  shows "wheel_ok (tchunks w) (tw_timer_array w ! wi) (Ws ! wi)" "valid_worker (timer_chunk_pool w) wi"
    "arr_read (tw_timer_array w) wi = Some (tw_timer_array w ! wi)" "distinct (wheel_addrs (Ws ! wi))"
proof -
  show "distinct (wheel_addrs (Ws ! wi))"
    using timers_addrs_distinct [OF assms(1)] assms(2) by (simp add: distinct_concat_iff_nth)
qed (use assms in \<open>auto simp: timers_inv_def arr_simps\<close>)

lemma wheels_disjoint:
  assumes "timers_inv w Ws" "i < length Ws" "j < length Ws" "i \<noteq> j"
  shows "set (wheel_addrs (Ws ! i)) \<inter> set (wheel_addrs (Ws ! j)) = {}"
  using distinct_concat_disjoint [OF timers_addrs_distinct [OF assms(1)] assms(2-4)] .

lemma timers_set_wheel:
  assumes inv: "timers_inv w Ws" and wi: "wi < length Ws"
    and ok: "wheel_ok ch tw W" and ch: "\<And>a. a \<notin> A \<Longrightarrow> ch a = tchunks w a"
    and A: "\<And>j. j < length Ws \<Longrightarrow> j \<noteq> wi \<Longrightarrow> A \<inter> set (wheel_addrs (Ws ! j)) = {}"
    and pool: "pool_inv pool outs" "mset outs + mset (wheel_addrs (Ws ! wi)) = mset (concat (map wheel_addrs Ws)) + mset (wheel_addrs W)"
    and valid: "\<And>j. valid_worker pool j \<longleftrightarrow> valid_worker (timer_chunk_pool w) j"
    and len: "\<And>a. length (sf_timer_slots (ch a)) = SF_TW_TIMER_SLOT_CNT"
    and w': "tw_timer_array w' = (tw_timer_array w)[wi := tw]" "tchunks w' = ch" "timer_chunk_pool w' = pool"
  shows "timers_inv w' (Ws[wi := W])"
proof -
  have "wheel_ok ch (tw_timer_array w ! j) (Ws ! j)" if "j < length Ws" "j \<noteq> wi" for j
    using wheel_ok_cong [of "Ws ! j" ch "tchunks w"] timers_wheel(1) [OF inv that(1)] ch A [OF that] by blast
  moreover have "mset outs = mset (concat (map wheel_addrs (Ws[wi := W])))"
    using pool(2) mset_concat_update [OF wi, of wheel_addrs W] by (metis add_right_cancel)
  then have "pool_inv pool (concat (map wheel_addrs (Ws[wi := W])))" using pool(1) pool_inv_perm by metis
  ultimately show ?thesis
    using inv ok valid len w' wi by (auto simp: timers_inv_def nth_list_update)
qed

section \<open>Submitting a timer\<close>

definition bucket_of :: "u32 \<Rightarrow> u32 \<Rightarrow> nat" where
  "bucket_of pre ticks = unat ((pre + ticks) AND SF_TW_TIMER_BUCKET_MASK)"

lemma mask_mod: "unat (x AND SF_TW_TIMER_BUCKET_MASK) = unat x mod SF_TW_TIMER_BUCKET_CNT"
proof -
  have "SF_TW_TIMER_BUCKET_MASK = mask 14"
    by (simp add: SF_TW_TIMER_BUCKET_MASK_def SF_TIMER_MAX_TICKS_def mask_eq_exp_minus_1)
  then have "x AND SF_TW_TIMER_BUCKET_MASK = take_bit 14 x" by (simp only: take_bit_eq_mask)
  moreover have "unat (take_bit 14 x) = take_bit 14 (unat x)" by (rule unsigned_take_bit_eq)
  ultimately show ?thesis by (simp only: bucket_cnt take_bit_eq_mod)
qed

lemma mask_less: "unat (x AND SF_TW_TIMER_BUCKET_MASK) < SF_TW_TIMER_BUCKET_CNT"
  by (simp add: mask_mod bucket_cnt)

text \<open>A handle goes behind the others; a new chunk \<open>a\<close> is used when the last one is full.\<close>

definition push_handle :: "addr \<Rightarrow> u64 \<Rightarrow> cview list \<Rightarrow> cview list" where
  "push_handle a h cs =
    (if cs \<noteq> [] \<and> length (snd (last cs)) < SF_TW_TIMER_SLOT_CNT
     then butlast cs @ [(fst (last cs), snd (last cs) @ [h])] else cs @ [(a, [h])])"

lemma push_handle_snoc:
  "length hs < SF_TW_TIMER_SLOT_CNT \<Longrightarrow> push_handle x h (ds @ [(a, hs)]) = ds @ [(a, hs @ [h])]"
  by (simp add: push_handle_def)

lemma handles_push [simp]: "handles (push_handle a h cs) = handles cs @ [h]"
proof (cases cs rule: rev_cases)
  case (snoc ds c)
  then show ?thesis by (cases c) (simp add: push_handle_def)
qed (simp add: push_handle_def)

definition wheel_push :: "nat \<Rightarrow> addr \<Rightarrow> u64 \<Rightarrow> wheel \<Rightarrow> wheel" where
  "wheel_push i a h W = W\<lparr>wbuckets := (wbuckets W)[i := push_handle a h (wbuckets W ! i)]\<rparr>"

definition last_slot :: "cview list \<Rightarrow> addr \<times> nat" where
  "last_slot cs = (fst (last cs), length (snd (last cs)) - 1)"

lemma wheel_addrs_set_bucket:
  "i < length (wbuckets W) \<Longrightarrow>
    mset (wheel_addrs (W\<lparr>wbuckets := (wbuckets W)[i := cs]\<rparr>)) + mset (map fst (wbuckets W ! i))
      = mset (wheel_addrs W) + mset (map fst cs)"
  using mset_concat_update [of i "wbuckets W" "map fst" cs]
  by (simp add: wheel_addrs_def map_concat ac_simps)

lemma submit_room:
  assumes inv: "timers_inv w Ws" and wi: "wi < length Ws" and ticks: "ticks \<le> SF_TIMER_MAX_TICKS"
    and i: "i = bucket_of (pre_bucket_index (tw_timer_array w ! wi)) ticks"
    and cs: "wbuckets (Ws ! wi) ! i = ds @ [(a, hs)]" and room: "length hs < SF_TW_TIMER_SLOT_CNT"
    and few: "length (handles (wbuckets (Ws ! wi) ! i)) + 1 < 2 ^ 32"
    and h: "h = timer_handle (of_nat info - timer_info_start (tw_timer_array w ! wi)) g"
  shows "\<exists>rec w'. sf_submit_timer_tw F wi info g ticks w = Some (0, Some rec, w')
    \<and> timers_inv w' (Ws[wi := wheel_push i x h (Ws ! wi)])
    \<and> slot_handler rec = last_slot (push_handle x h (wbuckets (Ws ! wi) ! i))"
proof -
  let ?tw = "tw_timer_array w ! wi" and ?W = "Ws ! wi"
  let ?b = "sf_timer_buckets ?tw ! i" and ?c = "tchunks w a"
  let ?c' = "?c\<lparr>sf_timer_slots := (sf_timer_slots ?c)[length hs := h], current_slot_cnt := current_slot_cnt ?c + 1\<rparr>"
  let ?b' = "?b\<lparr>slot_left_cnt := slot_left_cnt ?b - 1, slot_used_cnt := slot_used_cnt ?b + 1\<rparr>"
  let ?tw' = "?tw\<lparr>sf_timer_buckets := (sf_timer_buckets ?tw)[i := ?b']\<rparr>"
  let ?w' = "put_tw wi ?tw' (w\<lparr>tchunks := (tchunks w)(a := ?c')\<rparr>)"
  note W = timers_wheel [OF inv wi]
  have iL: "i < SF_TW_TIMER_BUCKET_CNT" unfolding i bucket_of_def by (rule mask_less)
  have lenb: "length (sf_timer_buckets ?tw) = SF_TW_TIMER_BUCKET_CNT" "length (wbuckets ?W) = SF_TW_TIMER_BUCKET_CNT"
    using W(1) by (auto simp: wheel_ok_def)
  have rep: "bucket_rep (tchunks w) ?b (ds @ [(a, hs)])" using W(1) iL cs by (auto simp: wheel_ok_def)
  have left: "slot_left_cnt ?b > 0" using bucket_left [OF rep] room by simp
  have cur: "current_chunk ?b = Some a" "current_slot_cnt ?c = of_nat (length hs)"
    using rep by (auto simp: bucket_rep_def chunks_ok_def chunk_ok_def)
  have lens: "length (sf_timer_slots (tchunks w x)) = SF_TW_TIMER_SLOT_CNT" for x using inv by (simp add: timers_inv_def)
  have cnt: "unat (of_nat (length hs) :: u64) = length hs" using room by (simp add: unat_of_nat slot_cnt)
  have aW: "a \<in> set (wheel_addrs ?W)" using in_wheel_bucket [of i ?W "(a, hs)"] lenb iL cs by simp
  have "distinct (map fst (wbuckets ?W ! i))"
    using W(4) iL lenb by (simp add: wheel_addrs_def map_concat distinct_concat_iff_nth)
  then have d: "a \<notin> fst ` set ds" using cs by auto
  have sub: "sf_submit_timer_tw F wi info g ticks w = Some (0, Some (new_timer_record F ?tw a ?c' info ticks), ?w')"
    using W(3) ticks iL lenb left cur cnt room lens
    by (simp add: sf_submit_timer_tw_def i [unfolded bucket_of_def, symmetric] arr_simps h Let_def not_less)
  have "wheel_ok ((tchunks w)(a := ?c')) ?tw' (?W\<lparr>wbuckets := (wbuckets ?W)[i := ds @ [(a, hs @ [h])]]\<rparr>)"
    by (rule wheel_set_bucket [OF W(1) iL W(4), where A = "{a}"])
      (use cs few d lens in \<open>auto intro!: bucket_rep_push [OF rep room]\<close>)
  moreover have push: "push_handle x h (wbuckets ?W ! i) = ds @ [(a, hs @ [h])]"
    using push_handle_snoc [OF room] cs by simp
  ultimately have ok: "wheel_ok ((tchunks w)(a := ?c')) ?tw' (wheel_push i x h ?W)" by (simp add: wheel_push_def)
  have "mset (wheel_addrs (wheel_push i x h ?W)) = mset (wheel_addrs ?W)"
    using wheel_addrs_set_bucket [of i ?W "ds @ [(a, hs @ [h])]"] iL lenb push cs
    by (simp add: wheel_push_def)
  then have "timers_inv ?w' (Ws[wi := wheel_push i x h ?W])"
    using inv aW lens
    by (intro timers_set_wheel [OF inv wi ok, where A = "{a}" and pool = "timer_chunk_pool w"
          and outs = "concat (map wheel_addrs Ws)"])
      (use wheels_disjoint [OF inv wi] in \<open>auto simp: timers_inv_def put_tw_def\<close>)
  moreover have "unat (of_nat (length hs) + 1 - 1 :: u64) = length hs" using cnt by simp
  ultimately show ?thesis using sub push cur cnt by (simp add: new_timer_record_def last_slot_def)
qed

lemma submit_full:
  assumes inv: "timers_inv w Ws" and wi: "wi < length Ws" and ticks: "ticks \<le> SF_TIMER_MAX_TICKS"
    and i: "i = bucket_of (pre_bucket_index (tw_timer_array w ! wi)) ticks"
    and full: "wbuckets (Ws ! wi) ! i \<noteq> [] \<Longrightarrow> length (snd (last (wbuckets (Ws ! wi) ! i))) = SF_TW_TIMER_SLOT_CNT"
    and few: "length (handles (wbuckets (Ws ! wi) ! i)) + 1 < 2 ^ 32"
    and h: "h = timer_handle (of_nat info - timer_info_start (tw_timer_array w ! wi)) g"
    and al: "alloc_node_from_pool wi (timer_chunk_pool w) = Some (pool, Some a)"
  shows "\<exists>rec w'. sf_submit_timer_tw F wi info g ticks w = Some (0, Some rec, w')
    \<and> timers_inv w' (Ws[wi := wheel_push i a h (Ws ! wi)])
    \<and> slot_handler rec = last_slot (push_handle a h (wbuckets (Ws ! wi) ! i))"
proof -
  let ?tw = "tw_timer_array w ! wi" and ?W = "Ws ! wi" and ?ch = "tchunks w"
  let ?b = "sf_timer_buckets ?tw ! i" and ?cs = "wbuckets (Ws ! wi) ! i"
  let ?c = "(?ch a)\<lparr>next_chunk := None, sf_timer_slots := (sf_timer_slots (?ch a))[0 := h], current_slot_cnt := 1\<rparr>"
  define ch' where "ch' = (case current_chunk ?b of None \<Rightarrow> ?ch(a := ?c) | Some l \<Rightarrow> (?ch(a := ?c))(l := (?ch l)\<lparr>next_chunk := Some a\<rparr>))"
  define b1 where "b1 = (case current_chunk ?b of None \<Rightarrow> ?b\<lparr>first_chunk := Some a, current_chunk := Some a\<rparr>
                   | Some l \<Rightarrow> ?b\<lparr>current_chunk := Some a\<rparr>)"
  let ?b' = "b1\<lparr>slot_left_cnt := slot_left_cnt ?b + of_nat SF_TW_TIMER_SLOT_CNT - 1, slot_used_cnt := slot_used_cnt ?b + 1\<rparr>"
  let ?tw' = "?tw\<lparr>sf_timer_buckets := (sf_timer_buckets ?tw)[i := ?b']\<rparr>"
  let ?w' = "put_tw wi ?tw' (w\<lparr>timer_chunk_pool := pool, tchunks := ch'\<rparr>)"
  note W = timers_wheel [OF inv wi]
  have pinv: "pool_inv (timer_chunk_pool w) (concat (map wheel_addrs Ws))" using inv by (simp add: timers_inv_def)
  have fresh: "a \<notin> set (concat (map wheel_addrs Ws))" "pool_inv pool (a # concat (map wheel_addrs Ws))"
    using sfp.alloc_fresh [OF pinv W(2) al] by simp_all
  have aj: "a \<notin> set (wheel_addrs (Ws ! j))" if "j < length Ws" for j
    using fresh(1) nth_mem [OF that] by auto
  have iL: "i < SF_TW_TIMER_BUCKET_CNT" unfolding i bucket_of_def by (rule mask_less)
  have lenb: "length (sf_timer_buckets ?tw) = SF_TW_TIMER_BUCKET_CNT" "length (wbuckets ?W) = SF_TW_TIMER_BUCKET_CNT"
    using W(1) by (auto simp: wheel_ok_def)
  have rep: "bucket_rep ?ch ?b ?cs" using W(1) iL by (auto simp: wheel_ok_def)
  have left: "\<not> slot_left_cnt ?b > 0" using bucket_left [OF rep] full by auto
  have lens: "length (sf_timer_slots (?ch x)) = SF_TW_TIMER_SLOT_CNT" for x using inv by (simp add: timers_inv_def)
  have sub_cs: "fst ` set ?cs \<subseteq> set (wheel_addrs ?W)" using in_wheel_bucket [of i ?W] lenb iL by auto
  have d: "distinct (map fst ?cs)" "a \<notin> fst ` set ?cs"
    using W(4) iL lenb aj [OF wi] sub_cs by (auto simp: wheel_addrs_def map_concat distinct_concat_iff_nth)
  have cur: "current_chunk ?b = Some l \<Longrightarrow> l \<in> fst ` set ?cs" for l
    using rep by (auto simp: bucket_rep_def zero_bucket_def split: if_splits)
  have la: "l \<noteq> a" if "current_chunk ?b = Some l" for l using cur [OF that] d(2) by auto
  have pos: "0 < SF_TW_TIMER_SLOT_CNT" by (simp add: slot_cnt)
  have sub: "sf_submit_timer_tw F wi info g ticks w = Some (0, Some (new_timer_record F ?tw a ?c info ticks), ?w')"
    using W(3) ticks iL lenb left lens al pos la
    by (cases "current_chunk ?b")
      (simp_all add: sf_submit_timer_tw_def i [unfolded bucket_of_def, symmetric] arr_simps h not_less Let_def ch'_def b1_def)
  have push: "push_handle a h ?cs = ?cs @ [(a, [h])]" using full by (auto simp: push_handle_def)
  have "bucket_rep ch' ?b' (?cs @ [(a, [h])])"
    by (rule bucket_rep_new [OF rep full d(2,1) few lens refl ch'_def b1_def])
  then have ok: "wheel_ok ch' ?tw' (wheel_push i a h ?W)" unfolding wheel_push_def push
    by (intro wheel_set_bucket [OF W(1) iL W(4), where A = "insert a (fst ` set ?cs)"])
      (use cur aj [OF wi] in \<open>auto simp: ch'_def split: option.splits\<close>)
  have "mset (wheel_addrs (wheel_push i a h ?W)) = add_mset a (mset (wheel_addrs ?W))"
    using wheel_addrs_set_bucket [of i ?W "?cs @ [(a, [h])]"] iL lenb
    by (simp add: wheel_push_def push)
  moreover have "insert a (fst ` set ?cs) \<inter> set (wheel_addrs (Ws ! j)) = {}" if "j < length Ws" "j \<noteq> wi" for j
    using aj [OF that(1)] wheels_disjoint [OF inv wi that(1)] that(2) sub_cs by blast
  ultimately have "timers_inv ?w' (Ws[wi := wheel_push i a h ?W])"
    using fresh(2) lens cur pos
    by (intro timers_set_wheel [OF inv wi ok, where A = "insert a (fst ` set ?cs)" and pool = pool
          and outs = "a # concat (map wheel_addrs Ws)"])
      (auto simp: put_tw_def ch'_def sfp.alloc_valid [OF pinv W(2) al] split: option.splits)
  then show ?thesis using sub push by (simp add: new_timer_record_def last_slot_def)
qed

section \<open>Expiring\<close>

text \<open>The passing of \<open>k\<close> ticks: the buckets behind \<open>p\<close> are emptied in order.\<close>

fun wheel_expire :: "nat \<Rightarrow> nat \<Rightarrow> cview list list \<Rightarrow> cview list \<Rightarrow> cview list list \<times> cview list" where
  "wheel_expire 0 p B E = (B, E)"
| "wheel_expire (Suc k) p B E =
    (let i = (p + 1) mod SF_TW_TIMER_BUCKET_CNT in wheel_expire k i (B[i := []]) (E @ B ! i))"

definition expire_inv ::
  "'f sf_tw_timer_t \<Rightarrow> (addr \<Rightarrow> sf_timer_chunk_t) \<Rightarrow> ptr \<Rightarrow> ptr \<Rightarrow> cview list list \<Rightarrow> cview list \<Rightarrow> bool" where
  "expire_inv tw ch first last_e B E \<longleftrightarrow>
     length (sf_timer_buckets tw) = SF_TW_TIMER_BUCKET_CNT \<and> length B = SF_TW_TIMER_BUCKET_CNT
   \<and> (\<forall>i<SF_TW_TIMER_BUCKET_CNT. bucket_rep ch (sf_timer_buckets tw ! i) (B ! i))
   \<and> chunks_ok ch first E \<and> (E \<noteq> [] \<longrightarrow> last_e = Some (fst (last E)))
   \<and> distinct (map fst (concat B @ E)) \<and> unat (pre_bucket_index tw) < SF_TW_TIMER_BUCKET_CNT"

lemma bucket_used: "bucket_rep ch b cs \<Longrightarrow> slot_used_cnt b = 0 \<longleftrightarrow> cs = []"
proof (cases "cs = []")
  case False
  assume rep: "bucket_rep ch b cs"
  then have "snd (hd cs) \<noteq> []" using False hd_in_set [OF False] by (auto simp: bucket_rep_def chunks_ok_def chunk_ok_def)
  then have "length (handles cs) \<noteq> 0" using False by (cases cs) auto
  then show ?thesis using rep False of_nat_small(2) [of "length (handles cs)"] by (simp add: bucket_rep_def)
qed (simp add: bucket_rep_def zero_bucket_def)

lemma bucket_addrs: "i < length B \<Longrightarrow> c \<in> set (B ! i) \<Longrightarrow> c \<in> set (concat B)"
  using nth_mem [of i B] by auto

lemma mset_take_bucket:
  "i < length B \<Longrightarrow> mset (concat (B[i := []]) @ E @ B ! i) = mset (concat B @ E)"
  using mset_concat_update [of i B id "[]"] by simp

lemma expire_step:
  assumes inv: "expire_inv tw ch first last_e B E" and i: "i < SF_TW_TIMER_BUCKET_CNT"
    and ne: "B ! i \<noteq> []" and b: "b = sf_timer_buckets tw ! i"
    and r: "(ch', first') = (if first = None then (ch, first_chunk b)
              else (let l = the last_e in (ch(l := (ch l)\<lparr>next_chunk := first_chunk b\<rparr>), first)))"
  shows "expire_inv (tw\<lparr>sf_timer_buckets := (sf_timer_buckets tw)[i := zero_bucket]\<rparr>) ch' first' (current_chunk b)
           (B[i := []]) (E @ B ! i)"
    and "first \<noteq> None \<Longrightarrow> last_e = Some (the last_e)"
    and "\<And>a. a \<notin> fst ` set (concat B @ E) \<Longrightarrow> ch' a = ch a"
    and "\<And>a. sf_timer_slots (ch' a) = sf_timer_slots (ch a)"
proof -
  let ?cs = "B ! i"
  have rep: "bucket_rep ch b ?cs" using inv i by (simp add: expire_inv_def b)
  have cs: "chunks_ok ch (first_chunk b) ?cs" "current_chunk b = Some (fst (last ?cs))"
    using rep ne by (auto simp: bucket_rep_def)
  have E: "chunks_ok ch first E" using inv by (simp add: expire_inv_def)
  have fE: "first = None \<longleftrightarrow> E = []" using E by (cases E) (auto simp: chunks_ok_def)
  have lE: "last_e = Some (fst (last E))" if "E \<noteq> []" using inv that by (simp add: expire_inv_def)
  show "first \<noteq> None \<Longrightarrow> last_e = Some (the last_e)" using fE lE by auto
  have lenB: "i < length B" using inv i by (simp add: expire_inv_def)
  have d: "distinct (map fst (concat B @ E))" using inv by (simp add: expire_inv_def)
  have d2: "fst ` set (concat B) \<inter> fst ` set E = {}" using d by auto
  have lastE: "fst (last E) \<in> fst ` set E" if "E \<noteq> []" using that by auto
  show "ch' a = ch a" if "a \<notin> fst ` set (concat B @ E)" for a
  proof (cases "E = []")
    case False
    then have "a \<noteq> fst (last E)" using that lastE by auto
    then show ?thesis using r fE lE False by (simp add: Let_def)
  qed (use r fE in simp)
  show "sf_timer_slots (ch' a) = sf_timer_slots (ch a)" for a
    using r by (auto split: if_splits simp: Let_def)
  have "chunks_ok ch' first' (E @ ?cs) \<and> (\<forall>c. fst c \<notin> fst ` set E \<longrightarrow> ch' (fst c) = ch (fst c))"
  proof (cases "E = []")
    case True
    then show ?thesis using r cs fE by simp
  next
    case False
    then obtain E' z hs where E': "E = E' @ [(z, hs)]" by (metis surj_pair rev_exhaust)
    have ch': "ch' = ch(z := (ch z)\<lparr>next_chunk := first_chunk b\<rparr>)" "first' = first"
      using r False fE lE by (simp_all add: E')
    have z: "z \<notin> fst ` set E'" using d by (simp add: E')
    have "z \<notin> fst ` set (concat B)" using d2 by (auto simp: E')
    then have zcs: "z \<notin> set (map fst ?cs)" using bucket_addrs [OF lenB] by (auto simp del: set_concat)
    have "chain (\<lambda>x. next_chunk (ch x)) first (map fst E' @ [z])" using E by (simp add: chunks_ok_def E')
    then have "chain ((\<lambda>x. next_chunk (ch x))(z := first_chunk b)) first (map fst E' @ [z] @ map fst ?cs)"
      by (rule chain_relink) (use z zcs cs in \<open>auto simp: chunks_ok_def\<close>)
    moreover have "(\<lambda>x. next_chunk (ch x))(z := first_chunk b) = (\<lambda>x. next_chunk (ch' x))" by (auto simp: ch')
    moreover have "chunk_ok ch' c" if "c \<in> set (E @ ?cs)" for c
      using that E cs(1) by (auto simp: chunks_ok_def chunk_ok_def ch')
    ultimately show ?thesis by (auto simp: chunks_ok_def E' ch')
  qed
  then have ok: "chunks_ok ch' first' (E @ ?cs)" and fr: "\<And>c. fst c \<notin> fst ` set E \<Longrightarrow> ch' (fst c) = ch (fst c)"
    by auto
  have "bucket_rep ch' (sf_timer_buckets tw ! j) (B ! j)" if j: "j < length B" for j
  proof -
    have "ch' a = ch a" if a: "a \<in> fst ` set (B ! j)" for a
    proof -
      obtain c where c: "c \<in> set (B ! j)" "a = fst c" using a by auto
      have "c \<in> set (concat B)" by (rule bucket_addrs [OF j c(1)])
      then have "fst c \<notin> fst ` set E" using d2 by blast
      then show ?thesis using fr c(2) by simp
    qed
    then have "bucket_rep ch' (sf_timer_buckets tw ! j) (B ! j) = bucket_rep ch (sf_timer_buckets tw ! j) (B ! j)"
      by (rule bucket_rep_cong)
    then show ?thesis using inv j by (simp add: expire_inv_def)
  qed
  moreover have "mset (map fst (concat (B[i := []]) @ E @ ?cs)) = mset (map fst (concat B @ E))"
    using mset_take_bucket [OF lenB, of E] by (metis mset_map)
  then have "distinct (map fst (concat (B[i := []]) @ E @ ?cs))" using d mset_eq_imp_distinct_iff by blast
  ultimately show "expire_inv (tw\<lparr>sf_timer_buckets := (sf_timer_buckets tw)[i := zero_bucket]\<rparr>) ch' first' (current_chunk b)
      (B[i := []]) (E @ ?cs)"
    using inv ok cs(2) ne i unfolding expire_inv_def
    by (auto simp: nth_list_update bucket_rep_def)
qed

text \<open>The fields of a wheel that the loop leaves alone.\<close>

definition same_clock :: "'f sf_tw_timer_t \<Rightarrow> 'f sf_tw_timer_t \<Rightarrow> bool" where
  "same_clock tw tw' \<longleftrightarrow> timer_info_start tw' = timer_info_start tw \<and> expire_chunk_list tw' = expire_chunk_list tw
     \<and> ticks_per_second tw' = ticks_per_second tw \<and> timer_interval tw' = timer_interval tw
     \<and> last_run_time tw' = last_run_time tw \<and> next_run_time tw' = next_run_time tw"

lemma next_bucket:
  assumes "unat p < SF_TW_TIMER_BUCKET_CNT"
  shows "unat ((p + 1) AND SF_TW_TIMER_BUCKET_MASK) = (unat p + 1) mod SF_TW_TIMER_BUCKET_CNT"
proof -
  have "unat p + 1 < 2 ^ 32" using assms by (simp add: bucket_cnt)
  then have "unat (p + 1) = unat p + 1" by (simp add: unat_word_ariths)
  then show ?thesis by (simp add: mask_mod)
qed

lemma expire_loop_correct:
  "expire_inv tw ch first last_e B E \<Longrightarrow>
    \<exists>tw' ch' cnt' first' last'. expire_loop k tw ch cnt first last_e = Some (tw', ch', cnt', first')
      \<and> expire_inv tw' ch' first' last' (fst (wheel_expire k (unat (pre_bucket_index tw)) B E))
           (snd (wheel_expire k (unat (pre_bucket_index tw)) B E))
      \<and> same_clock tw tw' \<and> unat (pre_bucket_index tw') = (unat (pre_bucket_index tw) + k) mod SF_TW_TIMER_BUCKET_CNT
      \<and> (\<forall>a. a \<notin> fst ` set (concat B @ E) \<longrightarrow> ch' a = ch a)
      \<and> (\<forall>a. sf_timer_slots (ch' a) = sf_timer_slots (ch a))"
proof (induction k arbitrary: tw ch cnt first last_e B E)
  case 0
  then show ?case by (auto simp: same_clock_def expire_inv_def)
next
  case (Suc k)
  let ?p = "pre_bucket_index tw" and ?n = SF_TW_TIMER_BUCKET_CNT
  let ?tw = "tw\<lparr>pre_bucket_index := (?p + 1) AND SF_TW_TIMER_BUCKET_MASK\<rparr>"
  define i where "i = (unat ?p + 1) mod ?n"
  have p: "unat ?p < ?n" using Suc.prems by (simp add: expire_inv_def)
  have iu: "unat ((?p + 1) AND SF_TW_TIMER_BUCKET_MASK) = i" using next_bucket [OF p] by (simp add: i_def)
  have i: "i < ?n" using mask_less iu by metis
  let ?b = "sf_timer_buckets ?tw ! i"
  have inv: "expire_inv ?tw ch first last_e B E" using Suc.prems i iu by (simp add: expire_inv_def)
  have rep: "bucket_rep ch ?b (B ! i)" using inv i by (simp add: expire_inv_def)
  have rd: "arr_read (sf_timer_buckets ?tw) i = Some ?b" "i < length B"
    using inv i by (simp_all add: expire_inv_def arr_simps)
  have modk: "(i + k) mod ?n = (unat ?p + Suc k) mod ?n" by (simp add: i_def mod_simps)
  show ?case
  proof (cases "B ! i = []")
    case True
    have "slot_used_cnt ?b = 0" using bucket_used [OF rep] True by simp
    then have step: "expire_loop (Suc k) tw ch cnt first last_e = expire_loop k ?tw ch cnt first last_e"
      using rd iu by simp
    have same: "wheel_expire (Suc k) (unat ?p) B E = wheel_expire k i B E"
    proof -
      have "B[i := []] = B" using list_update_id [of B i] True by simp
      then show ?thesis by (simp only: wheel_expire.simps Let_def i_def [symmetric] True append_Nil2)
    qed
    show ?thesis unfolding step same
      using Suc.IH [OF inv, of cnt] by (simp add: iu modk same_clock_def)
  next
    case False
    obtain ch1 first1 where r: "(ch1, first1) = (if first = None then (ch, first_chunk ?b)
        else (let l = the last_e in (ch(l := (ch l)\<lparr>next_chunk := first_chunk ?b\<rparr>), first)))"
      by (metis surj_pair)
    note st = expire_step [OF inv i False refl r]
    let ?tw1 = "?tw\<lparr>sf_timer_buckets := (sf_timer_buckets ?tw)[i := zero_bucket]\<rparr>"
    have "slot_used_cnt ?b \<noteq> 0" using bucket_used [OF rep] False by simp
    then have step: "expire_loop (Suc k) tw ch cnt first last_e
      = expire_loop k ?tw1 ch1 (cnt + slot_used_cnt ?b) first1 (current_chunk ?b)"
      using rd iu r st(2) by (cases "first = None"; cases last_e) (auto simp: Let_def)
    have same: "wheel_expire (Suc k) (unat ?p) B E = wheel_expire k i (B[i := []]) (E @ B ! i)"
      by (simp add: i_def Let_def)
    have "mset (concat (B[i := []]) @ E @ B ! i) = mset (concat B @ E)" by (rule mset_take_bucket [OF rd(2)])
    then have sets: "set (concat (B[i := []]) @ E @ B ! i) = set (concat B @ E)" by (metis set_mset_mset)
    show ?thesis unfolding step same
      using Suc.IH [OF st(1), of "cnt + slot_used_cnt ?b"] st(3,4) unfolding sets
      by (simp add: iu modk same_clock_def)
  qed
qed

lemma wheel_expire_snoc:
  "wheel_expire (Suc k) p B E =
    (let (B', E') = wheel_expire k p B E; i = (p + Suc k) mod SF_TW_TIMER_BUCKET_CNT in (B'[i := []], E' @ B' ! i))"
proof (induction k arbitrary: p B E)
  case (Suc k)
  let ?i = "(p + 1) mod SF_TW_TIMER_BUCKET_CNT"
  have "(?i + Suc k) mod SF_TW_TIMER_BUCKET_CNT = (p + Suc (Suc k)) mod SF_TW_TIMER_BUCKET_CNT"
    using mod_add_left_eq [of "p + 1" SF_TW_TIMER_BUCKET_CNT "Suc k"] by simp
  then show ?case using Suc.IH [of ?i "B[?i := []]" "E @ B ! ?i"]
    by (subst wheel_expire.simps(2)) (simp only: Let_def wheel_expire.simps(2) [of k p])
qed simp

text \<open>Buckets passed in the first \<open>k\<close> ticks.\<close>

definition passed :: "nat \<Rightarrow> nat \<Rightarrow> nat \<Rightarrow> bool" where
  "passed p k i \<longleftrightarrow> (\<exists>j. 1 \<le> j \<and> j \<le> k \<and> i = (p + j) mod SF_TW_TIMER_BUCKET_CNT)"

lemma passed_Suc: "passed p (Suc k) i \<longleftrightarrow> passed p k i \<or> i = (p + Suc k) mod SF_TW_TIMER_BUCKET_CNT"
  by (auto simp: passed_def le_Suc_eq)

lemma not_passed:
  assumes "j \<le> SF_TW_TIMER_BUCKET_CNT" "k < j"
  shows "\<not> passed p k ((p + j) mod SF_TW_TIMER_BUCKET_CNT)"
proof
  assume "passed p k ((p + j) mod SF_TW_TIMER_BUCKET_CNT)"
  then obtain m where m: "1 \<le> m" "m \<le> k" "(p + j) mod SF_TW_TIMER_BUCKET_CNT = (p + m) mod SF_TW_TIMER_BUCKET_CNT"
    by (auto simp: passed_def)
  then have "SF_TW_TIMER_BUCKET_CNT dvd (p + j) - (p + m)" by (intro mod_eq_dvd_iff_nat [THEN iffD1]) (use assms in auto)
  then have "SF_TW_TIMER_BUCKET_CNT \<le> j - m" using m assms by (auto intro!: dvd_imp_le)
  then show False using m assms by linarith
qed

lemma passed_all: "p < SF_TW_TIMER_BUCKET_CNT \<Longrightarrow> i < SF_TW_TIMER_BUCKET_CNT \<Longrightarrow> SF_TW_TIMER_BUCKET_CNT \<le> k \<Longrightarrow> passed p k i"
proof -
  assume pi: "p < SF_TW_TIMER_BUCKET_CNT" "i < SF_TW_TIMER_BUCKET_CNT" and k: "SF_TW_TIMER_BUCKET_CNT \<le> k"
  show "passed p k i"
  proof (cases "p < i")
    case True
    then show ?thesis unfolding passed_def using pi k by (intro exI [of _ "i - p"]) auto
  next
    case False
    then have "(p + (i + SF_TW_TIMER_BUCKET_CNT - p)) mod SF_TW_TIMER_BUCKET_CNT = i" using pi by simp
    then show ?thesis unfolding passed_def using pi k False by (intro exI [of _ "i + SF_TW_TIMER_BUCKET_CNT - p"]) auto
  qed
qed

lemma wheel_expire_eq:
  assumes "length B = SF_TW_TIMER_BUCKET_CNT" "p < SF_TW_TIMER_BUCKET_CNT"
  shows "length (fst (wheel_expire k p B E)) = SF_TW_TIMER_BUCKET_CNT
    \<and> (\<forall>i<SF_TW_TIMER_BUCKET_CNT. fst (wheel_expire k p B E) ! i = (if passed p k i then [] else B ! i))
    \<and> snd (wheel_expire k p B E) =
        E @ concat (map (\<lambda>j. B ! ((p + j) mod SF_TW_TIMER_BUCKET_CNT)) [1..<Suc (min k SF_TW_TIMER_BUCKET_CNT)])"
proof (induction k)
  case 0
  then show ?case using assms by (simp add: passed_def)
next
  case (Suc k)
  let ?n = SF_TW_TIMER_BUCKET_CNT and ?i = "(p + Suc k) mod SF_TW_TIMER_BUCKET_CNT"
  obtain B' E' where we: "wheel_expire k p B E = (B', E')" by (metis surj_pair)
  have step: "wheel_expire (Suc k) p B E = (B'[?i := []], E' @ B' ! ?i)"
    by (subst wheel_expire_snoc) (simp add: we Let_def)
  have i: "?i < ?n" by (simp add: bucket_cnt)
  have hd: "B' ! ?i = (if passed p k ?i then [] else B ! ?i)" using Suc.IH i by (simp add: we)
  show ?case
  proof (cases "k < ?n")
    case True
    then have "\<not> passed p k ?i" by (intro not_passed) auto
    then show ?thesis using Suc.IH True hd unfolding step by (auto simp: we passed_Suc nth_list_update min_def)
  next
    case False
    then have "passed p k ?i" by (intro passed_all assms i) auto
    then show ?thesis using Suc.IH False hd unfolding step by (auto simp: we passed_Suc nth_list_update min_def)
  qed
qed

lemma wheel_expire_mset:
  "length B = SF_TW_TIMER_BUCKET_CNT \<Longrightarrow>
    mset (concat (fst (wheel_expire k q B E)) @ snd (wheel_expire k q B E)) = mset (concat B @ E)"
proof (induction k arbitrary: q B E)
  case (Suc k)
  let ?i = "(q + 1) mod SF_TW_TIMER_BUCKET_CNT"
  have "?i < length B" using Suc.prems by (simp add: bucket_cnt)
  then show ?case using Suc.IH [of "B[?i := []]" ?i "E @ B ! ?i"] Suc.prems mset_take_bucket [of ?i B E]
    by (simp add: Let_def)
qed simp

lemma timers_expire:
  assumes inv: "timers_inv w Ws" and wi: "wi < length Ws" and tw: "tw = tw_timer_array w ! wi"
    and due: "\<not> f_lt F now (next_run_time tw)" and idle: "expire_chunk_list tw = None"
    and n: "n = unat (f_to_u32 F (f_mul F (ticks_per_second tw) (f_sub F now (last_run_time tw))))"
    and p: "p = unat (pre_bucket_index tw)"
  shows "\<exists>cnt w'. sf_tw_timer_expire_internal F wi now w = Some (cnt, w')
    \<and> timers_inv w' (Ws[wi := \<lparr>wbuckets = fst (wheel_expire n p (wbuckets (Ws ! wi)) []),
                               wexpired = snd (wheel_expire n p (wbuckets (Ws ! wi)) [])\<rparr>])
    \<and> unat (pre_bucket_index (tw_timer_array w' ! wi)) = (p + n) mod SF_TW_TIMER_BUCKET_CNT
    \<and> timer_info_start (tw_timer_array w' ! wi) = timer_info_start tw
    \<and> next_run_time (tw_timer_array w' ! wi) = f_add F now (timer_interval tw)
    \<and> last_run_time (tw_timer_array w' ! wi) = f_add F (last_run_time tw) (f_mul F (f_of_u32 F (f_to_u32 F
          (f_mul F (ticks_per_second tw) (f_sub F now (last_run_time tw))))) (timer_interval tw))
    \<and> next_index_vec w' = next_index_vec w \<and> expired_timer_cnt w' = expired_timer_cnt w"
proof -
  let ?W = "Ws ! wi" and ?ch = "tchunks w"
  let ?r = "wheel_expire n p (wbuckets ?W) []"
  let ?tw = "tw\<lparr>next_run_time := f_add F now (timer_interval tw)\<rparr>"
  note W = timers_wheel [OF inv wi]
  have "chunks_ok ?ch None (wexpired ?W)" using W(1) idle by (simp add: wheel_ok_def tw)
  then have noexp: "wexpired ?W = []" by (simp add: chunks_ok_def)
  have "expire_inv ?tw ?ch None None (wbuckets ?W) []"
    using W(1,4) noexp by (simp add: expire_inv_def wheel_ok_def tw chunks_ok_def wheel_addrs_def)
  from expire_loop_correct [OF this, of n 0] obtain tw' ch' cnt' first' last' where
    loop: "expire_loop n ?tw ?ch 0 None None = Some (tw', ch', cnt', first')"
    and e: "expire_inv tw' ch' first' last' (fst ?r) (snd ?r)" "same_clock ?tw tw'"
      "unat (pre_bucket_index tw') = (p + n) mod SF_TW_TIMER_BUCKET_CNT"
    and fr: "\<And>a. a \<notin> fst ` set (concat (wbuckets ?W)) \<Longrightarrow> ch' a = ?ch a" "\<And>a. sf_timer_slots (ch' a) = sf_timer_slots (?ch a)"
    by (auto simp: p)
  let ?tw2 = "tw'\<lparr>expire_chunk_list := first',
      last_run_time := f_add F (last_run_time tw') (f_mul F (f_of_u32 F (f_to_u32 F (f_mul F (ticks_per_second tw)
        (f_sub F now (last_run_time tw))))) (timer_interval tw'))\<rparr>"
  let ?w' = "put_tw wi ?tw2 (w\<lparr>tchunks := ch'\<rparr>)" and ?W' = "\<lparr>wbuckets = fst ?r, wexpired = snd ?r\<rparr>"
  have res: "sf_tw_timer_expire_internal F wi now w = Some (cnt', ?w')"
    using W(3) due idle loop unfolding sf_tw_timer_expire_internal_def tw [symmetric] n
    by (simp add: Let_def)
  have ok: "wheel_ok ch' ?tw2 ?W'" using e(1) by (simp add: wheel_ok_def expire_inv_def)
  have "length (wbuckets ?W) = SF_TW_TIMER_BUCKET_CNT" using W(1) by (simp add: wheel_ok_def)
  from wheel_expire_mset [OF this, of n p "[]"] have "mset (map fst (concat (fst ?r) @ snd ?r)) = mset (map fst (concat (wbuckets ?W)))"
    by (metis mset_map append_Nil2)
  then have ms: "mset (wheel_addrs ?W') = mset (wheel_addrs ?W)" using noexp by (simp add: wheel_addrs_def)
  have "fst ` set (concat (wbuckets ?W)) \<subseteq> set (wheel_addrs ?W)" by (auto simp: wheel_addrs_def)
  then have "timers_inv ?w' (Ws[wi := ?W'])"
    using wheels_disjoint [OF inv wi] inv ms fr
    by (intro timers_set_wheel [OF inv wi ok, where A = "fst ` set (concat (wbuckets ?W))" and pool = "timer_chunk_pool w"
          and outs = "concat (map wheel_addrs Ws)"]) (auto simp: timers_inv_def put_tw_def)
  moreover have "wi < length (tw_timer_array w)" using inv wi by (simp add: timers_inv_def)
  ultimately show ?thesis using res e(2,3) by (simp add: put_tw_def same_clock_def)
qed

section \<open>Delivering expired timers\<close>

text \<open>The position and the times of a wheel.\<close>

definition wheel_clock :: "'f sf_tw_timer_t \<Rightarrow> u32 \<times> 'f \<times> 'f" where
  "wheel_clock tw = (pre_bucket_index tw, last_run_time tw, next_run_time tw)"

definition deliver :: "u32 list \<Rightarrow> u64 \<Rightarrow> u64 \<Rightarrow> u64 \<times> u32" where
  "deliver vec start h = (handle_index h + start,
     if handle_group h = 0 then SF_NEXT_NODE_TIMER_ERROR_DROP else vec ! unat (handle_group h))"

definition group_ok :: "u32 list \<Rightarrow> u64 \<Rightarrow> bool" where
  "group_ok vec h \<longleftrightarrow> handle_group h = 0 \<or> unat (handle_group h) < length vec"

definition active :: "u64 list \<Rightarrow> u64 list" where
  "active hs = filter (\<lambda>h. handle_group h \<noteq> 0) hs"

interpretation tin: dual_loop "timer_input_x2 vec start slots" "timer_input_x1 vec start slots" "\<lambda>_ _. True"
  for vec start slots
proof
  fix x y :: nat and xs :: "nat list" and s :: "timer_out option"
  show "timer_input_x2 vec start slots x y s = timer_input_x1 vec start slots y (timer_input_x1 vec start slots x s)"
    by (auto simp: timer_input_x2_def timer_input_x1_def Let_def add.assoc split: Option.bind_splits)
qed simp

lemma timer_next_ok:
  "group_ok vec h \<Longrightarrow> timer_next vec h = Some (snd (deliver vec start h), if handle_group h = 0 then 0 else 1)"
  by (auto simp: group_ok_def timer_next_def deliver_def arr_simps)

lemma fold_input_x1:
  "(\<And>i. i \<in> set is \<Longrightarrow> i < length slots \<and> group_ok vec (slots ! i)) \<Longrightarrow>
    fold (timer_input_x1 vec start slots) is (Some s) =
      Some \<lparr>enqueued = enqueued s @ map (\<lambda>i. deliver vec start (slots ! i)) is,
            not_zero_cnt = not_zero_cnt s + of_nat (length (active (map (\<lambda>i. slots ! i) is)))\<rparr>"
proof (induction "is" arbitrary: s)
  case (Cons i js)
  have "timer_input_x1 vec start slots i (Some s) = Some (s\<lparr>enqueued := enqueued s @ [deliver vec start (slots ! i)],
      not_zero_cnt := not_zero_cnt s + (if handle_group (slots ! i) = 0 then 0 else 1)\<rparr>)"
    using Cons.prems [of i] timer_next_ok [of vec "slots ! i" start]
    by (simp add: timer_input_x1_def arr_simps) (simp add: deliver_def)
  then show ?case using Cons by (simp add: active_def algebra_simps)
qed (simp add: active_def)

lemma chunk_slots:
  assumes "chunk_ok ch (a, hs)" "length (sf_timer_slots (ch a)) = SF_TW_TIMER_SLOT_CNT"
  shows "map (\<lambda>i. sf_timer_slots (ch a) ! i) [0..<length hs] = hs" "length hs \<le> length (sf_timer_slots (ch a))"
    "unat (ucast (current_slot_cnt (ch a)) :: u32) = length hs"
proof -
  show len: "length hs \<le> length (sf_timer_slots (ch a))" using assms by (simp add: chunk_ok_def)
  have "map (\<lambda>i. sf_timer_slots (ch a) ! i) [0..<length hs] = take (length hs) (sf_timer_slots (ch a))"
    by (intro nth_equalityI) (use len in auto)
  then show "map (\<lambda>i. sf_timer_slots (ch a) ! i) [0..<length hs] = hs" using assms by (simp add: chunk_ok_def)
  have "length hs < 2 ^ 32" "length hs < 2 ^ 64" using len assms(2) by (auto simp: slot_cnt)
  then show "unat (ucast (current_slot_cnt (ch a)) :: u32) = length hs"
    using assms(1) by (simp add: chunk_ok_def unsigned_of_nat unsigned_ucast_eq take_bit_nat_eq_self)
qed

lemma input_internal:
  assumes "chunk_ok ch (a, hs)" "length (sf_timer_slots (ch a)) = SF_TW_TIMER_SLOT_CNT"
    and "frames_ok (fst rooms)" "\<forall>h\<in>set hs. group_ok vec h"
  shows "sf_timer_input_internal rooms vec start (ch a) outs
    = Some (outs @ map (deliver vec start) hs, of_nat (length (active hs)))"
proof -
  let ?sl = "sf_timer_slots (ch a)" and ?is = "[0..<length hs]"
  note cs = chunk_slots [OF assms(1,2)]
  have "i < length ?sl \<and> group_ok vec (?sl ! i)" if "i \<in> set ?is" for i
  proof -
    have "?sl ! i \<in> set (map (\<lambda>i. ?sl ! i) ?is)" using that by (simp only: list.set_map) (rule imageI)
    then show ?thesis using that cs(1,2) assms(4) by simp
  qed
  note f = fold_input_x1 [of ?is ?sl vec start "\<lparr>enqueued = outs, not_zero_cnt = 0\<rparr>", OF this]
  have "map (\<lambda>i. deliver vec start (?sl ! i)) ?is = map (deliver vec start) (map (\<lambda>i. ?sl ! i) ?is)" by simp
  moreover have "vlib_loop \<lparr>dual_min = 2, body_x2 = timer_input_x2 vec start ?sl, body_x1 = timer_input_x1 vec start ?sl,
      fresh_room = fst rooms, left_room = snd rooms\<rparr> Outer 0 ?is s = Some (fold (timer_input_x1 vec start ?sl) ?is s)" for s
    by (rule tin.loop_eq) (use assms(3) in simp_all)
  ultimately show ?thesis using f cs(1) by (simp add: sf_timer_input_internal_def cs(3))
qed

text \<open>
  The loop delivers a prefix \<open>E1\<close> of the expire list, as many chunks as it takes to deliver 510 active
  timers, in order, and gives their chunks back to the pool.
\<close>

lemma timer_input_loop_correct:
  assumes "\<And>k. frames_ok (fst (rooms k))"
  shows "timers_inv w Ws \<Longrightarrow> wi < length Ws \<Longrightarrow> wexpired (Ws ! wi) = E
    \<Longrightarrow> \<forall>h\<in>set (handles E). group_ok (next_index_vec w) h \<Longrightarrow> m < SF_TW_TIMER_SLOT_CNT
    \<Longrightarrow> \<exists>E1 E2 w'. E = E1 @ E2
      \<and> timer_input_loop rooms wi k (of_nat m) outs w = Some (of_nat (m + length (active (handles E1))),
           outs @ map (deliver (next_index_vec w) (timer_info_start (tw_timer_array w ! wi))) (handles E1), w')
      \<and> timers_inv w' (Ws[wi := (Ws ! wi)\<lparr>wexpired := E2\<rparr>])
      \<and> (E2 = [] \<or> m + length (active (handles E1)) \<ge> SF_TW_TIMER_SLOT_CNT)
      \<and> (E1 = [] \<or> m + length (active (handles (butlast E1))) < SF_TW_TIMER_SLOT_CNT)
      \<and> wheel_clock (tw_timer_array w' ! wi) = wheel_clock (tw_timer_array w ! wi)
      \<and> next_index_vec w' = next_index_vec w \<and> expired_timer_cnt w' = expired_timer_cnt w"
proof (induction E arbitrary: w Ws k m outs)
  case Nil
  note W = timers_wheel [OF Nil.prems(1,2)]
  have "expire_chunk_list (tw_timer_array w ! wi) = None"
    using W(1) Nil.prems(3) by (simp add: wheel_ok_def chunks_ok_def)
  then have "timer_input_loop rooms wi k (of_nat m) outs w = Some (of_nat m, outs, w)"
    using W(3) by (subst timer_input_loop.simps) simp
  moreover have "timers_inv w (Ws[wi := (Ws ! wi)\<lparr>wexpired := []\<rparr>])"
  proof -
    have "(Ws ! wi)\<lparr>wexpired := []\<rparr> = Ws ! wi" using Nil.prems(3) by (intro wheel.equality) simp_all
    then show ?thesis using Nil.prems(1) by (simp only: list_update_id)
  qed
  ultimately show ?case using Nil.prems by (intro exI [of _ "[]"] exI [of _ w]) (simp add: active_def)
next
  case (Cons c E)
  obtain a hs where c: "c = (a, hs)" by fastforce
  let ?tw = "tw_timer_array w ! wi" and ?W = "Ws ! wi" and ?ch = "tchunks w"
  let ?vec = "next_index_vec w" and ?st = "timer_info_start (tw_timer_array w ! wi)"
  let ?n = "length (active hs)"
  have "length hs \<le> SF_TW_TIMER_SLOT_CNT"
    using timers_wheel(1) [OF Cons.prems(1,2)] Cons.prems(3) c by (auto simp: wheel_ok_def chunks_ok_def chunk_ok_def)
  moreover have "?n \<le> length hs" unfolding active_def by (rule length_filter_le)
  ultimately have small: "m + ?n < 2 ^ 32" using Cons.prems(5) by (simp add: slot_cnt)
  then have ge: "of_nat (m + ?n) \<ge> (of_nat SF_TW_TIMER_SLOT_CNT :: u32) \<longleftrightarrow> m + ?n \<ge> SF_TW_TIMER_SLOT_CNT"
    using unat_of_nat32 [OF small] by (simp add: word_le_nat_alt slot_cnt del: of_nat_add)
  note inv = Cons.prems(1) and wi = Cons.prems(2)
  note W = timers_wheel [OF inv wi]
  have ok: "chunks_ok ?ch (expire_chunk_list ?tw) ((a, hs) # E)" using W(1) Cons.prems(3) c by (simp add: wheel_ok_def)
  then have ex: "expire_chunk_list ?tw = Some a" "chunk_ok ?ch (a, hs)" "chunks_ok ?ch (next_chunk (?ch a)) E"
    by (auto simp: chunks_ok_def)
  have lens: "length (sf_timer_slots (?ch x)) = SF_TW_TIMER_SLOT_CNT" for x using inv by (simp add: timers_inv_def)
  have int: "sf_timer_input_internal (rooms k) ?vec ?st (?ch a) outs = Some (outs @ map (deliver ?vec ?st) hs, of_nat ?n)"
    using Cons.prems(4) c by (intro input_internal [OF ex(2) lens assms]) simp
  have pinv: "pool_inv (timer_chunk_pool w) (concat (map wheel_addrs Ws))" using inv by (simp add: timers_inv_def)
  have aW: "a \<in> set (wheel_addrs ?W)" using Cons.prems(3) c by (simp add: wheel_addrs_def)
  then have aall: "a \<in> set (concat (map wheel_addrs Ws))" using nth_mem [OF wi] by auto
  obtain pool where pool: "free_node_to_pool wi (timer_chunk_pool w) a = Some pool"
    "pool_inv pool (remove1 a (concat (map wheel_addrs Ws)))"
    using sfp.release_total [OF pinv W(2) aall] by auto
  let ?tw1 = "?tw\<lparr>expire_chunk_list := next_chunk (?ch a)\<rparr>" and ?W1 = "?W\<lparr>wexpired := E\<rparr>"
  let ?w1 = "(put_tw wi ?tw1 w)\<lparr>timer_chunk_pool := pool\<rparr>"
  have ok1: "wheel_ok ?ch ?tw1 ?W1" using W(1) ex(3) by (simp add: wheel_ok_def)
  have inv1: "timers_inv ?w1 (Ws[wi := ?W1])"
  proof (rule timers_set_wheel [OF inv wi ok1, where A = "{}" and pool = pool])
    show "mset (remove1 a (concat (map wheel_addrs Ws))) + mset (wheel_addrs ?W)
      = mset (concat (map wheel_addrs Ws)) + mset (wheel_addrs ?W1)"
      using aall Cons.prems(3) c by (simp add: wheel_addrs_def)
  qed (use pool lens sfp.release_valid [OF pinv W(2) aall pool(1)] in \<open>auto simp: put_tw_def\<close>)
  have step: "timer_input_loop rooms wi k (of_nat m) outs w =
    (if m + ?n \<ge> SF_TW_TIMER_SLOT_CNT then Some (of_nat (m + ?n), outs @ map (deliver ?vec ?st) hs, ?w1)
     else timer_input_loop rooms wi (k + 1) (of_nat (m + ?n)) (outs @ map (deliver ?vec ?st) hs) ?w1)"
    using W(3) ex(1) int pool(1) ge by (subst timer_input_loop.simps) (simp add: put_tw_def)
  have wil: "wi < length (tw_timer_array w)" using inv wi by (simp add: timers_inv_def)
  show ?case
  proof (cases "m + ?n \<ge> SF_TW_TIMER_SLOT_CNT")
    case True
    then show ?thesis using step inv1 c wil Cons.prems(5)
      by (intro exI [of _ "[c]"] exI [of _ E] exI [of _ ?w1]) (simp add: active_def put_tw_def wheel_clock_def)
  next
    case False
    have "\<exists>E1 E2 w'. E = E1 @ E2
      \<and> timer_input_loop rooms wi (k + 1) (of_nat (m + ?n)) (outs @ map (deliver ?vec ?st) hs) ?w1
          = Some (of_nat (m + ?n + length (active (handles E1))),
           (outs @ map (deliver ?vec ?st) hs) @ map (deliver ?vec ?st) (handles E1), w')
      \<and> timers_inv w' (Ws[wi := ?W\<lparr>wexpired := E2\<rparr>])
      \<and> (E2 = [] \<or> m + ?n + length (active (handles E1)) \<ge> SF_TW_TIMER_SLOT_CNT)
      \<and> (E1 = [] \<or> m + ?n + length (active (handles (butlast E1))) < SF_TW_TIMER_SLOT_CNT)
      \<and> wheel_clock (tw_timer_array w' ! wi) = wheel_clock ?tw
      \<and> next_index_vec w' = ?vec \<and> expired_timer_cnt w' = expired_timer_cnt w"
      using Cons.IH [OF inv1, of "m + ?n" "k + 1" "outs @ map (deliver ?vec ?st) hs"] wi wil Cons.prems(4) c False
      by (simp add: put_tw_def wheel_clock_def)
    then obtain E1 E2 w' where r: "E = E1 @ E2"
      "timer_input_loop rooms wi (k + 1) (of_nat (m + ?n)) (outs @ map (deliver ?vec ?st) hs) ?w1
          = Some (of_nat (m + ?n + length (active (handles E1))),
           (outs @ map (deliver ?vec ?st) hs) @ map (deliver ?vec ?st) (handles E1), w')"
      "timers_inv w' (Ws[wi := ?W\<lparr>wexpired := E2\<rparr>])"
      "E2 = [] \<or> m + ?n + length (active (handles E1)) \<ge> SF_TW_TIMER_SLOT_CNT"
      "E1 = [] \<or> m + ?n + length (active (handles (butlast E1))) < SF_TW_TIMER_SLOT_CNT"
      "wheel_clock (tw_timer_array w' ! wi) = wheel_clock ?tw" "next_index_vec w' = ?vec" "expired_timer_cnt w' = expired_timer_cnt w"
      by blast
    have sum: "length (active (handles (c # E1))) = length (active hs) + length (active (handles E1))" for E1
      by (simp add: c active_def)
    have "m + length (active (handles (butlast (c # E1)))) < SF_TW_TIMER_SLOT_CNT"
      using r(5) False sum [of "butlast E1"] Cons.prems(5) by (cases "E1 = []") (simp_all add: active_def)
    then show ?thesis
      using step False r sum [of E1] c
      by (intro exI [of _ "c # E1"] exI [of _ E2] exI [of _ w']) (simp add: add.assoc)
  qed
qed

section \<open>Initial state and stopping\<close>

definition empty_wheel :: wheel where
  "empty_wheel = \<lparr>wbuckets = replicate SF_TW_TIMER_BUCKET_CNT [], wexpired = []\<rparr>"

lemma timers_init:
  assumes "pool_inv (timer_chunk_pool w) []" "n = length (per_worker_pool (hdr (timer_chunk_pool w)))"
    and "tw_timer_array w = replicate n (snd (sf_tw_timer_init F True start))"
    and "\<And>a. length (sf_timer_slots (tchunks w a)) = SF_TW_TIMER_SLOT_CNT"
  shows "timers_inv w (replicate n empty_wheel)"
proof -
  have e: "wheel_addrs empty_wheel = []" by (simp add: wheel_addrs_def empty_wheel_def concat_replicate_trivial)
  have "wheel_ok ch (snd (sf_tw_timer_init F True start)) empty_wheel" for ch
    by (simp add: wheel_ok_def empty_wheel_def sf_tw_timer_init_def Let_def bucket_rep_def chunks_ok_def bucket_cnt)
  then show ?thesis
    unfolding timers_inv_def using assms by (simp add: valid_worker_def e concat_replicate_trivial)
qed

text \<open>Clearing a slot replaces one handle by 0, wherever its chunk is.\<close>

definition clear_view :: "addr \<times> nat \<Rightarrow> cview \<Rightarrow> cview" where
  "clear_view sh c = (if fst c = fst sh then (fst c, (snd c)[snd sh := 0]) else c)"

definition wheel_clear :: "addr \<times> nat \<Rightarrow> wheel \<Rightarrow> wheel" where
  "wheel_clear sh W = \<lparr>wbuckets = map (map (clear_view sh)) (wbuckets W), wexpired = map (clear_view sh) (wexpired W)\<rparr>"

lemma clear_view_simps [simp]:
  "fst (clear_view sh c) = fst c" "length (snd (clear_view sh c)) = length (snd c)"
  by (simp_all add: clear_view_def)

lemma map_fst_clear [simp]: "map fst (map (clear_view sh) cs) = map fst cs"
  by simp

lemma length_handles_clear: "length (handles (map (clear_view sh) cs)) = length (handles cs)"
  by (induction cs) auto

lemma clear_slot_inv:
  assumes inv: "timers_inv w Ws" and i: "snd (slot_handler rec) < SF_TW_TIMER_SLOT_CNT"
  shows "\<exists>w'. clear_slot rec w = Some w' \<and> timers_inv w' (map (wheel_clear (slot_handler rec)) Ws)
    \<and> timer_info_pool w' = timer_info_pool w"
proof -
  obtain a n where sh: "slot_handler rec = (a, n)" by fastforce
  let ?ch = "(tchunks w)(a := (tchunks w a)\<lparr>sf_timer_slots := (sf_timer_slots (tchunks w a))[n := 0]\<rparr>)"
  let ?w' = "w\<lparr>tchunks := ?ch\<rparr>" and ?f = "clear_view (a, n)"
  have lens: "length (sf_timer_slots (tchunks w x)) = SF_TW_TIMER_SLOT_CNT" for x using inv by (simp add: timers_inv_def)
  have c: "chunk_ok ?ch (?f c)" if "chunk_ok (tchunks w) c" for c
    using that by (auto simp: chunk_ok_def clear_view_def take_update_swap)
  have chain: "chain (\<lambda>x. next_chunk (?ch x)) p xs = chain (\<lambda>x. next_chunk (tchunks w x)) p xs" for p xs
    by (rule chain_cong) simp
  have cs: "chunks_ok ?ch p (map ?f cs)" if "chunks_ok (tchunks w) p cs" for p cs
    using that c unfolding chunks_ok_def map_fst_clear chain by auto
  have b: "bucket_rep ?ch b (map ?f cs)" if "bucket_rep (tchunks w) b cs" for b cs
    using that cs unfolding bucket_rep_def length_handles_clear
    by (auto simp: last_map map_butlast [symmetric])
  have "wheel_ok ?ch (tw_timer_array w ! i) (wheel_clear (a, n) (Ws ! i))" if "i < length Ws" for i
    using timers_wheel(1) [OF inv that] b cs by (auto simp: wheel_ok_def wheel_clear_def)
  moreover have "wheel_addrs (wheel_clear (a, n) W) = wheel_addrs W" for W
    by (simp add: wheel_addrs_def wheel_clear_def map_concat comp_def)
  then have "concat (map wheel_addrs (map (wheel_clear (a, n)) Ws)) = concat (map wheel_addrs Ws)"
    by (simp add: comp_def)
  ultimately have "timers_inv ?w' (map (wheel_clear (a, n)) Ws)"
    using inv lens unfolding timers_inv_def by (simp del: fun_upd_apply) simp
  then show ?thesis using i lens by (simp add: clear_slot_def sh arr_simps)
qed

lemma submit_cases:
  assumes inv: "timers_inv w Ws" and wi: "wi < length Ws"
    and i: "i = bucket_of (pre_bucket_index (tw_timer_array w ! wi)) ticks"
    and few: "length (handles (wbuckets (Ws ! wi) ! i)) + 1 < 2 ^ 32"
    and h: "h = timer_handle (of_nat info - timer_info_start (tw_timer_array w ! wi)) g"
    and le: "ticks \<le> SF_TIMER_MAX_TICKS"
  shows "(\<exists>w'. sf_submit_timer_tw F wi info g ticks w = Some (-1, None, w') \<and> timers_inv w' Ws)
      \<or> (\<exists>a rec w'. sf_submit_timer_tw F wi info g ticks w = Some (0, Some rec, w')
           \<and> timers_inv w' (Ws[wi := wheel_push i a h (Ws ! wi)])
           \<and> slot_handler rec = last_slot (push_handle a h (wbuckets (Ws ! wi) ! i)))"
proof -
  let ?cs = "wbuckets (Ws ! wi) ! i" and ?b = "sf_timer_buckets (tw_timer_array w ! wi) ! i"
  note W = timers_wheel [OF inv wi]
  have iL: "i < SF_TW_TIMER_BUCKET_CNT" unfolding i bucket_of_def by (rule mask_less)
  have rep: "bucket_rep (tchunks w) ?b ?cs" and len: "i < length (sf_timer_buckets (tw_timer_array w ! wi))"
    using W(1) iL by (auto simp: wheel_ok_def)
  show ?thesis
  proof (cases "?cs \<noteq> [] \<and> length (snd (last ?cs)) < SF_TW_TIMER_SLOT_CNT")
    case True
    then have "?cs = butlast ?cs @ [(fst (last ?cs), snd (last ?cs))]" by simp
    then show ?thesis
      using submit_room [OF inv wi _ i _ _ few h, of "butlast ?cs" "fst (last ?cs)" "snd (last ?cs)" F] le True by auto
  next
    case full: False
    then have fl: "length (snd (last ?cs)) = SF_TW_TIMER_SLOT_CNT" if "?cs \<noteq> []"
    proof -
      have "chunk_ok (tchunks w) (last ?cs)" using rep that by (auto simp: bucket_rep_def chunks_ok_def)
      then show ?thesis using full that by (auto simp: chunk_ok_def)
    qed
    have pinv: "pool_inv (timer_chunk_pool w) (concat (map wheel_addrs Ws))" using inv by (simp add: timers_inv_def)
    obtain pool r where al: "alloc_node_from_pool wi (timer_chunk_pool w) = Some (pool, r)"
      "pool_inv pool (case r of None \<Rightarrow> concat (map wheel_addrs Ws) | Some p \<Rightarrow> p # concat (map wheel_addrs Ws))"
      using sfp.alloc_total [OF pinv W(2)] by blast
    show ?thesis
    proof (cases r)
      case None
      let ?w' = "w\<lparr>timer_chunk_pool := pool\<rparr>"
      have "\<not> slot_left_cnt ?b > 0" using bucket_left [OF rep] full by simp
      then have "sf_submit_timer_tw F wi info g ticks w = Some (-1, None, ?w')"
        using W(3) al(1) None le len
        by (simp add: sf_submit_timer_tw_def i [unfolded bucket_of_def, symmetric] arr_simps Let_def not_less)
      moreover have "timers_inv ?w' Ws"
        using inv al None sfp.alloc_valid [OF pinv W(2) al(1)] by (simp add: timers_inv_def)
      ultimately show ?thesis by auto
    next
      case (Some a)
      then show ?thesis using submit_full [OF inv wi le i fl few h, of pool a F] al(1) by blast
    qed
  qed
qed

lemma submit_pre:
  assumes "timers_inv w Ws" "wi < length Ws" "sf_submit_timer_tw F wi info g ticks w = Some (r, rec, w')"
  shows "pre_bucket_index (tw_timer_array w' ! wi) = pre_bucket_index (tw_timer_array w ! wi)"
proof -
  have "wi < length (tw_timer_array w)" using assms(1,2) by (simp add: timers_inv_def)
  then show ?thesis
    using assms(3) timers_wheel(3) [OF assms(1,2)]
    by (auto simp: sf_submit_timer_tw_def put_tw_def Let_def split: if_splits option.splits Option.bind_splits)
qed

lemma submit_clock:
  assumes "timers_inv w Ws" "wi < length Ws" "sf_submit_timer_tw F wi info g ticks w = Some (r, rec, w')"
  shows "same_clock (tw_timer_array w ! wi) (tw_timer_array w' ! wi)"
proof -
  have "wi < length (tw_timer_array w)" using assms(1,2) by (simp add: timers_inv_def)
  then show ?thesis
    using assms(3) timers_wheel(3) [OF assms(1,2)]
    by (auto simp: sf_submit_timer_tw_def put_tw_def Let_def same_clock_def split: if_splits option.splits Option.bind_splits)
qed

lemma submit_frame:
  assumes "timers_inv w Ws" "wi < length Ws" "sf_submit_timer_tw F wi info g ticks w = Some (r, rec, w')"
  shows "timer_info_pool w' = timer_info_pool w" "tinfos w' = tinfos w" "rec = Some x \<Longrightarrow> timer_info x = info"
proof -
  have "wi < length (tw_timer_array w)" using assms(1,2) by (simp add: timers_inv_def)
  then show "timer_info_pool w' = timer_info_pool w" "tinfos w' = tinfos w" "rec = Some x \<Longrightarrow> timer_info x = info"
    using assms(3) timers_wheel(3) [OF assms(1,2)]
    by (auto simp: sf_submit_timer_tw_def put_tw_def Let_def new_timer_record_def split: if_splits option.splits Option.bind_splits)
qed

lemma last_slot_less: "snd (last_slot (push_handle a h cs)) < SF_TW_TIMER_SLOT_CNT"
  by (simp add: last_slot_def push_handle_def slot_cnt)

text \<open>A bucket's 32-bit counter of used slots can still be incremented.\<close>

definition timer_room :: "('f, 'd) timer_world \<Rightarrow> nat \<Rightarrow> bool" where
  "timer_room w wi \<longleftrightarrow> (\<forall>b\<in>set (sf_timer_buckets (tw_timer_array w ! wi)). slot_used_cnt b \<noteq> - 1)"

lemma timer_room_few:
  assumes inv: "timers_inv w Ws" and wi: "wi < length Ws" and room: "timer_room w wi" and i: "i < SF_TW_TIMER_BUCKET_CNT"
  shows "length (handles (wbuckets (Ws ! wi) ! i)) + 1 < 2 ^ 32"
proof -
  let ?b = "sf_timer_buckets (tw_timer_array w ! wi) ! i" and ?cs = "wbuckets (Ws ! wi) ! i"
  have rep: "bucket_rep (tchunks w) ?b ?cs" and len: "i < length (sf_timer_buckets (tw_timer_array w ! wi))"
    using timers_wheel(1) [OF inv wi] i by (auto simp: wheel_ok_def)
  have "slot_used_cnt ?b \<noteq> - 1" using room len by (simp add: timer_room_def)
  then have "length (handles ?cs) \<noteq> 2 ^ 32 - 1" if "?cs \<noteq> []"
    using rep that by (auto simp: bucket_rep_def)
  then show ?thesis using rep by (cases "?cs = []") (auto simp: bucket_rep_def)
qed

lemma stop_timer_inv:
  assumes inv: "timers_inv w Ws" and slot: "snd (slot_handler rec) < SF_TW_TIMER_SLOT_CNT"
    and pool: "pool_inv (timer_info_pool w) outs" "valid_worker (timer_info_pool w) wi" "timer_info rec \<in> set outs"
  shows "\<exists>w'. sf_stop_timer_void F now zero wi rec w = Some w'
    \<and> (if f_lt F now (safe_clib_time rec)
       then timers_inv w' (map (wheel_clear (slot_handler rec)) Ws)
          \<and> pool_inv (timer_info_pool w') (remove1 (timer_info rec) outs)
       else timers_inv w' Ws \<and> tinfos w' = (tinfos w)(timer_info rec := zero) \<and> timer_info_pool w' = timer_info_pool w)
    \<and> (valid_worker (timer_info_pool w') j \<longleftrightarrow> valid_worker (timer_info_pool w) j)"
proof (cases "f_lt F now (safe_clib_time rec)")
  case True
  obtain w1 where w1: "clear_slot rec w = Some w1" "timers_inv w1 (map (wheel_clear (slot_handler rec)) Ws)"
    "timer_info_pool w1 = timer_info_pool w"
    using clear_slot_inv [OF inv slot] by blast
  obtain p where p: "free_node_to_pool wi (timer_info_pool w) (timer_info rec) = Some p"
    "pool_inv p (remove1 (timer_info rec) outs)"
    using sfp.release_total [OF pool] by blast
  have "timers_inv (w1\<lparr>timer_info_pool := p\<rparr>) (map (wheel_clear (slot_handler rec)) Ws)"
    using w1(2) by (simp add: timers_inv_def)
  then show ?thesis using True w1 p sfp.release_valid [OF pool p(1)] by (simp add: sf_stop_timer_void_def free_timer_info_def)
next
  case False
  then show ?thesis using inv by (simp add: sf_stop_timer_void_def timers_inv_def)
qed

section \<open>Properties\<close>

text \<open>
  For the examples: time in tenths of a second as integers, and a timer world over a pool.
\<close>

definition ex_f64 :: "int f64_ops" where
  "ex_f64 = \<lparr>f_zero = 0, f_one = 10, f_tick = 1, f_lt = (<), f_add = (+), f_sub = (-),
     f_mul = (\<lambda>x y. x * y div 10), f_div = (\<lambda>x y. x * 10 div y), f_of_u32 = (\<lambda>n. 10 * uint n), f_to_u32 = (\<lambda>x. word_of_int (x div 10))\<rparr>"

lemma ex_f64_simps:
  "f_zero ex_f64 = 0" "f_one ex_f64 = 10" "f_tick ex_f64 = 1" "f_lt ex_f64 x y = (x < y)" "f_sub ex_f64 x y = x - y"
  "f_mul ex_f64 x y = x * y div 10" "f_div ex_f64 x y = x * 10 div y" "f_to_u32 ex_f64 x = word_of_int (x div 10)"
  by (simp_all add: ex_f64_def)

text \<open>A pool of two workers that has no node yet and may grow.\<close>

definition ex_local :: sf_pool_per_thread_t where
  "ex_local = \<lparr>current_stack_len = 0, stack_max_len = 2, free_list_len = 0, free_list_max_len = 1,
     local_pool_stack = [0, 0, 0], local_free_list = None, local_last_node = None\<rparr>"

definition ex_pool :: pool_world where
  "ex_pool = ex_world\<lparr>hdr := \<lparr>next_hdr = None, pool_name = ''p'', init_size = 0, increase_size = 1,
     fill_free_size = 1, pool_mem_inc_max = 100, local_cache_size = 2, data_len = 64,
     data_align_len = 64, pool_mem_inc_time = 0, free_cnt = 0, total_cnt = 0, freelist = None,
     per_worker_pool = [ex_local, ex_local]\<rparr>\<rparr>"

lemma ex_pool_inv: "pool_inv_G ex_pool [] []"
  using ex_malloc_ok
  by (simp add: pool_inv_G_def ex_pool_def ex_local_def config_ok_def local_inv_def pool_nodes_def separated_def in_blocks_def)

lemma ex_pool_alloc: "i < 2 \<Longrightarrow> \<exists>pool a. alloc_node_from_pool i ex_pool = Some (pool, Some a) \<and> pool_inv pool [a]"
proof -
  assume i: "i < 2"
  have "\<not> pool_exhausted i ex_pool"
    using i by (auto simp: pool_exhausted_def ex_pool_def ex_world_def ex_malloc_def)
  moreover have "i < length (per_worker_pool (hdr ex_pool))" using i by (simp add: ex_pool_def)
  ultimately show ?thesis using alloc_inv_G [OF ex_pool_inv, of i] by (auto split: option.splits)
qed

definition ex_timers :: "(int, unit) timer_world" where
  "ex_timers = \<lparr>tw_timer_array = replicate 2 (snd (sf_tw_timer_init ex_f64 True 0)), next_index_vec = replicate 8 0,
     timer_info_pool = ex_pool, timer_chunk_pool = ex_pool,
     tchunks = (\<lambda>_. \<lparr>next_chunk = None, current_slot_cnt = 0, sf_timer_slots = replicate SF_TW_TIMER_SLOT_CNT 0\<rparr>),
     tinfos = (\<lambda>_. ()), expired_timer_cnt = (\<lambda>_. 0)\<rparr>"

lemma ex_timers_inv: "timers_inv ex_timers (replicate 2 empty_wheel)"
proof -
  have "pool_inv (timer_chunk_pool ex_timers) []" using ex_pool_inv by (auto simp: pool_inv_def ex_timers_def)
  then show ?thesis
    by (rule timers_init [where F = ex_f64 and start = 0]) (simp_all add: ex_timers_def ex_pool_def)
qed

lemma ex_tw:
  assumes "i < 2"
  shows "next_run_time (tw_timer_array ex_timers ! i) = 0" "expire_chunk_list (tw_timer_array ex_timers ! i) = None"
    "ticks_per_second (tw_timer_array ex_timers ! i) = 100" "last_run_time (tw_timer_array ex_timers ! i) = 0"
    "pre_bucket_index (tw_timer_array ex_timers ! i) = 0" "timer_info_start (tw_timer_array ex_timers ! i) = 0"
  using assms by (simp_all add: ex_timers_def sf_tw_timer_init_def ex_f64_simps)

lemma empty_wheel_bucket: "i < SF_TW_TIMER_BUCKET_CNT \<Longrightarrow> wbuckets empty_wheel ! i = []"
  by (simp add: empty_wheel_def)

text \<open>Submitting a timer never makes a memory error.  More than \<open>SF_TIMER_MAX_TICKS\<close> ticks are refused
  and change nothing; otherwise the timer's handle is put behind the others of the bucket that many
  ticks ahead and the record points to its slot, or the chunk pool is exhausted, the code is -1 and
  the wheels are unchanged.  The other workers' wheels are never touched.\<close>

theorem timer_submit_correct:
  assumes inv: "timers_inv w Ws" and wi: "wi < length Ws"
    and i: "i = bucket_of (pre_bucket_index (tw_timer_array w ! wi)) ticks"
    and few: "length (handles (wbuckets (Ws ! wi) ! i)) + 1 < 2 ^ 32"
    and h: "h = timer_handle (of_nat info - timer_info_start (tw_timer_array w ! wi)) g"
  shows "if ticks > SF_TIMER_MAX_TICKS then sf_submit_timer_tw F wi info g ticks w = Some (-1, None, w)
    else (\<exists>w'. sf_submit_timer_tw F wi info g ticks w = Some (-1, None, w') \<and> timers_inv w' Ws)
      \<or> (\<exists>a rec w'. sf_submit_timer_tw F wi info g ticks w = Some (0, Some rec, w')
           \<and> timers_inv w' (Ws[wi := wheel_push i a h (Ws ! wi)])
           \<and> slot_handler rec = last_slot (push_handle a h (wbuckets (Ws ! wi) ! i)))"
proof (cases "ticks > SF_TIMER_MAX_TICKS")
  case True
  then show ?thesis using timers_wheel(3) [OF inv wi] by (simp add: sf_submit_timer_tw_def)
next
  case False
  then have "ticks \<le> SF_TIMER_MAX_TICKS" by simp
  then show ?thesis using submit_cases [OF inv wi i few h, of F] False by (simp only: if_False)
qed

theorem timer_submit_correct_witness:
  "sf_submit_timer_tw ex_f64 1 64 4 20000 ex_timers = Some (-1, None, ex_timers)"
proof -
  let ?i = "bucket_of (pre_bucket_index (tw_timer_array ex_timers ! 1)) 20000"
  have "?i < SF_TW_TIMER_BUCKET_CNT" unfolding bucket_of_def by (rule mask_less)
  then have "length (handles (wbuckets (replicate 2 empty_wheel ! 1) ! ?i)) + 1 < 2 ^ 32"
    by (simp add: empty_wheel_bucket)
  from timer_submit_correct [OF ex_timers_inv _ refl this refl] show ?thesis by (simp add: SF_TIMER_MAX_TICKS_def)
qed

text \<open>C27: When the clock has advanced by n ticks, an expire run moves exactly the timers of the next n buckets
  (all of them when n is at least 2^14), in order, to the expire list, empties those buckets, leaves
  every other bucket and worker as it was, and advances the wheel by n.\<close>

theorem timer_expire_correct:
  assumes inv: "timers_inv w Ws" and wi: "wi < length Ws" and tw: "tw = tw_timer_array w ! wi"
    and due: "\<not> f_lt F now (next_run_time tw)" "expire_chunk_list tw = None"
    and n: "n = unat (f_to_u32 F (f_mul F (ticks_per_second tw) (f_sub F now (last_run_time tw))))"
    and p: "p = unat (pre_bucket_index tw)"
  shows "\<exists>cnt w' W'. sf_tw_timer_expire_internal F wi now w = Some (cnt, w') \<and> timers_inv w' (Ws[wi := W'])
    \<and> unat (pre_bucket_index (tw_timer_array w' ! wi)) = (p + n) mod 2 ^ 14
    \<and> handles (wexpired W') = concat (map (\<lambda>j. handles (wbuckets (Ws ! wi) ! ((p + j) mod 2 ^ 14))) [1..<Suc (min n (2 ^ 14))])
    \<and> (\<forall>i<2 ^ 14. handles (wbuckets W' ! i) =
          (if \<exists>j. 1 \<le> j \<and> j \<le> n \<and> i = (p + j) mod 2 ^ 14 then [] else handles (wbuckets (Ws ! wi) ! i)))"
proof -
  let ?B = "wbuckets (Ws ! wi)" and ?c = SF_TW_TIMER_BUCKET_CNT
  let ?W' = "\<lparr>wbuckets = fst (wheel_expire n p ?B []), wexpired = snd (wheel_expire n p ?B [])\<rparr>"
  obtain cnt w' where r: "sf_tw_timer_expire_internal F wi now w = Some (cnt, w')" "timers_inv w' (Ws[wi := ?W'])"
    "unat (pre_bucket_index (tw_timer_array w' ! wi)) = (p + n) mod ?c"
    using timers_expire [OF inv wi tw due n p] by blast
  have len: "length ?B = ?c" "p < ?c" using timers_wheel(1) [OF inv wi] by (auto simp: wheel_ok_def p tw)
  note we = wheel_expire_eq [OF len, of n "[]"]
  have "handles (concat xs) = concat (map (\<lambda>x. handles x) xs)" for xs by (induction xs) auto
  then have "handles (wexpired ?W') = concat (map (\<lambda>j. handles (?B ! ((p + j) mod ?c))) [1..<Suc (min n ?c)])"
    using we by (simp add: comp_def del: upt_Suc)
  moreover have "handles (wbuckets ?W' ! i) =
      (if \<exists>j. 1 \<le> j \<and> j \<le> n \<and> i = (p + j) mod ?c then [] else handles (?B ! i))" if "i < ?c" for i
    using we that unfolding passed_def [symmetric] by simp
  ultimately show ?thesis using r unfolding bucket_cnt by blast
qed

theorem timer_expire_correct_witness:
  "\<exists>cnt w' W'. sf_tw_timer_expire_internal ex_f64 0 7 ex_timers = Some (cnt, w')
     \<and> timers_inv w' ((replicate 2 empty_wheel)[0 := W']) \<and> unat (pre_bucket_index (tw_timer_array w' ! 0)) = 7"
proof -
  let ?tw = "tw_timer_array ex_timers ! 0"
  have "7 = unat (f_to_u32 ex_f64 (f_mul ex_f64 (ticks_per_second ?tw) (f_sub ex_f64 7 (last_run_time ?tw))))"
    by (simp add: ex_tw ex_f64_simps)
  from timer_expire_correct [OF ex_timers_inv _ refl _ _ this refl] show ?thesis
    by (fastforce simp: ex_tw ex_f64_simps)
qed

text \<open>C28: A timer submitted with k ticks, \<open>1 \<le> k \<le> 2 ^ 14\<close>, fires on time: after an expire run that covers
  n ticks its handle is on the expire list if n reaches k, and otherwise still waits in the bucket
  that is \<open>k - n\<close> ticks ahead.\<close>

theorem timer_fires_on_time:
  assumes inv: "timers_inv w Ws" and wi: "wi < length Ws" and k: "1 \<le> unat ticks"
    and few: "length (handles (wbuckets (Ws ! wi) ! bucket_of (pre_bucket_index (tw_timer_array w ! wi)) ticks)) + 1 < 2 ^ 32"
    and h: "h = timer_handle (of_nat info - timer_info_start (tw_timer_array w ! wi)) g"
    and sub: "sf_submit_timer_tw F wi info g ticks w = Some (0, rec, w1)" and tw: "tw = tw_timer_array w1 ! wi"
    and due: "\<not> f_lt F now (next_run_time tw)" "expire_chunk_list tw = None"
    and n: "n = unat (f_to_u32 F (f_mul F (ticks_per_second tw) (f_sub F now (last_run_time tw))))"
  shows "\<exists>cnt w2 W. sf_tw_timer_expire_internal F wi now w1 = Some (cnt, w2) \<and> timers_inv w2 (Ws[wi := W])
    \<and> (if unat ticks \<le> n then h \<in> set (handles (wexpired W))
       else h \<in> set (handles (wbuckets W ! ((unat (pre_bucket_index (tw_timer_array w2 ! wi)) + (unat ticks - n)) mod 2 ^ 14))))"
proof -
  define i where "i = bucket_of (pre_bucket_index (tw_timer_array w ! wi)) ticks"
  define p where "p = unat (pre_bucket_index tw)"
  let ?c = SF_TW_TIMER_BUCKET_CNT and ?k = "unat ticks"
  note W0 = timers_wheel [OF inv wi]
  have le: "ticks \<le> SF_TIMER_MAX_TICKS"
  proof (rule ccontr)
    assume "\<not> ticks \<le> SF_TIMER_MAX_TICKS"
    then have "SF_TIMER_MAX_TICKS < ticks" by simp
    then show False using sub W0(3) by (simp add: sf_submit_timer_tw_def Let_def)
  qed
  then have kc: "?k \<le> ?c" by (simp add: word_le_nat_alt SF_TW_TIMER_BUCKET_CNT_def)
  have "\<exists>a. timers_inv w1 (Ws[wi := wheel_push i a h (Ws ! wi)])"
    using submit_cases [OF inv wi i_def few [folded i_def] h le, of F] sub by auto
  then obtain a where inv1: "timers_inv w1 (Ws[wi := wheel_push i a h (Ws ! wi)])" (is "timers_inv w1 ?Ws1") by blast
  have wi1: "wi < length ?Ws1" using wi by simp
  have pre: "pre_bucket_index tw = pre_bucket_index (tw_timer_array w ! wi)"
    using submit_pre [OF inv wi sub] by (simp add: tw)
  have pc: "p < ?c" using timers_wheel(1) [OF inv1 wi1] by (simp add: wheel_ok_def p_def tw)
  have "p + ?k < 2 ^ 32" using pc kc by (simp add: bucket_cnt)
  then have ik: "i = (p + ?k) mod ?c"
    by (simp add: i_def bucket_of_def mask_mod p_def pre unat_word_ariths)
  have lenW: "length (wbuckets (Ws ! wi)) = ?c" using W0(1) by (simp add: wheel_ok_def)
  have ic: "i < ?c" unfolding i_def bucket_of_def by (rule mask_less)
  have hin: "h \<in> set (handles (wbuckets (?Ws1 ! wi) ! i))" using wi ic lenW by (simp add: wheel_push_def)
  let ?B = "wbuckets (?Ws1 ! wi)"
  let ?W = "\<lparr>wbuckets = fst (wheel_expire n p ?B []), wexpired = snd (wheel_expire n p ?B [])\<rparr>"
  obtain cnt w2 where r: "sf_tw_timer_expire_internal F wi now w1 = Some (cnt, w2)" "timers_inv w2 (?Ws1[wi := ?W])"
    "unat (pre_bucket_index (tw_timer_array w2 ! wi)) = (p + n) mod ?c"
    using timers_expire [OF inv1 wi1 tw due n p_def] by blast
  have lenB: "length ?B = ?c" using wi lenW by (simp add: wheel_push_def)
  note we = wheel_expire_eq [OF lenB pc, of n "[]"]
  have "h \<in> set (handles (wexpired ?W))" if "?k \<le> n"
  proof -
    have "?k \<in> set [1..<Suc (min n ?c)]" using that k kc by auto
    then have "set (?B ! ((p + ?k) mod ?c)) \<subseteq> set (wexpired ?W)" using we by (auto simp del: upt_Suc)
    then show ?thesis using hin unfolding ik by auto
  qed
  moreover have "h \<in> set (handles (wbuckets ?W ! (((p + n) mod ?c + (?k - n)) mod ?c)))" if "\<not> ?k \<le> n"
  proof -
    have "((p + n) mod ?c + (?k - n)) mod ?c = i"
      using that mod_add_left_eq [of "p + n" ?c "?k - n"] by (simp add: ik)
    moreover have "\<not> passed p n i" unfolding ik by (rule not_passed) (use that kc in auto)
    ultimately show ?thesis using we hin ic by simp
  qed
  ultimately show ?thesis using r unfolding bucket_cnt [symmetric] by (intro exI [of _ cnt] exI [of _ w2] exI [of _ ?W]) simp
qed

theorem timer_fires_on_time_witness:
  "\<exists>rec w1 cnt w2 W. sf_submit_timer_tw ex_f64 0 64 4 3 ex_timers = Some (0, Some rec, w1)
     \<and> sf_tw_timer_expire_internal ex_f64 0 7 w1 = Some (cnt, w2)
     \<and> timers_inv w2 ((replicate 2 empty_wheel)[0 := W]) \<and> timer_handle 64 4 \<in> set (handles (wexpired W))"
proof -
  let ?Ws = "replicate 2 empty_wheel"
  let ?i = "bucket_of (pre_bucket_index (tw_timer_array ex_timers ! 0)) 3"
  have wi: "0 < length ?Ws" by simp
  have "?i < SF_TW_TIMER_BUCKET_CNT" unfolding bucket_of_def by (rule mask_less)
  then have emp: "wbuckets (?Ws ! 0) ! ?i = []" by (simp add: empty_wheel_bucket)
  then have few: "length (handles (wbuckets (?Ws ! 0) ! ?i)) + 1 < 2 ^ 32" by simp
  obtain pool a where al: "alloc_node_from_pool 0 (timer_chunk_pool ex_timers) = Some (pool, Some a)"
    using ex_pool_alloc [of 0] by (auto simp: ex_timers_def)
  obtain rec w1 where sub: "sf_submit_timer_tw ex_f64 0 64 4 3 ex_timers = Some (0, Some rec, w1)"
    using submit_full [OF ex_timers_inv wi _ refl _ few refl al, of ex_f64 64 4] emp by (auto simp: SF_TIMER_MAX_TICKS_def)
  let ?tw = "tw_timer_array w1 ! 0"
  note c = submit_clock [OF ex_timers_inv wi sub, unfolded same_clock_def]
  have n: "7 = unat (f_to_u32 ex_f64 (f_mul ex_f64 (ticks_per_second ?tw) (f_sub ex_f64 7 (last_run_time ?tw))))"
    using c by (simp add: ex_tw ex_f64_simps)
  have "\<not> f_lt ex_f64 7 (next_run_time ?tw)" "expire_chunk_list ?tw = None" "1 \<le> unat (3 :: u32)"
    "timer_handle 64 4 = timer_handle (of_nat 64 - timer_info_start (tw_timer_array ex_timers ! 0)) 4"
    using c by (simp_all add: ex_tw ex_f64_simps)
  from timer_fires_on_time [OF ex_timers_inv wi this(3) few this(4) sub refl this(1,2) n] sub show ?thesis by auto
qed

text \<open>
  What a run of the input node must do to a wheel.  If no expired chunks are left over and the next run is due, the buckets of the
  ticks that have passed are taken off, in order; otherwise the wheel stands still and the chunks left over are the expired ones.
\<close>

definition run_due :: "'f f64_ops \<Rightarrow> 'f \<Rightarrow> 'f sf_tw_timer_t \<Rightarrow> bool" where
  "run_due F now tw \<longleftrightarrow> expire_chunk_list tw = None \<and> \<not> f_lt F now (next_run_time tw)"

definition ticks_passed :: "'f f64_ops \<Rightarrow> 'f \<Rightarrow> 'f sf_tw_timer_t \<Rightarrow> u32" where
  "ticks_passed F now tw = f_to_u32 F (f_mul F (ticks_per_second tw) (f_sub F now (last_run_time tw)))"

definition expired_chunks :: "'f f64_ops \<Rightarrow> 'f \<Rightarrow> 'f sf_tw_timer_t \<Rightarrow> wheel \<Rightarrow> cview list" where
  "expired_chunks F now tw W =
    (if run_due F now tw
     then concat (map (\<lambda>j. wbuckets W ! ((unat (pre_bucket_index tw) + j) mod 2 ^ 14)) [1..<Suc (min (unat (ticks_passed F now tw)) (2 ^ 14))])
     else wexpired W)"

definition waiting_chunks :: "'f f64_ops \<Rightarrow> 'f \<Rightarrow> 'f sf_tw_timer_t \<Rightarrow> wheel \<Rightarrow> nat \<Rightarrow> cview list" where
  "waiting_chunks F now tw W i =
    (if run_due F now tw \<and> (\<exists>j. 1 \<le> j \<and> j \<le> unat (ticks_passed F now tw) \<and> i = (unat (pre_bucket_index tw) + j) mod 2 ^ 14)
     then [] else wbuckets W ! i)"

text \<open>The state that the loop starts from.\<close>

lemma input_expire:
  assumes inv: "timers_inv w Ws" and wi: "wi < length Ws" and tw: "tw = tw_timer_array w ! wi"
  obtains w1 W1 where "(if expire_chunk_list tw = None
       then do { (_, w) \<leftarrow> sf_tw_timer_expire_internal F wi now w; Some w } else Some w) = Some w1"
    and "timers_inv w1 (Ws[wi := W1])" "wexpired W1 = expired_chunks F now tw (Ws ! wi)"
    and "\<forall>i<2 ^ 14. wbuckets W1 ! i = waiting_chunks F now tw (Ws ! wi) i"
    and "mset (concat (wbuckets W1) @ wexpired W1) = mset (concat (wbuckets (Ws ! wi)) @ wexpired (Ws ! wi))"
    and "timer_info_start (tw_timer_array w1 ! wi) = timer_info_start tw"
    and "next_index_vec w1 = next_index_vec w" "expired_timer_cnt w1 = expired_timer_cnt w"
    and "if run_due F now tw
      then unat (pre_bucket_index (tw_timer_array w1 ! wi)) = (unat (pre_bucket_index tw) + unat (ticks_passed F now tw)) mod 2 ^ 14
        \<and> last_run_time (tw_timer_array w1 ! wi) = f_add F (last_run_time tw) (f_mul F (f_of_u32 F (ticks_passed F now tw)) (timer_interval tw))
        \<and> next_run_time (tw_timer_array w1 ! wi) = f_add F now (timer_interval tw)
      else wheel_clock (tw_timer_array w1 ! wi) = wheel_clock tw"
proof (cases "run_due F now tw")
  case True
  let ?W = "Ws ! wi" and ?n = "unat (ticks_passed F now tw)" and ?p = "unat (pre_bucket_index tw)"
  let ?r = "wheel_expire ?n ?p (wbuckets ?W) []"
  note W = timers_wheel [OF inv wi]
  have due: "\<not> f_lt F now (next_run_time tw)" "expire_chunk_list tw = None" using True by (simp_all add: run_due_def)
  have len: "length (wbuckets ?W) = SF_TW_TIMER_BUCKET_CNT" "?p < SF_TW_TIMER_BUCKET_CNT" using W(1) by (simp_all add: wheel_ok_def tw)
  have noexp: "wexpired ?W = []" using W(1) due by (simp add: wheel_ok_def chunks_ok_def tw)
  note we = wheel_expire_eq [OF len, of ?n "[]"]
  obtain cnt w1 where r: "sf_tw_timer_expire_internal F wi now w = Some (cnt, w1)"
    "timers_inv w1 (Ws[wi := \<lparr>wbuckets = fst ?r, wexpired = snd ?r\<rparr>])"
    "unat (pre_bucket_index (tw_timer_array w1 ! wi)) = (?p + ?n) mod SF_TW_TIMER_BUCKET_CNT"
    "timer_info_start (tw_timer_array w1 ! wi) = timer_info_start tw"
    "next_run_time (tw_timer_array w1 ! wi) = f_add F now (timer_interval tw)"
    "last_run_time (tw_timer_array w1 ! wi) = f_add F (last_run_time tw) (f_mul F (f_of_u32 F (ticks_passed F now tw)) (timer_interval tw))"
    "next_index_vec w1 = next_index_vec w" "expired_timer_cnt w1 = expired_timer_cnt w"
    using timers_expire [OF inv wi tw due refl refl] unfolding ticks_passed_def [symmetric] by blast
  show ?thesis
  proof (rule that [of w1 "\<lparr>wbuckets = fst ?r, wexpired = snd ?r\<rparr>"])
    show "wexpired \<lparr>wbuckets = fst ?r, wexpired = snd ?r\<rparr> = expired_chunks F now tw ?W"
      using we True by (simp add: expired_chunks_def bucket_cnt del: upt_Suc)
    show "\<forall>i<2 ^ 14. wbuckets \<lparr>wbuckets = fst ?r, wexpired = snd ?r\<rparr> ! i = waiting_chunks F now tw ?W i"
      using we True unfolding bucket_cnt [symmetric] by (simp add: waiting_chunks_def passed_def bucket_cnt)
    show "mset (concat (wbuckets \<lparr>wbuckets = fst ?r, wexpired = snd ?r\<rparr>) @ wexpired \<lparr>wbuckets = fst ?r, wexpired = snd ?r\<rparr>)
      = mset (concat (wbuckets ?W) @ wexpired ?W)"
      using wheel_expire_mset [OF len(1), of ?n ?p "[]"] noexp by simp
  qed (use r due True in \<open>simp_all add: bucket_cnt\<close>)
next
  case False
  have same: "sf_tw_timer_expire_internal F wi now w = Some (0, w)" if "expire_chunk_list tw = None"
    using False that timers_wheel(3) [OF inv wi] by (simp add: sf_tw_timer_expire_internal_def run_due_def tw)
  show ?thesis
    by (rule that [of w "Ws ! wi"]) (use inv same False in \<open>simp_all add: expired_chunks_def waiting_chunks_def tw\<close>)
qed

text \<open>C29: One run of the timer input node terminates without a memory error.  If the next run is due and no expired chunks are left over,
  the expired timers are those of the buckets of the ticks that have passed, in the order of the buckets, these buckets are empty
  afterwards and the wheel and its times advance; otherwise the expired timers are the ones left over, and the wheel stands still.
  The node delivers the expired timers in order, chunk by chunk, until 510 active timers are out or none is left, and not a
  chunk more; what remains is the expire list of the next run, and the delivered chunks are back in the pool.  Every delivered
  timer goes to the node registered for its group, a stopped one (handle 0) to the error drop.  In the witness a
  timer is submitted for group 4 with 3 ticks, and a run 7 ticks later delivers it to the node registered for the group.\<close>

theorem timer_input_correct:
  assumes inv: "timers_inv w Ws" and wi: "wi < length Ws" and tw: "tw = tw_timer_array w ! wi"
    and rooms: "\<And>k. frames_ok (fst (rooms k))"
    and groups: "\<And>h. h \<in> set (handles (concat (wbuckets (Ws ! wi)) @ wexpired (Ws ! wi))) \<Longrightarrow> group_ok (next_index_vec w) h"
  shows "\<exists>E1 E2 B w'. sf_timer_input_node F rooms wi now w
      = Some (map (deliver (next_index_vec w) (timer_info_start tw)) (handles E1), w')
    \<and> expired_chunks F now tw (Ws ! wi) = E1 @ E2
    \<and> (E2 = [] \<or> SF_TW_TIMER_SLOT_CNT \<le> length (active (handles E1)))
    \<and> (E1 = [] \<or> length (active (handles (butlast E1))) < SF_TW_TIMER_SLOT_CNT)
    \<and> timers_inv w' (Ws[wi := \<lparr>wbuckets = B, wexpired = E2\<rparr>])
    \<and> (\<forall>i<2 ^ 14. B ! i = waiting_chunks F now tw (Ws ! wi) i)
    \<and> mset (concat B @ E1 @ E2) = mset (concat (wbuckets (Ws ! wi)) @ wexpired (Ws ! wi))
    \<and> expired_timer_cnt w' wi = expired_timer_cnt w wi + ucast (of_nat (length (active (handles E1))) :: u32)
    \<and> (if run_due F now tw
       then unat (pre_bucket_index (tw_timer_array w' ! wi)) = (unat (pre_bucket_index tw) + unat (ticks_passed F now tw)) mod 2 ^ 14
         \<and> last_run_time (tw_timer_array w' ! wi) = f_add F (last_run_time tw) (f_mul F (f_of_u32 F (ticks_passed F now tw)) (timer_interval tw))
         \<and> next_run_time (tw_timer_array w' ! wi) = f_add F now (timer_interval tw)
       else wheel_clock (tw_timer_array w' ! wi) = wheel_clock tw)"
proof -
  note W = timers_wheel [OF inv wi]
  let ?W = "Ws ! wi"
  obtain w1 W1 where w1: "(if expire_chunk_list tw = None
       then do { (_, w) \<leftarrow> sf_tw_timer_expire_internal F wi now w; Some w } else Some w) = Some w1"
     and inv1: "timers_inv w1 (Ws[wi := W1])" and exp: "wexpired W1 = expired_chunks F now tw ?W"
     and wait: "\<forall>i<2 ^ 14. wbuckets W1 ! i = waiting_chunks F now tw ?W i"
     and ms: "mset (concat (wbuckets W1) @ wexpired W1) = mset (concat (wbuckets ?W) @ wexpired ?W)"
     and same: "timer_info_start (tw_timer_array w1 ! wi) = timer_info_start tw"
       "next_index_vec w1 = next_index_vec w" "expired_timer_cnt w1 = expired_timer_cnt w"
     and clock: "if run_due F now tw
      then unat (pre_bucket_index (tw_timer_array w1 ! wi)) = (unat (pre_bucket_index tw) + unat (ticks_passed F now tw)) mod 2 ^ 14
        \<and> last_run_time (tw_timer_array w1 ! wi) = f_add F (last_run_time tw) (f_mul F (f_of_u32 F (ticks_passed F now tw)) (timer_interval tw))
        \<and> next_run_time (tw_timer_array w1 ! wi) = f_add F now (timer_interval tw)
      else wheel_clock (tw_timer_array w1 ! wi) = wheel_clock tw"
    by (rule input_expire [OF inv wi tw])
  have "set (wexpired W1) \<subseteq> set (concat (wbuckets ?W) @ wexpired ?W)"
    using mset_eq_setD [OF ms] by auto
  then have g: "\<forall>h\<in>set (handles (wexpired W1)). group_ok (next_index_vec w1) h"
  proof (intro ballI)
    fix h assume "h \<in> set (handles (wexpired W1))"
    then obtain c where "c \<in> set (wexpired W1)" "h \<in> set (snd c)" unfolding in_handles by blast
    with \<open>set (wexpired W1) \<subseteq> _\<close> have "h \<in> set (handles (concat (wbuckets ?W) @ wexpired ?W))"
      unfolding in_handles by blast
    then show "group_ok (next_index_vec w1) h" using groups same(2) by simp
  qed
  have wi1: "wi < length (Ws[wi := W1])" "Ws[wi := W1] ! wi = W1" using wi by simp_all
  have ex: "wexpired (Ws[wi := W1] ! wi) = wexpired W1" by (simp add: wi1(2))
  have pos: "0 < SF_TW_TIMER_SLOT_CNT" by (simp add: slot_cnt)
  obtain E1 E2 w2 where r: "wexpired W1 = E1 @ E2"
    "timer_input_loop rooms wi 0 0 [] w1 = Some (of_nat (length (active (handles E1))),
        map (deliver (next_index_vec w) (timer_info_start tw)) (handles E1), w2)"
    "timers_inv w2 (Ws[wi := W1\<lparr>wexpired := E2\<rparr>])"
    "E2 = [] \<or> SF_TW_TIMER_SLOT_CNT \<le> length (active (handles E1))"
    "E1 = [] \<or> length (active (handles (butlast E1))) < SF_TW_TIMER_SLOT_CNT"
    "wheel_clock (tw_timer_array w2 ! wi) = wheel_clock (tw_timer_array w1 ! wi)" "expired_timer_cnt w2 = expired_timer_cnt w"
    using timer_input_loop_correct [where rooms = rooms and k = 0 and outs = "[]", OF rooms inv1 wi1(1) ex g pos]
    by (auto simp: wi1(2) same)
  let ?c = "of_nat (length (active (handles E1))) :: u32"
  let ?w' = "w2\<lparr>expired_timer_cnt := (expired_timer_cnt w2)(wi := expired_timer_cnt w2 wi + ucast ?c)\<rparr>"
  have "sf_timer_input_node F rooms wi now w
    = Some (map (deliver (next_index_vec w) (timer_info_start tw)) (handles E1), ?w')"
    using W(3) w1 r(2) by (simp add: sf_timer_input_node_def tw)
  moreover have "timers_inv ?w' (Ws[wi := \<lparr>wbuckets = wbuckets W1, wexpired = E2\<rparr>])"
  proof -
    have eq: "W1\<lparr>wexpired := E2\<rparr> = \<lparr>wbuckets = wbuckets W1, wexpired = E2\<rparr>" by (cases W1) simp
    show ?thesis using r(3) [unfolded eq] by (simp add: timers_inv_def)
  qed
  moreover have "tw_timer_array ?w' ! wi = tw_timer_array w2 ! wi" by simp
  ultimately show ?thesis
    using r(1,4,5,7) ms exp wait clock r(6) unfolding wheel_clock_def prod.inject
    by (intro exI [of _ E1] exI [of _ E2] exI [of _ "wbuckets W1"] exI [of _ ?w'] conjI) simp_all
qed

theorem timer_input_correct_witness:
  "\<exists>w0 rec w1 w2. sf_timer_input_regist_next_node 4 5 ex_timers = Some w0
    \<and> sf_submit_timer_tw ex_f64 0 64 4 3 w0 = Some (0, Some rec, w1)
    \<and> sf_timer_input_node ex_f64 (\<lambda>_. (\<lambda>_. 256, \<lambda>_. 255)) 0 7 w1 = Some ([(64, 5)], w2)"
proof -
  let ?Ws = "replicate 2 empty_wheel" and ?h = "timer_handle 64 4"
  define w0 where "w0 = ex_timers\<lparr>next_index_vec := (replicate 8 0)[4 := 5]\<rparr>"
  have reg: "sf_timer_input_regist_next_node 4 5 ex_timers = Some w0"
    by (simp add: sf_timer_input_regist_next_node_def w0_def ex_timers_def arr_simps)
  have inv0: "timers_inv w0 ?Ws" using ex_timers_inv by (simp add: timers_inv_def w0_def)
  have wi: "0 < length ?Ws" by simp
  have tw0: "tw_timer_array w0 ! 0 = tw_timer_array ex_timers ! 0" "timer_chunk_pool w0 = timer_chunk_pool ex_timers" by (simp_all add: w0_def)
  have three: "bucket_of (pre_bucket_index (tw_timer_array w0 ! 0)) 3 = 3"
    by (simp add: bucket_of_def mask_mod tw0 ex_tw bucket_cnt)
  have emp: "wbuckets (?Ws ! 0) ! i = []" if "i < 2 ^ 14" for i using that by (simp add: empty_wheel_def bucket_cnt)
  obtain pool a where al: "alloc_node_from_pool 0 (timer_chunk_pool w0) = Some (pool, Some a)"
    using ex_pool_alloc [of 0] by (auto simp: ex_timers_def tw0(2))
  obtain rec w1 where sub: "sf_submit_timer_tw ex_f64 0 64 4 3 w0 = Some (0, Some rec, w1)"
    "timers_inv w1 (?Ws[0 := wheel_push 3 a ?h (?Ws ! 0)])"
    using submit_full [OF inv0 wi _ three [symmetric] _ _ refl al, of ex_f64 64 4] emp [of 3] by (auto simp: SF_TIMER_MAX_TICKS_def tw0 ex_tw)
  let ?Ws1 = "?Ws[0 := wheel_push 3 a ?h (?Ws ! 0)]" and ?tw = "tw_timer_array w1 ! 0"
  note c = submit_clock [OF inv0 wi sub(1), unfolded same_clock_def] and pre = submit_pre [OF inv0 wi sub(1)]
  have vec: "next_index_vec w1 = (replicate 8 0)[4 := 5]"
    using sub(1) timers_wheel(3) [OF inv0 wi] unfolding w0_def
    by (auto simp: sf_submit_timer_tw_def put_tw_def Let_def split: if_splits option.splits Option.bind_splits)
  have W1: "wbuckets (?Ws1 ! 0) ! i = (if i = 3 then [(a, [?h])] else [])" if "i < 2 ^ 14" for i
    using that emp [of i] by (auto simp: wheel_push_def push_handle_def nth_list_update empty_wheel_def bucket_cnt)
  have due: "run_due ex_f64 7 ?tw" "ticks_passed ex_f64 7 ?tw = 7"
    using c by (simp_all add: run_due_def ticks_passed_def tw0 ex_tw ex_f64_simps)
  have p: "pre_bucket_index ?tw = 0" using pre by (simp add: tw0 ex_tw)
  have one: "expired_chunks ex_f64 7 ?tw (?Ws1 ! 0) = [(a, [?h])]"
    using due W1 by (simp add: expired_chunks_def p upt_rec)
  have "set (concat (wbuckets (?Ws1 ! 0)) @ wexpired (?Ws1 ! 0)) \<subseteq> {(a, [?h])}"
  proof -
    have "length (wbuckets (?Ws1 ! 0)) = 2 ^ 14" by (simp add: wheel_push_def empty_wheel_def bucket_cnt)
    moreover have "wexpired (?Ws1 ! 0) = []" by (simp add: wheel_push_def empty_wheel_def)
    ultimately show ?thesis using W1 by (auto simp: in_set_conv_nth split: if_splits)
  qed
  then have hs: "h = ?h" if "h \<in> set (handles (concat (wbuckets (?Ws1 ! 0)) @ wexpired (?Ws1 ! 0)))" for h
    using that unfolding in_handles by fastforce
  have h: "handle_group ?h = 4" "handle_index ?h = 64" by (simp_all add: handle_group_def handle_index_def timer_handle_def)
  have groups: "group_ok (next_index_vec w1) h" if "h \<in> set (handles (concat (wbuckets (?Ws1 ! 0)) @ wexpired (?Ws1 ! 0)))" for h
    using hs [OF that] by (simp add: group_ok_def h vec)
  have wi1: "0 < length ?Ws1" and rooms: "\<And>k. frames_ok (fst (\<lambda>_ :: nat. 256, \<lambda>_ :: nat. 255))"
    by (simp_all add: frames_ok_def)
  obtain E1 E2 w2 where r: "sf_timer_input_node ex_f64 (\<lambda>_. (\<lambda>_. 256, \<lambda>_. 255)) 0 7 w1
      = Some (map (deliver (next_index_vec w1) (timer_info_start ?tw)) (handles E1), w2)" "[(a, [?h])] = E1 @ E2"
    "E2 = [] \<or> SF_TW_TIMER_SLOT_CNT \<le> length (active (handles E1))"
    using timer_input_correct [where rooms = "\<lambda>_. (\<lambda>_. 256, \<lambda>_. 255)" and F = ex_f64 and now = 7,
      OF sub(2) wi1 refl rooms groups, unfolded one] by blast
  have "E1 = [(a, [?h])]"
    using r(2,3) by (cases E1) (auto simp: active_def slot_cnt)
  then have "sf_timer_input_node ex_f64 (\<lambda>_. (\<lambda>_. 256, \<lambda>_. 255)) 0 7 w1 = Some ([(64, 5)], w2)"
    using r(1) c by (simp add: deliver_def h vec tw0 ex_tw)
  then show ?thesis using reg sub(1) by blast
qed

text \<open>C30: A timer handle gives back its group, and the address of its data exactly when that address is
  less than 2^56 above the origin \<open>timer_info_start\<close>; for data below the origin the delivered pointer
  is off by 2^56.\<close>

theorem timer_handle_roundtrip:
  "handle_group (timer_handle (info - start) g) = g
   \<and> (handle_index (timer_handle (info - start) g) + start = info \<longleftrightarrow> unat (info - start) < 2 ^ 56)"
proof
  show "handle_group (timer_handle (info - start) g) = g"
    unfolding handle_group_def timer_handle_def by (rule bit_word_eqI) (auto simp: bit_simps)
  have "handle_index (timer_handle x g) = take_bit 56 x" for x
    unfolding handle_index_def timer_handle_def
    by (rule bit_word_eqI) (auto simp: bit_simps dest: bit_imp_le_length)
  moreover have "take_bit 56 (info - start) + start = info \<longleftrightarrow> take_bit 56 (info - start) = info - start"
    by (simp add: eq_diff_eq)
  moreover have "take_bit 56 (info - start) = info - start \<longleftrightarrow> unat (info - start) < 2 ^ 56"
  proof -
    have "unat (take_bit 56 (info - start)) = take_bit 56 (unat (info - start))" by (rule unsigned_take_bit_eq)
    moreover have "take_bit 56 n = n \<longleftrightarrow> n < 2 ^ 56" for n :: nat by (rule take_bit_nat_eq_self_iff)
    ultimately show ?thesis by (metis unsigned_word_eqI)
  qed
  ultimately show "handle_index (timer_handle (info - start) g) + start = info \<longleftrightarrow> unat (info - start) < 2 ^ 56"
    by (simp only:)
qed

text \<open>Stopping a timer whose record points into a chunk: before its safe time the slot is cleared, so
  that the timer is delivered to the error drop only, its data goes back to the pool and nothing else
  changes; after the safe time the slot is left for the node that is about to run, and the data is
  zeroed for it instead.\<close>

theorem timer_stop_correct:
  assumes inv: "timers_inv w Ws" and slot: "snd (slot_handler rec) < SF_TW_TIMER_SLOT_CNT"
    and pool: "pool_inv (timer_info_pool w) outs" "valid_worker (timer_info_pool w) wi" "timer_info rec \<in> set outs"
  shows "\<exists>w'. sf_stop_timer_void F now zero wi rec w = Some w'
    \<and> (if f_lt F now (safe_clib_time rec)
       then timers_inv w' (map (wheel_clear (slot_handler rec)) Ws)
          \<and> pool_inv (timer_info_pool w') (remove1 (timer_info rec) outs)
       else timers_inv w' Ws \<and> tinfos w' = (tinfos w)(timer_info rec := zero) \<and> timer_info_pool w' = timer_info_pool w)"
  using stop_timer_inv [OF assms, of F now zero] by blast

definition ex_rec :: "addr \<Rightarrow> int sf_timer_record_t" where
  "ex_rec a = \<lparr>slot_handler = (0, 3), timer_info = a, safe_clib_time = 10\<rparr>"

theorem timer_stop_correct_witness:
  "\<exists>pool a w'. pool_inv pool [a] \<and> sf_stop_timer_void ex_f64 5 () 0 (ex_rec a) (ex_timers\<lparr>timer_info_pool := pool\<rparr>) = Some w'
     \<and> pool_inv (timer_info_pool w') []"
proof -
  obtain pool a where p: "alloc_node_from_pool 0 ex_pool = Some (pool, Some a)" "pool_inv pool [a]"
    using ex_pool_alloc [of 0] by auto
  have v: "valid_worker ex_pool 0" by (simp add: valid_worker_def ex_pool_def)
  have "valid_worker pool 0"
    using sfp.alloc_valid [OF _ v p(1), of "[]" 0] v ex_pool_inv by (auto simp: pool_inv_def)
  moreover have "timers_inv (ex_timers\<lparr>timer_info_pool := pool\<rparr>) (replicate 2 empty_wheel)"
    using ex_timers_inv by (simp add: timers_inv_def)
  ultimately show ?thesis
    using timer_stop_correct [of "ex_timers\<lparr>timer_info_pool := pool\<rparr>" "replicate 2 empty_wheel" "ex_rec a" "[a]" 0 ex_f64 5 "()"] p(2)
    by (auto simp: ex_rec_def ex_f64_simps slot_cnt)
qed

end
