(* ===== verification/Pkt_Wdata.thy ===== *)
theory Pkt_Wdata
  imports Sf_Prelude
begin

text \<open>
  The per-packet metadata \<open>sf_wdata_t\<close> of \<open>sf_lib/sf_net\<close> (\<open>new_pkt_wdata.h\<close>, \<open>pkt_wdata.h\<close>) and
  the header layouts of \<open>common_header.h\<close> on a little-endian machine.  All fields are words of the
  C width, so every update wraps as in C.  The packet's memory is the function \<open>data_ptr\<close>: the byte
  at a (possibly negative) distance from the C pointer of that name.
\<close>

section \<open>Metadata\<close>

record ip_addr_t =
  addr_v6_upper :: u64
  addr_v6_lower :: u64

text \<open>The union member \<open>addr_v4\<close>: the first four bytes.\<close>

definition addr_v4 :: "ip_addr_t \<Rightarrow> u32" where
  "addr_v4 a = ucast (addr_v6_upper a)"

definition set_addr_v4 :: "u32 \<Rightarrow> ip_addr_t \<Rightarrow> ip_addr_t" where
  "set_addr_v4 v a = a\<lparr>addr_v6_upper := (addr_v6_upper a AND 0xFFFFFFFF00000000) OR ucast v\<rparr>"

lemma addr_v4_set: "addr_v4 (set_addr_v4 x a) = x"
proof -
  have high: "(0xFFFFFFFF00000000 :: u64) = push_bit 32 (mask 32)"
    by (simp add: mask_eq_exp_minus_1 push_bit_eq_mult)
  show ?thesis unfolding addr_v4_def set_addr_v4_def high
    by (rule bit_word_eqI) (auto simp: bit_simps)
qed

record ip_wdata_t =
  ip_offset :: u16
  ip_version :: u8
  ip_protocol :: u8
  ip_header_len :: u16
  ip_payload_len :: u16
  sip :: ip_addr_t
  dip :: ip_addr_t
  is_frag :: bool
  reass_over :: u8

record vlan_wdata_t =
  vlan_offset :: u16
  inner_layer_count :: u8

record l4_wdata_t =
  l4_offset :: u16
  l4_sport :: u16
  l4_dport :: u16
  l4_header_len :: u16

record sf_wdata_t =
  current_data :: u16
  current_length :: u16
  interface_id :: u8
  interface_out :: u8
  l2_hdr_offset :: u8
  unused8 :: u8
  data_ptr :: "int \<Rightarrow> u8"
  timestamp :: u64
  packet_type :: u64
  outer_vlan_id :: u16
  outer_ether_type :: u16
  ip_wdata_cnt :: u8
  l4_wdata_cnt :: u8
  vlan_wdata_cnt :: u8
  vlan_wdatas :: vlan_wdata_t
  arg_to_next :: u32
  ip_wdata :: ip_wdata_t
  l4_wdata :: l4_wdata_t

text \<open>The two halves of the union \<open>arg_to_next\<close>.\<close>

definition set_arg1_to_next :: "u16 \<Rightarrow> sf_wdata_t \<Rightarrow> sf_wdata_t" where
  "set_arg1_to_next v w = w\<lparr>arg_to_next := (arg_to_next w AND 0xFFFF0000) OR ucast v\<rparr>"

definition set_arg2_to_next :: "u16 \<Rightarrow> sf_wdata_t \<Rightarrow> sf_wdata_t" where
  "set_arg2_to_next v w = w\<lparr>arg_to_next := (arg_to_next w AND 0xFFFF) OR push_bit 16 (ucast v)\<rparr>"

definition update_vlan_wdata :: "sf_wdata_t \<Rightarrow> u16 \<Rightarrow> u8 \<Rightarrow> sf_wdata_t" where
  "update_vlan_wdata w off layer_cnt =
    w\<lparr>vlan_wdatas := \<lparr>vlan_offset = off, inner_layer_count = layer_cnt\<rparr>, vlan_wdata_cnt := 1\<rparr>"

definition IP_VERSION_4 :: u8 where "IP_VERSION_4 = 4"
definition IP_VERSION_6 :: u8 where "IP_VERSION_6 = 6"
definition MAX_IP_WDATA :: u8 where "MAX_IP_WDATA = 1"

definition update_ipv4_wdata ::
  "ip_wdata_t \<Rightarrow> u16 \<Rightarrow> u32 \<Rightarrow> u32 \<Rightarrow> u8 \<Rightarrow> u16 \<Rightarrow> u16 \<Rightarrow> bool \<Rightarrow> ip_wdata_t" where
  "update_ipv4_wdata ipw off src dst proto hdr_len pay_len frag =
    ipw\<lparr>ip_offset := off, ip_version := IP_VERSION_4,
        sip := set_addr_v4 src (sip ipw), dip := set_addr_v4 dst (dip ipw),
        ip_protocol := proto, ip_header_len := hdr_len, ip_payload_len := pay_len, is_frag := frag\<rparr>"

definition update_ipv6_wdata ::
  "ip_wdata_t \<Rightarrow> u16 \<Rightarrow> ip_addr_t \<Rightarrow> ip_addr_t \<Rightarrow> u8 \<Rightarrow> u16 \<Rightarrow> u16 \<Rightarrow> bool \<Rightarrow> ip_wdata_t" where
  "update_ipv6_wdata ipw off src dst proto hdr_len pay_len frag =
    ipw\<lparr>ip_offset := off, ip_version := IP_VERSION_6, sip := src, dip := dst,
        ip_protocol := proto, ip_header_len := hdr_len, ip_payload_len := pay_len, is_frag := frag\<rparr>"

definition update_l4_wdata :: "sf_wdata_t \<Rightarrow> u16 \<Rightarrow> u16 \<Rightarrow> u16 \<Rightarrow> u8 \<Rightarrow> u16 \<Rightarrow> sf_wdata_t" where
  "update_l4_wdata w off sport dport proto hdr_len =
    w\<lparr>l4_wdata := \<lparr>l4_offset = off, l4_sport = sport, l4_dport = dport, l4_header_len = hdr_len\<rparr>,
      l4_wdata_cnt := 1\<rparr>"

section \<open>Packet types and flags\<close>

definition PACKET_TYPE_ERROR :: nat where "PACKET_TYPE_ERROR = 0"

definition set_packet_type :: "sf_wdata_t \<Rightarrow> nat \<Rightarrow> sf_wdata_t" where
  "set_packet_type w v = w\<lparr>packet_type := packet_type w OR push_bit v 1\<rparr>"

definition has_packet_type :: "sf_wdata_t \<Rightarrow> nat \<Rightarrow> bool" where
  "has_packet_type w v \<longleftrightarrow> packet_type w AND push_bit v 1 \<noteq> 0"

definition UNUSED8_FLAG_WDATA :: u8 where "UNUSED8_FLAG_WDATA = 1"
definition UNUSED8_FLAG_IS_PKT :: u8 where "UNUSED8_FLAG_IS_PKT = 2"
definition UNUSED8_FLAG_HUGE_PKT :: u8 where "UNUSED8_FLAG_HUGE_PKT = 4"
definition UNUSED8_FLAG_IP_REASS_PKT :: u8 where "UNUSED8_FLAG_IP_REASS_PKT = 8"
definition UNUSED8_FLAG_PKT_TRACED :: u8 where "UNUSED8_FLAG_PKT_TRACED = 16"

lemma has_set_packet_type:
  "v < 64 \<Longrightarrow> v' < 64 \<Longrightarrow> has_packet_type (set_packet_type w v) v' \<longleftrightarrow> v' = v \<or> has_packet_type w v'"
proof -
  assume "v < 64" "v' < 64"
  have eq: "has_packet_type u n \<longleftrightarrow> bit (packet_type u) n" for u n
    by (simp add: has_packet_type_def push_bit_eq_mult and_exp_eq_0_iff_not_bit)
  show ?thesis
    unfolding eq using \<open>v < 64\<close> \<open>v' < 64\<close> by (auto simp: set_packet_type_def bit_simps)
qed

section \<open>The window on the packet\<close>

definition sf_wqe_advance_wdata :: "sf_wdata_t \<Rightarrow> u16 \<Rightarrow> sf_wdata_t" where
  "sf_wqe_advance_wdata w l = w\<lparr>current_data := current_data w + l, current_length := current_length w - l\<rparr>"

definition sf_wqe_reset_wdata :: "sf_wdata_t \<Rightarrow> sf_wdata_t" where
  "sf_wqe_reset_wdata w =
    w\<lparr>current_length := current_length w + (current_data w - ucast (l2_hdr_offset w)),
      current_data := ucast (l2_hdr_offset w)\<rparr>"

text \<open>The end of the packet, modulo the width of the fields; advancing and resetting keep it.\<close>

definition pkt_end :: "sf_wdata_t \<Rightarrow> u16" where
  "pkt_end w = current_data w + current_length w"

lemma pkt_end_advance [simp]: "pkt_end (sf_wqe_advance_wdata w l) = pkt_end w"
  by (simp add: pkt_end_def sf_wqe_advance_wdata_def)

lemma pkt_end_reset [simp]: "pkt_end (sf_wqe_reset_wdata w) = pkt_end w"
  by (simp add: pkt_end_def sf_wqe_reset_wdata_def)

lemma advance_fields [simp]:
  "l2_hdr_offset (sf_wqe_advance_wdata w l) = l2_hdr_offset w"
  "data_ptr (sf_wqe_advance_wdata w l) = data_ptr w"
  by (simp_all add: sf_wqe_advance_wdata_def)

section \<open>Loads\<close>

text \<open>\<open>sf_wqe_get_current_wdata\<close> as a distance from \<open>data_ptr\<close>: \<open>current_data\<close> is a signed field.\<close>

definition cur_pos :: "sf_wdata_t \<Rightarrow> int" where
  "cur_pos w = sint (current_data w)"

text \<open>The window lies in the part of the buffer that a positive signed offset reaches.\<close>

definition window_ok :: "sf_wdata_t \<Rightarrow> bool" where
  "window_ok w \<longleftrightarrow> unat (current_data w) + unat (current_length w) < 2 ^ 15"

lemma sint_small: "unat (x :: u16) < 2 ^ 15 \<Longrightarrow> sint x = int (unat x)"
proof -
  assume "unat x < 2 ^ 15"
  then have "int (unat x) < int (2 ^ 15)" by (simp only: of_nat_less_iff)
  then have "uint x < 2 ^ 15" by simp
  moreover have "(0 :: int) \<le> uint x" by simp
  ultimately have "signed_take_bit 15 (uint x) = uint x"
    by (intro signed_take_bit_int_eq_self) linarith+
  then show ?thesis by (simp add: sint_uint)
qed

lemma window_pos: "window_ok w \<Longrightarrow> cur_pos w = int (unat (current_data w))"
  unfolding cur_pos_def by (rule sint_small) (simp add: window_ok_def)

lemma window_advance:
  assumes "window_ok w" "unat l \<le> unat (current_length w)"
  shows "unat (current_data (sf_wqe_advance_wdata w l)) = unat (current_data w) + unat l"
    "unat (current_length (sf_wqe_advance_wdata w l)) = unat (current_length w) - unat l"
    "window_ok (sf_wqe_advance_wdata w l)"
    "cur_pos (sf_wqe_advance_wdata w l) = cur_pos w + int (unat l)"
proof -
  show 1: "unat (current_data (sf_wqe_advance_wdata w l)) = unat (current_data w) + unat l"
    using assms by (simp add: sf_wqe_advance_wdata_def window_ok_def unat_word_ariths)
  show 2: "unat (current_length (sf_wqe_advance_wdata w l)) = unat (current_length w) - unat l"
    using assms by (simp add: sf_wqe_advance_wdata_def unat_sub word_le_nat_alt)
  show 3: "window_ok (sf_wqe_advance_wdata w l)"
    unfolding window_ok_def 1 2 using assms by (simp add: window_ok_def)
  show "cur_pos (sf_wqe_advance_wdata w l) = cur_pos w + int (unat l)"
    using window_pos [OF 3] window_pos [OF assms(1)] 1 by simp
qed

definition ld16 :: "(int \<Rightarrow> u8) \<Rightarrow> int \<Rightarrow> u16" where
  "ld16 m p = ucast (m p) OR push_bit 8 (ucast (m (p + 1)))"

definition ld32 :: "(int \<Rightarrow> u8) \<Rightarrow> int \<Rightarrow> u32" where
  "ld32 m p = ucast (ld16 m p) OR push_bit 16 (ucast (ld16 m (p + 2)))"

definition ld64 :: "(int \<Rightarrow> u8) \<Rightarrow> int \<Rightarrow> u64" where
  "ld64 m p = ucast (ld32 m p) OR push_bit 32 (ucast (ld32 m (p + 4)))"

definition clib_net_to_host_u16 :: "u16 \<Rightarrow> u16" where
  "clib_net_to_host_u16 x = push_bit 8 x OR drop_bit 8 x"

lemma net_to_host_involutive: "clib_net_to_host_u16 (clib_net_to_host_u16 x) = x"
  by (rule bit_word_eqI) (auto simp: clib_net_to_host_u16_def bit_simps)

end
