(* ===== verification/Pkt_Decode.thy ===== *)
theory Pkt_Decode
  imports Pkt_Wdata Vlib_Loop
begin

text \<open>
  The decoding nodes of \<open>sf_main/nodes/decode\<close>: Ethernet and VLAN, IPv4, IPv6 with its extension
  headers, UDP and TCP.  For each node there is the body that handles one packet, the body that
  handles two (written in the order of the statements of the C code), and the node itself, which
  runs them under the frame loop of \<open>Vlib_Loop\<close>.  A next node is its index in the node's table.
  Packet tracing, which only copies fields into VPP's trace buffer, is left out.
\<close>

section \<open>Ethernet\<close>

definition ETHER_INVALID_TYPE :: u16 where "ETHER_INVALID_TYPE = 0"
definition ETHER_VLAN_NET_ORDER :: u16 where "ETHER_VLAN_NET_ORDER = 0x0081"
definition ETHER_QINQ_NET_ORDER :: u16 where "ETHER_QINQ_NET_ORDER = 0xa888"
definition ETHER_IPV4_NET_ORDER :: u16 where "ETHER_IPV4_NET_ORDER = 0x0008"
definition ETHER_IPV6_NET_ORDER :: u16 where "ETHER_IPV6_NET_ORDER = 0xDD86"
definition ETH_HEADER_LEN :: u16 where "ETH_HEADER_LEN = 14"
definition VLAN_HEADER_LEN :: u16 where "VLAN_HEADER_LEN = 4"

definition is_vlan_type :: "u16 \<Rightarrow> bool" where
  "is_vlan_type ty \<longleftrightarrow> ty = ETHER_VLAN_NET_ORDER \<or> ty = ETHER_QINQ_NET_ORDER"

definition SF_NEXT_NODE_SF_ACL_ENTRY :: nat where "SF_NEXT_NODE_SF_ACL_ENTRY = 0"
definition SF_NEXT_NODE_SF_IP4_INPUT :: nat where "SF_NEXT_NODE_SF_IP4_INPUT = 1"
definition SF_NEXT_NODE_SF_IP6_INPUT :: nat where "SF_NEXT_NODE_SF_IP6_INPUT = 2"

text \<open>
  The \<open>while(1)\<close> loop over the tags.  The first component is \<open>None\<close> when the loop returned
  because fewer bytes than a tag and one more were left.
\<close>

function vlan_loop :: "sf_wdata_t \<Rightarrow> u8 \<Rightarrow> u16 option \<times> u8 \<times> sf_wdata_t" where
  "vlan_loop w layer_cnt =
    (if current_length w \<le> VLAN_HEADER_LEN then (None, layer_cnt, w)
     else
       (let eth_type = ld16 (data_ptr w) (cur_pos w + 2);
            w' = sf_wqe_advance_wdata w VLAN_HEADER_LEN
        in if \<not> is_vlan_type eth_type then (Some eth_type, layer_cnt + 1, w')
           else vlan_loop w' (layer_cnt + 1)))"
  by pat_completeness auto

lemma advance_length:
  "l \<le> current_length w \<Longrightarrow> unat (current_length (sf_wqe_advance_wdata w l)) = unat (current_length w) - unat l"
  by (simp add: sf_wqe_advance_wdata_def unat_sub)

termination vlan_loop
proof (relation "measure (\<lambda>(w, _). unat (current_length w))", goal_cases)
  case (2 w layer_cnt x xa)
  have "(4 :: u16) \<le> current_length w" using 2(1) by (simp add: VLAN_HEADER_LEN_def)
  then have "(4 :: nat) \<le> unat (current_length w)" by (simp add: word_le_nat_alt)
  then show ?case using 2 by (simp add: advance_length VLAN_HEADER_LEN_def)
qed simp

declare vlan_loop.simps [simp del]

definition parse_vlan_hdr_only :: "sf_wdata_t \<Rightarrow> u16 \<times> sf_wdata_t" where
  "parse_vlan_hdr_only w =
    (case vlan_loop w 0 of
       (None, _, w') \<Rightarrow> (ETHER_INVALID_TYPE, w')
     | (Some eth_type, layer_cnt, w') \<Rightarrow>
         (eth_type, if layer_cnt \<noteq> 0 then update_vlan_wdata w' (current_data w) layer_cnt else w'))"

definition parse_eth_hdr :: "sf_wdata_t \<Rightarrow> u16 \<Rightarrow> u16 \<times> sf_wdata_t" where
  "parse_eth_hdr w eth_type =
    (if eth_type = ETHER_QINQ_NET_ORDER \<or> eth_type = ETHER_VLAN_NET_ORDER
     then parse_vlan_hdr_only w else (eth_type, w))"

definition sf_eth_get_next_index :: "u16 \<Rightarrow> nat" where
  "sf_eth_get_next_index eth_type =
    (if eth_type = ETHER_IPV4_NET_ORDER then SF_NEXT_NODE_SF_IP4_INPUT
     else if eth_type = ETHER_IPV6_NET_ORDER then SF_NEXT_NODE_SF_IP6_INPUT
     else SF_NEXT_NODE_SF_ACL_ENTRY)"

definition sf_eth_input_x1 :: "sf_wdata_t \<Rightarrow> sf_wdata_t \<times> nat" where
  "sf_eth_input_x1 w =
    (let hdr_type = ld16 (data_ptr w) (cur_pos w + 12);
         w = sf_wqe_advance_wdata w ETH_HEADER_LEN;
         (eth_type, w) = parse_eth_hdr w hdr_type
     in (w, sf_eth_get_next_index eth_type))"

definition sf_eth_input_x2 ::
  "sf_wdata_t \<Rightarrow> sf_wdata_t \<Rightarrow> (sf_wdata_t \<times> nat) \<times> (sf_wdata_t \<times> nat)" where
  "sf_eth_input_x2 w0 w1 =
    (let hdr_type0 = ld16 (data_ptr w0) (cur_pos w0 + 12);
         hdr_type1 = ld16 (data_ptr w1) (cur_pos w1 + 12);
         w0 = sf_wqe_advance_wdata w0 ETH_HEADER_LEN;
         w1 = sf_wqe_advance_wdata w1 ETH_HEADER_LEN;
         (eth_type0, w0) = parse_eth_hdr w0 hdr_type0;
         (eth_type1, w1) = parse_eth_hdr w1 hdr_type1;
         next0 = sf_eth_get_next_index eth_type0;
         next1 = sf_eth_get_next_index eth_type1
     in ((w0, next0), (w1, next1)))"

definition sf_eth_input_node where
  "sf_eth_input_node = packet_node sf_eth_input_x2 sf_eth_input_x1"

section \<open>IPv4\<close>

definition SF_NEXT_NODE_UDP_INPUT :: nat where "SF_NEXT_NODE_UDP_INPUT = 1"
definition SF_NEXT_NODE_TCP_INPUT :: nat where "SF_NEXT_NODE_TCP_INPUT = 2"
definition SF_NEXT_NODE_IP_REASS :: nat where "SF_NEXT_NODE_IP_REASS = 3"

definition IP_PRO_TCP :: u8 where "IP_PRO_TCP = 0x06"
definition IP_PRO_UDP :: u8 where "IP_PRO_UDP = 0x11"

text \<open>Fields of the IPv4 header at position \<open>p\<close>.\<close>

definition ip4_ipHeaderLen :: "(int \<Rightarrow> u8) \<Rightarrow> int \<Rightarrow> u8" where
  "ip4_ipHeaderLen m p = m p AND 0xF"

definition ip4_flags :: "(int \<Rightarrow> u8) \<Rightarrow> int \<Rightarrow> u8" where
  "ip4_flags m p = drop_bit 5 (m (p + 6))"

definition ip4_offset_5bit :: "(int \<Rightarrow> u8) \<Rightarrow> int \<Rightarrow> u8" where
  "ip4_offset_5bit m p = m (p + 6) AND 0x1F"

definition get_ip4_hdr_offset :: "(int \<Rightarrow> u8) \<Rightarrow> int \<Rightarrow> u16" where
  "get_ip4_hdr_offset m p = push_bit 8 (ucast (ip4_offset_5bit m p)) OR ucast (m (p + 7))"

definition ip4_is_frag :: "(int \<Rightarrow> u8) \<Rightarrow> int \<Rightarrow> bool" where
  "ip4_is_frag m p \<longleftrightarrow> ip4_flags m p AND 1 \<noteq> 0 \<or> m (p + 7) \<noteq> 0 \<or> ip4_offset_5bit m p \<noteq> 0"

text \<open>\<open>ip4_decode\<close> returns the metadata, \<open>*next0\<close> and \<open>*need_lookup\<close>.\<close>

definition ip4_decode :: "sf_wdata_t \<Rightarrow> nat \<Rightarrow> nat \<Rightarrow> sf_wdata_t \<times> nat \<times> u8" where
  "ip4_decode w next0 ip_frag_next =
    (let m = data_ptr w; p = cur_pos w;
         ip4_hdr_len0 = push_bit 2 (ucast (ip4_ipHeaderLen m p)) :: u16
     in if ip_wdata_cnt w \<ge> MAX_IP_WDATA then (w, SF_NEXT_NODE_SF_ACL_ENTRY, 0)
        else if current_length w < ip4_hdr_len0 then
          (set_packet_type w PACKET_TYPE_ERROR, SF_NEXT_NODE_SF_ACL_ENTRY, 0)
        else
          (let proto = m (p + 9);
               w = w\<lparr>ip_wdata_cnt := ip_wdata_cnt w + 1,
                     ip_wdata := update_ipv4_wdata (ip_wdata w) (current_data w)
                       (ld32 m (p + 12)) (ld32 m (p + 16)) proto ip4_hdr_len0
                       (clib_net_to_host_u16 (ld16 m (p + 2)) - ip4_hdr_len0) (ip4_is_frag m p)\<rparr>
           in if \<not> is_frag (ip_wdata w) then (sf_wqe_advance_wdata w ip4_hdr_len0, next0, proto)
              else (w, ip_frag_next, 0)))"

definition sf_ip4_get_next_index :: "u8 \<Rightarrow> nat" where
  "sf_ip4_get_next_index proto =
    (if proto = IP_PRO_UDP then SF_NEXT_NODE_UDP_INPUT
     else if proto = IP_PRO_TCP then SF_NEXT_NODE_TCP_INPUT
     else SF_NEXT_NODE_SF_ACL_ENTRY)"

definition sf_ip4_input_x1 :: "sf_wdata_t \<Rightarrow> sf_wdata_t \<times> nat" where
  "sf_ip4_input_x1 w =
    (let (w, next0, need_lookup) = ip4_decode w 0 SF_NEXT_NODE_IP_REASS
     in (w, if need_lookup \<noteq> 0 then sf_ip4_get_next_index need_lookup else next0))"

definition sf_ip4_input_x2 ::
  "sf_wdata_t \<Rightarrow> sf_wdata_t \<Rightarrow> (sf_wdata_t \<times> nat) \<times> (sf_wdata_t \<times> nat)" where
  "sf_ip4_input_x2 w0 w1 =
    (let (w0, next0, need_lookup_0) = ip4_decode w0 0 SF_NEXT_NODE_IP_REASS;
         (w1, next1, need_lookup_1) = ip4_decode w1 0 SF_NEXT_NODE_IP_REASS;
         next0 = (if need_lookup_0 \<noteq> 0 then sf_ip4_get_next_index need_lookup_0 else next0);
         next1 = (if need_lookup_1 \<noteq> 0 then sf_ip4_get_next_index need_lookup_1 else next1)
     in ((w0, next0), (w1, next1)))"

definition sf_ip4_input_node where
  "sf_ip4_input_node = packet_node sf_ip4_input_x2 sf_ip4_input_x1"

section \<open>IPv6\<close>

definition IP_PRO_HOPOPT :: u8 where "IP_PRO_HOPOPT = 0"
definition IP_PRO_ROUTING :: u8 where "IP_PRO_ROUTING = 43"
definition IP_PRO_IPV6_FRAG :: u8 where "IP_PRO_IPV6_FRAG = 44"
definition IP_PRO_AH :: u8 where "IP_PRO_AH = 51"
definition IP_PRO_DSTOPTS :: u8 where "IP_PRO_DSTOPTS = 60"
definition IP_PRO_INVALID :: u8 where "IP_PRO_INVALID = 0xff"
definition IPV6_HEADER_LEN :: u16 where "IPV6_HEADER_LEN = 40"
definition IPV6_FRAG_HEADER_LEN :: u16 where "IPV6_FRAG_HEADER_LEN = 8"

definition get_ip6_frag_flag :: "(int \<Rightarrow> u8) \<Rightarrow> int \<Rightarrow> u8" where
  "get_ip6_frag_flag m p = m (p + 3) AND 1"

definition get_ip6_frag_offset :: "(int \<Rightarrow> u8) \<Rightarrow> int \<Rightarrow> u16" where
  "get_ip6_frag_offset m p = push_bit 5 (ucast (m (p + 2))) OR ucast (drop_bit 3 (m (p + 3)))"

text \<open>
  The loop over the extension headers: \<open>p\<close> is \<open>pre_data\<close>; the result is \<open>*hdr_len\<close>, \<open>*is_frag\<close> and
  \<open>*protocol\<close>.
\<close>

function ip6_ext_loop :: "(int \<Rightarrow> u8) \<Rightarrow> int \<Rightarrow> u16 \<Rightarrow> u16 \<Rightarrow> u8 \<Rightarrow> u16 \<times> bool \<times> u8" where
  "ip6_ext_loop m p left_len hdr_len proto =
    (if proto = IP_PRO_IPV6_FRAG then
       if left_len \<le> IPV6_FRAG_HEADER_LEN then (hdr_len, False, IP_PRO_INVALID)
       else if get_ip6_frag_flag m p \<noteq> 0 \<or> get_ip6_frag_offset m p \<noteq> 0
       then (hdr_len + IPV6_FRAG_HEADER_LEN, True, m p)
       else ip6_ext_loop m (p + 8) (left_len - IPV6_FRAG_HEADER_LEN) (hdr_len + IPV6_FRAG_HEADER_LEN) (m p)
     else if proto = IP_PRO_AH then
       (let ext_hdr_len = push_bit 2 (ucast (m (p + 1)) + 2) :: u16
        in if left_len \<le> ext_hdr_len then (hdr_len, False, IP_PRO_INVALID)
           else ip6_ext_loop m (p + uint ext_hdr_len) (left_len - ext_hdr_len) (hdr_len + ext_hdr_len) (m p))
     else if proto = IP_PRO_HOPOPT \<or> proto = IP_PRO_ROUTING \<or> proto = IP_PRO_DSTOPTS then
       (let ext_hdr_len = push_bit 3 (ucast (m (p + 1)) + 1) :: u16
        in if left_len \<le> ext_hdr_len then (hdr_len, False, IP_PRO_INVALID)
           else ip6_ext_loop m (p + uint ext_hdr_len) (left_len - ext_hdr_len) (hdr_len + ext_hdr_len) (m p))
     else (hdr_len, False, proto))"
  by pat_completeness auto

lemma ext_len_AH: "unat (push_bit 2 (ucast (b :: u8) + 2) :: u16) = 4 * (unat b + 2)"
proof -
  have "unat b < 256" using unsigned_less [of b, where 'a = nat] by simp
  then show ?thesis by (simp add: push_bit_eq_mult unat_word_ariths unsigned_ucast_eq take_bit_nat_eq_self)
qed

lemma ext_len_opt: "unat (push_bit 3 (ucast (b :: u8) + 1) :: u16) = 8 * (unat b + 1)"
proof -
  have "unat b < 256" using unsigned_less [of b, where 'a = nat] by simp
  then show ?thesis by (simp add: push_bit_eq_mult unat_word_ariths unsigned_ucast_eq take_bit_nat_eq_self)
qed

lemma sub_less: "e \<noteq> 0 \<Longrightarrow> \<not> (l :: u16) \<le> e \<Longrightarrow> unat (l - e) < unat l"
  by (metis linear unat_sub word_le_nat_alt diff_less unat_gt_0 less_le_trans)

termination ip6_ext_loop
  by (relation "measure (\<lambda>(_, _, left_len, _). unat left_len)")
    (auto simp: IPV6_FRAG_HEADER_LEN_def intro!: sub_less dest!: arg_cong [of _ 0 unat]
      simp: ext_len_AH ext_len_opt)

declare ip6_ext_loop.simps [simp del]

text \<open>
  \<open>parse_ipv6_hdr\<close> returns the metadata, \<open>*hdr_len\<close>, \<open>*is_frag\<close> and \<open>*protocol\<close>; the C code leaves
  \<open>*hdr_len\<close> unset on a short packet and does not use it then.
\<close>

definition parse_ipv6_hdr :: "sf_wdata_t \<Rightarrow> sf_wdata_t \<times> u16 \<times> bool \<times> u8" where
  "parse_ipv6_hdr w =
    (if current_length w < IPV6_HEADER_LEN
     then (set_packet_type w PACKET_TYPE_ERROR, 0, False, IP_PRO_INVALID)
     else
       (let m = data_ptr w; p = cur_pos w;
            (hdr_len, frag, proto) = ip6_ext_loop m (p + 40) (current_length w - IPV6_HEADER_LEN)
               IPV6_HEADER_LEN (m (p + 6))
        in (if proto = IP_PRO_INVALID then set_packet_type w PACKET_TYPE_ERROR else w,
            hdr_len, frag, proto)))"

definition sf_ip6_get_next_index :: "nat \<Rightarrow> u8 \<Rightarrow> bool \<Rightarrow> nat" where
  "sf_ip6_get_next_index frag_next_index ip_proto frag =
    (if frag then frag_next_index
     else if ip_proto = IP_PRO_TCP then SF_NEXT_NODE_TCP_INPUT
     else if ip_proto = IP_PRO_UDP then SF_NEXT_NODE_UDP_INPUT
     else SF_NEXT_NODE_SF_ACL_ENTRY)"

definition ip6_src :: "(int \<Rightarrow> u8) \<Rightarrow> int \<Rightarrow> ip_addr_t" where
  "ip6_src m p = \<lparr>addr_v6_upper = ld64 m (p + 8), addr_v6_lower = ld64 m (p + 16)\<rparr>"

definition ip6_dst :: "(int \<Rightarrow> u8) \<Rightarrow> int \<Rightarrow> ip_addr_t" where
  "ip6_dst m p = \<lparr>addr_v6_upper = ld64 m (p + 24), addr_v6_lower = ld64 m (p + 32)\<rparr>"

text \<open>The part of the body that records the header and moves the window.\<close>

definition ip6_accept :: "sf_wdata_t \<Rightarrow> u16 \<Rightarrow> u16 \<Rightarrow> bool \<Rightarrow> u8 \<Rightarrow> sf_wdata_t \<times> nat" where
  "ip6_accept w hdr_len payload_len frag proto =
    (let m = data_ptr w; p = cur_pos w;
         w = w\<lparr>ip_wdata_cnt := ip_wdata_cnt w + 1,
               ip_wdata := update_ipv6_wdata (ip_wdata w) (current_data w) (ip6_src m p) (ip6_dst m p)
                             proto hdr_len payload_len frag\<rparr>;
         next0 = sf_ip6_get_next_index SF_NEXT_NODE_IP_REASS proto frag
     in (if \<not> frag then sf_wqe_advance_wdata w hdr_len else w, next0))"

definition sf_ip6_input_x1 :: "sf_wdata_t \<Rightarrow> sf_wdata_t \<times> nat" where
  "sf_ip6_input_x1 w =
    (let plen = clib_net_to_host_u16 (ld16 (data_ptr w) (cur_pos w + 4));
         (w, hdr_len0, frag0, proto0) = parse_ipv6_hdr w;
         payload_len0 = plen + IPV6_HEADER_LEN - hdr_len0
     in if ip_wdata_cnt w \<ge> MAX_IP_WDATA then (w, SF_NEXT_NODE_SF_ACL_ENTRY)
        else if proto0 = IP_PRO_INVALID then
          (set_packet_type w PACKET_TYPE_ERROR, SF_NEXT_NODE_SF_ACL_ENTRY)
        else ip6_accept w hdr_len0 payload_len0 frag0 proto0)"

text \<open>The two-packet body has no check of \<open>ip_wdata_cnt\<close>.\<close>

definition sf_ip6_input_x2 ::
  "sf_wdata_t \<Rightarrow> sf_wdata_t \<Rightarrow> (sf_wdata_t \<times> nat) \<times> (sf_wdata_t \<times> nat)" where
  "sf_ip6_input_x2 w0 w1 =
    (let plen0 = clib_net_to_host_u16 (ld16 (data_ptr w0) (cur_pos w0 + 4));
         plen1 = clib_net_to_host_u16 (ld16 (data_ptr w1) (cur_pos w1 + 4));
         (w0, hdr_len0, frag0, proto0) = parse_ipv6_hdr w0;
         (w1, hdr_len1, frag1, proto1) = parse_ipv6_hdr w1;
         payload_len0 = plen0 + IPV6_HEADER_LEN - hdr_len0;
         payload_len1 = plen1 + IPV6_HEADER_LEN - hdr_len1
     in (if proto0 \<noteq> IP_PRO_INVALID then ip6_accept w0 hdr_len0 payload_len0 frag0 proto0
         else (w0, SF_NEXT_NODE_SF_ACL_ENTRY),
         if proto1 \<noteq> IP_PRO_INVALID then ip6_accept w1 hdr_len1 payload_len1 frag1 proto1
         else (w1, SF_NEXT_NODE_SF_ACL_ENTRY)))"

definition sf_ip6_input_node where
  "sf_ip6_input_node = packet_node sf_ip6_input_x2 sf_ip6_input_x1"

section \<open>UDP and TCP\<close>

definition UDP_HEADER_LEN :: u16 where "UDP_HEADER_LEN = 8"

definition sf_udp_input_x1 :: "sf_wdata_t \<Rightarrow> sf_wdata_t \<times> nat" where
  "sf_udp_input_x1 w =
    (let src_port = ld16 (data_ptr w) (cur_pos w); dst_port = ld16 (data_ptr w) (cur_pos w + 2)
     in if current_length w \<ge> UDP_HEADER_LEN then
          (let w = update_l4_wdata w (current_data w) src_port dst_port 0 UDP_HEADER_LEN;
               w = set_arg1_to_next src_port w;
               w = set_arg2_to_next dst_port w
           in (sf_wqe_advance_wdata w UDP_HEADER_LEN, SF_NEXT_NODE_SF_ACL_ENTRY))
        else (set_packet_type w PACKET_TYPE_ERROR, SF_NEXT_NODE_SF_ACL_ENTRY))"

definition sf_udp_input_x2 ::
  "sf_wdata_t \<Rightarrow> sf_wdata_t \<Rightarrow> (sf_wdata_t \<times> nat) \<times> (sf_wdata_t \<times> nat)" where
  "sf_udp_input_x2 w0 w1 =
    (let src0 = ld16 (data_ptr w0) (cur_pos w0); dst0 = ld16 (data_ptr w0) (cur_pos w0 + 2);
         src1 = ld16 (data_ptr w1) (cur_pos w1); dst1 = ld16 (data_ptr w1) (cur_pos w1 + 2);
         r0 = (if current_length w0 \<ge> UDP_HEADER_LEN then
                 let w0 = update_l4_wdata w0 (current_data w0) src0 dst0 0 UDP_HEADER_LEN;
                     w0 = set_arg1_to_next src0 w0;
                     w0 = set_arg2_to_next dst0 w0
                 in (sf_wqe_advance_wdata w0 UDP_HEADER_LEN, SF_NEXT_NODE_SF_ACL_ENTRY)
               else (set_packet_type w0 PACKET_TYPE_ERROR, SF_NEXT_NODE_SF_ACL_ENTRY));
         r1 = (if current_length w1 \<ge> UDP_HEADER_LEN then
                 let w1 = update_l4_wdata w1 (current_data w1) src1 dst1 0 UDP_HEADER_LEN;
                     w1 = set_arg1_to_next src1 w1;
                     w1 = set_arg2_to_next dst1 w1
                 in (sf_wqe_advance_wdata w1 UDP_HEADER_LEN, SF_NEXT_NODE_SF_ACL_ENTRY)
               else (set_packet_type w1 PACKET_TYPE_ERROR, SF_NEXT_NODE_SF_ACL_ENTRY))
     in (r0, r1))"

definition sf_udp_input_node where
  "sf_udp_input_node = packet_node sf_udp_input_x2 sf_udp_input_x1"

definition sf_tcp_decode :: "sf_wdata_t \<Rightarrow> nat \<Rightarrow> sf_wdata_t \<times> nat" where
  "sf_tcp_decode w next0 =
    (let m = data_ptr w; p = cur_pos w;
         tcp_hdr_len0 = push_bit 2 (ucast (drop_bit 4 (m (p + 12)))) :: u16
     in if current_length w < tcp_hdr_len0
        then (set_packet_type w PACKET_TYPE_ERROR, SF_NEXT_NODE_SF_ACL_ENTRY)
        else
          (let src_port = ld16 m p; dst_port = ld16 m (p + 2);
               w = set_arg1_to_next src_port w;
               w = set_arg2_to_next dst_port w;
               w = update_l4_wdata w (current_data w) src_port dst_port 0 tcp_hdr_len0
           in (sf_wqe_advance_wdata w tcp_hdr_len0, next0)))"

definition sf_tcp_input_x1 :: "sf_wdata_t \<Rightarrow> sf_wdata_t \<times> nat" where
  "sf_tcp_input_x1 w = sf_tcp_decode w SF_NEXT_NODE_SF_ACL_ENTRY"

definition sf_tcp_input_x2 ::
  "sf_wdata_t \<Rightarrow> sf_wdata_t \<Rightarrow> (sf_wdata_t \<times> nat) \<times> (sf_wdata_t \<times> nat)" where
  "sf_tcp_input_x2 w0 w1 =
    (let r0 = sf_tcp_decode w0 SF_NEXT_NODE_SF_ACL_ENTRY;
         r1 = sf_tcp_decode w1 SF_NEXT_NODE_SF_ACL_ENTRY
     in (r0, r1))"

definition sf_tcp_input_node where
  "sf_tcp_input_node = packet_node sf_tcp_input_x2 sf_tcp_input_x1"

section \<open>Frames\<close>

interpretation eth: dual_packet_node sf_eth_input_x2 sf_eth_input_x1 "\<lambda>_. True"
  by unfold_locales (simp add: sf_eth_input_x2_def sf_eth_input_x1_def Let_def split: prod.splits)

interpretation ip4: dual_packet_node sf_ip4_input_x2 sf_ip4_input_x1 "\<lambda>_. True"
  by unfold_locales (simp add: sf_ip4_input_x2_def sf_ip4_input_x1_def split: prod.splits)

interpretation udp: dual_packet_node sf_udp_input_x2 sf_udp_input_x1 "\<lambda>_. True"
  by unfold_locales (simp add: sf_udp_input_x2_def sf_udp_input_x1_def Let_def)

interpretation tcp: dual_packet_node sf_tcp_input_x2 sf_tcp_input_x1 "\<lambda>_. True"
  by unfold_locales (simp add: sf_tcp_input_x2_def sf_tcp_input_x1_def)

lemma parse_ipv6_cnt: "parse_ipv6_hdr w = (w', r) \<Longrightarrow> ip_wdata_cnt w' = ip_wdata_cnt w"
  by (auto simp: parse_ipv6_hdr_def set_packet_type_def Let_def split: if_splits prod.splits)

lemma parse_ipv6_invalid:
  "parse_ipv6_hdr w = (w', l, f, IP_PRO_INVALID) \<Longrightarrow> set_packet_type w' PACKET_TYPE_ERROR = w'"
  by (auto simp: parse_ipv6_hdr_def set_packet_type_def Let_def or.assoc split: if_splits prod.splits)

text \<open>For IPv6 the two bodies agree on packets that have not passed an IP node before.\<close>

interpretation ip6: dual_packet_node sf_ip6_input_x2 sf_ip6_input_x1 "\<lambda>w. ip_wdata_cnt w = 0"
proof
  have one: "(case parse_ipv6_hdr w of (w', l, f, q) \<Rightarrow>
        if q \<noteq> IP_PRO_INVALID then ip6_accept w' l (n + IPV6_HEADER_LEN - l) f q
        else (w', SF_NEXT_NODE_SF_ACL_ENTRY)) = sf_ip6_input_x1 w"
    if "ip_wdata_cnt w = 0" "n = clib_net_to_host_u16 (ld16 (data_ptr w) (cur_pos w + 4))" for w n
    using parse_ipv6_cnt [of w] parse_ipv6_invalid [of w] that
    by (auto simp: sf_ip6_input_x1_def MAX_IP_WDATA_def Let_def split: prod.splits)
  fix a b :: sf_wdata_t assume "ip_wdata_cnt a = 0" "ip_wdata_cnt b = 0"
  from one [OF this(1) refl] one [OF this(2) refl]
  show "sf_ip6_input_x2 a b = (sf_ip6_input_x1 a, sf_ip6_input_x1 b)"
    by (cases "parse_ipv6_hdr a"; cases "parse_ipv6_hdr b") (simp add: sf_ip6_input_x2_def Let_def)
qed

section \<open>Windows\<close>

text \<open>What every decoding step keeps: the end of the packet and the offset of the layer-2 header.\<close>

definition keeps_packet :: "sf_wdata_t \<Rightarrow> sf_wdata_t \<Rightarrow> bool" where
  "keeps_packet w w' \<longleftrightarrow> pkt_end w' = pkt_end w \<and> l2_hdr_offset w' = l2_hdr_offset w
     \<and> data_ptr w' = data_ptr w"

lemma keeps_refl [simp]: "keeps_packet w w"
  by (simp add: keeps_packet_def)

lemma keeps_trans: "keeps_packet a b \<Longrightarrow> keeps_packet b c \<Longrightarrow> keeps_packet a c"
  by (simp add: keeps_packet_def)

lemma keeps_updates [simp]:
  "keeps_packet a (sf_wqe_advance_wdata w l) \<longleftrightarrow> keeps_packet a w"
  "keeps_packet a (set_packet_type w v) \<longleftrightarrow> keeps_packet a w"
  "keeps_packet a (update_vlan_wdata w off n) \<longleftrightarrow> keeps_packet a w"
  "keeps_packet a (update_l4_wdata w off sp dp pr hl) \<longleftrightarrow> keeps_packet a w"
  "keeps_packet a (set_arg1_to_next x w) \<longleftrightarrow> keeps_packet a w"
  "keeps_packet a (set_arg2_to_next x w) \<longleftrightarrow> keeps_packet a w"
  "keeps_packet a (w\<lparr>ip_wdata_cnt := c\<rparr>) \<longleftrightarrow> keeps_packet a w"
  "keeps_packet a (w\<lparr>ip_wdata := ipw\<rparr>) \<longleftrightarrow> keeps_packet a w"
  by (simp_all add: keeps_packet_def set_packet_type_def update_vlan_wdata_def
      update_l4_wdata_def set_arg1_to_next_def set_arg2_to_next_def pkt_end_def
      sf_wqe_advance_wdata_def)

lemma vlan_loop_keeps: "vlan_loop w n = (ty, c, w') \<Longrightarrow> keeps_packet w w'"
proof (induction w n arbitrary: ty c w' rule: vlan_loop.induct)
  case (1 w n)
  show ?case
  proof (cases "current_length w \<le> VLAN_HEADER_LEN \<or> \<not> is_vlan_type (ld16 (data_ptr w) (cur_pos w + 2))")
    case True
    then show ?thesis using 1(2) by (subst (asm) vlan_loop.simps) (auto simp: Let_def split: if_splits)
  next
    case False
    then have "vlan_loop (sf_wqe_advance_wdata w VLAN_HEADER_LEN) (n + 1) = (ty, c, w')"
      using 1(2) by (subst (asm) vlan_loop.simps) (simp add: Let_def)
    with 1(1) [of "ld16 (data_ptr w) (cur_pos w + 2)" "sf_wqe_advance_wdata w VLAN_HEADER_LEN"] False
    have "keeps_packet (sf_wqe_advance_wdata w VLAN_HEADER_LEN) w'" by simp
    then show ?thesis by (rule keeps_trans [rotated]) simp
  qed
qed

lemma eth_keeps: "keeps_packet w (fst (sf_eth_input_x1 w))"
proof -
  have "keeps_packet u (snd (parse_eth_hdr u ty))" for u ty
    using vlan_loop_keeps [of u 0]
    by (auto simp: parse_eth_hdr_def parse_vlan_hdr_only_def split: prod.splits option.splits)
  then have "keeps_packet w (snd (parse_eth_hdr (sf_wqe_advance_wdata w ETH_HEADER_LEN) ty))" for ty
    by (rule keeps_trans [rotated]) simp
  then show ?thesis by (simp add: sf_eth_input_x1_def Let_def case_prod_unfold)
qed

lemma ip4_keeps: "keeps_packet w (fst (sf_ip4_input_x1 w))"
  by (simp add: sf_ip4_input_x1_def ip4_decode_def Let_def)

lemma ip6_keeps: "keeps_packet w (fst (sf_ip6_input_x1 w))"
  by (auto simp: sf_ip6_input_x1_def parse_ipv6_hdr_def ip6_accept_def Let_def split: prod.splits if_splits)

lemma udp_keeps: "keeps_packet w (fst (sf_udp_input_x1 w))"
  by (simp add: sf_udp_input_x1_def Let_def)

lemma tcp_keeps: "keeps_packet w (fst (sf_tcp_input_x1 w))"
  by (simp add: sf_tcp_input_x1_def sf_tcp_decode_def Let_def)

lemmas decode_keeps = eth_keeps ip4_keeps ip6_keeps udp_keeps tcp_keeps

text \<open>A run through decoding nodes.\<close>

datatype decode_node = Eth | Ip4 | Ip6 | Udp | Tcp

fun decode_step :: "decode_node \<Rightarrow> sf_wdata_t \<Rightarrow> sf_wdata_t" where
  "decode_step Eth w = fst (sf_eth_input_x1 w)"
| "decode_step Ip4 w = fst (sf_ip4_input_x1 w)"
| "decode_step Ip6 w = fst (sf_ip6_input_x1 w)"
| "decode_step Udp w = fst (sf_udp_input_x1 w)"
| "decode_step Tcp w = fst (sf_tcp_input_x1 w)"

lemma decode_step_keeps: "keeps_packet w (decode_step d w)"
  by (cases d) (simp_all add: decode_keeps)

lemma decode_run_keeps: "keeps_packet w (fold decode_step ds w)"
  by (induction ds arbitrary: w) (auto intro: keeps_trans decode_step_keeps)

section \<open>Tags\<close>

text \<open>
  \<open>n + 1\<close> tags start at the window and the n-th has a type that is not again a tag.
\<close>

definition tags_at :: "sf_wdata_t \<Rightarrow> nat \<Rightarrow> bool" where
  "tags_at w n \<longleftrightarrow> (\<forall>i<n. is_vlan_type (ld16 (data_ptr w) (cur_pos w + 4 * int i + 2)))
     \<and> \<not> is_vlan_type (ld16 (data_ptr w) (cur_pos w + 4 * int n + 2))"

lemma advance_advance: "sf_wqe_advance_wdata (sf_wqe_advance_wdata w a) b = sf_wqe_advance_wdata w (a + b)"
  by (simp add: sf_wqe_advance_wdata_def algebra_simps)

lemma tag_fits: "4 < unat (current_length w) \<Longrightarrow> \<not> current_length w \<le> VLAN_HEADER_LEN"
  by (simp add: VLAN_HEADER_LEN_def word_le_nat_alt)

lemma vlan_step:
  assumes "window_ok w" "4 < unat (current_length w)"
  shows "window_ok (sf_wqe_advance_wdata w VLAN_HEADER_LEN)"
    "unat (current_length (sf_wqe_advance_wdata w VLAN_HEADER_LEN)) = unat (current_length w) - 4"
    "cur_pos (sf_wqe_advance_wdata w VLAN_HEADER_LEN) = cur_pos w + 4"
  using window_advance [OF assms(1), of VLAN_HEADER_LEN] assms(2) by (simp_all add: VLAN_HEADER_LEN_def)

lemma vlan_loop_tags:
  assumes "window_ok w" "tags_at w n" "4 * Suc n < unat (current_length w)"
  shows "vlan_loop w c = (Some (ld16 (data_ptr w) (cur_pos w + 4 * int n + 2)), c + of_nat (Suc n),
           sf_wqe_advance_wdata w (of_nat (4 * Suc n)))"
  using assms
proof (induction n arbitrary: w c)
  case 0
  then show ?case
    using tag_fits [of w] by (subst vlan_loop.simps) (simp add: tags_at_def Let_def VLAN_HEADER_LEN_def)
next
  case (Suc n)
  let ?w = "sf_wqe_advance_wdata w VLAN_HEADER_LEN"
  have fits: "4 < unat (current_length w)" using Suc.prems(3) by simp
  have first: "is_vlan_type (ld16 (data_ptr w) (cur_pos w + 2))"
    using Suc.prems(2) [unfolded tags_at_def, THEN conjunct1, rule_format, of 0] by simp
  have "tags_at ?w n"
    unfolding tags_at_def vlan_step(3) [OF Suc.prems(1) fits] advance_fields(2)
  proof (intro conjI allI impI)
    fix i assume "i < n"
    then show "is_vlan_type (ld16 (data_ptr w) (cur_pos w + 4 + 4 * int i + 2))"
      using Suc.prems(2) [unfolded tags_at_def, THEN conjunct1, rule_format, of "Suc i"]
      by (simp add: algebra_simps)
  next
    show "\<not> is_vlan_type (ld16 (data_ptr w) (cur_pos w + 4 + 4 * int n + 2))"
      using Suc.prems(2) [unfolded tags_at_def, THEN conjunct2] by (simp add: algebra_simps)
  qed
  then have "vlan_loop ?w (c + 1) = (Some (ld16 (data_ptr ?w) (cur_pos ?w + 4 * int n + 2)),
      c + 1 + of_nat (Suc n), sf_wqe_advance_wdata ?w (of_nat (4 * Suc n)))"
    using Suc.prems vlan_step [OF Suc.prems(1) fits] by (intro Suc.IH) simp_all
  then show ?case
    using tag_fits [OF fits] first vlan_step(3) [OF Suc.prems(1) fits]
    by (subst vlan_loop.simps)
      (simp add: Let_def advance_advance VLAN_HEADER_LEN_def algebra_simps)
qed

lemma vlan_loop_truncated:
  assumes "window_ok w"
    and "\<And>i. 4 * Suc i < unat (current_length w) \<Longrightarrow> is_vlan_type (ld16 (data_ptr w) (cur_pos w + 4 * int i + 2))"
  shows "fst (vlan_loop w c) = None"
  using assms
proof (induction w c rule: vlan_loop.induct)
  case (1 w c)
  show ?case
  proof (cases "current_length w \<le> VLAN_HEADER_LEN")
    case True
    then show ?thesis by (subst vlan_loop.simps) simp
  next
    case False
    then have fits: "4 < unat (current_length w)" by (simp add: VLAN_HEADER_LEN_def word_le_nat_alt)
    have first: "is_vlan_type (ld16 (data_ptr w) (cur_pos w + 2))" using 1(3) [of 0] fits by simp
    have "fst (vlan_loop (sf_wqe_advance_wdata w VLAN_HEADER_LEN) (c + 1)) = None"
    proof (rule 1(1) [OF False refl refl])
      show "\<not> \<not> is_vlan_type (ld16 (data_ptr w) (cur_pos w + 2))" using first by simp
      show "window_ok (sf_wqe_advance_wdata w VLAN_HEADER_LEN)" by (rule vlan_step(1) [OF 1(2) fits])
      show "is_vlan_type (ld16 (data_ptr (sf_wqe_advance_wdata w VLAN_HEADER_LEN))
          (cur_pos (sf_wqe_advance_wdata w VLAN_HEADER_LEN) + 4 * int i + 2))"
        if "4 * Suc i < unat (current_length (sf_wqe_advance_wdata w VLAN_HEADER_LEN))" for i
        using that 1(3) [of "Suc i"] vlan_step [OF 1(2) fits] by (simp add: algebra_simps)
    qed
    then show ?thesis using False first by (subst vlan_loop.simps) (simp add: Let_def)
  qed
qed

section \<open>IPv6 extension headers\<close>

lemma ip6_ext_loop_bounds:
  assumes "ip6_ext_loop m p l h q = (h', f, q')" "unat l + unat h < 2 ^ 16"
  shows "unat h \<le> unat h' \<and> unat h' \<le> unat h + unat l \<and> (f \<longrightarrow> unat h + 8 \<le> unat h')"
  using assms
proof (induction m p l h q arbitrary: h' f q' rule: ip6_ext_loop.induct)
  case (1 m p l h q)
  let ?goal = "\<lambda>h l. unat h \<le> unat h' \<and> unat h' \<le> unat h + unat l \<and> (f \<longrightarrow> unat h + 8 \<le> unat h')"
  let ?ah = "push_bit 2 (ucast (m (p + 1)) + 2) :: u16"
  let ?ext = "push_bit 3 (ucast (m (p + 1)) + 1) :: u16"
  have step: "unat (h + e) = unat h + unat e" "unat (l - e) = unat l - unat e" "unat e < unat l"
    if "\<not> l \<le> e" for e
    using 1(5) that by (simp_all add: unat_word_ariths unat_sub word_le_nat_alt)
  have rec: ?case if "\<not> l \<le> e" "unat (l - e) + unat (h + e) < 2 ^ 16 \<Longrightarrow> ?goal (h + e) (l - e)" for e
    using that(2) step [OF that(1)] 1(5) by auto
  note eq = 1(4) [unfolded ip6_ext_loop.simps [of m p l h q] Let_def]
  consider "q = IP_PRO_IPV6_FRAG" | "q = IP_PRO_AH" "q \<noteq> IP_PRO_IPV6_FRAG"
    | "q = IP_PRO_HOPOPT \<or> q = IP_PRO_ROUTING \<or> q = IP_PRO_DSTOPTS" "q \<noteq> IP_PRO_AH" "q \<noteq> IP_PRO_IPV6_FRAG"
    | "q \<noteq> IP_PRO_IPV6_FRAG" "q \<noteq> IP_PRO_AH" "\<not> (q = IP_PRO_HOPOPT \<or> q = IP_PRO_ROUTING \<or> q = IP_PRO_DSTOPTS)"
    by blast
  then show ?case
  proof cases
    case 1
    show ?thesis
    proof (cases "l \<le> IPV6_FRAG_HEADER_LEN")
      case True
      then show ?thesis using eq 1 by simp
    next
      case False
      show ?thesis
      proof (cases "get_ip6_frag_flag m p \<noteq> 0 \<or> get_ip6_frag_offset m p \<noteq> 0")
        case True
        then show ?thesis using eq 1 False step [OF False] by (auto simp: IPV6_FRAG_HEADER_LEN_def)
      next
        case nf: False
        show ?thesis
          using "1.IH"(1) [OF 1 False nf] eq nf 1 False by (intro rec [OF False]) simp
      qed
    qed
  next
    case 2
    show ?thesis
    proof (cases "l \<le> ?ah")
      case True
      then show ?thesis using eq 2 by simp
    next
      case False
      show ?thesis using "1.IH"(2) [OF 2(2,1) refl False] eq 2 False by (intro rec [OF False]) simp
    qed
  next
    case 3
    show ?thesis
    proof (cases "l \<le> ?ext")
      case True
      then show ?thesis using eq 3 by simp
    next
      case False
      show ?thesis using "1.IH"(3) [OF 3(3,2,1) refl False] eq 3 False by (intro rec [OF False]) simp
    qed
  next
    case 4
    then show ?thesis using eq by simp
  qed
qed

section \<open>Properties\<close>

definition ex_addr :: ip_addr_t where "ex_addr = \<lparr>addr_v6_upper = 0, addr_v6_lower = 0\<rparr>"

text \<open>A packet of \<open>n\<close> bytes with the given content; the window starts at the data pointer.\<close>

definition ex_wdata :: "(int \<Rightarrow> u8) \<Rightarrow> u16 \<Rightarrow> sf_wdata_t" where
  "ex_wdata m n = \<lparr>current_data = 0, current_length = n, interface_id = 1, interface_out = 0,
     l2_hdr_offset = 0, unused8 = 0, data_ptr = m, timestamp = 0, packet_type = 0,
     outer_vlan_id = 0, outer_ether_type = 0, ip_wdata_cnt = 0, l4_wdata_cnt = 0,
     vlan_wdata_cnt = 0, vlan_wdatas = \<lparr>vlan_offset = 0, inner_layer_count = 0\<rparr>, arg_to_next = 0,
     ip_wdata = \<lparr>ip_offset = 0, ip_version = 0, ip_protocol = 0, ip_header_len = 0,
        ip_payload_len = 0, sip = ex_addr, dip = ex_addr, is_frag = False, reass_over = 0\<rparr>,
     l4_wdata = \<lparr>l4_offset = 0, l4_sport = 0, l4_dport = 0, l4_header_len = 0\<rparr>\<rparr>"

text \<open>C18: On a frame of distinct buffers, with VPP choosing any positive room for its next frames,
  the Ethernet, IPv4, UDP and TCP nodes return after handling every buffer of the frame exactly
  once: each buffer's metadata is that of the one-packet body, and the buffers are enqueued in
  order, each to the next node its own packet selects.\<close>

theorem decode_nodes_frame:
  assumes "frames_ok fresh" "distinct from"
  shows "sf_eth_input_node fresh left from s = Some (handle_frame sf_eth_input_x1 from s)
    \<and> sf_ip4_input_node fresh left from s = Some (handle_frame sf_ip4_input_x1 from s)
    \<and> sf_udp_input_node fresh left from s = Some (handle_frame sf_udp_input_x1 from s)
    \<and> sf_tcp_input_node fresh left from s = Some (handle_frame sf_tcp_input_x1 from s)"
  unfolding sf_eth_input_node_def sf_ip4_input_node_def sf_udp_input_node_def sf_tcp_input_node_def
  using eth.packet_node_eq [OF assms] ip4.packet_node_eq [OF assms]
    udp.packet_node_eq [OF assms] tcp.packet_node_eq [OF assms]
  by simp

theorem decode_nodes_frame_witness:
  "sf_eth_input_node (\<lambda>_. 3) (\<lambda>t. t mod 3) [0, 1, 2, 3, 4] \<lparr>bufs = (\<lambda>_. ex_wdata (\<lambda>_. 8) 60), enq = []\<rparr>
    = Some (handle_frame sf_eth_input_x1 [0, 1, 2, 3, 4] \<lparr>bufs = (\<lambda>_. ex_wdata (\<lambda>_. 8) 60), enq = []\<rparr>)"
  using decode_nodes_frame [of "\<lambda>_. 3" "[0, 1, 2, 3, 4]" "\<lambda>t. t mod 3"] by (simp add: frames_ok_def)

text \<open>C19: The IPv6 node does the same for frames whose packets have not passed an IP node before;
  for a packet that has, the two bodies of the loop differ: the one-packet body leaves the recorded
  IP header alone, the two-packet body overwrites it.\<close>

theorem ip6_node_frame:
  assumes "frames_ok fresh" "distinct from"
  shows "((\<forall>x\<in>set from. ip_wdata_cnt (bufs s x) = 0) \<longrightarrow>
            sf_ip6_input_node fresh left from s = Some (handle_frame sf_ip6_input_x1 from s))
       \<and> (ip_wdata_cnt w = 1 \<longrightarrow> ip_wdata (fst (sf_ip6_input_x1 w)) = ip_wdata w
            \<and> (snd (snd (snd (parse_ipv6_hdr w))) \<noteq> IP_PRO_INVALID \<longrightarrow>
                 ip_wdata_cnt (fst (fst (sf_ip6_input_x2 w w'))) = 2
                 \<and> ip_offset (ip_wdata (fst (fst (sf_ip6_input_x2 w w')))) = current_data w))"
proof (intro conjI impI)
  assume "\<forall>x\<in>set from. ip_wdata_cnt (bufs s x) = 0"
  then show "sf_ip6_input_node fresh left from s = Some (handle_frame sf_ip6_input_x1 from s)"
    unfolding sf_ip6_input_node_def by (rule ip6.packet_node_eq [OF assms])
next
  assume c: "ip_wdata_cnt w = 1"
  have ipw: "ip_wdata (fst (parse_ipv6_hdr w)) = ip_wdata w"
    "current_data (fst (parse_ipv6_hdr w)) = current_data w"
    by (simp_all add: parse_ipv6_hdr_def set_packet_type_def Let_def case_prod_unfold)
  have cnt: "ip_wdata_cnt (fst (parse_ipv6_hdr w)) = 1"
    using parse_ipv6_cnt [of w] c by (cases "parse_ipv6_hdr w") auto
  show "ip_wdata (fst (sf_ip6_input_x1 w)) = ip_wdata w"
    using ipw(1) cnt by (simp add: sf_ip6_input_x1_def MAX_IP_WDATA_def Let_def case_prod_unfold)
  assume "snd (snd (snd (parse_ipv6_hdr w))) \<noteq> IP_PRO_INVALID"
  then show "ip_wdata_cnt (fst (fst (sf_ip6_input_x2 w w'))) = 2"
    "ip_offset (ip_wdata (fst (fst (sf_ip6_input_x2 w w')))) = current_data w"
    using cnt ipw(2)
    by (simp_all add: sf_ip6_input_x2_def ip6_accept_def update_ipv6_wdata_def Let_def case_prod_unfold
        sf_wqe_advance_wdata_def)
qed

theorem ip6_node_frame_witness:
  "sf_ip6_input_node (\<lambda>_. 2) (\<lambda>_. 0) [7, 8] \<lparr>bufs = (\<lambda>_. ex_wdata (\<lambda>_. 6) 60), enq = []\<rparr>
    = Some (handle_frame sf_ip6_input_x1 [7, 8] \<lparr>bufs = (\<lambda>_. ex_wdata (\<lambda>_. 6) 60), enq = []\<rparr>)"
  using ip6_node_frame [of "\<lambda>_. 2" "[7, 8]" "\<lparr>bufs = (\<lambda>_. ex_wdata (\<lambda>_. 6) 60), enq = []\<rparr>" "\<lambda>_. 0"]
  by (simp add: frames_ok_def ex_wdata_def)

text \<open>C20: Whatever decoding nodes a packet passes, the reset that the ACL node applies afterwards
  restores the window the packet had when it entered at its layer-2 header, exactly.\<close>

theorem decode_then_reset:
  assumes "current_data w = ucast (l2_hdr_offset w)"
  shows "current_data (sf_wqe_reset_wdata (fold decode_step ds w)) = current_data w
    \<and> current_length (sf_wqe_reset_wdata (fold decode_step ds w)) = current_length w
    \<and> data_ptr (sf_wqe_reset_wdata (fold decode_step ds w)) = data_ptr w"
proof -
  let ?v = "fold decode_step ds w"
  have k: "keeps_packet w ?v" by (rule decode_run_keeps)
  then have "current_length ?v = pkt_end w - current_data ?v"
    by (auto simp: keeps_packet_def pkt_end_def eq_diff_eq add.commute)
  then show ?thesis
    using k assms by (simp add: sf_wqe_reset_wdata_def keeps_packet_def pkt_end_def)
qed

theorem decode_then_reset_witness:
  "current_length (sf_wqe_reset_wdata (fold decode_step [Eth, Ip4, Udp] (ex_wdata (\<lambda>_. 8) 60))) = 60"
  using decode_then_reset [of "ex_wdata (\<lambda>_. 8) 60" "[Eth, Ip4, Udp]"] by (simp add: ex_wdata_def)

text \<open>Parsing VLAN tags.  With \<open>n + 1\<close> tags inside the packet, the parser returns the type
  behind the last tag, moves the window behind it, and records where the first tag was and how many
  there are (as an 8-bit count); if the packet ends before a type that is not a tag, it returns the
  invalid type 0.\<close>

theorem parse_vlan_correct:
  assumes "window_ok w"
  shows "(tags_at w n \<and> 4 * Suc n < unat (current_length w) \<and> Suc n < 256 \<longrightarrow>
            parse_vlan_hdr_only w =
              (ld16 (data_ptr w) (cur_pos w + 4 * int n + 2),
               update_vlan_wdata (sf_wqe_advance_wdata w (of_nat (4 * Suc n))) (current_data w) (of_nat (Suc n))))
       \<and> ((\<forall>i. 4 * Suc i < unat (current_length w) \<longrightarrow>
              is_vlan_type (ld16 (data_ptr w) (cur_pos w + 4 * int i + 2))) \<longrightarrow>
            fst (parse_vlan_hdr_only w) = ETHER_INVALID_TYPE)"
proof (intro conjI impI)
  assume n: "tags_at w n \<and> 4 * Suc n < unat (current_length w) \<and> Suc n < 256"
  have "unat (of_nat (Suc n) :: u8) = Suc n" using n by (simp add: unat_of_nat del: of_nat_Suc)
  then have "(of_nat (Suc n) :: u8) \<noteq> 0" by (metis nat.distinct(1) unat_0)
  then show "parse_vlan_hdr_only w =
      (ld16 (data_ptr w) (cur_pos w + 4 * int n + 2),
       update_vlan_wdata (sf_wqe_advance_wdata w (of_nat (4 * Suc n))) (current_data w) (of_nat (Suc n)))"
    using vlan_loop_tags [OF assms, of n 0] n by (simp add: parse_vlan_hdr_only_def del: of_nat_Suc)
next
  assume "\<forall>i. 4 * Suc i < unat (current_length w) \<longrightarrow>
      is_vlan_type (ld16 (data_ptr w) (cur_pos w + 4 * int i + 2))"
  then have "fst (vlan_loop w 0) = None" using vlan_loop_truncated [OF assms] by blast
  then show "fst (parse_vlan_hdr_only w) = ETHER_INVALID_TYPE"
    by (cases "vlan_loop w 0") (simp add: parse_vlan_hdr_only_def)
qed

theorem parse_vlan_correct_witness:
  "fst (parse_vlan_hdr_only (ex_wdata (\<lambda>i. if i = 2 then 0x81 else if i = 6 then 8 else 0) 40)) = ETHER_IPV4_NET_ORDER"
proof -
  let ?w = "ex_wdata (\<lambda>i. if i = 2 then 0x81 else if i = 6 then 8 else 0) 40"
  have w: "window_ok ?w" by (simp add: window_ok_def ex_wdata_def)
  have t: "tags_at ?w 1"
    by (simp add: tags_at_def ex_wdata_def cur_pos_def ld16_def is_vlan_type_def
        ETHER_VLAN_NET_ORDER_def ETHER_QINQ_NET_ORDER_def)
  show ?thesis
    using parse_vlan_correct [OF w, of 1] t
    by (simp add: ex_wdata_def cur_pos_def ld16_def ETHER_IPV4_NET_ORDER_def)
qed

lemma advance_le: "l \<le> current_length w \<Longrightarrow> current_length (sf_wqe_advance_wdata w l) \<le> current_length w"
  by (simp add: sf_wqe_advance_wdata_def word_le_nat_alt unat_sub)

lemma ip6_hdr_fits:
  assumes "parse_ipv6_hdr w = (w', hl, f, q)" "q \<noteq> IP_PRO_INVALID"
  shows "IPV6_HEADER_LEN \<le> hl \<and> hl \<le> current_length w"
proof -
  have len: "\<not> current_length w < IPV6_HEADER_LEN"
    using assms by (auto simp: parse_ipv6_hdr_def)
  then have loop: "ip6_ext_loop (data_ptr w) (cur_pos w + 40) (current_length w - IPV6_HEADER_LEN)
      IPV6_HEADER_LEN (data_ptr w (cur_pos w + 6)) = (hl, f, q)"
    using assms by (auto simp: parse_ipv6_hdr_def Let_def split: prod.splits)
  have eq: "unat (current_length w - IPV6_HEADER_LEN) + unat IPV6_HEADER_LEN = unat (current_length w)"
    using len by (simp add: unat_sub word_le_nat_alt word_less_nat_alt)
  then show ?thesis
    using ip6_ext_loop_bounds [OF loop] unsigned_less [of "current_length w", where 'a = nat]
    by (simp add: word_le_nat_alt)
qed

text \<open>C21: No decoding node above Ethernet moves the window past the end of the packet: after the
  IPv4, IPv6, UDP and TCP bodies the remaining length is at most what it was, because a header that
  does not fit is flagged as an error instead of being skipped; the loop over IPv6 extension headers
  always ends, with a header length between 40 and the bytes at hand.\<close>

theorem decode_in_bounds:
  "current_length (fst (sf_ip4_input_x1 w)) \<le> current_length w
   \<and> current_length (fst (sf_udp_input_x1 w)) \<le> current_length w
   \<and> current_length (fst (sf_tcp_input_x1 w)) \<le> current_length w
   \<and> current_length (fst (sf_ip6_input_x1 w)) \<le> current_length w"
proof (intro conjI)
  show "current_length (fst (sf_ip4_input_x1 w)) \<le> current_length w"
    by (auto simp: sf_ip4_input_x1_def ip4_decode_def Let_def set_packet_type_def not_less
        intro: order_trans [OF advance_le])
  show "current_length (fst (sf_udp_input_x1 w)) \<le> current_length w"
    by (auto simp: sf_udp_input_x1_def Let_def set_packet_type_def update_l4_wdata_def
        set_arg1_to_next_def set_arg2_to_next_def intro: order_trans [OF advance_le])
  show "current_length (fst (sf_tcp_input_x1 w)) \<le> current_length w"
    by (auto simp: sf_tcp_input_x1_def sf_tcp_decode_def Let_def set_packet_type_def update_l4_wdata_def
        set_arg1_to_next_def set_arg2_to_next_def not_less intro: order_trans [OF advance_le])
  obtain w' hl f q where p: "parse_ipv6_hdr w = (w', hl, f, q)" by (cases "parse_ipv6_hdr w") auto
  have cl: "current_length w' = current_length w"
    using p by (auto simp: parse_ipv6_hdr_def set_packet_type_def Let_def split: if_splits prod.splits)
  show "current_length (fst (sf_ip6_input_x1 w)) \<le> current_length w"
    using ip6_hdr_fits [OF p] p cl
    by (auto simp: sf_ip6_input_x1_def ip6_accept_def Let_def set_packet_type_def
        intro: order_trans [OF advance_le])
qed

text \<open>\<open>ip4_decode\<close> on a packet that has not passed an IP node: a header longer than the packet
  sets the error type and goes to the ACL node with nothing recorded; a fragment goes to reassembly
  with the window still on its header; any other packet is recorded, the window moves behind the
  header, and UDP and TCP go to their nodes and everything else to the ACL node.\<close>

theorem ip4_decode_correct:
  assumes "ip_wdata_cnt w = 0"
  defines "hl \<equiv> push_bit 2 (ucast (data_ptr w (cur_pos w) AND 0xF)) :: u16"
    and "proto \<equiv> data_ptr w (cur_pos w + 9)"
  shows "case sf_ip4_input_x1 w of (w', nxt) \<Rightarrow>
     (if current_length w < hl then
        has_packet_type w' PACKET_TYPE_ERROR \<and> ip_wdata_cnt w' = 0 \<and> nxt = SF_NEXT_NODE_SF_ACL_ENTRY
      else
        ip_wdata_cnt w' = 1 \<and> ip_protocol (ip_wdata w') = proto
      \<and> addr_v4 (sip (ip_wdata w')) = ld32 (data_ptr w) (cur_pos w + 12)
      \<and> addr_v4 (dip (ip_wdata w')) = ld32 (data_ptr w) (cur_pos w + 16)
      \<and> (if ip4_is_frag (data_ptr w) (cur_pos w)
         then nxt = SF_NEXT_NODE_IP_REASS \<and> current_data w' = current_data w \<and> current_length w' = current_length w
         else current_data w' = current_data w + hl \<and> current_length w' = current_length w - hl
           \<and> nxt = (if proto = IP_PRO_UDP then SF_NEXT_NODE_UDP_INPUT
                    else if proto = IP_PRO_TCP then SF_NEXT_NODE_TCP_INPUT else SF_NEXT_NODE_SF_ACL_ENTRY)))"
proof -
  have err: "has_packet_type (set_packet_type w PACKET_TYPE_ERROR) PACKET_TYPE_ERROR"
    by (simp add: has_set_packet_type PACKET_TYPE_ERROR_def)
  show ?thesis
    using err
    by (simp add: sf_ip4_input_x1_def ip4_decode_def Let_def hl_def proto_def assms(1) MAX_IP_WDATA_def
        ip4_ipHeaderLen_def update_ipv4_wdata_def addr_v4_set sf_wqe_advance_wdata_def set_packet_type_def
        sf_ip4_get_next_index_def IP_PRO_UDP_def IP_PRO_TCP_def SF_NEXT_NODE_SF_ACL_ENTRY_def)
qed

theorem ip4_decode_correct_witness:
  "snd (sf_ip4_input_x1 (ex_wdata (\<lambda>i. if i = 0 then 0x45 else if i = 9 then 0x11 else 0) 60))
    = SF_NEXT_NODE_UDP_INPUT"
  using ip4_decode_correct [of "ex_wdata (\<lambda>i. if i = 0 then 0x45 else if i = 9 then 0x11 else 0) 60"]
  by (simp add: ex_wdata_def cur_pos_def ip4_is_frag_def ip4_flags_def ip4_offset_5bit_def IP_PRO_UDP_def
      case_prod_unfold)

end
