(* ===== verification/Reass_Data.thy ===== *)
theory Reass_Data
  imports Pkt_Decode
begin

text \<open>
  Data of the IP reassembly plugin (\<open>src/ip_reass\<close>): the record each buffered fragment carries,
  the key and the state of a flow, the statistics.  Buffers are identified by their address; the
  conversion between a buffer pointer and its VPP index is one-to-one and left implicit.
\<close>

section \<open>Fragments\<close>

text \<open>A buffer: its metadata and its \<open>ip_reass_record_t\<close>.\<close>

record reass_buf =
  wd :: sf_wdata_t
  child_frag :: ptr
  next_frag :: ptr
  frag_offset :: u16
  frag_size :: u16
  ip_hdr_len :: u16
  rec_interface_id :: u8
  ip_reass_output :: u8
  followed_nodes_cnt :: u8

type_synonym reass_bufs = "addr \<Rightarrow> reass_buf"

definition is_reass_pkt :: "reass_buf \<Rightarrow> bool" where
  "is_reass_pkt b \<longleftrightarrow> unused8 (wd b) AND UNUSED8_FLAG_IP_REASS_PKT \<noteq> 0"

text \<open>What the fragments inherit from the reassembled packet.\<close>

definition update_frag_wdata :: "sf_wdata_t \<Rightarrow> sf_wdata_t \<Rightarrow> sf_wdata_t" where
  "update_frag_wdata frag_wdata reass_wdata =
    frag_wdata\<lparr>ip_wdata_cnt := ip_wdata_cnt reass_wdata, l4_wdata_cnt := l4_wdata_cnt reass_wdata,
               vlan_wdata_cnt := vlan_wdata_cnt reass_wdata, vlan_wdatas := vlan_wdatas reass_wdata,
               ip_wdata := ip_wdata reass_wdata, l4_wdata := l4_wdata reass_wdata\<rparr>"

section \<open>Flows\<close>

record key_ip_reass_t =
  key_sip :: ip_addr_t
  key_dip :: ip_addr_t
  ip_id :: u32
  ip_layer :: u32

text \<open>The bytes of the packed struct, which the table hashes and compares.\<close>

definition le_bytes :: "nat \<Rightarrow> 'a::len word \<Rightarrow> u8 list" where
  "le_bytes n x = map (\<lambda>i. ucast (drop_bit (8 * i) x)) [0..<n]"

definition addr_bytes :: "ip_addr_t \<Rightarrow> u8 list" where
  "addr_bytes a = le_bytes 8 (addr_v6_upper a) @ le_bytes 8 (addr_v6_lower a)"

definition key_bytes :: "key_ip_reass_t \<Rightarrow> u8 list" where
  "key_bytes k = addr_bytes (key_sip k) @ addr_bytes (key_dip k) @ le_bytes 4 (ip_id k) @ le_bytes 4 (ip_layer k)"

lemma length_le_bytes [simp]: "length (le_bytes n x) = n"
  by (simp add: le_bytes_def)

lemma length_addr_bytes [simp]: "length (addr_bytes a) = 16"
  by (simp add: addr_bytes_def)

lemma length_key_bytes [simp]: "length (key_bytes k) = 40"
  by (simp add: key_bytes_def)

lemma le_bytes_inject:
  fixes x y :: "'a::len word"
  assumes "le_bytes n x = le_bytes n y" "LENGTH('a) = 8 * n"
  shows "x = y"
proof (rule bit_word_eqI)
  fix i assume i: "i < LENGTH('a)"
  let ?q = "i div 8" and ?r = "i mod 8"
  have q: "?q < n" using i assms(2) by simp
  have "(ucast (drop_bit (8 * ?q) x) :: u8) = ucast (drop_bit (8 * ?q) y)"
    using arg_cong [OF assms(1), of "\<lambda>l. l ! ?q"] q by (simp add: le_bytes_def)
  then have "bit (ucast (drop_bit (8 * ?q) x) :: u8) ?r = bit (ucast (drop_bit (8 * ?q) y) :: u8) ?r"
    by simp
  then show "bit x i = bit y i" by (simp add: bit_simps)
qed

lemma addr_bytes_inject: "addr_bytes a = addr_bytes b \<Longrightarrow> a = b"
  unfolding addr_bytes_def
  by (auto dest!: le_bytes_inject intro: ip_addr_t.equality)

lemma key_bytes_inject: "key_bytes k = key_bytes k' \<longleftrightarrow> k = k'"
proof
  assume "key_bytes k = key_bytes k'"
  then show "k = k'"
    unfolding key_bytes_def
    by (auto dest!: le_bytes_inject addr_bytes_inject intro: key_ip_reass_t.equality)
qed simp

text \<open>The state of a flow.\<close>

record node_ip_reass_t =
  flow_key :: key_ip_reass_t
  frag_head :: ptr
  frag_tail :: ptr
  recv_new_pkt_in_interval :: u8
  cache_pkt_num :: u8
  recv_last_frag :: u16
  total_len :: u16
  meet_len :: u16
  flow_interface_id :: u32

definition zero_addr :: ip_addr_t where
  "zero_addr = \<lparr>addr_v6_upper = 0, addr_v6_lower = 0\<rparr>"

definition zero_key :: key_ip_reass_t where
  "zero_key = \<lparr>key_sip = zero_addr, key_dip = zero_addr, ip_id = 0, ip_layer = 0\<rparr>"

definition zero_flow :: node_ip_reass_t where
  "zero_flow = \<lparr>flow_key = zero_key, frag_head = None, frag_tail = None, recv_new_pkt_in_interval = 0,
     cache_pkt_num = 0, recv_last_frag = 0, total_len = 0, meet_len = 0, flow_interface_id = 0\<rparr>"

section \<open>Configuration and statistics\<close>

record reass_config =
  timeout_sec :: u32
  ip_reass_layers :: "u8 \<Rightarrow> u8"
  ip_reass_output_enable :: "u8 \<Rightarrow> u8"

definition IP_REASS_MAX_CACHE_PKTS :: nat where "IP_REASS_MAX_CACHE_PKTS = 10"
definition SF_HUGE_PKT_MAX_DATA_SIZE :: int where "SF_HUGE_PKT_MAX_DATA_SIZE = 16384 - 128"
definition VLIB_FRAME_SIZE :: nat where "VLIB_FRAME_SIZE = 256"

datatype reass_stat =
    ip_reass_pkt_success | ip_reass_pkt_fail | ip_reass_success | ip_reass_fail
  | ip_reass_fail_too_large | ip_reass_fail_too_many
  | ip_reass_timer_submit | ip_reass_timer_delete | ip_reass_timer_timeout

text \<open>\<open>local_stat[worker_index][interface_id - 1].member\<close>.\<close>

type_synonym reass_stats = "nat \<Rightarrow> u32 \<Rightarrow> reass_stat \<Rightarrow> u64"

definition update_ip_reass_stat :: "nat \<Rightarrow> u32 \<Rightarrow> reass_stat \<Rightarrow> reass_stats \<Rightarrow> reass_stats" where
  "update_ip_reass_stat worker_index intf member st =
    st(worker_index := (st worker_index)(intf :=
        (st worker_index intf)(member := st worker_index intf member + 1)))"

end
