(* ===== verification/Reass_Split.thy ===== *)
theory Reass_Split
  imports Reass_Data
begin

text \<open>
  Flattening the tree of buffered fragments into the array that is handed to the next nodes
  (\<open>split_frag_buffer_on_fail\<close> of \<open>ip_reass_tools.h\<close> and \<open>split_frag_buffer\<close> of
  \<open>ip_reass_forward.c\<close>).  A reassembled packet points to its first fragment, a fragment to its next
  sibling, and each carries the number of buffers below it.  The C code walks the array it is
  filling: at index i it writes the sibling behind the space reserved for the descendants and the
  child right behind.  It is shown to write exactly the preorder of the tree.  Array accesses are
  checked.
\<close>

section \<open>The loops\<close>

record split_state =
  sbs :: "reass_bufs \<times> reass_stats"
  sarr :: "addr list"
  snexts :: "nat list"

text \<open>
  The two C functions share the loop and differ in what they do to a leaf, in the next nodes, and
  in whether the end of the array is counted on the way (\<open>count_links\<close>) or known from the start.
\<close>

record split_cfg =
  count_links :: bool
  frag_next :: nat
  drop_next :: nat
  leaf_fix :: "nat \<Rightarrow> addr \<Rightarrow> reass_bufs \<times> reass_stats \<Rightarrow> reass_bufs \<times> reass_stats"

definition split_step :: "split_cfg \<Rightarrow> nat \<Rightarrow> split_state \<Rightarrow> (nat \<times> split_state) option" where
  "split_step c pre_index s =
    do { tmp \<leftarrow> arr_read (sarr s) pre_index;
         let b = fst (sbs s) tmp;
         (arr, brothers) \<leftarrow>
           (case next_frag b of
              None \<Rightarrow> Some (sarr s, 0)
            | Some brother \<Rightarrow>
                do { arr \<leftarrow> arr_write (sarr s) (pre_index + unat (followed_nodes_cnt b) + 1) brother;
                     Some (arr, 1) });
         if is_reass_pkt b then
           do { child \<leftarrow> child_frag b;
                arr \<leftarrow> arr_write arr (pre_index + 1) child;
                nexts \<leftarrow> arr_write (snexts s) pre_index (drop_next c);
                Some (brothers + 1, s\<lparr>sarr := arr, snexts := nexts\<rparr>) }
         else
           do { nexts \<leftarrow> arr_write (snexts s) pre_index (frag_next c);
                Some (brothers, s\<lparr>sarr := arr, snexts := nexts, sbs := leaf_fix c pre_index tmp (sbs s)\<rparr>) } }"

partial_function (option) split_loop ::
  "split_cfg \<Rightarrow> nat \<Rightarrow> nat \<Rightarrow> split_state \<Rightarrow> (nat \<times> split_state) option" where
  "split_loop c pre_index count s =
    (if pre_index = count then Some (count, s)
     else
       do { r \<leftarrow> split_step c pre_index s;
            split_loop c (pre_index + 1) (if count_links c then count + fst r else count) (snd r) })"

text \<open>\<open>split_frag_buffer_on_fail\<close>: \<open>b0\<close> is the first buffer of the flow.\<close>

definition fail_leaf :: "addr \<Rightarrow> nat \<Rightarrow> u32 \<Rightarrow> nat \<Rightarrow> addr \<Rightarrow> reass_bufs \<times> reass_stats \<Rightarrow> reass_bufs \<times> reass_stats" where
  "fail_leaf b0 worker_index intf pre_index tmp bs =
    (let bufs = fst bs;
         w = (if pre_index \<noteq> 0 then update_frag_wdata (wd (bufs tmp)) (wd (bufs b0)) else wd (bufs tmp))
     in (bufs(tmp := (bufs tmp)\<lparr>wd := sf_wqe_reset_wdata w\<rparr>),
         update_ip_reass_stat worker_index intf ip_reass_pkt_fail (snd bs)))"

definition split_frag_buffer_on_fail ::
  "addr \<Rightarrow> nat \<Rightarrow> u32 \<Rightarrow> nat \<Rightarrow> nat \<Rightarrow> split_state \<Rightarrow> (nat \<times> split_state) option" where
  "split_frag_buffer_on_fail b0 worker_index intf frag_next_index next_drop s =
    do { arr \<leftarrow> arr_write (sarr s) 0 b0;
         split_loop \<lparr>count_links = True, frag_next = frag_next_index, drop_next = next_drop,
                     leaf_fix = fail_leaf b0 worker_index intf\<rparr> 0 1 (s\<lparr>sarr := arr\<rparr>) }"

text \<open>\<open>split_frag_buffer\<close> of the forwarding node.\<close>

definition SF_NEXT_NODE_ACTION_ENTRY :: nat where "SF_NEXT_NODE_ACTION_ENTRY = 0"
definition FORWARD_NEXT_PKT_DROP :: nat where "FORWARD_NEXT_PKT_DROP = 1"

definition forward_leaf :: "addr \<Rightarrow> nat \<Rightarrow> u32 \<Rightarrow> nat \<Rightarrow> addr \<Rightarrow> reass_bufs \<times> reass_stats \<Rightarrow> reass_bufs \<times> reass_stats" where
  "forward_leaf b0 worker_index intf pre_index tmp bs =
    (let bufs = fst bs;
         w = update_frag_wdata (wd (bufs tmp)) (wd (bufs b0));
         w = w\<lparr>arg_to_next := arg_to_next (wd (bufs b0))\<rparr>
     in (bufs(tmp := (bufs tmp)\<lparr>wd := sf_wqe_reset_wdata w\<rparr>),
         update_ip_reass_stat worker_index intf ip_reass_pkt_success (snd bs)))"

definition split_frag_buffer :: "addr \<Rightarrow> nat \<Rightarrow> split_state \<Rightarrow> (nat \<times> split_state) option" where
  "split_frag_buffer b0 worker_index s =
    do { arr \<leftarrow> arr_write (sarr s) 0 b0;
         let bf = fst (sbs s) b0;
         let frag_next_index = (if arg_to_next (wd bf) = 0 then FORWARD_NEXT_PKT_DROP
                                else SF_NEXT_NODE_ACTION_ENTRY);
         let intf = ucast (rec_interface_id bf);
         (count, s) \<leftarrow>
           split_loop \<lparr>count_links = False, frag_next = frag_next_index, drop_next = FORWARD_NEXT_PKT_DROP,
                       leaf_fix = forward_leaf b0 worker_index intf\<rparr>
             0 (unat (followed_nodes_cnt bf) + 1) (s\<lparr>sarr := arr\<rparr>);
         let s = s\<lparr>sbs := (fst (sbs s), update_ip_reass_stat worker_index intf ip_reass_success (snd (sbs s)))\<rparr>;
         if ip_reass_output (fst (sbs s) b0) \<noteq> 0 then
           do { nexts \<leftarrow> arr_write (snexts s) 0 frag_next_index;
                Some (count, s\<lparr>snexts := nexts\<rparr>) }
         else Some (count, s) }"

section \<open>Trees\<close>

datatype ftree = FT (root: addr) (kids: "ftree list")

fun flat :: "ftree list \<Rightarrow> addr list" where
  "flat [] = []"
| "flat (FT a cs # ts) = a # flat cs @ flat ts"

definition first :: "ftree list \<Rightarrow> ptr" where
  "first ts = (case ts of [] \<Rightarrow> None | t # _ \<Rightarrow> Some (root t))"

text \<open>The buffers' links describe the forest.\<close>

fun forest_ok :: "reass_bufs \<Rightarrow> ftree list \<Rightarrow> bool" where
  "forest_ok B [] \<longleftrightarrow> True"
| "forest_ok B (FT a cs # ts) \<longleftrightarrow>
     next_frag (B a) = first ts \<and> length (flat cs) < 256
   \<and> followed_nodes_cnt (B a) = of_nat (length (flat cs))
   \<and> (is_reass_pkt (B a) \<longleftrightarrow> cs \<noteq> []) \<and> (cs \<noteq> [] \<longrightarrow> child_frag (B a) = first cs)
   \<and> forest_ok B cs \<and> forest_ok B ts"

definition same_links :: "reass_bufs \<Rightarrow> reass_bufs \<Rightarrow> bool" where
  "same_links B B' \<longleftrightarrow> (\<forall>a. next_frag (B' a) = next_frag (B a) \<and> child_frag (B' a) = child_frag (B a)
     \<and> followed_nodes_cnt (B' a) = followed_nodes_cnt (B a) \<and> is_reass_pkt (B' a) = is_reass_pkt (B a))"

lemma forest_ok_links: "same_links B B' \<Longrightarrow> forest_ok B' ts \<longleftrightarrow> forest_ok B ts"
  by (induction ts rule: flat.induct) (auto simp: same_links_def)

lemma same_links_refl: "same_links B B"
  by (simp add: same_links_def)

lemma same_links_trans: "same_links A B \<Longrightarrow> same_links B C \<Longrightarrow> same_links A C"
  by (simp add: same_links_def)

text \<open>The effect on the buffers and statistics: every leaf is treated once, in preorder.\<close>

fun fold_leaves :: "split_cfg \<Rightarrow> reass_bufs \<Rightarrow> nat \<Rightarrow> addr list \<Rightarrow> reass_bufs \<times> reass_stats \<Rightarrow> reass_bufs \<times> reass_stats" where
  "fold_leaves c B k [] bs = bs"
| "fold_leaves c B k (a # as) bs =
     fold_leaves c B (k + 1) as (if is_reass_pkt (B a) then bs else leaf_fix c k a bs)"

lemma fold_leaves_append:
  "fold_leaves c B k (as @ as') bs = fold_leaves c B (k + length as) as' (fold_leaves c B k as bs)"
  by (induction as arbitrary: k bs) auto

lemma fold_leaves_cong: "same_links B B' \<Longrightarrow> fold_leaves c B' k as bs = fold_leaves c B k as bs"
  by (induction as arbitrary: k bs) (auto simp: same_links_def)

definition leaf_keeps_links :: "split_cfg \<Rightarrow> bool" where
  "leaf_keeps_links c \<longleftrightarrow> (\<forall>k a bs. same_links (fst bs) (fst (leaf_fix c k a bs)))"

text \<open>Writing a list into an array, from an index on.\<close>

fun put :: "nat \<Rightarrow> 'a list \<Rightarrow> 'a list \<Rightarrow> 'a list" where
  "put k [] xs = xs"
| "put k (a # as) xs = put (k + 1) as (xs[k := a])"

lemma length_put [simp]: "length (put k as xs) = length xs"
  by (induction k as xs rule: put.induct) auto

lemma put_append: "put k (as @ bs) xs = put (k + length as) bs (put k as xs)"
  by (induction k as xs rule: put.induct) auto

lemma put_update_outside:
  "j < k \<or> k + length as \<le> j \<Longrightarrow> put k as (xs[j := b]) = (put k as xs)[j := b]"
proof (induction k as xs rule: put.induct)
  case (2 k a as xs)
  then have "j \<noteq> k" by auto
  then show ?case using 2 by (auto simp: list_update_swap)
qed simp

lemma put_nth_outside: "j < k \<or> k + length as \<le> j \<Longrightarrow> put k as xs ! j = xs ! j"
  by (induction k as xs rule: put.induct) auto

lemma put_eq: "k + length as \<le> length xs \<Longrightarrow> put k as xs = take k xs @ as @ drop (k + length as) xs"
proof (induction k as xs rule: put.induct)
  case (2 k a as xs)
  then have "put k (a # as) xs = take (k + 1) (xs[k := a]) @ as @ drop (k + 1 + length as) (xs[k := a])"
    by simp
  then show ?case using 2(2) by (simp add: take_Suc_conv_app_nth)
qed simp

section \<open>The loop writes the preorder\<close>

definition next_of :: "split_cfg \<Rightarrow> reass_bufs \<Rightarrow> addr \<Rightarrow> nat" where
  "next_of c B a = (if is_reass_pkt (B a) then drop_next c else frag_next c)"

definition split_result :: "split_cfg \<Rightarrow> nat \<Rightarrow> addr list \<Rightarrow> split_state \<Rightarrow> split_state" where
  "split_result c k as s =
    \<lparr>sbs = fold_leaves c (fst (sbs s)) k as (sbs s), sarr = put k as (sarr s),
     snexts = put k (map (next_of c (fst (sbs s))) as) (snexts s)\<rparr>"

lemma split_result_Nil [simp]: "split_result c k [] s = s"
  by (simp add: split_result_def)

definition split_room :: "nat \<Rightarrow> split_state \<Rightarrow> bool" where
  "split_room n s \<longleftrightarrow> n \<le> length (sarr s) \<and> n \<le> length (snexts s)"

lemma first_Cons [simp]: "first (t # ts) = Some (root t)" "first [] = None"
  by (simp_all add: first_def)

lemma first_eq_Some: "ts \<noteq> [] \<Longrightarrow> first ts = Some (root (hd ts))"
  by (cases ts) auto

lemma flat_hd: "ts \<noteq> [] \<Longrightarrow> \<exists>as. flat ts = root (hd ts) # as"
  by (cases ts rule: flat.cases) auto

lemma fold_leaves_links:
  "leaf_keeps_links c \<Longrightarrow> same_links (fst bs) (fst (fold_leaves c B k as bs))"
proof (induction as arbitrary: k bs)
  case Nil
  then show ?case by (simp add: same_links_refl)
next
  case (Cons a as)
  let ?bs = "if is_reass_pkt (B a) then bs else leaf_fix c k a bs"
  have "same_links (fst bs) (fst ?bs)"
    using Cons.prems by (cases bs; cases "is_reass_pkt (B a)") (simp_all add: leaf_keeps_links_def same_links_refl)
  then have "same_links (fst bs) (fst (fold_leaves c B (k + 1) as ?bs))"
    by (rule same_links_trans) (rule Cons.IH [OF Cons.prems])
  then show ?case by simp
qed

definition after_step :: "split_cfg \<Rightarrow> nat \<Rightarrow> addr \<Rightarrow> ftree list \<Rightarrow> ftree list \<Rightarrow> split_state \<Rightarrow> split_state" where
  "after_step c k a cs ts s =
    (let arr = (if ts = [] then sarr s else (sarr s)[k + 1 + length (flat cs) := root (hd ts)])
     in \<lparr>sbs = (if is_reass_pkt (fst (sbs s) a) then sbs s else leaf_fix c k a (sbs s)),
         sarr = (if cs = [] then arr else arr[k + 1 := root (hd cs)]),
         snexts = (snexts s)[k := next_of c (fst (sbs s)) a]\<rparr>)"

definition links :: "ftree list \<Rightarrow> nat" where
  "links ts = (if ts = [] then 0 else 1)"

lemma split_step_forest:
  assumes "forest_ok (fst (sbs s)) (FT a cs # ts)" "sarr s ! k = a"
    "split_room (k + length (flat (FT a cs # ts))) s"
  shows "split_step c k s = Some (links ts + links cs, after_step c k a cs ts s)"
proof -
  have flats: "ts \<noteq> [] \<Longrightarrow> length (flat ts) \<ge> 1" "cs \<noteq> [] \<Longrightarrow> length (flat cs) \<ge> 1"
    using flat_hd by fastforce+
  have room: "Suc k < length (sarr s)" if "ts \<noteq> [] \<or> cs \<noteq> []"
    using that flats assms(3) by (auto simp: split_room_def)
  have brother: "Suc (k + length (flat cs)) < length (sarr s)" if "ts \<noteq> []"
    using that flats(1) assms(3) by (auto simp: split_room_def)
  have here: "k < length (sarr s)" "k < length (snexts s)"
    using assms(3) by (auto simp: split_room_def)
  have cnt: "unat (followed_nodes_cnt (fst (sbs s) a)) = length (flat cs)"
    using assms(1) by (simp add: unat_of_nat)
  show ?thesis
    using assms(1,2) room brother here cnt
    by (cases "ts = []"; cases "cs = []")
      (simp_all add: split_step_def arr_simps first_eq_Some after_step_def links_def next_of_def
        split_state.equality Let_def)
qed

lemma after_step_put:
  "put (k + 1 + length (flat cs)) (flat ts) (put (k + 1) (flat cs) (sarr (after_step c k a cs ts s)))
    = put (k + 1) (flat cs @ flat ts) (sarr s)"
proof -
  let ?j = "k + 1 + length (flat cs)"
  have cs: "put (k + 1) (flat cs) (if cs = [] then xs else xs[k + 1 := root (hd cs)]) = put (k + 1) (flat cs) xs" for xs
  proof (cases "cs = []")
    case False
    then obtain as where "flat cs = root (hd cs) # as" using flat_hd by blast
    then show ?thesis using False by simp
  qed simp
  have ts: "put ?j (flat ts) (if ts = [] then xs else xs[?j := root (hd ts)]) = put ?j (flat ts) xs" for xs
  proof (cases "ts = []")
    case False
    then obtain as where "flat ts = root (hd ts) # as" using flat_hd by blast
    then show ?thesis using False by simp
  qed simp
  have "put (k + 1) (flat cs) (if ts = [] then xs else xs[?j := root (hd ts)])
    = (if ts = [] then put (k + 1) (flat cs) xs else (put (k + 1) (flat cs) xs)[?j := root (hd ts)])" for xs
    by (simp add: put_update_outside)
  then show ?thesis by (simp only: after_step_def Let_def split_state.simps cs ts put_append)
qed

lemma after_step_links:
  "leaf_keeps_links c \<Longrightarrow> same_links (fst (sbs s)) (fst (sbs (after_step c k a cs ts s)))"
  using fold_leaves_links [of c "sbs s" "fst (sbs s)" k "[a]"] by (simp add: after_step_def Let_def)

lemma split_result_sbs:
  "same_links (fst (sbs s)) B \<Longrightarrow>
    split_result c k as s = \<lparr>sbs = fold_leaves c B k as (sbs s), sarr = put k as (sarr s),
      snexts = put k (map (next_of c B) as) (snexts s)\<rparr>"
  by (simp add: split_result_def fold_leaves_cong next_of_def same_links_def cong: map_cong)

text \<open>Running over one tree's root, then its subtrees, then its siblings.\<close>

lemma split_result_step:
  assumes "leaf_keeps_links c" "sarr s ! k = a"
  shows "split_result c (k + 1 + length (flat cs)) (flat ts)
      (split_result c (k + 1) (flat cs) (after_step c k a cs ts s)) = split_result c k (flat (FT a cs # ts)) s"
    (is "split_result c ?j (flat ts) (split_result c (k + 1) (flat cs) ?t) = _")
proof -
  let ?B = "fst (sbs s)"
  have l1: "same_links ?B (fst (sbs ?t))" by (rule after_step_links [OF assms(1)])
  have l2: "same_links ?B (fst (sbs (split_result c (k + 1) (flat cs) ?t)))"
    using same_links_trans [OF l1] fold_leaves_links [OF assms(1)] by (simp add: split_result_def)
  have sym: "same_links A B \<Longrightarrow> same_links B A" for A B by (simp add: same_links_def)
  have a: "(sarr s)[k := a] = sarr s" using assms(2) list_update_id by blast
  show ?thesis
    unfolding split_result_sbs [OF sym [OF l2]]
    unfolding split_result_sbs [OF sym [OF l1]] split_result_sbs [OF same_links_refl [of ?B]]
    by (rule split_state.equality)
      (simp_all only: split_state.simps after_step_put flat.simps list.map map_append put_append put.simps
        fold_leaves_append fold_leaves.simps length_map a, simp_all add: after_step_def Let_def put_append)
qed

lemma split_room_step [simp]:
  "split_room n (after_step c k a cs ts s) = split_room n s" "split_room n (split_result c k as s) = split_room n s"
  by (simp_all add: split_room_def after_step_def split_result_def Let_def)

text \<open>
  From the root of the first tree on, the loop runs over the whole forest.  \<open>count\<close> is far enough
  ahead all the time: it grows with every link found, or it is known from the start.
\<close>

definition count_ok :: "split_cfg \<Rightarrow> nat \<Rightarrow> nat \<Rightarrow> nat \<Rightarrow> bool" where
  "count_ok c k n count \<longleftrightarrow> (if count_links c then k < count else k + n \<le> count)"

definition count_after :: "split_cfg \<Rightarrow> nat \<Rightarrow> nat \<Rightarrow> nat" where
  "count_after c n count = (if count_links c then count + n else count)"

lemma split_loop_forest:
  assumes "leaf_keeps_links c"
  shows "forest_ok (fst (sbs s)) ts \<Longrightarrow> ts \<noteq> [] \<Longrightarrow> sarr s ! k = root (hd ts)
    \<Longrightarrow> split_room (k + length (flat ts)) s \<Longrightarrow> count_ok c k (length (flat ts)) count
    \<Longrightarrow> split_loop c k count s
        = split_loop c (k + length (flat ts)) (count_after c (length (flat ts) - 1) count) (split_result c k (flat ts) s)"
proof (induction ts arbitrary: k count s rule: flat.induct)
  case (2 a cs ts)
  let ?n = "length (flat cs)" and ?m = "length (flat ts)"
  let ?t = "after_step c k a cs ts s" and ?u = "split_result c (k + 1) (flat cs) (after_step c k a cs ts s)"
  let ?c1 = "count_after c (links ts + links cs) count"
  let ?c2 = "count_after c (links ts + ?n) count"
  have links: "cs \<noteq> [] \<Longrightarrow> ?n \<ge> 1" "ts \<noteq> [] \<Longrightarrow> ?m \<ge> 1" using flat_hd by fastforce+
  have ok: "forest_ok (fst (sbs s)) cs" "forest_ok (fst (sbs s)) ts" using "2.prems"(1) by simp_all
  have lt: "same_links (fst (sbs s)) (fst (sbs ?t))" by (rule after_step_links [OF assms])
  have lu: "same_links (fst (sbs s)) (fst (sbs ?u))"
    using same_links_trans [OF lt] fold_leaves_links [OF assms] by (simp add: split_result_def)
  have "k \<noteq> count" using "2.prems"(5) by (auto simp: count_ok_def split: if_splits)
  then have step: "split_loop c k count s = split_loop c (k + 1) ?c1 ?t"
    using split_step_forest [OF "2.prems"(1), of k c] "2.prems"(3,4)
    by (subst split_loop.simps) (simp add: count_after_def)
  have kids: "split_loop c (k + 1) ?c1 ?t = split_loop c (k + 1 + ?n) ?c2 ?u"
  proof (cases "cs = []")
    case True
    then show ?thesis by (simp add: links_def)
  next
    case False
    have "sarr ?t ! (k + 1) = root (hd cs)"
      using False "2.prems"(4) links by (auto simp: after_step_def Let_def split_room_def)
    then have "split_loop c (k + 1) ?c1 ?t
      = split_loop c (k + 1 + ?n) (count_after c (?n - 1) ?c1) ?u"
      using False "2.prems"(4,5) ok(1) forest_ok_links [OF lt]
      by (intro "2.IH"(1)) (auto simp: count_ok_def count_after_def links_def split_room_def after_step_def Let_def split: if_splits)
    also have "count_after c (?n - 1) ?c1 = ?c2"
      using False links(1) by (auto simp: count_after_def links_def)
    finally show ?thesis .
  qed
  show ?case
  proof (cases "ts = []")
    case True
    then show ?thesis
      using step kids split_result_step [OF assms, of s k a cs ts] "2.prems"(3)
      by (simp add: links_def)
  next
    case False
    have "sarr ?u ! (k + 1 + ?n) = sarr ?t ! (k + 1 + ?n)"
      by (simp add: split_result_def put_nth_outside)
    also have "\<dots> = root (hd ts)"
      using False "2.prems"(4) links by (auto simp: after_step_def Let_def split_room_def nth_list_update)
    finally have at: "sarr ?u ! (k + 1 + ?n) = root (hd ts)" .
    have "split_loop c (k + 1 + ?n) ?c2 ?u
      = split_loop c (k + 1 + ?n + ?m) (count_after c (?m - 1) ?c2) (split_result c (k + 1 + ?n) (flat ts) ?u)"
      using False "2.prems"(4,5) ok(2) forest_ok_links [OF lu]
      by (intro "2.IH"(2) at) (auto simp: add.assoc count_ok_def count_after_def links_def split: if_splits)
    also have "count_after c (?m - 1) ?c2 = count_after c (length (flat (FT a cs # ts)) - 1) count"
      using False links(2) by (auto simp: count_after_def links_def)
    finally show ?thesis
      using step kids split_result_step [OF assms, of s k a cs ts] "2.prems"(3) by (simp add: add.assoc)
  qed
qed simp

section \<open>What happens to the buffers\<close>

text \<open>
  A leaf \<open>a\<close> gets metadata computed by \<open>G\<close> from the first buffer \<open>b0\<close> and its own, and is counted.
  \<open>b0\<close> may be a leaf itself; \<open>G\<close> reads nothing of it that \<open>G\<close> changes.
\<close>

definition leaf_apply ::
  "(sf_wdata_t \<Rightarrow> sf_wdata_t \<Rightarrow> sf_wdata_t) \<Rightarrow> addr \<Rightarrow> (reass_stats \<Rightarrow> reass_stats) \<Rightarrow> addr
    \<Rightarrow> reass_bufs \<times> reass_stats \<Rightarrow> reass_bufs \<times> reass_stats" where
  "leaf_apply G b0 bump a bs =
    ((fst bs)(a := (fst bs a)\<lparr>wd := G (wd (fst bs b0)) (wd (fst bs a))\<rparr>), bump (snd bs))"

lemma fold_leaves_effect:
  assumes "\<And>w w'. G (G w w) w' = G w w'"
  shows "distinct as \<Longrightarrow> (\<And>i bs. i < length as \<Longrightarrow> leaf_fix c (k + i) (as ! i) bs = leaf_apply G b0 bump (as ! i) bs)
    \<Longrightarrow> fold_leaves c B k as bs =
      ((\<lambda>x. if x \<in> set as \<and> \<not> is_reass_pkt (B x) then (fst bs x)\<lparr>wd := G (wd (fst bs b0)) (wd (fst bs x))\<rparr>
            else fst bs x),
       (bump ^^ length (filter (\<lambda>x. \<not> is_reass_pkt (B x)) as)) (snd bs))"
proof (induction as arbitrary: k bs)
  case (Cons a as)
  let ?bs = "if is_reass_pkt (B a) then bs else leaf_apply G b0 bump a bs"
  have tl: "leaf_fix c (k + 1 + i) (as ! i) bs = leaf_apply G b0 bump (as ! i) bs" if "i < length as" for i bs
    using Cons.prems(2) [of "Suc i"] that by simp
  have "fold_leaves c B k (a # as) bs = fold_leaves c B (k + 1) as ?bs"
    using Cons.prems(2) [of 0] by simp
  also note Cons.IH [OF _ tl, of ?bs]
  finally show ?case
    using Cons.prems(1) assms by (auto simp: leaf_apply_def fun_eq_iff funpow_swap1)
qed simp

lemma stat_funpow:
  "(update_ip_reass_stat w i m ^^ n) st =
    st(w := (st w)(i := (st w i)(m := st w i m + of_nat n)))"
  by (induction n) (auto simp: update_ip_reass_stat_def fun_eq_iff algebra_simps)

definition heir :: "sf_wdata_t \<Rightarrow> sf_wdata_t \<Rightarrow> sf_wdata_t" where
  "heir w0 w = sf_wqe_reset_wdata (update_frag_wdata w w0)"

definition heir_arg :: "sf_wdata_t \<Rightarrow> sf_wdata_t \<Rightarrow> sf_wdata_t" where
  "heir_arg w0 w = sf_wqe_reset_wdata ((update_frag_wdata w w0)\<lparr>arg_to_next := arg_to_next w0\<rparr>)"

lemma update_frag_wdata_self [simp]: "update_frag_wdata w w = w"
  by (simp add: update_frag_wdata_def)

lemma heir_heir: "heir (heir w w) w' = heir w w'" "heir_arg (heir_arg w w) w' = heir_arg w w'"
  by (simp_all add: heir_def heir_arg_def update_frag_wdata_def sf_wqe_reset_wdata_def)

lemma fail_leaf_apply:
  "(k = 0 \<Longrightarrow> a = b0) \<Longrightarrow>
    fail_leaf b0 w i k a bs = leaf_apply heir b0 (update_ip_reass_stat w i ip_reass_pkt_fail) a bs"
  by (cases "k = 0") (simp_all add: fail_leaf_def leaf_apply_def heir_def Let_def)

lemma forward_leaf_apply:
  "forward_leaf b0 w i k a bs = leaf_apply heir_arg b0 (update_ip_reass_stat w i ip_reass_pkt_success) a bs"
  by (simp add: forward_leaf_def leaf_apply_def heir_arg_def Let_def)

lemma leaf_apply_links:
  assumes "\<And>w w'. unused8 (G w w') = unused8 w'"
  shows "same_links (fst bs) (fst (leaf_apply G b0 bump a bs))"
  using assms by (simp add: same_links_def leaf_apply_def is_reass_pkt_def)

lemma fail_leaf_links:
  "leaf_keeps_links \<lparr>count_links = cl, frag_next = f, drop_next = d, leaf_fix = fail_leaf b0 w i\<rparr>"
  by (simp add: leaf_keeps_links_def fail_leaf_def same_links_def is_reass_pkt_def Let_def
      update_frag_wdata_def sf_wqe_reset_wdata_def)

lemma forward_leaf_links:
  "leaf_keeps_links \<lparr>count_links = cl, frag_next = f, drop_next = d, leaf_fix = forward_leaf b0 w i\<rparr>"
  by (simp add: leaf_keeps_links_def forward_leaf_def same_links_def is_reass_pkt_def Let_def
      update_frag_wdata_def sf_wqe_reset_wdata_def)

text \<open>The buffers and statistics that a split should leave behind.\<close>

definition split_bufs ::
  "(sf_wdata_t \<Rightarrow> sf_wdata_t \<Rightarrow> sf_wdata_t) \<Rightarrow> addr \<Rightarrow> addr list \<Rightarrow> reass_bufs \<Rightarrow> reass_bufs" where
  "split_bufs G b0 as B = (\<lambda>x. if x \<in> set as \<and> \<not> is_reass_pkt (B x)
     then (B x)\<lparr>wd := G (wd (B b0)) (wd (B x))\<rparr> else B x)"

definition split_stats :: "nat \<Rightarrow> u32 \<Rightarrow> reass_stat \<Rightarrow> reass_bufs \<Rightarrow> addr list \<Rightarrow> reass_stats \<Rightarrow> reass_stats" where
  "split_stats w i m B as st =
    (let n = length (filter (\<lambda>x. \<not> is_reass_pkt (B x)) as)
     in st(w := (st w)(i := (st w i)(m := st w i m + of_nat n))))"

lemma fail_fold:
  assumes "distinct (b0 # as)"
  shows "fold_leaves \<lparr>count_links = cl, frag_next = f, drop_next = d, leaf_fix = fail_leaf b0 w i\<rparr> (fst bs) 0 (b0 # as) bs
    = (split_bufs heir b0 (b0 # as) (fst bs), split_stats w i ip_reass_pkt_fail (fst bs) (b0 # as) (snd bs))"
  by (subst fold_leaves_effect [OF heir_heir(1) assms, where ?b0.0 = b0 and bump = "update_ip_reass_stat w i ip_reass_pkt_fail"])
    (auto simp: split_bufs_def split_stats_def stat_funpow Let_def nth_Cons split: nat.splits intro!: fail_leaf_apply)

lemma forward_fold:
  assumes "distinct as"
  shows "fold_leaves \<lparr>count_links = cl, frag_next = f, drop_next = d, leaf_fix = forward_leaf b0 w i\<rparr> (fst bs) 0 as bs
    = (split_bufs heir_arg b0 as (fst bs), split_stats w i ip_reass_pkt_success (fst bs) as (snd bs))"
  by (subst fold_leaves_effect [OF heir_heir(2) assms, where ?b0.0 = b0 and bump = "update_ip_reass_stat w i ip_reass_pkt_success"])
    (auto simp: split_bufs_def split_stats_def stat_funpow Let_def forward_leaf_apply)

section \<open>The two functions\<close>

text \<open>A reassembled buffer 0 with the two fragments 1 and 2, for the examples below.\<close>

definition ex_rbuf :: "u8 \<Rightarrow> ptr \<Rightarrow> ptr \<Rightarrow> u8 \<Rightarrow> reass_buf" where
  "ex_rbuf fl child nxt cnt = \<lparr>wd = (ex_wdata (\<lambda>_. 0) 60)\<lparr>unused8 := fl\<rparr>, child_frag = child, next_frag = nxt,
     frag_offset = 0, frag_size = 0, ip_hdr_len = 20, rec_interface_id = 1, ip_reass_output = 0, followed_nodes_cnt = cnt\<rparr>"

definition ex_tree :: reass_bufs where
  "ex_tree a = (if a = 0 then ex_rbuf 8 (Some 1) None 2 else if a = 1 then ex_rbuf 0 None (Some 2) 0 else ex_rbuf 0 None None 0)"

definition ex_split :: split_state where
  "ex_split = \<lparr>sbs = (ex_tree, \<lambda>_ _ _. 0), sarr = [9, 9, 9, 9], snexts = [7, 7, 7, 7]\<rparr>"

lemmas ex_split_simps = ex_split_def ex_tree_def ex_rbuf_def is_reass_pkt_def UNUSED8_FLAG_IP_REASS_PKT_def split_room_def

text \<open>
  The state after a split whose preorder is \<open>as\<close>, with the next nodes \<open>f\<close> of fragments and \<open>d\<close> of
  reassembled packets.
\<close>

definition next_in :: "nat \<Rightarrow> nat \<Rightarrow> reass_bufs \<Rightarrow> addr \<Rightarrow> nat" where
  "next_in f d B a = (if is_reass_pkt (B a) then d else f)"

definition fail_outcome :: "nat \<Rightarrow> u32 \<Rightarrow> nat \<Rightarrow> nat \<Rightarrow> addr \<Rightarrow> addr list \<Rightarrow> split_state \<Rightarrow> split_state" where
  "fail_outcome w i f d b0 as s =
    \<lparr>sbs = (split_bufs heir b0 as (fst (sbs s)), split_stats w i ip_reass_pkt_fail (fst (sbs s)) as (snd (sbs s))),
     sarr = as @ drop (length as) (sarr s),
     snexts = map (next_in f d (fst (sbs s))) as @ drop (length as) (snexts s)\<rparr>"

lemma split_loop_end: "split_loop c n n s = Some (n, s)"
  by (subst split_loop.simps) simp

lemma split_on_fail_run:
  assumes "forest_ok (fst (sbs s)) ts" "ts \<noteq> []" "root (hd ts) = b0" "distinct (flat ts)"
    and "split_room (length (flat ts)) s"
  shows "split_frag_buffer_on_fail b0 w i f d s = Some (length (flat ts), fail_outcome w i f d b0 (flat ts) s)"
proof -
  obtain as where as: "flat ts = b0 # as" using flat_hd assms(2,3) by blast
  let ?c = "\<lparr>count_links = True, frag_next = f, drop_next = d, leaf_fix = fail_leaf b0 w i\<rparr>"
  let ?s = "s\<lparr>sarr := (sarr s)[0 := b0]\<rparr>"
  have room: "0 < length (sarr s)" using assms(5) as by (auto simp: split_room_def)
  have "split_loop ?c 0 1 ?s = split_loop ?c (length (flat ts)) (length (flat ts)) (split_result ?c 0 (flat ts) ?s)"
    using assms room split_loop_forest [OF fail_leaf_links, of ?s ts 0 True f d b0 w i 1]
    by (simp add: split_room_def count_ok_def count_after_def as)
  moreover have "split_result ?c 0 (flat ts) ?s = fail_outcome w i f d b0 (flat ts) s"
    unfolding as split_result_def fail_outcome_def split_state.simps fail_fold [OF assms(4) [unfolded as]]
    using assms(5) as by (simp add: put_eq split_room_def next_of_def next_in_def flip: put.simps(2))
  ultimately show ?thesis
    using room by (simp add: split_frag_buffer_on_fail_def arr_simps split_loop_end)
qed

text \<open>C22: giving up on a flow, \<open>split_frag_buffer_on_fail\<close> terminates, stays inside its arrays, and hands
  over every buffer of the flow exactly once, in preorder: reassembled packets in between go to the
  drop node, each fragment to the given next node with its window reset to the L2 header and the
  metadata of the flow's first buffer, and the failed packets are counted once each.
\<close>

theorem split_on_fail_correct:
  assumes "forest_ok (fst (sbs s)) ts" "ts \<noteq> []" "root (hd ts) = b0" "distinct (flat ts)"
    and "split_room (length (flat ts)) s"
  shows "split_frag_buffer_on_fail b0 w i f d s = Some (length (flat ts), fail_outcome w i f d b0 (flat ts) s)"
  by (rule split_on_fail_run [OF assms])

theorem split_on_fail_correct_witness:
  "map_option (\<lambda>(n, s). (n, sarr s, snexts s)) (split_frag_buffer_on_fail 1 0 1 0 3 ex_split)
    = Some (2, [1, 2, 9, 9], [0, 0, 7, 7])"
proof -
  have "forest_ok (fst (sbs ex_split)) [FT 1 [], FT 2 []]" "split_room (length (flat [FT 1 [], FT 2 []])) ex_split"
    by (simp_all add: ex_split_simps)
  then have "split_frag_buffer_on_fail 1 0 1 0 3 ex_split = Some (2, fail_outcome 0 1 0 3 1 [1, 2] ex_split)"
    using split_on_fail_correct [of ex_split "[FT 1 [], FT 2 []]" 1 0 1 0 3] by simp
  then show ?thesis by (simp add: fail_outcome_def next_in_def ex_split_simps)
qed

definition forward_next :: "reass_buf \<Rightarrow> nat" where
  "forward_next b = (if arg_to_next (wd b) = 0 then FORWARD_NEXT_PKT_DROP else SF_NEXT_NODE_ACTION_ENTRY)"

definition forward_nexts :: "reass_bufs \<Rightarrow> addr \<Rightarrow> addr list \<Rightarrow> nat list" where
  "forward_nexts B b0 as = map (\<lambda>a. if a = b0 \<and> ip_reass_output (B b0) \<noteq> 0 then forward_next (B b0)
      else next_in (forward_next (B b0)) FORWARD_NEXT_PKT_DROP B a) as"

definition forward_outcome :: "nat \<Rightarrow> addr \<Rightarrow> addr list \<Rightarrow> split_state \<Rightarrow> split_state" where
  "forward_outcome w b0 as s =
    (let B = fst (sbs s); i = ucast (rec_interface_id (B b0))
     in \<lparr>sbs = (split_bufs heir_arg b0 as B,
                 update_ip_reass_stat w i ip_reass_success (split_stats w i ip_reass_pkt_success B as (snd (sbs s)))),
         sarr = as @ drop (length as) (sarr s),
         snexts = forward_nexts B b0 as @ drop (length as) (snexts s)\<rparr>)"

lemma split_forward_run:
  assumes "forest_ok (fst (sbs s)) [FT b0 cs]" "distinct (flat [FT b0 cs])"
    and "split_room (length (flat [FT b0 cs])) s"
  shows "split_frag_buffer b0 w s = Some (length (flat [FT b0 cs]), forward_outcome w b0 (flat [FT b0 cs]) s)"
proof -
  let ?as = "flat [FT b0 cs]" and ?B = "fst (sbs s)"
  let ?f = "forward_next (?B b0)" and ?i = "ucast (rec_interface_id (?B b0))"
  let ?c = "\<lparr>count_links = False, frag_next = ?f, drop_next = FORWARD_NEXT_PKT_DROP, leaf_fix = forward_leaf b0 w ?i\<rparr>"
  let ?s = "s\<lparr>sarr := (sarr s)[0 := b0]\<rparr>"
  have room: "0 < length (sarr s)" "0 < length (snexts s)" using assms(3) by (auto simp: split_room_def)
  have cnt: "unat (followed_nodes_cnt (?B b0)) + 1 = length ?as"
    using assms(1) by (simp add: unat_of_nat)
  have out: "ip_reass_output (split_bufs heir_arg b0 ?as ?B b0) = ip_reass_output (?B b0)"
    by (simp add: split_bufs_def)
  have "split_loop ?c 0 (length ?as) ?s = split_loop ?c (length ?as) (length ?as) (split_result ?c 0 ?as ?s)"
    using assms room split_loop_forest [OF forward_leaf_links, of ?s "[FT b0 cs]" 0 False ?f _ b0 w ?i "length ?as"]
    by (simp add: split_room_def count_ok_def count_after_def)
  moreover have "split_result ?c 0 ?as ?s =
    \<lparr>sbs = (split_bufs heir_arg b0 ?as ?B, split_stats w ?i ip_reass_pkt_success ?B ?as (snd (sbs s))),
     sarr = ?as @ drop (length ?as) (sarr s),
     snexts = map (next_in ?f FORWARD_NEXT_PKT_DROP ?B) ?as @ drop (length ?as) (snexts s)\<rparr>"
    unfolding split_result_def split_state.simps
    using assms(3) forward_fold [OF assms(2), of False ?f FORWARD_NEXT_PKT_DROP b0 w ?i "sbs s"]
    by (simp add: put_eq split_room_def next_of_def next_in_def flip: put.simps(2))
  ultimately have loop: "split_loop ?c 0 (length ?as) ?s = Some (length ?as, \<lparr>sbs = (split_bufs heir_arg b0 ?as ?B, split_stats w ?i ip_reass_pkt_success ?B ?as (snd (sbs s))),
     sarr = ?as @ drop (length ?as) (sarr s),
     snexts = map (next_in ?f FORWARD_NEXT_PKT_DROP ?B) ?as @ drop (length ?as) (snexts s)\<rparr>)"
    by (simp only: split_loop_end)
  have "b0 \<notin> set (flat cs)" using assms(2) by simp
  then have nexts: "map (next_in ?f FORWARD_NEXT_PKT_DROP ?B) (flat cs)
    = map (\<lambda>a. if a = b0 \<and> ip_reass_output (?B b0) \<noteq> 0 then ?f else next_in ?f FORWARD_NEXT_PKT_DROP ?B a) (flat cs)"
    by (intro map_cong) auto
  show ?thesis
    unfolding split_frag_buffer_def Let_def
    using room loop cnt out nexts
    by (simp add: arr_simps forward_next_def [symmetric] forward_outcome_def forward_nexts_def Let_def)
qed

text \<open>when the rules have decided about a reassembled packet, \<open>split_frag_buffer\<close> terminates, stays
  inside its arrays and hands over exactly the reassembled buffer and all buffers below it, in
  preorder.  The fragments inherit the metadata and the action argument and go where the packet goes;
  the reassembled packet itself goes there too if its interface outputs reassembled packets, and is
  dropped otherwise, as are the reassembled packets inside it.
\<close>

theorem split_forward_correct:
  assumes "forest_ok (fst (sbs s)) [FT b0 cs]" "distinct (flat [FT b0 cs])"
    and "split_room (length (flat [FT b0 cs])) s"
  shows "split_frag_buffer b0 w s = Some (length (flat [FT b0 cs]), forward_outcome w b0 (flat [FT b0 cs]) s)"
  by (rule split_forward_run [OF assms])

theorem split_forward_correct_witness:
  "map_option (\<lambda>(n, s). (n, sarr s, snexts s)) (split_frag_buffer 0 0 ex_split)
    = Some (3, [0, 1, 2, 9], [1, 1, 1, 7])"
proof -
  have "forest_ok (fst (sbs ex_split)) [FT 0 [FT 1 [], FT 2 []]]"
    "split_room (length (flat [FT 0 [FT 1 [], FT 2 []]])) ex_split"
    by (simp_all add: ex_split_simps)
  then have "split_frag_buffer 0 0 ex_split = Some (3, forward_outcome 0 0 [0, 1, 2] ex_split)"
    using split_forward_correct [of ex_split 0 "[FT 1 [], FT 2 []]" 0] by simp
  then show ?thesis
    by (simp add: forward_outcome_def forward_nexts_def forward_next_def next_in_def Let_def ex_split_simps
        ex_wdata_def FORWARD_NEXT_PKT_DROP_def)
qed

end
