(* ===== verification/Reass_Build.thy ===== *)
theory Reass_Build
  imports Reass_Split Sf_Timer Sf_Hash
begin

text \<open>
  Building the reassembled packet (\<open>ip4_frag_build_pkt\<close>, \<open>ip6_frag_build_pkt\<close>,
  \<open>update_ip_reass_pkt\<close>): the fragments of a complete flow are copied into a 16 KB buffer.  Every
  store into that buffer is checked: \<open>None\<close> is a write outside it.  The C functions of the two IP
  versions are the same text up to the header accesses, which are the fields of a \<open>reass_family\<close>.
\<close>

section \<open>State\<close>

record ip_reass_timer_data_t =
  recv :: u32
  timer_hash_index :: u32
  timer_pnode :: ptr

text \<open>
  The plugin's state: the buffers, the table of flows with the flows' data and timer records, the
  pools of flows and of 16 KB buffers, the timers and the statistics.
\<close>

record 'f reass_world =
  rbufs :: reass_bufs
  rtab :: hash_world
  rflows :: "addr \<Rightarrow> node_ip_reass_t"
  rrecs :: "addr \<Rightarrow> 'f sf_timer_record_t"
  rpool :: pool_world
  hpool :: pool_world
  rtimers :: "('f, ip_reass_timer_data_t) timer_world"
  rstats :: reass_stats

text \<open>
  What the code reads of its surroundings: floating point and the clock, the configuration, the hash
  function and VPP's IPv4 header checksum (neither is part of the repository), the worker's index and
  the bytes found in a newly allocated 16 KB buffer.
\<close>

record 'f reass_env =
  env_f64 :: "'f f64_ops"
  env_now :: 'f
  env_config :: reass_config
  getHashIndex :: "u8 list \<Rightarrow> u32"
  ip4_header_checksum :: "(int \<Rightarrow> u8) \<Rightarrow> int \<Rightarrow> u16"
  env_worker :: nat
  env_junk :: "int \<Rightarrow> u8"

section \<open>The 16 KB buffer\<close>

definition SF_HUGE_PKT_PRE_DATA_SIZE :: int where "SF_HUGE_PKT_PRE_DATA_SIZE = 128"

text \<open>
  \<open>memcpy\<close> to the position \<open>dst\<close> relative to the data pointer; \<open>src\<close> gives the bytes copied.  A
  negative length is a huge \<open>size_t\<close>.
\<close>

definition memcpy_in :: "int \<Rightarrow> (int \<Rightarrow> u8) \<Rightarrow> int \<Rightarrow> (int \<Rightarrow> u8) \<Rightarrow> (int \<Rightarrow> u8) option" where
  "memcpy_in dst src n m =
    (if n < 0 \<or> dst < - SF_HUGE_PKT_PRE_DATA_SIZE \<or> SF_HUGE_PKT_MAX_DATA_SIZE < dst + n then None
     else Some (\<lambda>i. if dst \<le> i \<and> i < dst + n then src (i - dst) else m i))"

definition store8 :: "int \<Rightarrow> u8 \<Rightarrow> (int \<Rightarrow> u8) \<Rightarrow> (int \<Rightarrow> u8) option" where
  "store8 p v = memcpy_in p (\<lambda>_. v) 1"

definition store16 :: "int \<Rightarrow> u16 \<Rightarrow> (int \<Rightarrow> u8) \<Rightarrow> (int \<Rightarrow> u8) option" where
  "store16 p v = memcpy_in p (\<lambda>i. if i = 0 then ucast v else ucast (drop_bit 8 v)) 2"

definition alloc_huge_pkt_16k :: "nat \<Rightarrow> pool_world \<Rightarrow> (pool_world \<times> addr) option" where
  "alloc_huge_pkt_16k wi pool =
    do { (pool, r) \<leftarrow> alloc_node_from_pool wi pool; a \<leftarrow> r; Some (pool, a + nat SF_HUGE_PKT_PRE_DATA_SIZE) }"

definition free_huge_pkt_16k :: "nat \<Rightarrow> pool_world \<Rightarrow> addr \<Rightarrow> pool_world option" where
  "free_huge_pkt_16k wi pool data = free_node_to_pool wi pool (data - nat SF_HUGE_PKT_PRE_DATA_SIZE)"

section \<open>Header accesses\<close>

record reass_family =
  fam_offset :: "sf_wdata_t \<Rightarrow> u16"
  fam_last :: "sf_wdata_t \<Rightarrow> bool"
  fam_key :: "sf_wdata_t \<Rightarrow> key_ip_reass_t"
  fam_unfrag :: "int \<Rightarrow> u16 \<Rightarrow> (int \<Rightarrow> u8) \<Rightarrow> (int \<Rightarrow> u8) option"

text \<open>IPv4: the key, and clearing the flags (upper three bits of byte 6) and the offset.\<close>

definition ip4_key :: "sf_wdata_t \<Rightarrow> key_ip_reass_t" where
  "ip4_key w =
    zero_key\<lparr>key_sip := set_addr_v4 (ld32 (data_ptr w) (cur_pos w + 12)) zero_addr,
             key_dip := set_addr_v4 (ld32 (data_ptr w) (cur_pos w + 16)) zero_addr,
             ip_id := ucast (ld16 (data_ptr w) (cur_pos w + 4)),
             ip_layer := ucast (ip_wdata_cnt w)\<rparr>"

definition ip4_unfrag :: "int \<Rightarrow> u16 \<Rightarrow> (int \<Rightarrow> u8) \<Rightarrow> (int \<Rightarrow> u8) option" where
  "ip4_unfrag p hdr_len m =
    do { m \<leftarrow> store8 (p + 6) (m (p + 6) AND 0x1F) m;
         m \<leftarrow> store8 (p + 6) (m (p + 6) AND 0xE0) m;
         store8 (p + 7) 0 m }"

definition ip4_family :: reass_family where
  "ip4_family = \<lparr>
     fam_offset = (\<lambda>w. get_ip4_hdr_offset (data_ptr w) (cur_pos w)),
     fam_last = (\<lambda>w. ip4_flags (data_ptr w) (cur_pos w) AND 1 = 0),
     fam_key = ip4_key, fam_unfrag = ip4_unfrag\<rparr>"

text \<open>IPv6: the fragment header is the last header; its byte 3 is offset (5 bits), unused (2), flag (1).\<close>

definition ip6_frag_pos :: "sf_wdata_t \<Rightarrow> int" where
  "ip6_frag_pos w = cur_pos w + uint (ip_header_len (ip_wdata w)) - uint IPV6_FRAG_HEADER_LEN"

definition ip6_key :: "sf_wdata_t \<Rightarrow> key_ip_reass_t" where
  "ip6_key w =
    zero_key\<lparr>key_sip := sip (ip_wdata w), key_dip := dip (ip_wdata w),
             ip_id := ld32 (data_ptr w) (ip6_frag_pos w + 4),
             ip_layer := ucast (ip_wdata_cnt w)\<rparr>"

definition ip6_unfrag :: "int \<Rightarrow> u16 \<Rightarrow> (int \<Rightarrow> u8) \<Rightarrow> (int \<Rightarrow> u8) option" where
  "ip6_unfrag p hdr_len m =
    (let f = p + uint hdr_len - uint IPV6_FRAG_HEADER_LEN in
     do { m \<leftarrow> store8 (f + 3) (m (f + 3) AND 0xFE) m;
          m \<leftarrow> store8 (f + 3) (m (f + 3) AND 0x07) m;
          store8 (f + 2) 0 m })"

definition ip6_family :: reass_family where
  "ip6_family = \<lparr>
     fam_offset = (\<lambda>w. get_ip6_frag_offset (data_ptr w) (ip6_frag_pos w)),
     fam_last = (\<lambda>w. get_ip6_frag_flag (data_ptr w) (ip6_frag_pos w) = 0),
     fam_key = ip6_key, fam_unfrag = ip6_unfrag\<rparr>"

section \<open>The length fields of an output packet\<close>

definition update_ip_reass_pkt :: "'f reass_env \<Rightarrow> sf_wdata_t \<Rightarrow> sf_wdata_t option" where
  "update_ip_reass_pkt E w =
    (let p = cur_pos w; total = ip_header_len (ip_wdata w) + ip_payload_len (ip_wdata w) in
     if ip_version (ip_wdata w) = IP_VERSION_4 then
       do { m \<leftarrow> store16 (p + 2) (clib_net_to_host_u16 total) (data_ptr w);
            m \<leftarrow> store16 (p + 10) (ip4_header_checksum E m p) m;
            Some (w\<lparr>data_ptr := m\<rparr>) }
     else
       do { m \<leftarrow> store16 (p + 4) (clib_net_to_host_u16 (total - IPV6_HEADER_LEN)) (data_ptr w);
            Some (w\<lparr>data_ptr := m\<rparr>) })"

section \<open>Copying\<close>

text \<open>The loop over the fragments: the memory, \<open>current_length\<close> and \<open>followed_nodes_cnt\<close>.\<close>

partial_function (option) copy_frags ::
  "reass_bufs \<Rightarrow> int \<Rightarrow> ptr \<Rightarrow> (int \<Rightarrow> u8) \<Rightarrow> u16 \<Rightarrow> u8 \<Rightarrow> ((int \<Rightarrow> u8) \<times> u16 \<times> u8) option" where
  "copy_frags B payload tmp m len cnt =
    (case tmp of
       None \<Rightarrow> Some (m, len, cnt)
     | Some a \<Rightarrow>
         do { m \<leftarrow> memcpy_in (payload + uint (frag_offset (B a)))
                (\<lambda>i. data_ptr (wd (B a)) (cur_pos (wd (B a)) + uint (ip_hdr_len (B a)) + i))
                (uint (frag_size (B a))) m;
              copy_frags B payload (next_frag (B a)) m (len + frag_size (B a))
                (cnt + (followed_nodes_cnt (B a) + 1)) })"

definition UNUSED8_PKT_HUGE_PKT_WITH_WDATA :: u8 where "UNUSED8_PKT_HUGE_PKT_WITH_WDATA = 7"

text \<open>
  \<open>frag_build_wdata\<close> is the part of the C function between the two allocations and the last links: the
  new buffer's metadata (with the 16 KB of data) and its count of buffers below it.
\<close>

definition frag_build_wdata :: "reass_family \<Rightarrow> 'f reass_env \<Rightarrow> reass_bufs \<Rightarrow> addr \<Rightarrow> (sf_wdata_t \<times> u8) option" where
  "frag_build_wdata fam E B tmp =
    (let old = wd (B tmp); hdr_len = ip_hdr_len (B tmp);
         new = old\<lparr>unused8 := (unused8 old OR UNUSED8_FLAG_IP_REASS_PKT) OR UNUSED8_PKT_HUGE_PKT_WITH_WDATA\<rparr>
     in do { m \<leftarrow> memcpy_in 0 (data_ptr old) (sint (current_data old)) (env_junk E);
             m \<leftarrow> memcpy_in (cur_pos new) (\<lambda>i. data_ptr old (cur_pos old + i)) (uint hdr_len) m;
             m \<leftarrow> fam_unfrag fam (cur_pos new) hdr_len m;
             let new = sf_wqe_advance_wdata new hdr_len;
             (m, len, cnt) \<leftarrow> copy_frags B (cur_pos new) (Some tmp) m 0 0;
             let new = new\<lparr>data_ptr := m, current_length := len,
                           ip_wdata := (ip_wdata new)\<lparr>ip_payload_len := len, reass_over := 1\<rparr>\<rparr>;
             if ip_reass_output (B tmp) \<noteq> 0 then
               do { new \<leftarrow> update_ip_reass_pkt E (sf_wqe_advance_wdata new (- hdr_len));
                    Some (sf_wqe_advance_wdata new hdr_len, cnt) }
             else Some (new, cnt) })"

text \<open>
  \<open>vpp\<close> is the answer of \<open>alloc_one_pkt_from_vpp\<close>.  The result is the returned buffer and status.  An
  exhausted pool of 16 KB buffers is an error here: the code adds 128 to the null pointer and goes on.
\<close>

definition frag_build_pkt ::
  "reass_family \<Rightarrow> 'f reass_env \<Rightarrow> ptr \<Rightarrow> addr \<Rightarrow> int \<Rightarrow> 'f reass_world \<Rightarrow> (addr \<times> int \<times> 'f reass_world) option" where
  "frag_build_pkt fam E vpp ret_buffer ret_status w =
    do { (pool, data) \<leftarrow> alloc_huge_pkt_16k (env_worker E) (hpool w);
         case vpp of
           None \<Rightarrow> do { pool \<leftarrow> free_huge_pkt_16k (env_worker E) pool data;
                        Some (ret_buffer, ret_status, w\<lparr>hpool := pool\<rparr>) }
         | Some b \<Rightarrow>
             do { let B = rbufs w;
                  (new, cnt) \<leftarrow> frag_build_wdata fam E B ret_buffer;
                  let buf = (B b)\<lparr>wd := new, followed_nodes_cnt := cnt,
                                  ip_reass_output := ip_reass_output (B ret_buffer),
                                  rec_interface_id := rec_interface_id (B ret_buffer),
                                  child_frag := Some ret_buffer, next_frag := None\<rparr>;
                  Some (b, 0, w\<lparr>hpool := pool, rbufs := B(b := buf)\<rparr>) } }"

definition ip4_frag_build_pkt ::
  "'f reass_env \<Rightarrow> ptr \<Rightarrow> addr \<Rightarrow> int \<Rightarrow> 'f reass_world \<Rightarrow> (addr \<times> int \<times> 'f reass_world) option" where
  "ip4_frag_build_pkt = frag_build_pkt ip4_family"

definition ip6_frag_build_pkt ::
  "'f reass_env \<Rightarrow> ptr \<Rightarrow> addr \<Rightarrow> int \<Rightarrow> 'f reass_world \<Rightarrow> (addr \<times> int \<times> 'f reass_world) option" where
  "ip6_frag_build_pkt = frag_build_pkt ip6_family"

section \<open>What the copies leave\<close>

abbreviation frags_chain :: "reass_bufs \<Rightarrow> ptr \<Rightarrow> addr list \<Rightarrow> bool" where
  "frags_chain B \<equiv> chain (\<lambda>a. next_frag (B a))"

text \<open>A fragment covers the bytes \<open>off\<close> to \<open>off + size\<close> of the datagram; its own bytes follow its header.\<close>

definition frag_covers :: "reass_buf \<Rightarrow> int \<Rightarrow> bool" where
  "frag_covers b i \<longleftrightarrow> uint (frag_offset b) \<le> i \<and> i < uint (frag_offset b) + uint (frag_size b)"

definition frag_byte :: "reass_buf \<Rightarrow> int \<Rightarrow> u8" where
  "frag_byte b i = data_ptr (wd b) (cur_pos (wd b) + uint (ip_hdr_len b) + i - uint (frag_offset b))"

definition paste :: "reass_bufs \<Rightarrow> int \<Rightarrow> addr \<Rightarrow> (int \<Rightarrow> u8) \<Rightarrow> int \<Rightarrow> u8" where
  "paste B payload a m = (\<lambda>i. if frag_covers (B a) (i - payload) then frag_byte (B a) (i - payload) else m i)"

definition frag_end :: "reass_buf \<Rightarrow> int" where
  "frag_end b = uint (frag_offset b) + uint (frag_size b)"

lemma memcpy_in_ok:
  "0 \<le> n \<Longrightarrow> - 128 \<le> dst \<Longrightarrow> dst + n \<le> 16256 \<Longrightarrow>
    memcpy_in dst src n m = Some (\<lambda>i. if dst \<le> i \<and> i < dst + n then src (i - dst) else m i)"
  by (simp add: memcpy_in_def SF_HUGE_PKT_PRE_DATA_SIZE_def SF_HUGE_PKT_MAX_DATA_SIZE_def)

lemma memcpy_in_overflow: "16256 < dst + n \<Longrightarrow> memcpy_in dst src n m = None"
  by (simp add: memcpy_in_def SF_HUGE_PKT_MAX_DATA_SIZE_def)

lemma copy_frags_correct:
  assumes "- 128 \<le> payload"
  shows "frags_chain B tmp as \<Longrightarrow> \<forall>a\<in>set as. payload + frag_end (B a) \<le> 16256 \<Longrightarrow>
    copy_frags B payload tmp m len cnt =
      Some (fold (paste B payload) as m, len + sum_list (map (\<lambda>a. frag_size (B a)) as),
            cnt + sum_list (map (\<lambda>a. followed_nodes_cnt (B a) + 1) as))"
proof (induction as arbitrary: tmp m len cnt)
  case Nil
  then show ?case by (subst copy_frags.simps) simp
next
  case (Cons a as)
  have "payload + (uint (frag_offset (B a)) + uint (frag_size (B a))) \<le> 16256"
    using Cons.prems by (simp add: frag_end_def)
  then have "memcpy_in (payload + uint (frag_offset (B a)))
      (\<lambda>i. data_ptr (wd (B a)) (cur_pos (wd (B a)) + uint (ip_hdr_len (B a)) + i)) (uint (frag_size (B a))) m
    = Some (paste B payload a m)"
    using assms by (subst memcpy_in_ok) (auto simp: paste_def frag_covers_def frag_byte_def fun_eq_iff algebra_simps
        intro: add_increasing2)
  then show ?case
    using Cons by (subst copy_frags.simps) (simp add: algebra_simps)
qed

text \<open>One fragment that does not fit is enough for a write outside the buffer.\<close>

lemma copy_frags_overflow:
  "frags_chain B tmp as \<Longrightarrow> \<exists>a\<in>set as. 16256 < payload + frag_end (B a) \<Longrightarrow> copy_frags B payload tmp m len cnt = None"
proof (induction as arbitrary: tmp m len cnt)
  case (Cons a as)
  show ?case
  proof (cases "16256 < payload + frag_end (B a)")
    case True
    then show ?thesis using Cons.prems by (subst copy_frags.simps) (simp add: memcpy_in_overflow frag_end_def algebra_simps)
  next
    case False
    then show ?thesis using Cons by (subst copy_frags.simps) (auto simp: Option.bind_eq_None_conv)
  qed
qed simp

lemma paste_outside: "\<forall>a\<in>set as. \<not> frag_covers (B a) (i - payload) \<Longrightarrow> fold (paste B payload) as m i = m i"
  by (induction as arbitrary: m) (auto simp: paste_def)

text \<open>Fragments that agree with one datagram \<open>P\<close> leave \<open>P\<close> wherever one of them covers, in any order.\<close>

lemma paste_agree:
  assumes "\<forall>a\<in>set as. \<forall>j. frag_covers (B a) j \<longrightarrow> frag_byte (B a) j = P j"
  shows "\<exists>a\<in>set as. frag_covers (B a) (i - payload) \<Longrightarrow> fold (paste B payload) as m i = P (i - payload)"
  using assms
proof (induction as arbitrary: m)
  case (Cons a as)
  show ?case
  proof (cases "\<exists>a\<in>set as. frag_covers (B a) (i - payload)")
    case True
    then show ?thesis using Cons by simp
  next
    case False
    then have "frag_covers (B a) (i - payload)" using Cons.prems(1) by simp
    moreover have "fold (paste B payload) as (paste B payload a m) i = paste B payload a m i"
      using False by (intro paste_outside) blast
    moreover have "paste B payload a m i = frag_byte (B a) (i - payload)"
      using \<open>frag_covers (B a) (i - payload)\<close> by (simp add: paste_def)
    ultimately show ?thesis using Cons.prems(2) by simp
  qed
qed simp

lemma before_payload: "i < payload \<Longrightarrow> fold (paste B payload) as m i = m i"
  by (rule paste_outside) (auto simp: frag_covers_def dest: order_trans [OF uint_ge_0])

section \<open>The new packet\<close>

lemma cur_pos_advance:
  assumes "0 \<le> cur_pos w" "cur_pos w + uint l < 2 ^ 15"
  shows "cur_pos (sf_wqe_advance_wdata w l) = cur_pos w + uint l"
proof -
  have l: "0 \<le> uint l" by simp
  have "cur_pos (sf_wqe_advance_wdata w l) = signed_take_bit 15 (sint (current_data w) + sint l)"
    by (simp add: cur_pos_def sf_wqe_advance_wdata_def sint_word_ariths)
  also have "sint l = uint l"
  proof -
    have "uint l < 2 ^ 15" using assms by linarith
    then have "int (unat l) < int (2 ^ 15)" by simp
    then have "unat l < 2 ^ 15" by (simp only: of_nat_less_iff)
    then show ?thesis using sint_small [of l] by simp
  qed
  also have "signed_take_bit 15 (sint (current_data w) + uint l) = sint (current_data w) + uint l"
    using assms l unfolding cur_pos_def by (intro signed_take_bit_int_eq_self) linarith+
  finally show ?thesis by (simp add: cur_pos_def)
qed

lemma advance_back [simp]:
  "sf_wqe_advance_wdata (sf_wqe_advance_wdata w (- l)) l = w" "sf_wqe_advance_wdata (sf_wqe_advance_wdata w l) (- l) = w"
  by (simp_all add: sf_wqe_advance_wdata_def)

text \<open>The memory after the headers have been copied, and the metadata after the loop.\<close>

definition build_base :: "'f reass_env \<Rightarrow> reass_buf \<Rightarrow> int \<Rightarrow> u8" where
  "build_base E b = (\<lambda>i. if 0 \<le> i \<and> i < cur_pos (wd b) + uint (ip_hdr_len b) then data_ptr (wd b) i else env_junk E i)"

definition build_new :: "reass_bufs \<Rightarrow> addr list \<Rightarrow> (int \<Rightarrow> u8) \<Rightarrow> sf_wdata_t" where
  "build_new B as m =
    (let b = B (hd as); len = sum_list (map (\<lambda>a. frag_size (B a)) as);
         new = sf_wqe_advance_wdata ((wd b)\<lparr>unused8 := (unused8 (wd b) OR UNUSED8_FLAG_IP_REASS_PKT)
                 OR UNUSED8_PKT_HUGE_PKT_WITH_WDATA\<rparr>) (ip_hdr_len b)
     in new\<lparr>data_ptr := fold (paste B (cur_pos (wd b) + uint (ip_hdr_len b))) as m, current_length := len,
            ip_wdata := (ip_wdata new)\<lparr>ip_payload_len := len, reass_over := 1\<rparr>\<rparr>)"

definition build_fits :: "reass_bufs \<Rightarrow> addr list \<Rightarrow> bool" where
  "build_fits B as \<longleftrightarrow> as \<noteq> [] \<and> frags_chain B (Some (hd as)) as \<and> 0 \<le> cur_pos (wd (B (hd as)))
     \<and> (\<forall>a\<in>set as. cur_pos (wd (B (hd as))) + uint (ip_hdr_len (B (hd as))) + frag_end (B a) \<le> 16256)"

lemma build_fitsD:
  assumes "build_fits B as"
  shows "0 \<le> cur_pos (wd (B (hd as)))" "cur_pos (wd (B (hd as))) + uint (ip_hdr_len (B (hd as))) \<le> 16256"
proof -
  have "hd as \<in> set as" using assms by (simp add: build_fits_def)
  moreover have "0 \<le> frag_end (B (hd as))" by (simp add: frag_end_def)
  ultimately show "0 \<le> cur_pos (wd (B (hd as)))" "cur_pos (wd (B (hd as))) + uint (ip_hdr_len (B (hd as))) \<le> 16256"
    using assms unfolding build_fits_def by fastforce+
qed

lemma frag_build_wdata_eq:
  assumes fits: "build_fits B as" and h: "h = hd as" "b = B h"
    and unfrag: "fam_unfrag fam (cur_pos (wd b)) (ip_hdr_len b) (build_base E b) = Some m"
    and cnt: "cnt = sum_list (map (\<lambda>a. followed_nodes_cnt (B a) + 1) as)"
  shows "frag_build_wdata fam E B h =
    (if ip_reass_output b \<noteq> 0
     then do { new \<leftarrow> update_ip_reass_pkt E (sf_wqe_advance_wdata (build_new B as m) (- ip_hdr_len b));
               Some (sf_wqe_advance_wdata new (ip_hdr_len b), cnt) }
     else Some (build_new B as m, cnt))"
proof -
  let ?p = "cur_pos (wd b)" and ?l = "uint (ip_hdr_len b)"
  note pos = build_fitsD [OF fits, folded h(1), folded h(2)]
  have l: "0 \<le> ?l" by simp
  have m1: "memcpy_in 0 (data_ptr (wd b)) ?p (env_junk E) = Some (\<lambda>i. if 0 \<le> i \<and> i < ?p then data_ptr (wd b) i else env_junk E i)"
  proof -
    have "?p \<le> 16256" using pos l by linarith
    then show ?thesis using pos by (subst memcpy_in_ok) auto
  qed
  have m2: "memcpy_in ?p (\<lambda>i. data_ptr (wd b) (?p + i)) ?l (\<lambda>i. if 0 \<le> i \<and> i < ?p then data_ptr (wd b) i else env_junk E i)
    = Some (build_base E b)"
  proof -
    have lt: "x < ?p + ?l" if "x < ?p" for x using that l by linarith
    show ?thesis
      using pos l by (subst memcpy_in_ok) (auto simp: build_base_def fun_eq_iff not_le intro: lt dest: lt)
  qed
  let ?new = "sf_wqe_advance_wdata ((wd b)\<lparr>unused8 := (unused8 (wd b) OR UNUSED8_FLAG_IP_REASS_PKT)
                 OR UNUSED8_PKT_HUGE_PKT_WITH_WDATA\<rparr>) (ip_hdr_len b)"
  have at: "cur_pos ?new = ?p + ?l"
    using pos by (subst cur_pos_advance) (simp_all add: cur_pos_def)
  have loop: "copy_frags B (cur_pos ?new) (Some h) m 0 0
    = Some (fold (paste B (?p + ?l)) as m, sum_list (map (\<lambda>a. frag_size (B a)) as), cnt)"
  proof -
    have lo: "- 128 \<le> ?p + ?l" using pos l by linarith
    show ?thesis
      unfolding at using fits cnt h by (subst copy_frags_correct [OF lo]) (auto simp: build_fits_def)
  qed
  show ?thesis
    unfolding frag_build_wdata_def Let_def h(2) [symmetric]
    using m1 m2 unfrag loop unfolding cur_pos_def
    by (simp add: build_new_def Let_def h(1) [symmetric] h(2) [symmetric] cur_pos_def)
qed

lemma build_overflow:
  assumes "frags_chain B (Some h) as" "0 \<le> cur_pos (wd (B h))" "cur_pos (wd (B h)) + uint (ip_hdr_len (B h)) < 2 ^ 15"
    and "\<exists>a\<in>set as. 16256 < cur_pos (wd (B h)) + uint (ip_hdr_len (B h)) + frag_end (B a)"
  shows "frag_build_wdata fam E B h = None"
proof -
  have "cur_pos (sf_wqe_advance_wdata ((wd (B h))\<lparr>unused8 := u\<rparr>) (ip_hdr_len (B h)))
      = cur_pos (wd (B h)) + uint (ip_hdr_len (B h))" for u
    using assms(2,3) by (subst cur_pos_advance) (simp_all add: cur_pos_def)
  then have "copy_frags B (cur_pos (sf_wqe_advance_wdata ((wd (B h))\<lparr>unused8 := u\<rparr>) (ip_hdr_len (B h)))) (Some h) m 0 0 = None"
    for u m using copy_frags_overflow [OF assms(1), of "cur_pos (wd (B h)) + uint (ip_hdr_len (B h))"] assms(4) by simp
  then show ?thesis
    by (auto simp: frag_build_wdata_def Let_def Option.bind_eq_None_conv)
qed

text \<open>
  \<open>new\<close> is a packet rebuilt from the fragments \<open>as\<close> of a datagram with the payload \<open>P\<close>: its window is
  the whole payload, all that lies before is copied from the first fragment except the bytes
  \<open>touched\<close> of the IP header.
\<close>

definition rebuilt :: "reass_bufs \<Rightarrow> addr list \<Rightarrow> (int \<Rightarrow> u8) \<Rightarrow> int \<Rightarrow> int set \<Rightarrow> reass_buf \<Rightarrow> bool" where
  "rebuilt B as P tot touched new \<longleftrightarrow>
    (let old = B (hd as); p = cur_pos (wd old); h = uint (ip_hdr_len old) in
     child_frag new = Some (hd as) \<and> next_frag new = None \<and> is_reass_pkt new
     \<and> followed_nodes_cnt new = sum_list (map (\<lambda>a. followed_nodes_cnt (B a) + 1) as)
     \<and> rec_interface_id new = rec_interface_id old \<and> ip_reass_output new = ip_reass_output old
     \<and> cur_pos (wd new) = p + h \<and> uint (current_length (wd new)) = tot
     \<and> ip_payload_len (ip_wdata (wd new)) = current_length (wd new) \<and> reass_over (ip_wdata (wd new)) = 1
     \<and> (\<forall>j. 0 \<le> j \<and> j < tot \<longrightarrow> data_ptr (wd new) (p + h + j) = P j)
     \<and> (\<forall>i. 0 \<le> i \<and> i < p + h \<and> i - p \<notin> touched \<longrightarrow> data_ptr (wd new) i = data_ptr (wd old) i))"

lemma rebuiltD:
  assumes "rebuilt B as P tot touched new"
  shows "uint (current_length (wd new)) = tot"
    and "0 \<le> j \<Longrightarrow> j < tot \<Longrightarrow>
      data_ptr (wd new) (cur_pos (wd (B (hd as))) + uint (ip_hdr_len (B (hd as))) + j) = P j"
  using assms by (simp_all add: rebuilt_def Let_def)

text \<open>The fragments are pieces of the payload \<open>P\<close> of \<open>tot\<close> bytes, each byte of which is in one of them.\<close>

definition pieces_of :: "reass_bufs \<Rightarrow> addr list \<Rightarrow> (int \<Rightarrow> u8) \<Rightarrow> int \<Rightarrow> bool" where
  "pieces_of B as P tot \<longleftrightarrow>
     (\<forall>a\<in>set as. \<forall>j. frag_covers (B a) j \<longrightarrow> frag_byte (B a) j = P j)
   \<and> (\<forall>j. 0 \<le> j \<and> j < tot \<longrightarrow> (\<exists>a\<in>set as. frag_covers (B a) j))
   \<and> (\<Sum>a\<leftarrow>as. uint (frag_size (B a))) = tot"

lemma uint_sum_list:
  "(\<Sum>a\<leftarrow>as. uint (f a :: u16)) < 2 ^ 16 \<Longrightarrow> uint (\<Sum>a\<leftarrow>as. f a) = (\<Sum>a\<leftarrow>as. uint (f a))"
proof (induction as)
  case (Cons a as)
  have "0 \<le> uint (f a)" by simp
  moreover have "uint (f a) + (\<Sum>a\<leftarrow>as. uint (f a)) < 2 ^ 16" using Cons.prems by simp
  ultimately have "(\<Sum>a\<leftarrow>as. uint (f a)) < 2 ^ 16" by linarith
  then have "uint (\<Sum>a\<leftarrow>as. f a) = (\<Sum>a\<leftarrow>as. uint (f a))" by (rule Cons.IH)
  then show ?case using Cons.prems by (simp add: uint_add_lem [THEN iffD1])
qed simp

lemma pieces_total:
  assumes "build_fits B as" "pieces_of B as P tot"
  shows "uint (\<Sum>a\<leftarrow>as. frag_size (B a)) = tot"
proof -
  have "tot \<le> 16256"
  proof (rule ccontr)
    assume "\<not> tot \<le> 16256"
    then have "(0::int) \<le> 16256 \<and> 16256 < tot" by simp
    then obtain a where a: "a \<in> set as" "frag_covers (B a) 16256" using assms(2) unfolding pieces_of_def by blast
    then have "16256 < frag_end (B a)" by (simp add: frag_covers_def frag_end_def)
    moreover have "cur_pos (wd (B (hd as))) + uint (ip_hdr_len (B (hd as))) + frag_end (B a) \<le> 16256"
      "0 \<le> cur_pos (wd (B (hd as)))" using assms(1) a(1) by (simp_all add: build_fits_def)
    moreover have "0 \<le> uint (ip_hdr_len (B (hd as)))" by simp
    ultimately show False by linarith
  qed
  then have "(\<Sum>a\<leftarrow>as. uint (frag_size (B a))) < 2 ^ 16" using assms(2) by (simp add: pieces_of_def)
  from uint_sum_list [OF this] show ?thesis using assms(2) by (simp add: pieces_of_def)
qed

lemma is_reass_pkt_new:
  "((x OR UNUSED8_FLAG_IP_REASS_PKT) OR UNUSED8_PKT_HUGE_PKT_WITH_WDATA) AND UNUSED8_FLAG_IP_REASS_PKT \<noteq> 0"
proof -
  have "bit (((x OR UNUSED8_FLAG_IP_REASS_PKT) OR UNUSED8_PKT_HUGE_PKT_WITH_WDATA) AND UNUSED8_FLAG_IP_REASS_PKT) 3"
    by (simp add: bit_simps UNUSED8_FLAG_IP_REASS_PKT_def)
  then show ?thesis by (metis bit_0_eq bot_apply bot_bool_def)
qed

text \<open>What the code needs of an address family: both header updates stay on the bytes \<open>touched\<close> of the header.\<close>

definition unfrag_within :: "reass_family \<Rightarrow> u16 \<Rightarrow> int set \<Rightarrow> bool" where
  "unfrag_within fam hdr_len touched \<longleftrightarrow>
     (\<forall>p m. 0 \<le> p \<and> p + uint hdr_len \<le> 16256 \<longrightarrow>
        (\<exists>m'. fam_unfrag fam p hdr_len m = Some m' \<and> (\<forall>i. i - p \<notin> touched \<longrightarrow> m' i = m i)))"

definition update_within :: "'f reass_env \<Rightarrow> sf_wdata_t \<Rightarrow> u16 \<Rightarrow> int set \<Rightarrow> bool" where
  "update_within E w hdr_len touched \<longleftrightarrow>
     (0 \<le> cur_pos w \<and> cur_pos w + uint hdr_len \<le> 16256 \<longrightarrow>
        (\<exists>m'. update_ip_reass_pkt E w = Some (w\<lparr>data_ptr := m'\<rparr>) \<and> (\<forall>i. i - cur_pos w \<notin> touched \<longrightarrow> m' i = data_ptr w i)))"

lemma build_new_payload:
  assumes fits: "build_fits B as" and pcs: "pieces_of B as P tot" and b: "b = B (hd as)"
    and j: "0 \<le> j" "j < tot"
  shows "data_ptr (build_new B as m) (cur_pos (wd b) + uint (ip_hdr_len b) + j) = P j"
proof -
  let ?q = "cur_pos (wd b) + uint (ip_hdr_len b)"
  have "\<exists>a\<in>set as. frag_covers (B a) (?q + j - ?q)" using pcs j by (simp add: pieces_of_def)
  then have "fold (paste B ?q) as m (?q + j) = P (?q + j - ?q)"
    using pcs unfolding pieces_of_def by (intro paste_agree) blast+
  then show ?thesis by (simp add: build_new_def Let_def b)
qed

lemma build_new_pos:
  assumes "build_fits B as" "b = B (hd as)"
  shows "cur_pos (build_new B as m) = cur_pos (wd b) + uint (ip_hdr_len b)"
proof -
  let ?w = "(wd b)\<lparr>unused8 := (unused8 (wd b) OR UNUSED8_FLAG_IP_REASS_PKT) OR UNUSED8_PKT_HUGE_PKT_WITH_WDATA\<rparr>"
  have "cur_pos (build_new B as m) = cur_pos (sf_wqe_advance_wdata ?w (ip_hdr_len b))"
    by (simp add: build_new_def Let_def assms(2) cur_pos_def)
  also have "\<dots> = cur_pos (wd b) + uint (ip_hdr_len b)"
    using build_fitsD [OF assms(1)] assms(2) by (subst cur_pos_advance) (simp_all add: cur_pos_def)
  finally show ?thesis .
qed

lemma build_new_fields:
  "data_ptr (build_new B as m) = fold (paste B (cur_pos (wd (B (hd as))) + uint (ip_hdr_len (B (hd as))))) as m"
  "current_length (build_new B as m) = (\<Sum>a\<leftarrow>as. frag_size (B a))"
  "ip_payload_len (ip_wdata (build_new B as m)) = (\<Sum>a\<leftarrow>as. frag_size (B a))"
  "reass_over (ip_wdata (build_new B as m)) = 1"
  "unused8 (build_new B as m) AND UNUSED8_FLAG_IP_REASS_PKT \<noteq> 0"
  "ip_version (ip_wdata (build_new B as m)) = ip_version (ip_wdata (wd (B (hd as))))"
  "ip_header_len (ip_wdata (build_new B as m)) = ip_header_len (ip_wdata (wd (B (hd as))))"
  using is_reass_pkt_new [of "unused8 (wd (B (hd as)))"]
  by (simp_all add: build_new_def Let_def sf_wqe_advance_wdata_def)

lemma build_within:
  assumes fits: "build_fits B as" and b: "b = B (hd as)"
    and touched: "touched \<subseteq> {0..<uint (ip_hdr_len b)}"
    and un: "unfrag_within fam (ip_hdr_len b) touched"
    and up: "\<And>m. update_within E (sf_wqe_advance_wdata (build_new B as m) (- ip_hdr_len b)) (ip_hdr_len b) touched"
  obtains m m' where "fam_unfrag fam (cur_pos (wd b)) (ip_hdr_len b) (build_base E b) = Some m"
    and "frag_build_wdata fam E B (hd as) =
      Some ((build_new B as m)\<lparr>data_ptr := m'\<rparr>, sum_list (map (\<lambda>a. followed_nodes_cnt (B a) + 1) as))"
    and "ip_reass_output b = 0 \<longrightarrow> m' = data_ptr (build_new B as m)"
    and "ip_reass_output b \<noteq> 0 \<longrightarrow> update_ip_reass_pkt E (sf_wqe_advance_wdata (build_new B as m) (- ip_hdr_len b))
       = Some ((sf_wqe_advance_wdata (build_new B as m) (- ip_hdr_len b))\<lparr>data_ptr := m'\<rparr>)"
    and "\<forall>i. i - cur_pos (wd b) \<notin> touched \<longrightarrow> m' i = data_ptr (build_new B as m) i"
    and "\<forall>i. i - cur_pos (wd b) \<notin> touched \<longrightarrow> m i = build_base E b i"
proof -
  note pos = build_fitsD [OF fits, folded b]
  obtain m where m: "fam_unfrag fam (cur_pos (wd b)) (ip_hdr_len b) (build_base E b) = Some m"
    "\<forall>i. i - cur_pos (wd b) \<notin> touched \<longrightarrow> m i = build_base E b i"
    using un pos unfolding unfrag_within_def by blast
  note eq = frag_build_wdata_eq [OF fits refl b m(1) refl]
  let ?new = "build_new B as m"
  let ?bk = "sf_wqe_advance_wdata ?new (- ip_hdr_len b)"
  have bpos: "cur_pos ?bk = cur_pos (wd b)"
    by (simp add: cur_pos_def build_new_def Let_def sf_wqe_advance_wdata_def b)
  show ?thesis
  proof (cases "ip_reass_output b = 0")
    case True
    then show ?thesis using that [OF m(1), of "data_ptr ?new"] eq m by simp
  next
    case False
    obtain m' where m': "update_ip_reass_pkt E ?bk = Some (?bk\<lparr>data_ptr := m'\<rparr>)"
      "\<forall>i. i - cur_pos (wd b) \<notin> touched \<longrightarrow> m' i = data_ptr ?new i"
      using up [of m] pos unfolding update_within_def bpos by auto
    have "sf_wqe_advance_wdata (?bk\<lparr>data_ptr := m'\<rparr>) (ip_hdr_len b) = ?new\<lparr>data_ptr := m'\<rparr>"
      by (simp add: sf_wqe_advance_wdata_def)
    then have "frag_build_wdata fam E B (hd as) =
      Some (?new\<lparr>data_ptr := m'\<rparr>, sum_list (map (\<lambda>a. followed_nodes_cnt (B a) + 1) as))"
      using eq m'(1) False by simp
    then show ?thesis using that [OF m(1), of m'] False m' m(2) by simp
  qed
qed

lemma build_rebuilt:
  assumes fits: "build_fits B as" and pcs: "pieces_of B as P tot" and b: "b = B (hd as)"
    and touched: "touched \<subseteq> {0..<uint (ip_hdr_len b)}"
    and m': "\<forall>i. i - cur_pos (wd b) \<notin> touched \<longrightarrow> m' i = data_ptr (build_new B as m) i"
    and m: "\<forall>i. i - cur_pos (wd b) \<notin> touched \<longrightarrow> m i = build_base E b i"
  shows "rebuilt B as P tot touched (old\<lparr>wd := (build_new B as m)\<lparr>data_ptr := m'\<rparr>,
      followed_nodes_cnt := sum_list (map (\<lambda>a. followed_nodes_cnt (B a) + 1) as),
      ip_reass_output := ip_reass_output b, rec_interface_id := rec_interface_id b,
      child_frag := Some (hd as), next_frag := None\<rparr>)"
proof -
  let ?p = "cur_pos (wd b)" and ?h = "uint (ip_hdr_len b)"
  have pay: "m' (?p + ?h + j) = P j" if "0 \<le> j" "j < tot" for j
  proof -
    have "?p + ?h + j - ?p \<notin> touched" using touched that(1) by auto
    then show ?thesis using m' build_new_payload [OF fits pcs b that, of m] by simp
  qed
  have hdr: "m' i = data_ptr (wd b) i" if "0 \<le> i" "i < ?p + ?h" "i - ?p \<notin> touched" for i
  proof -
    have "m' i = fold (paste B (?p + ?h)) as m i" using m' that by (simp add: build_new_fields b)
    also have "\<dots> = m i" by (rule before_payload [OF that(2)])
    also have "\<dots> = data_ptr (wd b) i" using m that by (simp add: build_base_def)
    finally show ?thesis .
  qed
  have pos: "cur_pos ((build_new B as m)\<lparr>data_ptr := m'\<rparr>) = ?p + ?h"
    using build_new_pos [OF fits b, of m] by (simp add: cur_pos_def)
  show ?thesis
    using pay hdr pos pieces_total [OF fits pcs]
    by (simp add: rebuilt_def Let_def b is_reass_pkt_def build_new_fields del: sum_list.Cons)
qed

subsection \<open>IPv4 and IPv6\<close>

lemma store8_ok: "- 128 \<le> p \<Longrightarrow> p + 1 \<le> 16256 \<Longrightarrow> store8 p v m = Some (m(p := v))"
  unfolding store8_def by (subst memcpy_in_ok) (auto simp: fun_eq_iff)

lemma store16_ok:
  "- 128 \<le> p \<Longrightarrow> p + 2 \<le> 16256 \<Longrightarrow> store16 p v m = Some (m(p := ucast v, p + 1 := ucast (drop_bit 8 v)))"
  unfolding store16_def by (subst memcpy_in_ok) (auto simp: fun_eq_iff)

lemma ip4_unfrag_eq:
  "0 \<le> p \<Longrightarrow> p + 8 \<le> 16256 \<Longrightarrow> ip4_unfrag p h m = Some (m(p + 6 := 0, p + 7 := 0))"
proof -
  assume p: "0 \<le> p" "p + 8 \<le> 16256"
  have "(x AND 0x1F) AND 0xE0 = 0" for x :: u8 by (simp add: and.assoc)
  then show ?thesis using p by (simp add: ip4_unfrag_def store8_ok)
qed

lemma ip6_unfrag_eq:
  assumes "0 \<le> p" "p + uint h \<le> 16256" "8 \<le> uint h" "f = p + uint h - 8"
  shows "ip6_unfrag p h m = Some (m(f + 3 := m (f + 3) AND 0x06, f + 2 := 0))"
proof -
  have "(x AND 0xFE) AND 0x07 = x AND 0x06" for x :: u8 by (simp add: and.assoc)
  moreover have "uint IPV6_FRAG_HEADER_LEN = 8" by (simp add: IPV6_FRAG_HEADER_LEN_def)
  ultimately show ?thesis using assms by (simp add: ip6_unfrag_def store8_ok Let_def)
qed

definition ip4_touched :: "int set" where
  "ip4_touched = {2, 3, 6, 7, 10, 11}"

definition ip6_touched :: "u16 \<Rightarrow> int set" where
  "ip6_touched h = {4, 5, uint h - 6, uint h - 5}"

lemma ip4_unfrag_within: "20 \<le> uint h \<Longrightarrow> unfrag_within ip4_family h ip4_touched"
  unfolding unfrag_within_def ip4_family_def ip4_touched_def by (auto simp: ip4_unfrag_eq)

lemma ip6_unfrag_within: "48 \<le> uint h \<Longrightarrow> unfrag_within ip6_family h (ip6_touched h)"
  unfolding unfrag_within_def ip6_family_def ip6_touched_def by (auto simp: ip6_unfrag_eq)

definition put16 :: "int \<Rightarrow> u16 \<Rightarrow> (int \<Rightarrow> u8) \<Rightarrow> int \<Rightarrow> u8" where
  "put16 p v m = m(p := ucast v, p + 1 := ucast (drop_bit 8 v))"

lemma ld16_put16: "ld16 (put16 p v m) p = v"
proof -
  have "ucast (ucast v :: u8) OR push_bit 8 (ucast (ucast (drop_bit 8 v) :: u8)) = v"
    by (rule bit_word_eqI) (auto simp: bit_simps not_less)
  then show ?thesis by (simp add: ld16_def put16_def)
qed

lemma update_ip4_eq:
  assumes "ip_version (ip_wdata w) = IP_VERSION_4" "0 \<le> cur_pos w" "cur_pos w + 20 \<le> 16256"
    and m: "m = put16 (cur_pos w + 2) (clib_net_to_host_u16 (ip_header_len (ip_wdata w) + ip_payload_len (ip_wdata w))) (data_ptr w)"
  shows "update_ip_reass_pkt E w =
    Some (w\<lparr>data_ptr := put16 (cur_pos w + 10) (ip4_header_checksum E m (cur_pos w)) m\<rparr>)"
  using assms by (simp add: update_ip_reass_pkt_def store16_ok put16_def Let_def)

lemma update_ip6_eq:
  assumes "ip_version (ip_wdata w) \<noteq> IP_VERSION_4" "0 \<le> cur_pos w" "cur_pos w + 40 \<le> 16256"
  shows "update_ip_reass_pkt E w = Some (w\<lparr>data_ptr := put16 (cur_pos w + 4)
      (clib_net_to_host_u16 (ip_header_len (ip_wdata w) + ip_payload_len (ip_wdata w) - IPV6_HEADER_LEN)) (data_ptr w)\<rparr>)"
  using assms by (simp add: update_ip_reass_pkt_def store16_ok put16_def Let_def)

lemma update_ip4_within:
  assumes "ip_version (ip_wdata w) = IP_VERSION_4" "20 \<le> uint h"
  shows "update_within E w h ip4_touched"
  unfolding update_within_def
proof
  assume "0 \<le> cur_pos w \<and> cur_pos w + uint h \<le> 16256"
  then have "0 \<le> cur_pos w" "cur_pos w + 20 \<le> 16256" using assms(2) by linarith+
  from update_ip4_eq [OF assms(1) this refl, of E]
  show "\<exists>m'. update_ip_reass_pkt E w = Some (w\<lparr>data_ptr := m'\<rparr>) \<and> (\<forall>i. i - cur_pos w \<notin> ip4_touched \<longrightarrow> m' i = data_ptr w i)"
    by (auto simp: put16_def ip4_touched_def)
qed

lemma update_ip6_within:
  assumes "ip_version (ip_wdata w) \<noteq> IP_VERSION_4" "48 \<le> uint h"
  shows "update_within E w h (ip6_touched h)"
  unfolding update_within_def
proof
  assume "0 \<le> cur_pos w \<and> cur_pos w + uint h \<le> 16256"
  then have "0 \<le> cur_pos w" "cur_pos w + 40 \<le> 16256" using assms(2) by linarith+
  from update_ip6_eq [OF assms(1) this, of E]
  show "\<exists>m'. update_ip_reass_pkt E w = Some (w\<lparr>data_ptr := m'\<rparr>) \<and> (\<forall>i. i - cur_pos w \<notin> ip6_touched h \<longrightarrow> m' i = data_ptr w i)"
    by (auto simp: put16_def ip6_touched_def)
qed

lemma back_fields [simp]:
  "ip_wdata (sf_wqe_advance_wdata w l) = ip_wdata w"
  by (simp add: sf_wqe_advance_wdata_def)

section \<open>Properties\<close>

lemma frag_build_pkt_new:
  assumes "alloc_node_from_pool (env_worker E) (hpool w) = Some (pool, Some a)"
    and "frag_build_wdata fam E (rbufs w) h = Some (new, cnt)" and b: "b = rbufs w h"
  shows "frag_build_pkt fam E (Some nb) h st w = Some (nb, 0, w\<lparr>hpool := pool, rbufs := (rbufs w)(nb :=
      (rbufs w nb)\<lparr>wd := new, followed_nodes_cnt := cnt, ip_reass_output := ip_reass_output b,
        rec_interface_id := rec_interface_id b, child_frag := Some h, next_frag := None\<rparr>)\<rparr>)"
  using assms(1,2) by (simp add: frag_build_pkt_def alloc_huge_pkt_16k_def b Let_def)

lemma wdata_data_ptr_inject: "w\<lparr>data_ptr := x\<rparr> = w\<lparr>data_ptr := y\<rparr> \<Longrightarrow> x = y"
  by (metis sf_wdata_t.select_convs(7) sf_wdata_t.surjective sf_wdata_t.update_convs(7))

lemma ip4_build:
  assumes fits: "build_fits B as" and b: "b = B (hd as)"
    and hdr: "20 \<le> uint (ip_hdr_len b)" "ip_version (ip_wdata (wd b)) = IP_VERSION_4" and p: "p = cur_pos (wd b)"
  obtains m m' where "frag_build_wdata ip4_family E B (hd as) =
      Some ((build_new B as m)\<lparr>data_ptr := m'\<rparr>, sum_list (map (\<lambda>a. followed_nodes_cnt (B a) + 1) as))"
    and "\<forall>i. i - p \<notin> ip4_touched \<longrightarrow> m' i = data_ptr (build_new B as m) i"
    and "\<forall>i. i - p \<notin> ip4_touched \<longrightarrow> m i = build_base E b i"
    and "m' (p + 6) = 0" "m' (p + 7) = 0"
    and "ip_reass_output b \<noteq> 0 \<longrightarrow> ld16 m' (p + 2)
      = clib_net_to_host_u16 (ip_header_len (ip_wdata (wd b)) + (\<Sum>a\<leftarrow>as. frag_size (B a)))"
proof -
  let ?h = "ip_hdr_len b"
  have t: "ip4_touched \<subseteq> {0..<uint ?h}" using hdr(1) by (auto simp: ip4_touched_def)
  have up: "update_within E (sf_wqe_advance_wdata (build_new B as m) (- ?h)) ?h ip4_touched" for m
    using hdr b by (intro update_ip4_within) (simp_all add: build_new_fields)
  obtain m m' where m: "fam_unfrag ip4_family (cur_pos (wd b)) ?h (build_base E b) = Some m"
    and w: "frag_build_wdata ip4_family E B (hd as) =
      Some ((build_new B as m)\<lparr>data_ptr := m'\<rparr>, sum_list (map (\<lambda>a. followed_nodes_cnt (B a) + 1) as))"
    and off: "ip_reass_output b = 0 \<longrightarrow> m' = data_ptr (build_new B as m)"
    and out: "ip_reass_output b \<noteq> 0 \<longrightarrow> update_ip_reass_pkt E (sf_wqe_advance_wdata (build_new B as m) (- ?h))
       = Some ((sf_wqe_advance_wdata (build_new B as m) (- ?h))\<lparr>data_ptr := m'\<rparr>)"
    and m': "\<forall>i. i - cur_pos (wd b) \<notin> ip4_touched \<longrightarrow> m' i = data_ptr (build_new B as m) i"
    and base: "\<forall>i. i - cur_pos (wd b) \<notin> ip4_touched \<longrightarrow> m i = build_base E b i"
    by (rule build_within [OF fits b t ip4_unfrag_within [OF hdr(1)] up])
  let ?new = "build_new B as m"
  note pos = build_fitsD [OF fits, folded b, folded p]
  have lo: "data_ptr ?new i = m i" if "i < p + 20" for i
    unfolding build_new_fields using that hdr(1) by (intro before_payload) (simp add: b p)
  have "m = (build_base E b)(p + 6 := 0, p + 7 := 0)"
    using m pos hdr(1) by (simp add: ip4_family_def ip4_unfrag_eq p)
  then have z: "m (p + 6) = 0" "m (p + 7) = 0" by simp_all
  let ?bk = "sf_wqe_advance_wdata ?new (- ?h)"
  have bpos: "cur_pos ?bk = p"
    by (simp add: cur_pos_def build_new_def Let_def sf_wqe_advance_wdata_def b p)
  have shape: "\<exists>c. m' = put16 (p + 10) c (put16 (p + 2) (clib_net_to_host_u16 (ip_header_len (ip_wdata (wd b))
      + (\<Sum>a\<leftarrow>as. frag_size (B a)))) (data_ptr ?new))" if "ip_reass_output b \<noteq> 0"
  proof -
    have "update_ip_reass_pkt E ?bk = Some (?bk\<lparr>data_ptr := put16 (cur_pos ?bk + 10)
       (ip4_header_checksum E (put16 (cur_pos ?bk + 2) (clib_net_to_host_u16 (ip_header_len (ip_wdata ?bk) + ip_payload_len (ip_wdata ?bk))) (data_ptr ?bk)) (cur_pos ?bk))
       (put16 (cur_pos ?bk + 2) (clib_net_to_host_u16 (ip_header_len (ip_wdata ?bk) + ip_payload_len (ip_wdata ?bk))) (data_ptr ?bk))\<rparr>)"
      using pos hdr by (intro update_ip4_eq [OF _ _ _ refl]) (simp_all add: bpos build_new_fields b [symmetric])
    with out [rule_format, OF that] show ?thesis
      by (auto simp: bpos build_new_fields b [symmetric] dest!: wdata_data_ptr_inject)
  qed
  have zs: "m' (p + 6) = 0" "m' (p + 7) = 0"
    using off shape lo z by (cases "ip_reass_output b = 0"; auto simp: put16_def)+
  have "ld16 m' (p + 2) = clib_net_to_host_u16 (ip_header_len (ip_wdata (wd b)) + (\<Sum>a\<leftarrow>as. frag_size (B a)))"
    if on: "ip_reass_output b \<noteq> 0"
  proof -
    obtain c where c: "m' = put16 (p + 10) c (put16 (p + 2) (clib_net_to_host_u16 (ip_header_len (ip_wdata (wd b))
      + (\<Sum>a\<leftarrow>as. frag_size (B a)))) (data_ptr ?new))" using shape [OF on] by blast
    have "ld16 (put16 (p + 10) c x) (p + 2) = ld16 x (p + 2)" for x by (simp add: ld16_def put16_def)
    then show ?thesis unfolding c by (simp add: ld16_put16)
  qed
  then show ?thesis using that [OF w] m' base zs by (simp add: p)
qed

text \<open>C23: When the fragments of a flow are pieces of one IPv4 datagram that cover it, and the datagram fits
  into the 16 KB buffer, \<open>ip4_frag_build_pkt\<close> writes only inside that buffer and produces the
  datagram: the window of the new packet is the payload, byte for byte, in whatever order the
  fragments are linked; everything before it is copied from the first fragment, except that the
  header no longer describes a fragment and, for an interface that outputs reassembled packets, has
  the new total length and checksum.  The new packet points to the fragments and counts them.\<close>

theorem ip4_build_correct:
  assumes "build_fits (rbufs w) as" "pieces_of (rbufs w) as P tot" and b: "b = rbufs w (hd as)"
    and "20 \<le> uint (ip_hdr_len b)" "ip_version (ip_wdata (wd b)) = IP_VERSION_4"
    and "alloc_node_from_pool (env_worker E) (hpool w) = Some (pool, Some a)"
  shows "\<exists>new. ip4_frag_build_pkt E (Some nb) (hd as) st w = Some (nb, 0, w\<lparr>hpool := pool, rbufs := (rbufs w)(nb := new)\<rparr>)
    \<and> rebuilt (rbufs w) as P tot ip4_touched new
    \<and> \<not> ip4_is_frag (data_ptr (wd new)) (cur_pos (wd b))
    \<and> (ip_reass_output b \<noteq> 0 \<longrightarrow> clib_net_to_host_u16 (ld16 (data_ptr (wd new)) (cur_pos (wd b) + 2))
         = ip_header_len (ip_wdata (wd b)) + ip_payload_len (ip_wdata (wd new)))"
proof -
  let ?B = "rbufs w"
  obtain m m' where w: "frag_build_wdata ip4_family E ?B (hd as) =
      Some ((build_new ?B as m)\<lparr>data_ptr := m'\<rparr>, sum_list (map (\<lambda>a. followed_nodes_cnt (?B a) + 1) as))"
    and m': "\<forall>i. i - cur_pos (wd b) \<notin> ip4_touched \<longrightarrow> m' i = data_ptr (build_new ?B as m) i"
    and base: "\<forall>i. i - cur_pos (wd b) \<notin> ip4_touched \<longrightarrow> m i = build_base E b i"
    and z: "m' (cur_pos (wd b) + 6) = 0" "m' (cur_pos (wd b) + 7) = 0"
    and out: "ip_reass_output b \<noteq> 0 \<longrightarrow> ld16 m' (cur_pos (wd b) + 2)
      = clib_net_to_host_u16 (ip_header_len (ip_wdata (wd b)) + (\<Sum>a\<leftarrow>as. frag_size (?B a)))"
    by (rule ip4_build [OF assms(1) b assms(4,5) refl])
  have t: "ip4_touched \<subseteq> {0..<uint (ip_hdr_len b)}" using assms(4) by (auto simp: ip4_touched_def)
  define new where "new = (?B nb)\<lparr>wd := (build_new ?B as m)\<lparr>data_ptr := m'\<rparr>,
      followed_nodes_cnt := sum_list (map (\<lambda>a. followed_nodes_cnt (?B a) + 1) as),
      ip_reass_output := ip_reass_output b, rec_interface_id := rec_interface_id b,
      child_frag := Some (hd as), next_frag := None\<rparr>"
  have r: "rebuilt ?B as P tot ip4_touched new"
    unfolding new_def by (rule build_rebuilt [OF assms(1,2) b t m' base])
  have wd: "wd new = (build_new ?B as m)\<lparr>data_ptr := m'\<rparr>" by (simp add: new_def)
  show ?thesis
    unfolding ip4_frag_build_pkt_def frag_build_pkt_new [OF assms(6) w b, of nb st, folded new_def]
    using r z out by (intro exI [of _ new])
      (simp add: wd ip4_is_frag_def ip4_flags_def ip4_offset_5bit_def build_new_fields net_to_host_involutive)
qed

lemma frag_bits:
  fixes x :: u8
  assumes "x AND 0xF9 = 0"
  shows "x AND 1 = 0 \<and> drop_bit 3 x = 0"
proof -
  have no: "\<not> bit x n" if "n = 0 \<or> 3 \<le> n" for n
  proof (cases "n < 8")
    case True
    then have "n \<in> {0, 3, 4, 5, 6, 7}" using that by auto
    then have "bit (0xF9 :: u8) n" by (elim insertE emptyE) simp_all
    moreover have "\<not> bit (x AND 0xF9) n" using assms by simp
    ultimately show ?thesis by (simp add: bit_and_iff)
  next
    case False
    then show ?thesis using bit_imp_le_length [of x n] by auto
  qed
  show ?thesis
    by (auto simp: bit_simps no intro!: bit_word_eqI)
qed

lemma ip6_build:
  assumes fits: "build_fits B as" and b: "b = B (hd as)"
    and hdr: "48 \<le> uint (ip_hdr_len b)" "ip_version (ip_wdata (wd b)) \<noteq> IP_VERSION_4"
    and p: "p = cur_pos (wd b)" and f: "f = p + uint (ip_hdr_len b) - 8"
  obtains m m' where "frag_build_wdata ip6_family E B (hd as) =
      Some ((build_new B as m)\<lparr>data_ptr := m'\<rparr>, sum_list (map (\<lambda>a. followed_nodes_cnt (B a) + 1) as))"
    and "\<forall>i. i - p \<notin> ip6_touched (ip_hdr_len b) \<longrightarrow> m' i = data_ptr (build_new B as m) i"
    and "\<forall>i. i - p \<notin> ip6_touched (ip_hdr_len b) \<longrightarrow> m i = build_base E b i"
    and "m' (f + 2) = 0" "m' (f + 3) AND 0xF9 = 0"
    and "ip_reass_output b \<noteq> 0 \<longrightarrow> ld16 m' (p + 4)
      = clib_net_to_host_u16 (ip_header_len (ip_wdata (wd b)) + (\<Sum>a\<leftarrow>as. frag_size (B a)) - IPV6_HEADER_LEN)"
proof -
  let ?h = "ip_hdr_len b"
  have t: "ip6_touched ?h \<subseteq> {0..<uint ?h}" using hdr(1) by (auto simp: ip6_touched_def)
  have up: "update_within E (sf_wqe_advance_wdata (build_new B as m) (- ?h)) ?h (ip6_touched ?h)" for m
    using hdr b by (intro update_ip6_within) (simp_all add: build_new_fields)
  obtain m m' where m: "fam_unfrag ip6_family (cur_pos (wd b)) ?h (build_base E b) = Some m"
    and w: "frag_build_wdata ip6_family E B (hd as) =
      Some ((build_new B as m)\<lparr>data_ptr := m'\<rparr>, sum_list (map (\<lambda>a. followed_nodes_cnt (B a) + 1) as))"
    and off: "ip_reass_output b = 0 \<longrightarrow> m' = data_ptr (build_new B as m)"
    and out: "ip_reass_output b \<noteq> 0 \<longrightarrow> update_ip_reass_pkt E (sf_wqe_advance_wdata (build_new B as m) (- ?h))
       = Some ((sf_wqe_advance_wdata (build_new B as m) (- ?h))\<lparr>data_ptr := m'\<rparr>)"
    and m': "\<forall>i. i - cur_pos (wd b) \<notin> ip6_touched ?h \<longrightarrow> m' i = data_ptr (build_new B as m) i"
    and base: "\<forall>i. i - cur_pos (wd b) \<notin> ip6_touched ?h \<longrightarrow> m i = build_base E b i"
    by (rule build_within [OF fits b t ip6_unfrag_within [OF hdr(1)] up])
  let ?new = "build_new B as m"
  note pos = build_fitsD [OF fits, folded b, folded p]
  have lo: "data_ptr ?new i = m i" if "i < f + 8" for i
    unfolding build_new_fields using that by (intro before_payload) (simp add: b [symmetric] f p)
  have "m = (build_base E b)(f + 3 := build_base E b (f + 3) AND 0x06, f + 2 := 0)"
    using m pos hdr(1) by (simp add: ip6_family_def ip6_unfrag_eq [where f = f] p f)
  moreover have "(x AND 0x06) AND 0xF9 = 0" for x :: u8 by (simp add: and.assoc)
  ultimately have z: "m (f + 2) = 0" "m (f + 3) AND 0xF9 = 0" by simp_all
  let ?bk = "sf_wqe_advance_wdata ?new (- ?h)"
  have bpos: "cur_pos ?bk = p"
    by (simp add: cur_pos_def build_new_def Let_def sf_wqe_advance_wdata_def b p)
  have shape: "m' = put16 (p + 4) (clib_net_to_host_u16 (ip_header_len (ip_wdata (wd b))
      + (\<Sum>a\<leftarrow>as. frag_size (B a)) - IPV6_HEADER_LEN)) (data_ptr ?new)" if "ip_reass_output b \<noteq> 0"
  proof -
    have "update_ip_reass_pkt E ?bk = Some (?bk\<lparr>data_ptr := put16 (cur_pos ?bk + 4)
       (clib_net_to_host_u16 (ip_header_len (ip_wdata ?bk) + ip_payload_len (ip_wdata ?bk) - IPV6_HEADER_LEN)) (data_ptr ?bk)\<rparr>)"
      using pos hdr by (intro update_ip6_eq) (simp_all add: bpos build_new_fields b [symmetric])
    with out [rule_format, OF that] show ?thesis
      by (auto simp: bpos build_new_fields b [symmetric] dest!: wdata_data_ptr_inject)
  qed
  have "f + 2 \<noteq> p + 4" "f + 2 \<noteq> p + 5" "f + 3 \<noteq> p + 4" "f + 3 \<noteq> p + 5" using hdr(1) f by linarith+
  then have zs: "m' (f + 2) = 0" "m' (f + 3) AND 0xF9 = 0"
    using off shape lo [of "f + 2"] lo [of "f + 3"] z by (cases "ip_reass_output b = 0"; simp add: put16_def)+
  show ?thesis using that [OF w] m' base zs shape by (simp add: p ld16_put16)
qed

text \<open>C24: The same for IPv6 and \<open>ip6_frag_build_pkt\<close>: the datagram is rebuilt inside the 16 KB buffer; the
  fragment header stays in the packet, with the more-fragments flag and the offset cleared, and the
  payload length is updated for interfaces that output reassembled packets.\<close>

theorem ip6_build_correct:
  assumes "build_fits (rbufs w) as" "pieces_of (rbufs w) as P tot" and b: "b = rbufs w (hd as)"
    and "48 \<le> uint (ip_hdr_len b)" "ip_version (ip_wdata (wd b)) = IP_VERSION_6"
    and "alloc_node_from_pool (env_worker E) (hpool w) = Some (pool, Some a)"
    and f: "f = cur_pos (wd b) + uint (ip_hdr_len b) - 8"
  shows "\<exists>new. ip6_frag_build_pkt E (Some nb) (hd as) st w = Some (nb, 0, w\<lparr>hpool := pool, rbufs := (rbufs w)(nb := new)\<rparr>)
    \<and> rebuilt (rbufs w) as P tot (ip6_touched (ip_hdr_len b)) new
    \<and> get_ip6_frag_flag (data_ptr (wd new)) f = 0 \<and> get_ip6_frag_offset (data_ptr (wd new)) f = 0
    \<and> (ip_reass_output b \<noteq> 0 \<longrightarrow> clib_net_to_host_u16 (ld16 (data_ptr (wd new)) (cur_pos (wd b) + 4))
         = ip_header_len (ip_wdata (wd b)) + ip_payload_len (ip_wdata (wd new)) - IPV6_HEADER_LEN)"
proof -
  let ?B = "rbufs w" and ?t = "ip6_touched (ip_hdr_len b)"
  have v6: "ip_version (ip_wdata (wd b)) \<noteq> IP_VERSION_4" using assms(5) by (simp add: IP_VERSION_6_def IP_VERSION_4_def)
  obtain m m' where w: "frag_build_wdata ip6_family E ?B (hd as) =
      Some ((build_new ?B as m)\<lparr>data_ptr := m'\<rparr>, sum_list (map (\<lambda>a. followed_nodes_cnt (?B a) + 1) as))"
    and m': "\<forall>i. i - cur_pos (wd b) \<notin> ?t \<longrightarrow> m' i = data_ptr (build_new ?B as m) i"
    and base: "\<forall>i. i - cur_pos (wd b) \<notin> ?t \<longrightarrow> m i = build_base E b i"
    and z: "m' (f + 2) = 0" "m' (f + 3) AND 0xF9 = 0"
    and out: "ip_reass_output b \<noteq> 0 \<longrightarrow> ld16 m' (cur_pos (wd b) + 4)
      = clib_net_to_host_u16 (ip_header_len (ip_wdata (wd b)) + (\<Sum>a\<leftarrow>as. frag_size (?B a)) - IPV6_HEADER_LEN)"
    by (rule ip6_build [OF assms(1) b assms(4) v6 refl f])
  have t: "?t \<subseteq> {0..<uint (ip_hdr_len b)}" using assms(4) by (auto simp: ip6_touched_def)
  define new where "new = (?B nb)\<lparr>wd := (build_new ?B as m)\<lparr>data_ptr := m'\<rparr>,
      followed_nodes_cnt := sum_list (map (\<lambda>a. followed_nodes_cnt (?B a) + 1) as),
      ip_reass_output := ip_reass_output b, rec_interface_id := rec_interface_id b,
      child_frag := Some (hd as), next_frag := None\<rparr>"
  have r: "rebuilt ?B as P tot ?t new"
    unfolding new_def by (rule build_rebuilt [OF assms(1,2) b t m' base])
  have wd: "wd new = (build_new ?B as m)\<lparr>data_ptr := m'\<rparr>" by (simp add: new_def)
  show ?thesis
    unfolding ip6_frag_build_pkt_def frag_build_pkt_new [OF assms(6) w b, of nb st, folded new_def]
    using r z frag_bits [OF z(2)] out by (intro exI [of _ new])
      (simp add: wd get_ip6_frag_flag_def get_ip6_frag_offset_def build_new_fields net_to_host_involutive)
qed

text \<open>A flow of two fragments of eight bytes each, the payload bytes being their positions, for the examples.\<close>

definition ex_frag :: "u8 \<Rightarrow> u16 \<Rightarrow> u16 \<Rightarrow> u16 \<Rightarrow> ptr \<Rightarrow> reass_buf" where
  "ex_frag version hl off sz nx = (ex_rbuf 0 None nx 0)\<lparr>
     wd := (let w = ex_wdata (\<lambda>i. word_of_int (i - uint hl + uint off)) (hl + sz) in
            w\<lparr>ip_wdata := (ip_wdata w)\<lparr>ip_version := version, ip_header_len := hl\<rparr>\<rparr>),
     frag_offset := off, frag_size := sz, ip_hdr_len := hl\<rparr>"

definition ex_frags :: "u8 \<Rightarrow> u16 \<Rightarrow> reass_bufs" where
  "ex_frags version hl a = (if a = 1 then ex_frag version hl 0 8 (Some 2) else ex_frag version hl 8 8 None)"

definition ex_rtimers :: "(int, ip_reass_timer_data_t) timer_world" where
  "ex_rtimers = \<lparr>tw_timer_array = tw_timer_array ex_timers, next_index_vec = replicate 8 0,
     timer_info_pool = ex_pool, timer_chunk_pool = ex_pool, tchunks = tchunks ex_timers,
     tinfos = (\<lambda>_. \<lparr>recv = 0, timer_hash_index = 0, timer_pnode = None\<rparr>), expired_timer_cnt = (\<lambda>_. 0)\<rparr>"

definition ex_reass :: "reass_bufs \<Rightarrow> int reass_world" where
  "ex_reass B = \<lparr>rbufs = B, rtab = ex_hash_world, rflows = (\<lambda>_. zero_flow), rrecs = ex_rec, rpool = ex_pool,
     hpool = ex_pool, rtimers = ex_rtimers, rstats = (\<lambda>_ _ _. 0)\<rparr>"

definition ex_env :: "int reass_env" where
  "ex_env = \<lparr>env_f64 = ex_f64, env_now = 0,
     env_config = \<lparr>timeout_sec = 3, ip_reass_layers = (\<lambda>_. 1), ip_reass_output_enable = (\<lambda>_. 0)\<rparr>,
     getHashIndex = (\<lambda>_. 0), ip4_header_checksum = (\<lambda>_ _. 0), env_worker = 0, env_junk = (\<lambda>_. 0xAA)\<rparr>"

lemmas ex_frags_simps = ex_frags_def ex_frag_def ex_rbuf_def ex_wdata_def cur_pos_def Let_def

lemma ex_frags_fit:
  assumes "version = 4 \<and> hl = 20 \<or> version = 6 \<and> hl = 48"
  shows "build_fits (ex_frags version hl) [1, 2]"
  using assms by (auto simp: build_fits_def ex_frags_simps frag_end_def)

lemma ex_frags_pieces:
  assumes "version = 4 \<and> hl = 20 \<or> version = 6 \<and> hl = 48"
  shows "pieces_of (ex_frags version hl) [1, 2] word_of_int 16"
  using assms by (auto simp: pieces_of_def ex_frags_simps frag_covers_def frag_byte_def)

lemma ex_huge: "\<exists>pool a. alloc_node_from_pool (env_worker ex_env) (hpool (ex_reass B)) = Some (pool, Some a)"
  using ex_pool_alloc [of 0] by (auto simp: ex_env_def ex_reass_def)

theorem ip4_build_correct_witness:
  "\<exists>pool new. ip4_frag_build_pkt ex_env (Some 9) 1 2 (ex_reass (ex_frags 4 20))
      = Some (9, 0, (ex_reass (ex_frags 4 20))\<lparr>hpool := pool, rbufs := (ex_frags 4 20)(9 := new)\<rparr>)
    \<and> uint (current_length (wd new)) = 16 \<and> data_ptr (wd new) 33 = 13"
proof -
  let ?w = "ex_reass (ex_frags 4 20)"
  have B: "rbufs ?w = ex_frags 4 20" by (simp add: ex_reass_def)
  obtain pool a where al: "alloc_node_from_pool (env_worker ex_env) (hpool ?w) = Some (pool, Some a)"
    using ex_huge by blast
  have h: "20 \<le> uint (ip_hdr_len (ex_frags 4 20 (hd [1, 2])))"
    "ip_version (ip_wdata (wd (ex_frags 4 20 (hd [1, 2])))) = IP_VERSION_4"
    "cur_pos (wd (ex_frags 4 20 1)) = 0" "uint (ip_hdr_len (ex_frags 4 20 1)) = 20"
    by (simp_all add: ex_frags_simps IP_VERSION_4_def)
  obtain new where "ip4_frag_build_pkt ex_env (Some 9) 1 2 ?w = Some (9, 0, ?w\<lparr>hpool := pool, rbufs := (ex_frags 4 20)(9 := new)\<rparr>)"
    and r: "rebuilt (ex_frags 4 20) [1, 2] word_of_int 16 ip4_touched new"
    using ip4_build_correct [of ?w "[1, 2]" word_of_int 16 _ ex_env pool a 9 2, unfolded B, OF _ _ refl h(1,2) al]
      ex_frags_fit [of 4 20] ex_frags_pieces [of 4 20] by auto
  moreover have "uint (current_length (wd new)) = 16" "data_ptr (wd new) (0 + 20 + 13) = word_of_int 13"
    using rebuiltD(1) [OF r] rebuiltD(2) [OF r, of 13, unfolded list.sel h(3,4)] by simp_all
  ultimately show ?thesis by (intro exI conjI) simp_all
qed

theorem ip6_build_correct_witness:
  "\<exists>pool new. ip6_frag_build_pkt ex_env (Some 9) 1 2 (ex_reass (ex_frags 6 48))
      = Some (9, 0, (ex_reass (ex_frags 6 48))\<lparr>hpool := pool, rbufs := (ex_frags 6 48)(9 := new)\<rparr>)
    \<and> uint (current_length (wd new)) = 16 \<and> data_ptr (wd new) 61 = 13"
proof -
  let ?w = "ex_reass (ex_frags 6 48)"
  have B: "rbufs ?w = ex_frags 6 48" by (simp add: ex_reass_def)
  obtain pool a where al: "alloc_node_from_pool (env_worker ex_env) (hpool ?w) = Some (pool, Some a)"
    using ex_huge by blast
  have h: "48 \<le> uint (ip_hdr_len (ex_frags 6 48 (hd [1, 2])))"
    "ip_version (ip_wdata (wd (ex_frags 6 48 (hd [1, 2])))) = IP_VERSION_6"
    "cur_pos (wd (ex_frags 6 48 1)) = 0" "uint (ip_hdr_len (ex_frags 6 48 1)) = 48"
    by (simp_all add: ex_frags_simps IP_VERSION_6_def)
  obtain new where "ip6_frag_build_pkt ex_env (Some 9) 1 2 ?w = Some (9, 0, ?w\<lparr>hpool := pool, rbufs := (ex_frags 6 48)(9 := new)\<rparr>)"
    and r: "rebuilt (ex_frags 6 48) [1, 2] word_of_int 16 (ip6_touched (ip_hdr_len (ex_frags 6 48 (hd [1, 2])))) new"
    using ip6_build_correct [of ?w "[1, 2]" word_of_int 16 _ ex_env pool a _ 9 2, unfolded B, OF _ _ refl h(1,2) al refl]
      ex_frags_fit [of 6 48] ex_frags_pieces [of 6 48] by auto
  moreover have "uint (current_length (wd new)) = 16" "data_ptr (wd new) (0 + 48 + 13) = word_of_int 13"
    using rebuiltD(1) [OF r] rebuiltD(2) [OF r, of 13, unfolded list.sel h(3,4)] by simp_all
  ultimately show ?thesis by (intro exI conjI) simp_all
qed

text \<open>C25: The exact condition for memory safety.  Given a first fragment with a complete IPv4 header inside
  its buffer, building the packet writes outside the 16 KB buffer if and only if some fragment ends,
  counted from the start of the payload behind the copied headers, beyond the 16256 bytes of the
  buffer.  The caller's check leaves the header length out of this sum.\<close>

theorem build_memory_safe_iff:
  assumes "frags_chain B (Some h) as" "0 \<le> cur_pos (wd (B h))" "cur_pos (wd (B h)) + uint (ip_hdr_len (B h)) < 2 ^ 15"
    and "20 \<le> uint (ip_hdr_len (B h))" "ip_version (ip_wdata (wd (B h))) = IP_VERSION_4"
  shows "frag_build_wdata ip4_family E B h = None \<longleftrightarrow>
    (\<exists>a\<in>set as. SF_HUGE_PKT_MAX_DATA_SIZE < cur_pos (wd (B h)) + uint (ip_hdr_len (B h)) + frag_end (B a))"
proof (cases "\<exists>a\<in>set as. 16256 < cur_pos (wd (B h)) + uint (ip_hdr_len (B h)) + frag_end (B a)")
  case True
  then show ?thesis using build_overflow [OF assms(1-3) True] by (simp add: SF_HUGE_PKT_MAX_DATA_SIZE_def)
next
  case False
  have h: "hd as = h" "as \<noteq> []" using assms(1) by (auto simp: chain_Some)
  have fits: "build_fits B as"
    using False assms(1,2) h unfolding build_fits_def by (auto simp: not_less)
  have "frag_build_wdata ip4_family E B (hd as) \<noteq> None"
    using assms(4,5) h by (auto intro: ip4_build [OF fits refl _ _ refl, of E])
  then show ?thesis using False h by (simp add: SF_HUGE_PKT_MAX_DATA_SIZE_def)
qed

theorem build_memory_safe_iff_witness:
  "frag_build_wdata ip4_family ex_env (ex_frags 4 20) 1 \<noteq> None"
  using build_memory_safe_iff [of "ex_frags 4 20" 1 "[1, 2]" ex_env]
  by (simp add: ex_frags_simps frag_end_def IP_VERSION_4_def SF_HUGE_PKT_MAX_DATA_SIZE_def)

text \<open>
  Fragments that do not overlap and lie in \<open>[0, tot)\<close>: then the sum of their sizes reaches \<open>tot\<close> exactly
  when every byte is covered, which is the test of the code.
\<close>

definition frags_tile :: "reass_bufs \<Rightarrow> addr list \<Rightarrow> int \<Rightarrow> bool" where
  "frags_tile B as tot \<longleftrightarrow> distinct as \<and> (\<forall>a\<in>set as. frag_end (B a) \<le> tot)
     \<and> (\<forall>a\<in>set as. \<forall>b\<in>set as. a \<noteq> b \<longrightarrow> (\<forall>j. \<not> (frag_covers (B a) j \<and> frag_covers (B b) j)))"

lemma int_sum_list_unat: "int (\<Sum>a\<leftarrow>as. unat (f a :: u16)) = (\<Sum>a\<leftarrow>as. uint (f a))"
  by (induction as) auto

lemma tile_cover:
  assumes "frags_tile B as tot" "0 \<le> tot"
  shows "(\<Sum>a\<leftarrow>as. uint (frag_size (B a))) = tot \<longleftrightarrow> (\<forall>j. 0 \<le> j \<and> j < tot \<longrightarrow> (\<exists>a\<in>set as. frag_covers (B a) j))"
proof -
  let ?S = "\<lambda>a. {uint (frag_offset (B a))..<frag_end (B a)}"
  let ?U = "\<Union>a\<in>set as. ?S a"
  have S: "j \<in> ?S a \<longleftrightarrow> frag_covers (B a) j" for a j by (simp add: frag_covers_def frag_end_def)
  have sub: "?U \<subseteq> {0..<tot}"
    using assms(1) by (fastforce simp: frags_tile_def dest: order_trans [OF uint_ge_0])
  have "card ?U = (\<Sum>a\<in>set as. card (?S a))"
  proof (rule card_UN_disjoint)
    show "\<forall>a\<in>set as. \<forall>b\<in>set as. a \<noteq> b \<longrightarrow> ?S a \<inter> ?S b = {}"
      using assms(1) S unfolding frags_tile_def by blast
  qed simp_all
  also have "\<dots> = (\<Sum>a\<leftarrow>as. nat (uint (frag_size (B a))))"
    using assms(1) by (simp add: frags_tile_def sum_list_distinct_conv_sum_set frag_end_def)
  finally have "int (card ?U) = (\<Sum>a\<leftarrow>as. uint (frag_size (B a)))"
    by (simp add: int_sum_list_unat)
  moreover have "card {0..<tot} = nat tot" by simp
  ultimately have "(\<Sum>a\<leftarrow>as. uint (frag_size (B a))) = tot \<longleftrightarrow> card ?U = card {0..<tot}"
    using assms(2) by (auto simp: nat_eq_iff2)
  also have "\<dots> \<longleftrightarrow> ?U = {0..<tot}"
  proof
    assume "card ?U = card {0..<tot}"
    then show "?U = {0..<tot}" by (rule card_subset_eq [OF finite_atLeastLessThan_int sub])
  qed (simp only:)
  also have "\<dots> \<longleftrightarrow> (\<forall>j. 0 \<le> j \<and> j < tot \<longrightarrow> (\<exists>a\<in>set as. frag_covers (B a) j))"
  proof -
    have "?U = {0..<tot} \<longleftrightarrow> {0..<tot} \<subseteq> ?U" using sub by blast
    also have "\<dots> \<longleftrightarrow> (\<forall>j\<in>{0..<tot}. \<exists>a\<in>set as. j \<in> ?S a)" by (simp only: subset_iff UN_iff Ball_def)
    finally show ?thesis unfolding S by (simp only: Ball_def atLeastLessThan_iff)
  qed
  finally show ?thesis .
qed

text \<open>A byte of the payload that no fragment covers keeps what the 16 KB buffer held before.\<close>

lemma build_hole:
  assumes fits: "build_fits B as" and b: "b = B (hd as)"
    and hdr: "20 \<le> uint (ip_hdr_len b)" "ip_version (ip_wdata (wd b)) = IP_VERSION_4"
    and j: "0 \<le> j" "\<forall>a\<in>set as. \<not> frag_covers (B a) j"
  obtains new cnt where "frag_build_wdata ip4_family E B (hd as) = Some (new, cnt)"
    and "data_ptr new (cur_pos (wd b) + uint (ip_hdr_len b) + j) = env_junk E (cur_pos (wd b) + uint (ip_hdr_len b) + j)"
proof -
  let ?q = "cur_pos (wd b) + uint (ip_hdr_len b)"
  obtain m m' where w: "frag_build_wdata ip4_family E B (hd as) =
      Some ((build_new B as m)\<lparr>data_ptr := m'\<rparr>, sum_list (map (\<lambda>a. followed_nodes_cnt (B a) + 1) as))"
    and m': "\<forall>i. i - cur_pos (wd b) \<notin> ip4_touched \<longrightarrow> m' i = data_ptr (build_new B as m) i"
    and base: "\<forall>i. i - cur_pos (wd b) \<notin> ip4_touched \<longrightarrow> m i = build_base E b i"
    by (rule ip4_build [OF fits b hdr refl])
  have out: "?q + j - cur_pos (wd b) \<notin> ip4_touched"
    using hdr(1) j(1) by (auto simp: ip4_touched_def)
  have "m' (?q + j) = fold (paste B ?q) as m (?q + j)" using m' out by (simp add: build_new_fields b)
  also have "\<dots> = m (?q + j)" using j(2) by (intro paste_outside) simp
  also have "\<dots> = env_junk E (?q + j)" using base out j(1) by (simp add: build_base_def)
  finally show ?thesis by (intro that [OF w]) simp
qed

end
