(* ===== verification/Reass_Proc.thy ===== *)
theory Reass_Proc
  imports Reass_Build
begin

text \<open>
  Caching fragments (\<open>ip4_frag_proc\<close>, \<open>ip6_frag_proc\<close>, \<open>ip_reass_timer.h\<close>): the table of flows, each
  with the list of its fragments and a timer.  \<open>None\<close> is a memory error.  The bucket lock of the table
  makes one call a single step.
\<close>

section \<open>Timers and nodes\<close>

definition zero_timer_data :: ip_reass_timer_data_t where
  "zero_timer_data = \<lparr>recv = 0, timer_hash_index = 0, timer_pnode = None\<rparr>"

definition ip_reass_submit_timer ::
  "'f reass_env \<Rightarrow> addr \<Rightarrow> u32 \<Rightarrow> u32 \<Rightarrow> 'f reass_world \<Rightarrow> (int \<times> 'f reass_world) option" where
  "ip_reass_submit_timer E pnode hash_index timeout w =
    do { (t, r) \<leftarrow> alloc_timer_info (env_worker E) (rtimers w);
         case r of
           None \<Rightarrow> Some (-1, w\<lparr>rtimers := t\<rparr>)
         | Some info \<Rightarrow>
             do { let t = t\<lparr>tinfos := (tinfos t)(info :=
                         (tinfos t info)\<lparr>timer_pnode := Some pnode, timer_hash_index := hash_index\<rparr>)\<rparr>;
                  (ret, rec, t) \<leftarrow> sf_submit_timer_tw (env_f64 E) (env_worker E) info SF_TW_TIMER_GROUP_IP_REASS (timeout * 10) t;
                  if ret \<noteq> 0 then
                    do { t \<leftarrow> free_timer_info (env_worker E) t info;
                         Some (-1, w\<lparr>rtimers := t\<rparr>) }
                  else
                    Some (0, w\<lparr>rtimers := t, rrecs := (case rec of None \<Rightarrow> rrecs w | Some r \<Rightarrow> (rrecs w)(pnode := r))\<rparr>) } }"

definition ip_reass_delete_timer :: "'f reass_env \<Rightarrow> addr \<Rightarrow> 'f reass_world \<Rightarrow> 'f reass_world option" where
  "ip_reass_delete_timer E pnode w =
    do { t \<leftarrow> sf_stop_timer_void (env_f64 E) (env_now E) zero_timer_data (env_worker E) (rrecs w pnode) (rtimers w);
         Some (w\<lparr>rtimers := t\<rparr>) }"

definition alloc_ip_reass_hash_node :: "'f reass_env \<Rightarrow> 'f reass_world \<Rightarrow> ('f reass_world \<times> ptr) option" where
  "alloc_ip_reass_hash_node E w =
    do { (pool, r) \<leftarrow> alloc_node_from_pool (env_worker E) (rpool w); Some (w\<lparr>rpool := pool\<rparr>, r) }"

definition free_ip_reass_hash_node :: "'f reass_env \<Rightarrow> addr \<Rightarrow> 'f reass_world \<Rightarrow> 'f reass_world option" where
  "free_ip_reass_hash_node E pnode w =
    do { pool \<leftarrow> free_node_to_pool (env_worker E) (rpool w) pnode; Some (w\<lparr>rpool := pool\<rparr>) }"

definition bump :: "'f reass_env \<Rightarrow> u8 \<Rightarrow> reass_stat \<Rightarrow> 'f reass_world \<Rightarrow> 'f reass_world" where
  "bump E intf member w = w\<lparr>rstats := update_ip_reass_stat (env_worker E) (ucast intf) member (rstats w)\<rparr>"

section \<open>One fragment\<close>

text \<open>The record of a fragment, filled from its headers.\<close>

definition frag_record :: "reass_family \<Rightarrow> 'f reass_env \<Rightarrow> reass_buf \<Rightarrow> reass_buf" where
  "frag_record fam E b =
    (let w = wd b;
         b = b\<lparr>next_frag := None, frag_offset := push_bit 3 (fam_offset fam w),
               frag_size := ip_payload_len (ip_wdata w), ip_hdr_len := ip_header_len (ip_wdata w),
               rec_interface_id := interface_id w,
               ip_reass_output := ip_reass_output_enable (env_config E) (interface_id w)\<rparr>
     in if is_reass_pkt b then b else b\<lparr>followed_nodes_cnt := 0\<rparr>)"

text \<open>The loop that looks for a fragment with the same offset.\<close>

partial_function (option) dup_loop :: "reass_bufs \<Rightarrow> u16 \<Rightarrow> ptr \<Rightarrow> bool option" where
  "dup_loop B off tmp =
    (case tmp of
       None \<Rightarrow> Some False
     | Some a \<Rightarrow> if frag_offset (B a) = off then Some True else dup_loop B off (next_frag (B a)))"

text \<open>Taking a flow out of the table and stopping its timer.\<close>

definition unlink_flow :: "'f reass_env \<Rightarrow> addr \<Rightarrow> u32 \<Rightarrow> 'f reass_world \<Rightarrow> 'f reass_world option" where
  "unlink_flow E pnode hash_index w =
    do { w \<leftarrow> ip_reass_delete_timer E pnode w;
         tab \<leftarrow> hashFreeNode (rtab w) pnode hash_index;
         Some (w\<lparr>rtab := tab\<rparr>) }"

text \<open>Giving up on a flow: all its fragments are returned, to be handled as \<open>cache_pkt_num\<close> packets.\<close>

definition give_up :: "'f reass_env \<Rightarrow> addr \<Rightarrow> addr \<Rightarrow> u32 \<Rightarrow> reass_stat \<Rightarrow> 'f reass_world \<Rightarrow> (ptr \<times> int \<times> 'f reass_world) option" where
  "give_up E b0 pnode hash_index reason w =
    do { w \<leftarrow> unlink_flow E pnode hash_index w;
         let ret_buffer = frag_head (rflows w pnode);
         let ret_status = uint (cache_pkt_num (rflows w pnode));
         w \<leftarrow> free_ip_reass_hash_node E pnode w;
         let intf = rec_interface_id (rbufs w b0);
         Some (ret_buffer, ret_status, bump E intf reason (bump E intf ip_reass_timer_delete w)) }"

text \<open>The flow is known; the two early exits, the test for completeness, or waiting for more.\<close>

definition append_frag :: "addr \<Rightarrow> addr \<Rightarrow> 'f reass_world \<Rightarrow> 'f reass_world option" where
  "append_frag b0 pnode w =
    do { tl \<leftarrow> frag_tail (rflows w pnode);
         Some (w\<lparr>rbufs := (rbufs w)(tl := (rbufs w tl)\<lparr>next_frag := Some b0\<rparr>),
                 rflows := (rflows w)(pnode := (rflows w pnode)\<lparr>frag_tail := Some b0,
                             cache_pkt_num := cache_pkt_num (rflows w pnode) + 1\<rparr>)\<rparr>) }"

definition frag_known ::
  "reass_family \<Rightarrow> 'f reass_env \<Rightarrow> ptr \<Rightarrow> addr \<Rightarrow> addr \<Rightarrow> u32 \<Rightarrow> 'f reass_world \<Rightarrow> (ptr \<times> int \<times> 'f reass_world) option" where
  "frag_known fam E vpp b0 pnode hash_index w =
    do { dup \<leftarrow> dup_loop (rbufs w) (frag_offset (rbufs w b0)) (frag_head (rflows w pnode));
         if dup then Some (Some b0, 1, w)
         else
           do { w \<leftarrow> append_frag b0 pnode w;
                let b = rbufs w b0;
                let d = rflows w pnode;
                let is_last = fam_last fam (wd b);
                let d' = (if is_last then d\<lparr>recv_last_frag := 1, total_len := frag_offset b + frag_size b\<rparr> else d);
                let w' = w\<lparr>rflows := (rflows w)(pnode := d')\<rparr>;
                if cache_pkt_num d \<ge> of_nat IP_REASS_MAX_CACHE_PKTS then give_up E b0 pnode hash_index ip_reass_fail_too_many w
                else if is_last \<and> uint (total_len d') + sint (current_data (wd b)) > SF_HUGE_PKT_MAX_DATA_SIZE
                then give_up E b0 pnode hash_index ip_reass_fail_too_large w'
                else
                  (let d'' = d'\<lparr>meet_len := meet_len d' + frag_size b\<rparr>;
                       w'' = w'\<lparr>rflows := (rflows w')(pnode := d'')\<rparr>
                   in if meet_len d'' = total_len d'' then
                        do { w \<leftarrow> unlink_flow E pnode hash_index w'';
                             head \<leftarrow> frag_head (rflows w pnode);
                             (ret_buffer, ret_status, w) \<leftarrow>
                               frag_build_pkt fam E vpp head (uint (cache_pkt_num (rflows w pnode))) w;
                             w \<leftarrow> free_ip_reass_hash_node E pnode w;
                             Some (Some ret_buffer, ret_status, bump E (rec_interface_id b) ip_reass_timer_delete w) }
                      else
                        Some (None, 0, w''\<lparr>rflows := (rflows w'')(pnode := d''\<lparr>recv_new_pkt_in_interval := 1\<rparr>)\<rparr>)) } }"

text \<open>The flow is new.\<close>

definition frag_new ::
  "reass_family \<Rightarrow> 'f reass_env \<Rightarrow> addr \<Rightarrow> key_ip_reass_t \<Rightarrow> u32 \<Rightarrow> 'f reass_world \<Rightarrow> (ptr \<times> int \<times> 'f reass_world) option" where
  "frag_new fam E b0 key hash_index w =
    do { (w, r) \<leftarrow> alloc_ip_reass_hash_node E w;
         case r of
           None \<Rightarrow> Some (Some b0, 1, w)
         | Some pnode \<Rightarrow>
             do { let w = w\<lparr>rflows := (rflows w)(pnode := zero_flow\<lparr>flow_key := key\<rparr>)\<rparr>;
                  (ret, tab) \<leftarrow> hashInsertNode (rtab w) hash_index pnode;
                  let w = w\<lparr>rtab := tab\<rparr>;
                  if ret \<noteq> 0 then
                    do { w \<leftarrow> free_ip_reass_hash_node E pnode w; Some (Some b0, 1, w) }
                  else
                    do { (ret, w) \<leftarrow> ip_reass_submit_timer E pnode hash_index (timeout_sec (env_config E)) w;
                         if ret \<noteq> 0 then
                           do { tab \<leftarrow> hashFreeNode (rtab w) pnode hash_index;
                                w \<leftarrow> free_ip_reass_hash_node E pnode (w\<lparr>rtab := tab\<rparr>);
                                Some (Some b0, 1, w) }
                         else
                           (let b = rbufs w b0;
                                w = bump E (rec_interface_id b) ip_reass_timer_submit w;
                                d = (rflows w pnode)\<lparr>frag_head := Some b0, frag_tail := Some b0,
                                       flow_interface_id := ucast (rec_interface_id b)\<rparr>;
                                d = (if fam_last fam (wd b)
                                     then d\<lparr>recv_last_frag := 1, total_len := frag_offset b + frag_size b\<rparr> else d);
                                d = d\<lparr>meet_len := meet_len d + frag_size b\<rparr>
                            in Some (None, 0, w\<lparr>rbufs := (rbufs w)(b0 := b\<lparr>next_frag := None\<rparr>),
                                                rflows := (rflows w)(pnode := d)\<rparr>)) } } }"

text \<open>The result is \<open>*ret_buffer\<close>, \<open>*ret_status\<close> and the new state.\<close>

definition frag_proc ::
  "reass_family \<Rightarrow> 'f reass_env \<Rightarrow> ptr \<Rightarrow> addr \<Rightarrow> 'f reass_world \<Rightarrow> (ptr \<times> int \<times> 'f reass_world) option" where
  "frag_proc fam E vpp b0 w =
    (let w = w\<lparr>rbufs := (rbufs w)(b0 := frag_record fam E (rbufs w b0))\<rparr>;
         wdata = wd (rbufs w b0)
     in if ip_reass_layers (env_config E) (interface_id wdata) < ip_wdata_cnt wdata then Some (Some b0, -1, w)
        else
          do { let key = fam_key fam wdata;
               let hash_index = getHashIndex E (key_bytes key);
               pnode \<leftarrow> hashFindNode_memcmp (\<lambda>a. key_bytes (flow_key (rflows w a))) (rtab w) hash_index (key_bytes key) 40;
               case pnode of
                 Some pnode \<Rightarrow> frag_known fam E vpp b0 pnode hash_index w
               | None \<Rightarrow> frag_new fam E b0 key hash_index w })"

definition ip4_frag_proc :: "'f reass_env \<Rightarrow> ptr \<Rightarrow> addr \<Rightarrow> 'f reass_world \<Rightarrow> (ptr \<times> int \<times> 'f reass_world) option" where
  "ip4_frag_proc = frag_proc ip4_family"

definition ip6_frag_proc :: "'f reass_env \<Rightarrow> ptr \<Rightarrow> addr \<Rightarrow> 'f reass_world \<Rightarrow> (ptr \<times> int \<times> 'f reass_world) option" where
  "ip6_frag_proc = frag_proc ip6_family"

section \<open>Invariant\<close>

text \<open>
  \<open>f\<close> maps the nodes in the table to the hash each is stored under, \<open>fr\<close> a node to the list of its
  fragments.  Every node allocated from the pool is in the table, no two flows have the same key or
  share a fragment or a timer.
\<close>

definition tab_ok :: "'f reass_env \<Rightarrow> 'f reass_world \<Rightarrow> (addr \<rightharpoonup> u32) \<Rightarrow> bool" where
  "tab_ok E w f \<longleftrightarrow> hash_rep (rtab w) f
     \<and> (\<forall>a\<in>dom f. f a = Some (getHashIndex E (key_bytes (flow_key (rflows w a)))))
     \<and> inj_on (\<lambda>a. flow_key (rflows w a)) (dom f)"

definition nodes_ok :: "'f reass_env \<Rightarrow> pool_world \<Rightarrow> addr set \<Rightarrow> bool" where
  "nodes_ok E pool N \<longleftrightarrow> valid_worker pool (env_worker E) \<and> (\<exists>outs. pool_inv pool outs \<and> set outs = N)"

definition timers_ok :: "'f reass_env \<Rightarrow> ('f, ip_reass_timer_data_t) timer_world \<Rightarrow> (addr \<Rightarrow> 'f sf_timer_record_t) \<Rightarrow> addr set \<Rightarrow> bool" where
  "timers_ok E t recs N \<longleftrightarrow>
     (\<exists>Ws infos. timers_inv t Ws \<and> env_worker E < length Ws
        \<and> pool_inv (timer_info_pool t) infos \<and> valid_worker (timer_info_pool t) (env_worker E)
        \<and> (\<forall>a\<in>N. snd (slot_handler (recs a)) < SF_TW_TIMER_SLOT_CNT \<and> timer_info (recs a) \<in> set infos))
   \<and> inj_on (\<lambda>a. timer_info (recs a)) N"

text \<open>
  The family a fragment was decoded as, and the total length as the code knows it: that of the last
  fragment seen, 0 before.
\<close>

definition frag_fam :: "reass_buf \<Rightarrow> reass_family" where
  "frag_fam b = (if ip_version (ip_wdata (wd b)) = IP_VERSION_4 then ip4_family else ip6_family)"

definition is_last :: "reass_buf \<Rightarrow> bool" where
  "is_last b = fam_last (frag_fam b) (wd b)"

definition total_of :: "reass_bufs \<Rightarrow> addr list \<Rightarrow> u16" where
  "total_of B as = foldl (\<lambda>t a. if is_last (B a) then frag_offset (B a) + frag_size (B a) else t) 0 as"

definition size_of :: "reass_bufs \<Rightarrow> addr list \<Rightarrow> u16" where
  "size_of B as = (\<Sum>a\<leftarrow>as. frag_size (B a))"

definition flow_ok :: "reass_bufs \<Rightarrow> node_ip_reass_t \<Rightarrow> addr list \<Rightarrow> bool" where
  "flow_ok B d as \<longleftrightarrow> as \<noteq> [] \<and> frags_chain B (frag_head d) as \<and> frag_tail d = Some (last as)
     \<and> cache_pkt_num d = of_nat (length as - 1) \<and> length as \<le> IP_REASS_MAX_CACHE_PKTS
     \<and> distinct as \<and> distinct (map (\<lambda>a. frag_offset (B a)) as)
     \<and> meet_len d = size_of B as \<and> total_len d = total_of B as"

definition flows_ok :: "reass_bufs \<Rightarrow> (addr \<Rightarrow> node_ip_reass_t) \<Rightarrow> addr set \<Rightarrow> (addr \<Rightarrow> addr list) \<Rightarrow> bool" where
  "flows_ok B d N fr \<longleftrightarrow> finite N \<and> (\<forall>a\<in>N. flow_ok B (d a) (fr a))
     \<and> (\<forall>a\<in>N. \<forall>b\<in>N. a \<noteq> b \<longrightarrow> set (fr a) \<inter> set (fr b) = {})"

definition reass_inv :: "'f reass_env \<Rightarrow> 'f reass_world \<Rightarrow> (addr \<rightharpoonup> u32) \<Rightarrow> (addr \<Rightarrow> addr list) \<Rightarrow> bool" where
  "reass_inv E w f fr \<longleftrightarrow> tab_ok E w f \<and> nodes_ok E (rpool w) (dom f)
     \<and> timers_ok E (rtimers w) (rrecs w) (dom f) \<and> flows_ok (rbufs w) (rflows w) (dom f) fr
     \<and> (\<exists>H. nodes_ok E (hpool w) H)"

text \<open>The buffers that wait in some flow.\<close>

definition cached :: "(addr \<rightharpoonup> u32) \<Rightarrow> (addr \<Rightarrow> addr list) \<Rightarrow> addr set" where
  "cached f fr = (\<Union>a\<in>dom f. set (fr a))"

subsection \<open>The parts\<close>

lemma hashFindNode_memcmp_eq:
  "hashFindNode_memcmp data w h key n = hashFindNode w h (\<lambda>a. take n key = take n (data a))"
  by (simp add: hashFindNode_memcmp_def hashFindNode_def)

lemma find_flow:
  assumes "tab_ok E w f"
  shows "hashFindNode_memcmp (\<lambda>a. key_bytes (flow_key (rflows w a))) (rtab w) (getHashIndex E (key_bytes k)) (key_bytes k) 40
      = Some (Some a) \<longleftrightarrow> a \<in> dom f \<and> flow_key (rflows w a) = k"
    and "hashFindNode_memcmp (\<lambda>a. key_bytes (flow_key (rflows w a))) (rtab w) (getHashIndex E (key_bytes k)) (key_bytes k) 40
      = Some None \<longleftrightarrow> k \<notin> (\<lambda>a. flow_key (rflows w a)) ` dom f"
proof -
  let ?H = "\<lambda>k. getHashIndex E (key_bytes k)" and ?key = "\<lambda>a. flow_key (rflows w a)"
  have cmp: "(\<lambda>a. take 40 (key_bytes k) = take 40 (key_bytes (?key a))) = (\<lambda>a. ?key a = k)"
    by (auto simp: key_bytes_inject fun_eq_iff)
  have rep: "hash_rep (rtab w) f" "\<forall>a\<in>dom f. f a = Some (?H (?key a))" "inj_on ?key (dom f)"
    using assms by (simp_all add: tab_ok_def)
  show "hashFindNode_memcmp (\<lambda>a. key_bytes (?key a)) (rtab w) (?H k) (key_bytes k) 40 = Some (Some a) \<longleftrightarrow> a \<in> dom f \<and> ?key a = k"
    unfolding hashFindNode_memcmp_eq cmp by (rule ght.find_key [OF rep])
  show "hashFindNode_memcmp (\<lambda>a. key_bytes (?key a)) (rtab w) (?H k) (key_bytes k) 40 = Some None \<longleftrightarrow> k \<notin> ?key ` dom f"
    unfolding hashFindNode_memcmp_eq cmp by (rule ght.find_key_none [OF rep])
qed

lemma find_flow_total:
  assumes "tab_ok E w f"
  shows "\<exists>r. hashFindNode_memcmp data (rtab w) h key n = Some r"
  unfolding hashFindNode_memcmp_eq using assms ght.find_total by (auto simp: tab_ok_def)

lemma nodes_alloc:
  assumes "nodes_ok E pool N"
  shows "\<exists>pool' r. alloc_node_from_pool (env_worker E) pool = Some (pool', r)
    \<and> (case r of None \<Rightarrow> nodes_ok E pool' N | Some a \<Rightarrow> a \<notin> N \<and> nodes_ok E pool' (insert a N))"
proof -
  obtain outs where o: "pool_inv pool outs" "set outs = N" and v: "valid_worker pool (env_worker E)"
    using assms by (auto simp: nodes_ok_def)
  obtain pool' r where al: "alloc_node_from_pool (env_worker E) pool = Some (pool', r)"
    "pool_inv pool' (case r of None \<Rightarrow> outs | Some p \<Rightarrow> p # outs)"
    using sfp.alloc_total [OF o(1) v] by blast
  have v': "valid_worker pool' (env_worker E)" using sfp.alloc_valid [OF o(1) v al(1)] v by simp
  show ?thesis
  proof (cases r)
    case None
    then show ?thesis using al v' o(2) by (auto simp: nodes_ok_def)
  next
    case (Some a)
    then have "a \<notin> set outs \<and> pool_inv pool' (a # outs)" using sfp.alloc_fresh [OF o(1) v] al(1) by blast
    then show ?thesis using Some al(1) v' o(2) by (auto simp: nodes_ok_def intro!: exI [of _ "a # outs"])
  qed
qed

lemma nodes_free:
  assumes "nodes_ok E pool N" "a \<in> N"
  shows "\<exists>pool'. free_node_to_pool (env_worker E) pool a = Some pool' \<and> nodes_ok E pool' (N - {a})"
proof -
  obtain outs where o: "pool_inv pool outs" "set outs = N" and v: "valid_worker pool (env_worker E)"
    using assms by (auto simp: nodes_ok_def)
  have a: "a \<in> set outs" using assms(2) o(2) by simp
  obtain pool' where fr: "free_node_to_pool (env_worker E) pool a = Some pool'" "pool_inv pool' (remove1 a outs)"
    using sfp.release_total [OF o(1) v a] by blast
  have "valid_worker pool' (env_worker E)" using sfp.release_valid [OF o(1) v a fr(1)] v by simp
  moreover have "set (remove1 a outs) = N - {a}" using sfp.inv_distinct [OF o(1)] o(2) by simp
  ultimately show ?thesis using fr by (auto simp: nodes_ok_def)
qed

lemma timers_stop:
  assumes "timers_ok E t recs N" "a \<in> N"
  shows "\<exists>t'. sf_stop_timer_void F now z (env_worker E) (recs a) t = Some t' \<and> timers_ok E t' recs (N - {a})"
proof -
  let ?wi = "env_worker E"
  obtain Ws infos where inv: "timers_inv t Ws" "?wi < length Ws"
    and pool: "pool_inv (timer_info_pool t) infos" "valid_worker (timer_info_pool t) ?wi"
    and rec: "\<forall>a\<in>N. snd (slot_handler (recs a)) < SF_TW_TIMER_SLOT_CNT \<and> timer_info (recs a) \<in> set infos"
    and inj: "inj_on (\<lambda>a. timer_info (recs a)) N"
    using assms(1) by (auto simp: timers_ok_def)
  have a: "snd (slot_handler (recs a)) < SF_TW_TIMER_SLOT_CNT" "timer_info (recs a) \<in> set infos" using rec assms(2) by auto
  obtain t' where t': "sf_stop_timer_void F now z ?wi (recs a) t = Some t'"
    "if f_lt F now (safe_clib_time (recs a))
       then timers_inv t' (map (wheel_clear (slot_handler (recs a))) Ws) \<and> pool_inv (timer_info_pool t') (remove1 (timer_info (recs a)) infos)
       else timers_inv t' Ws \<and> tinfos t' = (tinfos t)(timer_info (recs a) := z) \<and> timer_info_pool t' = timer_info_pool t"
    "valid_worker (timer_info_pool t') ?wi"
    using stop_timer_inv [OF inv(1) a(1) pool a(2), of F now z ?wi] pool(2) by blast
  have others: "timer_info (recs b) \<in> set (remove1 (timer_info (recs a)) infos)" if "b \<in> N - {a}" for b
    using that rec inj assms(2) sfp.inv_distinct [OF pool(1)] by (auto dest: inj_onD)
  have inj': "inj_on (\<lambda>a. timer_info (recs a)) (N - {a})" using inj by (rule inj_on_subset) blast
  show ?thesis
  proof (cases "f_lt F now (safe_clib_time (recs a))")
    case True
    then have "timers_ok E t' recs (N - {a})"
      unfolding timers_ok_def using t' inv(2) rec others inj'
      by (intro conjI exI [of _ "map (wheel_clear (slot_handler (recs a))) Ws"] exI [of _ "remove1 (timer_info (recs a)) infos"]) auto
    then show ?thesis using t'(1) by blast
  next
    case False
    then have "timers_ok E t' recs (N - {a})"
      unfolding timers_ok_def using t' inv(2) rec pool inj' by (intro conjI exI [of _ Ws] exI [of _ infos]) auto
    then show ?thesis using t'(1) by blast
  qed
qed

lemma delete_timer_ok:
  assumes "timers_ok E (rtimers w) (rrecs w) N" "a \<in> N"
  shows "\<exists>t'. ip_reass_delete_timer E a w = Some (w\<lparr>rtimers := t'\<rparr>) \<and> timers_ok E t' (rrecs w) (N - {a})"
  using timers_stop [OF assms, of "env_f64 E" "env_now E" zero_timer_data] by (auto simp: ip_reass_delete_timer_def)

lemma timers_inv_cong:
  "timers_inv (t\<lparr>timer_info_pool := p\<rparr>) Ws = timers_inv t Ws" "timers_inv (t\<lparr>tinfos := x\<rparr>) Ws = timers_inv t Ws"
  by (simp_all add: timers_inv_def)

lemma submit_any:
  assumes inv: "timers_inv t Ws" and wi: "wi < length Ws" and room: "timer_room t wi"
  shows "\<exists>r rec t' Ws'. sf_submit_timer_tw F wi info g ticks t = Some (r, rec, t') \<and> timers_inv t' Ws' \<and> length Ws' = length Ws
    \<and> timer_info_pool t' = timer_info_pool t
    \<and> (r = 0 \<longrightarrow> (\<exists>x. rec = Some x \<and> timer_info x = info \<and> snd (slot_handler x) < SF_TW_TIMER_SLOT_CNT))"
proof (cases "ticks \<le> SF_TIMER_MAX_TICKS")
  case False
  then have "sf_submit_timer_tw F wi info g ticks t = Some (-1, None, t)"
    using timers_wheel(3) [OF inv wi] by (simp add: sf_submit_timer_tw_def not_le Let_def)
  then show ?thesis using inv by auto
next
  case True
  let ?i = "bucket_of (pre_bucket_index (tw_timer_array t ! wi)) ticks"
  have "?i < SF_TW_TIMER_BUCKET_CNT" unfolding bucket_of_def by (rule mask_less)
  note few = timer_room_few [OF inv wi room this]
  consider t' where "sf_submit_timer_tw F wi info g ticks t = Some (-1, None, t')" "timers_inv t' Ws"
    | a rec t' where "sf_submit_timer_tw F wi info g ticks t = Some (0, Some rec, t')"
        "timers_inv t' (Ws[wi := wheel_push ?i a (timer_handle (of_nat info - timer_info_start (tw_timer_array t ! wi)) g) (Ws ! wi)])"
        "slot_handler rec = last_slot (push_handle a (timer_handle (of_nat info - timer_info_start (tw_timer_array t ! wi)) g) (wbuckets (Ws ! wi) ! ?i))"
    using submit_cases [OF inv wi refl few refl True] by blast
  then show ?thesis
  proof cases
    case 1
    then show ?thesis using submit_frame(1) [OF inv wi 1(1)] by auto
  next
    case 2
    then show ?thesis
      using submit_frame(1) [OF inv wi 2(1)] submit_frame(3) [OF inv wi 2(1) refl] last_slot_less
      by (auto intro!: exI [of _ "Ws[wi := _]"])
  qed
qed

lemma inj_on_upd_insert:
  assumes "inj_on (\<lambda>b. g (r b)) N" "a \<notin> N" "\<forall>b\<in>N. g (r b) \<noteq> g x"
  shows "inj_on (\<lambda>b. g ((r(a := x)) b)) (insert a N)"
proof (rule inj_onI)
  fix b c assume "b \<in> insert a N" "c \<in> insert a N" "g ((r(a := x)) b) = g ((r(a := x)) c)"
  then show "b = c" using assms by (cases "b = a"; cases "c = a") (auto dest: inj_onD)
qed

lemma submit_timer_ok:
  assumes ok: "timers_ok E (rtimers w) (rrecs w) N" and a: "a \<notin> N" and room: "timer_room (rtimers w) (env_worker E)"
  shows "\<exists>r t recs. ip_reass_submit_timer E a h timeout w = Some (r, w\<lparr>rtimers := t, rrecs := recs\<rparr>)
    \<and> (\<forall>b. b \<noteq> a \<longrightarrow> recs b = rrecs w b)
    \<and> timers_ok E t recs (if r = 0 then insert a N else N)"
proof -
  let ?wi = "env_worker E" and ?t = "rtimers w"
  obtain Ws infos where inv: "timers_inv ?t Ws" "?wi < length Ws"
    and pool: "pool_inv (timer_info_pool ?t) infos" "valid_worker (timer_info_pool ?t) ?wi"
    and rec: "\<forall>a\<in>N. snd (slot_handler (rrecs w a)) < SF_TW_TIMER_SLOT_CNT \<and> timer_info (rrecs w a) \<in> set infos"
    and inj: "inj_on (\<lambda>a. timer_info (rrecs w a)) N"
    using ok by (auto simp: timers_ok_def)
  obtain p r where al: "alloc_node_from_pool ?wi (timer_info_pool ?t) = Some (p, r)"
    "pool_inv p (case r of None \<Rightarrow> infos | Some x \<Rightarrow> x # infos)"
    using sfp.alloc_total [OF pool] by blast
  have v: "valid_worker p ?wi" using sfp.alloc_valid [OF pool al(1)] pool(2) by simp
  let ?t1 = "?t\<lparr>timer_info_pool := p\<rparr>"
  show ?thesis
  proof (cases r)
    case None
    have "timers_ok E ?t1 (rrecs w) N"
      using al(2) None v inv rec inj by (auto simp: timers_ok_def timers_inv_cong)
    then show ?thesis
      using None al(1) by (auto simp: ip_reass_submit_timer_def alloc_timer_info_def intro!: exI [of _ "rrecs w"])
  next
    case (Some info)
    let ?t2 = "?t1\<lparr>tinfos := (tinfos ?t)(info := (tinfos ?t info)\<lparr>timer_pnode := Some a, timer_hash_index := h\<rparr>)\<rparr>"
    have inv2: "timers_inv ?t2 Ws" "timer_room ?t2 ?wi" using inv(1) room by (simp_all add: timers_inv_cong timer_room_def)
    have fresh: "info \<notin> set infos" "pool_inv p (info # infos)" using sfp.alloc_fresh [OF pool] al(1) Some by blast+
    obtain r' rec' t3 Ws' where sub: "sf_submit_timer_tw (env_f64 E) ?wi info SF_TW_TIMER_GROUP_IP_REASS (timeout * 10) ?t2 = Some (r', rec', t3)"
      "timers_inv t3 Ws'" "length Ws' = length Ws" "timer_info_pool t3 = p"
      "r' = 0 \<longrightarrow> (\<exists>x. rec' = Some x \<and> timer_info x = info \<and> snd (slot_handler x) < SF_TW_TIMER_SLOT_CNT)"
      using submit_any [OF inv2(1) inv(2) inv2(2), of "env_f64 E" info SF_TW_TIMER_GROUP_IP_REASS "timeout * 10"] by auto
    show ?thesis
    proof (cases "r' = 0")
      case True
      then obtain x where x: "rec' = Some x" "timer_info x = info" "snd (slot_handler x) < SF_TW_TIMER_SLOT_CNT"
        using sub(5) by blast
      have inj': "inj_on (\<lambda>b. timer_info (((rrecs w)(a := x)) b)) (insert a N)"
        by (rule inj_on_upd_insert [where g = timer_info, OF inj a]) (use rec fresh(1) x(2) in metis)
      have "timers_ok E t3 ((rrecs w)(a := x)) (insert a N)"
        unfolding timers_ok_def
        using sub(2-4) inv(2) fresh(2) v rec a x inj' by (intro conjI exI [of _ Ws'] exI [of _ "info # infos"]) auto
      moreover have "ip_reass_submit_timer E a h timeout w = Some (0, w\<lparr>rtimers := t3, rrecs := (rrecs w)(a := x)\<rparr>)"
        using al(1) Some sub(1) x(1) True by (simp add: ip_reass_submit_timer_def alloc_timer_info_def)
      ultimately show ?thesis by (intro exI [of _ 0] exI [of _ t3] exI [of _ "(rrecs w)(a := x)"]) simp
    next
      case False
      obtain p' where p': "free_node_to_pool ?wi p info = Some p'" "pool_inv p' infos"
        using sfp.release_total [OF fresh(2) v, of info] by auto
      have v': "valid_worker p' ?wi" using sfp.release_valid [OF fresh(2) v _ p'(1)] v by simp
      have "timers_ok E (t3\<lparr>timer_info_pool := p'\<rparr>) (rrecs w) N"
        unfolding timers_ok_def
        using sub(2-4) inv(2) p'(2) v' rec inj by (intro conjI exI [of _ Ws'] exI [of _ infos]) (auto simp: timers_inv_cong)
      moreover have "ip_reass_submit_timer E a h timeout w = Some (-1, w\<lparr>rtimers := t3\<lparr>timer_info_pool := p'\<rparr>, rrecs := rrecs w\<rparr>)"
        using al(1) Some sub(1,4) False p'(1) by (simp add: ip_reass_submit_timer_def alloc_timer_info_def free_timer_info_def)
      ultimately show ?thesis
        by (intro exI [of _ "-1"] exI [of _ "t3\<lparr>timer_info_pool := p'\<rparr>"] exI [of _ "rrecs w"]) simp
    qed
  qed
qed

subsection \<open>Fragment lists\<close>

lemma dup_loop_correct: "frags_chain B tmp as \<Longrightarrow> dup_loop B off tmp = Some (off \<in> (\<lambda>a. frag_offset (B a)) ` set as)"
proof (induction as arbitrary: tmp)
  case Nil
  then show ?case by (subst dup_loop.simps) simp
next
  case (Cons a as)
  then show ?case by (subst dup_loop.simps) auto
qed

lemma flow_ok_cong:
  assumes "\<forall>a\<in>set as. B' a = B a"
  shows "flow_ok B' d as \<longleftrightarrow> flow_ok B d as"
proof -
  have "frags_chain B' p as \<longleftrightarrow> frags_chain B p as" for p using assms by (intro chain_cong) simp
  moreover have "map (\<lambda>a. frag_offset (B' a)) as = map (\<lambda>a. frag_offset (B a)) as"
    "map (\<lambda>a. frag_size (B' a)) as = map (\<lambda>a. frag_size (B a)) as" using assms by auto
  moreover have "total_of B' as = total_of B as" unfolding total_of_def
    using assms by (intro foldl_cong) auto
  ultimately show ?thesis by (simp only: flow_ok_def size_of_def)
qed

text \<open>Buffers that differ in the link to the next fragment only.\<close>

definition same_frags :: "reass_bufs \<Rightarrow> reass_bufs \<Rightarrow> bool" where
  "same_frags B B' \<longleftrightarrow> (\<forall>a. \<exists>p. B' a = (B a)\<lparr>next_frag := p\<rparr>)"

lemma same_fragsD:
  assumes "same_frags B B'"
  shows "frag_offset (B' a) = frag_offset (B a)" "frag_size (B' a) = frag_size (B a)" "ip_hdr_len (B' a) = ip_hdr_len (B a)"
    "wd (B' a) = wd (B a)" "is_last (B' a) = is_last (B a)" "frag_fam (B' a) = frag_fam (B a)"
    "rec_interface_id (B' a) = rec_interface_id (B a)" "frag_end (B' a) = frag_end (B a)"
proof -
  obtain p where "B' a = (B a)\<lparr>next_frag := p\<rparr>" using assms by (auto simp: same_frags_def)
  then show "frag_offset (B' a) = frag_offset (B a)" "frag_size (B' a) = frag_size (B a)" "ip_hdr_len (B' a) = ip_hdr_len (B a)"
    "wd (B' a) = wd (B a)" "is_last (B' a) = is_last (B a)" "frag_fam (B' a) = frag_fam (B a)"
    "rec_interface_id (B' a) = rec_interface_id (B a)" "frag_end (B' a) = frag_end (B a)"
    by (simp_all add: is_last_def frag_fam_def frag_end_def)
qed

lemma same_frags_sums:
  assumes "same_frags B B'"
  shows "total_of B' as = total_of B as" "size_of B' as = size_of B as"
  unfolding total_of_def size_of_def by (simp_all add: same_fragsD [OF assms] cong: if_cong)

lemma total_snoc: "total_of B (as @ [b]) = (if is_last (B b) then frag_offset (B b) + frag_size (B b) else total_of B as)"
  by (simp add: total_of_def)

lemma size_snoc: "size_of B (as @ [b]) = size_of B as + frag_size (B b)"
  by (simp add: size_of_def)

text \<open>The effect of \<open>append_frag\<close> on the fragments of the flow.\<close>

lemma append_chain:
  assumes "flow_ok B d as" "b0 \<notin> set as" "next_frag (B b0) = None"
    and B': "B' = B(last as := (B (last as))\<lparr>next_frag := Some b0\<rparr>)"
  shows "frags_chain B' (frag_head d) (as @ [b0])" "same_frags B B'" "frag_head d = Some (hd as)"
proof -
  have as: "as = butlast as @ [last as]" "distinct as" using assms(1) by (simp_all add: flow_ok_def)
  have notin: "last as \<notin> set (butlast as)" using as by (metis distinct_append not_distinct_conv_prefix distinct_butlast append_butlast_last_id)
  have "chain ((\<lambda>a. next_frag (B a))(last as := Some b0)) (frag_head d) (butlast as @ [last as] @ [b0])"
    using assms(1,2,3) as notin by (intro chain_relink) (auto simp: flow_ok_def)
  moreover have "(\<lambda>a. next_frag (B a))(last as := Some b0) = (\<lambda>a. next_frag (B' a))" by (auto simp: B')
  ultimately show "frags_chain B' (frag_head d) (as @ [b0])" using as(1) by (metis append.assoc)
  have "\<exists>p. B' a = (B a)\<lparr>next_frag := p\<rparr>" for a
    by (cases "a = last as") (auto simp: B' intro: exI [of _ "next_frag (B a)"])
  then show "same_frags B B'" by (simp add: same_frags_def)
  show "frag_head d = Some (hd as)" using assms(1) by (cases as) (auto simp: flow_ok_def)
qed

section \<open>Specification\<close>

text \<open>
  What reassembly promises, over the flows as a map from keys to lists of fragments.  A fragment is
  rejected (its IP layer is not to be reassembled), waits in its flow, completes it (\<open>Built\<close>: a new
  packet over the fragments), or the packets named by \<open>Failed\<close> are handed on as they are: the
  fragment alone, if it repeats an offset or there is no memory for a new flow, or all of the flow, if it has
  too many fragments or is too large, or no buffer is left for the packet.
\<close>

datatype reass_result = Rejected addr | Waiting | Failed "addr list" | Built addr "addr list"

type_synonym flow_map = "key_ip_reass_t \<rightharpoonup> addr list"

definition repeats :: "reass_bufs \<Rightarrow> addr list \<Rightarrow> addr \<Rightarrow> bool" where
  "repeats B as b \<longleftrightarrow> frag_offset (B b) \<in> (\<lambda>a. frag_offset (B a)) ` set as"

definition too_large :: "reass_buf \<Rightarrow> bool" where
  "too_large b \<longleftrightarrow> is_last b \<and> uint (frag_offset b + frag_size b) + sint (current_data (wd b)) > SF_HUGE_PKT_MAX_DATA_SIZE"

definition complete :: "reass_bufs \<Rightarrow> addr list \<Rightarrow> bool" where
  "complete B as \<longleftrightarrow> size_of B as = total_of B as"

definition builds :: "reass_bufs \<Rightarrow> addr list \<Rightarrow> addr \<Rightarrow> bool" where
  "builds B as b \<longleftrightarrow> \<not> repeats B as b \<and> length as < IP_REASS_MAX_CACHE_PKTS \<and> \<not> too_large (B b) \<and> complete B (as @ [b])"

text \<open>
  What the step depends on beside the flows: whether the fragment has more IP headers than its interface
  reassembles, whether there is memory for a new flow, and the buffer VPP has for a built packet, if it has one.
  These determine the step.
\<close>

record reass_choice =
  too_deep :: bool
  flow_memory :: bool
  vpp_buffer :: ptr

inductive reass_step :: "reass_choice \<Rightarrow> reass_bufs \<Rightarrow> flow_map \<Rightarrow> key_ip_reass_t \<Rightarrow> addr \<Rightarrow> reass_result \<Rightarrow> flow_map \<Rightarrow> bool" for c B where
  reject: "too_deep c \<Longrightarrow> reass_step c B S k b (Rejected b) S"
| no_memory: "\<not> too_deep c \<Longrightarrow> S k = None \<Longrightarrow> \<not> flow_memory c \<Longrightarrow> reass_step c B S k b (Failed [b]) S"
| start: "\<not> too_deep c \<Longrightarrow> S k = None \<Longrightarrow> flow_memory c \<Longrightarrow> reass_step c B S k b Waiting (S(k \<mapsto> [b]))"
| repeat: "\<not> too_deep c \<Longrightarrow> S k = Some as \<Longrightarrow> repeats B as b \<Longrightarrow> reass_step c B S k b (Failed [b]) S"
| too_many: "\<not> too_deep c \<Longrightarrow> S k = Some as \<Longrightarrow> \<not> repeats B as b \<Longrightarrow> IP_REASS_MAX_CACHE_PKTS \<le> length as
    \<Longrightarrow> reass_step c B S k b (Failed (as @ [b])) (S(k := None))"
| large: "\<not> too_deep c \<Longrightarrow> S k = Some as \<Longrightarrow> \<not> repeats B as b \<Longrightarrow> length as < IP_REASS_MAX_CACHE_PKTS \<Longrightarrow> too_large (B b)
    \<Longrightarrow> reass_step c B S k b (Failed (as @ [b])) (S(k := None))"
| build: "\<not> too_deep c \<Longrightarrow> S k = Some as \<Longrightarrow> builds B as b \<Longrightarrow> vpp_buffer c = Some n
    \<Longrightarrow> reass_step c B S k b (Built n (as @ [b])) (S(k := None))"
| no_buffer: "\<not> too_deep c \<Longrightarrow> S k = Some as \<Longrightarrow> builds B as b \<Longrightarrow> vpp_buffer c = None
    \<Longrightarrow> reass_step c B S k b (Failed (as @ [b])) (S(k := None))"
| wait: "\<not> too_deep c \<Longrightarrow> S k = Some as \<Longrightarrow> \<not> repeats B as b \<Longrightarrow> length as < IP_REASS_MAX_CACHE_PKTS \<Longrightarrow> \<not> too_large (B b)
    \<Longrightarrow> \<not> complete B (as @ [b]) \<Longrightarrow> reass_step c B S k b Waiting (S(k \<mapsto> as @ [b]))"

inductive_cases reass_stepE: "reass_step c B S k b res S'"

lemma reass_step_det: "reass_step c B S k b res S1 \<Longrightarrow> reass_step c B S k b res' S2 \<Longrightarrow> res = res' \<and> S1 = S2"
  by (elim reass_stepE) (auto simp: builds_def)

text \<open>The flow map that a state represents, and the result that the code's two output values represent.\<close>

definition flow_map_of :: "'f reass_world \<Rightarrow> (addr \<rightharpoonup> u32) \<Rightarrow> (addr \<Rightarrow> addr list) \<Rightarrow> flow_map \<Rightarrow> bool" where
  "flow_map_of w f fr S \<longleftrightarrow> (\<forall>k as. S k = Some as \<longleftrightarrow> (\<exists>a\<in>dom f. flow_key (rflows w a) = k \<and> fr a = as))"

fun result_of :: "reass_bufs \<Rightarrow> ptr \<Rightarrow> int \<Rightarrow> reass_result \<Rightarrow> bool" where
  "result_of B r st (Rejected b) \<longleftrightarrow> r = Some b \<and> st = -1"
| "result_of B r st Waiting \<longleftrightarrow> r = None \<and> st = 0"
| "result_of B r st (Failed as) \<longleftrightarrow> as \<noteq> [] \<and> frags_chain B r as \<and> 0 < st \<and> int (length as) \<le> st + 1
     \<and> length as \<le> IP_REASS_MAX_CACHE_PKTS + 1"
| "result_of B r st (Built n as) \<longleftrightarrow> r = Some n \<and> st = 0 \<and> is_reass_pkt (B n) \<and> next_frag (B n) = None
     \<and> frags_chain B (child_frag (B n)) as"

section \<open>Refinement\<close>

lemma flow_map_key:
  assumes "tab_ok E w f" "flow_map_of w f fr S" "a \<in> dom f"
  shows "S (flow_key (rflows w a)) = Some (fr a)"
  using assms(2,3) by (auto simp: flow_map_of_def)

lemma flow_map_None:
  assumes "flow_map_of w f fr S"
  shows "S k = None \<longleftrightarrow> k \<notin> (\<lambda>a. flow_key (rflows w a)) ` dom f"
proof -
  have "S k \<noteq> None \<longleftrightarrow> (\<exists>a\<in>dom f. flow_key (rflows w a) = k)"
    using assms unfolding flow_map_of_def by blast
  then show ?thesis by auto
qed

text \<open>Removing, extending and adding a flow.\<close>

lemma flow_map_remove:
  assumes tab: "tab_ok E w f" and S: "flow_map_of w f fr S" and a: "a \<in> dom f"
    and w': "\<forall>b\<in>dom f. b \<noteq> a \<longrightarrow> flow_key (rflows w' b) = flow_key (rflows w b)"
  shows "flow_map_of w' (f(a := None)) fr (S(flow_key (rflows w a) := None))"
proof -
  have inj: "inj_on (\<lambda>a. flow_key (rflows w a)) (dom f)" using tab by (simp add: tab_ok_def)
  have "(S(flow_key (rflows w a) := None)) k = Some as \<longleftrightarrow>
    (\<exists>b\<in>dom (f(a := None)). flow_key (rflows w' b) = k \<and> fr b = as)" for k as
  proof (cases "k = flow_key (rflows w a)")
    case True
    have "b = a" if "b \<in> dom f" "flow_key (rflows w b) = k" for b using inj that a True by (auto dest: inj_onD)
    then show ?thesis using True w' by (auto split: if_splits)
  next
    case False
    then have "(S(flow_key (rflows w a) := None)) k = Some as \<longleftrightarrow> (\<exists>b\<in>dom f. flow_key (rflows w b) = k \<and> fr b = as)"
      using S by (simp add: flow_map_of_def)
    also have "\<dots> \<longleftrightarrow> (\<exists>b\<in>dom f. b \<noteq> a \<and> flow_key (rflows w' b) = k \<and> fr b = as)" using False w' by metis
    finally show ?thesis by (auto split: if_splits)
  qed
  then show ?thesis by (simp add: flow_map_of_def)
qed

lemma flow_map_extend:
  assumes tab: "tab_ok E w f" and S: "flow_map_of w f fr S" and a: "a \<in> dom f"
    and w': "\<forall>b\<in>dom f. flow_key (rflows w' b) = flow_key (rflows w b)"
  shows "flow_map_of w' f (fr(a := as)) (S(flow_key (rflows w a) \<mapsto> as))"
proof -
  have inj: "inj_on (\<lambda>a. flow_key (rflows w a)) (dom f)" using tab by (simp add: tab_ok_def)
  have "(S(flow_key (rflows w a) \<mapsto> as)) k = Some bs \<longleftrightarrow>
    (\<exists>b\<in>dom f. flow_key (rflows w' b) = k \<and> (fr(a := as)) b = bs)" for k bs
  proof (cases "k = flow_key (rflows w a)")
    case True
    have one: "flow_key (rflows w b) = k \<longleftrightarrow> b = a" if "b \<in> dom f" for b using inj that a True by (auto dest: inj_onD)
    have "(\<exists>b\<in>dom f. flow_key (rflows w' b) = k \<and> (fr(a := as)) b = bs) \<longleftrightarrow> (\<exists>b\<in>dom f. b = a \<and> (fr(a := as)) b = bs)"
      using w' one by (metis (no_types, lifting))
    then show ?thesis using True a by auto
  next
    case False
    have "(\<exists>b\<in>dom f. flow_key (rflows w' b) = k \<and> (fr(a := as)) b = bs) \<longleftrightarrow> (\<exists>b\<in>dom f. flow_key (rflows w b) = k \<and> fr b = bs)"
      using w' False by (metis (no_types, lifting) fun_upd_other)
    then show ?thesis using False S by (simp add: flow_map_of_def)
  qed
  then show ?thesis by (simp add: flow_map_of_def)
qed

lemma flow_map_add:
  assumes S: "flow_map_of w f fr S" and a: "a \<notin> dom f" and k: "flow_key (rflows w' a) = k" "S k = None"
    and w': "\<forall>b\<in>dom f. flow_key (rflows w' b) = flow_key (rflows w b)"
  shows "flow_map_of w' (f(a \<mapsto> h)) (fr(a := as)) (S(k \<mapsto> as))"
proof -
  have no: "flow_key (rflows w b) \<noteq> k" if "b \<in> dom f" for b using flow_map_None [OF S] k(2) that by auto
  have "(S(k \<mapsto> as)) k' = Some bs \<longleftrightarrow>
    (\<exists>b\<in>dom (f(a \<mapsto> h)). flow_key (rflows w' b) = k' \<and> (fr(a := as)) b = bs)" for k' bs
  proof -
    have "(\<exists>b\<in>dom (f(a \<mapsto> h)). flow_key (rflows w' b) = k' \<and> (fr(a := as)) b = bs)
      \<longleftrightarrow> k = k' \<and> as = bs \<or> (\<exists>b\<in>dom f. b \<noteq> a \<and> flow_key (rflows w' b) = k' \<and> fr b = bs)"
      using k(1) by auto
    also have "\<dots> \<longleftrightarrow> k = k' \<and> as = bs \<or> (\<exists>b\<in>dom f. flow_key (rflows w b) = k' \<and> fr b = bs)"
      using w' a by (metis (no_types, lifting))
    also have "(\<exists>b\<in>dom f. flow_key (rflows w b) = k' \<and> fr b = bs) \<longleftrightarrow> S k' = Some bs"
      using S by (simp add: flow_map_of_def)
    finally have "(\<exists>b\<in>dom (f(a \<mapsto> h)). flow_key (rflows w' b) = k' \<and> (fr(a := as)) b = bs)
      \<longleftrightarrow> k = k' \<and> as = bs \<or> S k' = Some bs" .
    moreover have "(S(k \<mapsto> as)) k' = Some bs \<longleftrightarrow> k = k' \<and> as = bs \<or> S k' = Some bs" using k(2) by auto
    ultimately show ?thesis by (simp only:)
  qed
  then show ?thesis unfolding flow_map_of_def by blast
qed

text \<open>The invariant without the fragment lists.\<close>

definition core_inv :: "'f reass_env \<Rightarrow> 'f reass_world \<Rightarrow> (addr \<rightharpoonup> u32) \<Rightarrow> bool" where
  "core_inv E w f \<longleftrightarrow> tab_ok E w f \<and> nodes_ok E (rpool w) (dom f)
     \<and> timers_ok E (rtimers w) (rrecs w) (dom f) \<and> (\<exists>H. nodes_ok E (hpool w) H)"

lemma reass_inv_iff: "reass_inv E w f fr \<longleftrightarrow> core_inv E w f \<and> flows_ok (rbufs w) (rflows w) (dom f) fr"
  by (auto simp: reass_inv_def core_inv_def)

lemma tab_ok_cong:
  assumes "rtab w' = rtab w" "\<forall>a\<in>dom f. flow_key (rflows w' a) = flow_key (rflows w a)"
  shows "tab_ok E w' f \<longleftrightarrow> tab_ok E w f"
  using assms by (simp add: tab_ok_def cong: inj_on_cong)

lemma core_inv_cong:
  assumes "rtab w' = rtab w" "rpool w' = rpool w" "rtimers w' = rtimers w" "rrecs w' = rrecs w" "hpool w' = hpool w"
    and "\<forall>a\<in>dom f. flow_key (rflows w' a) = flow_key (rflows w a)"
  shows "core_inv E w' f \<longleftrightarrow> core_inv E w f"
  using assms(2-5) tab_ok_cong [OF assms(1,6)] by (simp add: core_inv_def)

lemma unlink_flow_ok:
  assumes inv: "core_inv E w f" and a: "f a = Some h"
  shows "\<exists>t tab. unlink_flow E a h w = Some (w\<lparr>rtimers := t, rtab := tab\<rparr>) \<and> tab_ok E (w\<lparr>rtimers := t, rtab := tab\<rparr>) (f(a := None))
    \<and> timers_ok E t (rrecs w) (dom (f(a := None)))"
proof -
  have ad: "a \<in> dom f" "dom (f(a := None)) = dom f - {a}" using a by auto
  obtain t where t: "ip_reass_delete_timer E a w = Some (w\<lparr>rtimers := t\<rparr>)" "timers_ok E t (rrecs w) (dom f - {a})"
    using delete_timer_ok [OF _ ad(1), of E w] inv by (auto simp: core_inv_def)
  have tab: "hash_rep (rtab w) f" "\<forall>a\<in>dom f. f a = Some (getHashIndex E (key_bytes (flow_key (rflows w a))))"
    "inj_on (\<lambda>a. flow_key (rflows w a)) (dom f)" using inv by (auto simp: core_inv_def tab_ok_def)
  obtain tab' where tab': "hashFreeNode (rtab w) a h = Some tab'" "hash_rep tab' (f(a := None))"
    using ght.free_ok [OF tab(1) a] by blast
  have "tab_ok E (w\<lparr>rtimers := t, rtab := tab'\<rparr>) (f(a := None))"
    using tab'(2) tab(2,3) unfolding tab_ok_def ad(2) by (auto intro: inj_on_subset)
  then show ?thesis using t tab'(1) by (auto simp: unlink_flow_def ad(2))
qed

lemma bump_fields [simp]:
  "rbufs (bump E i m w) = rbufs w" "rflows (bump E i m w) = rflows w" "rtab (bump E i m w) = rtab w"
  "rpool (bump E i m w) = rpool w" "rtimers (bump E i m w) = rtimers w" "rrecs (bump E i m w) = rrecs w" "hpool (bump E i m w) = hpool w"
  by (simp_all add: bump_def)

lemma core_inv_bump [simp]: "core_inv E (bump E i m w) f = core_inv E w f"
  by (rule core_inv_cong) simp_all

lemma give_up_ok:
  assumes inv: "core_inv E w f" and a: "f a = Some h"
  shows "\<exists>w'. give_up E b0 a h reason w = Some (frag_head (rflows w a), uint (cache_pkt_num (rflows w a)), w')
    \<and> rbufs w' = rbufs w \<and> rflows w' = rflows w \<and> core_inv E w' (f(a := None))"
proof -
  obtain t tab where u: "unlink_flow E a h w = Some (w\<lparr>rtimers := t, rtab := tab\<rparr>)"
    "tab_ok E (w\<lparr>rtimers := t, rtab := tab\<rparr>) (f(a := None))" "timers_ok E t (rrecs w) (dom (f(a := None)))"
    using unlink_flow_ok [OF assms] by blast
  obtain p where p: "free_node_to_pool (env_worker E) (rpool w) a = Some p" "nodes_ok E p (dom (f(a := None)))"
    using nodes_free [of E "rpool w" "dom f" a] inv a by (auto simp: core_inv_def)
  let ?w = "w\<lparr>rtimers := t, rtab := tab, rpool := p\<rparr>"
  have "core_inv E ?w (f(a := None))"
    using u(2,3) p(2) inv tab_ok_cong [of ?w "w\<lparr>rtimers := t, rtab := tab\<rparr>" "f(a := None)" E] by (simp add: core_inv_def)
  then show ?thesis
    using u(1) p(1) by (simp add: give_up_def free_ip_reass_hash_node_def Let_def)
qed

subsection \<open>Building\<close>

definition room_ok :: "reass_family \<Rightarrow> reass_bufs \<Rightarrow> addr list \<Rightarrow> bool" where
  "room_ok fam B as \<longleftrightarrow>
     (let h = B (hd as) in frag_fam h = fam \<and> 0 \<le> cur_pos (wd h)
        \<and> (if ip_version (ip_wdata (wd h)) = IP_VERSION_4 then 20 else 48) \<le> uint (ip_hdr_len h)
        \<and> (\<forall>a\<in>set as. cur_pos (wd h) + uint (ip_hdr_len h) + frag_end (B a) \<le> 16256))"

lemma frag_build_ok:
  assumes chain: "frags_chain B (Some (hd as)) as" and ne: "as \<noteq> []" and room: "room_ok fam B as"
  shows "\<exists>new cnt. frag_build_wdata fam E B (hd as) = Some (new, cnt) \<and> unused8 new AND UNUSED8_FLAG_IP_REASS_PKT \<noteq> 0"
proof -
  let ?h = "B (hd as)"
  have fits: "build_fits B as" using assms by (simp add: build_fits_def room_ok_def Let_def)
  show ?thesis
  proof (cases "ip_version (ip_wdata (wd ?h)) = IP_VERSION_4")
    case True
    then have "fam = ip4_family" "20 \<le> uint (ip_hdr_len ?h)" using room by (simp_all add: room_ok_def frag_fam_def Let_def)
    then show ?thesis
      using ip4_build [OF fits refl _ True refl, of E] build_new_fields(5) by fastforce
  next
    case False
    then have "fam = ip6_family" "48 \<le> uint (ip_hdr_len ?h)" using room by (simp_all add: room_ok_def frag_fam_def Let_def)
    then show ?thesis
      using ip6_build [OF fits refl _ False refl refl, of E] build_new_fields(5) by fastforce
  qed
qed

lemma room_ok_same: "same_frags B B' \<Longrightarrow> room_ok fam B' as = room_ok fam B as"
  by (simp add: room_ok_def Let_def same_fragsD)

subsection \<open>A fragment of a known flow\<close>

lemma flows_ok_remove:
  assumes "flows_ok B D N fr" "\<forall>b\<in>N - {a}. \<forall>x\<in>set (fr b). B' x = B x" "\<forall>b\<in>N - {a}. D' b = D b"
  shows "flows_ok B' D' (N - {a}) fr"
proof -
  have "flow_ok B' (D' b) (fr b)" if "b \<in> N - {a}" for b
  proof -
    have "flow_ok B (D b) (fr b)" using assms(1) that by (simp add: flows_ok_def)
    moreover have "\<forall>x\<in>set (fr b). B' x = B x" using assms(2) that by blast
    ultimately show ?thesis using flow_ok_cong [of "fr b" B' B] assms(3) that by simp
  qed
  moreover have "set (fr b) \<inter> set (fr c) = {}" if "b \<in> N - {a}" "c \<in> N - {a}" "b \<noteq> c" for b c
    using assms(1) that unfolding flows_ok_def by blast
  ultimately show ?thesis using assms(1) unfolding flows_ok_def by (intro conjI ballI impI) auto
qed

lemma flows_ok_insert:
  assumes "flows_ok B D (N - {a}) fr" "flow_ok B (D a) as" "\<forall>b\<in>N - {a}. set as \<inter> set (fr b) = {}"
  shows "flows_ok B D (insert a N) (fr(a := as))"
proof -
  have fl: "flow_ok B (D b) ((fr(a := as)) b)" if "b \<in> insert a N" for b
    using assms(1,2) that by (cases "b = a") (auto simp: flows_ok_def)
  have dis: "set ((fr(a := as)) b) \<inter> set ((fr(a := as)) c) = {}" if bc: "b \<in> insert a N" "c \<in> insert a N" "b \<noteq> c" for b c
  proof -
    consider "b = a" "c \<in> N - {a}" | "c = a" "b \<in> N - {a}" | "b \<in> N - {a}" "c \<in> N - {a}" using bc by blast
    then show ?thesis
    proof cases
      case 3
      then show ?thesis using assms(1) \<open>b \<noteq> c\<close> unfolding flows_ok_def by auto
    qed (use assms(3) in auto)
  qed
  have "finite (insert a N)" using assms(1) by (simp add: flows_ok_def)
  then show ?thesis unfolding flows_ok_def using fl dis by (intro conjI ballI impI) assumption+
qed

lemma flow_append:
  assumes fl: "flow_ok B d as" and b0: "b0 \<notin> set as" "next_frag (B b0) = None" "\<not> repeats B as b0"
    and B': "B' = B(last as := (B (last as))\<lparr>next_frag := Some b0\<rparr>)" and few: "length as < IP_REASS_MAX_CACHE_PKTS"
    and d': "frag_head d' = frag_head d" "frag_tail d' = Some b0" "cache_pkt_num d' = cache_pkt_num d + 1"
      "meet_len d' = meet_len d + frag_size (B b0)"
      "total_len d' = (if is_last (B b0) then frag_offset (B b0) + frag_size (B b0) else total_len d)"
  shows "flow_ok B' d' (as @ [b0])"
proof -
  note app = append_chain [OF fl b0(1,2) B']
  have "cache_pkt_num d' = of_nat (length as)"
    using fl d'(3) by (cases as) (simp_all add: flow_ok_def)
  moreover have "distinct (map (\<lambda>a. frag_offset (B' a)) (as @ [b0]))"
    using fl b0(3) by (auto simp: flow_ok_def repeats_def same_fragsD [OF app(2)])
  moreover have "meet_len d' = size_of B' (as @ [b0])" "total_len d' = total_of B' (as @ [b0])"
    using fl d' by (simp_all add: same_frags_sums [OF app(2)] same_fragsD [OF app(2)] size_snoc total_snoc flow_ok_def)
  ultimately show ?thesis using app(1) few fl b0(1) d'(1,2) by (simp add: flow_ok_def)
qed

lemma cache_full_iff:
  assumes "flow_ok B d as"
  shows "cache_pkt_num d + 1 \<ge> of_nat IP_REASS_MAX_CACHE_PKTS \<longleftrightarrow> IP_REASS_MAX_CACHE_PKTS \<le> length as"
    and "uint (cache_pkt_num d + 1) = int (length as)"
proof -
  have n: "cache_pkt_num d + 1 = of_nat (length as)" "length as \<le> 10"
    using assms by (cases as; simp add: flow_ok_def IP_REASS_MAX_CACHE_PKTS_def)+
  have u: "unat (of_nat (length as) :: u8) = length as" using n(2) by (simp add: unat_of_nat)
  have "(of_nat 10 :: u8) \<le> of_nat (length as) \<longleftrightarrow> 10 \<le> length as"
    unfolding word_le_nat_alt u by simp
  then show "cache_pkt_num d + 1 \<ge> of_nat IP_REASS_MAX_CACHE_PKTS \<longleftrightarrow> IP_REASS_MAX_CACHE_PKTS \<le> length as"
    unfolding n(1) IP_REASS_MAX_CACHE_PKTS_def .
  show "uint (cache_pkt_num d + 1) = int (length as)" unfolding n(1) using u by (metis of_nat_unat)
qed

text \<open>
  What a call for one fragment establishes: a result, the invariant, and a step of the specification
  over the fragments as they were recorded before the step.
\<close>

definition step_ok ::
  "'f reass_env \<Rightarrow> reass_choice \<Rightarrow> reass_bufs \<Rightarrow> flow_map \<Rightarrow> key_ip_reass_t \<Rightarrow> addr \<Rightarrow> (ptr \<times> int \<times> 'f reass_world) option \<Rightarrow> bool" where
  "step_ok E c B S k b0 out \<longleftrightarrow>
    (\<exists>r st w' f' fr' S' res. out = Some (r, st, w') \<and> reass_inv E w' f' fr' \<and> flow_map_of w' f' fr' S'
       \<and> reass_step c B S k b0 res S' \<and> result_of (rbufs w') r st res)"

lemma step_okI:
  assumes "out = Some (r, st, w')" "core_inv E w' f'" "flows_ok (rbufs w') (rflows w') (dom f') fr'" "flow_map_of w' f' fr' S'"
    and "reass_step c B S k b0 res S'" "result_of (rbufs w') r st res"
  shows "step_ok E c B S k b0 out"
  unfolding step_ok_def reass_inv_iff using assms by blast

text \<open>The world after \<open>append_frag\<close> with further changes of the flow's data that keep its key.\<close>

lemma append_frame:
  assumes inv: "reass_inv E w f fr" and a: "a \<in> dom f" and as: "as = fr a"
    and B': "B' = (rbufs w)(last as := (rbufs w (last as))\<lparr>next_frag := Some b0\<rparr>)"
    and D: "\<forall>b. b \<noteq> a \<longrightarrow> D b = rflows w b" "flow_key (D a) = flow_key (rflows w a)"
  shows "core_inv E (w\<lparr>rbufs := B', rflows := D\<rparr>) f" "flows_ok B' D (dom f - {a}) fr"
proof -
  have fl: "flows_ok (rbufs w) (rflows w) (dom f) fr" and core: "core_inv E w f"
    using inv by (simp_all add: reass_inv_iff)
  have key: "flow_key (D b) = flow_key (rflows w b)" for b using D by (cases "b = a") simp_all
  show "core_inv E (w\<lparr>rbufs := B', rflows := D\<rparr>) f"
    using core core_inv_cong [of "w\<lparr>rbufs := B', rflows := D\<rparr>" w f E] key by simp
  have "last as \<in> set (fr a)" using fl a by (simp add: flows_ok_def flow_ok_def as)
  then have "last as \<notin> set (fr b)" if "b \<in> dom f - {a}" for b
    using fl a that unfolding flows_ok_def by blast
  then have "\<forall>b\<in>dom f - {a}. \<forall>x\<in>set (fr b). B' x = rbufs w x" by (auto simp: B')
  then show "flows_ok B' D (dom f - {a}) fr" using D(1) by (intro flows_ok_remove [OF fl]) auto
qed

lemma give_up_step:
  assumes inv: "reass_inv E w f fr" and S: "flow_map_of w f fr S" and a: "f a = Some h" and as: "as = fr a"
    and b0: "b0 \<notin> cached f fr" "next_frag (rbufs w b0) = None"
    and B': "B' = (rbufs w)(last as := (rbufs w (last as))\<lparr>next_frag := Some b0\<rparr>)"
    and D: "\<forall>b. b \<noteq> a \<longrightarrow> D b = rflows w b" "flow_key (D a) = flow_key (rflows w a)"
      "frag_head (D a) = frag_head (rflows w a)" "cache_pkt_num (D a) = cache_pkt_num (rflows w a) + 1"
    and step: "reass_step c (rbufs w) S k b0 (Failed (as @ [b0])) (S(k := None))" and k: "k = flow_key (rflows w a)"
  shows "step_ok E c (rbufs w) S k b0 (give_up E b0 a h reason (w\<lparr>rbufs := B', rflows := D\<rparr>))"
proof -
  have ad: "a \<in> dom f" "dom (f(a := None)) = dom f - {a}" using a by auto
  note fr = append_frame [OF inv ad(1) as B' D(1,2)]
  have fl: "flow_ok (rbufs w) (rflows w a) as" using inv ad(1) as by (simp add: reass_inv_def flows_ok_def)
  have nb: "b0 \<notin> set as" using b0(1) ad(1) as by (auto simp: cached_def)
  note app = append_chain [OF fl nb b0(2) B']
  have ne: "as \<noteq> []" using fl by (simp add: flow_ok_def)
  obtain w' where w': "give_up E b0 a h reason (w\<lparr>rbufs := B', rflows := D\<rparr>) = Some (frag_head (rflows w a), int (length as), w')"
    "rbufs w' = B'" "rflows w' = D" "core_inv E w' (f(a := None))"
    using give_up_ok [OF fr(1) a, of b0 reason] D(3,4) cache_full_iff(2) [OF fl] by auto
  show ?thesis
  proof (rule step_okI [OF w'(1,4) _ _ step])
    show "flows_ok (rbufs w') (rflows w') (dom (f(a := None))) fr" using fr(2) w'(2,3) ad(2) by simp
    show "flow_map_of w' (f(a := None)) fr (S(k := None))"
      unfolding k using inv S ad(1) D(1) w'(3) by (intro flow_map_remove [of E]) (auto simp: reass_inv_def)
    show "result_of (rbufs w') (frag_head (rflows w a)) (int (length as)) (Failed (as @ [b0]))"
      using app(1) w'(2) ne fl by (simp add: flow_ok_def)
  qed
qed

definition huge_ready :: "'f reass_env \<Rightarrow> 'f reass_world \<Rightarrow> bool" where
  "huge_ready E w \<longleftrightarrow> (\<forall>pool. alloc_node_from_pool (env_worker E) (hpool w) \<noteq> Some (pool, None))"

lemma huge_alloc:
  assumes "nodes_ok E (hpool w) H" "huge_ready E w"
  shows "\<exists>pool x. alloc_node_from_pool (env_worker E) (hpool w) = Some (pool, Some x) \<and> nodes_ok E pool (insert x H)"
  using nodes_alloc [OF assms(1)] assms(2) by (auto simp: huge_ready_def split: option.splits)

lemma frag_build_pkt_ok:
  assumes H: "nodes_ok E (hpool w) H" and huge: "huge_ready E w"
    and chain: "frags_chain (rbufs w) (Some (hd as)) as" "as \<noteq> []" and room: "room_ok fam (rbufs w) as"
    and vpp: "\<forall>n. vpp = Some n \<longrightarrow> n \<notin> set as \<and> n \<notin> X" and st: "0 < st" "int (length as) \<le> st + 1" "length as \<le> IP_REASS_MAX_CACHE_PKTS + 1"
  shows "\<exists>r st' p H' B. frag_build_pkt fam E vpp (hd as) st w = Some (r, st', w\<lparr>hpool := p, rbufs := B\<rparr>)
    \<and> nodes_ok E p H' \<and> (\<forall>x\<in>X. B x = rbufs w x)
    \<and> result_of B (Some r) st' (case vpp of None \<Rightarrow> Failed as | Some n \<Rightarrow> Built n as)"
proof -
  obtain pool x where al: "alloc_node_from_pool (env_worker E) (hpool w) = Some (pool, Some x)" "nodes_ok E pool (insert x H)"
    using huge_alloc [OF H huge] by blast
  show ?thesis
  proof (cases vpp)
    case None
    obtain p where p: "free_node_to_pool (env_worker E) pool x = Some p" "nodes_ok E p (insert x H - {x})"
      using nodes_free [OF al(2)] by blast
    have "frag_build_pkt fam E vpp (hd as) st w = Some (hd as, st, w\<lparr>hpool := p, rbufs := rbufs w\<rparr>)"
      using None al(1) p(1) by (simp add: frag_build_pkt_def alloc_huge_pkt_16k_def free_huge_pkt_16k_def SF_HUGE_PKT_PRE_DATA_SIZE_def)
    then show ?thesis using None p(2) chain st by (intro exI conjI) auto
  next
    case (Some n)
    obtain new cnt where b: "frag_build_wdata fam E (rbufs w) (hd as) = Some (new, cnt)" "unused8 new AND UNUSED8_FLAG_IP_REASS_PKT \<noteq> 0"
      using frag_build_ok [OF chain room, of E] by blast
    define buf where "buf = (rbufs w n)\<lparr>wd := new, followed_nodes_cnt := cnt, ip_reass_output := ip_reass_output (rbufs w (hd as)),
        rec_interface_id := rec_interface_id (rbufs w (hd as)), child_frag := Some (hd as), next_frag := None\<rparr>"
    have buf: "is_reass_pkt buf" "next_frag buf = None" "child_frag buf = Some (hd as)"
      using b(2) by (simp_all add: buf_def is_reass_pkt_def)
    have eq: "frag_build_pkt fam E vpp (hd as) st w = Some (n, 0, w\<lparr>hpool := pool, rbufs := (rbufs w)(n := buf)\<rparr>)"
      unfolding Some buf_def by (rule frag_build_pkt_new [OF al(1) b(1) refl])
    have "frags_chain ((rbufs w)(n := buf)) p as = frags_chain (rbufs w) p as" for p
      using vpp Some by (intro chain_cong) auto
    then show ?thesis
      using eq al(2) buf vpp Some chain(1)
      by (intro exI [of _ n] exI [of _ 0] exI [of _ pool] exI [of _ "insert x H"] exI [of _ "(rbufs w)(n := buf)"]) simp
  qed
qed

lemma build_step:
  assumes inv: "reass_inv E w f fr" and S: "flow_map_of w f fr S" and a: "f a = Some h" and as: "as = fr a"
    and b0: "b0 \<notin> cached f fr" "next_frag (rbufs w b0) = None"
    and B': "B' = (rbufs w)(last as := (rbufs w (last as))\<lparr>next_frag := Some b0\<rparr>)"
    and D: "\<forall>b. b \<noteq> a \<longrightarrow> D b = rflows w b" "flow_key (D a) = flow_key (rflows w a)"
      "frag_head (D a) = frag_head (rflows w a)" "cache_pkt_num (D a) = cache_pkt_num (rflows w a) + 1"
    and step: "\<not> too_deep c" "S k = Some as" "builds (rbufs w) as b0" "vpp_buffer c = vpp" and k: "k = flow_key (rflows w a)"
    and huge: "huge_ready E w" and room: "room_ok fam (rbufs w) (as @ [b0])"
    and vpp: "\<forall>n. vpp = Some n \<longrightarrow> n \<notin> insert b0 (cached f fr)"
  shows "step_ok E c (rbufs w) S k b0
    (do { w \<leftarrow> unlink_flow E a h (w\<lparr>rbufs := B', rflows := D\<rparr>);
          head \<leftarrow> frag_head (rflows w a);
          (ret_buffer, ret_status, w) \<leftarrow> frag_build_pkt fam E vpp head (uint (cache_pkt_num (rflows w a))) w;
          w \<leftarrow> free_ip_reass_hash_node E a w;
          Some (Some ret_buffer, ret_status, bump E i ip_reass_timer_delete w) })"
proof -
  have ad: "a \<in> dom f" "dom (f(a := None)) = dom f - {a}" using a by auto
  note fr = append_frame [OF inv ad(1) as B' D(1,2)]
  have fl: "flow_ok (rbufs w) (rflows w a) as" using inv ad(1) as by (simp add: reass_inv_def flows_ok_def)
  have nb: "b0 \<notin> set as" using b0(1) ad(1) as by (auto simp: cached_def)
  note app = append_chain [OF fl nb b0(2) B']
  have ne: "as \<noteq> []" using fl by (simp add: flow_ok_def)
  let ?w = "w\<lparr>rbufs := B', rflows := D\<rparr>"
  obtain t tab where u: "unlink_flow E a h ?w = Some (?w\<lparr>rtimers := t, rtab := tab\<rparr>)"
    "tab_ok E (?w\<lparr>rtimers := t, rtab := tab\<rparr>) (f(a := None))" "timers_ok E t (rrecs w) (dom (f(a := None)))"
    using unlink_flow_ok [OF fr(1) a] by auto
  obtain p where p: "free_node_to_pool (env_worker E) (rpool w) a = Some p" "nodes_ok E p (dom (f(a := None)))"
    using nodes_free [of E "rpool w" "dom f" a] inv ad by (auto simp: reass_inv_def)
  let ?v = "?w\<lparr>rtimers := t, rtab := tab\<rparr>"
  let ?X = "\<Union>b\<in>dom f - {a}. set (fr b)"
  have hd: "hd (as @ [b0]) = hd as" using ne by simp
  have vp: "\<forall>n. vpp = Some n \<longrightarrow> n \<notin> set (as @ [b0]) \<and> n \<notin> ?X" using vpp as ad(1) by (auto simp: cached_def)
  have len: "uint (cache_pkt_num (D a)) = int (length as)" using D(4) cache_full_iff(2) [OF fl] by simp
  obtain H where H: "nodes_ok E (hpool w) H" using inv by (auto simp: reass_inv_def)
  obtain r st' hp H' B2 where b: "frag_build_pkt fam E vpp (hd as) (int (length as)) ?v = Some (r, st', ?v\<lparr>hpool := hp, rbufs := B2\<rparr>)"
    "nodes_ok E hp H'" "\<forall>x\<in>?X. B2 x = B' x"
    "result_of B2 (Some r) st' (case vpp of None \<Rightarrow> Failed (as @ [b0]) | Some n \<Rightarrow> Built n (as @ [b0]))"
    using frag_build_pkt_ok [of E ?v H "as @ [b0]" fam vpp ?X "int (length as)"] huge app room room_ok_same [OF app(2)] vp ne H fl
    by (auto simp: hd huge_ready_def flow_ok_def)
  let ?u = "bump E i ip_reass_timer_delete (?v\<lparr>hpool := hp, rbufs := B2, rpool := p\<rparr>)"
  have "tab_ok E ?u (f(a := None))" using u(2) tab_ok_cong [of ?u ?v "f(a := None)" E] by simp
  then have core: "core_inv E ?u (f(a := None))" using u(3) p(2) b(2) by (auto simp: core_inv_def)
  show ?thesis
  proof (rule step_okI [OF _ core])
    show "(do { w \<leftarrow> unlink_flow E a h ?w; head \<leftarrow> frag_head (rflows w a);
          (ret_buffer, ret_status, w) \<leftarrow> frag_build_pkt fam E vpp head (uint (cache_pkt_num (rflows w a))) w;
          w \<leftarrow> free_ip_reass_hash_node E a w;
          Some (Some ret_buffer, ret_status, bump E i ip_reass_timer_delete w) }) = Some (Some r, st', ?u)"
      using u(1) b(1) p(1) D(3) app(3) len by (simp add: free_ip_reass_hash_node_def)
    show "flows_ok (rbufs ?u) (rflows ?u) (dom (f(a := None))) fr"
      using flows_ok_remove [OF fr(2), of a B2 D] b(3) by (simp add: ad(2))
    show "flow_map_of ?u (f(a := None)) fr (S(k := None))"
      unfolding k using inv S ad(1) D(1) by (intro flow_map_remove [of E]) (auto simp: reass_inv_def)
    show "reass_step c (rbufs w) S k b0 (case vpp of None \<Rightarrow> Failed (as @ [b0]) | Some n \<Rightarrow> Built n (as @ [b0])) (S(k := None))"
      using step by (cases vpp) (simp_all add: reass_step.build reass_step.no_buffer)
    show "result_of (rbufs ?u) (Some r) st' (case vpp of None \<Rightarrow> Failed (as @ [b0]) | Some n \<Rightarrow> Built n (as @ [b0]))"
      using b(4) by simp
  qed
qed

lemma frag_known_ok:
  assumes inv: "reass_inv E w f fr" and S: "flow_map_of w f fr S" and a: "f a = Some h"
    and b0: "b0 \<notin> cached f fr" "next_frag (rbufs w b0) = None" "frag_fam (rbufs w b0) = fam"
    and k: "k = flow_key (rflows w a)" and room: "builds (rbufs w) (fr a) b0 \<Longrightarrow> huge_ready E w \<and> room_ok fam (rbufs w) (fr a @ [b0])"
    and vpp: "\<forall>n. vpp = Some n \<longrightarrow> n \<notin> insert b0 (cached f fr)" and c: "\<not> too_deep c" "vpp_buffer c = vpp"
  shows "step_ok E c (rbufs w) S k b0 (frag_known fam E vpp b0 a h w)"
proof -
  define as where "as = fr a"
  define B' where "B' = (rbufs w)(last as := (rbufs w (last as))\<lparr>next_frag := Some b0\<rparr>)"
  define d1 where "d1 = (rflows w a)\<lparr>frag_tail := Some b0, cache_pkt_num := cache_pkt_num (rflows w a) + 1\<rparr>"
  define d2 where "d2 = (if is_last (rbufs w b0) then d1\<lparr>recv_last_frag := 1, total_len := frag_offset (rbufs w b0) + frag_size (rbufs w b0)\<rparr> else d1)"
  define d3 where "d3 = d2\<lparr>meet_len := meet_len d2 + frag_size (rbufs w b0)\<rparr>"
  have ad: "a \<in> dom f" using a by auto
  have fl: "flow_ok (rbufs w) (rflows w a) as" using inv ad as_def by (simp add: reass_inv_def flows_ok_def)
  have nb: "b0 \<notin> set as" using b0(1) ad as_def by (auto simp: cached_def)
  note app = append_chain [OF fl nb b0(2) B'_def]
  have dup: "dup_loop (rbufs w) (frag_offset (rbufs w b0)) (frag_head (rflows w a)) = Some (repeats (rbufs w) as b0)"
    unfolding repeats_def using fl by (intro dup_loop_correct) (simp add: flow_ok_def)
  have Sk: "S k = Some as" using S ad k as_def by (auto simp: flow_map_of_def)
  have "last as \<in> set as" using fl by (simp add: flow_ok_def)
  then have "b0 \<noteq> last as" using nb by blast
  then have Bb: "B' b0 = rbufs w b0" by (simp add: B'_def)
  have lst: "fam_last fam (wd (rbufs w b0)) = is_last (rbufs w b0)" using b0(3) by (simp add: is_last_def)
  have ds: "cache_pkt_num d1 = cache_pkt_num (rflows w a) + 1" "flow_key d1 = k" "frag_head d1 = frag_head (rflows w a)"
    "cache_pkt_num d2 = cache_pkt_num d1" "flow_key d2 = k" "frag_head d2 = frag_head d1"
    "cache_pkt_num d3 = cache_pkt_num d1" "flow_key d3 = k" "frag_head d3 = frag_head d1" "total_len d3 = total_len d2"
    "frag_tail d3 = Some b0" "meet_len d3 = meet_len (rflows w a) + frag_size (rbufs w b0)"
    "total_len d3 = (if is_last (rbufs w b0) then frag_offset (rbufs w b0) + frag_size (rbufs w b0) else total_len (rflows w a))"
    by (simp_all add: d1_def d2_def d3_def k)
  have large: "is_last (rbufs w b0) \<and> uint (total_len d2) + sint (current_data (wd (rbufs w b0))) > SF_HUGE_PKT_MAX_DATA_SIZE
    \<longleftrightarrow> too_large (rbufs w b0)" by (auto simp: too_large_def d2_def)
  have comp: "meet_len d3 = total_len d3 \<longleftrightarrow> complete (rbufs w) (as @ [b0])"
  proof -
    have "meet_len d3 = size_of (rbufs w) (as @ [b0])" "total_len d3 = total_of (rbufs w) (as @ [b0])"
      using fl by (simp_all only: ds(12,13) size_snoc total_snoc flow_ok_def)
    then show ?thesis by (simp add: complete_def)
  qed
  have full: "cache_pkt_num d1 \<ge> of_nat IP_REASS_MAX_CACHE_PKTS \<longleftrightarrow> IP_REASS_MAX_CACHE_PKTS \<le> length as"
    using cache_full_iff(1) [OF fl] ds(1) by simp
  let ?W = "\<lambda>d. w\<lparr>rbufs := B', rflows := (rflows w)(a := d)\<rparr>"
  define i where "i = rec_interface_id (rbufs w b0)"
  have app_eq: "append_frag b0 a w = Some (?W d1)"
    using fl by (simp add: append_frag_def flow_ok_def B'_def d1_def)
  have Wf: "rbufs (?W d) = B'" "rflows (?W d) = (rflows w)(a := d)" "(?W d)\<lparr>rflows := x\<rparr> = w\<lparr>rbufs := B', rflows := x\<rparr>" for d x
    by simp_all
  have eq: "frag_known fam E vpp b0 a h w =
    (if repeats (rbufs w) as b0 then Some (Some b0, 1, w)
     else if IP_REASS_MAX_CACHE_PKTS \<le> length as then give_up E b0 a h ip_reass_fail_too_many (?W d1)
     else if too_large (rbufs w b0) then give_up E b0 a h ip_reass_fail_too_large (?W d2)
     else if complete (rbufs w) (as @ [b0]) then
        do { w \<leftarrow> unlink_flow E a h (?W d3); head \<leftarrow> frag_head (rflows w a);
             (ret_buffer, ret_status, w) \<leftarrow> frag_build_pkt fam E vpp head (uint (cache_pkt_num (rflows w a))) w;
             w \<leftarrow> free_ip_reass_hash_node E a w;
             Some (Some ret_buffer, ret_status, bump E i ip_reass_timer_delete w) }
     else Some (None, 0, ?W (d3\<lparr>recv_new_pkt_in_interval := 1\<rparr>)))"
    unfolding frag_known_def dup Option.bind.bind_lunit app_eq Let_def
    unfolding Wf fun_upd_same fun_upd_upd Bb lst
    unfolding d2_def [symmetric] i_def [symmetric]
    unfolding d3_def [symmetric] large comp full ..
  consider "repeats (rbufs w) as b0"
    | "\<not> repeats (rbufs w) as b0" "IP_REASS_MAX_CACHE_PKTS \<le> length as"
    | "\<not> repeats (rbufs w) as b0" "length as < IP_REASS_MAX_CACHE_PKTS" "too_large (rbufs w b0)"
    | "\<not> repeats (rbufs w) as b0" "length as < IP_REASS_MAX_CACHE_PKTS" "\<not> too_large (rbufs w b0)" "complete (rbufs w) (as @ [b0])"
    | "\<not> repeats (rbufs w) as b0" "length as < IP_REASS_MAX_CACHE_PKTS" "\<not> too_large (rbufs w b0)" "\<not> complete (rbufs w) (as @ [b0])"
    by linarith
  then show ?thesis
  proof cases
    case 1
    show ?thesis
      using 1 inv S Sk b0(2) unfolding eq reass_inv_iff
      by (intro step_okI [where f' = f and fr' = fr and S' = S and res = "Failed [b0]"])
        (auto intro: reass_step.repeat [OF c(1)] simp: IP_REASS_MAX_CACHE_PKTS_def)
  next
    case 2
    have "step_ok E c (rbufs w) S k b0 (give_up E b0 a h ip_reass_fail_too_many (?W d1))"
      using ds Sk k 2 by (intro give_up_step [OF inv S a as_def b0(1,2) B'_def]) (simp_all add: reass_step.too_many c(1))
    then show ?thesis unfolding eq using 2 by simp
  next
    case 3
    have "step_ok E c (rbufs w) S k b0 (give_up E b0 a h ip_reass_fail_too_large (?W d2))"
      using ds Sk k 3 by (intro give_up_step [OF inv S a as_def b0(1,2) B'_def]) (simp_all add: reass_step.large c(1))
    then show ?thesis unfolding eq using 3 by simp
  next
    case 4
    then have bu: "builds (rbufs w) as b0" by (simp add: builds_def)
    have "step_ok E c (rbufs w) S k b0
      (do { w \<leftarrow> unlink_flow E a h (?W d3); head \<leftarrow> frag_head (rflows w a);
             (ret_buffer, ret_status, w) \<leftarrow> frag_build_pkt fam E vpp head (uint (cache_pkt_num (rflows w a))) w;
             w \<leftarrow> free_ip_reass_hash_node E a w;
             Some (Some ret_buffer, ret_status, bump E i ip_reass_timer_delete w) })"
      using ds Sk k c bu room [folded as_def, OF bu] vpp
      by (intro build_step [OF inv S a as_def b0(1,2) B'_def]) (simp_all add: as_def)
    then show ?thesis unfolding eq using 4 by simp
  next
    case 5
    let ?w = "?W (d3\<lparr>recv_new_pkt_in_interval := 1\<rparr>)"
    have core: "core_inv E ?w f" by (rule append_frame [OF inv ad as_def B'_def]) (simp_all add: ds k)
    have others: "flows_ok B' ((rflows w)(a := d3\<lparr>recv_new_pkt_in_interval := 1\<rparr>)) (dom f - {a}) fr"
      by (rule append_frame [OF inv ad as_def B'_def]) (simp_all add: ds k)
    have "flow_ok B' (d3\<lparr>recv_new_pkt_in_interval := 1\<rparr>) (as @ [b0])"
      using ds by (intro flow_append [OF fl nb b0(2) 5(1) B'_def 5(2)]) simp_all
    moreover have "\<forall>b\<in>dom f - {a}. set (as @ [b0]) \<inter> set (fr b) = {}"
      using inv ad b0(1) unfolding reass_inv_def flows_ok_def cached_def as_def by auto
    ultimately have "flows_ok B' ((rflows w)(a := d3\<lparr>recv_new_pkt_in_interval := 1\<rparr>)) (insert a (dom f)) (fr(a := as @ [b0]))"
      by (intro flows_ok_insert [OF others]) (simp_all only: fun_upd_same)
    then have flows: "flows_ok (rbufs ?w) (rflows ?w) (dom f) (fr(a := as @ [b0]))" using ad by (simp add: insert_absorb)
    have m: "flow_map_of ?w f (fr(a := as @ [b0])) (S(k \<mapsto> as @ [b0]))"
      unfolding k using inv ds(8) k by (intro flow_map_extend [OF _ S ad, of E]) (auto simp: reass_inv_def)
    have o: "frag_known fam E vpp b0 a h w = Some (None, 0, ?w)" unfolding eq using 5 by simp
    show ?thesis
      by (rule step_okI [OF o core flows m reass_step.wait [of c S k as "rbufs w" b0, OF c(1) Sk 5]]) simp
  qed
qed

subsection \<open>A fragment of a new flow\<close>

text \<open>When a new flow gets its node and its timer: the pools give what is asked for, and the timeout is not too long.\<close>

definition yields :: "nat \<Rightarrow> pool_world \<Rightarrow> bool" where
  "yields wi pool \<longleftrightarrow> (case alloc_node_from_pool wi pool of Some (_, Some _) \<Rightarrow> True | _ \<Rightarrow> False)"

definition bucket_ready :: "nat \<Rightarrow> ('f, 'd) timer_world \<Rightarrow> u32 \<Rightarrow> bool" where
  "bucket_ready wi t ticks \<longleftrightarrow>
     0 < slot_left_cnt (sf_timer_buckets (tw_timer_array t ! wi) ! unat ((pre_bucket_index (tw_timer_array t ! wi) + ticks) AND SF_TW_TIMER_BUCKET_MASK))
   \<or> yields wi (timer_chunk_pool t)"

definition flow_room :: "'f reass_env \<Rightarrow> 'f reass_world \<Rightarrow> bool" where
  "flow_room E w \<longleftrightarrow> yields (env_worker E) (rpool w) \<and> yields (env_worker E) (timer_info_pool (rtimers w))
     \<and> timeout_sec (env_config E) * 10 \<le> SF_TIMER_MAX_TICKS
     \<and> bucket_ready (env_worker E) (rtimers w) (timeout_sec (env_config E) * 10)"

definition choice_of :: "'f reass_env \<Rightarrow> ptr \<Rightarrow> addr \<Rightarrow> 'f reass_world \<Rightarrow> reass_choice" where
  "choice_of E vpp b0 w = \<lparr>too_deep = ip_reass_layers (env_config E) (interface_id (wd (rbufs w b0))) < ip_wdata_cnt (wd (rbufs w b0)),
     flow_memory = flow_room E w, vpp_buffer = vpp\<rparr>"

lemma yields_alloc: "alloc_node_from_pool wi pool = Some (p, r) \<Longrightarrow> yields wi pool \<longleftrightarrow> r \<noteq> None"
  by (auto simp: yields_def split: option.splits)

lemma submit_tw_result:
  assumes "sf_submit_timer_tw F wi info g ticks t = Some (r, rec, t')"
  shows "r = 0 \<longleftrightarrow> ticks \<le> SF_TIMER_MAX_TICKS \<and> bucket_ready wi t ticks"
  using assms
  by (auto simp: sf_submit_timer_tw_def bucket_ready_def arr_read_def bind_eq_Some_conv Let_def yields_alloc split: if_splits option.splits prod.splits) blast

lemma submit_timer_result:
  assumes "ip_reass_submit_timer E a h timeout w = Some (r, w')"
  shows "r = 0 \<longleftrightarrow> yields (env_worker E) (timer_info_pool (rtimers w)) \<and> timeout * 10 \<le> SF_TIMER_MAX_TICKS
    \<and> bucket_ready (env_worker E) (rtimers w) (timeout * 10)"
proof -
  obtain p x where al: "alloc_node_from_pool (env_worker E) (timer_info_pool (rtimers w)) = Some (p, x)"
    using assms by (auto simp: ip_reass_submit_timer_def alloc_timer_info_def bind_eq_Some_conv)
  have same: "bucket_ready wi (t\<lparr>timer_info_pool := p, tinfos := d\<rparr>) n = bucket_ready wi t n" for wi t d n
    by (simp add: bucket_ready_def)
  show ?thesis
    using assms al yields_alloc [OF al]
    by (cases x) (auto simp: ip_reass_submit_timer_def alloc_timer_info_def bind_eq_Some_conv Let_def same dest!: submit_tw_result split: if_splits)
qed

lemma tab_ok_insert:
  assumes tab: "tab_ok E w f" and a: "a \<notin> dom f" and k: "k \<notin> (\<lambda>a. flow_key (rflows w a)) ` dom f"
    and h: "h = getHashIndex E (key_bytes k)" and rep: "hash_rep (rtab w') (f(a \<mapsto> h))"
    and w': "flow_key (rflows w' a) = k" "\<forall>b\<in>dom f. flow_key (rflows w' b) = flow_key (rflows w b)"
  shows "tab_ok E w' (f(a \<mapsto> h))"
proof -
  have "inj_on (\<lambda>a. flow_key (rflows w' a)) (dom f)"
    using tab w'(2) by (simp add: tab_ok_def cong: inj_on_cong)
  moreover have "k \<notin> (\<lambda>a. flow_key (rflows w' a)) ` dom f" using k w'(2) by (metis (mono_tags, lifting) image_cong)
  ultimately have inj: "inj_on (\<lambda>a. flow_key (rflows w' a)) (insert a (dom f))"
    using a w'(1) by (simp add: inj_on_insert)
  have "(f(a \<mapsto> h)) b = Some (getHashIndex E (key_bytes (flow_key (rflows w' b))))" if "b \<in> dom (f(a \<mapsto> h))" for b
    using that tab w' h by (cases "b = a") (auto simp: tab_ok_def)
  then show ?thesis unfolding tab_ok_def using rep inj by (metis dom_fun_upd option.distinct(1))
qed

lemma frag_new_ok:
  assumes inv: "reass_inv E w f fr" and S: "flow_map_of w f fr S" and k: "S k = None" and h: "h = getHashIndex E (key_bytes k)"
    and b0: "b0 \<notin> cached f fr" "next_frag (rbufs w b0) = None" "frag_fam (rbufs w b0) = fam"
    and room: "hash_room (rtab w)" "timer_room (rtimers w) (env_worker E)" and ch: "\<not> too_deep c" "flow_memory c = flow_room E w"
  shows "step_ok E c (rbufs w) S k b0 (frag_new fam E b0 k h w)"
proof -
  have tab: "tab_ok E w f" and nodes: "nodes_ok E (rpool w) (dom f)" and tim: "timers_ok E (rtimers w) (rrecs w) (dom f)"
    and fl: "flows_ok (rbufs w) (rflows w) (dom f) fr" using inv by (simp_all add: reass_inv_def)
  have nk: "k \<notin> (\<lambda>a. flow_key (rflows w a)) ` dom f" using flow_map_None [OF S] k by simp
  have res: "result_of (rbufs w) (Some b0) 1 (Failed [b0])" using b0(2) by (simp add: IP_REASS_MAX_CACHE_PKTS_def)
  obtain p r where al: "alloc_node_from_pool (env_worker E) (rpool w) = Some (p, r)"
    "case r of None \<Rightarrow> nodes_ok E p (dom f) | Some a \<Rightarrow> a \<notin> dom f \<and> nodes_ok E p (insert a (dom f))"
    using nodes_alloc [OF nodes] by blast
  show ?thesis
  proof (cases r)
    case None
    let ?w = "w\<lparr>rpool := p\<rparr>"
    have c: "core_inv E ?w f" using inv al(2) None tab_ok_cong [of ?w w f E] by (auto simp: core_inv_def reass_inv_def)
    have m: "flow_map_of ?w f fr S" using S by (simp add: flow_map_of_def)
    have o: "frag_new fam E b0 k h w = Some (Some b0, 1, ?w)" using None al(1) by (simp add: frag_new_def alloc_ip_reass_hash_node_def)
    have nm: "\<not> flow_memory c" using ch(2) yields_alloc [OF al(1)] None by (simp add: flow_room_def)
    show ?thesis by (rule step_okI [OF o c _ m reass_step.no_memory [of c S k, OF ch(1) k nm]]) (use fl res in simp_all)
  next
    case (Some a)
    have a: "a \<notin> dom f" "nodes_ok E p (insert a (dom f))" using al(2) Some by simp_all
    let ?d = "zero_flow\<lparr>flow_key := k\<rparr>"
    obtain tab' where tab': "hashInsertNode (rtab w) h a = Some (0, tab')" "hash_rep tab' (f(a \<mapsto> h))"
      using ght.insert_ok [OF _ a(1) room(1), of h] tab unfolding tab_ok_def by blast
    let ?w1 = "w\<lparr>rpool := p, rflows := (rflows w)(a := ?d), rtab := tab'\<rparr>"
    obtain r t recs where sub: "ip_reass_submit_timer E a h (timeout_sec (env_config E)) ?w1 = Some (r, ?w1\<lparr>rtimers := t, rrecs := recs\<rparr>)"
      "timers_ok E t recs (if r = 0 then insert a (dom f) else dom f)"
      using submit_timer_ok [of E ?w1 "dom f" a h "timeout_sec (env_config E)"] tim a(1) room(2) by auto
    let ?w2 = "?w1\<lparr>rtimers := t, rrecs := recs\<rparr>"
    have mem: "flow_memory c \<longleftrightarrow> r = 0"
      using ch(2) yields_alloc [OF al(1)] Some submit_timer_result [OF sub(1)] by (simp add: flow_room_def)
    have keys: "\<forall>b\<in>dom f. flow_key (((rflows w)(a := d)) b) = flow_key (rflows w b)" for d using a(1) by auto
    show ?thesis
    proof (cases "r = 0")
      case False
      have fa: "(f(a \<mapsto> h))(a := None) = f" using a(1) by (auto simp: fun_eq_iff)
      obtain tab'' where tab'': "hashFreeNode tab' a h = Some tab''" "hash_rep tab'' f"
        using ght.free_ok [OF tab'(2), of a h] fa by auto
      obtain p' where p': "free_node_to_pool (env_worker E) p a = Some p'" "nodes_ok E p' (dom f)"
        using nodes_free [OF a(2), of a] a(1) by auto
      let ?w = "?w2\<lparr>rtab := tab'', rpool := p'\<rparr>"
      have "tab_ok E ?w f" using tab keys [of ?d] tab''(2) tab_ok_cong [of "?w\<lparr>rtab := rtab w\<rparr>" w f E] by (simp add: tab_ok_def)
      then have c: "core_inv E ?w f" using inv sub(2) False p'(2) by (auto simp: core_inv_def reass_inv_def)
      have m: "flow_map_of ?w f fr S" using S keys by (simp add: flow_map_of_def)
      have o: "frag_new fam E b0 k h w = Some (Some b0, 1, ?w)"
        using Some al(1) tab'(1) sub(1) False tab''(1) p'(1)
        by (simp add: frag_new_def alloc_ip_reass_hash_node_def free_ip_reass_hash_node_def)
      have "flows_ok (rbufs ?w) (rflows ?w) (dom f) fr"
        using flows_ok_remove [OF fl, of a "rbufs w" "(rflows w)(a := ?d)"] a(1) by simp
      then show ?thesis by (rule step_okI [OF o c _ m reass_step.no_memory [of c S k, OF ch(1) k]]) (use res mem False in simp_all)
    next
      case True
      define b where "b = rbufs w b0"
      define d where "d = (let d = ?d\<lparr>frag_head := Some b0, frag_tail := Some b0, flow_interface_id := ucast (rec_interface_id b)\<rparr>;
          d = (if is_last b then d\<lparr>recv_last_frag := 1, total_len := frag_offset b + frag_size b\<rparr> else d)
        in d\<lparr>meet_len := meet_len d + frag_size b\<rparr>)"
      let ?w = "(bump E (rec_interface_id b) ip_reass_timer_submit ?w2)\<lparr>rbufs := (rbufs w)(b0 := b\<lparr>next_frag := None\<rparr>), rflows := (rflows w)(a := d)\<rparr>"
      have same: "(rbufs w)(b0 := b\<lparr>next_frag := None\<rparr>) = rbufs w"
      proof -
        have "b\<lparr>next_frag := None\<rparr> = b" using b0(2) by (simp add: b_def)
        then show ?thesis by (simp add: b_def)
      qed
      have df: "flow_key d = k" "frag_head d = Some b0" "frag_tail d = Some b0" "cache_pkt_num d = 0"
        "meet_len d = frag_size b" "total_len d = (if is_last b then frag_offset b + frag_size b else 0)"
        by (simp_all add: d_def Let_def zero_flow_def)
      have "fam_last fam (wd b) = is_last b" using b0(3) by (simp add: is_last_def b_def)
      then have o: "frag_new fam E b0 k h w = Some (None, 0, ?w)"
        using Some al(1) tab'(1) sub(1) True
        by (simp add: frag_new_def alloc_ip_reass_hash_node_def Let_def b_def [symmetric] d_def bump_def)
      have "tab_ok E ?w (f(a \<mapsto> h))"
        by (rule tab_ok_insert [OF tab a(1) nk h]) (use tab'(2) df(1) keys in simp_all)
      then have c: "core_inv E ?w (f(a \<mapsto> h))"
        using inv a(2) sub(2) True by (auto simp: core_inv_def reass_inv_def)
      have "flow_ok (rbufs w) d [b0]"
        using df b0(2) by (simp add: flow_ok_def size_of_def total_of_def b_def IP_REASS_MAX_CACHE_PKTS_def)
      moreover have "flows_ok (rbufs w) ((rflows w)(a := d)) (dom f - {a}) fr"
        using flows_ok_remove [OF fl, of a "rbufs w" "(rflows w)(a := d)"] by simp
      moreover have "\<forall>b\<in>dom f - {a}. set [b0] \<inter> set (fr b) = {}" using b0(1) by (auto simp: cached_def)
      ultimately have "flows_ok (rbufs w) ((rflows w)(a := d)) (insert a (dom f)) (fr(a := [b0]))"
        by (intro flows_ok_insert) (simp_all only: fun_upd_same)
      then have f: "flows_ok (rbufs ?w) (rflows ?w) (dom (f(a \<mapsto> h))) (fr(a := [b0]))" by (simp add: same)
      have m: "flow_map_of ?w (f(a \<mapsto> h)) (fr(a := [b0])) (S(k \<mapsto> [b0]))"
        by (rule flow_map_add [OF S a(1) _ k]) (use df(1) keys in simp_all)
      show ?thesis by (rule step_okI [OF o c f m reass_step.start [of c S k, OF ch(1) k]]) (use mem True in simp_all)
    qed
  qed
qed

subsection \<open>A call\<close>

definition recorded :: "reass_family \<Rightarrow> 'f reass_env \<Rightarrow> addr \<Rightarrow> 'f reass_world \<Rightarrow> reass_bufs" where
  "recorded fam E b0 w = (rbufs w)(b0 := frag_record fam E (rbufs w b0))"

lemma frag_record_fields [simp]:
  "wd (frag_record fam E b) = wd b" "next_frag (frag_record fam E b) = None" "frag_fam (frag_record fam E b) = frag_fam b"
  by (simp_all add: frag_record_def frag_fam_def Let_def)

lemma recorded_inv:
  assumes inv: "reass_inv E w f fr" and b0: "b0 \<notin> cached f fr"
  shows "reass_inv E (w\<lparr>rbufs := recorded fam E b0 w\<rparr>) f fr"
proof -
  let ?w = "w\<lparr>rbufs := recorded fam E b0 w\<rparr>"
  have "core_inv E ?w f" using inv core_inv_cong [of ?w w f E] by (simp add: reass_inv_iff)
  moreover have "flow_ok (recorded fam E b0 w) (rflows w a) (fr a)" if "a \<in> dom f" for a
  proof -
    have "\<forall>x\<in>set (fr a). recorded fam E b0 w x = rbufs w x" using b0 that by (auto simp: recorded_def cached_def)
    then have "flow_ok (recorded fam E b0 w) d (fr a) = flow_ok (rbufs w) d (fr a)" for d by (rule flow_ok_cong)
    then show ?thesis using inv that by (simp add: reass_inv_def flows_ok_def)
  qed
  ultimately show ?thesis using inv by (simp add: reass_inv_iff flows_ok_def)
qed

text \<open>
  Resources, where the step needs them: for a new flow the counters of the table and the timer wheel can be incremented; when a
  packet is to be built, the 16 KB pool has a buffer, and the flow fits into it with the fragment.
\<close>

definition resources_ok :: "reass_family \<Rightarrow> 'f reass_env \<Rightarrow> addr \<Rightarrow> 'f reass_world \<Rightarrow> flow_map \<Rightarrow> key_ip_reass_t \<Rightarrow> bool" where
  "resources_ok fam E b0 w S k \<longleftrightarrow>
     (case S k of
        None \<Rightarrow> hash_room (rtab w) \<and> timer_room (rtimers w) (env_worker E)
      | Some as \<Rightarrow> builds (recorded fam E b0 w) as b0 \<longrightarrow> huge_ready E w \<and> room_ok fam (recorded fam E b0 w) (as @ [b0]))"

lemma frag_proc_ok:
  assumes inv: "reass_inv E w f fr" and S: "flow_map_of w f fr S" and b0: "b0 \<notin> cached f fr" "frag_fam (rbufs w b0) = fam"
    and k: "k = fam_key fam (wd (rbufs w b0))" and res: "resources_ok fam E b0 w S k"
    and vpp: "\<forall>n. vpp = Some n \<longrightarrow> n \<notin> insert b0 (cached f fr)"
  shows "step_ok E (choice_of E vpp b0 w) (recorded fam E b0 w) S k b0 (frag_proc fam E vpp b0 w)"
proof -
  let ?w = "w\<lparr>rbufs := recorded fam E b0 w\<rparr>"
  let ?h = "getHashIndex E (key_bytes k)"
  have B: "rbufs ?w = recorded fam E b0 w" by simp
  have r: "recorded fam E b0 w b0 = frag_record fam E (rbufs w b0)" by (simp add: recorded_def)
  note inv' = recorded_inv [OF inv b0(1), of fam]
  have S': "flow_map_of ?w f fr S" using S by (simp add: flow_map_of_def)
  have b0': "next_frag (rbufs ?w b0) = None" "frag_fam (rbufs ?w b0) = fam" using b0(2) by (simp_all add: r)
  have tab: "tab_ok E ?w f" using inv' by (simp add: reass_inv_def)
  have eq: "frag_proc fam E vpp b0 w =
    (if ip_reass_layers (env_config E) (interface_id (wd (rbufs w b0))) < ip_wdata_cnt (wd (rbufs w b0)) then Some (Some b0, -1, ?w)
     else do { pnode \<leftarrow> hashFindNode_memcmp (\<lambda>a. key_bytes (flow_key (rflows ?w a))) (rtab ?w) ?h (key_bytes k) 40;
               case pnode of Some pnode \<Rightarrow> frag_known fam E vpp b0 pnode ?h ?w | None \<Rightarrow> frag_new fam E b0 k ?h ?w })"
    unfolding k recorded_def by (simp add: frag_proc_def Let_def)
  obtain pn where pn: "hashFindNode_memcmp (\<lambda>a. key_bytes (flow_key (rflows ?w a))) (rtab ?w) ?h (key_bytes k) 40 = Some pn"
    using find_flow_total [OF tab] by blast
  show ?thesis
  proof (cases "ip_reass_layers (env_config E) (interface_id (wd (rbufs w b0))) < ip_wdata_cnt (wd (rbufs w b0))")
    case True
    have o: "frag_proc fam E vpp b0 w = Some (Some b0, -1, ?w)" using True eq by simp
    show ?thesis
      by (rule step_okI [OF o _ _ S' reass_step.reject]) (use inv' True in \<open>simp_all add: reass_inv_iff choice_of_def\<close>)
  next
    case layer: False
    let ?c = "choice_of E vpp b0 w"
    have ch: "\<not> too_deep ?c" "flow_memory ?c = flow_room E ?w" "vpp_buffer ?c = vpp"
      using layer by (simp_all add: choice_of_def flow_room_def)
    show ?thesis
    proof (cases pn)
      case None
      have "S k = None" using find_flow(2) [OF tab, of k] pn None flow_map_None [OF S'] by simp
      then have "step_ok E ?c (rbufs ?w) S k b0 (frag_new fam E b0 k ?h ?w)"
        using res by (intro frag_new_ok [OF inv' S' _ refl b0(1) b0' _ _ ch(1,2)]) (simp_all add: resources_ok_def)
      then show ?thesis using eq layer pn None by simp
    next
      case (Some a)
      have a: "a \<in> dom f" "flow_key (rflows ?w a) = k" using find_flow(1) [OF tab, of k a] pn Some by simp_all
      have fa: "f a = Some ?h" using tab a by (auto simp: tab_ok_def)
      have "S k = Some (fr a)" using S' a by (auto simp: flow_map_of_def)
      then have "step_ok E ?c (rbufs ?w) S k b0 (frag_known fam E vpp b0 a ?h ?w)"
        using res vpp a(2) by (intro frag_known_ok [OF inv' S' fa b0(1) b0' _ _ vpp ch(1,3)]) (simp_all add: resources_ok_def huge_ready_def)
      then show ?thesis using eq layer pn Some by simp
    qed
  qed
qed

text \<open>The buffers of a result and those held by the flows.\<close>

fun result_bufs :: "reass_result \<Rightarrow> addr list" where
  "result_bufs (Rejected b) = [b]"
| "result_bufs Waiting = []"
| "result_bufs (Failed as) = as"
| "result_bufs (Built n as) = as"

definition held :: "flow_map \<Rightarrow> addr multiset" where
  "held S = (\<Sum>k\<in>dom S. mset (the (S k)))"

lemma held_update:
  assumes "finite (dom S)"
  shows "held (S(k \<mapsto> as)) + (case S k of None \<Rightarrow> {#} | Some bs \<Rightarrow> mset bs) = held S + mset as"
    and "held (S(k := None)) + (case S k of None \<Rightarrow> {#} | Some bs \<Rightarrow> mset bs) = held S"
proof -
  have rest: "(\<Sum>j\<in>dom S - {k}. mset (the ((S(k := x)) j))) = (\<Sum>j\<in>dom S - {k}. mset (the (S j)))" for x
    by (rule sum.cong) auto
  have all: "held S = (case S k of None \<Rightarrow> {#} | Some bs \<Rightarrow> mset bs) + (\<Sum>j\<in>dom S - {k}. mset (the (S j)))"
    using assms by (cases "S k") (auto simp: held_def sum.remove [of "dom S" k] domIff)
  have "held (S(k \<mapsto> as)) = mset as + (\<Sum>j\<in>dom S - {k}. mset (the (S j)))"
    using assms rest [of "Some as"] by (simp add: held_def sum.insert_remove del: fun_upd_apply) simp
  then show "held (S(k \<mapsto> as)) + (case S k of None \<Rightarrow> {#} | Some bs \<Rightarrow> mset bs) = held S + mset as" using all by simp
  have "held (S(k := None)) = (\<Sum>j\<in>dom S - {k}. mset (the (S j)))"
    using rest [of None] by (simp add: held_def del: fun_upd_apply)
  then show "held (S(k := None)) + (case S k of None \<Rightarrow> {#} | Some bs \<Rightarrow> mset bs) = held S" using all by simp
qed

lemma reass_step_conserves:
  assumes "reass_step c B S k b res S'" "finite (dom S)"
  shows "mset (result_bufs res) + held S' = held S + {#b#}"
  using assms
proof (cases rule: reass_step.cases)
  case start
  then show ?thesis using held_update(1) [OF assms(2), of k "[b]"] by simp
next
  case (too_many as)
  then show ?thesis using held_update(2) [OF assms(2), of k] by (simp add: add.commute)
next
  case (large as)
  then show ?thesis using held_update(2) [OF assms(2), of k] by (simp add: add.commute)
next
  case (build as n)
  then show ?thesis using held_update(2) [OF assms(2), of k] by (simp add: add.commute)
next
  case (no_buffer as)
  then show ?thesis using held_update(2) [OF assms(2), of k] by (simp add: add.commute)
next
  case (wait as)
  then show ?thesis using held_update(1) [OF assms(2), of k "as @ [b]"] by (simp add: add.commute)
qed simp_all

lemma flow_map_finite:
  assumes "reass_inv E w f fr" "flow_map_of w f fr S"
  shows "finite (dom S)"
proof -
  have "dom S = (\<lambda>a. flow_key (rflows w a)) ` dom f"
    by (rule set_eqI) (unfold domIff flow_map_None [OF assms(2)], simp)
  then show ?thesis using assms(1) by (simp add: reass_inv_def flows_ok_def)
qed

section \<open>Properties\<close>

lemma ex_nodes: "nodes_ok ex_env ex_pool {}"
  using ex_pool_inv by (auto simp: nodes_ok_def valid_worker_def ex_pool_def ex_env_def pool_inv_def)

lemma ex_reass_inv: "reass_inv ex_env (ex_reass B) Map.empty fr" "flow_map_of (ex_reass B) Map.empty fr Map.empty"
proof -
  have inv: "timers_inv ex_rtimers (replicate 2 empty_wheel)"
    using ex_timers_inv by (simp add: timers_inv_def ex_rtimers_def ex_timers_def)
  have "pool_inv ex_pool []" "valid_worker ex_pool 0" using ex_pool_inv by (auto simp: pool_inv_def valid_worker_def ex_pool_def)
  then have "timers_ok ex_env (rtimers (ex_reass B)) recs {}" for recs
    unfolding timers_ok_def using inv
    by (intro conjI exI [of _ "replicate 2 empty_wheel"] exI [of _ "[]"]) (simp_all add: ex_reass_def ex_rtimers_def ex_env_def)
  then show "reass_inv ex_env (ex_reass B) Map.empty fr"
    using ex_nodes ex_hash_rep(1) by (auto simp: reass_inv_def tab_ok_def flows_ok_def ex_reass_def)
  show "flow_map_of (ex_reass B) Map.empty fr Map.empty" by (simp add: flow_map_of_def)
qed

lemma ex_resources: "resources_ok fam ex_env b0 (ex_reass B) Map.empty k"
proof -
  have "\<forall>b\<in>set (sf_timer_buckets (tw_timer_array (rtimers (ex_reass B)) ! 0)). slot_used_cnt b \<noteq> - 1"
    by (simp add: ex_reass_def ex_rtimers_def ex_timers_def sf_tw_timer_init_def zero_bucket_def)
  moreover have "huge_ready ex_env (ex_reass B)" using ex_huge [of B] by (auto simp: huge_ready_def)
  moreover have "hash_room (rtab (ex_reass B))" using ex_hash_rep(2) by (simp add: ex_reass_def)
  ultimately show ?thesis by (simp add: resources_ok_def timer_room_def ex_env_def)
qed

lemma ex_room: "flow_room ex_env (ex_reass B)"
proof -
  have "yields 0 ex_pool" using ex_pool_alloc [of 0] by (auto simp: yields_def)
  then show ?thesis by (simp add: flow_room_def bucket_ready_def ex_reass_def ex_rtimers_def ex_env_def SF_TIMER_MAX_TICKS_def ex_timers_def)
qed

text \<open>C1: Refinement of reassembly.  Handling one fragment is exactly the step that the specification \<open>reass_step\<close> allows on the map from
  keys to fragment lists that the hash table, the linked lists and the flow records represent, and it allows one
  only: a fragment is rejected just when it has more IP headers than its interface reassembles, opens a flow
  just when there is memory for one, and a complete flow is built just when VPP has a buffer.  The two output values represent
  the step's result, and the invariant of table, pools, timers and lists holds again.  IPv4 fragments go through
  \<open>ip4_frag_proc\<close>, the others through \<open>ip6_frag_proc\<close>.  There is no memory error under \<open>resources_ok\<close>: a packet that is to be built
  fits into a 16 KB buffer and the pool has one (neither is checked by the code), and a new flow finds the counters of
  the table and of the timer wheel below their maximum.\<close>

theorem frag_proc_refines:
  assumes "reass_inv E w f fr" "flow_map_of w f fr S" "b0 \<notin> cached f fr"
    and "fam = frag_fam (rbufs w b0)" "k = fam_key fam (wd (rbufs w b0))" "resources_ok fam E b0 w S k"
    and "\<forall>n. vpp = Some n \<longrightarrow> n \<notin> insert b0 (cached f fr)"
  shows "step_ok E (choice_of E vpp b0 w) (recorded fam E b0 w) S k b0
      (if ip_version (ip_wdata (wd (rbufs w b0))) = IP_VERSION_4 then ip4_frag_proc E vpp b0 w else ip6_frag_proc E vpp b0 w)
    \<and> (\<exists>!x. reass_step (choice_of E vpp b0 w) (recorded fam E b0 w) S k b0 (fst x) (snd x))"
proof -
  let ?c = "choice_of E vpp b0 w" and ?B = "recorded fam E b0 w"
  have ok: "step_ok E ?c ?B S k b0 (frag_proc fam E vpp b0 w)"
    by (rule frag_proc_ok [OF assms(1-3) assms(4) [symmetric] assms(5-7)])
  then obtain res S' where "reass_step ?c ?B S k b0 res S'" unfolding step_ok_def by blast
  then have "\<exists>!x. reass_step ?c ?B S k b0 (fst x) (snd x)"
    by (intro ex1I [of _ "(res, S')"]) (auto dest: reass_step_det)
  then show ?thesis
    using ok assms(4) by (cases "ip_version (ip_wdata (wd (rbufs w b0))) = IP_VERSION_4")
      (simp_all add: frag_fam_def ip4_frag_proc_def ip6_frag_proc_def)
qed

theorem frag_proc_refines_witness:
  "\<exists>w' f' fr'. ip4_frag_proc ex_env None 1 (ex_reass (ex_frags 4 20)) = Some (None, 0, w')
    \<and> reass_inv ex_env w' f' fr' \<and> flow_map_of w' f' fr' [ip4_key (wd (ex_frags 4 20 1)) \<mapsto> [1]]"
proof -
  let ?w = "ex_reass (ex_frags 4 20)" and ?c = "choice_of ex_env None 1 (ex_reass (ex_frags 4 20))"
  let ?B = "recorded ip4_family ex_env 1 ?w" and ?k = "ip4_key (wd (ex_frags 4 20 1))"
  have v: "ip_version (ip_wdata (wd (rbufs ?w 1))) = IP_VERSION_4"
    by (simp add: ex_reass_def ex_frags_simps IP_VERSION_4_def)
  then have f: "ip4_family = frag_fam (rbufs ?w 1)" by (simp add: frag_fam_def)
  have k: "?k = fam_key ip4_family (wd (rbufs ?w 1))" by (simp add: ip4_family_def ex_reass_def)
  have "step_ok ex_env ?c ?B Map.empty ?k 1 (ip4_frag_proc ex_env None 1 ?w)"
    using frag_proc_refines [OF ex_reass_inv(1,2) _ f k ex_resources, of "\<lambda>_. []" None] v by (simp add: cached_def)
  then obtain r st w' f' fr' S' res where s: "ip4_frag_proc ex_env None 1 ?w = Some (r, st, w')" "reass_inv ex_env w' f' fr'"
    "flow_map_of w' f' fr' S'" "reass_step ?c ?B Map.empty ?k 1 res S'" "result_of (rbufs w') r st res"
    unfolding step_ok_def by blast
  have "\<not> too_deep ?c" "flow_memory ?c" using ex_room [of "ex_frags 4 20"]
    by (simp_all add: choice_of_def ex_reass_def ex_env_def ex_frags_simps)
  then have "reass_step ?c ?B Map.empty ?k 1 Waiting [?k \<mapsto> [1]]" using reass_step.start [of ?c Map.empty ?k ?B 1] by simp
  then have "res = Waiting" "S' = [?k \<mapsto> [1]]" using reass_step_det [OF s(4)] by blast+
  then show ?thesis using s by auto
qed

text \<open>C2: No packet is lost and none is duplicated: after a call, the buffers named by the result together
  with those waiting in flows are exactly those that waited before and the new one; no buffer waits in two
  flows, and no flow ever holds more than \<open>IP_REASS_MAX_CACHE_PKTS\<close>.\<close>

theorem frag_proc_conserves:
  assumes "reass_inv E w f fr" "flow_map_of w f fr S" "b0 \<notin> cached f fr"
    and "fam = frag_fam (rbufs w b0)" "k = fam_key fam (wd (rbufs w b0))" "resources_ok fam E b0 w S k"
    and "\<forall>n. vpp = Some n \<longrightarrow> n \<notin> insert b0 (cached f fr)"
  shows "\<exists>r st w' f' fr' S' res. frag_proc fam E vpp b0 w = Some (r, st, w') \<and> flow_map_of w' f' fr' S'
    \<and> result_of (rbufs w') r st res \<and> mset (result_bufs res) + held S' = held S + {#b0#}
    \<and> (\<forall>a\<in>dom f'. length (fr' a) \<le> IP_REASS_MAX_CACHE_PKTS \<and> distinct (fr' a))
    \<and> (\<forall>a\<in>dom f'. \<forall>b\<in>dom f'. a \<noteq> b \<longrightarrow> set (fr' a) \<inter> set (fr' b) = {})"
proof -
  have "step_ok E (choice_of E vpp b0 w) (recorded fam E b0 w) S k b0 (frag_proc fam E vpp b0 w)"
    by (rule frag_proc_ok [OF assms(1-3) assms(4) [symmetric] assms(5-7)])
  then obtain r st w' f' fr' S' res where s: "frag_proc fam E vpp b0 w = Some (r, st, w')" "reass_inv E w' f' fr'"
    "flow_map_of w' f' fr' S'" "reass_step (choice_of E vpp b0 w) (recorded fam E b0 w) S k b0 res S'" "result_of (rbufs w') r st res"
    unfolding step_ok_def by blast
  note c = reass_step_conserves [OF s(4) flow_map_finite [OF assms(1,2)]]
  have fl: "\<forall>a\<in>dom f'. flow_ok (rbufs w') (rflows w' a) (fr' a)"
    "\<forall>a\<in>dom f'. \<forall>b\<in>dom f'. a \<noteq> b \<longrightarrow> set (fr' a) \<inter> set (fr' b) = {}"
    using s(2) by (auto simp: reass_inv_def flows_ok_def)
  then have "\<forall>a\<in>dom f'. length (fr' a) \<le> IP_REASS_MAX_CACHE_PKTS \<and> distinct (fr' a)" by (simp add: flow_ok_def)
  then show ?thesis using s(1,3,5) c fl(2) by blast
qed

theorem frag_proc_conserves_witness:
  "\<exists>r st w' S' res. frag_proc ip4_family ex_env None 1 (ex_reass (ex_frags 4 20)) = Some (r, st, w')
    \<and> result_of (rbufs w') r st res \<and> mset (result_bufs res) + held S' = {#1#}"
proof -
  let ?w = "ex_reass (ex_frags 4 20)"
  have f: "ip4_family = frag_fam (rbufs ?w 1)"
    by (simp add: ex_reass_def ex_frags_simps IP_VERSION_4_def frag_fam_def)
  have e: "held Map.empty = {#}" by (simp add: held_def)
  have c: "1 \<notin> cached Map.empty (\<lambda>_. [])" "\<forall>n. None = Some n \<longrightarrow> n \<notin> insert 1 (cached Map.empty (\<lambda>_. []))"
    by (simp_all add: cached_def)
  show ?thesis
    using frag_proc_conserves [OF ex_reass_inv(1,2) c(1) f refl ex_resources c(2), unfolded e add_0] by metis
qed

end
