(* ===== verification/Reass_Nodes.thy ===== *)
theory Reass_Nodes
  imports Reass_Proc
begin

text \<open>
  The four graph nodes of the reassembly plugin (\<open>src/ip_reass/nodes\<close>): \<open>sf_ip4_reass\<close> and
  \<open>sf_ip6_reass\<close>, which collect the packets to hand on in an array of 257 entries, the node for expired
  timers, and the node that splits packets the rules have decided about.  Array accesses are checked.
\<close>

section \<open>Nodes\<close>

definition SF_NEXT_NODE_SF_PKT_DROP :: nat where "SF_NEXT_NODE_SF_PKT_DROP = 3"
definition TIMER_NEXT_ACL_ENTRY :: nat where "TIMER_NEXT_ACL_ENTRY = 0"
definition TIMER_NEXT_PKT_DROP :: nat where "TIMER_NEXT_PKT_DROP = 1"

definition sf_ip_reass_get_next_index :: "u8 \<Rightarrow> nat" where
  "sf_ip_reass_get_next_index proto =
    (if proto = IP_PRO_TCP then SF_NEXT_NODE_TCP_INPUT
     else if proto = IP_PRO_UDP then SF_NEXT_NODE_UDP_INPUT
     else SF_NEXT_NODE_SF_ACL_ENTRY)"

text \<open>
  The arrays of a node, which live as long as the thread, the fill level \<open>pre_index\<close>, and everything
  handed to \<open>vlib_buffer_enqueue_to_next\<close> so far.
\<close>

record reass_io =
  vlib_buffer_array :: "addr list"
  io_nexts :: "nat list"
  pre_index :: nat
  io_out :: "(addr \<times> nat) list"

definition pending :: "reass_io \<Rightarrow> (addr \<times> nat) list" where
  "pending io = zip (take (pre_index io) (vlib_buffer_array io)) (take (pre_index io) (io_nexts io))"

definition enqueue :: "reass_io \<Rightarrow> reass_io" where
  "enqueue io = io\<lparr>io_out := io_out io @ pending io, pre_index := 0\<rparr>"

definition put_pkt :: "addr \<Rightarrow> nat \<Rightarrow> reass_io \<Rightarrow> reass_io option" where
  "put_pkt b nx io =
    do { arr \<leftarrow> arr_write (vlib_buffer_array io) (pre_index io) b;
         nexts \<leftarrow> arr_write (io_nexts io) (pre_index io) nx;
         Some (io\<lparr>vlib_buffer_array := arr, io_nexts := nexts, pre_index := pre_index io + 1\<rparr>) }"

text \<open>\<open>split_frag_buffer_on_fail\<close> on the arrays from \<open>pre_index\<close> on.\<close>

definition put_failed ::
  "'f reass_env \<Rightarrow> addr \<Rightarrow> u32 \<Rightarrow> nat \<Rightarrow> nat \<Rightarrow> 'f reass_world \<Rightarrow> reass_io \<Rightarrow> ('f reass_world \<times> reass_io) option" where
  "put_failed E b0 intf frag_next_index next_drop w io =
    (let n = pre_index io in
     do { (count, s) \<leftarrow> split_frag_buffer_on_fail b0 (env_worker E) intf frag_next_index next_drop
            \<lparr>sbs = (rbufs w, rstats w), sarr = drop n (vlib_buffer_array io), snexts = drop n (io_nexts io)\<rparr>;
          Some (w\<lparr>rbufs := fst (sbs s), rstats := snd (sbs s)\<rparr>,
                io\<lparr>vlib_buffer_array := take n (vlib_buffer_array io) @ sarr s,
                   io_nexts := take n (io_nexts io) @ snexts s, pre_index := n + count\<rparr>) })"

text \<open>One iteration of the loop of \<open>sf_ip4_reass\<close> and \<open>sf_ip6_reass\<close>; \<open>out\<close> is what the call for the fragment returned.\<close>

definition reass_dispatch ::
  "'f reass_env \<Rightarrow> ptr \<times> int \<times> 'f reass_world \<Rightarrow> reass_io \<Rightarrow> ('f reass_world \<times> reass_io) option" where
  "reass_dispatch E out io =
    (case out of (r, ret_status, w) \<Rightarrow>
     do { (w, io) \<leftarrow>
            (if ret_status = 0 \<and> r \<noteq> None then
               do { b \<leftarrow> r;
                    io \<leftarrow> put_pkt b (sf_ip_reass_get_next_index (ip_protocol (ip_wdata (wd (rbufs w b))))) io;
                    Some (w, io) }
             else if ret_status > 0 then
               do { b \<leftarrow> r;
                    let io = (if int (pre_index io) + ret_status * int IP_REASS_MAX_CACHE_PKTS \<ge> int VLIB_FRAME_SIZE
                              then enqueue io else io);
                    put_failed E b (ucast (rec_interface_id (rbufs w b))) SF_NEXT_NODE_SF_ACL_ENTRY SF_NEXT_NODE_SF_PKT_DROP w io }
             else if ret_status = -1 then
               do { b \<leftarrow> r;
                    io \<leftarrow> put_pkt b SF_NEXT_NODE_SF_ACL_ENTRY io;
                    Some (w, io) }
             else Some (w, io));
          Some (w, if pre_index io \<ge> VLIB_FRAME_SIZE then enqueue io else io) })"

text \<open>The frame: each buffer comes with the answer VPP gives if a new buffer is asked for.\<close>

fun reass_loop ::
  "('f reass_env \<Rightarrow> ptr \<Rightarrow> addr \<Rightarrow> 'f reass_world \<Rightarrow> (ptr \<times> int \<times> 'f reass_world) option) \<Rightarrow> 'f reass_env
    \<Rightarrow> (addr \<times> ptr) list \<Rightarrow> 'f reass_world \<Rightarrow> reass_io \<Rightarrow> ('f reass_world \<times> reass_io) option" where
  "reass_loop proc E [] w io = Some (w, enqueue io)"
| "reass_loop proc E ((bi0, vpp) # from) w io =
    do { out \<leftarrow> proc E vpp bi0 w;
         (w, io) \<leftarrow> reass_dispatch E out io;
         reass_loop proc E from w io }"

definition sf_ip4_reass_node ::
  "'f reass_env \<Rightarrow> (addr \<times> ptr) list \<Rightarrow> 'f reass_world \<Rightarrow> reass_io \<Rightarrow> ('f reass_world \<times> reass_io) option" where
  "sf_ip4_reass_node E from w io = reass_loop ip4_frag_proc E from w (io\<lparr>pre_index := 0\<rparr>)"

definition sf_ip6_reass_node ::
  "'f reass_env \<Rightarrow> (addr \<times> ptr) list \<Rightarrow> 'f reass_world \<Rightarrow> reass_io \<Rightarrow> ('f reass_world \<times> reass_io) option" where
  "sf_ip6_reass_node E from w io = reass_loop ip6_frag_proc E from w (io\<lparr>pre_index := 0\<rparr>)"

text \<open>
  One iteration of the node for expired timers: \<open>info\<close> is the timer data.  The statistics are updated
  after the flow has been freed; freeing changes the link at the start of a node only, so that the interface read
  then is still the flow's.
\<close>

definition reass_timer_step :: "'f reass_env \<Rightarrow> addr \<Rightarrow> 'f reass_world \<Rightarrow> reass_io \<Rightarrow> ('f reass_world \<times> reass_io) option" where
  "reass_timer_step E info w io =
    (let td = tinfos (rtimers w) info in
     case timer_pnode td of
       None \<Rightarrow> do { t \<leftarrow> free_timer_info (env_worker E) (rtimers w) info; Some (w\<lparr>rtimers := t\<rparr>, io) }
     | Some pnode \<Rightarrow>
         do { tab \<leftarrow> hashFreeNode (rtab w) pnode (timer_hash_index td);
              let w = w\<lparr>rtab := tab\<rparr>;
              b0 \<leftarrow> frag_head (rflows w pnode);
              let intf = flow_interface_id (rflows w pnode);
              (w, io) \<leftarrow> put_failed E b0 intf TIMER_NEXT_ACL_ENTRY TIMER_NEXT_PKT_DROP w (io\<lparr>pre_index := 0\<rparr>);
              let io = enqueue io;
              w \<leftarrow> free_ip_reass_hash_node E pnode w;
              let st = update_ip_reass_stat (env_worker E) intf ip_reass_timer_timeout (rstats w);
              let st = update_ip_reass_stat (env_worker E) intf ip_reass_fail st;
              Some (w\<lparr>rstats := st\<rparr>, io) })"

fun sf_ip_reass_timer_node :: "'f reass_env \<Rightarrow> addr list \<Rightarrow> 'f reass_world \<Rightarrow> reass_io \<Rightarrow> ('f reass_world \<times> reass_io) option" where
  "sf_ip_reass_timer_node E [] w io = Some (w, io)"
| "sf_ip_reass_timer_node E (info # from) w io =
    do { (w, io) \<leftarrow> reass_timer_step E info w io; sf_ip_reass_timer_node E from w io }"

text \<open>The node that splits decided packets.\<close>

fun sf_ip_reass_forward_node :: "nat \<Rightarrow> addr list \<Rightarrow> reass_bufs \<times> reass_stats \<Rightarrow> reass_io \<Rightarrow> ((reass_bufs \<times> reass_stats) \<times> reass_io) option" where
  "sf_ip_reass_forward_node wi [] bs io = Some (bs, io)"
| "sf_ip_reass_forward_node wi (b0 # from) bs io =
    do { (count, s) \<leftarrow> split_frag_buffer b0 wi \<lparr>sbs = bs, sarr = vlib_buffer_array io, snexts = io_nexts io\<rparr>;
         sf_ip_reass_forward_node wi from (sbs s)
           (enqueue (io\<lparr>vlib_buffer_array := sarr s, io_nexts := snexts s, pre_index := count\<rparr>)) }"

section \<open>Handing on a list of fragments\<close>

definition leaves :: "reass_bufs \<Rightarrow> addr list \<Rightarrow> bool" where
  "leaves B as \<longleftrightarrow> (\<forall>a\<in>set as. \<not> is_reass_pkt (B a) \<and> followed_nodes_cnt (B a) = 0)"

lemma flat_leaves [simp]: "flat (map (\<lambda>a. FT a []) as) = as"
  by (induction as) auto

lemma forest_leaves: "frags_chain B p as \<Longrightarrow> leaves B as \<Longrightarrow> forest_ok B (map (\<lambda>a. FT a []) as)"
proof (induction as arbitrary: p)
  case (Cons a as)
  have "next_frag (B a) = first (map (\<lambda>a. FT a []) as)" using Cons.prems(1) by (cases as) auto
  then show ?case using Cons by (auto simp: leaves_def)
qed simp

definition io_ok :: "reass_io \<Rightarrow> bool" where
  "io_ok io \<longleftrightarrow> length (vlib_buffer_array io) = VLIB_FRAME_SIZE + 1 \<and> length (io_nexts io) = VLIB_FRAME_SIZE + 1
     \<and> pre_index io < VLIB_FRAME_SIZE"

lemma put_failed_ok:
  assumes io: "length (vlib_buffer_array io) = L" "length (io_nexts io) = L" "pre_index io + length as \<le> L"
    and as: "as \<noteq> []" "distinct as" "frags_chain (rbufs w) (Some (hd as)) as" "leaves (rbufs w) as"
  shows "\<exists>io' st. put_failed E (hd as) i f d w io = Some (w\<lparr>rbufs := split_bufs heir (hd as) as (rbufs w), rstats := st\<rparr>, io')
    \<and> length (vlib_buffer_array io') = L \<and> length (io_nexts io') = L \<and> pre_index io' = pre_index io + length as
    \<and> io_out io' = io_out io \<and> pending io' = pending io @ map (\<lambda>a. (a, f)) as"
proof -
  let ?n = "pre_index io" and ?ts = "map (\<lambda>a. FT a []) as"
  let ?s = "\<lparr>sbs = (rbufs w, rstats w), sarr = drop ?n (vlib_buffer_array io), snexts = drop ?n (io_nexts io)\<rparr>"
  have "split_frag_buffer_on_fail (hd as) (env_worker E) i f d ?s
    = Some (length (flat ?ts), fail_outcome (env_worker E) i f d (hd as) (flat ?ts) ?s)"
    using as io forest_leaves [OF as(3,4)] by (intro split_on_fail_run) (auto simp: split_room_def hd_map)
  then have s: "split_frag_buffer_on_fail (hd as) (env_worker E) i f d ?s
    = Some (length as, fail_outcome (env_worker E) i f d (hd as) as ?s)" by simp
  have nx: "map (next_in f d (rbufs w)) as = map (\<lambda>_. f) as"
    using as(4) by (auto simp: leaves_def next_in_def)
  have "zip as (map (\<lambda>_. f) as) = map (\<lambda>a. (a, f)) as" by (induction as) auto
  then show ?thesis
    using s io by (auto simp: put_failed_def Let_def fail_outcome_def nx pending_def)
qed

lemma put_pkt_ok:
  assumes "length (vlib_buffer_array io) = L" "length (io_nexts io) = L" "pre_index io < L"
  shows "\<exists>io'. put_pkt b nx io = Some io' \<and> length (vlib_buffer_array io') = L \<and> length (io_nexts io') = L
    \<and> pre_index io' = pre_index io + 1 \<and> io_out io' = io_out io \<and> pending io' = pending io @ [(b, nx)]"
  using assms by (simp add: put_pkt_def arr_simps pending_def list_update_take_drop)

lemma enqueue_fields [simp]:
  "vlib_buffer_array (enqueue io) = vlib_buffer_array io" "io_nexts (enqueue io) = io_nexts io" "pre_index (enqueue io) = 0"
  "io_out (enqueue io) @ pending (enqueue io) = io_out io @ pending io" "pending (enqueue io) = []" "io_out (enqueue io) = io_out io @ pending io"
  by (simp_all add: enqueue_def pending_def)

section \<open>One iteration\<close>

text \<open>What a node has to hand on for a result.\<close>

fun expected :: "reass_bufs \<Rightarrow> reass_result \<Rightarrow> (addr \<times> nat) list" where
  "expected B (Rejected b) = [(b, SF_NEXT_NODE_SF_ACL_ENTRY)]"
| "expected B Waiting = []"
| "expected B (Failed as) = map (\<lambda>a. (a, SF_NEXT_NODE_SF_ACL_ENTRY)) as"
| "expected B (Built n as) = [(n, sf_ip_reass_get_next_index (ip_protocol (ip_wdata (wd (B n)))))]"

text \<open>The fragments of a failed flow get the metadata of its first one; nothing else changes.\<close>

fun settled :: "reass_bufs \<Rightarrow> reass_result \<Rightarrow> reass_bufs" where
  "settled B (Failed as) = split_bufs heir (hd as) as B"
| "settled B res = B"

lemma dispatch_ok:
  assumes io: "io_ok io" and res: "result_of (rbufs w) r st res" "distinct (result_bufs res)" "leaves (rbufs w) (result_bufs res)"
  shows "\<exists>io' stats. reass_dispatch E (r, st, w) io = Some (w\<lparr>rbufs := settled (rbufs w) res, rstats := stats\<rparr>, io')
    \<and> io_ok io' \<and> io_out io' @ pending io' = io_out io @ pending io @ expected (rbufs w) res"
proof -
  let ?L = "VLIB_FRAME_SIZE + 1"
  have L: "length (vlib_buffer_array io) = ?L" "length (io_nexts io) = ?L" "pre_index io < VLIB_FRAME_SIZE"
    using io by (simp_all add: io_ok_def)
  have same: "w = w\<lparr>rbufs := rbufs w, rstats := rstats w\<rparr>" by simp
  let ?fin = "\<lambda>io. if pre_index io \<ge> VLIB_FRAME_SIZE then enqueue io else io"
  have fin: "io_ok (?fin io1) \<and> io_out (?fin io1) @ pending (?fin io1) = io_out io1 @ pending io1"
    if "length (vlib_buffer_array io1) = ?L" "length (io_nexts io1) = ?L" for io1
    using that by (auto simp: io_ok_def VLIB_FRAME_SIZE_def)
  show ?thesis
  proof (cases res)
    case (Rejected b)
    obtain io1 where io1: "put_pkt b SF_NEXT_NODE_SF_ACL_ENTRY io = Some io1" "length (vlib_buffer_array io1) = ?L" "length (io_nexts io1) = ?L"
      "io_out io1 = io_out io" "pending io1 = pending io @ [(b, SF_NEXT_NODE_SF_ACL_ENTRY)]"
      using put_pkt_ok [of io ?L b SF_NEXT_NODE_SF_ACL_ENTRY] L by auto
    have "reass_dispatch E (r, st, w) io = Some (w, ?fin io1)"
      using res(1) Rejected io1(1) by (simp add: reass_dispatch_def)
    then show ?thesis using fin [OF io1(2,3)] io1(4,5) Rejected same by (intro exI [of _ "?fin io1"] exI [of _ "rstats w"]) simp
  next
    case Waiting
    then have "reass_dispatch E (r, st, w) io = Some (w, ?fin io)" using res(1) by (simp add: reass_dispatch_def)
    then show ?thesis using fin [OF L(1,2)] Waiting same by (intro exI [of _ "?fin io"] exI [of _ "rstats w"]) simp
  next
    case (Built n as)
    let ?nx = "sf_ip_reass_get_next_index (ip_protocol (ip_wdata (wd (rbufs w n))))"
    obtain io1 where io1: "put_pkt n ?nx io = Some io1" "length (vlib_buffer_array io1) = ?L" "length (io_nexts io1) = ?L"
      "io_out io1 = io_out io" "pending io1 = pending io @ [(n, ?nx)]"
      using put_pkt_ok [of io ?L n ?nx] L by auto
    have "reass_dispatch E (r, st, w) io = Some (w, ?fin io1)"
      using res(1) Built io1(1) by (simp add: reass_dispatch_def)
    then show ?thesis using fin [OF io1(2,3)] io1(4,5) Built same by (intro exI [of _ "?fin io1"] exI [of _ "rstats w"]) simp
  next
    case (Failed as)
    have as: "as \<noteq> []" "frags_chain (rbufs w) r as" "0 < st" "int (length as) \<le> st + 1" "length as \<le> 11"
      "distinct as" "leaves (rbufs w) as"
      using res Failed by (simp_all add: IP_REASS_MAX_CACHE_PKTS_def)
    have r: "r = Some (hd as)" using as(1,2) by (cases as) auto
    let ?io = "if int (pre_index io) + st * int IP_REASS_MAX_CACHE_PKTS \<ge> int VLIB_FRAME_SIZE then enqueue io else io"
    have room: "length (vlib_buffer_array ?io) = ?L" "length (io_nexts ?io) = ?L" "pre_index ?io + length as \<le> ?L"
      "io_out ?io @ pending ?io = io_out io @ pending io"
      using L as(3-5) by (auto simp: IP_REASS_MAX_CACHE_PKTS_def VLIB_FRAME_SIZE_def)
    let ?i = "ucast (rec_interface_id (rbufs w (hd as)))"
    obtain io1 stats where io1: "put_failed E (hd as) ?i SF_NEXT_NODE_SF_ACL_ENTRY SF_NEXT_NODE_SF_PKT_DROP w ?io
        = Some (w\<lparr>rbufs := split_bufs heir (hd as) as (rbufs w), rstats := stats\<rparr>, io1)"
      "length (vlib_buffer_array io1) = ?L" "length (io_nexts io1) = ?L"
      "io_out io1 = io_out ?io" "pending io1 = pending ?io @ map (\<lambda>a. (a, SF_NEXT_NODE_SF_ACL_ENTRY)) as"
      using put_failed_ok [OF room(1-3) as(1,6) as(2) [unfolded r] as(7)] by blast
    have "reass_dispatch E (r, st, w) io = Some (w\<lparr>rbufs := split_bufs heir (hd as) as (rbufs w), rstats := stats\<rparr>, ?fin io1)"
      using as(3) r io1(1) by (simp add: reass_dispatch_def Let_def)
    moreover have "io_out io1 @ pending io1 = io_out io @ pending io @ map (\<lambda>a. (a, SF_NEXT_NODE_SF_ACL_ENTRY)) as"
      unfolding io1(4,5) append_assoc [symmetric] room(4) ..
    ultimately show ?thesis using fin [OF io1(2,3)] Failed by (intro exI [of _ "?fin io1"] exI [of _ stats]) simp
  qed
qed

section \<open>Expired timers\<close>

lemma split_bufs_other: "x \<notin> set as \<Longrightarrow> split_bufs G b0 as B x = B x"
  by (simp add: split_bufs_def)

lemma timers_ok_subset: "timers_ok E t recs N \<Longrightarrow> M \<subseteq> N \<Longrightarrow> timers_ok E t recs M"
  unfolding timers_ok_def by (meson inj_on_subset subsetD)

lemma free_flow_ok:
  assumes inv: "core_inv E w f" and a: "f a = Some h"
  shows "\<exists>tab pool. hashFreeNode (rtab w) a h = Some tab \<and> free_node_to_pool (env_worker E) (rpool w) a = Some pool
    \<and> core_inv E (w\<lparr>rtab := tab, rpool := pool\<rparr>) (f(a := None))"
proof -
  have d: "dom (f(a := None)) = dom f - {a}" by auto
  have tab: "tab_ok E w f" "nodes_ok E (rpool w) (dom f)" "timers_ok E (rtimers w) (rrecs w) (dom f)" "\<exists>H. nodes_ok E (hpool w) H"
    using inv by (simp_all add: core_inv_def)
  obtain tab' where t: "hashFreeNode (rtab w) a h = Some tab'" "hash_rep tab' (f(a := None))"
    using ght.free_ok [of "rtab w" f a h, OF _ a] tab(1) by (auto simp: tab_ok_def)
  obtain pool where p: "free_node_to_pool (env_worker E) (rpool w) a = Some pool" "nodes_ok E pool (dom f - {a})"
    using nodes_free [OF tab(2)] a by blast
  have "tab_ok E (w\<lparr>rtab := tab', rpool := pool\<rparr>) (f(a := None))"
    using t(2) tab(1) unfolding tab_ok_def d by (auto intro: inj_on_subset)
  moreover have "timers_ok E (rtimers w) (rrecs w) (dom f - {a})" using tab(3) by (rule timers_ok_subset) blast
  ultimately show ?thesis using t(1) p tab(4) by (auto simp: core_inv_def d)
qed

lemma reass_timer_step_ok:
  assumes inv: "reass_inv E w f fr" and a: "f a = Some h" and leaf: "leaves (rbufs w) (fr a)"
    and td: "timer_pnode (tinfos (rtimers w) info) = Some a" "timer_hash_index (tinfos (rtimers w) info) = h"
    and io: "length (vlib_buffer_array io) = VLIB_FRAME_SIZE + 1" "length (io_nexts io) = VLIB_FRAME_SIZE + 1"
  shows "\<exists>w' io'. reass_timer_step E info w io = Some (w', io') \<and> reass_inv E w' (f(a := None)) fr
    \<and> rflows w' = rflows w \<and> rtimers w' = rtimers w \<and> rbufs w' = split_bufs heir (hd (fr a)) (fr a) (rbufs w)
    \<and> io_ok io' \<and> pending io' = [] \<and> io_out io' = io_out io @ map (\<lambda>x. (x, TIMER_NEXT_ACL_ENTRY)) (fr a)"
proof -
  let ?as = "fr a" and ?B = "split_bufs heir (hd (fr a)) (fr a) (rbufs w)"
  have core: "core_inv E w f" and fl: "flows_ok (rbufs w) (rflows w) (dom f) fr" using inv by (simp_all add: reass_inv_iff)
  have flow: "flow_ok (rbufs w) (rflows w a) ?as" using fl a by (auto simp: flows_ok_def)
  have as: "?as \<noteq> []" "distinct ?as" "frags_chain (rbufs w) (frag_head (rflows w a)) ?as" "length ?as \<le> VLIB_FRAME_SIZE"
    using flow by (auto simp: flow_ok_def IP_REASS_MAX_CACHE_PKTS_def VLIB_FRAME_SIZE_def)
  have hd: "frag_head (rflows w a) = Some (hd ?as)" using as(1,3) by (cases ?as) auto
  obtain tab pool where fr: "hashFreeNode (rtab w) a h = Some tab" "free_node_to_pool (env_worker E) (rpool w) a = Some pool"
    "core_inv E (w\<lparr>rtab := tab, rpool := pool\<rparr>) (f(a := None))" using free_flow_ok [OF core a] by blast
  let ?io = "io\<lparr>pre_index := 0\<rparr>" and ?w = "w\<lparr>rtab := tab\<rparr>" and ?i = "flow_interface_id (rflows w a)"
  have pre: "length (vlib_buffer_array ?io) = VLIB_FRAME_SIZE + 1" "length (io_nexts ?io) = VLIB_FRAME_SIZE + 1"
    "pre_index ?io + length ?as \<le> VLIB_FRAME_SIZE + 1" "pending ?io = []" using io as(4) by (simp_all add: pending_def)
  obtain io' st where put: "put_failed E (hd ?as) ?i TIMER_NEXT_ACL_ENTRY TIMER_NEXT_PKT_DROP ?w ?io
      = Some (?w\<lparr>rbufs := ?B, rstats := st\<rparr>, io')"
    "length (vlib_buffer_array io') = VLIB_FRAME_SIZE + 1" "length (io_nexts io') = VLIB_FRAME_SIZE + 1"
    "io_out io' = io_out io" "pending io' = map (\<lambda>x. (x, TIMER_NEXT_ACL_ENTRY)) ?as"
    using put_failed_ok [OF pre(1-3) as(1,2), of ?w E ?i TIMER_NEXT_ACL_ENTRY TIMER_NEXT_PKT_DROP] as(3) leaf hd pre(4) by auto
  let ?st = "update_ip_reass_stat (env_worker E) ?i ip_reass_fail (update_ip_reass_stat (env_worker E) ?i ip_reass_timer_timeout st)"
  let ?w' = "w\<lparr>rtab := tab, rbufs := ?B, rpool := pool, rstats := ?st\<rparr>"
  have run: "reass_timer_step E info w io = Some (?w', enqueue io')"
    using td fr(1,2) hd put(1) by (simp add: reass_timer_step_def free_ip_reass_hash_node_def Let_def)
  have core': "core_inv E ?w' (f(a := None))"
    using fr(3) core_inv_cong [of ?w' "w\<lparr>rtab := tab, rpool := pool\<rparr>" "f(a := None)" E] by simp
  have dis: "\<forall>b\<in>dom f - {a}. \<forall>x\<in>set (fr b). ?B x = rbufs w x"
    using fl a split_bufs_other by (fastforce simp: flows_ok_def)
  have d: "dom (f(a := None)) = dom f - {a}" by auto
  have "flows_ok ?B (rflows w) (dom (f(a := None))) fr" unfolding d by (rule flows_ok_remove [OF fl dis]) simp
  then have "reass_inv E ?w' (f(a := None)) fr" using core' by (simp add: reass_inv_iff)
  moreover have "io_ok (enqueue io')" using put(2,3) by (simp add: io_ok_def VLIB_FRAME_SIZE_def)
  ultimately show ?thesis using run put(4,5) by simp
qed

section \<open>What a call leaves alone\<close>

text \<open>Apart from a new packet, a call changes no flag of a buffer and no count of buffers below it.\<close>

definition same_kind :: "reass_bufs \<Rightarrow> reass_bufs \<Rightarrow> addr \<Rightarrow> bool" where
  "same_kind B B' x \<longleftrightarrow> is_reass_pkt (B' x) = is_reass_pkt (B x) \<and> followed_nodes_cnt (B' x) = followed_nodes_cnt (B x)"

lemma rbufs_kept:
  "unlink_flow E a h w = Some w1 \<Longrightarrow> rbufs w1 = rbufs w"
  "free_ip_reass_hash_node E a w = Some w2 \<Longrightarrow> rbufs w2 = rbufs w"
  "alloc_ip_reass_hash_node E w = Some (w3, r) \<Longrightarrow> rbufs w3 = rbufs w"
  by (auto simp: unlink_flow_def ip_reass_delete_timer_def free_ip_reass_hash_node_def alloc_ip_reass_hash_node_def bind_eq_Some_conv)

lemma give_up_kept: "give_up E b0 a h reason w = Some (r, st, w') \<Longrightarrow> rbufs w' = rbufs w"
  by (auto simp: give_up_def bind_eq_Some_conv Let_def dest!: rbufs_kept)

lemma submit_kept: "ip_reass_submit_timer E a h t w = Some (r, w') \<Longrightarrow> rbufs w' = rbufs w"
  by (auto simp: ip_reass_submit_timer_def Let_def split: Option.bind_splits prod.splits option.splits if_splits)

lemma same_kind_refl [simp]: "same_kind B B x"
  by (simp add: same_kind_def)

lemma same_kind_next [simp]: "same_kind B (B(y := (B y)\<lparr>next_frag := p\<rparr>)) x"
  by (simp add: same_kind_def is_reass_pkt_def)

lemma same_kind_trans: "same_kind A B x \<Longrightarrow> same_kind B C x \<Longrightarrow> same_kind A C x"
  by (simp add: same_kind_def)

lemma append_kind: "append_frag b0 a w = Some w' \<Longrightarrow> same_kind (rbufs w) (rbufs w') x"
  by (auto simp: append_frag_def bind_eq_Some_conv)

lemma build_kind:
  assumes "frag_build_pkt fam E vpp h st w = Some (n, st', w')" "vpp \<noteq> Some x"
  shows "same_kind (rbufs w) (rbufs w') x"
proof (cases vpp)
  case None
  then show ?thesis using assms by (auto simp: frag_build_pkt_def bind_eq_Some_conv)
next
  case (Some b)
  then have "\<forall>y. y \<noteq> b \<longrightarrow> rbufs w' y = rbufs w y"
    using assms(1) by (auto simp: frag_build_pkt_def bind_eq_Some_conv Let_def)
  then show ?thesis using assms(2) Some by (simp add: same_kind_def)
qed

lemma frag_known_kind:
  assumes "frag_known fam E vpp b0 a h w = Some (r, st, w')" "vpp \<noteq> Some x"
  shows "same_kind (rbufs w) (rbufs w') x"
proof -
  obtain dup where dup: "dup_loop (rbufs w) (frag_offset (rbufs w b0)) (frag_head (rflows w a)) = Some dup"
    using assms by (auto simp: frag_known_def bind_eq_Some_conv)
  show ?thesis
  proof (cases dup)
    case True
    then show ?thesis using assms dup by (simp add: frag_known_def)
  next
    case False
    obtain w1 where w1: "append_frag b0 a w = Some w1" using assms dup False by (auto simp: frag_known_def bind_eq_Some_conv)
    have "same_kind (rbufs w1) (rbufs w') x"
      using assms dup False w1
      by (auto simp: frag_known_def bind_eq_Some_conv Let_def split: if_splits
          dest!: rbufs_kept give_up_kept build_kind [where x = x])
    then show ?thesis by (rule same_kind_trans [OF append_kind [OF w1]])
  qed
qed

lemma frag_new_kind:
  assumes "frag_new fam E b0 k h w = Some (r, st, w')"
  shows "same_kind (rbufs w) (rbufs w') x"
proof -
  obtain w1 p where al: "alloc_ip_reass_hash_node E w = Some (w1, p)" using assms by (auto simp: frag_new_def bind_eq_Some_conv)
  have w1: "rbufs w1 = rbufs w" by (rule rbufs_kept(3) [OF al])
  show ?thesis
  proof (cases p)
    case None
    then show ?thesis using assms al w1 by (simp add: frag_new_def)
  next
    case (Some a)
    let ?w2 = "w1\<lparr>rflows := (rflows w1)(a := zero_flow\<lparr>flow_key := k\<rparr>)\<rparr>"
    obtain ret tab where ins: "hashInsertNode (rtab ?w2) h a = Some (ret, tab)"
      using assms al Some by (auto simp: frag_new_def bind_eq_Some_conv Let_def)
    show ?thesis
    proof (cases "ret = 0")
      case False
      then show ?thesis using assms al Some ins w1 by (auto simp: frag_new_def bind_eq_Some_conv Let_def dest!: rbufs_kept)
    next
      case True
      obtain ret' w3 where sub: "ip_reass_submit_timer E a h (timeout_sec (env_config E)) (?w2\<lparr>rtab := tab\<rparr>) = Some (ret', w3)"
        using assms al Some ins True by (auto simp: frag_new_def bind_eq_Some_conv Let_def)
      have "rbufs w3 = rbufs w" using submit_kept [OF sub] w1 by simp
      then show ?thesis using assms al Some ins True sub
        by (cases "ret' = 0") (auto simp: frag_new_def bind_eq_Some_conv Let_def dest!: rbufs_kept)
    qed
  qed
qed

lemma frag_proc_kind:
  assumes run: "frag_proc fam E vpp b0 w = Some (r, st, w')" and x: "vpp \<noteq> Some x"
  shows "same_kind (recorded fam E b0 w) (rbufs w') x"
proof -
  let ?w = "w\<lparr>rbufs := recorded fam E b0 w\<rparr>"
  consider "w' = ?w" | a h where "frag_known fam E vpp b0 a h ?w = Some (r, st, w')" | k h where "frag_new fam E b0 k h ?w = Some (r, st, w')"
    using run by (auto simp: frag_proc_def recorded_def bind_eq_Some_conv Let_def split: if_splits option.splits)
  then show ?thesis
  proof cases
    case 2
    then show ?thesis using frag_known_kind [OF _ x] by fastforce
  next
    case 3
    then show ?thesis using frag_new_kind by fastforce
  qed simp
qed

section \<open>Fragment and dispatch\<close>

lemma reass_inv_off:
  assumes inv: "reass_inv E w f fr" and B: "\<forall>x\<in>cached f fr. B x = rbufs w x"
  shows "reass_inv E (w\<lparr>rbufs := B, rstats := st\<rparr>) f fr"
proof -
  let ?w = "w\<lparr>rbufs := B, rstats := st\<rparr>"
  have "core_inv E ?w f" using inv core_inv_cong [of ?w w f E] by (simp add: reass_inv_iff)
  moreover have "flow_ok B (rflows w a) (fr a)" if "a \<in> dom f" for a
    using inv that B flow_ok_cong [of "fr a" B "rbufs w" "rflows w a"] by (auto simp: reass_inv_def flows_ok_def cached_def)
  ultimately show ?thesis using inv by (simp add: reass_inv_iff flows_ok_def)
qed

lemma held_flows:
  assumes inv: "reass_inv E w f fr" and S: "flow_map_of w f fr S"
  shows "held S = (\<Sum>a\<in>dom f. mset (fr a))"
proof -
  let ?key = "\<lambda>a. flow_key (rflows w a)"
  have inj: "inj_on ?key (dom f)" using inv by (simp add: reass_inv_def tab_ok_def)
  have d: "dom S = ?key ` dom f" by (rule set_eqI) (unfold domIff flow_map_None [OF S], simp)
  have "S (?key a) = Some (fr a)" if "a \<in> dom f" for a using S that by (auto simp: flow_map_of_def)
  then show ?thesis unfolding held_def d by (simp add: sum.reindex [OF inj])
qed

lemma held_once:
  assumes inv: "reass_inv E w f fr" and S: "flow_map_of w f fr S"
  shows "set_mset (held S) = cached f fr" and "count (held S) x \<le> 1"
proof -
  have fl: "finite (dom f)" "\<forall>a\<in>dom f. distinct (fr a)" "\<forall>a\<in>dom f. \<forall>b\<in>dom f. a \<noteq> b \<longrightarrow> set (fr a) \<inter> set (fr b) = {}"
    using inv by (auto simp: reass_inv_def flows_ok_def flow_ok_def)
  show "set_mset (held S) = cached f fr" using fl(1) by (simp add: held_flows [OF assms] cached_def set_mset_sum)
  show "count (held S) x \<le> 1"
  proof (cases "\<exists>a\<in>dom f. x \<in> set (fr a)")
    case True
    then obtain a where a: "a \<in> dom f" "x \<in> set (fr a)" by blast
    have "x \<notin> set (fr b)" if "b \<in> dom f - {a}" for b using fl(3) a that by blast
    then have "(\<Sum>b\<in>dom f - {a}. count (mset (fr b)) x) = 0" 
      by (intro sum.neutral ballI) (simp add: not_in_iff [symmetric])
    then have "count (held S) x = count (mset (fr a)) x"
      unfolding held_flows [OF assms] count_sum using sum.remove [OF fl(1) a(1), of "\<lambda>b. count (mset (fr b)) x"] by linarith
    then show ?thesis using fl(2) a by (simp add: distinct_count_atmost_1)
  next
    case False
    then have "x \<notin># held S" using \<open>set_mset (held S) = cached f fr\<close> by (simp add: cached_def)
    then show ?thesis by (simp add: not_in_iff)
  qed
qed

text \<open>The buffers of a result are the caller's: no flow holds one of them any more.\<close>

lemma result_released:
  assumes inv: "reass_inv E w f fr" "flow_map_of w f fr S" and b0: "b0 \<notin> cached f fr"
    and step: "reass_step c B S k b0 res S'" and inv': "reass_inv E w' f' fr'" "flow_map_of w' f' fr' S'"
  shows "distinct (result_bufs res)" and "set (result_bufs res) \<inter> cached f' fr' = {}"
    and "set (result_bufs res) \<union> cached f' fr' = insert b0 (cached f fr)"
proof -
  have eq: "mset (result_bufs res) + held S' = held S + {#b0#}" by (rule reass_step_conserves [OF step flow_map_finite [OF inv]])
  have once: "count (held S + {#b0#}) x \<le> 1" for x
    using held_once [OF inv] b0 by (auto simp: not_in_iff [symmetric])
  have sum: "count (mset (result_bufs res)) x + count (held S') x \<le> 1" for x using once [of x] unfolding eq [symmetric] by simp
  show "distinct (result_bufs res)"
    unfolding distinct_count_atmost_1 using sum by (metis add_leD1 count_mset_0_iff count_greater_eq_one_iff le_antisym set_mset_mset)
  show "set (result_bufs res) \<inter> cached f' fr' = {}"
  proof (rule ccontr)
    assume "set (result_bufs res) \<inter> cached f' fr' \<noteq> {}"
    then obtain x where "x \<in># mset (result_bufs res)" "x \<in># held S'" using held_once(1) [OF inv'] by auto
    then have "count (mset (result_bufs res)) x \<ge> 1" "count (held S') x \<ge> 1" unfolding count_greater_eq_one_iff by blast+
    then show False using sum [of x] by linarith
  qed
  have "set_mset (mset (result_bufs res) + held S') = set_mset (held S + {#b0#})" using eq by simp
  then show "set (result_bufs res) \<union> cached f' fr' = insert b0 (cached f fr)"
    unfolding set_mset_union held_once(1) [OF inv] held_once(1) [OF inv'] by simp
qed

definition leaf_flows :: "reass_bufs \<Rightarrow> addr set \<Rightarrow> bool" where
  "leaf_flows B A \<longleftrightarrow> (\<forall>x\<in>A. \<not> is_reass_pkt (B x) \<and> followed_nodes_cnt (B x) = 0)"

lemma leaves_iff: "leaves B as \<longleftrightarrow> leaf_flows B (set as)"
  by (simp add: leaves_def leaf_flows_def)

lemma recorded_leaf:
  assumes "leaf_flows (rbufs w) A" "\<not> is_reass_pkt (rbufs w b0)"
  shows "leaf_flows (recorded fam E b0 w) (insert b0 A)"
  using assms by (auto simp: leaf_flows_def recorded_def frag_record_def Let_def is_reass_pkt_def)

text \<open>One buffer of a frame: the call for the fragment, then the dispatch of its result.\<close>

lemma reass_iteration_ok:
  assumes inv: "reass_inv E w f fr" "flow_map_of w f fr S" and b0: "b0 \<notin> cached f fr" "fam = frag_fam (rbufs w b0)"
    and k: "k = fam_key fam (wd (rbufs w b0))" and res: "resources_ok fam E b0 w S k"
    and vpp: "\<forall>n. vpp = Some n \<longrightarrow> n \<notin> insert b0 (cached f fr)"
    and leaf: "leaf_flows (rbufs w) (cached f fr)" "\<not> is_reass_pkt (rbufs w b0)" and io: "io_ok io"
  shows "\<exists>r st w1 w' io' f' fr' S' res. frag_proc fam E vpp b0 w = Some (r, st, w1) \<and> reass_dispatch E (r, st, w1) io = Some (w', io')
    \<and> reass_step (choice_of E vpp b0 w) (recorded fam E b0 w) S k b0 res S'
    \<and> reass_inv E w' f' fr' \<and> flow_map_of w' f' fr' S' \<and> leaf_flows (rbufs w') (cached f' fr')
    \<and> io_ok io' \<and> io_out io' @ pending io' = io_out io @ pending io @ expected (rbufs w1) res"
proof -
  let ?R = "recorded fam E b0 w" and ?all = "insert b0 (cached f fr)"
  have "step_ok E (choice_of E vpp b0 w) ?R S k b0 (frag_proc fam E vpp b0 w)"
    by (rule frag_proc_ok [OF inv b0(1) b0(2) [symmetric] k res vpp])
  then obtain r st w1 f' fr' S' res where s: "frag_proc fam E vpp b0 w = Some (r, st, w1)" "reass_inv E w1 f' fr'"
    "flow_map_of w1 f' fr' S'" "reass_step (choice_of E vpp b0 w) ?R S k b0 res S'" "result_of (rbufs w1) r st res"
    unfolding step_ok_def by blast
  note rel = result_released [OF inv b0(1) s(4,2,3)]
  have "leaf_flows ?R ?all" using leaf by (rule recorded_leaf)
  moreover have "same_kind ?R (rbufs w1) x" if "x \<in> ?all" for x
    using frag_proc_kind [OF s(1)] vpp that by blast
  ultimately have l: "leaf_flows (rbufs w1) ?all" by (simp add: leaf_flows_def same_kind_def)
  then have "leaves (rbufs w1) (result_bufs res)" using rel(3) by (auto simp: leaves_iff leaf_flows_def)
  then obtain io' stats where d: "reass_dispatch E (r, st, w1) io = Some (w1\<lparr>rbufs := settled (rbufs w1) res, rstats := stats\<rparr>, io')"
    "io_ok io'" "io_out io' @ pending io' = io_out io @ pending io @ expected (rbufs w1) res"
    using dispatch_ok [OF io s(5) rel(1)] by blast
  let ?w' = "w1\<lparr>rbufs := settled (rbufs w1) res, rstats := stats\<rparr>"
  have off: "\<forall>x\<in>cached f' fr'. settled (rbufs w1) res x = rbufs w1 x"
    using rel(2) by (cases res) (auto intro!: split_bufs_other)
  have inv': "reass_inv E ?w' f' fr'" by (rule reass_inv_off [OF s(2) off])
  have m: "flow_map_of ?w' f' fr' S'" using s(3) by (simp add: flow_map_of_def)
  have l': "leaf_flows (rbufs ?w') (cached f' fr')" using l off rel(3) by (auto simp: leaf_flows_def)
  show ?thesis using s(1,4) d inv' m l' by blast
qed

section \<open>Missing bytes\<close>

text \<open>Until a packet is built, a call leaves the 16 KB pool and, but for the record and the links, all buffers as they are.\<close>

lemma hpool_kept:
  "unlink_flow E a h w = Some w1 \<Longrightarrow> hpool w1 = hpool w \<and> rflows w1 = rflows w"
  "free_ip_reass_hash_node E a w = Some w2 \<Longrightarrow> hpool w2 = hpool w \<and> rflows w2 = rflows w"
  "alloc_ip_reass_hash_node E w = Some (w3, r) \<Longrightarrow> hpool w3 = hpool w"
  "append_frag b0 a w = Some w4 \<Longrightarrow> hpool w4 = hpool w"
  by (auto simp: unlink_flow_def ip_reass_delete_timer_def free_ip_reass_hash_node_def alloc_ip_reass_hash_node_def append_frag_def bind_eq_Some_conv)

lemma hpool_kept_timer: "ip_reass_submit_timer E a h t w = Some (r', w') \<Longrightarrow> hpool w' = hpool w"
  by (auto simp: ip_reass_submit_timer_def Let_def split: Option.bind_splits prod.splits option.splits if_splits)

lemma hpool_kept_give_up:
  assumes "give_up E b0 a h reason w = Some (r', st, w')"
  shows "hpool w' = hpool w \<and> rbufs w' = rbufs w"
  using give_up_kept [OF assms] assms by (auto simp: give_up_def bind_eq_Some_conv Let_def dest!: hpool_kept)

lemma same_frags_refl [simp]: "same_frags B B"
  unfolding same_frags_def
proof
  show "\<exists>p. B a = (B a)\<lparr>next_frag := p\<rparr>" for a by (rule exI [of _ "next_frag (B a)"]) simp
qed

lemma same_frags_next [simp]: "same_frags B (B(y := (B y)\<lparr>next_frag := p\<rparr>))"
  unfolding same_frags_def
proof
  show "\<exists>q. (B(y := (B y)\<lparr>next_frag := p\<rparr>)) a = (B a)\<lparr>next_frag := q\<rparr>" for a
    by (rule exI [of _ "if a = y then p else next_frag (B a)"]) simp
qed

lemma frag_known_waits:
  assumes "frag_known fam E vpp b0 a h w = Some (None, st, w')"
  shows "hpool w' = hpool w \<and> same_frags (rbufs w) (rbufs w')"
proof -
  obtain w1 where w1: "append_frag b0 a w = Some w1"
    using assms by (auto simp: frag_known_def bind_eq_Some_conv split: if_splits)
  have "same_frags (rbufs w) (rbufs w1)" using w1 by (auto simp: append_frag_def bind_eq_Some_conv)
  moreover have "hpool w' = hpool w1 \<and> rbufs w' = rbufs w1"
    using assms w1
    by (auto simp: frag_known_def bind_eq_Some_conv Let_def dest!: hpool_kept_give_up split: if_splits)
  ultimately show ?thesis using hpool_kept(4) [OF w1] by simp
qed

lemma frag_new_waits:
  assumes "frag_new fam E b0 k h w = Some (None, st, w')"
  shows "hpool w' = hpool w \<and> same_frags (rbufs w) (rbufs w')"
proof -
  obtain w1 p where al: "alloc_ip_reass_hash_node E w = Some (w1, p)" using assms by (auto simp: frag_new_def bind_eq_Some_conv)
  note w1 = rbufs_kept(3) [OF al] hpool_kept(3) [OF al]
  obtain a where a: "p = Some a" using assms al by (cases p) (simp_all add: frag_new_def)
  let ?w2 = "w1\<lparr>rflows := (rflows w1)(a := zero_flow\<lparr>flow_key := k\<rparr>)\<rparr>"
  obtain ret tab where ins: "hashInsertNode (rtab ?w2) h a = Some (ret, tab)"
    using assms al a by (auto simp: frag_new_def bind_eq_Some_conv Let_def)
  have ret: "ret = 0" using assms al a ins by (auto simp: frag_new_def bind_eq_Some_conv Let_def split: if_splits)
  obtain ret' w3 where sub: "ip_reass_submit_timer E a h (timeout_sec (env_config E)) (?w2\<lparr>rtab := tab\<rparr>) = Some (ret', w3)"
    using assms al a ins ret by (auto simp: frag_new_def bind_eq_Some_conv Let_def)
  have w3: "rbufs w3 = rbufs w" "hpool w3 = hpool w" using submit_kept [OF sub] hpool_kept_timer [OF sub] w1 by simp_all
  have "ret' = 0" using assms al a ins ret sub by (auto simp: frag_new_def bind_eq_Some_conv Let_def split: if_splits)
  then show ?thesis using assms al a ins ret sub w3 by (auto simp: frag_new_def bind_eq_Some_conv Let_def)
qed

lemma frag_proc_waits:
  assumes run: "frag_proc fam E vpp b0 w = Some (None, st, w')"
  shows "hpool w' = hpool w \<and> same_frags (recorded fam E b0 w) (rbufs w')"
proof -
  let ?w = "w\<lparr>rbufs := recorded fam E b0 w\<rparr>"
  consider a h where "frag_known fam E vpp b0 a h ?w = Some (None, st, w')" | k h where "frag_new fam E b0 k h ?w = Some (None, st, w')"
    using run by (auto simp: frag_proc_def recorded_def bind_eq_Some_conv Let_def split: if_splits option.splits)
  then show ?thesis using frag_known_waits frag_new_waits by cases fastforce+
qed

text \<open>A packet that is built is the one that \<open>frag_build_wdata\<close> makes of the flow, in the buffer that VPP gave.\<close>

lemma frag_known_built:
  assumes run: "frag_known fam E (Some n) b0 a h w = Some (r, 0, w')" and app: "append_frag b0 a w = Some w1"
    and few: "\<not> cache_pkt_num (rflows w1 a) \<ge> of_nat IP_REASS_MAX_CACHE_PKTS"
    and fits: "\<not> too_large (rbufs w1 b0)" "fam_last fam (wd (rbufs w1 b0)) = is_last (rbufs w1 b0)" and r: "r \<noteq> None"
  shows "\<exists>hd. frag_head (rflows w1 a) = Some hd
    \<and> (\<forall>new cnt. frag_build_wdata fam E (rbufs w1) hd = Some (new, cnt) \<longrightarrow> wd (rbufs w' n) = new)"
proof -
  define d where "d = rflows w1 a"
  define d' where "d' = (if is_last (rbufs w1 b0) then d\<lparr>recv_last_frag := 1, total_len := frag_offset (rbufs w1 b0) + frag_size (rbufs w1 b0)\<rparr> else d)"
  define d2 where "d2 = d'\<lparr>meet_len := meet_len d' + frag_size (rbufs w1 b0)\<rparr>"
  define v where "v = w1\<lparr>rflows := (rflows w1)(a := d2)\<rparr>"
  have v: "rflows v a = d2" "rbufs v = rbufs w1" by (simp_all add: v_def)
  have hd: "frag_head d2 = frag_head d" by (simp add: d2_def d'_def)
  have large: "\<not> (is_last (rbufs w1 b0) \<and> uint (total_len d') + sint (current_data (wd (rbufs w1 b0))) > SF_HUGE_PKT_MAX_DATA_SIZE)"
    using fits(1) by (auto simp: too_large_def d'_def)
  have not_dup: "dup_loop (rbufs w) (frag_offset (rbufs w b0)) (frag_head (rflows w a)) = Some False"
    using run by (auto simp: frag_known_def bind_eq_Some_conv split: if_splits)
  have run2: "(if meet_len d2 = total_len d2 then
      do { w \<leftarrow> unlink_flow E a h v; head \<leftarrow> frag_head (rflows w a);
           (ret_buffer, ret_status, w) \<leftarrow> frag_build_pkt fam E (Some n) head (uint (cache_pkt_num (rflows w a))) w;
           w \<leftarrow> free_ip_reass_hash_node E a w;
           Some (Some ret_buffer, ret_status, bump E (rec_interface_id (rbufs w1 b0)) ip_reass_timer_delete w) }
     else Some (None, 0, v\<lparr>rflows := (rflows v)(a := d2\<lparr>recv_new_pkt_in_interval := 1\<rparr>)\<rparr>)) = Some (r, 0, w')"
    using run few large
    unfolding frag_known_def not_dup app Option.bind.bind_lunit Let_def if_False fits(2) d_def [symmetric]
    unfolding d'_def [symmetric] d2_def [symmetric] by (simp add: v_def cong: if_cong)
  then have m: "meet_len d2 = total_len d2" using r by (auto split: if_splits)
  obtain u where u: "unlink_flow E a h v = Some u" using run2 m by (auto simp: bind_eq_Some_conv)
  have uu: "rbufs u = rbufs w1" "rflows u a = d2" using rbufs_kept(1) [OF u] hpool_kept(1) [OF u] v by simp_all
  obtain hd0 where hd0: "frag_head d = Some hd0" using run2 m u uu hd by (auto simp: bind_eq_Some_conv)
  obtain rb rs w5 where w5: "frag_build_pkt fam E (Some n) hd0 (uint (cache_pkt_num d2)) u = Some (rb, rs, w5)"
    "free_ip_reass_hash_node E a w5 \<bind> (\<lambda>w. Some (Some rb, rs, bump E (rec_interface_id (rbufs w1 b0)) ip_reass_timer_delete w)) = Some (r, 0, w')"
    using run2 m u uu hd hd0 by (auto simp: bind_eq_Some_conv)
  have last: "rbufs w' = rbufs w5" using w5(2) rbufs_kept(2) by (fastforce simp: bind_eq_Some_conv)
  have "wd (rbufs w5 n) = new" if "frag_build_wdata fam E (rbufs w1) hd0 = Some (new, cnt)" for new cnt
    using w5(1) that uu(1) by (auto simp: frag_build_pkt_def bind_eq_Some_conv Let_def)
  then show ?thesis using last hd0 d_def by (intro exI [of _ hd0]) auto
qed

lemma families_differ: "ip6_family \<noteq> ip4_family"
proof
  assume "ip6_family = ip4_family"
  then have "fam_unfrag ip6_family 0 20 (\<lambda>_. 1) = fam_unfrag ip4_family 0 20 (\<lambda>_. 1)" by simp
  then have "(\<lambda>_. 1)(15 := 1 AND 0x06, 14 := 0) = (\<lambda>_ :: int. 1 :: u8)(6 := 0, 7 := 0)"
    using ip4_unfrag_eq [of 0 20 "\<lambda>_. 1"] ip6_unfrag_eq [of 0 20 12 "\<lambda>_. 1"] by (simp add: ip4_family_def ip6_family_def)
  from fun_cong [OF this, of 6] show False by simp
qed

lemma hole_shown:
  assumes inv: "reass_inv E w f fr" and a: "a \<in> dom f" and b0: "b0 \<notin> cached f fr" "next_frag (rbufs w b0) = None"
    and fam: "frag_fam (rbufs w b0) = ip4_family" and builds: "builds (rbufs w) (fr a) b0"
    and room: "room_ok ip4_family (rbufs w) (fr a @ [b0])"
    and j: "0 \<le> j" "\<forall>x\<in>set (fr a @ [b0]). \<not> frag_covers (rbufs w x) j" and b: "b = rbufs w (hd (fr a))"
    and run: "frag_known ip4_family E (Some n) b0 a h w = Some (r, 0, w')" "r \<noteq> None"
  shows "data_ptr (wd (rbufs w' n)) (cur_pos (wd b) + uint (ip_hdr_len b) + j) = env_junk E (cur_pos (wd b) + uint (ip_hdr_len b) + j)"
proof -
  let ?as = "fr a" and ?as' = "fr a @ [b0]"
  define B' where "B' = (rbufs w)(last ?as := (rbufs w (last ?as))\<lparr>next_frag := Some b0\<rparr>)"
  have fl: "flow_ok (rbufs w) (rflows w a) ?as" using inv a by (simp add: reass_inv_def flows_ok_def)
  have nb: "b0 \<notin> set ?as" using b0(1) a by (auto simp: cached_def)
  note app = append_chain [OF fl nb b0(2) B'_def]
  note same = same_fragsD [OF app(2)]
  obtain w1 where w1: "append_frag b0 a w = Some w1" "rbufs w1 = B'" "rflows w1 a = (rflows w a)\<lparr>frag_tail := Some b0, cache_pkt_num := cache_pkt_num (rflows w a) + 1\<rparr>"
    using fl by (auto simp: append_frag_def flow_ok_def B'_def)
  have few: "\<not> cache_pkt_num (rflows w1 a) \<ge> of_nat IP_REASS_MAX_CACHE_PKTS"
    using cache_full_iff(1) [OF fl] builds w1(3) by (simp add: builds_def)
  have large: "\<not> too_large (rbufs w1 b0)" using builds unfolding w1(2) by (simp add: builds_def too_large_def same)
  have lst: "fam_last ip4_family (wd (rbufs w1 b0)) = is_last (rbufs w1 b0)" unfolding w1(2) using fam by (simp add: is_last_def same)
  have ne: "?as \<noteq> []" "hd ?as' = hd ?as" using fl by (simp_all add: flow_ok_def)
  have v4: "ip_version (ip_wdata (wd (B' (hd ?as')))) = IP_VERSION_4"
  proof (rule ccontr)
    assume "ip_version (ip_wdata (wd (B' (hd ?as')))) \<noteq> IP_VERSION_4"
    then have "frag_fam (rbufs w (hd ?as')) = ip6_family" by (simp add: frag_fam_def same)
    then show False using room families_differ by (simp add: room_ok_def Let_def)
  qed
  have fits: "build_fits B' ?as'"
    using room app(1,3) ne by (simp add: build_fits_def room_ok_def Let_def same)
  have hdr: "20 \<le> uint (ip_hdr_len (B' (hd ?as')))" using room v4 by (simp add: room_ok_def Let_def same)
  have j': "\<forall>x\<in>set ?as'. \<not> frag_covers (B' x) j" using j(2) by (simp add: frag_covers_def same)
  obtain new cnt where new: "frag_build_wdata ip4_family E B' (hd ?as') = Some (new, cnt)"
    "data_ptr new (cur_pos (wd (B' (hd ?as'))) + uint (ip_hdr_len (B' (hd ?as'))) + j)
      = env_junk E (cur_pos (wd (B' (hd ?as'))) + uint (ip_hdr_len (B' (hd ?as'))) + j)"
    by (rule build_hole [OF fits refl hdr v4 j(1) j'])
  obtain h0 where h0: "frag_head (rflows w1 a) = Some h0"
    "\<And>new cnt. frag_build_wdata ip4_family E B' h0 = Some (new, cnt) \<Longrightarrow> wd (rbufs w' n) = new"
    using frag_known_built [OF run(1) w1(1) few large lst run(2)] unfolding w1(2) by (elim exE conjE) (rule that; blast)
  have "h0 = hd ?as'" using h0(1) app(3) w1(3) ne by simp
  then have "wd (rbufs w' n) = new" using h0(2) new(1) by blast
  then show ?thesis using new(2) by (simp add: b ne(2) same)
qed

section \<open>Properties\<close>

text \<open>C5: One buffer of a frame of the reassembly nodes.  Handling a fragment and dispatching the result
  writes only inside the two arrays of 257 entries, whatever their fill level; what has been enqueued and
  what waits in the arrays grows by exactly what the specification's step asks for, in order, the
  protocol nodes getting built packets and the ACL node the others; and all invariants hold again, so that
  the next buffer can be handled.\<close>

theorem reass_node_iteration:
  assumes "reass_inv E w f fr" "flow_map_of w f fr S" "b0 \<notin> cached f fr" "fam = frag_fam (rbufs w b0)"
    and "k = fam_key fam (wd (rbufs w b0))" "resources_ok fam E b0 w S k"
    and "\<forall>n. vpp = Some n \<longrightarrow> n \<notin> insert b0 (cached f fr)"
    and "leaf_flows (rbufs w) (cached f fr)" "\<not> is_reass_pkt (rbufs w b0)" "io_ok io"
  shows "\<exists>r st w1 w' io' f' fr' S' res.
    (if ip_version (ip_wdata (wd (rbufs w b0))) = IP_VERSION_4 then ip4_frag_proc E vpp b0 w else ip6_frag_proc E vpp b0 w)
      = Some (r, st, w1)
    \<and> reass_dispatch E (r, st, w1) io = Some (w', io') \<and> reass_step (choice_of E vpp b0 w) (recorded fam E b0 w) S k b0 res S'
    \<and> reass_inv E w' f' fr' \<and> flow_map_of w' f' fr' S' \<and> leaf_flows (rbufs w') (cached f' fr')
    \<and> io_ok io' \<and> io_out io' @ pending io' = io_out io @ pending io @ expected (rbufs w1) res"
proof -
  have "(if ip_version (ip_wdata (wd (rbufs w b0))) = IP_VERSION_4 then ip4_frag_proc E vpp b0 w else ip6_frag_proc E vpp b0 w)
    = frag_proc fam E vpp b0 w" using assms(4) by (simp add: frag_fam_def ip4_frag_proc_def ip6_frag_proc_def)
  then show ?thesis using reass_iteration_ok [OF assms] by simp
qed

definition ex_io :: reass_io where
  "ex_io = \<lparr>vlib_buffer_array = replicate 257 0, io_nexts = replicate 257 0, pre_index = 0, io_out = []\<rparr>"

lemma ex_io_ok: "io_ok ex_io"
  by (simp add: io_ok_def ex_io_def VLIB_FRAME_SIZE_def)

theorem reass_node_iteration_witness:
  "\<exists>r st w1 w' io' res. ip4_frag_proc ex_env None 1 (ex_reass (ex_frags 4 20)) = Some (r, st, w1)
    \<and> reass_dispatch ex_env (r, st, w1) ex_io = Some (w', io') \<and> io_out io' @ pending io' = expected (rbufs w1) res"
proof -
  let ?w = "ex_reass (ex_frags 4 20)"
  have v: "ip_version (ip_wdata (wd (rbufs ?w 1))) = IP_VERSION_4"
    by (simp add: ex_reass_def ex_frags_simps IP_VERSION_4_def)
  then have f: "ip4_family = frag_fam (rbufs ?w 1)" by (simp add: frag_fam_def)
  have c: "1 \<notin> cached Map.empty (\<lambda>_. [])" "\<forall>n. None = Some n \<longrightarrow> n \<notin> insert 1 (cached Map.empty (\<lambda>_. []))"
    "leaf_flows (rbufs ?w) (cached Map.empty (\<lambda>_. []))" by (simp_all add: cached_def leaf_flows_def)
  have l: "\<not> is_reass_pkt (rbufs ?w 1)" by (simp add: ex_reass_def ex_frags_simps is_reass_pkt_def)
  have io: "io_out ex_io = []" "pending ex_io = []" by (simp_all add: ex_io_def pending_def)
  show ?thesis
    using reass_node_iteration [OF ex_reass_inv(1,2) c(1) f refl ex_resources c(2,3) l ex_io_ok] v
    unfolding io by simp blast
qed

text \<open>C6: Time-out of a flow.  When the timer of a flow in the table fires, the flow leaves table and pool,
  its fragments go to the ACL node, in the order of arrival and with the metadata of the first, the other flows
  are as before, and no array access is out of bounds; the timer data is not released.\<close>

theorem reass_timeout_correct:
  assumes "reass_inv E w f fr" "flow_map_of w f fr S" "f a = Some h" "leaf_flows (rbufs w) (cached f fr)"
    and "timer_pnode (tinfos (rtimers w) info) = Some a" "timer_hash_index (tinfos (rtimers w) info) = h"
    and "length (vlib_buffer_array io) = VLIB_FRAME_SIZE + 1" "length (io_nexts io) = VLIB_FRAME_SIZE + 1"
  shows "\<exists>w' io'. reass_timer_step E info w io = Some (w', io') \<and> reass_inv E w' (f(a := None)) fr
    \<and> flow_map_of w' (f(a := None)) fr (S(flow_key (rflows w a) := None))
    \<and> leaf_flows (rbufs w') (cached (f(a := None)) fr)
    \<and> io_out io' = io_out io @ map (\<lambda>x. (x, TIMER_NEXT_ACL_ENTRY)) (fr a)
    \<and> (\<forall>x\<in>set (fr a). wd (rbufs w' x) = heir (wd (rbufs w (hd (fr a)))) (wd (rbufs w x)))
    \<and> rtimers w' = rtimers w"
proof -
  have l: "leaves (rbufs w) (fr a)" using assms(3,4) by (auto simp: leaves_def leaf_flows_def cached_def)
  obtain w' io' where s: "reass_timer_step E info w io = Some (w', io')" "reass_inv E w' (f(a := None)) fr"
    "rflows w' = rflows w" "rtimers w' = rtimers w" "rbufs w' = split_bufs heir (hd (fr a)) (fr a) (rbufs w)"
    "io_out io' = io_out io @ map (\<lambda>x. (x, TIMER_NEXT_ACL_ENTRY)) (fr a)"
    using reass_timer_step_ok [OF assms(1,3) l assms(5-8)] by blast
  have "tab_ok E w f" using assms(1) by (simp add: reass_inv_def)
  then have m: "flow_map_of w' (f(a := None)) fr (S(flow_key (rflows w a) := None))"
    using assms(3) s(3) by (intro flow_map_remove [OF _ assms(2)]) auto
  have "leaf_flows (rbufs w') (cached (f(a := None)) fr)"
    using assms(4) unfolding s(5) leaf_flows_def split_bufs_def cached_def 
    by (auto simp: is_reass_pkt_def heir_def sf_wqe_reset_wdata_def update_frag_wdata_def)
  moreover have "\<forall>x\<in>set (fr a). wd (rbufs w' x) = heir (wd (rbufs w (hd (fr a)))) (wd (rbufs w x))"
    using l by (simp add: s(5) split_bufs_def leaves_def)
  ultimately show ?thesis using s(1,2,4,6) m by blast
qed

text \<open>A state with one flow of two fragments.\<close>

definition ex_flow :: node_ip_reass_t where
  "ex_flow = zero_flow\<lparr>frag_head := Some 1, frag_tail := Some 2, cache_pkt_num := 1,
     meet_len := size_of (ex_frags 4 20) [1, 2], total_len := total_of (ex_frags 4 20) [1, 2]\<rparr>"

lemma ex_flow_inv:
  "\<exists>w a info. reass_inv ex_env w [a \<mapsto> 0] (\<lambda>_. [1, 2]) \<and> flow_map_of w [a \<mapsto> 0] (\<lambda>_. [1, 2]) [flow_key ex_flow \<mapsto> [1, 2]]
    \<and> rbufs w = ex_frags 4 20 \<and> rflows w a = ex_flow
    \<and> timer_pnode (tinfos (rtimers w) info) = Some a \<and> timer_hash_index (tinfos (rtimers w) info) = 0"
proof -
  obtain pool a where a: "alloc_node_from_pool 0 ex_pool = Some (pool, Some a)" using ex_pool_alloc [of 0] by auto
  have v: "valid_worker ex_pool 0" "pool_inv ex_pool []" using ex_pool_inv by (auto simp: pool_inv_def valid_worker_def ex_pool_def)
  have p: "pool_inv pool [a]" "valid_worker pool 0"
    using sfp.alloc_fresh [OF v(2,1) a] sfp.alloc_valid [OF v(2,1) a] v(1) by auto
  obtain tab where tab: "hash_rep tab [a \<mapsto> 0]"
    using ght.insert_ok [OF ex_hash_rep(1), of a 0] ex_hash_rep(2) by auto
  let ?t = "ex_rtimers\<lparr>timer_info_pool := pool, tinfos := (\<lambda>_. \<lparr>recv = 0, timer_hash_index = 0, timer_pnode = Some a\<rparr>)\<rparr>"
  let ?rec = "(ex_rec a)\<lparr>timer_info := a, slot_handler := (0, 0)\<rparr>"
  let ?w = "(ex_reass (ex_frags 4 20))\<lparr>rtab := tab, rpool := pool, rflows := (\<lambda>_. ex_flow), rtimers := ?t, rrecs := (\<lambda>_. ?rec)\<rparr>"
  have "timers_inv ex_rtimers (replicate 2 empty_wheel)"
    using ex_timers_inv by (simp add: timers_inv_def ex_rtimers_def ex_timers_def)
  then have "timers_ok ex_env ?t (\<lambda>_. ?rec) {a}"
    unfolding timers_ok_def using p
    by (intro conjI exI [of _ "replicate 2 empty_wheel"] exI [of _ "[a]"]) (simp_all add: timers_inv_cong ex_env_def SF_TW_TIMER_SLOT_CNT_def)
  moreover have "tab_ok ex_env ?w [a \<mapsto> 0]" using tab by (simp add: tab_ok_def ex_env_def)
  moreover have "nodes_ok ex_env pool {a}" using p by (auto simp: nodes_ok_def ex_env_def)
  moreover have "flow_ok (ex_frags 4 20) ex_flow [1, 2]"
    by (simp add: flow_ok_def ex_flow_def ex_frags_simps IP_REASS_MAX_CACHE_PKTS_def)
  ultimately have "reass_inv ex_env ?w [a \<mapsto> 0] (\<lambda>_. [1, 2])"
    using ex_nodes by (auto simp: reass_inv_def flows_ok_def ex_reass_def)
  moreover have "flow_map_of ?w [a \<mapsto> 0] (\<lambda>_. [1, 2]) [flow_key ex_flow \<mapsto> [1, 2]]" by (auto simp: flow_map_of_def)
  ultimately show ?thesis by (intro exI [of _ ?w] exI [of _ a] exI [of _ a]) (simp add: ex_reass_def)
qed

theorem reass_timeout_correct_witness:
  "\<exists>w w' a info io'. reass_timer_step ex_env info w ex_io = Some (w', io') \<and> reass_inv ex_env w [a \<mapsto> 0] (\<lambda>_. [1, 2])
    \<and> reass_inv ex_env w' Map.empty (\<lambda>_. [1, 2]) \<and> io_out io' = [(1, TIMER_NEXT_ACL_ENTRY), (2, TIMER_NEXT_ACL_ENTRY)]"
proof -
  obtain w a info where w: "reass_inv ex_env w [a \<mapsto> 0] (\<lambda>_. [1, 2])" "flow_map_of w [a \<mapsto> 0] (\<lambda>_. [1, 2]) [flow_key ex_flow \<mapsto> [1, 2]]"
    "rbufs w = ex_frags 4 20" "timer_pnode (tinfos (rtimers w) info) = Some a" "timer_hash_index (tinfos (rtimers w) info) = 0"
    using ex_flow_inv by blast
  have a: "[a \<mapsto> 0] a = Some 0" by simp
  have l: "leaf_flows (rbufs w) (cached [a \<mapsto> 0] (\<lambda>_. [1, 2]))"
    by (simp add: leaf_flows_def cached_def w(3) ex_frags_simps is_reass_pkt_def)
  have io: "length (vlib_buffer_array ex_io) = VLIB_FRAME_SIZE + 1" "length (io_nexts ex_io) = VLIB_FRAME_SIZE + 1" "io_out ex_io = []"
    by (simp_all add: ex_io_def VLIB_FRAME_SIZE_def)
  have e: "[a \<mapsto> 0](a := None) = Map.empty" by (simp add: fun_eq_iff)
  show ?thesis
    using reass_timeout_correct [OF w(1,2) a l w(4,5) io(1,2), unfolded e] w(1) unfolding io(3) by simp blast
qed

text \<open>C26: Overlapping fragments show old memory.  The code takes a flow as complete when the sizes of its fragments add up
  to the total length, and rejects a fragment only if its offset is there already.  When the fragment that makes the sum equal arrives and
  some byte of the payload is in none of the fragments, \<open>ip4_frag_proc\<close> nevertheless returns a built packet, and this byte
  shows what the 16 KB buffer held before.  The witness is a run of three fragments of which two overlap.\<close>

theorem overlap_exposes_memory:
  assumes "reass_inv E w f fr" "flow_map_of w f fr S" "b0 \<notin> cached f fr"
    and "ip_version (ip_wdata (wd (rbufs w b0))) = IP_VERSION_4" "k = ip4_key (wd (rbufs w b0))"
    and "resources_ok ip4_family E b0 w S k" "n \<notin> insert b0 (cached f fr)" "\<not> too_deep (choice_of E (Some n) b0 w)"
    and B: "B = recorded ip4_family E b0 w" and "S k = Some as" "builds B as b0" "b = B (hd as)"
    and j: "0 \<le> j" "\<forall>a\<in>set (as @ [b0]). \<not> frag_covers (B a) j"
  shows "\<exists>w'. ip4_frag_proc E (Some n) b0 w = Some (Some n, 0, w')
    \<and> data_ptr (wd (rbufs w' n)) (cur_pos (wd b) + uint (ip_hdr_len b) + j) = env_junk E (cur_pos (wd b) + uint (ip_hdr_len b) + j)"
proof -
  let ?c = "choice_of E (Some n) b0 w" and ?w = "w\<lparr>rbufs := B\<rparr>"
  have fam: "frag_fam (rbufs w b0) = ip4_family" using assms(4) by (simp add: frag_fam_def)
  have k: "k = fam_key ip4_family (wd (rbufs w b0))" using assms(5) by (simp add: ip4_family_def)
  have vpp: "\<forall>m. Some n = Some m \<longrightarrow> m \<notin> insert b0 (cached f fr)" using assms(7) by simp
  obtain r st w' res S' where s: "frag_proc ip4_family E (Some n) b0 w = Some (r, st, w')"
    "reass_step ?c B S k b0 res S'" "result_of (rbufs w') r st res"
    using frag_proc_ok [OF assms(1-3) fam k assms(6) vpp] unfolding step_ok_def B by blast
  have "reass_step ?c B S k b0 (Built n (as @ [b0])) (S(k := None))"
    using assms(8,10,11) by (intro reass_step.build) (simp_all add: choice_of_def)
  then have r: "r = Some n" "st = 0" using reass_step_det [OF s(2)] s(3) by auto
  have inv: "reass_inv E ?w f fr" unfolding B by (rule recorded_inv [OF assms(1,3)])
  then have tab: "tab_ok E ?w f" by (simp add: reass_inv_def)
  obtain a where a: "a \<in> dom f" "flow_key (rflows w a) = k" "as = fr a"
    using assms(2,10) by (auto simp: flow_map_of_def split: if_splits)
  have pn: "hashFindNode_memcmp (\<lambda>a. key_bytes (flow_key (rflows ?w a))) (rtab ?w) (getHashIndex E (key_bytes k)) (key_bytes k) 40 = Some (Some a)"
    using find_flow(1) [OF tab, of k a] a by simp
  have "frag_known ip4_family E (Some n) b0 a (getHashIndex E (key_bytes k)) ?w = Some (Some n, 0, w')"
    using s(1) pn assms(8) unfolding r k by (simp add: frag_proc_def Let_def choice_of_def B recorded_def)
  moreover have "room_ok ip4_family B (fr a @ [b0])" "builds B (fr a) b0"
    using assms(6,10,11) a(3) by (simp_all add: resources_ok_def B)
  moreover have "next_frag (B b0) = None" "frag_fam (B b0) = ip4_family" using fam by (simp_all add: B recorded_def)
  ultimately have "data_ptr (wd (rbufs w' n)) (cur_pos (wd b) + uint (ip_hdr_len b) + j) = env_junk E (cur_pos (wd b) + uint (ip_hdr_len b) + j)"
    using j assms(12) unfolding a(3) by (intro hole_shown [OF inv a(1) assms(3), where r = "Some n"]) simp_all
  then show ?thesis using s(1) r by (simp add: ip4_frag_proc_def)
qed

text \<open>Three fragments of a datagram of 32 bytes: [0, 16), [8, 16) and [24, 32).\<close>

definition ex_part :: "u16 \<Rightarrow> u16 \<Rightarrow> bool \<Rightarrow> reass_buf" where
  "ex_part off sz mf = (ex_rbuf 0 None None 0)\<lparr>
     wd := (let w = ex_wdata (\<lambda>i. if i = 6 then (if mf then 0x20 else 0) else if i = 7 then ucast (drop_bit 3 off) else 0) (20 + sz) in
            w\<lparr>ip_wdata := (ip_wdata w)\<lparr>ip_version := 4, ip_header_len := 20, ip_payload_len := sz\<rparr>\<rparr>)\<rparr>"

definition ex_parts :: reass_bufs where
  "ex_parts a = (if a = 1 then ex_part 0 16 True else if a = 2 then ex_part 8 8 True else ex_part 24 8 False)"

lemmas ex_parts_simps = ex_parts_def ex_part_def ex_rbuf_def ex_wdata_def cur_pos_def Let_def

text \<open>One call whose step is known to leave the fragment waiting.\<close>

lemma run_waits:
  assumes "reass_inv E w f fr" "flow_map_of w f fr S" "b0 \<notin> cached f fr" "frag_fam (rbufs w b0) = ip4_family"
    and "k = ip4_key (wd (rbufs w b0))" "resources_ok ip4_family E b0 w S k"
    and "reass_step (choice_of E None b0 w) (recorded ip4_family E b0 w) S k b0 Waiting S'"
  obtains w' f' fr' where "ip4_frag_proc E None b0 w = Some (None, 0, w')" "reass_inv E w' f' fr'" "flow_map_of w' f' fr' S'"
    "hpool w' = hpool w" "same_frags (recorded ip4_family E b0 w) (rbufs w')"
proof -
  have k: "k = fam_key ip4_family (wd (rbufs w b0))" using assms(5) by (simp add: ip4_family_def)
  obtain r st w' f' fr' S2 res where s: "frag_proc ip4_family E None b0 w = Some (r, st, w')" "reass_inv E w' f' fr'" "flow_map_of w' f' fr' S2"
    "reass_step (choice_of E None b0 w) (recorded ip4_family E b0 w) S k b0 res S2" "result_of (rbufs w') r st res"
    using frag_proc_ok [OF assms(1-4) k assms(6), of None] unfolding step_ok_def by auto
  have "res = Waiting" "S2 = S'" using reass_step_det [OF s(4) assms(7)] by blast+
  then have "r = None" "st = 0" "S2 = S'" using s(5) by simp_all
  then show ?thesis using that s(1-3) frag_proc_waits [of ip4_family E None b0 w 0 w'] by (simp add: ip4_frag_proc_def)
qed

lemma flow_cached:
  assumes "flow_map_of w f fr [k \<mapsto> as]"
  shows "cached f fr \<subseteq> set as"
  using assms by (fastforce simp: flow_map_of_def cached_def split: if_splits)

text \<open>What is recorded for the three fragments.\<close>

lemma ex_part_fields:
  assumes "wd b = wd (ex_parts x)" "x \<in> {1, 2, 3}"
  shows "frag_offset (frag_record ip4_family ex_env b) = (if x = 1 then 0 else if x = 2 then 8 else 24)"
    "frag_size (frag_record ip4_family ex_env b) = (if x = 1 then 16 else 8)" "ip_hdr_len (frag_record ip4_family ex_env b) = 20"
    "is_last (frag_record ip4_family ex_env b) \<longleftrightarrow> x = 3"
  using assms(2)
  by (auto simp: frag_record_def Let_def assms(1) is_last_def frag_fam_def ip4_family_def get_ip4_hdr_offset_def ip4_offset_5bit_def ip4_flags_def ex_parts_simps IP_VERSION_4_def)

lemma ex_part_wd:
  "cur_pos (wd (ex_parts x)) = 0" "current_data (wd (ex_parts x)) = 0" "ip_version (ip_wdata (wd (ex_parts x))) = IP_VERSION_4"
  "ip4_key (wd (ex_parts x)) = ip4_key (wd (ex_parts 1))" "ip_wdata_cnt (wd (ex_parts x)) = 0"
  by (simp_all add: ex_parts_simps ip4_key_def ld32_def ld16_def IP_VERSION_4_def)

definition ex_part_ok :: "addr \<Rightarrow> reass_buf \<Rightarrow> bool" where
  "ex_part_ok x b \<longleftrightarrow> frag_offset b = (if x = 1 then 0 else if x = 2 then 8 else 24) \<and> frag_size b = (if x = 1 then 16 else 8)
     \<and> ip_hdr_len b = 20 \<and> (is_last b \<longleftrightarrow> x = 3)"

definition ex_recorded :: "reass_bufs \<Rightarrow> addr set \<Rightarrow> bool" where
  "ex_recorded B X \<longleftrightarrow> (\<forall>x. wd (B x) = wd (ex_parts x)) \<and> (\<forall>x\<in>X. ex_part_ok x (B x))"

lemma ex_recorded_start: "ex_recorded ex_parts {}"
  by (simp add: ex_recorded_def)

lemma ex_recorded_more:
  assumes "ex_recorded (rbufs w) X" "x \<in> {1, 2, 3}"
  shows "ex_recorded (recorded ip4_family ex_env x w) (insert x X)"
proof -
  have "wd (rbufs w x) = wd (ex_parts x)" using assms(1) by (simp add: ex_recorded_def)
  then have "ex_part_ok x (frag_record ip4_family ex_env (rbufs w x))"
    using ex_part_fields [OF _ assms(2)] by (simp add: ex_part_ok_def)
  then show ?thesis using assms(1) by (simp add: ex_recorded_def recorded_def)
qed

lemma ex_recorded_same: "ex_recorded B X \<Longrightarrow> same_frags B B' \<Longrightarrow> ex_recorded B' X"
  by (simp add: ex_recorded_def ex_part_ok_def same_fragsD)

lemma ex_recorded_steps:
  shows "ex_recorded B {1, 2} \<Longrightarrow> \<not> repeats B [1] 2 \<and> \<not> too_large (B 2) \<and> \<not> complete B [1, 2]"
    and "ex_recorded B {1, 2, 3} \<Longrightarrow> builds B [1, 2] 3 \<and> room_ok ip4_family B [1, 2, 3]
      \<and> (\<forall>x\<in>set [1, 2, 3]. \<not> frag_covers (B x) 20) \<and> cur_pos (wd (B 1)) = 0 \<and> uint (ip_hdr_len (B 1)) = 20"
proof -
  show "\<not> repeats B [1] 2 \<and> \<not> too_large (B 2) \<and> \<not> complete B [1, 2]" if "ex_recorded B {1, 2}"
    using that by (simp add: ex_recorded_def ex_part_ok_def repeats_def too_large_def complete_def size_of_def total_of_def)
  show "builds B [1, 2] 3 \<and> room_ok ip4_family B [1, 2, 3]
      \<and> (\<forall>x\<in>set [1, 2, 3]. \<not> frag_covers (B x) 20) \<and> cur_pos (wd (B 1)) = 0 \<and> uint (ip_hdr_len (B 1)) = 20" if "ex_recorded B {1, 2, 3}"
    using that by (simp add: ex_recorded_def ex_part_ok_def builds_def repeats_def too_large_def complete_def size_of_def total_of_def
        IP_REASS_MAX_CACHE_PKTS_def SF_HUGE_PKT_MAX_DATA_SIZE_def room_ok_def frag_fam_def frag_end_def frag_covers_def ex_part_wd(1-3,5) Let_def)
qed

theorem overlap_exposes_memory_witness:
  "\<exists>w1 w2 w3. ip4_frag_proc ex_env None 1 (ex_reass ex_parts) = Some (None, 0, w1)
    \<and> ip4_frag_proc ex_env None 2 w1 = Some (None, 0, w2) \<and> ip4_frag_proc ex_env (Some 9) 3 w2 = Some (Some 9, 0, w3)
    \<and> data_ptr (wd (rbufs w3 9)) 40 = 0xAA"
proof -
  let ?w = "ex_reass ex_parts" and ?k = "ip4_key (wd (ex_parts 1))"
  let ?R = "\<lambda>x w. recorded ip4_family ex_env x w" and ?c = "choice_of ex_env"
  have B: "rbufs ?w = ex_parts" by (simp add: ex_reass_def)
  have at: "\<not> too_deep (?c p x w) \<and> frag_fam (rbufs w x) = ip4_family \<and> ?k = ip4_key (wd (rbufs w x))
      \<and> ip_version (ip_wdata (wd (rbufs w x))) = IP_VERSION_4" if "ex_recorded (rbufs w) X" for p x X and w :: "int reass_world"
    using that by (simp add: ex_recorded_def choice_of_def ex_env_def ex_part_wd(1-3,5) ex_part_wd(4) [of x, symmetric, unfolded One_nat_def] frag_fam_def)
  have rec0: "ex_recorded (rbufs ?w) {}" using ex_recorded_start B by simp
  have c0: "1 \<notin> cached Map.empty (\<lambda>_. [])" by (simp add: cached_def)
  have at0: "frag_fam (rbufs ?w 1) = ip4_family" "?k = ip4_key (wd (rbufs ?w 1))" using at [OF rec0] by blast+
  have "flow_memory (?c None 1 ?w)" using ex_room [of ex_parts] by (simp add: choice_of_def)
  then have st1: "reass_step (?c None 1 ?w) (?R 1 ?w) Map.empty ?k 1 Waiting [?k \<mapsto> [1]]"
    using reass_step.start [of "?c None 1 ?w" Map.empty ?k "?R 1 ?w" 1] at [OF rec0] by simp
  obtain w1 f1 fr1 where w1: "ip4_frag_proc ex_env None 1 ?w = Some (None, 0, w1)" "reass_inv ex_env w1 f1 fr1"
    "flow_map_of w1 f1 fr1 [?k \<mapsto> [1]]" "hpool w1 = hpool ?w" "same_frags (?R 1 ?w) (rbufs w1)"
    by (rule run_waits [OF ex_reass_inv [of ex_parts "\<lambda>_. []"] c0 at0(1,2) ex_resources st1]) (rule that; assumption)
  have rec1: "ex_recorded (rbufs w1) {1}" using ex_recorded_same [OF ex_recorded_more [OF rec0] w1(5)] by simp
  have at1: "frag_fam (rbufs w1 2) = ip4_family" "?k = ip4_key (wd (rbufs w1 2))" using at [OF rec1] by blast+
  have two: "ex_recorded (?R 2 w1) {1, 2}" using ex_recorded_more [OF rec1, of 2] by (simp add: insert_commute)
  note s2 = ex_recorded_steps(1) [OF two]
  have c1: "2 \<notin> cached f1 fr1" using flow_cached [OF w1(3)] by auto
  have st2: "reass_step (?c None 2 w1) (?R 2 w1) [?k \<mapsto> [1]] ?k 2 Waiting [?k \<mapsto> [1, 2]]"
    using reass_step.wait [of "?c None 2 w1" "[?k \<mapsto> [1]]" ?k "[1]" "?R 2 w1" 2] s2 at [OF rec1] by (simp add: IP_REASS_MAX_CACHE_PKTS_def)
  have res2: "resources_ok ip4_family ex_env 2 w1 [?k \<mapsto> [1]] ?k" using s2 by (simp add: resources_ok_def builds_def)
  obtain w2 f2 fr2 where w2: "ip4_frag_proc ex_env None 2 w1 = Some (None, 0, w2)" "reass_inv ex_env w2 f2 fr2"
    "flow_map_of w2 f2 fr2 [?k \<mapsto> [1, 2]]" "hpool w2 = hpool w1" "same_frags (?R 2 w1) (rbufs w2)"
    by (rule run_waits [OF w1(2,3) c1 at1(1,2) res2 st2]) (rule that; assumption)
  have rec2: "ex_recorded (rbufs w2) {1, 2}" by (rule ex_recorded_same [OF two w2(5)])
  have three: "ex_recorded (?R 3 w2) {1, 2, 3}" using ex_recorded_more [OF rec2, of 3] by (simp add: insert_commute)
  note s3 = ex_recorded_steps(2) [OF three]
  have c2: "3 \<notin> cached f2 fr2" "9 \<notin> insert 3 (cached f2 fr2)" using flow_cached [OF w2(3)] by auto
  have "huge_ready ex_env w2" using ex_huge [of ex_parts] w1(4) w2(4) by (auto simp: huge_ready_def)
  then have res3: "resources_ok ip4_family ex_env 3 w2 [?k \<mapsto> [1, 2]] ?k" using s3 by (simp add: resources_ok_def)
  have at2: "ip_version (ip_wdata (wd (rbufs w2 3))) = IP_VERSION_4" "?k = ip4_key (wd (rbufs w2 3))" "\<not> too_deep (?c (Some 9) 3 w2)"
    using at [OF rec2] by blast+
  have b3: "builds (?R 3 w2) [1, 2] 3" and cov: "\<forall>x\<in>set ([1, 2] @ [3]). \<not> frag_covers (?R 3 w2 x) 20" using s3 by simp_all
  obtain w3 where "ip4_frag_proc ex_env (Some 9) 3 w2 = Some (Some 9, 0, w3)"
    "data_ptr (wd (rbufs w3 9)) (cur_pos (wd (?R 3 w2 1)) + uint (ip_hdr_len (?R 3 w2 1)) + 20)
      = env_junk ex_env (cur_pos (wd (?R 3 w2 1)) + uint (ip_hdr_len (?R 3 w2 1)) + 20)"
    using overlap_exposes_memory [OF w2(2,3) c2(1) at2(1,2) res3 c2(2) at2(3) refl _ b3 refl _ cov] by auto
  then show ?thesis using w1(1) w2(1) s3 by (auto simp: ex_env_def)
qed

end
