(* ===== verification/Vlib_Shared.thy ===== *)
theory Vlib_Shared
  imports Vlib_Loop
begin

text \<open>
  Graph nodes whose bodies also read and update state that the packets share, and may fail: \<open>h1 g b\<close> handles the
  buffer \<open>b\<close> in the shared state \<open>g\<close>; \<open>None\<close> is a memory error.  If the two-packet body handles the first
  packet and then the second, the frame loop is the left-to-right run of the one-packet body.
\<close>

type_synonym ('g, 'b) shared_state = "('g \<times> 'b vstate) option"

definition shared_node_x1 ::
  "('g \<Rightarrow> 'b \<Rightarrow> (('b \<times> nat) \<times> 'g) option) \<Rightarrow> nat \<Rightarrow> ('g, 'b) shared_state \<Rightarrow> ('g, 'b) shared_state" where
  "shared_node_x1 h1 bi st =
    do { (g, s) \<leftarrow> st;
         (r, g) \<leftarrow> h1 g (bufs s bi);
         Some (g, enqueue_x1 bi r s) }"

definition shared_node_x2 ::
  "('g \<Rightarrow> 'b \<Rightarrow> 'b \<Rightarrow> (('b \<times> nat) \<times> ('b \<times> nat) \<times> 'g) option) \<Rightarrow> nat \<Rightarrow> nat
    \<Rightarrow> ('g, 'b) shared_state \<Rightarrow> ('g, 'b) shared_state" where
  "shared_node_x2 h2 bi0 bi1 st =
    do { (g, s) \<leftarrow> st;
         (r0, r1, g) \<leftarrow> h2 g (bufs s bi0) (bufs s bi1);
         Some (g, enqueue_x1 bi1 r1 (enqueue_x1 bi0 r0 s)) }"

definition shared_node where
  "shared_node h2 h1 fresh left from g s = vlib_node (shared_node_x2 h2) (shared_node_x1 h1) fresh left from (Some (g, s))"

locale dual_shared_node =
  fixes h2 :: "'g \<Rightarrow> 'b \<Rightarrow> 'b \<Rightarrow> (('b \<times> nat) \<times> ('b \<times> nat) \<times> 'g) option"
    and h1 :: "'g \<Rightarrow> 'b \<Rightarrow> (('b \<times> nat) \<times> 'g) option"
  assumes h2_h1: "h2 g a b = do { (r0, g) \<leftarrow> h1 g a; (r1, g) \<leftarrow> h1 g b; Some (r0, r1, g) }"

sublocale dual_shared_node \<subseteq> dual_loop "shared_node_x2 h2" "shared_node_x1 h1" "\<lambda>_ _. True"
proof
  fix x y :: nat and s :: "('g, 'b) shared_state"
  assume "x \<noteq> y"
  then show "shared_node_x2 h2 x y s = shared_node_x1 h1 y (shared_node_x1 h1 x s)"
    by (cases s) (auto simp: shared_node_x2_def shared_node_x1_def h2_h1 enqueue_x1_def split: Option.bind_splits)
qed simp

text \<open>The run of a list of buffers, from left to right: what is handed on and the shared state after it.\<close>

fun run_packets :: "('g \<Rightarrow> 'b \<Rightarrow> (('b \<times> nat) \<times> 'g) option) \<Rightarrow> 'g \<Rightarrow> 'b list \<Rightarrow> (('b \<times> nat) list \<times> 'g) option" where
  "run_packets h1 g [] = Some ([], g)"
| "run_packets h1 g (b # bs) =
    do { (r, g) \<leftarrow> h1 g b; (rs, g) \<leftarrow> run_packets h1 g bs; Some (r # rs, g) }"

lemma run_packets_length: "run_packets h1 g bs = Some (rs, g') \<Longrightarrow> length rs = length bs"
  by (induction bs arbitrary: g rs) (auto simp: bind_eq_Some_conv)

lemma fold_shared_None [simp]: "fold (shared_node_x1 h1) from None = None"
  by (induction "from") (simp_all add: shared_node_x1_def)

lemma fold_shared_node:
  assumes "distinct from" "run_packets h1 g (map (bufs s) from) = Some (rs, g')"
  shows "\<exists>s'. fold (shared_node_x1 h1) from (Some (g, s)) = Some (g', s') \<and> enq s' = enq s @ zip from (map snd rs)
    \<and> map (bufs s') from = map fst rs \<and> (\<forall>b. b \<notin> set from \<longrightarrow> bufs s' b = bufs s b)"
  using assms
proof (induction "from" arbitrary: g s rs)
  case (Cons x xs)
  obtain r g1 rs' where r: "h1 g (bufs s x) = Some (r, g1)" "run_packets h1 g1 (map (bufs s) xs) = Some (rs', g')" "rs = r # rs'"
    using Cons.prems(2) by (auto simp: bind_eq_Some_conv)
  let ?s = "enqueue_x1 x r s"
  have "map (bufs ?s) xs = map (bufs s) xs" using Cons.prems(1) by (auto simp: enqueue_x1_def)
  then have "run_packets h1 g1 (map (bufs ?s) xs) = Some (rs', g')" using r(2) by (simp only:)
  then obtain s' where s': "fold (shared_node_x1 h1) xs (Some (g1, ?s)) = Some (g', s')"
    "enq s' = enq ?s @ zip xs (map snd rs')" "map (bufs s') xs = map fst rs'" "\<forall>b. b \<notin> set xs \<longrightarrow> bufs s' b = bufs ?s b"
    using Cons.IH [where s = ?s and g = g1 and rs = rs'] Cons.prems(1) by auto
  have "shared_node_x1 h1 x (Some (g, s)) = Some (g1, ?s)" using r(1) by (simp add: shared_node_x1_def)
  then show ?case
    using s' r(3) Cons.prems(1) by (intro exI [of _ s']) (auto simp: enqueue_x1_def)
qed simp

context dual_shared_node begin

lemma shared_node_eq:
  assumes "frames_ok fresh" "distinct from" "run_packets h1 g (map (bufs s) from) = Some (rs, g')"
  shows "\<exists>s'. shared_node h2 h1 fresh left from g s = Some (Some (g', s')) \<and> enq s' = enq s @ zip from (map snd rs)
    \<and> map (bufs s') from = map fst rs \<and> (\<forall>b. b \<notin> set from \<longrightarrow> bufs s' b = bufs s b)"
  using fold_shared_node [OF assms(2,3)] node_eq [OF assms(1,2), where s = "Some (g, s)" and left = left] by (simp add: shared_node_def)

end

end
