(* ===== verification/Actions.thy ===== *)
theory Actions
  imports Pkt_Wdata Vlib_Shared "HOL-Library.Signed_Division"
begin

text \<open>
  The actions plugin: the table of actions and its configuration interface
  (\<open>actions/include/action.h\<close>, \<open>nshell-lib/sf_plugin_api/action_api.c\<close>, \<open>nshell-lib/include/sf_gcd.h\<close>), the
  node \<open>sf_action_main\<close> that chooses the path of a packet through the encapsulation and forwarding nodes, and
  the node that balances packets over interfaces.  \<open>None\<close> is a memory error or a division by zero.
\<close>

section \<open>Data\<close>

definition MAX_ACTION_NUM :: nat where "MAX_ACTION_NUM = 128"
definition MAX_INTERFACE_CNT :: nat where "MAX_INTERFACE_CNT = 63"
definition MAX_LOAD_BALANCE_NODE :: nat where "MAX_LOAD_BALANCE_NODE = 64"
definition INVALID_INTERFACE_ID :: u32 where "INVALID_INTERFACE_ID = 0"

datatype load_balance_mode_t =
    LOAD_BALANCE_MODE_NONE | LOAD_BALANCE_MODE_ROUND_ROBIN | LOAD_BALANCE_MODE_WRR
  | LOAD_BALANCE_MODE_OUTER_SRCDSTIP | LOAD_BALANCE_MODE_OUTER_SRCIP | LOAD_BALANCE_MODE_OUTER_DSTIP
  | LOAD_BALANCE_MODE_OTHER

text \<open>
  The members and the weights are of type \<open>int\<close> in C, 32 bits wide.  They are kept as integers here; the one sum that can leave the
  range, in \<open>load_balance_get_weight_index\<close>, wraps around by \<open>int32\<close>.
\<close>

definition int32 :: "int \<Rightarrow> int" where
  "int32 x = (x + 2 ^ 31) mod 2 ^ 32 - 2 ^ 31"

record load_balance_weight_t =
  cw :: int
  gcd_w :: int
  mw :: int

record additional_action_t =
  switch_flags :: u32
  gre_dmac :: "u8 list"
  gre_dip_type :: u8
  gre_dip :: ip_addr_t
  gre_dscp :: u8
  vxlan_dmac :: "u8 list"
  vxlan_dport :: u16
  vxlan_dip_type :: u8
  vxlan_dip :: ip_addr_t
  vxlan_vni :: u32
  vxlan_dscp :: u8
  erspan_dmac :: "u8 list"
  erspan_dip_type :: u8
  erspan_dip :: ip_addr_t
  erspan_type :: u8
  erspan_session_id :: u16
  erspan_dscp :: u8

text \<open>\<open>load_balance_interface_array\<close> has 63 entries and \<open>load_balance_weight\<close> 64.\<close>

record sf_action_t =
  ref_counter :: u32
  action_type :: u32
  forward_interface_id :: u8
  load_balance_interfaces_num :: u8
  load_balance_interface_array :: "u8 list"
  additional_actions :: additional_action_t
  load_balance_mode :: load_balance_mode_t
  weight_data :: load_balance_weight_t
  load_balance_index :: u32
  load_balance_weight :: "int list"

definition zero_addr :: ip_addr_t where
  "zero_addr = \<lparr>addr_v6_upper = 0, addr_v6_lower = 0\<rparr>"

definition zero_action :: sf_action_t where
  "zero_action = \<lparr>ref_counter = 0, action_type = 0, forward_interface_id = 0, load_balance_interfaces_num = 0,
     load_balance_interface_array = replicate MAX_INTERFACE_CNT 0,
     additional_actions = \<lparr>switch_flags = 0, gre_dmac = replicate 6 0, gre_dip_type = 0, gre_dip = zero_addr, gre_dscp = 0,
       vxlan_dmac = replicate 6 0, vxlan_dport = 0, vxlan_dip_type = 0, vxlan_dip = zero_addr, vxlan_vni = 0, vxlan_dscp = 0,
       erspan_dmac = replicate 6 0, erspan_dip_type = 0, erspan_dip = zero_addr, erspan_type = 0, erspan_session_id = 0,
       erspan_dscp = 0\<rparr>,
     load_balance_mode = LOAD_BALANCE_MODE_NONE, weight_data = \<lparr>cw = 0, gcd_w = 0, mw = 0\<rparr>,
     load_balance_index = 0, load_balance_weight = replicate MAX_LOAD_BALANCE_NODE 0\<rparr>"

section \<open>Weights\<close>

text \<open>The remainder of C truncates towards zero; a zero divisor traps.\<close>

function calc_gcd :: "int \<Rightarrow> int \<Rightarrow> int option" where
  "calc_gcd a b =
    (if b = 0 then None
     else let c = a smod b in if c = 0 then Some b else calc_gcd b c)"
  by pat_completeness auto

lemma smod_abs_less: "b \<noteq> 0 \<Longrightarrow> \<bar>a smod b\<bar> < \<bar>b :: int\<bar>"
  by (simp add: signed_modulo_int_def signed_divide_int_def sgn_if minus_mult_left [symmetric]
      minus_mult_div_eq_mod mult.commute)

termination calc_gcd
  by (relation "measure (\<lambda>(_, b). nat \<bar>b\<bar>)") (auto simp: smod_abs_less nat_less_eq_zless)

declare calc_gcd.simps [simp del]

fun weight_loop :: "int list \<Rightarrow> nat list \<Rightarrow> int \<Rightarrow> int \<Rightarrow> (int \<times> int) option" where
  "weight_loop weight [] g max_weight = Some (g, max_weight)"
| "weight_loop weight (i # is) g max_weight =
    do { w \<leftarrow> arr_read weight i;
         g \<leftarrow> calc_gcd w g;
         weight_loop weight is g (if w > max_weight then w else max_weight) }"

definition weight_calc_max :: "int list \<Rightarrow> nat \<Rightarrow> (int \<times> int) option" where
  "weight_calc_max weight num =
    do { g \<leftarrow> arr_read weight 0; weight_loop weight [1..<num] g g }"

section \<open>Configuration\<close>

text \<open>The byte order functions of the C library on a little-endian machine.\<close>

definition bswap32 :: "u32 \<Rightarrow> u32" where
  "bswap32 x = push_bit 16 (ucast (clib_net_to_host_u16 (ucast x))) OR ucast (clib_net_to_host_u16 (ucast (drop_bit 16 x)))"

definition clib_net_to_host_u64 :: "u64 \<Rightarrow> u64" where
  "clib_net_to_host_u64 x = push_bit 32 (ucast (bswap32 (ucast x))) OR ucast (bswap32 (ucast (drop_bit 32 x)))"

text \<open>
  \<open>action_config_ptr\<close>: NULL before the shared memory is mapped, then the table of actions.  The functions
  return -1 or 0 and the new table.
\<close>

type_synonym action_config = "sf_action_t list option"

definition is_valid_action_id :: "int \<Rightarrow> bool" where
  "is_valid_action_id i \<longleftrightarrow> i \<ge> 1 \<and> i \<le> int MAX_ACTION_NUM"

definition get_action_config :: "action_config \<Rightarrow> u32 \<Rightarrow> (int \<times> sf_action_t option) option" where
  "get_action_config cfg action_id =
    (case cfg of
       None \<Rightarrow> Some (-1, None)
     | Some actions \<Rightarrow>
         if \<not> is_valid_action_id (uint action_id) then Some (-1, None)
         else do { a \<leftarrow> arr_read actions (unat (action_id - 1)); Some (0, Some a) })"

definition put_action_config :: "action_config \<Rightarrow> sf_action_t \<Rightarrow> u32 \<Rightarrow> (int \<times> action_config) option" where
  "put_action_config cfg action action_id =
    (case cfg of
       None \<Rightarrow> Some (-1, None)
     | Some actions \<Rightarrow>
         if \<not> is_valid_action_id (uint action_id) then Some (-1, Some actions)
         else
           do { a \<leftarrow> (if load_balance_mode action = LOAD_BALANCE_MODE_WRR then
                        do { (g, m) \<leftarrow> weight_calc_max (load_balance_weight action) (unat (load_balance_interfaces_num action));
                             Some (action\<lparr>weight_data := \<lparr>cw = 0, gcd_w = g, mw = m\<rparr>\<rparr>) }
                      else Some action);
                actions \<leftarrow> arr_write actions (unat (action_id - 1)) (a\<lparr>ref_counter := ref_counter a + 1\<rparr>);
                Some (0, Some actions) })"

definition delete_action_config :: "action_config \<Rightarrow> int \<Rightarrow> (int \<times> action_config) option" where
  "delete_action_config cfg action_id =
    (case cfg of
       None \<Rightarrow> Some (-1, None)
     | Some actions \<Rightarrow>
         if \<not> is_valid_action_id action_id then Some (-1, Some actions)
         else do { actions \<leftarrow> arr_write actions (nat (action_id - 1)) zero_action; Some (0, Some actions) })"

definition check_action_if_exist :: "action_config \<Rightarrow> int \<Rightarrow> int option" where
  "check_action_if_exist cfg action_id =
    (case cfg of
       None \<Rightarrow> Some (-1)
     | Some actions \<Rightarrow>
         if \<not> is_valid_action_id action_id then Some (-1)
         else do { a \<leftarrow> arr_read actions (nat (action_id - 1)); Some (if ref_counter a > 0 then 1 else 0) })"

definition set_additional_vxlan_vni :: "sf_action_t \<Rightarrow> int \<Rightarrow> sf_action_t" where
  "set_additional_vxlan_vni action v =
    action\<lparr>additional_actions := (additional_actions action)\<lparr>vxlan_vni := bswap32 (push_bit 8 (word_of_int v AND 0xFFFFFF))\<rparr>\<rparr>"

definition get_additional_vxlan_vni :: "action_config \<Rightarrow> int \<Rightarrow> int option" where
  "get_additional_vxlan_vni cfg action_id =
    (case cfg of
       None \<Rightarrow> Some (-1)
     | Some actions \<Rightarrow>
         if \<not> is_valid_action_id action_id then Some (-1)
         else do { a \<leftarrow> arr_read actions (nat (action_id - 1));
                   Some (sint (drop_bit 8 (bswap32 (vxlan_vni (additional_actions a))))) })"

definition set_additional_vxlan_dport :: "sf_action_t \<Rightarrow> int \<Rightarrow> sf_action_t" where
  "set_additional_vxlan_dport action v =
    action\<lparr>additional_actions := (additional_actions action)\<lparr>vxlan_dport := clib_net_to_host_u16 (word_of_int v)\<rparr>\<rparr>"

definition get_additional_vxlan_dport :: "action_config \<Rightarrow> int \<Rightarrow> int option" where
  "get_additional_vxlan_dport cfg action_id =
    (case cfg of
       None \<Rightarrow> Some (-1)
     | Some actions \<Rightarrow>
         if \<not> is_valid_action_id action_id then Some (-1)
         else do { a \<leftarrow> arr_read actions (nat (action_id - 1));
                   Some (uint (clib_net_to_host_u16 (vxlan_dport (additional_actions a)))) })"

section \<open>The path of a packet\<close>

definition ACTION_TYPE_DROP :: u32 where "ACTION_TYPE_DROP = 1"
definition ACTION_TYPE_FORWARD_INTERFACE :: u32 where "ACTION_TYPE_FORWARD_INTERFACE = 2"
definition ACTION_TYPE_LOAD_BALANCE_INTERFACES :: u32 where "ACTION_TYPE_LOAD_BALANCE_INTERFACES = 3"
definition ACTION_TYPE_COUNT :: u32 where "ACTION_TYPE_COUNT = 4"
definition ADDITIONAL_TYPE_COUNT :: u32 where "ADDITIONAL_TYPE_COUNT = 3"

definition SF_NEXT_NODE_ACTION_GRE_ENCAPSULATION :: u8 where "SF_NEXT_NODE_ACTION_GRE_ENCAPSULATION = 0"
definition SF_NEXT_NODE_ACTION_ERSPAN_ENCAPSULATION :: u8 where "SF_NEXT_NODE_ACTION_ERSPAN_ENCAPSULATION = 1"
definition SF_NEXT_NODE_ACTION_VXLAN_ENCAPSULATION :: u8 where "SF_NEXT_NODE_ACTION_VXLAN_ENCAPSULATION = 2"
definition ACTION_NEXT_PKT_DROP :: u32 where "ACTION_NEXT_PKT_DROP = 3"
definition ACTION_NEXT_FORWARD_INTERFACE :: u32 where "ACTION_NEXT_FORWARD_INTERFACE = 4"
definition ACTION_NEXT_LOAD_BALANCE_INTERFACES :: u32 where "ACTION_NEXT_LOAD_BALANCE_INTERFACES = 5"

definition action_type_to_next_index :: "u32 \<Rightarrow> u32" where
  "action_type_to_next_index type = type + ADDITIONAL_TYPE_COUNT - 1"

definition get_action :: "sf_action_t list \<Rightarrow> u32 \<Rightarrow> sf_action_t option option" where
  "get_action actions action_id =
    (if \<not> is_valid_action_id (uint action_id) then Some None
     else do { a \<leftarrow> arr_read actions (unat (action_id - 1));
               Some (if ref_counter a = 0 then None else Some a) })"

text \<open>The list of next nodes that travels with the packet, in the 64 bytes after the decoded headers.\<close>

record sf_additional_list_t =
  delta :: u16
  addi_pre_index :: u8
  forward_id :: u8
  addtional_list :: "u8 list"

definition reset_addtional_list :: sf_additional_list_t where
  "reset_addtional_list = \<lparr>delta = 0, addi_pre_index = 0, forward_id = 0, addtional_list = replicate 60 0\<rparr>"

definition append_addtional_list :: "u8 \<Rightarrow> sf_additional_list_t \<Rightarrow> sf_additional_list_t option" where
  "append_addtional_list v l =
    do { xs \<leftarrow> arr_write (addtional_list l) (unat (addi_pre_index l)) v;
         Some (l\<lparr>addtional_list := xs, addi_pre_index := addi_pre_index l + 1\<rparr>) }"

definition pop_addtional_list :: "sf_additional_list_t \<Rightarrow> (u8 \<times> sf_additional_list_t) option" where
  "pop_addtional_list l =
    do { v \<leftarrow> arr_read (addtional_list l) (unat (addi_pre_index l));
         Some (v, l\<lparr>addi_pre_index := addi_pre_index l + 1\<rparr>) }"

record action_buf =
  awd :: sf_wdata_t
  additional_list :: sf_additional_list_t

definition get_action_forward_path :: "sf_action_t list \<Rightarrow> action_buf \<Rightarrow> (u32 \<times> action_buf) option" where
  "get_action_forward_path actions b =
    do { action \<leftarrow> get_action actions (arg_to_next (awd b));
         let wdata = set_arg2_to_next 0 (set_arg1_to_next (ucast (arg_to_next (awd b) AND 0xFFFF)) (awd b));
         case action of
           None \<Rightarrow> Some (ACTION_NEXT_PKT_DROP, b\<lparr>awd := wdata\<rparr>)
         | Some action \<Rightarrow>
             if action_type action \<le> ACTION_TYPE_DROP \<or> action_type action \<ge> ACTION_TYPE_COUNT
             then Some (ACTION_NEXT_PKT_DROP, b\<lparr>awd := wdata\<rparr>)
             else
               do { let forward_next_index = action_type_to_next_index (action_type action);
                    let wdata = wdata\<lparr>interface_out := forward_interface_id action\<rparr>;
                    let sw = switch_flags (additional_actions action);
                    if sw = 0 then Some (forward_next_index, b\<lparr>awd := wdata\<rparr>)
                    else
                      do { let l = reset_addtional_list\<lparr>delta := - current_data wdata\<rparr>;
                           l \<leftarrow> (if bit sw 2 then append_addtional_list SF_NEXT_NODE_ACTION_ERSPAN_ENCAPSULATION l else Some l);
                           l \<leftarrow> (if bit sw 1 then append_addtional_list SF_NEXT_NODE_ACTION_VXLAN_ENCAPSULATION l else Some l);
                           l \<leftarrow> (if bit sw 0 then append_addtional_list SF_NEXT_NODE_ACTION_GRE_ENCAPSULATION l else Some l);
                           l \<leftarrow> append_addtional_list (ucast forward_next_index) l;
                           (next0, l) \<leftarrow> pop_addtional_list (l\<lparr>addi_pre_index := 0\<rparr>);
                           Some (ucast next0, b\<lparr>awd := wdata, additional_list := l\<rparr>) } } }"

text \<open>The two bodies of the node \<open>sf_action_main\<close>; the table of actions is shared and only read.\<close>

definition action_main_x1 :: "sf_action_t list \<Rightarrow> action_buf \<Rightarrow> ((action_buf \<times> nat) \<times> sf_action_t list) option" where
  "action_main_x1 actions b0 =
    do { (next0, b0) \<leftarrow> get_action_forward_path actions b0; Some ((b0, unat next0), actions) }"

definition action_main_x2 ::
  "sf_action_t list \<Rightarrow> action_buf \<Rightarrow> action_buf \<Rightarrow> ((action_buf \<times> nat) \<times> (action_buf \<times> nat) \<times> sf_action_t list) option" where
  "action_main_x2 actions b0 b1 =
    do { (next0, b0) \<leftarrow> get_action_forward_path actions b0;
         (next1, b1) \<leftarrow> get_action_forward_path actions b1;
         Some ((b0, unat next0), (b1, unat next1), actions) }"

definition action_main_node where
  "action_main_node = shared_node action_main_x2 action_main_x1"

section \<open>Load balancing\<close>

record load_balance_data_t =
  src_ip :: ip_addr_t
  dst_ip :: ip_addr_t
  inner_sip :: ip_addr_t
  inner_dip :: ip_addr_t
  lb_packet_type :: u64
  inner_exist :: u8

text \<open>\<open>get_l3_src_ip\<close> and the like ignore their index: there is one decoded IP header.\<close>

definition lb_addr :: "u8 \<Rightarrow> ip_addr_t \<Rightarrow> ip_addr_t" where
  "lb_addr version a =
    (if version = IP_VERSION_4
     then \<lparr>addr_v6_upper = clib_net_to_host_u64 (push_bit 32 (addr_v6_upper a)),
           addr_v6_lower = clib_net_to_host_u64 (push_bit 32 (addr_v6_lower a))\<rparr>
     else \<lparr>addr_v6_upper = clib_net_to_host_u64 (addr_v6_upper a),
           addr_v6_lower = clib_net_to_host_u64 (addr_v6_lower a)\<rparr>)"

definition fill_load_balance_data :: "sf_wdata_t \<Rightarrow> load_balance_data_t" where
  "fill_load_balance_data w =
    (let ipw = ip_wdata w; conv = lb_addr (ip_version ipw)
     in \<lparr>src_ip = conv (sip ipw), dst_ip = conv (dip ipw), inner_sip = conv (sip ipw), inner_dip = conv (dip ipw),
         lb_packet_type = packet_type w, inner_exist = (if ip_wdata_cnt w > 1 then 1 else 0)\<rparr>)"

text \<open>One turn of the \<open>while(1)\<close> loop, then the loop: the weights and the index are updated in place.\<close>

definition wrr_turn :: "u32 \<Rightarrow> load_balance_weight_t \<times> u32 \<Rightarrow> load_balance_weight_t \<times> u32" where
  "wrr_turn num s =
    (let data = fst s; index = (snd s + 1) mod num
     in if index = 0 \<or> cw data = 0
        then (let c = int32 (cw data + gcd_w data) in (data\<lparr>cw := if c > mw data then gcd_w data else c\<rparr>, index))
        else (data, index))"

partial_function (option) load_balance_get_weight_index ::
  "int list \<Rightarrow> u32 \<Rightarrow> load_balance_weight_t \<times> u32 \<Rightarrow> (load_balance_weight_t \<times> u32) option" where
  "load_balance_get_weight_index weight num s =
    (let s = wrr_turn num s in
     do { w \<leftarrow> arr_read weight (unat (snd s));
          if w \<ge> cw (fst s) then Some s else load_balance_get_weight_index weight num s })"

definition action_get_load_balance_index :: "sf_action_t \<Rightarrow> load_balance_data_t \<Rightarrow> u32 \<Rightarrow> (u32 \<times> sf_action_t) option" where
  "action_get_load_balance_index action data num =
    (if num = 0 then Some (0, action)
     else case load_balance_mode action of
       LOAD_BALANCE_MODE_WRR \<Rightarrow>
         do { (wdat, index) \<leftarrow> load_balance_get_weight_index (load_balance_weight action) num (weight_data action, load_balance_index action);
              Some (index, action\<lparr>weight_data := wdat, load_balance_index := index\<rparr>) }
     | LOAD_BALANCE_MODE_OUTER_SRCDSTIP \<Rightarrow>
         Some (ucast ((addr_v6_upper (src_ip data) + addr_v6_lower (src_ip data) + addr_v6_upper (dst_ip data)
                        + addr_v6_lower (dst_ip data)) mod ucast num), action)
     | LOAD_BALANCE_MODE_OUTER_SRCIP \<Rightarrow>
         Some (ucast ((addr_v6_upper (src_ip data) + addr_v6_lower (src_ip data)) mod ucast num), action)
     | LOAD_BALANCE_MODE_OUTER_DSTIP \<Rightarrow>
         Some (ucast ((addr_v6_upper (dst_ip data) + addr_v6_lower (dst_ip data)) mod ucast num), action)
     | _ \<Rightarrow>
         (let index = (load_balance_index action + 1) mod num in Some (index, action\<lparr>load_balance_index := index\<rparr>)))"

text \<open>
  The state that interfaces report: \<open>admin_status\<close> of the configuration and \<open>intf_link\<close> of the statistics.
  The arrays of the load balancing node remember, per action, the interfaces that were up.
\<close>

record intf_status =
  admin_status :: "u8 list"
  intf_link :: "u8 list"

record lb_arrays =
  interface_array_real_load_balance :: "u16 list"
  interface_num_real_load_balance :: u16
  interface_update_load_balance :: u16

definition get_interface_admin_status :: "intf_status \<Rightarrow> u32 \<Rightarrow> u8 option" where
  "get_interface_admin_status S intf_id = arr_read (admin_status S) (unat (intf_id - 1))"

definition get_interface_link :: "intf_status \<Rightarrow> u32 \<Rightarrow> u8 option" where
  "get_interface_link S intf_id =
    (if intf_id > of_nat MAX_INTERFACE_CNT then Some 0 else arr_read (intf_link S) (unat (intf_id - 1)))"

definition intf_up :: "intf_status \<Rightarrow> u32 \<Rightarrow> bool option" where
  "intf_up S intf_id =
    do { a \<leftarrow> get_interface_admin_status S intf_id;
         if a = 0 then Some False
         else do { l \<leftarrow> get_interface_link S intf_id; Some (l \<noteq> 0) } }"

text \<open>The retries of the round robin modes; the counter is what is left of \<open>MAX_LOAD_BALANCE_NODE\<close>.\<close>

fun lb_retry :: "intf_status \<Rightarrow> load_balance_data_t \<Rightarrow> u32 \<Rightarrow> nat \<Rightarrow> sf_action_t \<Rightarrow> (u32 \<times> sf_action_t) option" where
  "lb_retry S data num 0 action = Some (INVALID_INTERFACE_ID, action)"
| "lb_retry S data num (Suc k) action =
    do { (index, action) \<leftarrow> action_get_load_balance_index action data num;
         i \<leftarrow> arr_read (load_balance_interface_array action) (unat index);
         up \<leftarrow> intf_up S (ucast i);
         if up then Some (ucast i, action) else lb_retry S data num k action }"

text \<open>The loop that collects the interfaces that are up.\<close>

fun lb_collect :: "intf_status \<Rightarrow> u8 list \<Rightarrow> nat list \<Rightarrow> lb_arrays \<Rightarrow> lb_arrays option" where
  "lb_collect S arr [] st = Some st"
| "lb_collect S arr (i # is) st =
    do { x \<leftarrow> arr_read arr i;
         up \<leftarrow> intf_up S (ucast x);
         if up then
           do { xs \<leftarrow> arr_write (interface_array_real_load_balance st) (unat (interface_num_real_load_balance st)) (ucast x);
                lb_collect S arr is (st\<lparr>interface_array_real_load_balance := xs,
                  interface_num_real_load_balance := interface_num_real_load_balance st + 1\<rparr>) }
         else lb_collect S arr is st }"

definition load_balance_interfaces ::
  "intf_status \<Rightarrow> sf_wdata_t \<Rightarrow> sf_action_t \<Rightarrow> lb_arrays \<Rightarrow> (u32 \<times> sf_action_t \<times> lb_arrays) option" where
  "load_balance_interfaces S wdata action st =
    do { let data = fill_load_balance_data wdata;
         let num = ucast (load_balance_interfaces_num action);
         (index, action) \<leftarrow> action_get_load_balance_index action data num;
         i \<leftarrow> arr_read (load_balance_interface_array action) (unat index);
         up \<leftarrow> intf_up S (ucast i);
         if up then Some (ucast i, action, st)
         else if load_balance_mode action = LOAD_BALANCE_MODE_ROUND_ROBIN \<or> load_balance_mode action = LOAD_BALANCE_MODE_WRR then
           do { (i, action) \<leftarrow> lb_retry S data num MAX_LOAD_BALANCE_NODE action; Some (i, action, st) }
         else
           do { st \<leftarrow> (if interface_update_load_balance st \<noteq> 0xFF then
                         do { st \<leftarrow> lb_collect S (load_balance_interface_array action) [0..<unat num]
                                (st\<lparr>interface_num_real_load_balance := 0\<rparr>);
                              Some (st\<lparr>interface_update_load_balance := 1\<rparr>) }
                       else Some st);
                if interface_num_real_load_balance st = 0 then Some (INVALID_INTERFACE_ID, action, st)
                else
                  do { (index, action) \<leftarrow> action_get_load_balance_index action data (ucast (interface_num_real_load_balance st));
                       i \<leftarrow> arr_read (interface_array_real_load_balance st) (unat index);
                       Some (ucast i, action, st) } } }"

text \<open>The node: the shared state is the table of actions and the arrays of all actions.\<close>

definition LB_NEXT_PKT_OUTPUT :: nat where "LB_NEXT_PKT_OUTPUT = 0"
definition LB_NEXT_PKT_DROP :: nat where "LB_NEXT_PKT_DROP = 1"

definition lb_packet ::
  "intf_status \<Rightarrow> sf_action_t list \<times> lb_arrays list \<Rightarrow> sf_wdata_t \<Rightarrow> (u8 \<times> sf_action_t list \<times> lb_arrays list) option" where
  "lb_packet S g w =
    (let n = unat ((ucast (arg_to_next w) :: u16) - 1) in
     do { action \<leftarrow> arr_read (fst g) n;
          st \<leftarrow> arr_read (snd g) n;
          (i, action, st) \<leftarrow> load_balance_interfaces S w action st;
          Some (ucast i, (fst g)[n := action], (snd g)[n := st]) })"

definition balance_intf_x1 ::
  "intf_status \<Rightarrow> sf_action_t list \<times> lb_arrays list \<Rightarrow> sf_wdata_t \<Rightarrow> ((sf_wdata_t \<times> nat) \<times> sf_action_t list \<times> lb_arrays list) option" where
  "balance_intf_x1 S g w0 =
    do { (id0, g) \<leftarrow> lb_packet S g w0;
         let next0 = (if id0 = ucast INVALID_INTERFACE_ID then LB_NEXT_PKT_DROP else LB_NEXT_PKT_OUTPUT);
         Some ((w0\<lparr>interface_out := id0\<rparr>, next0), g) }"

definition balance_intf_x2 ::
  "intf_status \<Rightarrow> sf_action_t list \<times> lb_arrays list \<Rightarrow> sf_wdata_t \<Rightarrow> sf_wdata_t
    \<Rightarrow> ((sf_wdata_t \<times> nat) \<times> (sf_wdata_t \<times> nat) \<times> sf_action_t list \<times> lb_arrays list) option" where
  "balance_intf_x2 S g w0 w1 =
    do { (id0, g) \<leftarrow> lb_packet S g w0;
         (id1, g) \<leftarrow> lb_packet S g w1;
         let next0 = (if id0 = ucast INVALID_INTERFACE_ID then LB_NEXT_PKT_DROP else LB_NEXT_PKT_OUTPUT);
         let next1 = (if id1 = ucast INVALID_INTERFACE_ID then LB_NEXT_PKT_DROP else LB_NEXT_PKT_OUTPUT);
         Some ((w0\<lparr>interface_out := id0\<rparr>, next0), (w1\<lparr>interface_out := id1\<rparr>, next1), g) }"

definition balance_intf_node where
  "balance_intf_node S = shared_node (balance_intf_x2 S) (balance_intf_x1 S)"

interpretation amain: dual_shared_node action_main_x2 action_main_x1
  by unfold_locales (auto simp: action_main_x2_def action_main_x1_def split: Option.bind_splits prod.splits)

interpretation lbn: dual_shared_node "balance_intf_x2 S" "balance_intf_x1 S" for S
  by unfold_locales (auto simp: balance_intf_x2_def balance_intf_x1_def Let_def split: Option.bind_splits prod.splits)

section \<open>Weighted round robin\<close>

text \<open>
  The weights fit the configuration: \<open>g\<close> divides all of the first \<open>n\<close>, none exceeds \<open>m\<close> and one reaches it.  The
  turns then walk around a circle of \<open>n\<close> positions on each of \<open>m div g\<close> levels; a position is chosen if its
  weight reaches the level.
\<close>

definition wrr_ok :: "int list \<Rightarrow> nat \<Rightarrow> int \<Rightarrow> int \<Rightarrow> bool" where
  "wrr_ok weight n g m \<longleftrightarrow> 0 < n \<and> n \<le> length weight \<and> 0 < g \<and> 0 < m
     \<and> (\<forall>i<n. g dvd weight ! i \<and> 0 \<le> weight ! i \<and> weight ! i \<le> m) \<and> (\<exists>i<n. weight ! i = m)"

definition wrr_inv :: "nat \<Rightarrow> int \<Rightarrow> int \<Rightarrow> load_balance_weight_t \<times> u32 \<Rightarrow> bool" where
  "wrr_inv n g m s \<longleftrightarrow> unat (snd s) < n \<and> gcd_w (fst s) = g \<and> mw (fst s) = m
     \<and> (cw (fst s) = 0 \<or> g dvd cw (fst s) \<and> 0 < cw (fst s) \<and> cw (fst s) \<le> m)"

text \<open>No sum of the running weight and the divisor leaves the range of \<open>int\<close>.\<close>

definition wrr_room :: "int \<Rightarrow> int \<Rightarrow> bool" where
  "wrr_room g m \<longleftrightarrow> m + g < 2 ^ 31"

lemma int32_id: "- (2 ^ 31) \<le> x \<Longrightarrow> x < 2 ^ 31 \<Longrightarrow> int32 x = x"
  by (simp add: int32_def)

lemma int32_over: "2 ^ 31 \<le> x \<Longrightarrow> x < 2 ^ 32 \<Longrightarrow> int32 x = x - 2 ^ 32"
proof -
  assume x: "2 ^ 31 \<le> x" "x < 2 ^ 32"
  have "x + 2 ^ 31 = x - 2 ^ 31 + 2 ^ 32" by simp
  then have "(x + 2 ^ 31) mod 2 ^ 32 = (x - 2 ^ 31) mod 2 ^ 32" by (simp only: mod_add_self2)
  also have "\<dots> = x - 2 ^ 31" using x by simp
  finally show ?thesis by (simp add: int32_def)
qed

definition circle :: "nat \<Rightarrow> int \<Rightarrow> int \<Rightarrow> nat" where
  "circle n g m = nat (m div g) * n"

definition wrr_pos :: "nat \<Rightarrow> int \<Rightarrow> int \<Rightarrow> load_balance_weight_t \<times> u32 \<Rightarrow> nat" where
  "wrr_pos n g m s =
    (let i = unat (snd s) in
     if cw (fst s) = 0 then if i + 1 < n then i else circle n g m - 1
     else (nat (cw (fst s) div g) - 1) * n + i)"

definition wrr_state :: "nat \<Rightarrow> int \<Rightarrow> int \<Rightarrow> nat \<Rightarrow> load_balance_weight_t \<times> u32" where
  "wrr_state n g m p = (\<lparr>cw = g * (int (p div n) + 1), gcd_w = g, mw = m\<rparr>, of_nat (p mod n))"

definition wrr_chosen :: "int list \<Rightarrow> nat \<Rightarrow> int \<Rightarrow> nat \<Rightarrow> bool" where
  "wrr_chosen weight n g p \<longleftrightarrow> g * (int (p div n) + 1) \<le> weight ! (p mod n)"

lemma next_index:
  assumes "unat i < n" "n = unat (num :: u32)"
  shows "(i + 1) mod num = of_nat (if unat i + 1 < n then unat i + 1 else 0)"
proof -
  have n: "n < 2 ^ 32" using assms unsigned_less [of num, where 'a = nat] by simp
  have "unat (i + 1) = unat i + 1" using assms n by (simp add: unat_word_ariths)
  then have "unat ((i + 1) mod num) = (unat i + 1) mod n" using assms by (simp add: unat_mod)
  also have "\<dots> = (if unat i + 1 < n then unat i + 1 else 0)" using assms(1) by (auto simp: not_less dest: le_antisym)
  finally have "unat ((i + 1) mod num) = (if unat i + 1 < n then unat i + 1 else 0)" .
  then have "(of_nat (unat ((i + 1) mod num)) :: u32) = of_nat (if unat i + 1 < n then unat i + 1 else 0)" by (simp only:)
  then show ?thesis by simp
qed

lemma wrr_level:
  assumes "g dvd c" "0 < c" "c \<le> m" "0 < (g :: int)" "g dvd m"
  shows "c = g * (int (nat (c div g) - 1) + 1)" "nat (c div g) - 1 < nat (m div g)"
    "c + g > m \<longleftrightarrow> nat (c div g) = nat (m div g)"
proof -
  obtain k where k: "c = g * k" using assms(1) by (elim dvdE)
  obtain l where l: "m = g * l" using assms(5) by (elim dvdE)
  have pos: "0 < k" "k \<le> l" using assms k l by (auto simp: zero_less_mult_iff)
  have d: "c div g = k" "m div g = l" using assms(4) k l by simp_all
  show "c = g * (int (nat (c div g) - 1) + 1)" unfolding d using pos k by (simp add: of_nat_diff)
  show "nat (c div g) - 1 < nat (m div g)" unfolding d using pos by linarith
  have "c + g > m \<longleftrightarrow> g * l < g * (k + 1)" by (simp add: k l distrib_left)
  also have "\<dots> \<longleftrightarrow> l < k + 1" using assms(4) by (simp add: mult_less_cancel_left)
  finally show "c + g > m \<longleftrightarrow> nat (c div g) = nat (m div g)" unfolding d using pos by linarith
qed

lemma wrr_pos_state:
  assumes "wrr_ok weight n g m" "p < circle n g m" "n < 2 ^ 32"
  shows "wrr_pos n g m (wrr_state n g m p) = p" "wrr_inv n g m (wrr_state n g m p)" "unat (snd (wrr_state n g m p)) = p mod n"
proof -
  have ok: "0 < n" "0 < g" "0 < m" "g dvd m" using assms(1) by (auto simp: wrr_ok_def)
  have mod: "p mod n < n" using ok by simp
  then have i: "unat (of_nat (p mod n) :: u32) = p mod n" using assms(3) by simp
  then show "unat (snd (wrr_state n g m p)) = p mod n" by (simp add: wrr_state_def)
  define c where "c = g * (int (p div n) + 1)"
  have c: "0 < c" "nat (c div g) = p div n + 1" using ok by (simp_all add: c_def nat_add_distrib)
  have "cw (fst (wrr_state n g m p)) = c" "unat (snd (wrr_state n g m p)) = p mod n" using i by (simp_all add: wrr_state_def c_def)
  then show "wrr_pos n g m (wrr_state n g m p) = p" using c by (simp add: wrr_pos_def)
  have "p div n < nat (m div g)" using assms(2) by (simp add: circle_def less_mult_imp_div_less)
  then have "int (p div n) + 1 \<le> m div g" by linarith
  then have "g * (int (p div n) + 1) \<le> g * (m div g)" using ok(2) by (simp only: mult_left_mono)
  then have "g * (int (p div n) + 1) \<le> m" using ok(4) by simp
  then show "wrr_inv n g m (wrr_state n g m p)"
    using c(1) mod i by (simp add: wrr_inv_def wrr_state_def c_def)
qed

lemma circle_coord: "j < n \<Longrightarrow> (k * n + j) div n = k \<and> (k * n + j) mod n = (j :: nat)"
  by simp

lemma wrr_turn_state:
  assumes ok: "wrr_ok weight n g m" and inv: "wrr_inv n g m s" and n: "n = unat num" and m: "m < 2 ^ 31"
    and room: "wrr_room g m \<or> cw (fst s) = 0 \<or> wrr_pos n g m s + 1 < circle n g m"
  shows "wrr_turn num s = wrr_state n g m ((wrr_pos n g m s + 1) mod circle n g m)"
proof -
  obtain data index where s: "s = (data, index)" by fastforce
  let ?i = "unat index" and ?L = "nat (m div g)"
  have g: "0 < n" "0 < g" "0 < m" "g dvd m" using ok by (auto simp: wrr_ok_def)
  have inv': "?i < n" "gcd_w data = g" "mw data = m" "cw data = 0 \<or> g dvd cw data \<and> 0 < cw data \<and> cw data \<le> m"
    using inv by (auto simp: wrr_inv_def s)
  have data: "data = \<lparr>cw = cw data, gcd_w = g, mw = m\<rparr>" using inv'(2,3) by (intro load_balance_weight_t.equality) simp_all
  have gm: "g \<le> m" using g zdvd_imp_le by blast
  have g32: "int32 g = g" using gm g(2) m by (intro int32_id) linarith+
  have L: "0 < ?L" using g gm by (simp add: pos_imp_zdiv_pos_iff)
  have T: "circle n g m = ?L * n" by (simp add: circle_def)
  have Tn: "n \<le> ?L * n" using L mult_le_mono1 [of 1 ?L n] by linarith
  note idx = next_index [OF inv'(1) n]
  show ?thesis
  proof (cases "?i + 1 < n")
    case True
    have i: "(index + 1) mod num = of_nat (?i + 1)" "(of_nat (?i + 1) :: u32) \<noteq> 0"
      using idx True unsigned_less [of num, where 'a = nat] n of_nat_small(2) [of "?i + 1"] by auto
    show ?thesis
    proof (cases "cw data = 0")
      case zero: True
      have "?i + 1 < ?L * n" using True Tn by (rule less_le_trans)
      then have "(wrr_pos n g m s + 1) mod circle n g m = ?i + 1" using True zero by (simp add: wrr_pos_def s T)
      moreover have "wrr_turn num s = (\<lparr>cw = g, gcd_w = g, mw = m\<rparr>, of_nat (?i + 1))"
        using zero gm i by (subst data [THEN arg_cong]) (simp add: wrr_turn_def s inv' Let_def g32)
      ultimately show ?thesis using True by (simp add: wrr_state_def)
    next
      case False
      note lev = wrr_level [of g "cw data" m, OF _ _ _ g(2,4)]
      let ?k = "nat (cw data div g) - 1"
      have k: "cw data = g * (int ?k + 1)" "?k < ?L" using lev(1,2) inv'(4) False by simp_all
      have "?k * n + ?i + 1 < ?L * n"
      proof -
        have "(?k + 1) * n \<le> ?L * n" using k(2) by (intro mult_le_mono1) simp
        then show ?thesis using True by simp
      qed
      then have p: "(wrr_pos n g m s + 1) mod circle n g m = ?k * n + (?i + 1)" using False by (simp add: wrr_pos_def s T)
      have "wrr_turn num s = (data, of_nat (?i + 1))" using False i by (simp add: wrr_turn_def s Let_def)
      moreover have "(?k * n + (?i + 1)) div n = ?k" "(?k * n + (?i + 1)) mod n = ?i + 1"
        using circle_coord [of "?i + 1" n ?k] True by blast+
      ultimately show ?thesis unfolding p wrr_state_def using k(1) data by simp
    qed
  next
    case False
    then have last: "?i + 1 = n" using inv'(1) by simp
    have i: "(index + 1) mod num = 0" using idx False by simp
    show ?thesis
    proof (cases "cw data = 0")
      case zero: True
      have "(wrr_pos n g m s + 1) mod circle n g m = 0" using False zero L g(1) by (simp add: wrr_pos_def s T)
      moreover have "wrr_turn num s = (\<lparr>cw = g, gcd_w = g, mw = m\<rparr>, 0)"
        using zero gm i data by (simp add: wrr_turn_def s inv' Let_def g32)
      ultimately show ?thesis by (simp add: wrr_state_def)
    next
      case nz: False
      note lev = wrr_level [of g "cw data" m, OF _ _ _ g(2,4)]
      let ?k = "nat (cw data div g) - 1"
      have k: "cw data = g * (int ?k + 1)" "?k < ?L" "cw data + g > m \<longleftrightarrow> nat (cw data div g) = ?L"
        using lev(1,2,3) inv'(4) nz by simp_all
      have pos: "0 < nat (cw data div g)" using inv'(4) nz g(2) zdvd_imp_le by (simp add: pos_imp_zdiv_pos_iff)
      have p: "wrr_pos n g m s + 1 = (?k + 1) * n" using nz last by (simp add: wrr_pos_def s)
      show ?thesis
      proof (cases "cw data + g > m")
        case True
        then have top: "?k + 1 = ?L" using k(3) pos by simp
        then have "\<not> wrr_pos n g m s + 1 < circle n g m" unfolding p T by simp
        then have "m + g < 2 ^ 31" using room nz by (simp add: s wrr_room_def)
        then have "int32 (cw data + g) = cw data + g" using inv'(4) nz g(2) by (intro int32_id) linarith+
        note wrap = this
        have "(wrr_pos n g m s + 1) mod circle n g m = 0" unfolding p T using top by simp
        moreover have "wrr_turn num s = (\<lparr>cw = g, gcd_w = g, mw = m\<rparr>, 0)"
          using True i data by (simp add: wrr_turn_def s inv' Let_def wrap)
        ultimately show ?thesis by (simp add: wrr_state_def)
      next
        case low: False
        then have "?k + 1 < ?L" using k(2,3) pos by linarith
        then have "(?k + 1) * n < ?L * n" using g(1) by (rule mult_less_mono1)
        then have p': "(wrr_pos n g m s + 1) mod circle n g m = (?k + 1) * n" unfolding p T by simp
        have wrap: "int32 (cw data + g) = cw data + g" using inv'(4) nz g(2) low m by (intro int32_id) linarith+
        have "wrr_turn num s = (\<lparr>cw = cw data + g, gcd_w = g, mw = m\<rparr>, 0)"
          using low i data wrap by (simp add: wrr_turn_def s inv' Let_def)
        then show ?thesis unfolding p' wrr_state_def using k(1) g(1) by (simp add: distrib_left)
      qed
    qed
  qed
qed

text \<open>A call ends at the next position if that is chosen, and otherwise goes on from there.\<close>

lemma circle_pos: "wrr_ok weight n g m \<Longrightarrow> 0 < circle n g m"
  using zdvd_imp_le [of g m] by (auto simp: wrr_ok_def circle_def pos_imp_zdiv_pos_iff)

lemma wrr_step:
  assumes ok: "wrr_ok weight n g m" and inv: "wrr_inv n g m s" and n: "n = unat num"
    and q: "q = (wrr_pos n g m s + 1) mod circle n g m" and room: "wrr_room g m"
  shows "load_balance_get_weight_index weight num s =
    (if wrr_chosen weight n g q then Some (wrr_state n g m q) else load_balance_get_weight_index weight num (wrr_state n g m q))"
    and "wrr_pos n g m (wrr_state n g m q) = q" "wrr_inv n g m (wrr_state n g m q)" "unat (snd (wrr_state n g m q)) = q mod n"
proof -
  have n32: "n < 2 ^ 32" using n unsigned_less [of num, where 'a = nat] by simp
  have g: "0 < n" "n \<le> length weight" "0 < g" using ok by (auto simp: wrr_ok_def)
  have m: "m < 2 ^ 31" using room g(3) by (simp add: wrr_room_def)
  have "q < circle n g m" using circle_pos [OF ok] q by simp
  note st = wrr_pos_state [OF ok this n32]
  show "wrr_pos n g m (wrr_state n g m q) = q" "wrr_inv n g m (wrr_state n g m q)" and i: "unat (snd (wrr_state n g m q)) = q mod n"
    using st by simp_all
  have turn: "wrr_turn num s = wrr_state n g m q" unfolding q by (rule wrr_turn_state [OF ok inv n m]) (simp add: room)
  have "q mod n < length weight" using g mod_less_divisor [of n q] by linarith
  then have "arr_read weight (q mod n) = Some (weight ! (q mod n))" by (rule arr_read_in)
  moreover have "cw (fst (wrr_state n g m q)) = g * (int (q div n) + 1)" by (simp add: wrr_state_def)
  ultimately show "load_balance_get_weight_index weight num s =
    (if wrr_chosen weight n g q then Some (wrr_state n g m q) else load_balance_get_weight_index weight num (wrr_state n g m q))"
    by (subst load_balance_get_weight_index.simps) (simp add: turn i wrr_chosen_def Let_def)
qed

text \<open>The indices chosen by consecutive calls.\<close>

fun wrr_calls :: "int list \<Rightarrow> u32 \<Rightarrow> nat \<Rightarrow> load_balance_weight_t \<times> u32 \<Rightarrow> (nat list \<times> load_balance_weight_t \<times> u32) option" where
  "wrr_calls weight num 0 s = Some ([], s)"
| "wrr_calls weight num (Suc k) s =
    do { s \<leftarrow> load_balance_get_weight_index weight num s;
         (is, s') \<leftarrow> wrr_calls weight num k s;
         Some (unat (snd s) # is, s') }"

definition ahead :: "nat \<Rightarrow> nat \<Rightarrow> nat \<Rightarrow> nat list" where
  "ahead T p k = map (\<lambda>j. (p + 1 + j) mod T) [0..<k]"

lemma ahead_Suc: "ahead T p (Suc k) = (p + 1) mod T # ahead T ((p + 1) mod T) k"
proof -
  have "(p + 1 + Suc j) mod T = ((p + 1) mod T + 1 + j) mod T" for j
    by (metis add.assoc add_Suc_shift mod_add_left_eq plus_1_eq_Suc)
  then show ?thesis unfolding ahead_def by (simp add: upt_conv_Cons del: upt_Suc flip: map_Suc_upt)
qed

lemma wrr_calls_ahead:
  assumes ok: "wrr_ok weight n g m" and inv: "wrr_inv n g m s" and n: "n = unat num"
    and ys: "ys = filter (wrr_chosen weight n g) (ahead (circle n g m) (wrr_pos n g m s) k)" and room: "wrr_room g m"
  shows "\<exists>s'. wrr_calls weight num (length ys) s = Some (map (\<lambda>p. p mod n) ys, s') \<and> wrr_inv n g m s'"
  using inv ys
proof (induction k arbitrary: s ys)
  case 0
  then show ?case by (simp add: ahead_def)
next
  case (Suc k)
  define q where "q = (wrr_pos n g m s + 1) mod circle n g m"
  note st = wrr_step [OF ok Suc.prems(1) n q_def room]
  define zs where "zs = filter (wrr_chosen weight n g) (ahead (circle n g m) q k)"
  have ys: "ys = (if wrr_chosen weight n g q then q # zs else zs)"
    using Suc.prems(2) by (simp add: ahead_Suc q_def zs_def)
  obtain s' where s': "wrr_calls weight num (length zs) (wrr_state n g m q) = Some (map (\<lambda>p. p mod n) zs, s')" "wrr_inv n g m s'"
    using Suc.IH [OF st(3), of zs] by (auto simp: st(2) zs_def)
  show ?case
  proof (cases "wrr_chosen weight n g q")
    case True
    then show ?thesis using s' st(1,4) ys by (auto intro!: exI [of _ s'])
  next
    case False
    then have same: "load_balance_get_weight_index weight num s = load_balance_get_weight_index weight num (wrr_state n g m q)"
      using st(1) by simp
    have "wrr_calls weight num (Suc l) s = wrr_calls weight num (Suc l) (wrr_state n g m q)" for l by (simp add: same)
    then show ?thesis using False s' ys Suc.prems(1) by (cases zs) (auto intro!: exI [of _ s'])
  qed
qed

lemma ahead_full:
  assumes "0 < T"
  shows "distinct (ahead T p T)" and "set (ahead T p T) = {..<T}"
proof -
  have inj: "inj_on (\<lambda>j. (p + 1 + j) mod T) {..<T}"
  proof (rule linorder_inj_onI')
    fix i j assume ij: "i \<in> {..<T}" "j \<in> {..<T}" "i < j"
    show "(p + 1 + i) mod T \<noteq> (p + 1 + j) mod T"
    proof
      assume "(p + 1 + i) mod T = (p + 1 + j) mod T"
      then have "T dvd (p + 1 + j) - (p + 1 + i)" by (metis mod_eq_dvd_iff_nat nat_add_left_cancel_le ij(3) less_imp_le)
      then show False using ij by (auto dest: dvd_imp_le)
    qed
  qed
  then show "distinct (ahead T p T)" by (simp add: ahead_def distinct_map atLeast0LessThan)
  have "set (ahead T p T) \<subseteq> {..<T}" using assms by (auto simp: ahead_def)
  moreover have "card (set (ahead T p T)) = T"
    using distinct_card [OF \<open>distinct (ahead T p T)\<close>] by (simp add: ahead_def)
  ultimately show "set (ahead T p T) = {..<T}" by (simp add: card_subset_eq)
qed

lemma chosen_card:
  assumes ok: "wrr_ok weight n g m" and i: "i < n"
  shows "card {p \<in> {..<circle n g m}. wrr_chosen weight n g p \<and> p mod n = i} = nat (weight ! i div g)"
proof -
  let ?w = "weight ! i" and ?f = "\<lambda>k. k * n + i"
  have g: "0 < g" "g dvd ?w" "0 \<le> ?w" "?w \<le> m" using ok i by (auto simp: wrr_ok_def)
  have lev: "g * (int k + 1) \<le> ?w \<longleftrightarrow> k < nat (?w div g)" for k
  proof -
    have "g * (int k + 1) \<le> ?w \<longleftrightarrow> g * (int k + 1) \<le> g * (?w div g)" using g by simp
    also have "\<dots> \<longleftrightarrow> int k + 1 \<le> ?w div g" using g(1) by simp
    finally show ?thesis by linarith
  qed
  have le: "nat (?w div g) \<le> nat (m div g)" using g by (intro nat_mono zdiv_mono1)
  have "{p \<in> {..<circle n g m}. wrr_chosen weight n g p \<and> p mod n = i} = ?f ` {..<nat (?w div g)}"
  proof (intro equalityI subsetI)
    fix p assume p: "p \<in> {p \<in> {..<circle n g m}. wrr_chosen weight n g p \<and> p mod n = i}"
    then have "p = ?f (p div n)" by (metis (mono_tags, lifting) div_mult_mod_eq mem_Collect_eq)
    moreover have "p div n < nat (?w div g)" using p lev by (auto simp: wrr_chosen_def)
    ultimately show "p \<in> ?f ` {..<nat (?w div g)}" by blast
  next
    fix p assume "p \<in> ?f ` {..<nat (?w div g)}"
    then obtain k where k: "k < nat (?w div g)" "p = ?f k" by blast
    have "(k + 1) * n \<le> nat (m div g) * n" using k(1) le by (intro mult_le_mono1) linarith
    then have "p < circle n g m" using i k(2) by (simp add: circle_def)
    then show "p \<in> {p \<in> {..<circle n g m}. wrr_chosen weight n g p \<and> p mod n = i}"
      using circle_coord [OF i, of k] k lev by (simp add: wrr_chosen_def)
  qed
  moreover have "inj_on ?f {..<nat (?w div g)}" using i by (auto intro!: inj_onI)
  ultimately show ?thesis by (simp add: card_image)
qed

text \<open>
  One round: as many calls as the sum of the weights over \<open>g\<close> choose each index as often as its weight asks for.
\<close>

lemma wrr_round:
  assumes ok: "wrr_ok weight n g m" and inv: "wrr_inv n g m s" and n: "n = unat num" and room: "wrr_room g m"
  shows "\<exists>is s'. wrr_calls weight num (\<Sum>i<n. nat (weight ! i div g)) s = Some (is, s') \<and> wrr_inv n g m s'
    \<and> (\<forall>i<n. count_list is i = nat (weight ! i div g)) \<and> set is \<subseteq> {..<n}"
proof -
  let ?T = "circle n g m" and ?p = "wrr_pos n g m s"
  define ys where "ys = filter (wrr_chosen weight n g) (ahead ?T ?p ?T)"
  define xs where "xs = map (\<lambda>p. p mod n) ys"
  have n0: "0 < n" using ok by (simp add: wrr_ok_def)
  have d: "distinct ys" "set ys = {p \<in> {..<?T}. wrr_chosen weight n g p}"
    using ahead_full [OF circle_pos [OF ok], of ?p] by (auto simp: ys_def)
  have cnt: "count_list xs i = nat (weight ! i div g)" if "i < n" for i
  proof -
    have "count_list xs i = length (filter (\<lambda>p. p mod n = i) ys)"
      by (simp add: xs_def count_list_eq_length_filter filter_map comp_def eq_commute)
    also have "\<dots> = card {p \<in> {..<?T}. wrr_chosen weight n g p \<and> p mod n = i}"
      using d by (simp add: distinct_length_filter Int_def conj_commute conj_left_commute)
    finally show ?thesis using chosen_card [OF ok that] by simp
  qed
  have sub: "set xs \<subseteq> {..<n}" using n0 by (auto simp: xs_def)
  have "length xs = (\<Sum>i<n. count_list xs i)" using sum_count_set [OF sub] by simp
  then have len: "length ys = (\<Sum>i<n. nat (weight ! i div g))" using cnt by (simp add: xs_def)
  obtain s' where "wrr_calls weight num (length ys) s = Some (xs, s')" "wrr_inv n g m s'"
    using wrr_calls_ahead [OF ok inv n ys_def room] by (auto simp: xs_def)
  then show ?thesis using cnt sub unfolding len by blast
qed

text \<open>
  Every single call returns, also when the running weight wraps around: it never exceeds the largest weight, so that an
  interface with that weight ends the loop.
\<close>

definition wrr_run :: "nat \<Rightarrow> int \<Rightarrow> int \<Rightarrow> load_balance_weight_t \<times> u32 \<Rightarrow> bool" where
  "wrr_run n g m s \<longleftrightarrow> unat (snd s) < n \<and> gcd_w (fst s) = g \<and> mw (fst s) = m \<and> cw (fst s) \<le> m"

lemma wrr_inv_run: "wrr_ok weight n g m \<Longrightarrow> wrr_inv n g m s \<Longrightarrow> wrr_run n g m s"
  by (auto simp: wrr_ok_def wrr_inv_def wrr_run_def)

lemma wrr_turn_run:
  assumes ok: "wrr_ok weight n g m" and run: "wrr_run n g m s" and n: "n = unat num"
  shows "wrr_run n g m (wrr_turn num s)" "unat (snd (wrr_turn num s)) = (unat (snd s) + 1) mod n"
proof -
  have g: "0 < n" "g \<le> m" using ok zdvd_imp_le [of g m] by (auto simp: wrr_ok_def)
  have i: "unat (snd s) < n" using run by (simp add: wrr_run_def)
  have n32: "n < 2 ^ 32" using n unsigned_less [of num, where 'a = nat] by simp
  have snd: "snd (wrr_turn num s) = (snd s + 1) mod num" by (simp add: wrr_turn_def Let_def)
  have "unat (snd s) + 1 < n \<or> unat (snd s) + 1 = n" using i by linarith
  then show idx: "unat (snd (wrr_turn num s)) = (unat (snd s) + 1) mod n"
    unfolding snd next_index [OF i n] using n32 by (auto simp: unat_of_nat)
  then have "unat (snd (wrr_turn num s)) < n" using g(1) by simp
  then show "wrr_run n g m (wrr_turn num s)" using run g(2) by (auto simp: wrr_run_def wrr_turn_def Let_def)
qed

lemma wrr_call_within:
  assumes ok: "wrr_ok weight n g m" and run: "wrr_run n g m s" and n: "n = unat num"
    and hit: "weight ! ((unat (snd s) + 1 + k) mod n) = m"
  shows "\<exists>s'. load_balance_get_weight_index weight num s = Some s' \<and> wrr_run n g m s'"
  using run hit
proof (induction k arbitrary: s)
  case (0 s)
  note t = wrr_turn_run [OF ok "0.prems"(1) n]
  have "cw (fst (wrr_turn num s)) \<le> m" "unat (snd (wrr_turn num s)) < length weight"
    using t(1) ok by (auto simp: wrr_run_def wrr_ok_def)
  then show ?case using "0.prems"(2) t by (subst load_balance_get_weight_index.simps) (simp add: Let_def arr_read_in)
next
  case (Suc k)
  note t = wrr_turn_run [OF ok Suc.prems(1) n]
  let ?t = "wrr_turn num s"
  have "unat (snd ?t) < length weight" using t(1) ok by (auto simp: wrr_run_def wrr_ok_def)
  then have eq: "load_balance_get_weight_index weight num s =
      (if cw (fst ?t) \<le> weight ! unat (snd ?t) then Some ?t else load_balance_get_weight_index weight num ?t)"
    by (subst load_balance_get_weight_index.simps) (simp add: Let_def arr_read_in)
  have "(unat (snd ?t) + 1 + k) mod n = (unat (snd s) + 1 + Suc k) mod n"
    unfolding t(2) by (metis add.assoc add_Suc_shift mod_add_left_eq plus_1_eq_Suc)
  then have "\<exists>s'. load_balance_get_weight_index weight num ?t = Some s' \<and> wrr_run n g m s'"
    using Suc.IH [OF t(1)] Suc.prems(2) by simp
  then show ?case unfolding eq using t(1) by (cases "cw (fst ?t) \<le> weight ! unat (snd ?t)") (simp_all only: if_True if_False, blast+)
qed

lemma wrr_call_total:
  assumes ok: "wrr_ok weight n g m" and run: "wrr_run n g m s" and n: "n = unat num"
  shows "\<exists>s'. load_balance_get_weight_index weight num s = Some s' \<and> wrr_run n g m s'"
proof -
  obtain i where i: "i < n" "weight ! i = m" using ok by (auto simp: wrr_ok_def)
  have s: "unat (snd s) < n" using run by (simp add: wrr_run_def)
  have "(unat (snd s) + 1 + (n + i - (unat (snd s) + 1))) mod n = i" using i(1) s by simp
  then show ?thesis using wrr_call_within [OF ok run n, of "n + i - (unat (snd s) + 1)"] i(2) by simp
qed

subsection \<open>Greatest common divisor and maximum of the weights\<close>

lemma smod_nonneg: "0 \<le> a \<Longrightarrow> 0 < b \<Longrightarrow> a smod b = a mod (b :: int)"
  by (simp add: signed_modulo_int_def signed_divide_int_def sgn_if minus_div_mult_eq_mod)

lemma calc_gcd_correct: "0 \<le> a \<Longrightarrow> 0 < b \<Longrightarrow> calc_gcd a b = Some (gcd a b)"
proof (induction a b rule: calc_gcd.induct)
  case (1 a b)
  have c: "a smod b = a mod b" "0 \<le> a mod b" using 1(2,3) by (simp_all add: smod_nonneg)
  show ?case
  proof (cases "a mod b = 0")
    case True
    then have "gcd a b = b" using 1(3) by (simp add: gcd_proj2_iff mod_eq_0_iff_dvd)
    then show ?thesis using 1(3) True by (subst calc_gcd.simps) (simp add: c(1))
  next
    case False
    then have "calc_gcd b (a mod b) = Some (gcd b (a mod b))" using 1 c by (simp add: c(1))
    moreover have "gcd b (a mod b) = gcd a b" by (metis gcd.commute gcd_red_int)
    ultimately show ?thesis using 1(3) False by (subst calc_gcd.simps) (simp add: c(1) Let_def)
  qed
qed

lemma weight_loop_correct:
  assumes "\<forall>i\<in>set is. i < length weight \<and> 0 \<le> weight ! i" "0 < g"
  shows "weight_loop weight is g mx = Some (Gcd (insert g ((!) weight ` set is)), Max (insert mx ((!) weight ` set is)))"
  using assms
proof (induction "is" arbitrary: g mx)
  case (Cons i js)
  let ?w = "weight ! i" and ?S = "(!) weight ` set js"
  have w: "arr_read weight i = Some ?w" "calc_gcd ?w g = Some (gcd ?w g)" "0 < gcd ?w g"
    using Cons.prems by (auto simp: arr_simps calc_gcd_correct)
  have "weight_loop weight js (gcd ?w g) (if ?w > mx then ?w else mx)
    = Some (Gcd (insert (gcd ?w g) ?S), Max (insert (max ?w mx) ?S))"
    using Cons.IH [OF _ w(3)] Cons.prems(1) by (simp add: max_def not_less)
  moreover have "Gcd (insert (gcd ?w g) ?S) = Gcd (insert g (insert ?w ?S))" by (simp add: gcd.assoc gcd.left_commute)
  moreover have "Max (insert (max ?w mx) ?S) = Max (insert mx (insert ?w ?S))"
    by (cases "?S = {}") (simp_all add: max.assoc max.left_commute max.commute)
  ultimately show ?case using w(1,2) by simp
qed simp

lemma set_take_image: "n \<le> length xs \<Longrightarrow> set (take n xs) = (!) xs ` {..<n}"
  by (metis nth_image lessThan_atLeast0)

lemma weight_calc_max_ok:
  assumes "0 < n" "n \<le> length weight" "\<forall>w\<in>set (take n weight). 0 \<le> w" "0 < weight ! 0"
  shows "weight_calc_max weight n = Some (Gcd (set (take n weight)), Max (set (take n weight)))"
proof -
  have "insert (weight ! 0) ((!) weight ` set [1..<n]) = set (take n weight)"
    unfolding set_take_image [OF assms(2)] using assms(1) by (auto simp: image_def) (metis One_nat_def Suc_leI atLeastLessThan_iff gr0I)
  moreover have "\<forall>i\<in>set [1..<n]. i < length weight \<and> 0 \<le> weight ! i"
    using assms(2,3) by (auto simp: set_take_image)
  moreover have "arr_read weight 0 = Some (weight ! 0)" using assms(1,2) by (auto simp: arr_read_def)
  ultimately show ?thesis
    using weight_loop_correct [of "[1..<n]" weight "weight ! 0" "weight ! 0"] assms(4) by (simp add: weight_calc_max_def)
qed

lemma wrr_ok_calc:
  assumes "0 < n" "n \<le> length weight" "\<forall>w\<in>set (take n weight). 0 \<le> w" "0 < weight ! 0"
  shows "wrr_ok weight n (Gcd (set (take n weight))) (Max (set (take n weight)))"
proof -
  let ?S = "set (take n weight)"
  have S: "finite ?S" "?S \<noteq> {}" "weight ! 0 \<in> ?S" using assms(1,2) by (auto simp: set_take_image)
  have "0 < Gcd ?S" using S(3) assms(4) Gcd_dvd [OF S(3)] by (metis Gcd_int_greater_eq_0 dvd_0_left_iff less_irrefl order_le_less)
  moreover have "0 < Max ?S" using S assms(4) by (meson Max_ge less_le_trans)
  moreover have "\<exists>i<n. weight ! i = Max ?S" using Max_in [OF S(1,2)] assms(2) by (auto simp: set_take_image)
  moreover have "\<forall>i<n. weight ! i \<in> ?S" using assms(2) by (auto simp: set_take_image)
  ultimately show ?thesis using assms S(1) by (auto simp: wrr_ok_def)
qed

section \<open>Choosing an interface\<close>

definition intf_is_up :: "intf_status \<Rightarrow> u8 \<Rightarrow> bool" where
  "intf_is_up S x \<longleftrightarrow> admin_status S ! (unat x - 1) \<noteq> 0 \<and> intf_link S ! (unat x - 1) \<noteq> 0"

definition valid_intf :: "u8 \<Rightarrow> bool" where
  "valid_intf x \<longleftrightarrow> 1 \<le> unat x \<and> unat x \<le> MAX_INTERFACE_CNT"

definition status_ok :: "intf_status \<Rightarrow> bool" where
  "status_ok S \<longleftrightarrow> length (admin_status S) = MAX_INTERFACE_CNT \<and> length (intf_link S) = MAX_INTERFACE_CNT"

text \<open>The interfaces of an action.\<close>

definition members :: "sf_action_t \<Rightarrow> u8 list" where
  "members a = take (unat (load_balance_interfaces_num a)) (load_balance_interface_array a)"

definition lb_action_ok :: "sf_action_t \<Rightarrow> bool" where
  "lb_action_ok a \<longleftrightarrow> 0 < load_balance_interfaces_num a \<and> unat (load_balance_interfaces_num a) \<le> MAX_INTERFACE_CNT
     \<and> length (load_balance_interface_array a) = MAX_INTERFACE_CNT \<and> (\<forall>x\<in>set (members a). valid_intf x)
     \<and> (load_balance_mode a = LOAD_BALANCE_MODE_WRR \<longrightarrow> (\<exists>g m.
          wrr_ok (load_balance_weight a) (unat (load_balance_interfaces_num a)) g m
          \<and> wrr_run (unat (load_balance_interfaces_num a)) g m (weight_data a, load_balance_index a)))"

definition lb_arrays_ok :: "lb_arrays \<Rightarrow> bool" where
  "lb_arrays_ok st \<longleftrightarrow> length (interface_array_real_load_balance st) = MAX_INTERFACE_CNT \<and> interface_update_load_balance st \<noteq> 0xFF"

lemma unat_widen:
  "unat (ucast (x :: u8) :: u32) = unat x" "unat (ucast (y :: u16) :: u32) = unat y" "unat (ucast (z :: u32) :: u64) = unat z"
  "unat (ucast (x :: u8) :: u16) = unat x"
  using unsigned_less [of x, where 'a = nat] unsigned_less [of y, where 'a = nat] unsigned_less [of z, where 'a = nat]
  by (simp_all add: unsigned_ucast_eq take_bit_nat_eq_self)

lemma ucast_widen: "(ucast (ucast (x :: u8) :: u16) :: u32) = ucast x"
  by (rule bit_word_eqI) (auto simp: bit_simps dest: bit_imp_le_length)

lemma intf_up_ok:
  assumes "status_ok S" "valid_intf x"
  shows "intf_up S (ucast x) = Some (intf_is_up S x)"
proof -
  have x: "1 \<le> unat x" "unat x \<le> 63" using assms(2) by (simp_all add: valid_intf_def MAX_INTERFACE_CNT_def)
  note u = unat_widen(1) [of x]
  have "(1 :: u32) \<le> ucast x" using x u by (simp add: word_le_nat_alt)
  then have i: "unat ((ucast x :: u32) - 1) = unat x - 1" using u by (simp add: unat_sub)
  have "\<not> (ucast x :: u32) > of_nat MAX_INTERFACE_CNT" using x u by (simp add: word_less_nat_alt MAX_INTERFACE_CNT_def)
  then show ?thesis
    using assms(1) x i by (auto simp: intf_up_def get_interface_admin_status_def get_interface_link_def intf_is_up_def
        status_ok_def arr_read_def MAX_INTERFACE_CNT_def)
qed

text \<open>Only the state of the round robin changes, and the index is inside the number of interfaces.\<close>

definition frozen :: "sf_action_t \<Rightarrow> sf_action_t" where
  "frozen a = a\<lparr>weight_data := \<lparr>cw = 0, gcd_w = 0, mw = 0\<rparr>, load_balance_index := 0\<rparr>"

definition same_action :: "sf_action_t \<Rightarrow> sf_action_t \<Rightarrow> bool" where
  "same_action a a' \<longleftrightarrow> frozen a' = frozen a"

lemma frozen_fields:
  "load_balance_interfaces_num (frozen a) = load_balance_interfaces_num a" "load_balance_interface_array (frozen a) = load_balance_interface_array a"
  "load_balance_mode (frozen a) = load_balance_mode a" "load_balance_weight (frozen a) = load_balance_weight a"
  "ref_counter (frozen a) = ref_counter a" "action_type (frozen a) = action_type a"
  by (simp_all add: frozen_def)

lemma same_actionD:
  assumes "same_action a a'"
  shows "load_balance_interfaces_num a' = load_balance_interfaces_num a" "load_balance_interface_array a' = load_balance_interface_array a"
    "load_balance_mode a' = load_balance_mode a" "load_balance_weight a' = load_balance_weight a" "members a' = members a"
  using assms frozen_fields(1-4) [of a] frozen_fields(1-4) [of a'] by (simp_all add: same_action_def members_def)

lemma unat_mod_num:
  assumes "(num :: u32) \<noteq> 0"
  shows "unat (ucast ((x :: u64) mod ucast num) :: u32) < unat num" "unat (y mod num) < unat num"
proof -
  have "0 < unat num" using assms by (simp add: unat_gt_0)
  then show "unat (y mod num) < unat num" by (simp add: unat_mod)
  have "unat (x mod ucast num) = unat x mod unat num" by (simp add: unat_mod unat_widen)
  then have l: "unat (x mod ucast num) < unat num" using \<open>0 < unat num\<close> by simp
  have "unat (ucast (x mod ucast num) :: u32) = unat (x mod ucast num)"
    using l unsigned_less [of num, where 'a = nat] by (simp add: unsigned_ucast_eq take_bit_nat_eq_self)
  then show "unat (ucast (x mod ucast num) :: u32) < unat num" using l by simp
qed

lemma lb_index_ok:
  assumes num: "num \<noteq> 0"
    and wrr: "load_balance_mode a = LOAD_BALANCE_MODE_WRR \<longrightarrow>
      (\<exists>g m. wrr_ok (load_balance_weight a) (unat num) g m \<and> wrr_run (unat num) g m (weight_data a, load_balance_index a))"
  shows "\<exists>i a'. action_get_load_balance_index a data num = Some (i, a') \<and> unat i < unat num \<and> same_action a a'
    \<and> (load_balance_mode a = LOAD_BALANCE_MODE_WRR \<longrightarrow>
      (\<exists>g m. wrr_ok (load_balance_weight a') (unat num) g m \<and> wrr_run (unat num) g m (weight_data a', load_balance_index a')))"
proof (cases "load_balance_mode a = LOAD_BALANCE_MODE_WRR")
  case True
  then obtain g m where g: "wrr_ok (load_balance_weight a) (unat num) g m" "wrr_run (unat num) g m (weight_data a, load_balance_index a)"
    using wrr by blast
  obtain d i where s: "load_balance_get_weight_index (load_balance_weight a) num (weight_data a, load_balance_index a) = Some (d, i)"
    "wrr_run (unat num) g m (d, i)" using wrr_call_total [OF g refl] by auto
  then show ?thesis using g num True by (auto simp: action_get_load_balance_index_def wrr_run_def same_action_def frozen_def)
next
  case False
  have "\<exists>i a'. action_get_load_balance_index a data num = Some (i, a') \<and> unat i < unat num \<and> same_action a a'"
    using False num unat_mod_num [OF num]
    by (cases "load_balance_mode a") (simp_all add: action_get_load_balance_index_def same_action_def frozen_def Let_def)
  then show ?thesis using False by blast
qed

lemma lb_index_action:
  assumes "lb_action_ok a"
  shows "\<exists>i a'. action_get_load_balance_index a data (ucast (load_balance_interfaces_num a)) = Some (i, a')
    \<and> unat i < unat (load_balance_interfaces_num a) \<and> same_action a a' \<and> lb_action_ok a'
    \<and> arr_read (load_balance_interface_array a') (unat i) = Some (members a ! unat i) \<and> members a ! unat i \<in> set (members a)"
proof -
  let ?n = "load_balance_interfaces_num a" and ?num = "ucast (load_balance_interfaces_num a) :: u32"
  have ok: "0 < ?n" "unat ?n \<le> MAX_INTERFACE_CNT" "length (load_balance_interface_array a) = MAX_INTERFACE_CNT" "\<forall>x\<in>set (members a). valid_intf x"
    using assms by (simp_all add: lb_action_ok_def)
  have u: "unat ?num = unat ?n" by (simp add: unat_widen)
  have "0 < unat ?n" using ok(1) by (simp add: word_less_nat_alt)
  then have nz: "?num \<noteq> 0" using u by (metis unat_0 less_irrefl)
  obtain i a' where i: "action_get_load_balance_index a data ?num = Some (i, a')" "unat i < unat ?n" "same_action a a'"
    "load_balance_mode a = LOAD_BALANCE_MODE_WRR \<longrightarrow>
      (\<exists>g m. wrr_ok (load_balance_weight a') (unat ?n) g m \<and> wrr_run (unat ?n) g m (weight_data a', load_balance_index a'))"
    using lb_index_ok [OF nz, of a data] assms unfolding u lb_action_ok_def by blast
  have "lb_action_ok a'" using ok i(4) same_actionD [OF i(3)] by (simp add: lb_action_ok_def)
  moreover have "unat i < length (load_balance_interface_array a)" using i(2) ok(2,3) by simp
  then have "arr_read (load_balance_interface_array a') (unat i) = Some (members a ! unat i)" "members a ! unat i \<in> set (members a)"
    using i(2) ok(2,3) same_actionD(2) [OF i(3)] by (auto simp: arr_read_def members_def set_take_image)
  ultimately show ?thesis using i(1-3) by blast
qed

lemma lb_retry_ok:
  assumes S: "status_ok S" and a: "lb_action_ok a"
  shows "\<exists>i a'. lb_retry S data (ucast (load_balance_interfaces_num a)) k a = Some (i, a') \<and> same_action a a' \<and> lb_action_ok a'
    \<and> (i = INVALID_INTERFACE_ID \<or> (\<exists>x\<in>set (members a). i = ucast x \<and> intf_is_up S x))"
  using a
proof (induction k arbitrary: a)
  case 0
  then show ?case by (auto simp: same_action_def)
next
  case (Suc k)
  obtain j a1 where j: "action_get_load_balance_index a data (ucast (load_balance_interfaces_num a)) = Some (j, a1)"
    "same_action a a1" "lb_action_ok a1"
    "arr_read (load_balance_interface_array a1) (unat j) = Some (members a ! unat j)" "members a ! unat j \<in> set (members a)"
    using lb_index_action [OF Suc.prems, of data] by blast
  have "valid_intf (members a ! unat j)" using Suc.prems j(5) by (simp add: lb_action_ok_def)
  note up = intf_up_ok [OF S this]
  show ?case
  proof (cases "intf_is_up S (members a ! unat j)")
    case True
    then show ?thesis using j up by auto
  next
    case False
    obtain i a' where i: "lb_retry S data (ucast (load_balance_interfaces_num a1)) k a1 = Some (i, a')" "same_action a1 a'" "lb_action_ok a'"
      "i = INVALID_INTERFACE_ID \<or> (\<exists>x\<in>set (members a1). i = ucast x \<and> intf_is_up S x)" using Suc.IH [OF j(3)] by blast
    have "same_action a a'" using j(2) i(2) by (simp add: same_action_def)
    then show ?thesis using False j(1,4) up i same_actionD [OF j(2)] by auto
  qed
qed

lemma lb_found:
  assumes "valid_intf x"
  shows "(ucast x :: u32) \<noteq> INVALID_INTERFACE_ID"
proof -
  have "unat (ucast x :: u32) \<noteq> 0" unfolding unat_widen using assms by (simp add: valid_intf_def)
  then show ?thesis by (metis INVALID_INTERFACE_ID_def unat_0)
qed

text \<open>In round robin mode the retries pass every interface.\<close>

lemma lb_retry_rr_step:
  assumes S: "status_ok S" and a: "lb_action_ok a" "load_balance_mode a = LOAD_BALANCE_MODE_ROUND_ROBIN"
    "n = unat (load_balance_interfaces_num a)" "unat (load_balance_index a) < n"
    and num: "num = ucast (load_balance_interfaces_num a)" and i: "i = (unat (load_balance_index a) + 1) mod n"
    and a': "a' = a\<lparr>load_balance_index := (load_balance_index a + 1) mod num\<rparr>"
  shows "lb_retry S data num (Suc k) a =
      (if intf_is_up S (members a ! i) then Some (ucast (members a ! i), a') else lb_retry S data num k a')"
    and "unat (load_balance_index a') = i" "i < n" "lb_action_ok a'" "(ucast (members a ! i) :: u32) \<noteq> INVALID_INTERFACE_ID"
proof -
  have u: "n = unat num" using a(3) by (simp add: unat_widen num)
  have n0: "0 < n" "n \<le> MAX_INTERFACE_CNT" using a(1,3) by (auto simp: lb_action_ok_def word_less_nat_alt)
  then have nz: "num \<noteq> 0" using u by (metis unat_0 less_irrefl)
  have "i = (if unat (load_balance_index a) + 1 < n then unat (load_balance_index a) + 1 else 0)"
    unfolding i using a(4) by (auto simp: not_less dest: le_antisym)
  moreover show "i < n" using n0(1) i by simp
  then have "i < 2 ^ 32" using n0(2) by (simp add: MAX_INTERFACE_CNT_def)
  ultimately have ui: "unat ((load_balance_index a + 1) mod num) = i"
    using next_index [OF a(4) u] unat_of_nat32 [of i] by (simp only:)
  then show "unat (load_balance_index a') = i" by (simp add: a')
  have g: "action_get_load_balance_index a data num = Some ((load_balance_index a + 1) mod num, a')" for data
    using nz a(2) by (simp add: action_get_load_balance_index_def a' Let_def)
  have jb: "lb_action_ok a'" "arr_read (load_balance_interface_array a') i = Some (members a ! i)" "members a ! i \<in> set (members a)"
    using lb_index_action [OF a(1), of data] unfolding num [symmetric] g by (auto simp: ui)
  show "lb_action_ok a'" by (rule jb)
  have v: "valid_intf (members a ! i)" using a(1) jb(3) by (simp add: lb_action_ok_def)
  then show "(ucast (members a ! i) :: u32) \<noteq> INVALID_INTERFACE_ID" by (rule lb_found)
  show "lb_retry S data num (Suc k) a =
      (if intf_is_up S (members a ! i) then Some (ucast (members a ! i), a') else lb_retry S data num k a')"
    using g jb(2) ui intf_up_ok [OF S v] by simp
qed

lemma lb_retry_rr:
  assumes S: "status_ok S" and a: "lb_action_ok a" "load_balance_mode a = LOAD_BALANCE_MODE_ROUND_ROBIN"
    "n = unat (load_balance_interfaces_num a)" "unat (load_balance_index a) < n"
    and num: "num = ucast (load_balance_interfaces_num a)"
    and up: "intf_is_up S (members a ! ((unat (load_balance_index a) + 1 + j) mod n))" "j < k"
  shows "\<exists>i a'. lb_retry S data num k a = Some (i, a') \<and> i \<noteq> INVALID_INTERFACE_ID"
  using a num up
proof (induction j arbitrary: a k)
  case 0
  then obtain k' where "k = Suc k'" by (cases k) auto
  then show ?case
    using lb_retry_rr_step(1) [OF S 0(1-5) refl refl, of data k'] lb_retry_rr_step(5) [OF S 0(1-5) refl refl] 0(6) by simp
next
  case (Suc j)
  then obtain k' where k: "k = Suc k'" by (cases k) auto
  define i where "i = (unat (load_balance_index a) + 1) mod n"
  define a' where "a' = a\<lparr>load_balance_index := (load_balance_index a + 1) mod num\<rparr>"
  note st = lb_retry_rr_step(1) [OF S Suc.prems(1-5) i_def a'_def, of data k'] lb_retry_rr_step(2-) [OF S Suc.prems(1-5) i_def a'_def]
  have same: "members a' = members a" "load_balance_mode a' = load_balance_mode a"
    "load_balance_interfaces_num a' = load_balance_interfaces_num a" by (simp_all add: a'_def members_def)
  have "(unat (load_balance_index a') + 1 + j) mod n = (unat (load_balance_index a) + 1 + Suc j) mod n"
    unfolding st(2) i_def by (metis add.assoc add_Suc_shift mod_add_left_eq plus_1_eq_Suc)
  then have "\<exists>i a''. lb_retry S data num k' a' = Some (i, a'') \<and> i \<noteq> INVALID_INTERFACE_ID"
    using st(2-4) same Suc.prems k by (intro Suc.IH) simp_all
  then show ?case using st(1,5) k by auto
qed

lemma lb_collect_ok:
  assumes S: "status_ok S" and "\<forall>i\<in>set is. i < length arr \<and> valid_intf (arr ! i)"
    and "unat (interface_num_real_load_balance st) + length is \<le> length (interface_array_real_load_balance st)"
    and "length (interface_array_real_load_balance st) < 2 ^ 16"
  shows "\<exists>st'. lb_collect S arr is st = Some st'
    \<and> length (interface_array_real_load_balance st') = length (interface_array_real_load_balance st)
    \<and> interface_update_load_balance st' = interface_update_load_balance st
    \<and> take (unat (interface_num_real_load_balance st')) (interface_array_real_load_balance st')
      = take (unat (interface_num_real_load_balance st)) (interface_array_real_load_balance st) @ map ucast (filter (intf_is_up S) (map ((!) arr) is))
    \<and> unat (interface_num_real_load_balance st') = unat (interface_num_real_load_balance st) + length (filter (intf_is_up S) (map ((!) arr) is))"
  using assms(2-4)
proof (induction "is" arbitrary: st)
  case (Cons i js)
  let ?k = "unat (interface_num_real_load_balance st)" and ?xs = "interface_array_real_load_balance st"
  have i: "arr_read arr i = Some (arr ! i)" "intf_up S (ucast (arr ! i)) = Some (intf_is_up S (arr ! i))"
    using Cons.prems(1) intf_up_ok [OF S] by (auto simp: arr_read_def)
  show ?case
  proof (cases "intf_is_up S (arr ! i)")
    case False
    then show ?thesis using Cons.IH [of st] Cons.prems i by auto
  next
    case True
    let ?st = "st\<lparr>interface_array_real_load_balance := ?xs[?k := ucast (arr ! i)], interface_num_real_load_balance := interface_num_real_load_balance st + 1\<rparr>"
    have k: "?k < length ?xs" using Cons.prems(2) by simp
    have u: "unat (interface_num_real_load_balance st + 1) = ?k + 1" using k Cons.prems(3) by (simp add: unat_word_ariths)
    have "lb_collect S arr (i # js) st = lb_collect S arr js ?st" using i True k by (simp add: arr_write_in)
    moreover obtain st' where st': "lb_collect S arr js ?st = Some st'"
      "length (interface_array_real_load_balance st') = length ?xs" "interface_update_load_balance st' = interface_update_load_balance st"
      "take (unat (interface_num_real_load_balance st')) (interface_array_real_load_balance st')
        = take (?k + 1) (?xs[?k := ucast (arr ! i)]) @ map ucast (filter (intf_is_up S) (map ((!) arr) js))"
      "unat (interface_num_real_load_balance st') = ?k + 1 + length (filter (intf_is_up S) (map ((!) arr) js))"
      using Cons.IH [of ?st] Cons.prems u by auto
    ultimately show ?thesis using True k by (simp add: take_Suc_conv_app_nth)
  qed
qed simp

text \<open>The branch for the other modes: the interfaces that are up are collected and indexed again.\<close>

lemma lb_fallback_ok:
  assumes S: "status_ok S" and a: "lb_action_ok a" and st: "lb_arrays_ok st"
  obtains st' where "lb_collect S (load_balance_interface_array a) [0..<unat (load_balance_interfaces_num a)] (st\<lparr>interface_num_real_load_balance := 0\<rparr>) = Some st'"
    "lb_arrays_ok st'" "unat (interface_num_real_load_balance st') = length (filter (intf_is_up S) (members a))"
    "take (unat (interface_num_real_load_balance st')) (interface_array_real_load_balance st') = map ucast (filter (intf_is_up S) (members a))"
proof -
  let ?n = "unat (load_balance_interfaces_num a)" and ?arr = "load_balance_interface_array a"
  have ok: "?n \<le> MAX_INTERFACE_CNT" "length ?arr = MAX_INTERFACE_CNT" "\<forall>x\<in>set (members a). valid_intf x" using a by (simp_all add: lb_action_ok_def)
  have m: "map ((!) ?arr) [0..<?n] = members a" using ok(1,2) by (auto simp: members_def intro: nth_equalityI)
  have v: "\<forall>i\<in>set [0..<?n]. i < length ?arr \<and> valid_intf (?arr ! i)" using ok by (auto simp: members_def set_take_image)
  have len: "length (interface_array_real_load_balance st) = MAX_INTERFACE_CNT" using st by (simp add: lb_arrays_ok_def)
  show thesis
    using lb_collect_ok [OF S v, of "st\<lparr>interface_num_real_load_balance := 0\<rparr>"] ok(1) len st that
    unfolding m by (auto simp: lb_arrays_ok_def MAX_INTERFACE_CNT_def)
qed

lemma lb_interfaces_ok:
  assumes S: "status_ok S" and a: "lb_action_ok a" and st: "lb_arrays_ok st"
  shows "\<exists>i a' st'. load_balance_interfaces S w a st = Some (i, a', st') \<and> same_action a a' \<and> lb_action_ok a' \<and> lb_arrays_ok st'
    \<and> (i = INVALID_INTERFACE_ID \<or> (\<exists>x\<in>set (members a). i = ucast x \<and> intf_is_up S x))
    \<and> (load_balance_mode a \<noteq> LOAD_BALANCE_MODE_WRR \<and> (\<exists>x\<in>set (members a). intf_is_up S x) \<longrightarrow> i \<noteq> INVALID_INTERFACE_ID)"
proof -
  let ?data = "fill_load_balance_data w" and ?n = "unat (load_balance_interfaces_num a)"
  obtain j a1 where j: "action_get_load_balance_index a ?data (ucast (load_balance_interfaces_num a)) = Some (j, a1)"
    "unat j < ?n" "same_action a a1" "lb_action_ok a1"
    "arr_read (load_balance_interface_array a1) (unat j) = Some (members a ! unat j)" "members a ! unat j \<in> set (members a)"
    using lb_index_action [OF a, of ?data] by blast
  let ?x = "members a ! unat j"
  have valid: "\<forall>x\<in>set (members a). valid_intf x" using a by (simp add: lb_action_ok_def)
  note up = intf_up_ok [OF S valid [rule_format, OF j(6)]]
  note same = same_actionD [OF j(3)]
  consider "intf_is_up S ?x" | "\<not> intf_is_up S ?x" "load_balance_mode a = LOAD_BALANCE_MODE_ROUND_ROBIN \<or> load_balance_mode a = LOAD_BALANCE_MODE_WRR"
    | "\<not> intf_is_up S ?x" "load_balance_mode a \<noteq> LOAD_BALANCE_MODE_ROUND_ROBIN" "load_balance_mode a \<noteq> LOAD_BALANCE_MODE_WRR" by blast
  then show ?thesis
  proof cases
    case 1
    then have "load_balance_interfaces S w a st = Some (ucast ?x, a1, st)" using j up by (simp add: load_balance_interfaces_def)
    then show ?thesis using j(3,4,6) 1 st lb_found valid by blast
  next
    case 2
    obtain i a' where r: "lb_retry S ?data (ucast (load_balance_interfaces_num a1)) MAX_LOAD_BALANCE_NODE a1 = Some (i, a')"
      "same_action a1 a'" "lb_action_ok a'" "i = INVALID_INTERFACE_ID \<or> (\<exists>x\<in>set (members a1). i = ucast x \<and> intf_is_up S x)"
      using lb_retry_ok [OF S j(4)] by blast
    have run: "load_balance_interfaces S w a st = Some (i, a', st)"
      using j(1,5) up 2 r(1) same by (simp add: load_balance_interfaces_def)
    have live: "i \<noteq> INVALID_INTERFACE_ID" if rr: "load_balance_mode a \<noteq> LOAD_BALANCE_MODE_WRR" and x: "\<exists>x\<in>set (members a). intf_is_up S x"
    proof -
      have n: "0 < ?n" "?n \<le> MAX_INTERFACE_CNT" using a by (auto simp: lb_action_ok_def word_less_nat_alt)
      have nz: "(ucast (load_balance_interfaces_num a) :: u32) \<noteq> 0" using n(1) by (metis unat_widen(1) unat_0 less_irrefl)
      have mode: "load_balance_mode a1 = LOAD_BALANCE_MODE_ROUND_ROBIN" using 2(2) rr same by simp
      have "load_balance_index a1 = j"
        using j(1) 2(2) rr nz by (auto simp: action_get_load_balance_index_def Let_def)
      then have idx: "unat (load_balance_index a1) < ?n" using j(2) by simp
      obtain k where k: "k < ?n" "intf_is_up S (members a ! k)" using x by (auto simp: in_set_conv_nth members_def)
      define i where "i = unat (load_balance_index a1) + 1"
      define t where "t = (k + ?n - i) mod ?n"
      have "i \<le> ?n" using idx by (simp add: i_def)
      then have "(i + t) mod ?n = k" using k(1) by (simp add: t_def mod_add_right_eq)
      then have "intf_is_up S (members a1 ! ((i + t) mod ?n))" using k(2) same by simp
      moreover have "t < ?n" using n(1) by (simp add: t_def)
      then have "t < MAX_LOAD_BALANCE_NODE" using n(2) by (simp add: MAX_LOAD_BALANCE_NODE_def MAX_INTERFACE_CNT_def)
      ultimately show ?thesis
        using lb_retry_rr [OF S j(4) mode _ idx refl, of t MAX_LOAD_BALANCE_NODE ?data] r(1) same by (auto simp: i_def)
    qed
    have "same_action a a'" using j(3) r(2) by (simp add: same_action_def)
    then show ?thesis using run r(3,4) st same live by auto
  next
    case 3
    obtain st1 where c: "lb_collect S (load_balance_interface_array a1) [0..<unat (load_balance_interfaces_num a1)] (st\<lparr>interface_num_real_load_balance := 0\<rparr>) = Some st1"
      "lb_arrays_ok st1" "unat (interface_num_real_load_balance st1) = length (filter (intf_is_up S) (members a1))"
      "take (unat (interface_num_real_load_balance st1)) (interface_array_real_load_balance st1) = map ucast (filter (intf_is_up S) (members a1))"
      using lb_fallback_ok [OF S j(4) st] by blast
    let ?st = "st1\<lparr>interface_update_load_balance := 1\<rparr>" and ?num = "ucast (interface_num_real_load_balance st1) :: u32"
    have st': "lb_arrays_ok ?st" using c(2) by (simp add: lb_arrays_ok_def)
    have upd: "interface_update_load_balance st \<noteq> 0xFF" using st by (simp add: lb_arrays_ok_def)
    show ?thesis
    proof (cases "interface_num_real_load_balance st1 = 0")
      case True
      then have "load_balance_interfaces S w a st = Some (INVALID_INTERFACE_ID, a1, ?st)"
        using j(1,5) up 3 c(1) upd same by (simp add: load_balance_interfaces_def unat_widen)
      moreover have "filter (intf_is_up S) (members a) = []" using True c(3) same by simp
      ultimately show ?thesis using j(3,4) st' by (auto simp: filter_empty_conv)
    next
      case False
      have "unat (interface_num_real_load_balance st1) \<noteq> 0" using False by (simp add: unat_eq_0)
      then have nz: "?num \<noteq> 0" by (metis unat_widen(2) unat_0)
      have "load_balance_mode a1 \<noteq> LOAD_BALANCE_MODE_WRR" using 3(3) same by simp
      then obtain i a' where i: "action_get_load_balance_index a1 ?data ?num = Some (i, a')" "unat i < unat ?num" "same_action a1 a'"
        using lb_index_ok [OF nz, of a1 ?data] by blast
      let ?ys = "filter (intf_is_up S) (members a)"
      have len: "unat i < length ?ys" using i(2) c(3) same by (simp add: unat_widen)
      then have "interface_array_real_load_balance st1 ! unat i = ucast (?ys ! unat i)"
        using c(3,4) same by (metis nth_map nth_take)
      moreover have "unat i < length (interface_array_real_load_balance st1)"
        using c(4) same len by (metis length_map length_take min_less_iff_conj)
      ultimately have rd: "arr_read (interface_array_real_load_balance ?st) (unat i) = Some (ucast (?ys ! unat i))" by (simp add: arr_read_def)
      have y: "?ys ! unat i \<in> set (members a)" "intf_is_up S (?ys ! unat i)" using nth_mem [OF len] by auto
      have "lb_action_ok a'" using j(4) 3(3) same same_actionD [OF i(3)] by (simp add: lb_action_ok_def)
      moreover have "load_balance_interfaces S w a st = Some (ucast (ucast (?ys ! unat i) :: u16), a', ?st)"
        using j(1,5) up 3 c(1) upd same False i(1) rd by (simp add: load_balance_interfaces_def unat_widen)
      moreover have "(ucast (ucast (?ys ! unat i) :: u16) :: u32) = ucast (?ys ! unat i)" by (rule ucast_widen)
      moreover have "same_action a a'" using j(3) i(3) by (simp add: same_action_def)
      ultimately show ?thesis using y st' lb_found valid by auto
    qed
  qed
qed

section \<open>Properties\<close>

text \<open>C32: Weights.  \<open>weight_calc_max\<close> of configured weights gives their greatest common divisor and their maximum;
  it traps on a division by zero exactly when the first weight is zero and there is a second one.\<close>

theorem weight_calc_max_correct:
  assumes "0 < n" "n \<le> length weight" "\<forall>w\<in>set (take n weight). 0 \<le> w"
  shows "weight_calc_max weight n =
    (if weight ! 0 = 0 \<and> 1 < n then None else Some (Gcd (set (take n weight)), Max (set (take n weight))))"
proof (cases "weight ! 0 = 0")
  case False
  have "weight ! 0 \<in> set (take n weight)" using assms(1,2) by (auto simp: set_take_image)
  then have "0 < weight ! 0" using False assms(3) by force
  then show ?thesis using weight_calc_max_ok [OF assms] False by simp
next
  case True
  have r: "arr_read weight 0 = Some 0" using assms(1,2) True by (auto simp: arr_read_def)
  show ?thesis
  proof (cases "1 < n")
    case True
    then have "arr_read weight 1 = Some (weight ! 1)" "[1..<n] = 1 # [Suc 1..<n]" using assms(2) by (simp_all add: arr_read_def upt_conv_Cons)
    then show ?thesis using r True \<open>weight ! 0 = 0\<close> calc_gcd.simps [of "weight ! 1" 0] by (simp add: weight_calc_max_def)
  next
    case False
    then have "n = 1" using assms(1) by simp
    then have "take n weight = [0]" using assms(2) True by (cases weight) auto
    then show ?thesis using r \<open>n = 1\<close> by (simp add: weight_calc_max_def)
  qed
qed

theorem weight_calc_max_correct_witness:
  "weight_calc_max [4, 6, 10] 3 = Some (2, 10) \<and> weight_calc_max [0, 6] 2 = None"
proof -
  have "weight_calc_max [4, 6, 10] 3 = Some (Gcd {4, 6, 10}, Max {4, 6, 10 :: int})"
    using weight_calc_max_correct [of 3 "[4, 6, 10]"] by simp
  moreover have "Gcd {4, 6, 10 :: int} = 2" by (simp add: gcd_non_0_int)
  ultimately show ?thesis using weight_calc_max_correct [of 2 "[0, 6]"] by simp
qed

text \<open>
  What the calls do is decided by the sequence of turns: the chosen ones among the first \<open>k\<close> are returned in
  order, and further calls go on from the last turn.
\<close>

definition turn_chosen :: "int list \<Rightarrow> load_balance_weight_t \<times> u32 \<Rightarrow> bool" where
  "turn_chosen weight s \<longleftrightarrow> cw (fst s) \<le> weight ! unat (snd s)"

lemma wrr_calls_turn:
  assumes "unat (snd (wrr_turn num s)) < length weight" "0 < l"
  shows "\<exists>is. length is \<le> 1 \<and> wrr_calls weight num (length is + l) s
    = do { (js, s') \<leftarrow> wrr_calls weight num l (wrr_turn num s); Some (is @ js, s') }"
proof -
  let ?t = "wrr_turn num s"
  have eq: "load_balance_get_weight_index weight num s =
      (if turn_chosen weight ?t then Some ?t else load_balance_get_weight_index weight num ?t)"
    using assms(1) by (subst load_balance_get_weight_index.simps) (simp add: Let_def arr_read_in turn_chosen_def)
  show ?thesis
  proof (cases "turn_chosen weight ?t")
    case True
    then show ?thesis using eq by (intro exI [of _ "[unat (snd ?t)]"]) simp
  next
    case False
    obtain l' where "l = Suc l'" using assms(2) by (cases l) auto
    then show ?thesis using eq False
      by (intro exI [of _ "[]"]) (cases "wrr_calls weight num l ?t"; simp)
  qed
qed

lemma wrr_calls_turns:
  assumes ok: "wrr_ok weight n g m" and run: "wrr_run n g m s" and n: "n = unat num" and l: "0 < l"
  shows "\<exists>is. wrr_calls weight num (length is + l) s
    = do { (js, s') \<leftarrow> wrr_calls weight num l ((wrr_turn num ^^ k) s); Some (is @ js, s') }"
  using run
proof (induction k arbitrary: s)
  case 0
  show ?case by (rule exI [of _ "[]"]) (cases "wrr_calls weight num l s"; simp)
next
  case (Suc k)
  note t = wrr_turn_run [OF ok Suc.prems n]
  obtain "is" where later: "wrr_calls weight num (length is + l) (wrr_turn num s)
      = do { (js, s') \<leftarrow> wrr_calls weight num l ((wrr_turn num ^^ k) (wrr_turn num s)); Some (is @ js, s') }"
    using Suc.IH [OF t(1)] by blast
  have "unat (snd (wrr_turn num s)) < length weight" using t(1) ok by (auto simp: wrr_run_def wrr_ok_def)
  from wrr_calls_turn [OF this, of "length is + l"] l
  obtain i where i: "wrr_calls weight num (length i + (length is + l)) s
      = do { (js, s') \<leftarrow> wrr_calls weight num (length is + l) (wrr_turn num s); Some (i @ js, s') }" by auto
  show ?case
  proof (rule exI [of _ "i @ is"])
    show "wrr_calls weight num (length (i @ is) + l) s
      = do { (js, s') \<leftarrow> wrr_calls weight num l ((wrr_turn num ^^ Suc k) s); Some ((i @ is) @ js, s') }"
      unfolding funpow_Suc_right comp_def using i later
      by (cases "wrr_calls weight num l ((wrr_turn num ^^ k) (wrr_turn num s))") (auto simp: add.assoc)
  qed
qed

text \<open>The turns reach the last position on the highest level; when the next sum overflows, the running weight turns negative
  and the next \<open>n\<close> calls choose every index once.\<close>

lemma wrr_turns_pos:
  assumes ok: "wrr_ok weight n g m" and n: "n = unat num" and m: "m < 2 ^ 31" and p: "p + k < circle n g m"
  shows "(wrr_turn num ^^ k) (wrr_state n g m p) = wrr_state n g m (p + k)"
  using p
proof (induction k)
  case (Suc k)
  have n32: "n < 2 ^ 32" using n unsigned_less [of num, where 'a = nat] by simp
  have lt: "p + k < circle n g m" using Suc.prems by simp
  note st = wrr_pos_state [OF ok lt n32]
  have "wrr_turn num (wrr_state n g m (p + k)) = wrr_state n g m ((p + k + 1) mod circle n g m)"
    using wrr_turn_state [OF ok st(2) n m] Suc.prems unfolding st(1) by simp
  then show ?case using Suc by simp
qed simp

lemma wrr_top:
  assumes ok: "wrr_ok weight n g m" and inv: "wrr_inv n g m s" "cw (fst s) = 0" and n: "n = unat num" and m: "m < 2 ^ 31"
  shows "\<exists>k. (wrr_turn num ^^ k) s = (\<lparr>cw = m, gcd_w = g, mw = m\<rparr>, of_nat (n - 1))"
proof -
  let ?T = "circle n g m" and ?q = "(wrr_pos n g m s + 1) mod circle n g m"
  have T: "0 < ?T" by (rule circle_pos [OF ok])
  have g: "0 < n" "0 < g" "g dvd m" "0 < m" using ok by (auto simp: wrr_ok_def)
  have t: "wrr_turn num s = wrr_state n g m ?q" by (rule wrr_turn_state [OF ok inv(1) n m]) (simp add: inv(2))
  have q: "?q < ?T" using T by simp
  then have "(wrr_turn num ^^ (?T - 1 - ?q)) (wrr_state n g m ?q) = wrr_state n g m (?T - 1)"
    using wrr_turns_pos [OF ok n m, of ?q "?T - 1 - ?q"] by simp
  then have "(wrr_turn num ^^ Suc (?T - 1 - ?q)) s = wrr_state n g m (?T - 1)" unfolding funpow_Suc_right comp_def t .
  moreover have "wrr_state n g m (?T - 1) = (\<lparr>cw = m, gcd_w = g, mw = m\<rparr>, of_nat (n - 1))"
  proof -
    let ?L = "nat (m div g)"
    have L: "0 < ?L" using T by (simp add: circle_def)
    have "?T - 1 = (?L - 1) * n + (n - 1)" using L g(1) by (cases ?L) (simp_all add: circle_def)
    then have c: "(?T - 1) div n = ?L - 1" "(?T - 1) mod n = n - 1" using circle_coord [of "n - 1" n "?L - 1"] g(1) by simp_all
    have "int (?L - 1) + 1 = m div g" using L by linarith
    then show ?thesis using c g(3) by (simp add: wrr_state_def)
  qed
  ultimately show ?thesis by (intro exI) (rule trans)
qed

lemma wrr_row:
  assumes n: "n = unat num" "n \<le> length weight" and pos: "\<forall>i<n. c \<le> weight ! i" and c: "c < 0" and i: "i < n"
  shows "wrr_calls weight num (n - 1 - i) (\<lparr>cw = c, gcd_w = g, mw = m\<rparr>, of_nat i)
    = Some ([i + 1..<n], \<lparr>cw = c, gcd_w = g, mw = m\<rparr>, of_nat (n - 1))"
  using i
proof (induction "n - 1 - i" arbitrary: i)
  case 0
  then have i: "n - 1 = i" "n - 1 - i = 0" "[i + 1..<n] = []" by simp_all
  show ?case unfolding i(2,3) wrr_calls.simps unfolding i(1) by (rule refl)
next
  case (Suc k)
  have n32: "n < 2 ^ 32" using n unsigned_less [of num, where 'a = nat] by simp
  have i: "i + 1 < n" using Suc.hyps(2) by simp
  have small: "unat (of_nat j :: u32) = j" if "j < n" for j using that n32 by (simp add: unat_of_nat)
  have "i < n" using i by simp
  note u = small [OF this] small [OF i]
  have nx: "(of_nat i + 1) mod num = of_nat (i + 1)" using next_index [of "of_nat i" n num] n(1) i u by simp
  have "(of_nat (i + 1) :: u32) \<noteq> 0" using u(2) by (metis Suc_eq_plus1 nat.distinct(1) unat_0)
  then have turn: "wrr_turn num (\<lparr>cw = c, gcd_w = g, mw = m\<rparr>, of_nat i) = (\<lparr>cw = c, gcd_w = g, mw = m\<rparr>, of_nat (i + 1))"
    using c nx by (simp add: wrr_turn_def Let_def)
  have "arr_read weight (i + 1) = Some (weight ! (i + 1))" "c \<le> weight ! (i + 1)" using i n(2) pos by (simp_all add: arr_read_in)
  then have call: "load_balance_get_weight_index weight num (\<lparr>cw = c, gcd_w = g, mw = m\<rparr>, of_nat i)
      = Some (\<lparr>cw = c, gcd_w = g, mw = m\<rparr>, of_nat (i + 1))"
    using u(2) by (subst load_balance_get_weight_index.simps) (simp only: turn Let_def snd_conv fst_conv Option.bind.bind_lunit load_balance_weight_t.simps if_True)
  have k: "n - 1 - i = Suc (n - 1 - (i + 1))" "[i + 1..<n] = (i + 1) # [i + 1 + 1..<n]" using i by (simp_all add: upt_conv_Cons)
  have "wrr_calls weight num (n - 1 - (i + 1)) (\<lparr>cw = c, gcd_w = g, mw = m\<rparr>, of_nat (i + 1))
    = Some ([i + 1 + 1..<n], \<lparr>cw = c, gcd_w = g, mw = m\<rparr>, of_nat (n - 1))" using Suc.hyps(1) [of "i + 1"] Suc.hyps(2) i by simp
  then show ?case unfolding k by (simp only: wrr_calls.simps call Option.bind.bind_lunit prod.case snd_conv u(2))
qed

lemma wrr_overflow:
  assumes ok: "wrr_ok weight n g m" and n: "n = unat num" and m: "m < 2 ^ 31" and over: "\<not> wrr_room g m"
  shows "wrr_calls weight num n (\<lparr>cw = m, gcd_w = g, mw = m\<rparr>, of_nat (n - 1))
    = Some ([0..<n], \<lparr>cw = m + g - 2 ^ 32, gcd_w = g, mw = m\<rparr>, of_nat (n - 1))"
proof -
  have g: "0 < n" "n \<le> length weight" "0 < g" "g \<le> m" "\<forall>i<n. 0 \<le> weight ! i" using ok zdvd_imp_le [of g m] by (auto simp: wrr_ok_def)
  let ?c = "m + g - 2 ^ 32"
  have c: "?c < 0" "int32 (m + g) = ?c" using m g(4) over by (simp_all add: wrr_room_def int32_over)
  have n32: "n < 2 ^ 32" using n unsigned_less [of num, where 'a = nat] by simp
  have nx: "(of_nat (n - 1) + 1) mod num = 0" using next_index [of "of_nat (n - 1)" n num] n g(1) n32 by (simp add: unat_of_nat)
  have turn: "wrr_turn num (\<lparr>cw = m, gcd_w = g, mw = m\<rparr>, of_nat (n - 1)) = (\<lparr>cw = ?c, gcd_w = g, mw = m\<rparr>, 0)"
    using c nx g m by (simp add: wrr_turn_def Let_def)
  have "arr_read weight 0 = Some (weight ! 0)" "?c \<le> weight ! 0" using g c(1) by (auto simp: arr_read_def intro: order_trans [OF less_imp_le])
  then have call: "load_balance_get_weight_index weight num (\<lparr>cw = m, gcd_w = g, mw = m\<rparr>, of_nat (n - 1))
      = Some (\<lparr>cw = ?c, gcd_w = g, mw = m\<rparr>, 0)"
    by (subst load_balance_get_weight_index.simps) (simp only: turn Let_def snd_conv fst_conv unat_0 Option.bind.bind_lunit load_balance_weight_t.simps if_True)
  have pos: "\<forall>i<n. ?c \<le> weight ! i" using g(5) c(1) by (meson less_imp_le order_trans)
  have row: "wrr_calls weight num (n - 1) (\<lparr>cw = ?c, gcd_w = g, mw = m\<rparr>, 0) = Some ([1..<n], \<lparr>cw = ?c, gcd_w = g, mw = m\<rparr>, of_nat (n - 1))"
    using wrr_row [OF n g(2) pos c(1) g(1)] by simp
  have upt: "[0..<n] = 0 # [1..<n]" and n1: "Suc (n - 1) = n" using g(1) by (simp_all add: upt_conv_Cons)
  have "wrr_calls weight num (Suc (n - 1)) (\<lparr>cw = m, gcd_w = g, mw = m\<rparr>, of_nat (n - 1))
    = Some (0 # [1..<n], \<lparr>cw = ?c, gcd_w = g, mw = m\<rparr>, of_nat (n - 1))"
    by (simp only: wrr_calls.simps(2) call row Option.bind.bind_lunit prod.case snd_conv unat_0)
  then show ?thesis unfolding n1 upt .
qed

text \<open>C9: Fairness of weighted round robin.  After an action with weights has been stored, consecutive packets are
  spread by weight, as long as the largest weight and the greatest common divisor of the weights add up to less than \<open>2 ^ 31\<close>: among as many
  calls as the sum of the weights divided by the divisor, every interface index is chosen exactly its weight
  divided by the divisor times, all calls return, the running weight never exceeds the largest weight, and the same
  holds again for the next calls.  If the two add up to more, the 32-bit running weight overflows: after some calls it is
  negative, and the next packets are dealt out to the interfaces in turn, once each, whatever their weights.\<close>

theorem wrr_fair:
  assumes put: "put_action_config (Some actions) a i = Some (0, Some actions')" and mode: "load_balance_mode a = LOAD_BALANCE_MODE_WRR"
    and n: "n = unat (load_balance_interfaces_num a)" "0 < n" "n \<le> length (load_balance_weight a)" "unat (load_balance_index a) < n"
    and W: "\<forall>w\<in>set (take n (load_balance_weight a)). 0 \<le> w \<and> w < 2 ^ 31" "0 < load_balance_weight a ! 0"
    and b: "b = actions' ! unat (i - 1)" "g = Gcd (set (take n (load_balance_weight a)))" "m = Max (set (take n (load_balance_weight a)))"
  shows "if m + g < 2 ^ 31
    then \<exists>is d j. wrr_calls (load_balance_weight b) (ucast (load_balance_interfaces_num b))
          (\<Sum>k<n. nat (load_balance_weight a ! k div g)) (weight_data b, load_balance_index b) = Some (is, d, j)
        \<and> (\<forall>k<n. count_list is k = nat (load_balance_weight a ! k div g)) \<and> set is \<subseteq> {..<n}
        \<and> cw d \<le> m \<and> wrr_inv n g m (d, j)
    else \<exists>k is d j. wrr_calls (load_balance_weight b) (ucast (load_balance_interfaces_num b)) (k + n) (weight_data b, load_balance_index b)
          = Some (is @ [0..<n], d, j) \<and> cw d < 0"
proof -
  let ?num = "ucast (load_balance_interfaces_num a) :: u32"
  have W0: "\<forall>w\<in>set (take n (load_balance_weight a)). 0 \<le> w" using W(1) by blast
  have calc: "weight_calc_max (load_balance_weight a) n = Some (g, m)" unfolding b(2,3) by (rule weight_calc_max_ok [OF n(2,3) W0 W(2)])
  have ok: "wrr_ok (load_balance_weight a) n g m" unfolding b(2,3) by (rule wrr_ok_calc [OF n(2,3) W0 W(2)])
  obtain j where "j < n" "load_balance_weight a ! j = m" using ok by (auto simp: wrr_ok_def)
  then have "m \<in> set (take n (load_balance_weight a))" using n(3) by (auto simp: set_take_image)
  then have m: "m < 2 ^ 31" using W(1) by blast
  have "unat (i - 1) < length actions" "b = a\<lparr>weight_data := \<lparr>cw = 0, gcd_w = g, mw = m\<rparr>, ref_counter := ref_counter a + 1\<rparr>"
    using put mode calc b(1) n(1) by (auto simp: put_action_config_def bind_eq_Some_conv split: if_splits dest!: arr_write_SomeD)
  then have fields: "load_balance_weight b = load_balance_weight a" "load_balance_interfaces_num b = load_balance_interfaces_num a"
    "weight_data b = \<lparr>cw = 0, gcd_w = g, mw = m\<rparr>" "load_balance_index b = load_balance_index a" by simp_all
  let ?s = "(weight_data b, load_balance_index b)"
  have inv: "wrr_inv n g m ?s" "cw (fst ?s) = 0" using n(4) by (simp_all add: wrr_inv_def fields)
  have num: "n = unat ?num" by (simp add: n(1) unat_widen)
  show ?thesis
  proof (cases "m + g < 2 ^ 31")
    case True
    then have "wrr_room g m" by (simp add: wrr_room_def)
    then obtain "is" s' where r: "wrr_calls (load_balance_weight a) ?num (\<Sum>k<n. nat (load_balance_weight a ! k div g)) ?s = Some (is, s')"
      "wrr_inv n g m s'" "\<forall>k<n. count_list is k = nat (load_balance_weight a ! k div g)" "set is \<subseteq> {..<n}"
      using wrr_round [OF ok inv(1) num] by blast
    have "cw (fst s') \<le> m" using wrr_inv_run [OF ok r(2)] by (simp add: wrr_run_def)
    then show ?thesis unfolding if_P [OF True] using r unfolding fields(1,2) by (cases s') auto
  next
    case False
    then have "\<not> wrr_room g m" by (simp add: wrr_room_def)
    note over = wrr_overflow [OF ok num m this]
    obtain k where k: "(wrr_turn ?num ^^ k) ?s = (\<lparr>cw = m, gcd_w = g, mw = m\<rparr>, of_nat (n - 1))" using wrr_top [OF ok inv num m] by blast
    from wrr_calls_turns [OF ok wrr_inv_run [OF ok inv(1)] num n(2), of k]
    obtain "is" where "wrr_calls (load_balance_weight a) ?num (length is + n) ?s
        = Some (is @ [0..<n], \<lparr>cw = m + g - 2 ^ 32, gcd_w = g, mw = m\<rparr>, of_nat (n - 1))"
      unfolding k over by auto
    moreover have "g \<le> m" using ok zdvd_imp_le [of g m] by (auto simp: wrr_ok_def)
    then have "m + g - 2 ^ 32 < 0" using m by simp
    ultimately show ?thesis unfolding if_not_P [OF False] fields(1,2)
      by (intro exI [of _ "length is"] exI [of _ "is"] exI [of _ "\<lparr>cw = m + g - 2 ^ 32, gcd_w = g, mw = m\<rparr>"] exI [of _ "of_nat (n - 1)"]) simp
  qed
qed

definition ex_wrr :: sf_action_t where
  "ex_wrr = zero_action\<lparr>action_type := 3, load_balance_interfaces_num := 3, load_balance_mode := LOAD_BALANCE_MODE_WRR,
     load_balance_interface_array := [1, 2, 3] @ replicate 60 0, load_balance_weight := [4, 2, 6] @ replicate 61 0\<rparr>"

lemma ex_wrr_put:
  "put_action_config (Some [zero_action]) ex_wrr 1 = Some (0, Some [ex_wrr\<lparr>weight_data := \<lparr>cw = 0, gcd_w = 2, mw = 6\<rparr>, ref_counter := 1\<rparr>])"
proof -
  have "Gcd {2, 4, 6 :: int} = 2" by (simp add: gcd_non_0_int)
  then have "weight_calc_max (load_balance_weight ex_wrr) 3 = Some (2, 6)"
    using weight_calc_max_ok [of 3 "load_balance_weight ex_wrr"] by (simp add: ex_wrr_def insert_commute)
  then show ?thesis
    by (simp add: put_action_config_def is_valid_action_id_def MAX_ACTION_NUM_def ex_wrr_def zero_action_def arr_write_def)
qed

definition ex_wrr_big :: sf_action_t where
  "ex_wrr_big = ex_wrr\<lparr>load_balance_interfaces_num := 2, load_balance_weight := [715827883, 1431655766] @ replicate 62 0\<rparr>"

lemma ex_wrr_big_put:
  "put_action_config (Some [zero_action]) ex_wrr_big 1
    = Some (0, Some [ex_wrr_big\<lparr>weight_data := \<lparr>cw = 0, gcd_w = 715827883, mw = 1431655766\<rparr>, ref_counter := 1\<rparr>])"
proof -
  have "Gcd {715827883, 1431655766 :: int} = 715827883" by (simp add: gcd_proj1_iff)
  then have "weight_calc_max (load_balance_weight ex_wrr_big) 2 = Some (715827883, 1431655766)"
    using weight_calc_max_ok [of 2 "load_balance_weight ex_wrr_big"] by (simp add: ex_wrr_big_def)
  then show ?thesis
    by (simp add: put_action_config_def is_valid_action_id_def MAX_ACTION_NUM_def ex_wrr_big_def ex_wrr_def zero_action_def arr_write_def)
qed

theorem wrr_fair_witness:
  "(\<exists>is d j. wrr_calls ([4, 2, 6] @ replicate 61 0) 3 6 (\<lparr>cw = 0, gcd_w = 2, mw = 6\<rparr>, 0) = Some (is, d, j)
    \<and> count_list is 0 = 2 \<and> count_list is 1 = 1 \<and> count_list is 2 = 3)
   \<and> (\<exists>k is d j. wrr_calls ([715827883, 1431655766] @ replicate 62 0) 2 (k + 2) (\<lparr>cw = 0, gcd_w = 715827883, mw = 1431655766\<rparr>, 0)
        = Some (is @ [0, 1], d, j) \<and> cw d < 0)"
proof
  let ?b = "ex_wrr\<lparr>weight_data := \<lparr>cw = 0, gcd_w = 2, mw = 6\<rparr>, ref_counter := 1\<rparr>"
  have e: "load_balance_mode ex_wrr = LOAD_BALANCE_MODE_WRR" "3 = unat (load_balance_interfaces_num ex_wrr)"
    "3 \<le> length (load_balance_weight ex_wrr)" "unat (load_balance_index ex_wrr) < 3"
    "\<forall>w\<in>set (take 3 (load_balance_weight ex_wrr)). 0 \<le> w \<and> w < 2 ^ 31" "0 < load_balance_weight ex_wrr ! 0"
    by (simp_all add: ex_wrr_def zero_action_def)
  have g: "2 = Gcd (set (take 3 (load_balance_weight ex_wrr)))" "6 = Max (set (take 3 (load_balance_weight ex_wrr)))"
    by (simp_all add: ex_wrr_def gcd_non_0_int)
  have b: "?b = [?b] ! unat (1 - 1 :: u32)" by simp
  have sum: "(\<Sum>k<3. nat (load_balance_weight ex_wrr ! k div 2)) = 6"
    by (simp add: ex_wrr_def eval_nat_numeral)
  obtain "is" d j where r: "wrr_calls (load_balance_weight ?b) (ucast (load_balance_interfaces_num ?b)) 6 (weight_data ?b, load_balance_index ?b) = Some (is, d, j)"
    "\<forall>k<3. count_list is k = nat (load_balance_weight ex_wrr ! k div 2)"
    using wrr_fair [OF ex_wrr_put e(1,2) _ e(3-6) b g, unfolded sum] by auto
  have "count_list is 0 = 2" "count_list is 1 = 1" "count_list is 2 = 3" using r(2) by (simp_all add: ex_wrr_def)
  then show "\<exists>is d j. wrr_calls ([4, 2, 6] @ replicate 61 0) 3 6 (\<lparr>cw = 0, gcd_w = 2, mw = 6\<rparr>, 0) = Some (is, d, j)
    \<and> count_list is 0 = 2 \<and> count_list is 1 = 1 \<and> count_list is 2 = 3" using r(1) by (simp add: ex_wrr_def zero_action_def)
next
  let ?b = "ex_wrr_big\<lparr>weight_data := \<lparr>cw = 0, gcd_w = 715827883, mw = 1431655766\<rparr>, ref_counter := 1\<rparr>"
  have e: "load_balance_mode ex_wrr_big = LOAD_BALANCE_MODE_WRR" "2 = unat (load_balance_interfaces_num ex_wrr_big)"
    "2 \<le> length (load_balance_weight ex_wrr_big)" "unat (load_balance_index ex_wrr_big) < 2"
    "\<forall>w\<in>set (take 2 (load_balance_weight ex_wrr_big)). 0 \<le> w \<and> w < 2 ^ 31" "0 < load_balance_weight ex_wrr_big ! 0"
    by (simp_all add: ex_wrr_big_def ex_wrr_def zero_action_def)
  have g: "715827883 = Gcd (set (take 2 (load_balance_weight ex_wrr_big)))" "1431655766 = Max (set (take 2 (load_balance_weight ex_wrr_big)))"
    by (simp_all add: ex_wrr_big_def gcd_proj1_iff)
  have b: "?b = [?b] ! unat (1 - 1 :: u32)" by simp
  have over: "\<not> 1431655766 + 715827883 < (2 ^ 31 :: int)" and row: "[0..<2] = [0, 1]" by (simp_all add: upt_rec)
  have num: "(ucast (load_balance_interfaces_num ?b) :: u32) = 2" "load_balance_weight ?b = [715827883, 1431655766] @ replicate 62 0"
    "(weight_data ?b, load_balance_index ?b) = (\<lparr>cw = 0, gcd_w = 715827883, mw = 1431655766\<rparr>, 0)"
    by (simp_all add: ex_wrr_big_def ex_wrr_def zero_action_def)
  show "\<exists>k is d j. wrr_calls ([715827883, 1431655766] @ replicate 62 0) 2 (k + 2) (\<lparr>cw = 0, gcd_w = 715827883, mw = 1431655766\<rparr>, 0)
        = Some (is @ [0, 1], d, j) \<and> cw d < 0"
    using wrr_fair [OF ex_wrr_big_put e(1,2) _ e(3-6) b g, unfolded if_not_P [OF over] row num] by simp
qed

text \<open>C11: Choice of an interface.  For a well-formed action the choice makes no memory error and no endless loop, in every
  mode and for all weights, also when the 32-bit running weight of the weighted round robin overflows; it is either
  \<open>INVALID_INTERFACE_ID\<close> or an interface of the action that is administratively up
  and has link; and except under weighted round robin an interface is found whenever one of the action's is up.
  The state stays well-formed, so that this holds for every later packet too.\<close>

theorem load_balance_correct:
  assumes "status_ok S" "lb_action_ok a" "lb_arrays_ok st"
  shows "\<exists>i a' st'. load_balance_interfaces S w a st = Some (i, a', st') \<and> lb_action_ok a' \<and> lb_arrays_ok st'
    \<and> (i = INVALID_INTERFACE_ID \<or> (\<exists>x\<in>set (members a). i = ucast x \<and> intf_is_up S x))
    \<and> (load_balance_mode a \<noteq> LOAD_BALANCE_MODE_WRR \<and> (\<exists>x\<in>set (members a). intf_is_up S x) \<longrightarrow> i \<noteq> INVALID_INTERFACE_ID)"
  using lb_interfaces_ok [OF assms] by blast

definition ex_status :: intf_status where
  "ex_status = \<lparr>admin_status = replicate 63 1, intf_link = [0, 1] @ replicate 61 0\<rparr>"

definition ex_lb :: sf_action_t where
  "ex_lb = zero_action\<lparr>load_balance_interfaces_num := 2, load_balance_mode := LOAD_BALANCE_MODE_OUTER_SRCIP,
     load_balance_interface_array := [1, 2] @ replicate 61 0\<rparr>"

definition ex_arrays :: lb_arrays where
  "ex_arrays = \<lparr>interface_array_real_load_balance = replicate 63 0, interface_num_real_load_balance = 0, interface_update_load_balance = 0\<rparr>"

lemmas ex_lb_simps = ex_lb_def ex_status_def ex_arrays_def zero_action_def members_def valid_intf_def intf_is_up_def
  status_ok_def lb_action_ok_def lb_arrays_ok_def MAX_INTERFACE_CNT_def MAX_LOAD_BALANCE_NODE_def

theorem load_balance_correct_witness:
  "\<forall>w. \<exists>a' st'. load_balance_interfaces ex_status w ex_lb ex_arrays = Some (2, a', st')"
proof
  fix w
  have ok: "status_ok ex_status" "lb_action_ok ex_lb" "lb_arrays_ok ex_arrays" by (simp_all add: ex_lb_simps)
  have m: "set (members ex_lb) = {1, 2}" "\<not> intf_is_up ex_status 1" "intf_is_up ex_status 2"
    "load_balance_mode ex_lb \<noteq> LOAD_BALANCE_MODE_WRR" by (auto simp: ex_lb_simps)
  show "\<exists>a' st'. load_balance_interfaces ex_status w ex_lb ex_arrays = Some (2, a', st')"
    using load_balance_correct [OF ok, of w] m by auto
qed

text \<open>Both directions of a conversation leave on the same interface in the mode \<open>OUTER_SRCDSTIP\<close>: exchanging
  source and destination address of the packet changes nothing in the choice.\<close>

theorem load_balance_symmetric:
  assumes "load_balance_mode a = LOAD_BALANCE_MODE_OUTER_SRCDSTIP"
    and "ip_version (ip_wdata w') = ip_version (ip_wdata w)" "sip (ip_wdata w') = dip (ip_wdata w)" "dip (ip_wdata w') = sip (ip_wdata w)"
  shows "load_balance_interfaces S w' a st = load_balance_interfaces S w a st"
proof -
  have same: "action_get_load_balance_index a (fill_load_balance_data w') num = action_get_load_balance_index a (fill_load_balance_data w) num" for num
    using assms by (simp add: action_get_load_balance_index_def fill_load_balance_data_def Let_def ac_simps)
  have "\<exists>h. \<forall>num. action_get_load_balance_index a (fill_load_balance_data w) num = Some (h num, a)"
    using assms(1) by (intro exI [of _ "\<lambda>num. fst (the (action_get_load_balance_index a (fill_load_balance_data w) num))"])
      (simp add: action_get_load_balance_index_def)
  then obtain h where h: "\<And>num. action_get_load_balance_index a (fill_load_balance_data w) num = Some (h num, a)" by blast
  show ?thesis using assms(1) by (simp add: load_balance_interfaces_def same h Let_def cong: if_cong)
qed

theorem load_balance_symmetric_witness:
  "\<exists>w w'. sip (ip_wdata w) \<noteq> dip (ip_wdata w) \<and> sip (ip_wdata w') = dip (ip_wdata w) \<and> dip (ip_wdata w') = sip (ip_wdata w)
    \<and> (\<forall>S st. load_balance_interfaces S w' (ex_lb\<lparr>load_balance_mode := LOAD_BALANCE_MODE_OUTER_SRCDSTIP\<rparr>) st
         = load_balance_interfaces S w (ex_lb\<lparr>load_balance_mode := LOAD_BALANCE_MODE_OUTER_SRCDSTIP\<rparr>) st)"
proof -
  define w :: sf_wdata_t where "w = undefined\<lparr>ip_wdata := undefined\<lparr>sip := zero_addr, dip := zero_addr\<lparr>addr_v6_upper := 1\<rparr>\<rparr>\<rparr>"
  define w' where "w' = w\<lparr>ip_wdata := (ip_wdata w)\<lparr>sip := dip (ip_wdata w), dip := sip (ip_wdata w)\<rparr>\<rparr>"
  have f: "sip (ip_wdata w) \<noteq> dip (ip_wdata w)" "ip_version (ip_wdata w') = ip_version (ip_wdata w)"
    "sip (ip_wdata w') = dip (ip_wdata w)" "dip (ip_wdata w') = sip (ip_wdata w)"
    by (simp_all add: w_def w'_def zero_addr_def)
  have m: "load_balance_mode (ex_lb\<lparr>load_balance_mode := LOAD_BALANCE_MODE_OUTER_SRCDSTIP\<rparr>) = LOAD_BALANCE_MODE_OUTER_SRCDSTIP" by simp
  have "load_balance_interfaces S w' (ex_lb\<lparr>load_balance_mode := LOAD_BALANCE_MODE_OUTER_SRCDSTIP\<rparr>) st
    = load_balance_interfaces S w (ex_lb\<lparr>load_balance_mode := LOAD_BALANCE_MODE_OUTER_SRCDSTIP\<rparr>) st" for S st
    by (rule load_balance_symmetric [OF m f(2-4)])
  then show ?thesis using f by blast
qed

definition ex_starve :: "int \<Rightarrow> u32 \<Rightarrow> sf_action_t" where
  "ex_starve c i = ex_lb\<lparr>load_balance_mode := LOAD_BALANCE_MODE_WRR, load_balance_weight := [100, 1] @ replicate 62 0,
     weight_data := \<lparr>cw = c, gcd_w = 1, mw = 100\<rparr>, load_balance_index := i\<rparr>"

lemma starve_call:
  "1 \<le> c \<Longrightarrow> c < 100 \<Longrightarrow> i = 1 \<or> i = 0 \<and> 1 < c \<Longrightarrow>
    action_get_load_balance_index (ex_starve c i) data 2 = Some (0, ex_starve (c + 1) 0)"
  by (auto simp: action_get_load_balance_index_def ex_starve_def load_balance_get_weight_index.simps [of _ _ "(_, 1)"]
      load_balance_get_weight_index.simps [of _ _ "(_, 0)"] wrr_turn_def arr_read_def Let_def int32_id)

lemma starve_retry:
  "1 < c \<Longrightarrow> c + int k \<le> 100 \<Longrightarrow> lb_retry ex_status data 2 k (ex_starve c 0) = Some (INVALID_INTERFACE_ID, ex_starve (c + int k) 0)"
proof (induction k arbitrary: c)
  case (Suc k)
  have "arr_read (load_balance_interface_array (ex_starve (c + 1) 0)) 0 = Some 1" by (simp add: ex_starve_def ex_lb_def arr_read_def)
  moreover have "intf_up ex_status (ucast (1 :: u8)) = Some False"
    by (subst intf_up_ok) (simp_all add: ex_lb_simps)
  ultimately show ?case using Suc starve_call [of c 0 data] by (simp add: add.assoc)
qed simp

lemma ex_starve_ok: "lb_action_ok (ex_starve 1 1)"
proof -
  have "wrr_ok (load_balance_weight (ex_starve 1 1)) 2 1 100"
    by (auto simp: wrr_ok_def ex_starve_def less_Suc_eq numeral_2_eq_2)
  moreover have "wrr_run 2 1 100 (weight_data (ex_starve 1 1), load_balance_index (ex_starve 1 1))" by (simp add: wrr_run_def ex_starve_def)
  ultimately show ?thesis by (auto simp: lb_action_ok_def ex_starve_def ex_lb_simps)
qed

text \<open>Weighted round robin can drop a packet although an interface of the action is up: after a packet
  for the second interface, the 64 retries all fall on the first one, which is down, if its weight is large.\<close>

theorem wrr_drops_although_up:
  "lb_action_ok (ex_starve 1 1) \<and> 2 \<in> set (members (ex_starve 1 1)) \<and> intf_is_up ex_status 2
   \<and> load_balance_interfaces ex_status w (ex_starve 1 1) ex_arrays = Some (INVALID_INTERFACE_ID, ex_starve 66 0, ex_arrays)"
proof -
  have "arr_read (load_balance_interface_array (ex_starve 2 0)) 0 = Some 1" by (simp add: ex_starve_def ex_lb_def arr_read_def)
  moreover have "intf_up ex_status (ucast (1 :: u8)) = Some False"
    by (subst intf_up_ok) (simp_all add: ex_lb_simps)
  moreover have "load_balance_mode (ex_starve 2 0) = LOAD_BALANCE_MODE_WRR" "(ucast (load_balance_interfaces_num (ex_starve 1 1)) :: u32) = 2"
    by (simp_all add: ex_starve_def ex_lb_def)
  ultimately have "load_balance_interfaces ex_status w (ex_starve 1 1) ex_arrays = Some (INVALID_INTERFACE_ID, ex_starve 66 0, ex_arrays)"
    using starve_call [of 1 1] starve_retry [of 2 64] by (simp add: load_balance_interfaces_def MAX_LOAD_BALANCE_NODE_def)
  then show ?thesis using ex_starve_ok by (simp add: ex_starve_def ex_lb_simps)
qed

section \<open>The table of actions stays well typed\<close>

text \<open>
  What the management interface accepts for an action that balances (the checks of \<open>rest/tapplet/actions/action_utils.py\<close>;
  \<open>put_action_config\<close> itself makes none): one to 63 valid interfaces and, under weighted round robin, a positive weight for each that
  fits an \<open>int\<close>.  The state is the table in shared memory with the node's own arrays; it changes by
  storing and deleting actions and by packets that are balanced, in any order.
\<close>

definition lb_request_ok :: "sf_action_t \<Rightarrow> bool" where
  "lb_request_ok a \<longleftrightarrow> action_type a = ACTION_TYPE_LOAD_BALANCE_INTERFACES \<longrightarrow>
     0 < load_balance_interfaces_num a \<and> unat (load_balance_interfaces_num a) \<le> MAX_INTERFACE_CNT
     \<and> length (load_balance_interface_array a) = MAX_INTERFACE_CNT \<and> (\<forall>x\<in>set (members a). valid_intf x)
     \<and> length (load_balance_weight a) = MAX_LOAD_BALANCE_NODE \<and> load_balance_index a = 0
     \<and> (load_balance_mode a = LOAD_BALANCE_MODE_WRR \<longrightarrow>
          (\<forall>x\<in>set (take (unat (load_balance_interfaces_num a)) (load_balance_weight a)). 0 < x \<and> x < 2 ^ 31))"

definition balances :: "sf_action_t \<Rightarrow> bool" where
  "balances a \<longleftrightarrow> ref_counter a \<noteq> 0 \<and> action_type a = ACTION_TYPE_LOAD_BALANCE_INTERFACES"

definition action_of :: "sf_wdata_t \<Rightarrow> nat" where
  "action_of w = unat ((ucast (arg_to_next w) :: u16) - 1)"

type_synonym lb_tables = "sf_action_t list \<times> lb_arrays list"

inductive lb_table_step :: "lb_tables \<Rightarrow> lb_tables \<Rightarrow> bool" where
  put: "lb_request_ok a \<Longrightarrow> put_action_config (Some acts) a i = Some (ret, Some acts') \<Longrightarrow> lb_table_step (acts, arrs) (acts', arrs)"
| delete: "delete_action_config (Some acts) i = Some (ret, Some acts') \<Longrightarrow> lb_table_step (acts, arrs) (acts', arrs)"
| packet: "status_ok S \<Longrightarrow> action_of w < MAX_ACTION_NUM \<Longrightarrow> balances (acts ! action_of w)
    \<Longrightarrow> lb_packet S (acts, arrs) w = Some (x, g') \<Longrightarrow> lb_table_step (acts, arrs) g'"

inductive_cases lb_table_stepE: "lb_table_step g g'"

definition lb_tables_init :: lb_tables where
  "lb_tables_init = (replicate MAX_ACTION_NUM zero_action,
     replicate MAX_ACTION_NUM \<lparr>interface_array_real_load_balance = replicate MAX_INTERFACE_CNT 0, interface_num_real_load_balance = 0,
       interface_update_load_balance = 0\<rparr>)"

definition lb_tables_ok :: "lb_tables \<Rightarrow> bool" where
  "lb_tables_ok g \<longleftrightarrow> length (fst g) = MAX_ACTION_NUM \<and> length (snd g) = MAX_ACTION_NUM
     \<and> (\<forall>a\<in>set (fst g). balances a \<longrightarrow> lb_action_ok a) \<and> (\<forall>st\<in>set (snd g). lb_arrays_ok st)"

lemma lb_init_ok: "lb_tables_ok lb_tables_init"
  by (simp add: lb_tables_ok_def lb_tables_init_def balances_def zero_action_def lb_arrays_ok_def MAX_ACTION_NUM_def)

lemma set_update_all: "\<forall>x\<in>set xs. P x \<Longrightarrow> P y \<Longrightarrow> \<forall>x\<in>set (xs[i := y]). P x"
  using set_update_subset_insert [of xs i y] by blast

lemma stored_ok:
  assumes "lb_request_ok a" "balances (a'\<lparr>ref_counter := n\<rparr>)"
    and "a' = a \<and> load_balance_mode a \<noteq> LOAD_BALANCE_MODE_WRR
      \<or> (\<exists>g m. weight_calc_max (load_balance_weight a) (unat (load_balance_interfaces_num a)) = Some (g, m)
          \<and> a' = a\<lparr>weight_data := \<lparr>cw = 0, gcd_w = g, mw = m\<rparr>\<rparr>)"
  shows "lb_action_ok (a'\<lparr>ref_counter := n\<rparr>)"
proof -
  let ?n = "unat (load_balance_interfaces_num a)"
  have type: "action_type a = ACTION_TYPE_LOAD_BALANCE_INTERFACES" using assms(2,3) by (auto simp: balances_def)
  then have a: "0 < load_balance_interfaces_num a" "?n \<le> MAX_INTERFACE_CNT" "length (load_balance_interface_array a) = MAX_INTERFACE_CNT"
    "\<forall>x\<in>set (members a). valid_intf x" "length (load_balance_weight a) = MAX_LOAD_BALANCE_NODE" "load_balance_index a = 0"
    "load_balance_mode a = LOAD_BALANCE_MODE_WRR \<longrightarrow> (\<forall>x\<in>set (take ?n (load_balance_weight a)). 0 < x)"
    using assms(1) type by (simp_all add: lb_request_ok_def)
  have n: "0 < ?n" using a(1) by (simp add: unat_gt_0 word_neq_0_conv)
  from assms(3) show ?thesis
  proof (elim disjE exE conjE)
    assume "a' = a" "load_balance_mode a \<noteq> LOAD_BALANCE_MODE_WRR"
    then show ?thesis using a(1-4) by (simp add: lb_action_ok_def members_def)
  next
    fix g m assume calc: "weight_calc_max (load_balance_weight a) ?n = Some (g, m)" and a': "a' = a\<lparr>weight_data := \<lparr>cw = 0, gcd_w = g, mw = m\<rparr>\<rparr>"
    have "wrr_ok (load_balance_weight a) ?n g m" if "load_balance_mode a = LOAD_BALANCE_MODE_WRR"
    proof -
      have len: "?n \<le> length (load_balance_weight a)" using a(2,5) by (simp add: MAX_INTERFACE_CNT_def MAX_LOAD_BALANCE_NODE_def)
      have "load_balance_weight a ! 0 \<in> set (take ?n (load_balance_weight a))" using n len by (auto simp: set_take_image)
      then have W: "\<forall>w\<in>set (take ?n (load_balance_weight a)). 0 \<le> w" "0 < load_balance_weight a ! 0" using a(7) that by force+
      then have "g = Gcd (set (take ?n (load_balance_weight a)))" "m = Max (set (take ?n (load_balance_weight a)))"
        using calc weight_calc_max_ok [OF n len W] by simp_all
      then show ?thesis using wrr_ok_calc [OF n len W] by simp
    qed
    moreover have "wrr_run ?n g m (\<lparr>cw = 0, gcd_w = g, mw = m\<rparr>, 0)" if "wrr_ok (load_balance_weight a) ?n g m"
      using n that by (simp add: wrr_run_def wrr_ok_def)
    ultimately show ?thesis using a(1-4,6) unfolding a' by (auto simp: lb_action_ok_def members_def)
  qed
qed

lemma put_tables:
  assumes "lb_request_ok a" "put_action_config (Some acts) a i = Some (ret, Some acts')" "lb_tables_ok (acts, arrs)"
  shows "lb_tables_ok (acts', arrs)"
proof (cases "is_valid_action_id (uint i)")
  case True
  obtain b where b: "(if load_balance_mode a = LOAD_BALANCE_MODE_WRR then
      do { (g, m) \<leftarrow> weight_calc_max (load_balance_weight a) (unat (load_balance_interfaces_num a));
           Some (a\<lparr>weight_data := \<lparr>cw = 0, gcd_w = g, mw = m\<rparr>\<rparr>) } else Some a) = Some b"
    and w: "arr_write acts (unat (i - 1)) (b\<lparr>ref_counter := ref_counter b + 1\<rparr>) = Some acts'"
    using assms(2) True by (auto simp: put_action_config_def bind_eq_Some_conv simp del: One_nat_def)
  have "b = a \<and> load_balance_mode a \<noteq> LOAD_BALANCE_MODE_WRR
      \<or> (\<exists>g m. weight_calc_max (load_balance_weight a) (unat (load_balance_interfaces_num a)) = Some (g, m)
          \<and> b = a\<lparr>weight_data := \<lparr>cw = 0, gcd_w = g, mw = m\<rparr>\<rparr>)"
    using b by (auto simp: bind_eq_Some_conv split: if_splits)
  from stored_ok [OF assms(1) _ this]
  have "balances (b\<lparr>ref_counter := ref_counter b + 1\<rparr>) \<longrightarrow> lb_action_ok (b\<lparr>ref_counter := ref_counter b + 1\<rparr>)" by blast
  moreover have "acts' = acts[unat (i - 1) := b\<lparr>ref_counter := ref_counter b + 1\<rparr>]" using w by (auto simp: arr_write_def split: if_splits)
  ultimately show ?thesis using assms(3) set_update_all [of acts "\<lambda>a. balances a \<longrightarrow> lb_action_ok a"] by (simp add: lb_tables_ok_def)
next
  case False
  then show ?thesis using assms(2,3) by (simp add: put_action_config_def)
qed

lemma delete_tables:
  assumes "delete_action_config (Some acts) i = Some (ret, Some acts')" "lb_tables_ok (acts, arrs)"
  shows "lb_tables_ok (acts', arrs)"
proof -
  have "acts' = acts \<or> acts' = acts[nat (i - 1) := zero_action]"
    using assms(1) by (auto simp: delete_action_config_def bind_eq_Some_conv arr_write_def split: if_splits)
  moreover have "\<not> balances zero_action" by (simp add: balances_def zero_action_def)
  ultimately show ?thesis
    using assms(2) set_update_all [of acts "\<lambda>a. balances a \<longrightarrow> lb_action_ok a" zero_action "nat (i - 1)"]
    by (auto simp: lb_tables_ok_def)
qed

lemma packet_tables:
  assumes S: "status_ok S" and g: "lb_tables_ok (acts, arrs)" and k: "action_of w < MAX_ACTION_NUM" "balances (acts ! action_of w)"
  shows "\<exists>x g'. lb_packet S (acts, arrs) w = Some (x, g') \<and> lb_tables_ok g'"
proof -
  let ?k = "action_of w"
  have len: "?k < length acts" "?k < length arrs" using g k(1) by (simp_all add: lb_tables_ok_def)
  have "lb_action_ok (acts ! ?k)" "lb_arrays_ok (arrs ! ?k)" using g k(2) len by (simp_all add: lb_tables_ok_def)
  then obtain i a' st' where run: "load_balance_interfaces S w (acts ! ?k) (arrs ! ?k) = Some (i, a', st')"
    and ok: "lb_action_ok a'" "lb_arrays_ok st'"
    using lb_interfaces_ok [OF S] by blast
  have "lb_packet S (acts, arrs) w = Some (ucast i, acts[?k := a'], arrs[?k := st'])"
    using run len by (simp add: lb_packet_def action_of_def [symmetric] arr_read_in Let_def)
  moreover have "lb_tables_ok (acts[?k := a'], arrs[?k := st'])"
    using g set_update_all [of acts "\<lambda>a. balances a \<longrightarrow> lb_action_ok a", OF _ impI [OF ok(1)]] set_update_all [of arrs lb_arrays_ok, OF _ ok(2)]
    unfolding lb_tables_ok_def fst_conv snd_conv length_list_update by blast
  ultimately show ?thesis by blast
qed

text \<open>C10: Well-typed tables.  Whatever actions that the management interface accepts are stored, and whatever actions are deleted and packets
  balanced in between, from the empty table on, every action in use that balances has between one and 63 valid interfaces,
  weights that its stored divisor and maximum fit, a running weight that does not exceed the maximum (also after an overflow), and
  an index inside its interfaces, and the arrays of the node keep their size; so every packet of such an action is balanced
  without a memory error, an endless loop or a division by zero.\<close>

theorem lb_tables_typed:
  assumes "lb_table_step\<^sup>*\<^sup>* lb_tables_init g"
  shows "lb_tables_ok g
    \<and> (\<forall>S w. status_ok S \<and> action_of w < MAX_ACTION_NUM \<and> balances (fst g ! action_of w) \<longrightarrow> lb_packet S g w \<noteq> None)"
proof -
  have "lb_tables_ok g" using assms
  proof (induction rule: rtranclp_induct)
    case base
    show ?case by (rule lb_init_ok)
  next
    case (step g1 g2)
    from step.hyps(2) step.IH show ?case
    proof (cases rule: lb_table_step.cases)
      case (packet S w acts arrs x)
      then show ?thesis using packet_tables [of S acts arrs w] step.IH by auto
    qed (auto intro: put_tables delete_tables)
  qed
  moreover have "lb_packet S g w \<noteq> None"
    if "status_ok S" "action_of w < MAX_ACTION_NUM" "balances (fst g ! action_of w)" for S w
    using packet_tables [of S "fst g" "snd g" w] that calculation by auto
  ultimately show ?thesis by blast
qed

theorem lb_tables_typed_witness:
  "\<exists>acts. put_action_config (Some (fst lb_tables_init)) ex_wrr 5 = Some (0, Some acts) \<and> balances (acts ! 4) \<and> lb_action_ok (acts ! 4)
    \<and> lb_packet ex_status (acts, snd lb_tables_init) ((undefined :: sf_wdata_t)\<lparr>arg_to_next := 5\<rparr>) \<noteq> None"
proof -
  let ?b = "ex_wrr\<lparr>weight_data := \<lparr>cw = 0, gcd_w = 2, mw = 6\<rparr>, ref_counter := 1\<rparr>"
  let ?acts = "(fst lb_tables_init)[4 := ?b]" and ?w = "(undefined :: sf_wdata_t)\<lparr>arg_to_next := 5\<rparr>"
  have calc: "weight_calc_max ([4, 2, 6] @ replicate 61 0) 3 = Some (2, 6)"
  proof -
    have "weight_calc_max ([4, 2, 6] @ replicate 61 0) 3 = Some (Gcd (set [4, 2, 6 :: int]), Max (set [4, 2, 6 :: int]))"
      using weight_calc_max_ok [of 3 "[4, 2, 6] @ replicate 61 0"] by simp
    then show ?thesis by (simp add: gcd_non_0_int)
  qed
  have put: "put_action_config (Some (fst lb_tables_init)) ex_wrr 5 = Some (0, Some ?acts)"
    using calc by (simp add: put_action_config_def is_valid_action_id_def MAX_ACTION_NUM_def ex_wrr_def zero_action_def lb_tables_init_def arr_write_def)
  have "lb_request_ok ex_wrr"
    by (simp add: lb_request_ok_def ex_wrr_def zero_action_def members_def valid_intf_def MAX_INTERFACE_CNT_def MAX_LOAD_BALANCE_NODE_def)
  then have step: "lb_table_step\<^sup>*\<^sup>* lb_tables_init (?acts, snd lb_tables_init)"
    using lb_table_step.put [OF _ put, of "snd lb_tables_init"] by simp
  have len: "4 < length (fst lb_tables_init)" by (simp add: lb_tables_init_def MAX_ACTION_NUM_def)
  then have b: "?acts ! 4 = ?b" by simp
  have bal: "balances ?b" by (simp add: balances_def ex_wrr_def ACTION_TYPE_LOAD_BALANCE_INTERFACES_def)
  have w: "action_of ?w = 4" by (simp add: action_of_def)
  note typed = lb_tables_typed [OF step]
  have "lb_action_ok ?b" using typed [THEN conjunct1] bal set_update_memI [OF len, of ?b] unfolding lb_tables_ok_def fst_conv by blast
  moreover have "lb_packet ex_status (?acts, snd lb_tables_init) ?w \<noteq> None"
    using typed [THEN conjunct2, THEN spec, THEN spec, of ex_status ?w] w b bal by (simp add: ex_lb_simps MAX_ACTION_NUM_def)
  ultimately show ?thesis using put b bal by (intro exI [of _ ?acts]) simp
qed

text \<open>What the list of next nodes yields when the nodes along the path pop it.\<close>

fun pops :: "nat \<Rightarrow> sf_additional_list_t \<Rightarrow> (u8 list \<times> sf_additional_list_t) option" where
  "pops 0 l = Some ([], l)"
| "pops (Suc k) l = do { (v, l) \<leftarrow> pop_addtional_list l; (vs, l) \<leftarrow> pops k l; Some (v # vs, l) }"

text \<open>The path an action asks for: the encapsulations, then the forwarding node.\<close>

definition encap_path :: "u32 \<Rightarrow> u8 list" where
  "encap_path sw = (if bit sw 2 then [SF_NEXT_NODE_ACTION_ERSPAN_ENCAPSULATION] else [])
     @ (if bit sw 1 then [SF_NEXT_NODE_ACTION_VXLAN_ENCAPSULATION] else [])
     @ (if bit sw 0 then [SF_NEXT_NODE_ACTION_GRE_ENCAPSULATION] else [])"

definition list_holds :: "u8 list \<Rightarrow> sf_additional_list_t \<Rightarrow> bool" where
  "list_holds xs l \<longleftrightarrow> length (addtional_list l) = 60 \<and> addi_pre_index l = of_nat (length xs) \<and> length xs < 10
     \<and> take (length xs) (addtional_list l) = xs"

lemma append_holds:
  assumes "list_holds xs l" "length xs < 9"
  shows "\<exists>l'. append_addtional_list v l = Some l' \<and> list_holds (xs @ [v]) l' \<and> delta l' = delta l"
proof -
  have u: "unat (of_nat (length xs) :: u8) = length xs" using assms(2) by (simp add: unsigned_of_nat take_bit_nat_eq_self)
  have k: "length xs < length (addtional_list l)" using assms by (simp add: list_holds_def)
  have t: "take (Suc (length xs)) ((addtional_list l)[length xs := v]) = xs @ [v]"
    using assms(1) by (simp add: list_update_take_drop [OF k] list_holds_def)
  then show ?thesis
    using assms u k by (simp add: append_addtional_list_def list_holds_def arr_write_def add.commute)
qed

lemma append_if:
  assumes "list_holds xs l" "length xs < 9"
  shows "\<exists>l'. (if c then append_addtional_list v l else Some l) = Some l' \<and> list_holds (xs @ (if c then [v] else [])) l' \<and> delta l' = delta l"
  using assms append_holds by (cases c) auto

lemma pops_holds:
  assumes "take n (drop (unat (addi_pre_index l)) (addtional_list l)) = xs" "length xs = n" "unat (addi_pre_index l) + n < 100"
  shows "\<exists>l'. pops n l = Some (xs, l')"
  using assms
proof (induction n arbitrary: l xs)
  case (Suc n)
  let ?i = "unat (addi_pre_index l)"
  have i: "?i < length (addtional_list l)" using Suc.prems(1,2) by (metis Suc_neq_Zero drop_eq_Nil leI length_0_conv take_Nil)
  then obtain ys where xs: "xs = addtional_list l ! ?i # ys" "ys = take n (drop (Suc ?i) (addtional_list l))"
    using Suc.prems(1) by (metis Cons_nth_drop_Suc take_Suc_Cons)
  have "unat (addi_pre_index l + 1) = Suc ?i" using Suc.prems(3) by (simp add: unat_word_ariths)
  then obtain l' where "pops n (l\<lparr>addi_pre_index := addi_pre_index l + 1\<rparr>) = Some (ys, l')"
    using Suc.IH [of "l\<lparr>addi_pre_index := addi_pre_index l + 1\<rparr>" ys] Suc.prems xs by auto
  then show ?case using i xs(1) by (simp add: pop_addtional_list_def arr_read_def)
qed simp

lemma path_list:
  assumes "length (addtional_list l0) = 60" "addi_pre_index l0 = 0"
  obtains l1 l2 l3 l where "(if bit sw 2 then append_addtional_list SF_NEXT_NODE_ACTION_ERSPAN_ENCAPSULATION l0 else Some l0) = Some l1"
    "(if bit sw 1 then append_addtional_list SF_NEXT_NODE_ACTION_VXLAN_ENCAPSULATION l1 else Some l1) = Some l2"
    "(if bit sw 0 then append_addtional_list SF_NEXT_NODE_ACTION_GRE_ENCAPSULATION l2 else Some l2) = Some l3"
    "append_addtional_list fwd l3 = Some l" "list_holds (encap_path sw @ [fwd]) l" "delta l = delta l0"
proof -
  let ?e = "if bit sw 2 then [SF_NEXT_NODE_ACTION_ERSPAN_ENCAPSULATION] else []"
    and ?v = "if bit sw 1 then [SF_NEXT_NODE_ACTION_VXLAN_ENCAPSULATION] else []"
  have len: "length ?e < 9" "length (?e @ ?v) < 9" "length (encap_path sw) < 9" by (simp_all add: encap_path_def)
  have "list_holds [] l0" using assms by (simp add: list_holds_def)
  then obtain l1 where l1: "(if bit sw 2 then append_addtional_list SF_NEXT_NODE_ACTION_ERSPAN_ENCAPSULATION l0 else Some l0) = Some l1"
    "list_holds ?e l1" "delta l1 = delta l0" using append_if [of "[]" l0] by fastforce
  then obtain l2 where l2: "(if bit sw 1 then append_addtional_list SF_NEXT_NODE_ACTION_VXLAN_ENCAPSULATION l1 else Some l1) = Some l2"
    "list_holds (?e @ ?v) l2" "delta l2 = delta l0"
    using append_if [OF l1(2) len(1), of "bit sw 1" SF_NEXT_NODE_ACTION_VXLAN_ENCAPSULATION] by metis
  then obtain l3 where l3: "(if bit sw 0 then append_addtional_list SF_NEXT_NODE_ACTION_GRE_ENCAPSULATION l2 else Some l2) = Some l3"
    "list_holds (encap_path sw) l3" "delta l3 = delta l0"
    using append_if [OF l2(2) len(2), of "bit sw 0" SF_NEXT_NODE_ACTION_GRE_ENCAPSULATION] unfolding encap_path_def append_assoc by metis
  obtain l4 where l4: "append_addtional_list fwd l3 = Some l4" "list_holds (encap_path sw @ [fwd]) l4" "delta l4 = delta l0"
    using append_holds [OF l3(2) len(3), of fwd] l3(3) by metis
  show thesis by (rule that [OF l1(1) l2(1) l3(1) l4])
qed

lemma arg_reset: "arg_to_next (set_arg2_to_next 0 (set_arg1_to_next (ucast (arg_to_next w AND 0xFFFF)) w)) = arg_to_next w AND 0xFFFF"
proof -
  have low: "(0xFFFF :: u32) = mask 16" by (simp add: mask_eq_exp_minus_1)
  have high: "(0xFFFF0000 :: u32) = push_bit 16 (mask 16)" by (simp add: mask_eq_exp_minus_1 push_bit_eq_mult)
  show ?thesis unfolding set_arg2_to_next_def set_arg1_to_next_def low high
    by (rule bit_word_eqI) (auto simp: bit_simps)
qed

lemma forward_types: "\<not> (t \<le> ACTION_TYPE_DROP \<or> ACTION_TYPE_COUNT \<le> t) \<longleftrightarrow> t \<in> {2, 3}"
  by (auto simp: ACTION_TYPE_DROP_def ACTION_TYPE_COUNT_def word_le_nat_alt word_unat_eq_iff)

lemma get_action_total:
  assumes "length actions = MAX_ACTION_NUM"
  shows "get_action actions i = Some (if is_valid_action_id (uint i) \<and> ref_counter (actions ! unat (i - 1)) \<noteq> 0
    then Some (actions ! unat (i - 1)) else None)"
proof (cases "is_valid_action_id (uint i)")
  case True
  then have i: "1 \<le> uint i" "uint i \<le> 128" by (simp_all add: is_valid_action_id_def MAX_ACTION_NUM_def)
  have u: "1 \<le> unat i" "unat i \<le> 128" using i uint_nat [of i] by linarith+
  then have "unat (i - 1) = unat i - 1" by (simp add: unat_sub word_le_nat_alt)
  then have "unat (i - 1) < length actions" using u assms by (simp add: MAX_ACTION_NUM_def)
  then show ?thesis using True by (simp add: get_action_def arr_read_in)
qed (simp add: get_action_def)

lemma forward_path_list:
  assumes some: "get_action actions (arg_to_next (awd b)) = Some (Some a)" and t: "action_type a \<in> {2, 3}"
    and nz: "switch_flags (additional_actions a) \<noteq> 0"
    and w: "w = (set_arg2_to_next 0 (set_arg1_to_next (ucast (arg_to_next (awd b) AND 0xFFFF)) (awd b)))\<lparr>interface_out := forward_interface_id a\<rparr>"
    and path: "encap_path (switch_flags (additional_actions a)) @ [ucast (action_type a + 2)] = y # ys"
  shows "\<exists>l. get_action_forward_path actions b = Some (ucast y, b\<lparr>awd := w, additional_list := l\<rparr>)
    \<and> addi_pre_index l = 1 \<and> take (length ys) (drop 1 (addtional_list l)) = ys \<and> length ys < 9"
proof -
  have ty: "(action_type a \<le> ACTION_TYPE_DROP \<or> ACTION_TYPE_COUNT \<le> action_type a) = False"
    using forward_types [of "action_type a"] t by blast
  have nx: "action_type_to_next_index (action_type a) = action_type a + 2"
    by (simp add: action_type_to_next_index_def ADDITIONAL_TYPE_COUNT_def)
  let ?sw = "switch_flags (additional_actions a)"
  let ?l0 = "reset_addtional_list\<lparr>delta := - current_data w\<rparr>"
  have l0: "length (addtional_list ?l0) = 60" "addi_pre_index ?l0 = 0" by (simp_all add: reset_addtional_list_def)
  obtain l1 l2 l3 l where l: "(if bit ?sw 2 then append_addtional_list SF_NEXT_NODE_ACTION_ERSPAN_ENCAPSULATION ?l0 else Some ?l0) = Some l1"
    "(if bit ?sw 1 then append_addtional_list SF_NEXT_NODE_ACTION_VXLAN_ENCAPSULATION l1 else Some l1) = Some l2"
    "(if bit ?sw 0 then append_addtional_list SF_NEXT_NODE_ACTION_GRE_ENCAPSULATION l2 else Some l2) = Some l3"
    "append_addtional_list (ucast (action_type a + 2)) l3 = Some l"
    "list_holds (encap_path ?sw @ [ucast (action_type a + 2)]) l" "delta l = delta ?l0"
    by (rule path_list [OF l0])
  have pl: "length (y # ys) < 10" "take (length (y # ys)) (addtional_list l) = y # ys" "length (addtional_list l) = 60"
    using l(5) unfolding path by (simp_all add: list_holds_def)
  let ?l = "l\<lparr>addi_pre_index := 1\<rparr>"
  have y0: "arr_read (addtional_list l) 0 = Some y" using pl(2,3) by (auto simp: arr_read_def) (metis nth_Cons_0 nth_take zero_less_Suc)
  then have "pop_addtional_list (l\<lparr>addi_pre_index := 0\<rparr>) = Some (y, ?l)" by (simp add: pop_addtional_list_def)
  then have run: "get_action_forward_path actions b = Some (ucast y, b\<lparr>awd := w, additional_list := ?l\<rparr>)"
    unfolding get_action_forward_path_def some using ty nz l(1-4) [unfolded w] by (simp add: nx Let_def w split del: if_split)
  have "take (length ys) (drop 1 (addtional_list l)) = ys"
    using pl(2) by (metis drop_Suc_Cons drop_0 drop_take length_Cons diff_Suc_1 One_nat_def)
  then show ?thesis using run pl(1) by (intro exI [of _ ?l]) simp
qed

text \<open>C12: The path of a packet.  A packet whose action is unknown, unused or has no forwarding type is dropped; every
  other packet gets the action's interface and visits exactly the encapsulation nodes the action enables,
  ERSPAN before VXLAN before GRE, and then the node that forwards to an interface or balances.  The list that
  carries this path never overflows, and the upper half of the argument is cleared.\<close>

theorem action_path_correct:
  assumes "length actions = MAX_ACTION_NUM" and i: "i = arg_to_next (awd b)" and a: "a = actions ! unat (i - 1)"
    and path: "path = encap_path (switch_flags (additional_actions a)) @ [ucast (action_type a + 2)]"
    and known: "known \<longleftrightarrow> is_valid_action_id (uint i) \<and> ref_counter a \<noteq> 0 \<and> action_type a \<in> {2, 3}"
  shows "\<exists>nx b'. get_action_forward_path actions b = Some (nx, b') \<and> arg_to_next (awd b') = i AND 0xFFFF
    \<and> (if \<not> known then nx = ACTION_NEXT_PKT_DROP \<and> additional_list b' = additional_list b
       else interface_out (awd b') = forward_interface_id a
         \<and> (if switch_flags (additional_actions a) = 0 then nx = action_type a + 2 \<and> additional_list b' = additional_list b
            else nx = ucast (hd path) \<and> (\<exists>l. pops (length path - 1) (additional_list b') = Some (tl path, l))))"
proof -
  let ?w = "set_arg2_to_next 0 (set_arg1_to_next (ucast (arg_to_next (awd b) AND 0xFFFF)) (awd b))"
  have arg: "arg_to_next ?w = i AND 0xFFFF" unfolding i by (rule arg_reset)
  note act = get_action_total [OF assms(1), of i, folded a]
  let ?w' = "?w\<lparr>interface_out := forward_interface_id a\<rparr>" and ?sw = "switch_flags (additional_actions a)"
  show ?thesis
  proof (cases known)
    case False
    then have "get_action_forward_path actions b = Some (ACTION_NEXT_PKT_DROP, b\<lparr>awd := ?w\<rparr>)"
      using act known forward_types [of "action_type a"] by (auto simp: get_action_forward_path_def Let_def simp flip: i)
    then show ?thesis using False arg by simp
  next
    case True
    have some: "get_action actions (arg_to_next (awd b)) = Some (Some a)" using act True known by (simp flip: i)
    have ty: "(action_type a \<le> ACTION_TYPE_DROP \<or> ACTION_TYPE_COUNT \<le> action_type a) = False"
      using forward_types [of "action_type a"] True known by blast
    have nx: "action_type_to_next_index (action_type a) = action_type a + 2"
      by (simp add: action_type_to_next_index_def ADDITIONAL_TYPE_COUNT_def)
    show ?thesis
    proof (cases "?sw = 0")
      case zero: True
      then have "get_action_forward_path actions b = Some (action_type a + 2, b\<lparr>awd := ?w'\<rparr>)"
        unfolding get_action_forward_path_def some using ty by (simp add: nx Let_def)
      then show ?thesis using zero True arg by simp
    next
      case nz: False
      obtain y ys where y: "path = y # ys" unfolding path by (cases "encap_path ?sw") auto
      obtain l where run: "get_action_forward_path actions b = Some (ucast y, b\<lparr>awd := ?w', additional_list := l\<rparr>)"
        "addi_pre_index l = 1" "take (length ys) (drop 1 (addtional_list l)) = ys" "length ys < 9"
        using forward_path_list [OF some _ nz refl path [symmetric, unfolded y]] True known by blast
      then have "\<exists>l'. pops (length ys) l = Some (ys, l')" by (intro pops_holds) simp_all
      then show ?thesis using run(1) True nz arg y by simp
    qed
  qed
qed

definition ex_actions :: "sf_action_t list" where
  "ex_actions = replicate MAX_ACTION_NUM (zero_action\<lparr>ref_counter := 1, action_type := 2, forward_interface_id := 7,
     additional_actions := (additional_actions zero_action)\<lparr>switch_flags := 5\<rparr>\<rparr>)"

theorem action_path_correct_witness:
  "\<forall>w. \<exists>b' l. get_action_forward_path ex_actions \<lparr>awd = w\<lparr>arg_to_next := 3\<rparr>, additional_list = reset_addtional_list\<rparr> = Some (1, b')
    \<and> interface_out (awd b') = 7 \<and> pops 2 (additional_list b') = Some ([0, 4], l)"
proof
  fix w
  let ?b = "\<lparr>awd = w\<lparr>arg_to_next := 3\<rparr>, additional_list = reset_addtional_list\<rparr>" and ?a = "ex_actions ! unat (3 - 1 :: u32)"
  have len: "length ex_actions = MAX_ACTION_NUM" by (simp add: ex_actions_def)
  have i: "3 = arg_to_next (awd ?b)" by simp
  have a: "?a = zero_action\<lparr>ref_counter := 1, action_type := 2, forward_interface_id := 7,
      additional_actions := (additional_actions zero_action)\<lparr>switch_flags := 5\<rparr>\<rparr>" by (simp add: ex_actions_def MAX_ACTION_NUM_def)
  have p: "[1, 0, 4] = encap_path (switch_flags (additional_actions ?a)) @ [ucast (action_type ?a + 2)]"
    unfolding a by (simp add: encap_path_def SF_NEXT_NODE_ACTION_ERSPAN_ENCAPSULATION_def SF_NEXT_NODE_ACTION_GRE_ENCAPSULATION_def)
  have k: "True \<longleftrightarrow> is_valid_action_id (uint (3 :: u32)) \<and> ref_counter ?a \<noteq> 0 \<and> action_type ?a \<in> {2, 3}"
    unfolding a by (simp add: is_valid_action_id_def MAX_ACTION_NUM_def)
  have two: "length [1, 0, 4 :: u8] - 1 = 2" by simp
  show "\<exists>b' l. get_action_forward_path ex_actions \<lparr>awd = w\<lparr>arg_to_next := 3\<rparr>, additional_list = reset_addtional_list\<rparr> = Some (1, b')
    \<and> interface_out (awd b') = 7 \<and> pops 2 (additional_list b') = Some ([0, 4], l)"
    using action_path_correct [OF len i refl p k, unfolded two] unfolding a by auto
qed

lemma halves:
  fixes a b :: u16
  shows "ucast (push_bit 16 (ucast a) OR ucast b :: u32) = b" "ucast (drop_bit 16 (push_bit 16 (ucast a) OR ucast b :: u32)) = a"
  by (rule bit_word_eqI, auto simp: bit_simps dest: bit_imp_le_length)+

lemma join_halves: "push_bit 16 (ucast (ucast (drop_bit 16 x) :: u16)) OR ucast (ucast x :: u16) = (x :: u32)"
  by (rule bit_word_eqI) (auto simp: bit_simps)

lemma bswap32_involutive: "bswap32 (bswap32 x) = x"
  unfolding bswap32_def halves net_to_host_involutive by (rule join_halves)

lemma vni_trip: "sint (drop_bit 8 (push_bit 8 ((word_of_int v :: u32) AND 0xFFFFFF))) = v mod 2 ^ 24"
proof -
  have m: "(0xFFFFFF :: u32) = mask 24" by (simp add: mask_eq_exp_minus_1)
  have "drop_bit 8 (push_bit 8 ((word_of_int v :: u32) AND 0xFFFFFF)) = take_bit 24 (word_of_int v)"
    unfolding m by (rule bit_word_eqI) (auto simp: bit_simps)
  also have "\<dots> = word_of_int (take_bit 24 v)" by (rule bit_word_eqI) (auto simp: bit_simps)
  finally have "sint (drop_bit 8 (push_bit 8 ((word_of_int v :: u32) AND 0xFFFFFF))) = signed_take_bit 31 (take_bit 24 v)"
    by (simp add: sint_sbintrunc')
  also have "\<dots> = take_bit 24 v"
  proof (rule signed_take_bit_int_eq_self)
    show "- (2 ^ 31) \<le> take_bit 24 v" by (rule order_trans [of _ 0]) simp_all
    show "take_bit 24 v < 2 ^ 31" by (rule order.strict_trans [OF take_bit_int_less_exp]) simp
  qed
  finally show ?thesis by (simp add: take_bit_eq_mod)
qed

lemma valid_id_index: "is_valid_action_id (uint (i :: u32)) \<Longrightarrow> nat (uint i - 1) = unat (i - 1)"
proof -
  assume "is_valid_action_id (uint i)"
  then have "1 \<le> uint i" by (simp add: is_valid_action_id_def)
  then have "1 \<le> unat i" using uint_nat [of i] by linarith
  then have "unat (i - 1) = unat i - 1" by (simp add: unat_sub word_le_nat_alt)
  then show ?thesis using uint_nat [of i] by linarith
qed

text \<open>C31: Configuration round trip.  After an action with a VXLAN network identifier and port has been stored, reading it back
  gives the action with one reference more (and, for weighted round robin, the computed weights), the identifier
  modulo 2^24 and the port modulo 2^16; it exists; all other actions are unchanged; and after deleting it the
  action does not exist.\<close>

theorem action_config_roundtrip:
  assumes put: "put_action_config (Some actions) (set_additional_vxlan_vni (set_additional_vxlan_dport a p) v) i = Some (0, Some actions')"
    and "ref_counter a \<noteq> - 1"
  shows "\<exists>b d. get_action_config (Some actions') i = Some (0, Some b) \<and> ref_counter b = ref_counter a + 1
      \<and> b\<lparr>weight_data := weight_data a, ref_counter := ref_counter a, additional_actions := additional_actions a\<rparr> = a
    \<and> get_additional_vxlan_vni (Some actions') (uint i) = Some (v mod 2 ^ 24)
    \<and> get_additional_vxlan_dport (Some actions') (uint i) = Some (p mod 2 ^ 16)
    \<and> check_action_if_exist (Some actions') (uint i) = Some 1
    \<and> (\<forall>j. j \<noteq> i \<longrightarrow> get_action_config (Some actions') j = get_action_config (Some actions) j)
    \<and> delete_action_config (Some actions') (uint i) = Some (0, Some d) \<and> check_action_if_exist (Some d) (uint i) = Some 0"
proof -
  let ?c = "set_additional_vxlan_vni (set_additional_vxlan_dport a p) v" and ?k = "unat (i - 1)"
  have put': "?k < length actions" "is_valid_action_id (uint i)"
    "\<exists>d. actions' = actions[?k := ?c\<lparr>weight_data := d, ref_counter := ref_counter ?c + 1\<rparr>]"
  proof (atomize (full), cases "load_balance_mode ?c = LOAD_BALANCE_MODE_WRR")
    case True
    then show "?k < length actions \<and> is_valid_action_id (uint i) \<and>
      (\<exists>d. actions' = actions[?k := ?c\<lparr>weight_data := d, ref_counter := ref_counter ?c + 1\<rparr>])"
      using put by (auto simp: put_action_config_def bind_eq_Some_conv split: if_splits dest!: arr_write_SomeD)
  next
    case False
    then have "?k < length actions \<and> is_valid_action_id (uint i) \<and> actions' = actions[?k := ?c\<lparr>ref_counter := ref_counter ?c + 1\<rparr>]"
      using put by (auto simp: put_action_config_def bind_eq_Some_conv split: if_splits dest!: arr_write_SomeD)
    then show "?k < length actions \<and> is_valid_action_id (uint i) \<and>
      (\<exists>d. actions' = actions[?k := ?c\<lparr>weight_data := d, ref_counter := ref_counter ?c + 1\<rparr>])"
      by (intro conjI exI [of _ "weight_data ?c"]) simp_all
  qed
  then obtain d where a': "actions' = actions[?k := ?c\<lparr>weight_data := d, ref_counter := ref_counter ?c + 1\<rparr>]" by blast
  define b where "b = ?c\<lparr>weight_data := d, ref_counter := ref_counter ?c + 1\<rparr>"
  have k: "nat (uint i - 1) = ?k" "?k < length actions'" "actions' ! ?k = b"
    using put'(1,2) a' valid_id_index [of i] by (simp_all add: b_def)
  have rc: "ref_counter b = ref_counter a + 1" "ref_counter b \<noteq> 0"
    using assms(2) by (simp_all add: b_def set_additional_vxlan_vni_def set_additional_vxlan_dport_def flip: eq_neg_iff_add_eq_0)
  have "b\<lparr>weight_data := weight_data a, ref_counter := ref_counter a, additional_actions := additional_actions a\<rparr> = a"
    by (simp add: b_def set_additional_vxlan_vni_def set_additional_vxlan_dport_def)
  moreover have "get_additional_vxlan_vni (Some actions') (uint i) = Some (v mod 2 ^ 24)"
  proof -
    have e: "vxlan_vni (additional_actions b) = bswap32 (push_bit 8 ((word_of_int v :: u32) AND 0xFFFFFF))"
      by (simp add: b_def set_additional_vxlan_vni_def)
    have "sint (drop_bit 8 (bswap32 (vxlan_vni (additional_actions b)))) = v mod 2 ^ 24"
      unfolding e bswap32_involutive by (rule vni_trip)
    then show ?thesis using k put'(2) by (simp add: get_additional_vxlan_vni_def arr_read_def)
  qed
  moreover have "get_additional_vxlan_dport (Some actions') (uint i) = Some (p mod 2 ^ 16)"
    using k put'(2) by (simp add: get_additional_vxlan_dport_def arr_read_def b_def set_additional_vxlan_vni_def
        set_additional_vxlan_dport_def net_to_host_involutive uint_word_of_int)
  moreover have "get_action_config (Some actions') j = get_action_config (Some actions) j" if "j \<noteq> i" for j
  proof -
    have "unat (j - 1) \<noteq> ?k" using that by (simp add: word_unat_eq_iff [symmetric])
    then have "arr_read actions' (unat (j - 1)) = arr_read actions (unat (j - 1))" by (simp add: a' arr_read_def)
    then show ?thesis by (simp add: get_action_config_def)
  qed
  moreover have "delete_action_config (Some actions') (uint i) = Some (0, Some (actions'[?k := zero_action]))"
    "check_action_if_exist (Some (actions'[?k := zero_action])) (uint i) = Some 0"
    using k put'(2) by (simp_all add: delete_action_config_def check_action_if_exist_def arr_write_def arr_read_def zero_action_def)
  moreover have "get_action_config (Some actions') i = Some (0, Some b)" "check_action_if_exist (Some actions') (uint i) = Some 1"
    using k put'(2) rc(2) by (simp_all add: get_action_config_def check_action_if_exist_def arr_read_def word_neq_0_conv)
  ultimately show ?thesis using rc(1) by blast
qed

theorem action_config_roundtrip_witness:
  "\<exists>actions'. put_action_config (Some ex_actions) (set_additional_vxlan_vni (set_additional_vxlan_dport zero_action 4789) 100000) 5 = Some (0, Some actions')
    \<and> get_additional_vxlan_vni (Some actions') 5 = Some 100000 \<and> get_additional_vxlan_dport (Some actions') 5 = Some 4789"
proof -
  let ?a = "set_additional_vxlan_vni (set_additional_vxlan_dport zero_action 4789) 100000"
  let ?t = "ex_actions[4 := ?a\<lparr>ref_counter := ref_counter ?a + 1\<rparr>]"
  have put: "put_action_config (Some ex_actions) ?a 5 = Some (0, Some ?t)"
    by (simp add: put_action_config_def is_valid_action_id_def MAX_ACTION_NUM_def ex_actions_def arr_write_def
        set_additional_vxlan_vni_def set_additional_vxlan_dport_def zero_action_def)
  have "ref_counter zero_action \<noteq> - 1" by (simp add: zero_action_def)
  from action_config_roundtrip [OF put this] show ?thesis using put by auto
qed

end
