(* ===== verification/Action_Encap.thy ===== *)
theory Action_Encap
  imports Actions Pkt_Decode
begin

text \<open>
  The encapsulation nodes of \<open>actions/nodes/additional\<close>: GRE, VXLAN and ERSPAN.  Each node writes a header of a
  fixed layout before the window of the packet, fills in the fields of the action and of the interface the packet
  came from, moves the window back over it and pops the next node.  A header is the list of its bytes; a field is
  read and written at its offset in the C structure, on a little-endian machine.  \<open>VPP\<close>'s
  \<open>ip4_header_checksum\<close>, its clocks and the arithmetic on \<open>f64\<close> are parameters.
\<close>

section \<open>Fields of a header\<close>

definition bytes16 :: "u16 \<Rightarrow> u8 list" where
  "bytes16 v = [ucast v, ucast (drop_bit 8 v)]"

definition bytes32 :: "u32 \<Rightarrow> u8 list" where
  "bytes32 v = bytes16 (ucast v) @ bytes16 (ucast (drop_bit 16 v))"

definition bytes64 :: "u64 \<Rightarrow> u8 list" where
  "bytes64 v = bytes32 (ucast v) @ bytes32 (ucast (drop_bit 32 v))"

definition ip6_bytes :: "ip_addr_t \<Rightarrow> u8 list" where
  "ip6_bytes a = bytes64 (addr_v6_upper a) @ bytes64 (addr_v6_lower a)"

text \<open>The store of some bytes at an offset.\<close>

definition set_bytes :: "nat \<Rightarrow> u8 list \<Rightarrow> u8 list \<Rightarrow> u8 list" where
  "set_bytes k bs h = take k h @ bs @ drop (k + length bs) h"

definition get16 :: "u8 list \<Rightarrow> nat \<Rightarrow> u16" where
  "get16 h k = ucast (h ! k) OR push_bit 8 (ucast (h ! (k + 1)))"

text \<open>The store to a bit field of \<open>w\<close> bits from bit \<open>p\<close> of a unit of 8 or 16 bits.\<close>

definition put_bits :: "nat \<Rightarrow> nat \<Rightarrow> 'a::len word \<Rightarrow> 'a word \<Rightarrow> 'a word" where
  "put_bits p w v old = (old AND NOT (push_bit p (mask w))) OR push_bit p (v AND mask w)"

definition set_bits8 :: "nat \<Rightarrow> nat \<Rightarrow> nat \<Rightarrow> u8 \<Rightarrow> u8 list \<Rightarrow> u8 list" where
  "set_bits8 k p w v h = set_bytes k [put_bits p w v (h ! k)] h"

definition set_bits16 :: "nat \<Rightarrow> nat \<Rightarrow> nat \<Rightarrow> u16 \<Rightarrow> u8 list \<Rightarrow> u8 list" where
  "set_bits16 k p w v h = set_bytes k (bytes16 (put_bits p w v (get16 h k))) h"

section \<open>The templates\<close>

text \<open>The offsets: Ethernet at 0, IP at 14, what follows at 34 (IPv4) or 54 (IPv6).\<close>

definition IP_PRO_GRE :: u8 where "IP_PRO_GRE = 47"
definition ETH_SIZE :: nat where "ETH_SIZE = 14"
definition IPV4_SIZE :: nat where "IPV4_SIZE = 20"
definition IPV6_SIZE :: nat where "IPV6_SIZE = 40"
definition GRE_HEADER_LEN :: u16 where "GRE_HEADER_LEN = 4"
definition IPV4_HEADER_LEN :: u16 where "IPV4_HEADER_LEN = 20"
definition VXLAN_HEADER_LEN :: u16 where "VXLAN_HEADER_LEN = 8"
definition VXLAN_FLAGS :: u32 where "VXLAN_FLAGS = 0x08"
definition DEFAULT_VXLAN_UDP_PORT :: u16 where "DEFAULT_VXLAN_UDP_PORT = 0xb512"

definition eth_template :: "u16 \<Rightarrow> u8 list \<Rightarrow> u8 list" where
  "eth_template type h = set_bytes 12 (bytes16 type) (set_bytes 6 [0x11, 0x22, 0x33, 0x44, 0x55, 0x66] h)"

definition ip4_template :: "u8 \<Rightarrow> u8 list \<Rightarrow> u8 list" where
  "ip4_template protocol h =
    (let h = set_bits8 14 4 4 0x04 h;
         h = set_bits8 14 0 4 0x05 h;
         h = set_bytes 15 [0] h;
         h = set_bytes 18 (bytes16 0) h;
         h = set_bits8 20 5 3 0 h;
         h = set_bits8 20 0 5 0 h;
         h = set_bytes 21 [0] h;
         h = set_bytes 22 [0x40] h;
         h = set_bytes 23 [protocol] h;
         h = set_bytes 24 (bytes16 0) h
     in set_bytes 26 (bytes32 (bswap32 0xc0a8fffe)) h)"

definition ip6_template :: "u8 \<Rightarrow> u8 list \<Rightarrow> u8 list" where
  "ip6_template next_header h =
    (let h = set_bytes 14 (bytes32 0) h;
         h = set_bits8 14 4 4 0x06 h;
         h = set_bytes 18 (bytes16 0) h;
         h = set_bytes 20 [next_header] h;
         h = set_bytes 21 [0x40] h;
         h = set_bytes 22 (bytes64 (clib_net_to_host_u64 0xabcdabcdabcdabcd)) h
     in set_bytes 30 (bytes64 (clib_net_to_host_u64 0x1234123412341234)) h)"

text \<open>\<open>gre_hdr\<close> at the offset \<open>o\<close>: \<open>flag_version\<close> and \<open>protocol_type\<close>.\<close>

definition gre_template :: "nat \<Rightarrow> u16 \<Rightarrow> u8 list \<Rightarrow> u8 list" where
  "gre_template off protocol_type h = set_bytes (off + 2) (bytes16 (clib_net_to_host_u16 protocol_type)) (set_bytes off (bytes16 0) h)"

definition gre_encap_hdr_template :: "u8 list" where
  "gre_encap_hdr_template =
    gre_template 34 0x6558 (ip4_template IP_PRO_GRE (eth_template ETHER_IPV4_NET_ORDER (replicate 38 0)))"

definition gre_encap_hdr_template_ipv6 :: "u8 list" where
  "gre_encap_hdr_template_ipv6 =
    gre_template 54 0x6558 (ip6_template IP_PRO_GRE (eth_template ETHER_IPV6_NET_ORDER (replicate 58 0)))"

text \<open>\<open>udp_hdr\<close> and \<open>vxlan_hdr\<close> at the offsets \<open>o\<close> and \<open>o + 8\<close>.\<close>

definition vxlan_template :: "nat \<Rightarrow> u8 list \<Rightarrow> u8 list" where
  "vxlan_template off h =
    (let h = set_bytes off (bytes16 DEFAULT_VXLAN_UDP_PORT) h;
         h = set_bytes (off + 6) (bytes16 0) h;
         h = set_bytes (off + 4) (bytes16 0) h;
         h = set_bytes (off + 8) (bytes32 VXLAN_FLAGS) h
     in set_bytes (off + 12) (bytes32 0) h)"

definition vxlan_encap_hdr_template :: "u8 list" where
  "vxlan_encap_hdr_template =
    vxlan_template 34 (ip4_template IP_PRO_UDP (eth_template ETHER_IPV4_NET_ORDER (replicate 50 0)))"

definition vxlan_encap_hdr_template_ipv6 :: "u8 list" where
  "vxlan_encap_hdr_template_ipv6 =
    vxlan_template 54 (ip6_template IP_PRO_UDP (eth_template ETHER_IPV6_NET_ORDER (replicate 70 0)))"

definition erspan_encap_common_hdr_template :: "u8 list" where
  "erspan_encap_common_hdr_template =
    gre_template 34 0x88BE (ip4_template IP_PRO_GRE (eth_template ETHER_IPV4_NET_ORDER (replicate 38 0)))"

definition erspan_encap_common_hdr_template_ipv6 :: "u8 list" where
  "erspan_encap_common_hdr_template_ipv6 =
    gre_template 54 0x88BE (ip6_template IP_PRO_GRE (eth_template ETHER_IPV6_NET_ORDER (replicate 58 0)))"

text \<open>Units of the ERSPAN headers: \<open>Vlan\<close> and \<open>Ver\<close>; \<open>Session_ID\<close>, \<open>T\<close>, \<open>En\<close> or \<open>BSO\<close>, \<open>COS\<close>; the last one of type III.\<close>

definition sf_erspan_ii_header_template :: "u8 list" where
  "sf_erspan_ii_header_template =
    (let h = replicate 8 0;
         h = set_bits16 0 12 4 0x1 h;
         h = set_bits16 0 0 12 0 h;
         h = set_bits16 2 13 3 0 h;
         h = set_bits16 2 11 2 3 h;
         h = set_bits16 2 10 1 0 h;
         h = set_bits16 2 0 10 0 h
     in set_bytes 4 (bytes32 0) h)"

definition sf_erspan_iii_header_template :: "u8 list" where
  "sf_erspan_iii_header_template =
    (let h = replicate 12 0;
         h = set_bits16 0 12 4 0x2 h;
         h = set_bits16 0 0 12 0 h;
         h = set_bits16 2 13 3 0 h;
         h = set_bits16 2 10 1 0 h;
         h = set_bits16 2 0 10 0 h;
         h = set_bits16 2 11 2 0 h;
         h = set_bytes 4 (bytes32 0) h;
         h = set_bytes 8 (bytes16 0) h;
         h = set_bits16 10 15 1 1 h;
         h = set_bits16 10 10 5 0 h;
         h = set_bits16 10 4 6 0 h;
         h = set_bits16 10 3 1 0 h;
         h = set_bits16 10 1 2 0 h
     in set_bits16 10 0 1 0 h)"

definition sf_gre_option_init :: u32 where "sf_gre_option_init = 1"

section \<open>What the nodes read\<close>

text \<open>
  The table of actions and the interfaces, in shared memory and only read here; VPP's checksum of the 20 bytes of
  an IPv4 header; the two clocks, at their k-th reading, and the arithmetic of the C type \<open>double\<close>.
\<close>

record sf_interface_t =
  mac :: "u8 list"
  ipv4_addr :: "u8 list"
  ipv6_addr :: ip_addr_t

record 'f encap_env =
  enc_actions :: "sf_action_t list"
  enc_interfaces :: "sf_interface_t list"
  enc_ip4_checksum :: "u8 list \<Rightarrow> u16"
  vlib_time_now :: "nat \<Rightarrow> 'f"
  clib_cpu_time_now :: "nat \<Rightarrow> u64"
  cpu_clock_pre_second :: u64
  ts_vlib_time :: 'f
  ts_milisecond_time :: u64
  f_sub :: "'f \<Rightarrow> 'f \<Rightarrow> 'f"
  f_mul :: "'f \<Rightarrow> 'f \<Rightarrow> 'f"
  f_add :: "'f \<Rightarrow> 'f \<Rightarrow> 'f"
  f_of_u64 :: "u64 \<Rightarrow> 'f"
  f_to_u64 :: "'f \<Rightarrow> u64"

text \<open>The counter \<open>sf_gre_option_template\<close> and the number of readings of the clocks.\<close>

record encap_state =
  sf_gre_option_template :: u32
  clock_reads :: nat

definition VLIB_BUFFER_PRE_DATA_SIZE :: int where "VLIB_BUFFER_PRE_DATA_SIZE = 128"

text \<open>
  The header \<open>h\<close> in front of the current position, where the buffer has 128 bytes before its data; writing further
  back overwrites the buffer's own metadata.  Then \<open>sf_wqe_advance\<close> with the negated size.
\<close>

definition header_pos :: "sf_wdata_t \<Rightarrow> u8 list \<Rightarrow> int" where
  "header_pos w h = cur_pos w - int (length h)"

definition write_header :: "sf_wdata_t \<Rightarrow> u8 list \<Rightarrow> int \<Rightarrow> u8" where
  "write_header w h i =
    (if header_pos w h \<le> i \<and> i < cur_pos w then h ! nat (i - header_pos w h) else data_ptr w i)"

definition push_header :: "u8 list \<Rightarrow> sf_wdata_t \<Rightarrow> sf_wdata_t option" where
  "push_header h w =
    (if header_pos w h < - VLIB_BUFFER_PRE_DATA_SIZE then None
     else Some (sf_wqe_advance_wdata (w\<lparr>data_ptr := write_header w h\<rparr>) (- word_of_nat (length h))))"

definition get_action_nocheck :: "sf_action_t list \<Rightarrow> sf_wdata_t \<Rightarrow> sf_action_t option" where
  "get_action_nocheck actions w =
    (let id = arg_to_next w AND 0xFFFF in if id = 0 then None else arr_read actions (unat id - 1))"

definition interface_of :: "sf_interface_t list \<Rightarrow> sf_wdata_t \<Rightarrow> sf_interface_t option" where
  "interface_of intfs w = (if interface_id w = 0 then None else arr_read intfs (unat (interface_id w) - 1))"

section \<open>The Ethernet and IP headers\<close>

definition fill_mac :: "sf_interface_t \<Rightarrow> u8 list \<Rightarrow> u8 list \<Rightarrow> u8 list" where
  "fill_mac intf dmac h = set_bytes 0 dmac (set_bytes 6 (mac intf) h)"

definition fill_ip4 :: "(u8 list \<Rightarrow> u16) \<Rightarrow> sf_interface_t \<Rightarrow> u8 \<Rightarrow> ip_addr_t \<Rightarrow> u16 \<Rightarrow> u8 list \<Rightarrow> u8 list" where
  "fill_ip4 checksum intf dscp daddr len h =
    (let h = set_bytes 15 [dscp] h;
         h = (if ipv4_addr intf \<noteq> [0, 0, 0, 0] then set_bytes 26 (ipv4_addr intf) h else h);
         h = set_bytes 30 (bytes32 (addr_v4 daddr)) h;
         h = set_bytes 16 (bytes16 (clib_net_to_host_u16 len)) h
     in set_bytes 24 (bytes16 (checksum (take 20 (drop 14 h)))) h)"

definition fill_ip6 :: "sf_interface_t \<Rightarrow> u8 \<Rightarrow> ip_addr_t \<Rightarrow> u16 \<Rightarrow> u8 list \<Rightarrow> u8 list" where
  "fill_ip6 intf dscp daddr len h =
    (let h = set_bits8 14 0 4 (drop_bit 4 dscp) h;
         h = set_bits8 15 4 4 (dscp AND 0xF) h;
         h = (if addr_v6_upper (ipv6_addr intf) \<noteq> 0 \<or> addr_v6_lower (ipv6_addr intf) \<noteq> 0
              then set_bytes 22 (ip6_bytes (ipv6_addr intf)) h else h);
         h = set_bytes 38 (ip6_bytes daddr) h
     in set_bytes 18 (bytes16 (clib_net_to_host_u16 len)) h)"

section \<open>GRE\<close>

definition encap_gre :: "'f encap_env \<Rightarrow> encap_state \<Rightarrow> action_buf \<Rightarrow> (action_buf \<times> encap_state) option" where
  "encap_gre E g b =
    do { a \<leftarrow> get_action_nocheck (enc_actions E) (awd b);
         let ad = additional_actions a;
         let len = current_length (awd b);
         if gre_dip_type ad = 4 then
           do { intf \<leftarrow> interface_of (enc_interfaces E) (awd b);
                w \<leftarrow> push_header
                  (fill_ip4 (enc_ip4_checksum E) intf (gre_dscp ad) (gre_dip ad) (IPV4_HEADER_LEN + GRE_HEADER_LEN + len)
                    (fill_mac intf (gre_dmac ad) gre_encap_hdr_template)) (awd b);
                Some (b\<lparr>awd := w\<rparr>, g) }
         else if gre_dip_type ad = 6 then
           do { intf \<leftarrow> interface_of (enc_interfaces E) (awd b);
                w \<leftarrow> push_header
                  (fill_ip6 intf (gre_dscp ad) (gre_dip ad) (GRE_HEADER_LEN + len)
                    (fill_mac intf (gre_dmac ad) gre_encap_hdr_template_ipv6)) (awd b);
                Some (b\<lparr>awd := w\<rparr>, g) }
         else Some (b, g) }"

section \<open>VXLAN\<close>

text \<open>The fields of the action and the length, at the UDP header's offset \<open>o\<close>.\<close>

definition fill_vxlan :: "nat \<Rightarrow> additional_action_t \<Rightarrow> u16 \<Rightarrow> u8 list \<Rightarrow> u8 list" where
  "fill_vxlan off ad len h =
    (let h = set_bytes (off + 2) (bytes16 (vxlan_dport ad)) h;
         h = set_bytes (off + 12) (bytes32 (vxlan_vni ad)) h
     in set_bytes (off + 4) (bytes16 (clib_net_to_host_u16 (UDP_HEADER_LEN + VXLAN_HEADER_LEN + len))) h)"

definition encap_vxlan :: "'f encap_env \<Rightarrow> encap_state \<Rightarrow> action_buf \<Rightarrow> (action_buf \<times> encap_state) option" where
  "encap_vxlan E g b =
    do { a \<leftarrow> get_action_nocheck (enc_actions E) (awd b);
         let ad = additional_actions a;
         let len = current_length (awd b);
         if vxlan_dip_type ad = 4 then
           do { intf \<leftarrow> interface_of (enc_interfaces E) (awd b);
                w \<leftarrow> push_header
                  (fill_ip4 (enc_ip4_checksum E) intf (vxlan_dscp ad) (vxlan_dip ad)
                    (IPV4_HEADER_LEN + UDP_HEADER_LEN + VXLAN_HEADER_LEN + len)
                    (fill_vxlan 34 ad len (fill_mac intf (vxlan_dmac ad) vxlan_encap_hdr_template))) (awd b);
                Some (b\<lparr>awd := w\<rparr>, g) }
         else if vxlan_dip_type ad = 6 then
           do { intf \<leftarrow> interface_of (enc_interfaces E) (awd b);
                w \<leftarrow> push_header
                  (fill_ip6 intf (vxlan_dscp ad) (vxlan_dip ad) (UDP_HEADER_LEN + VXLAN_HEADER_LEN + len)
                    (fill_vxlan 54 ad len (fill_mac intf (vxlan_dmac ad) vxlan_encap_hdr_template_ipv6))) (awd b);
                Some (b\<lparr>awd := w\<rparr>, g) }
         else Some (b, g) }"

section \<open>ERSPAN\<close>

text \<open>
  The 16-bit load and the byte at a distance from \<open>packet + l2_hdr_offset\<close>, in the memory in which the header \<open>h\<close> is
  already being written.
\<close>

definition l2_type :: "sf_wdata_t \<Rightarrow> u8 list \<Rightarrow> u16" where
  "l2_type w h = clib_net_to_host_u16 (ld16 (write_header w h) (uint (l2_hdr_offset w) + 12))"

definition l2_tci :: "sf_wdata_t \<Rightarrow> u8 list \<Rightarrow> u16" where
  "l2_tci w h = clib_net_to_host_u16 (ld16 (write_header w h) (uint (l2_hdr_offset w) + 14))"

definition l2_cos :: "sf_wdata_t \<Rightarrow> u8 list \<Rightarrow> u8" where
  "l2_cos w h = drop_bit 5 (write_header w h (uint (l2_hdr_offset w) + 14))"

definition swap16_at :: "nat \<Rightarrow> u8 list \<Rightarrow> u8 list" where
  "swap16_at k h = set_bytes k (bytes16 (clib_net_to_host_u16 (get16 h k))) h"

definition get32 :: "u8 list \<Rightarrow> nat \<Rightarrow> u32" where
  "get32 h k = ucast (get16 h k) OR push_bit 16 (ucast (get16 h (k + 2)))"

definition swap32_at :: "nat \<Rightarrow> u8 list \<Rightarrow> u8 list" where
  "swap32_at k h = set_bytes k (bytes32 (bswap32 (get32 h k))) h"

text \<open>The GRE header at \<open>o\<close>, the sequence number at \<open>o + 4\<close> and the ERSPAN header at \<open>o + 8\<close>.\<close>

definition fill_erspan_ii :: "nat \<Rightarrow> sf_wdata_t \<Rightarrow> additional_action_t \<Rightarrow> u32 \<Rightarrow> u8 list \<Rightarrow> u8 list" where
  "fill_erspan_ii off w ad seq h =
    (let h = set_bits8 off 4 1 1 h;
         h = set_bytes (off + 4) (bytes32 (bswap32 seq)) h;
         h = (if l2_type w h = 0x8100 then set_bits16 (off + 10) 13 3 (ucast (l2_cos w h)) h else h);
         h = set_bits16 (off + 10) 0 10 (erspan_session_id ad) h;
         h = swap16_at (off + 8) h;
         h = swap16_at (off + 10) h
     in swap32_at (off + 12) h)"

definition erspan_timestamp :: "'f encap_env \<Rightarrow> nat \<Rightarrow> sf_wdata_t \<Rightarrow> u64" where
  "erspan_timestamp E k w =
    f_to_u64 E
      (f_add E
        (f_add E
          (f_mul E (f_sub E (vlib_time_now E k) (ts_vlib_time E)) (f_of_u64 E 1000000000))
          (f_of_u64 E (ts_milisecond_time E)))
        (f_of_u64 E ((timestamp w - clib_cpu_time_now E k) div cpu_clock_pre_second E div 1000000000))) div 100000"

definition fill_erspan_iii :: "nat \<Rightarrow> sf_wdata_t \<Rightarrow> additional_action_t \<Rightarrow> u32 \<Rightarrow> u64 \<Rightarrow> u8 list \<Rightarrow> u8 list" where
  "fill_erspan_iii off w ad seq ts h =
    (let h = set_bits8 off 4 1 1 h;
         h = set_bytes (off + 2) (bytes16 (clib_net_to_host_u16 0x22EB)) h;
         h = set_bytes (off + 4) (bytes32 (bswap32 seq)) h;
         h = (if l2_type w h = 0x8100
              then set_bits16 (off + 8) 0 12 (l2_tci w h AND 0xFFF) (set_bits16 (off + 10) 13 3 (ucast (l2_cos w h)) h) else h);
         h = set_bits16 (off + 10) 0 10 (erspan_session_id ad) h;
         h = set_bytes (off + 12) (bytes32 (bswap32 (ucast ts))) h;
         h = swap16_at (off + 8) h;
         h = swap16_at (off + 10) h
     in swap16_at (off + 18) h)"

definition push_erspan :: "u8 list \<Rightarrow> action_buf \<Rightarrow> encap_state \<Rightarrow> (action_buf \<times> encap_state) option" where
  "push_erspan h b g =
    do { w \<leftarrow> push_header h (awd b);
         let l = additional_list b;
         Some (b\<lparr>awd := w, additional_list := l\<lparr>delta := delta l + word_of_nat (length h)\<rparr>\<rparr>, g) }"

definition encap_erspan_proc ::
  "'f encap_env \<Rightarrow> additional_action_t \<Rightarrow> encap_state \<Rightarrow> action_buf \<Rightarrow> (action_buf \<times> encap_state) option" where
  "encap_erspan_proc E ad g b =
    (let w = awd b;
         len = current_length w;
         seq = sf_gre_option_template g;
         next = g\<lparr>sf_gre_option_template := seq + 1\<rparr>;
         common = (\<lambda>intf tlen h. fill_ip4 (enc_ip4_checksum E) intf (erspan_dscp ad) (erspan_dip ad) tlen
                     (fill_mac intf (erspan_dmac ad) (erspan_encap_common_hdr_template @ h)))
     in if erspan_type ad = 1 then
          do { intf \<leftarrow> interface_of (enc_interfaces E) w;
               push_erspan (common intf (IPV4_HEADER_LEN + GRE_HEADER_LEN + len) []) b g }
        else if erspan_type ad = 2 then
          do { intf \<leftarrow> interface_of (enc_interfaces E) w;
               push_erspan (fill_erspan_ii 34 w ad seq
                 (common intf (IPV4_HEADER_LEN + GRE_HEADER_LEN + 4 + 8 + len) (bytes32 seq @ sf_erspan_ii_header_template))) b next }
        else if erspan_type ad = 3 then
          do { intf \<leftarrow> interface_of (enc_interfaces E) w;
               _ \<leftarrow> (if cpu_clock_pre_second E = 0 then None else Some ());
               push_erspan (fill_erspan_iii 34 w ad seq (erspan_timestamp E (clock_reads g) w)
                 (common intf (IPV4_HEADER_LEN + GRE_HEADER_LEN + 4 + 12 + len) (bytes32 seq @ sf_erspan_iii_header_template))) b
                 (next\<lparr>clock_reads := clock_reads g + 1\<rparr>) }
        else Some (b, g))"

definition encap_erspan_proc_ipv6 ::
  "'f encap_env \<Rightarrow> additional_action_t \<Rightarrow> encap_state \<Rightarrow> action_buf \<Rightarrow> (action_buf \<times> encap_state) option" where
  "encap_erspan_proc_ipv6 E ad g b =
    (let w = awd b;
         len = current_length w;
         seq = sf_gre_option_template g;
         next = g\<lparr>sf_gre_option_template := seq + 1\<rparr>;
         common = (\<lambda>intf tlen h. fill_ip6 intf (erspan_dscp ad) (erspan_dip ad) tlen
                     (fill_mac intf (erspan_dmac ad) (erspan_encap_common_hdr_template_ipv6 @ h)))
     in if erspan_type ad = 1 then
          do { intf \<leftarrow> interface_of (enc_interfaces E) w;
               push_erspan (common intf (GRE_HEADER_LEN + len) []) b g }
        else if erspan_type ad = 2 then
          do { intf \<leftarrow> interface_of (enc_interfaces E) w;
               push_erspan (fill_erspan_ii 54 w ad seq
                 (common intf (GRE_HEADER_LEN + 4 + 8 + len) (bytes32 seq @ sf_erspan_ii_header_template))) b next }
        else if erspan_type ad = 3 then
          do { intf \<leftarrow> interface_of (enc_interfaces E) w;
               _ \<leftarrow> (if cpu_clock_pre_second E = 0 then None else Some ());
               push_erspan (fill_erspan_iii 54 w ad seq (erspan_timestamp E (clock_reads g) w)
                 (common intf (GRE_HEADER_LEN + 4 + 12 + len) (bytes32 seq @ sf_erspan_iii_header_template))) b
                 (next\<lparr>clock_reads := clock_reads g + 1\<rparr>) }
        else Some (b, g))"

definition encap_erspan :: "'f encap_env \<Rightarrow> encap_state \<Rightarrow> action_buf \<Rightarrow> (action_buf \<times> encap_state) option" where
  "encap_erspan E g b =
    do { a \<leftarrow> get_action_nocheck (enc_actions E) (awd b);
         let ad = additional_actions a;
         if erspan_dip_type ad = 4 then encap_erspan_proc E ad g b
         else if erspan_dip_type ad = 6 then encap_erspan_proc_ipv6 E ad g b
         else Some (b, g) }"

section \<open>The nodes\<close>

text \<open>After the header, the next node is popped; the two-packet body writes both headers before it pops.\<close>

definition pop_next :: "action_buf \<Rightarrow> (action_buf \<times> nat) option" where
  "pop_next b =
    do { (next, l) \<leftarrow> pop_addtional_list (additional_list b);
         Some (b\<lparr>additional_list := l\<rparr>, unat next) }"

definition encap_gre_x1 :: "'f encap_env \<Rightarrow> encap_state \<Rightarrow> action_buf \<Rightarrow> ((action_buf \<times> nat) \<times> encap_state) option" where
  "encap_gre_x1 E g b0 = do { (b0, g) \<leftarrow> encap_gre E g b0; r0 \<leftarrow> pop_next b0; Some (r0, g) }"

definition encap_gre_x2 ::
  "'f encap_env \<Rightarrow> encap_state \<Rightarrow> action_buf \<Rightarrow> action_buf \<Rightarrow> ((action_buf \<times> nat) \<times> (action_buf \<times> nat) \<times> encap_state) option" where
  "encap_gre_x2 E g b0 b1 =
    do { (b0, g) \<leftarrow> encap_gre E g b0; (b1, g) \<leftarrow> encap_gre E g b1;
         r0 \<leftarrow> pop_next b0; r1 \<leftarrow> pop_next b1; Some (r0, r1, g) }"

definition encap_vxlan_x1 :: "'f encap_env \<Rightarrow> encap_state \<Rightarrow> action_buf \<Rightarrow> ((action_buf \<times> nat) \<times> encap_state) option" where
  "encap_vxlan_x1 E g b0 = do { (b0, g) \<leftarrow> encap_vxlan E g b0; r0 \<leftarrow> pop_next b0; Some (r0, g) }"

definition encap_vxlan_x2 ::
  "'f encap_env \<Rightarrow> encap_state \<Rightarrow> action_buf \<Rightarrow> action_buf \<Rightarrow> ((action_buf \<times> nat) \<times> (action_buf \<times> nat) \<times> encap_state) option" where
  "encap_vxlan_x2 E g b0 b1 =
    do { (b0, g) \<leftarrow> encap_vxlan E g b0; (b1, g) \<leftarrow> encap_vxlan E g b1;
         r0 \<leftarrow> pop_next b0; r1 \<leftarrow> pop_next b1; Some (r0, r1, g) }"

definition encap_erspan_x1 :: "'f encap_env \<Rightarrow> encap_state \<Rightarrow> action_buf \<Rightarrow> ((action_buf \<times> nat) \<times> encap_state) option" where
  "encap_erspan_x1 E g b0 = do { (b0, g) \<leftarrow> encap_erspan E g b0; r0 \<leftarrow> pop_next b0; Some (r0, g) }"

definition encap_erspan_x2 ::
  "'f encap_env \<Rightarrow> encap_state \<Rightarrow> action_buf \<Rightarrow> action_buf \<Rightarrow> ((action_buf \<times> nat) \<times> (action_buf \<times> nat) \<times> encap_state) option" where
  "encap_erspan_x2 E g b0 b1 =
    do { (b0, g) \<leftarrow> encap_erspan E g b0; (b1, g) \<leftarrow> encap_erspan E g b1;
         r0 \<leftarrow> pop_next b0; r1 \<leftarrow> pop_next b1; Some (r0, r1, g) }"

definition encap_gre_node where "encap_gre_node E = shared_node (encap_gre_x2 E) (encap_gre_x1 E)"
definition encap_vxlan_node where "encap_vxlan_node E = shared_node (encap_vxlan_x2 E) (encap_vxlan_x1 E)"
definition encap_erspan_node where "encap_erspan_node E = shared_node (encap_erspan_x2 E) (encap_erspan_x1 E)"

interpretation gren: dual_shared_node "encap_gre_x2 E" "encap_gre_x1 E" for E
  by unfold_locales (auto simp: encap_gre_x2_def encap_gre_x1_def split: Option.bind_splits prod.splits)

interpretation vxlann: dual_shared_node "encap_vxlan_x2 E" "encap_vxlan_x1 E" for E
  by unfold_locales (auto simp: encap_vxlan_x2_def encap_vxlan_x1_def split: Option.bind_splits prod.splits)

interpretation erspann: dual_shared_node "encap_erspan_x2 E" "encap_erspan_x1 E" for E
  by unfold_locales (auto simp: encap_erspan_x2_def encap_erspan_x1_def split: Option.bind_splits prod.splits)

section \<open>The layout on the wire\<close>

text \<open>Fields in network byte order, and the headers that the nodes are to write.\<close>

definition be16 :: "u16 \<Rightarrow> u8 list" where
  "be16 v = [ucast (drop_bit 8 v), ucast v]"

definition be32 :: "u32 \<Rightarrow> u8 list" where
  "be32 v = be16 (ucast (drop_bit 16 v)) @ be16 (ucast v)"

definition eth_wire :: "u8 list \<Rightarrow> u8 list \<Rightarrow> u16 \<Rightarrow> u8 list" where
  "eth_wire dst src type = dst @ src @ be16 type"

definition ip4_fields :: "u8 \<Rightarrow> u16 \<Rightarrow> u8 \<Rightarrow> u8 list \<Rightarrow> u8 list \<Rightarrow> u8 list \<Rightarrow> u8 list" where
  "ip4_fields tos tlen protocol checksum src dst =
    [0x45, tos] @ be16 tlen @ [0, 0, 0, 0, 0x40, protocol] @ checksum @ src @ dst"

text \<open>The checksum is taken over the header with a checksum field of zero and all other fields final.\<close>

definition ip4_wire :: "(u8 list \<Rightarrow> u16) \<Rightarrow> u8 \<Rightarrow> u16 \<Rightarrow> u8 \<Rightarrow> u8 list \<Rightarrow> u8 list \<Rightarrow> u8 list" where
  "ip4_wire checksum tos tlen protocol src dst =
    ip4_fields tos tlen protocol (bytes16 (checksum (ip4_fields tos tlen protocol [0, 0] src dst))) src dst"

definition ip6_wire :: "u8 \<Rightarrow> u16 \<Rightarrow> u8 \<Rightarrow> u8 list \<Rightarrow> u8 list \<Rightarrow> u8 list" where
  "ip6_wire tc payload next_header src dst =
    [0x60 OR drop_bit 4 tc, push_bit 4 tc, 0, 0] @ be16 payload @ [next_header, 0x40] @ src @ dst"

definition src4 :: "sf_interface_t \<Rightarrow> u8 list" where
  "src4 intf = (if ipv4_addr intf = [0, 0, 0, 0] then [192, 168, 255, 254] else ipv4_addr intf)"

definition src6 :: "sf_interface_t \<Rightarrow> u8 list" where
  "src6 intf =
    (if addr_v6_upper (ipv6_addr intf) = 0 \<and> addr_v6_lower (ipv6_addr intf) = 0
     then [0xab, 0xcd, 0xab, 0xcd, 0xab, 0xcd, 0xab, 0xcd, 0x12, 0x34, 0x12, 0x34, 0x12, 0x34, 0x12, 0x34]
     else ip6_bytes (ipv6_addr intf))"

definition outer4 :: "(u8 list \<Rightarrow> u16) \<Rightarrow> sf_interface_t \<Rightarrow> u8 list \<Rightarrow> u8 \<Rightarrow> ip_addr_t \<Rightarrow> u8 \<Rightarrow> u16 \<Rightarrow> u8 list" where
  "outer4 checksum intf dmac tos daddr protocol payload =
    eth_wire dmac (mac intf) 0x0800 @ ip4_wire checksum tos (20 + payload) protocol (src4 intf) (bytes32 (addr_v4 daddr))"

definition outer6 :: "sf_interface_t \<Rightarrow> u8 list \<Rightarrow> u8 \<Rightarrow> ip_addr_t \<Rightarrow> u8 \<Rightarrow> u16 \<Rightarrow> u8 list" where
  "outer6 intf dmac tc daddr next_header payload =
    eth_wire dmac (mac intf) 0x86DD @ ip6_wire tc payload next_header (src6 intf) (ip6_bytes daddr)"

lemma le16_swap: "bytes16 (clib_net_to_host_u16 v) = be16 v"
proof -
  have "(ucast (clib_net_to_host_u16 v) :: u8) = ucast (drop_bit 8 v)" "(ucast (drop_bit 8 (clib_net_to_host_u16 v)) :: u8) = ucast v"
    by (rule bit_word_eqI; auto simp: clib_net_to_host_u16_def bit_simps)+
  then show ?thesis by (simp add: bytes16_def be16_def)
qed

lemma le32_swap: "bytes32 (bswap32 v) = be32 v"
proof -
  have "(ucast (bswap32 v) :: u16) = clib_net_to_host_u16 (ucast (drop_bit 16 v))"
    "(ucast (drop_bit 16 (bswap32 v)) :: u16) = clib_net_to_host_u16 (ucast v)"
    by (rule bit_word_eqI; auto simp: bswap32_def clib_net_to_host_u16_def bit_simps)+
  then show ?thesis by (simp add: bytes32_def be32_def le16_swap)
qed

lemma be16_length [simp]: "length (be16 v) = 2" by (simp add: be16_def)
lemma be32_length [simp]: "length (be32 v) = 4" by (simp add: be32_def)
lemma le16_length [simp]: "length (bytes16 v) = 2" by (simp add: bytes16_def)
lemma le32_length [simp]: "length (bytes32 v) = 4" by (simp add: bytes32_def)
lemma le64_length [simp]: "length (bytes64 v) = 8" by (simp add: bytes64_def)
lemma ip6_bytes_length [simp]: "length (ip6_bytes a) = 16" by (simp add: ip6_bytes_def)

lemma set_bytes_length [simp]: "k + length bs \<le> length h \<Longrightarrow> length (set_bytes k bs h) = length h"
  by (simp add: set_bytes_def)

lemma gre4_template:
  "gre_template 34 p (ip4_template IP_PRO_GRE (eth_template ETHER_IPV4_NET_ORDER (replicate 38 0)))
    = [0, 0, 0, 0, 0, 0, 0x11, 0x22, 0x33, 0x44, 0x55, 0x66, 8, 0,
       0x45, 0, 0, 0, 0, 0, 0, 0, 0x40, 47, 0, 0, 192, 168, 255, 254, 0, 0, 0, 0, 0, 0] @ be16 p"
proof -
  have "ip4_template IP_PRO_GRE (eth_template ETHER_IPV4_NET_ORDER (replicate 38 0))
    = [0, 0, 0, 0, 0, 0, 0x11, 0x22, 0x33, 0x44, 0x55, 0x66, 8, 0,
       0x45, 0, 0, 0, 0, 0, 0, 0, 0x40, 47, 0, 0, 192, 168, 255, 254, 0, 0, 0, 0, 0, 0, 0, 0]"
    by code_simp
  then show ?thesis by (simp add: gre_template_def le16_swap) (simp add: set_bytes_def bytes16_def)
qed

lemma gre6_template:
  "gre_template 54 p (ip6_template IP_PRO_GRE (eth_template ETHER_IPV6_NET_ORDER (replicate 58 0)))
    = [0, 0, 0, 0, 0, 0, 0x11, 0x22, 0x33, 0x44, 0x55, 0x66, 0x86, 0xDD, 0x60, 0, 0, 0, 0, 0, 47, 0x40,
       0xab, 0xcd, 0xab, 0xcd, 0xab, 0xcd, 0xab, 0xcd, 0x12, 0x34, 0x12, 0x34, 0x12, 0x34, 0x12, 0x34,
       0, 0, 0, 0, 0, 0, 0, 0, 0, 0, 0, 0, 0, 0, 0, 0, 0, 0] @ be16 p"
proof -
  have "ip6_template IP_PRO_GRE (eth_template ETHER_IPV6_NET_ORDER (replicate 58 0))
    = [0, 0, 0, 0, 0, 0, 0x11, 0x22, 0x33, 0x44, 0x55, 0x66, 0x86, 0xDD, 0x60, 0, 0, 0, 0, 0, 47, 0x40,
       0xab, 0xcd, 0xab, 0xcd, 0xab, 0xcd, 0xab, 0xcd, 0x12, 0x34, 0x12, 0x34, 0x12, 0x34, 0x12, 0x34,
       0, 0, 0, 0, 0, 0, 0, 0, 0, 0, 0, 0, 0, 0, 0, 0, 0, 0, 0, 0]"
    by code_simp
  then show ?thesis by (simp add: gre_template_def le16_swap) (simp add: set_bytes_def bytes16_def)
qed

abbreviation ip4_tpl :: "u8 \<Rightarrow> u8 list" where
  "ip4_tpl p \<equiv> [0, 0, 0, 0, 0, 0, 0x11, 0x22, 0x33, 0x44, 0x55, 0x66, 8, 0,
    0x45, 0, 0, 0, 0, 0, 0, 0, 0x40, p, 0, 0, 192, 168, 255, 254, 0, 0, 0, 0]"

abbreviation ip6_tpl :: "u8 \<Rightarrow> u8 list" where
  "ip6_tpl p \<equiv> [0, 0, 0, 0, 0, 0, 0x11, 0x22, 0x33, 0x44, 0x55, 0x66, 0x86, 0xDD, 0x60, 0, 0, 0, 0, 0, p, 0x40,
    0xab, 0xcd, 0xab, 0xcd, 0xab, 0xcd, 0xab, 0xcd, 0x12, 0x34, 0x12, 0x34, 0x12, 0x34, 0x12, 0x34,
    0, 0, 0, 0, 0, 0, 0, 0, 0, 0, 0, 0, 0, 0, 0, 0]"

definition intf_ok :: "sf_interface_t \<Rightarrow> bool" where
  "intf_ok intf \<longleftrightarrow> length (mac intf) = 6 \<and> length (ipv4_addr intf) = 4"

lemma list4: "length xs = 4 \<Longrightarrow> \<exists>a b c d. xs = [a, b, c, d]"
  by (auto simp: numeral_eq_Suc length_Suc_conv)

lemma list6: "length xs = 6 \<Longrightarrow> \<exists>a b c d e f. xs = [a, b, c, d, e, f]"
  by (auto simp: numeral_eq_Suc length_Suc_conv)

lemma list16: "length xs = 16 \<Longrightarrow> \<exists>a b c d e f g h i j k l m n p q. xs = [a, b, c, d, e, f, g, h, i, j, k, l, m, n, p, q]"
  by (auto simp: numeral_eq_Suc length_Suc_conv)

lemma list8: "length xs = 8 \<Longrightarrow> \<exists>a b c d e f g h. xs = [a, b, c, d, e, f, g, h]"
  by (auto simp: numeral_eq_Suc length_Suc_conv)

lemma eth_types: "be16 0x0800 = [8, 0]" "be16 0x86DD = [0x86, 0xDD]"
  by code_simp+

lemma fill_ip4_wire:
  assumes "intf_ok intf" "length dmac = 6"
  shows "fill_ip4 checksum intf tos daddr (20 + payload) (fill_mac intf dmac (ip4_tpl p @ t))
    = outer4 checksum intf dmac tos daddr p payload @ t"
proof -
  obtain a b c d e f where m: "mac intf = [a, b, c, d, e, f]" using assms(1) list6 [of "mac intf"] unfolding intf_ok_def by blast
  obtain a' b' c' d' e' f' where dm: "dmac = [a', b', c', d', e', f']" using assms(2) list6 by blast
  obtain s1 s2 s3 s4 where s: "ipv4_addr intf = [s1, s2, s3, s4]" using assms(1) list4 [of "ipv4_addr intf"] unfolding intf_ok_def by blast
  obtain d1 d2 d3 d4 where da: "bytes32 (addr_v4 daddr) = [d1, d2, d3, d4]" using list4 [OF le32_length] by blast
  obtain l1 l2 where l: "be16 (20 + payload) = [l1, l2]" by (simp add: be16_def)
  show ?thesis
    unfolding fill_ip4_def Let_def le16_swap l da s fill_mac_def m dm outer4_def eth_wire_def ip4_wire_def ip4_fields_def
      src4_def eth_types
    by (simp add: set_bytes_def bytes16_def)
qed

lemma tc_bits:
  "put_bits 0 4 (drop_bit 4 dscp) (0x60 :: u8) = 0x60 OR drop_bit 4 dscp"
  "put_bits 4 4 (dscp AND 0xF) (0 :: u8) = push_bit 4 dscp"
proof -
  have c: "(0x60 :: u8) = push_bit 5 (mask 2)" "(0xF :: u8) = mask 4" by (simp_all add: mask_eq_exp_minus_1 push_bit_eq_mult)
  show "put_bits 0 4 (drop_bit 4 dscp) (0x60 :: u8) = 0x60 OR drop_bit 4 dscp"
    unfolding put_bits_def c by (rule bit_word_eqI) (auto simp: bit_simps dest: bit_imp_le_length)
  show "put_bits 4 4 (dscp AND 0xF) (0 :: u8) = push_bit 4 dscp"
    unfolding put_bits_def c by (rule bit_word_eqI) (auto simp: bit_simps)
qed

lemma fill_ip6_wire:
  assumes "intf_ok intf" "length dmac = 6"
  shows "fill_ip6 intf tc daddr payload (fill_mac intf dmac (ip6_tpl p @ t)) = outer6 intf dmac tc daddr p payload @ t"
proof -
  obtain a b c d e f where m: "mac intf = [a, b, c, d, e, f]" using assms(1) list6 [of "mac intf"] unfolding intf_ok_def by blast
  obtain a' b' c' d' e' f' where dm: "dmac = [a', b', c', d', e', f']" using assms(2) list6 by blast
  obtain l1 l2 where l: "be16 payload = [l1, l2]" by (simp add: be16_def)
  obtain s1 s2 s3 s4 s5 s6 s7 s8 s9 s10 s11 s12 s13 s14 s15 s16
    where s: "ip6_bytes (ipv6_addr intf) = [s1, s2, s3, s4, s5, s6, s7, s8, s9, s10, s11, s12, s13, s14, s15, s16]"
    using list16 [OF ip6_bytes_length [of "ipv6_addr intf"]] by (elim exE) (rule that)
  obtain d1 d2 d3 d4 d5 d6 d7 d8 d9 d10 d11 d12 d13 d14 d15 d16
    where da: "ip6_bytes daddr = [d1, d2, d3, d4, d5, d6, d7, d8, d9, d10, d11, d12, d13, d14, d15, d16]"
    using list16 [OF ip6_bytes_length [of daddr]] by (elim exE) (rule that)
  let ?z = "addr_v6_upper (ipv6_addr intf) = 0 \<and> addr_v6_lower (ipv6_addr intf) = 0"
  show ?thesis
    unfolding fill_ip6_def Let_def le16_swap l da s fill_mac_def m dm outer6_def eth_wire_def ip6_wire_def src6_def eth_types
    by (cases ?z) (auto simp: set_bits8_def tc_bits set_bytes_def)
qed

section \<open>Writing in front of the packet\<close>

definition packet_of :: "sf_wdata_t \<Rightarrow> u8 list" where
  "packet_of w = map (\<lambda>i. data_ptr w (cur_pos w + int i)) [0..<unat (current_length w)]"

definition headroom :: "sf_wdata_t \<Rightarrow> int" where
  "headroom w = cur_pos w + VLIB_BUFFER_PRE_DATA_SIZE"

text \<open>The metadata but for the window and the bytes of the buffer.\<close>

definition same_meta :: "sf_wdata_t \<Rightarrow> sf_wdata_t \<Rightarrow> bool" where
  "same_meta w w' \<longleftrightarrow> (\<exists>m c l. w' = w\<lparr>data_ptr := m, current_data := c, current_length := l\<rparr>)"

definition pushed :: "u8 list \<Rightarrow> sf_wdata_t \<Rightarrow> sf_wdata_t \<Rightarrow> bool" where
  "pushed h w w' \<longleftrightarrow> packet_of w' = h @ packet_of w \<and> same_meta w w' \<and> cur_pos w' = cur_pos w - int (length h)
    \<and> unat (current_length w') = unat (current_length w) + length h
    \<and> (\<forall>i. i < cur_pos w' \<or> cur_pos w \<le> i \<longrightarrow> data_ptr w' i = data_ptr w i)"

lemma push_header_none: "headroom w < int (length h) \<Longrightarrow> push_header h w = None"
  by (simp add: push_header_def header_pos_def headroom_def)

lemma cur_pos_less: "cur_pos w < 2 ^ 15"
  using sint_lt [of "current_data w"] by (simp add: cur_pos_def)

lemma pushed_header:
  assumes room: "int (length h) \<le> headroom w" and len: "unat (current_length w) + length h < 2 ^ 16"
  shows "\<exists>w'. push_header h w = Some w' \<and> pushed h w w'"
proof -
  let ?w' = "sf_wqe_advance_wdata (w\<lparr>data_ptr := write_header w h\<rparr>) (- word_of_nat (length h))"
  have n: "int (length h) < 2 ^ 15 + 128" using room cur_pos_less [of w] by (simp add: headroom_def VLIB_BUFFER_PRE_DATA_SIZE_def)
  have run: "push_header h w = Some ?w'"
    using room by (simp add: push_header_def header_pos_def headroom_def)
  have "current_data ?w' = current_data w - word_of_int (int (length h))" by (simp add: sf_wqe_advance_wdata_def)
  moreover have "sint (current_data w - word_of_int (int (length h)) :: u16) = sint (current_data w) - int (length h)"
  proof -
    have c: "current_data w - word_of_int (int (length h)) = (word_of_int (sint (current_data w) - int (length h)) :: u16)" by simp
    have "sint (current_data w - word_of_int (int (length h)) :: u16) = signed_take_bit 15 (sint (current_data w) - int (length h))"
      unfolding c by (simp only: sint_sbintrunc') simp
    also have "\<dots> = sint (current_data w) - int (length h)"
      using room cur_pos_less [of w] n by (intro signed_take_bit_int_eq_self) (simp_all add: headroom_def cur_pos_def VLIB_BUFFER_PRE_DATA_SIZE_def)
    finally show ?thesis .
  qed
  ultimately have pos: "cur_pos ?w' = cur_pos w - int (length h)" by (simp add: cur_pos_def)
  have "current_length ?w' = current_length w + word_of_nat (length h)" by (simp add: sf_wqe_advance_wdata_def)
  then have length': "unat (current_length ?w') = unat (current_length w) + length h"
    using len by (simp add: unat_word_ariths unat_of_nat)
  have m: "data_ptr ?w' = write_header w h" by (simp add: sf_wqe_advance_wdata_def)
  have "packet_of ?w' = h @ packet_of w"
  proof (rule nth_equalityI)
    show "length (packet_of ?w') = length (h @ packet_of w)" by (simp add: packet_of_def length')
  next
    fix i assume "i < length (packet_of ?w')"
    then have "i < length h + unat (current_length w)" by (simp add: packet_of_def length')
    moreover from this have "\<not> i < length h \<Longrightarrow> [0..<unat (current_length w)] ! (i - length h) = i - length h"
      by (subst nth_upt) auto
    ultimately show "packet_of ?w' ! i = (h @ packet_of w) ! i"
      by (cases "i < length h") (simp_all add: packet_of_def length' pos m write_header_def header_pos_def nth_append algebra_simps)
  qed
  moreover have "same_meta w ?w'"
    unfolding same_meta_def
    by (rule exI [of _ "write_header w h"], rule exI [of _ "current_data ?w'"], rule exI [of _ "current_length ?w'"])
      (simp add: sf_wqe_advance_wdata_def)
  moreover have "\<forall>i. i < cur_pos ?w' \<or> cur_pos w \<le> i \<longrightarrow> data_ptr ?w' i = data_ptr w i"
    unfolding m pos by (simp add: write_header_def header_pos_def)
  ultimately have "pushed h w ?w'" unfolding pushed_def using pos length' by simp
  with run show ?thesis by blast
qed

lemma push_header_some:
  assumes "unat (current_length w) + length h < 2 ^ 16"
  shows "(\<exists>w'. push_header h w = Some w') \<longleftrightarrow> int (length h) \<le> headroom w"
  using pushed_header [OF _ assms] push_header_none [of w h] by force

section \<open>The VXLAN header\<close>

definition vxlan_wire :: "additional_action_t \<Rightarrow> u16 \<Rightarrow> u8 list" where
  "vxlan_wire ad len =
    [0x12, 0xb5] @ bytes16 (vxlan_dport ad) @ be16 (UDP_HEADER_LEN + VXLAN_HEADER_LEN + len) @ [0, 0]
    @ [8, 0, 0, 0] @ bytes32 (vxlan_vni ad)"

lemma set_bytes_append: "length p = k \<Longrightarrow> set_bytes (k + i) bs (p @ t) = p @ set_bytes i bs t"
  by (simp add: set_bytes_def add.assoc)

lemma vxlan4_template: "vxlan_encap_hdr_template = ip4_tpl IP_PRO_UDP @ [0x12, 0xb5, 0, 0, 0, 0, 0, 0, 8, 0, 0, 0, 0, 0, 0, 0]"
  by code_simp

lemma vxlan6_template:
  "vxlan_encap_hdr_template_ipv6 = ip6_tpl IP_PRO_UDP @ [0x12, 0xb5, 0, 0, 0, 0, 0, 0, 8, 0, 0, 0, 0, 0, 0, 0]"
  by code_simp

lemma fill_vxlan_wire:
  assumes "length p = off"
  shows "fill_vxlan off ad len (p @ [0x12, 0xb5, 0, 0, 0, 0, 0, 0, 8, 0, 0, 0, 0, 0, 0, 0]) = p @ vxlan_wire ad len"
proof -
  obtain d1 d2 where d: "bytes16 (vxlan_dport ad) = [d1, d2]" by (simp add: bytes16_def)
  obtain v1 v2 v3 v4 where v: "bytes32 (vxlan_vni ad) = [v1, v2, v3, v4]" using list4 [OF le32_length] by blast
  obtain l1 l2 where l: "be16 (UDP_HEADER_LEN + VXLAN_HEADER_LEN + len) = [l1, l2]" by (simp add: be16_def)
  show ?thesis
    unfolding fill_vxlan_def Let_def le16_swap l d v vxlan_wire_def set_bytes_append [OF assms] by (simp add: set_bytes_def)
qed

section \<open>The ERSPAN headers\<close>

text \<open>What the ERSPAN header tells of the tag of the mirrored frame.\<close>

definition tagged :: "sf_wdata_t \<Rightarrow> bool" where
  "tagged w \<longleftrightarrow> clib_net_to_host_u16 (ld16 (data_ptr w) (uint (l2_hdr_offset w) + 12)) = 0x8100"

definition mirror_cos :: "sf_wdata_t \<Rightarrow> u16" where
  "mirror_cos w = (if tagged w then ucast (drop_bit 5 (data_ptr w (uint (l2_hdr_offset w) + 14))) else 0)"

definition mirror_vlan :: "sf_wdata_t \<Rightarrow> u16" where
  "mirror_vlan w = (if tagged w then clib_net_to_host_u16 (ld16 (data_ptr w) (uint (l2_hdr_offset w) + 14)) AND 0xFFF else 0)"

definition gre_seq_wire :: "u16 \<Rightarrow> u32 \<Rightarrow> u8 list" where
  "gre_seq_wire protocol seq = [0x10, 0] @ be16 protocol @ be32 seq"

definition erspan_ii_wire :: "sf_wdata_t \<Rightarrow> u16 \<Rightarrow> u8 list" where
  "erspan_ii_wire w sid = be16 0x1000 @ be16 ((push_bit 13 (mirror_cos w) OR 0x1800) OR (sid AND 0x3FF)) @ be32 0"

definition erspan_iii_wire :: "sf_wdata_t \<Rightarrow> u16 \<Rightarrow> u64 \<Rightarrow> u8 list" where
  "erspan_iii_wire w sid ts =
    be16 (0x2000 OR mirror_vlan w) @ be16 (push_bit 13 (mirror_cos w) OR (sid AND 0x3FF)) @ be32 (ucast ts)
      @ be16 0 @ be16 0x8000"

lemma set_chunk: "length pre = k \<Longrightarrow> length old = length bs \<Longrightarrow> set_bytes k bs (pre @ old @ post) = pre @ bs @ post"
  by (simp add: set_bytes_def)

lemma get16_le: "length pre = k \<Longrightarrow> get16 (pre @ bytes16 v @ post) k = v"
proof -
  assume k: "length pre = k"
  have "ucast (ucast v :: u8) OR push_bit 8 (ucast (ucast (drop_bit 8 v) :: u8)) = v"
    by (rule bit_word_eqI) (auto simp: bit_simps not_less)
  then show ?thesis using k unfolding get16_def by (simp add: bytes16_def nth_append)
qed

lemma set_bits16_le:
  assumes "length pre = k"
  shows "set_bits16 k p n v (pre @ bytes16 x @ post) = pre @ bytes16 (put_bits p n v x) @ post"
  unfolding set_bits16_def get16_le [OF assms] by (simp add: set_chunk [OF assms])

lemma swap16_le: "length pre = k \<Longrightarrow> swap16_at k (pre @ bytes16 x @ post) = pre @ be16 x @ post"
  by (simp add: swap16_at_def get16_le set_chunk le16_swap)

lemma swap32_le:
  assumes "length pre = k"
  shows "swap32_at k (pre @ bytes32 x @ post) = pre @ be32 x @ post"
proof -
  have lo: "get16 (pre @ bytes32 x @ post) k = ucast x"
    using get16_le [OF assms, of "ucast x" "bytes16 (ucast (drop_bit 16 x)) @ post"] by (simp add: bytes32_def)
  have hi: "get16 (pre @ bytes32 x @ post) (k + 2) = ucast (drop_bit 16 x)"
    using get16_le [of "pre @ bytes16 (ucast x)" "k + 2" "ucast (drop_bit 16 x)" post] assms by (simp add: bytes32_def)
  have "ucast (ucast x :: u16) OR push_bit 16 (ucast (ucast (drop_bit 16 x) :: u16)) = x"
    by (rule bit_word_eqI) (auto simp: bit_simps not_less)
  then have "get32 (pre @ bytes32 x @ post) k = x" unfolding get32_def lo hi .
  then show ?thesis using assms by (simp add: swap32_at_def set_chunk le32_swap)
qed

lemma flag_S: "length pre = k \<Longrightarrow> set_bits8 k 4 1 1 (pre @ 0 # post) = pre @ 0x10 # post"
proof -
  assume k: "length pre = k"
  have b: "put_bits 4 1 1 (0 :: u8) = 0x10" by code_simp
  have at: "(pre @ 0 # post) ! k = 0" using k by (simp add: nth_append)
  show ?thesis unfolding set_bits8_def at b using set_chunk [OF k, of "[0]" "[0x10]" post] by simp
qed

lemma write_header_above: "cur_pos w \<le> i \<Longrightarrow> write_header w h i = data_ptr w i"
  by (simp add: write_header_def)

lemma l2_reads:
  assumes "cur_pos w \<le> uint (l2_hdr_offset w)"
  shows "l2_type w h = 0x8100 \<longleftrightarrow> tagged w"
    "tagged w \<Longrightarrow> ucast (l2_cos w h) = mirror_cos w"
    "tagged w \<Longrightarrow> l2_tci w h AND 0xFFF = mirror_vlan w"
  using assms by (simp_all add: l2_type_def tagged_def l2_cos_def mirror_cos_def l2_tci_def mirror_vlan_def ld16_def write_header_above)

lemma erspan_bits:
  "put_bits 13 3 (ucast (c :: u8)) (0x1800 :: u16) = push_bit 13 (ucast c) OR 0x1800"
  "put_bits 13 3 (ucast (c :: u8)) (0 :: u16) = push_bit 13 (ucast c)"
  "put_bits 0 10 sid ((push_bit 13 x OR 0x1800) :: u16) = (push_bit 13 x OR 0x1800) OR (sid AND 0x3FF)"
  "put_bits 0 10 sid (push_bit 13 x :: u16) = push_bit 13 x OR (sid AND 0x3FF)"
  "put_bits 0 12 (y AND 0xFFF) (0x2000 :: u16) = 0x2000 OR (y AND 0xFFF)"
proof -
  have c: "(0x1800 :: u16) = push_bit 11 (mask 2)" "(0x3FF :: u16) = mask 10" "(0xFFF :: u16) = mask 12"
    by (simp_all add: mask_eq_exp_minus_1 push_bit_eq_mult)
  show "put_bits 13 3 (ucast (c :: u8)) (0x1800 :: u16) = push_bit 13 (ucast c) OR 0x1800"
    unfolding c put_bits_def by (rule bit_word_eqI) (auto simp: bit_simps)
  show "put_bits 13 3 (ucast (c :: u8)) (0 :: u16) = push_bit 13 (ucast c)"
    unfolding c put_bits_def by (rule bit_word_eqI) (auto simp: bit_simps)
  show "put_bits 0 10 sid ((push_bit 13 x OR 0x1800) :: u16) = (push_bit 13 x OR 0x1800) OR (sid AND 0x3FF)"
    unfolding c put_bits_def by (rule bit_word_eqI) (auto simp: bit_simps)
  show "put_bits 0 10 sid (push_bit 13 x :: u16) = push_bit 13 x OR (sid AND 0x3FF)"
    unfolding c put_bits_def by (rule bit_word_eqI) (auto simp: bit_simps)
  have d: "(0x2000 :: u16) AND NOT (push_bit 0 (mask 12)) = 0x2000" by code_simp
  show "put_bits 0 12 (y AND 0xFFF) (0x2000 :: u16) = 0x2000 OR (y AND 0xFFF)"
    unfolding put_bits_def d unfolding c(3) by (simp add: and.assoc)
qed

lemma erspan_ii_template: "sf_erspan_ii_header_template = bytes16 0x1000 @ bytes16 0x1800 @ bytes32 0"
  by code_simp

lemma erspan_iii_template:
  "sf_erspan_iii_header_template = bytes16 0x2000 @ bytes16 0 @ bytes32 0 @ bytes16 0 @ bytes16 0x8000"
  by code_simp

lemma gre_seq_step:
  assumes "length p = off"
  shows "set_bytes (off + 4) (bytes32 (bswap32 seq)) (set_bits8 off 4 1 1 (p @ [0, 0] @ be16 q @ bytes32 x @ t)) = (p @ gre_seq_wire q seq) @ t"
proof -
  have "set_bits8 off 4 1 1 (p @ [0, 0] @ be16 q @ bytes32 x @ t) = (p @ [0x10, 0] @ be16 q) @ bytes32 x @ t"
    using flag_S [OF assms, of "[0] @ be16 q @ bytes32 x @ t"] by simp
  then show ?thesis
    using set_chunk [of "p @ [0x10, 0] @ be16 q" "off + 4" "bytes32 x" "be32 seq" t] assms by (simp add: le32_swap gre_seq_wire_def)
qed

lemma fill_erspan_ii_wire:
  assumes p: "length p = off" and l2: "cur_pos w \<le> uint (l2_hdr_offset w)"
  shows "fill_erspan_ii off w ad seq (p @ [0, 0] @ be16 q @ bytes32 x @ sf_erspan_ii_header_template)
    = p @ gre_seq_wire q seq @ erspan_ii_wire w (erspan_session_id ad)"
proof -
  let ?Q = "p @ gre_seq_wire q seq" and ?c = "mirror_cos w"
  have Q: "length ?Q = off + 8" "length (?Q @ bytes16 0x1000) = off + 10" "length (?Q @ be16 0x1000) = off + 10"
    using p by (simp_all add: gre_seq_wire_def)
  have s1: "set_bytes (off + 4) (bytes32 (bswap32 seq)) (set_bits8 off 4 1 1 (p @ [0, 0] @ be16 q @ bytes32 x @ sf_erspan_ii_header_template))
    = ?Q @ bytes16 0x1000 @ bytes16 0x1800 @ bytes32 0"
    by (simp only: gre_seq_step [OF p] erspan_ii_template)
  have s2: "(if l2_type w h = 0x8100 then set_bits16 (off + 10) 13 3 (ucast (l2_cos w h)) h else h)
    = (?Q @ bytes16 0x1000) @ bytes16 (push_bit 13 ?c OR 0x1800) @ bytes32 0" if h: "h = ?Q @ bytes16 0x1000 @ bytes16 0x1800 @ bytes32 0" for h
  proof (cases "tagged w")
    case True
    have "set_bits16 (off + 10) 13 3 (ucast (l2_cos w h)) ((?Q @ bytes16 0x1000) @ bytes16 0x1800 @ bytes32 0)
      = (?Q @ bytes16 0x1000) @ bytes16 (push_bit 13 (ucast (l2_cos w h)) OR 0x1800) @ bytes32 0"
      unfolding set_bits16_le [OF Q(2)] erspan_bits(1) ..
    then show ?thesis using True l2_reads [OF l2, of h] h by simp
  next
    case False
    then show ?thesis using l2_reads(1) [OF l2, of h] h by (simp add: mirror_cos_def)
  qed
  have s3: "set_bits16 (off + 10) 0 10 s ((?Q @ bytes16 0x1000) @ bytes16 (push_bit 13 ?c OR 0x1800) @ bytes32 0)
    = ?Q @ bytes16 0x1000 @ bytes16 ((push_bit 13 ?c OR 0x1800) OR (s AND 0x3FF)) @ bytes32 0" for s
    unfolding set_bits16_le [OF Q(2)] erspan_bits(3) by simp
  have s4: "swap16_at (off + 8) (?Q @ bytes16 0x1000 @ bytes16 y @ bytes32 0) = (?Q @ be16 0x1000) @ bytes16 y @ bytes32 0" for y
    unfolding swap16_le [OF Q(1)] by simp
  have s5: "swap16_at (off + 10) ((?Q @ be16 0x1000) @ bytes16 y @ bytes32 0) = (?Q @ be16 0x1000 @ be16 y) @ bytes32 0 @ []" for y
    unfolding swap16_le [OF Q(3)] by simp
  have s6: "swap32_at (off + 12) ((?Q @ be16 0x1000 @ be16 y) @ bytes32 0 @ []) = ?Q @ be16 0x1000 @ be16 y @ be32 0" for y
    using swap32_le [of "?Q @ be16 0x1000 @ be16 y" "off + 12" 0 "[]"] Q by simp
  show ?thesis
    unfolding fill_erspan_ii_def Let_def s1 s2 [OF refl] s3 s4 s5 s6 erspan_ii_wire_def by simp
qed

lemma fill_erspan_iii_wire:
  assumes p: "length p = off" and l2: "cur_pos w \<le> uint (l2_hdr_offset w)"
  shows "fill_erspan_iii off w ad seq ts (p @ [0, 0] @ be16 q @ bytes32 x @ sf_erspan_iii_header_template)
    = p @ gre_seq_wire 0x22EB seq @ erspan_iii_wire w (erspan_session_id ad) ts"
proof -
  let ?Q = "p @ gre_seq_wire 0x22EB seq" and ?c = "mirror_cos w" and ?v = "0x2000 OR mirror_vlan w"
  let ?E = "bytes32 0 @ bytes16 0 @ bytes16 0x8000"
  have Q: "length ?Q = off + 8" "length (?Q @ bytes16 y) = off + 10" "length (?Q @ be16 y) = off + 10" for y
    using p by (simp_all add: gre_seq_wire_def)
  have s0: "set_bytes (off + 2) (bytes16 (clib_net_to_host_u16 0x22EB)) (set_bits8 off 4 1 1 (p @ [0, 0] @ be16 q @ bytes32 x @ t))
    = set_bits8 off 4 1 1 (p @ [0, 0] @ be16 0x22EB @ bytes32 x @ t)" for t
  proof -
    have f: "set_bits8 off 4 1 1 (p @ [0, 0] @ u) = (p @ [0x10, 0]) @ u" for u
      using flag_S [OF p, of "[0] @ u"] by simp
    show ?thesis unfolding f le16_swap
      using set_chunk [of "p @ [0x10, 0]" "off + 2" "be16 q" "be16 0x22EB" "bytes32 x @ t"] p by simp
  qed
  have s1: "set_bytes (off + 4) (bytes32 (bswap32 seq)) (set_bits8 off 4 1 1 (p @ [0, 0] @ be16 0x22EB @ bytes32 x @ sf_erspan_iii_header_template))
    = ?Q @ bytes16 0x2000 @ bytes16 0 @ ?E"
    by (simp only: gre_seq_step [OF p] erspan_iii_template)
  have s2: "(if l2_type w h = 0x8100
      then set_bits16 (off + 8) 0 12 (l2_tci w h AND 0xFFF) (set_bits16 (off + 10) 13 3 (ucast (l2_cos w h)) h) else h)
    = (?Q @ bytes16 ?v) @ bytes16 (push_bit 13 ?c) @ ?E" if h: "h = ?Q @ bytes16 0x2000 @ bytes16 0 @ ?E" for h
  proof (cases "tagged w")
    case True
    have "set_bits16 (off + 10) 13 3 (ucast (l2_cos w h)) ((?Q @ bytes16 0x2000) @ bytes16 0 @ ?E)
      = ?Q @ bytes16 0x2000 @ bytes16 (push_bit 13 (ucast (l2_cos w h))) @ ?E"
      unfolding set_bits16_le [OF Q(2)] erspan_bits(2) by simp
    moreover have "set_bits16 (off + 8) 0 12 (l2_tci w h AND 0xFFF) (?Q @ bytes16 0x2000 @ u) = ?Q @ bytes16 ?v @ u" for u
      using erspan_bits(5) [of "l2_tci w h"] unfolding set_bits16_le [OF Q(1)] l2_reads(3) [OF l2 True] by simp
    ultimately show ?thesis using True l2_reads [OF l2, of h] h by simp
  next
    case False
    then show ?thesis using l2_reads(1) [OF l2, of h] h by (simp add: mirror_cos_def mirror_vlan_def)
  qed
  have s3: "set_bits16 (off + 10) 0 10 s ((?Q @ bytes16 ?v) @ bytes16 (push_bit 13 ?c) @ ?E)
    = (?Q @ bytes16 ?v @ bytes16 (push_bit 13 ?c OR (s AND 0x3FF))) @ ?E" for s
    unfolding set_bits16_le [OF Q(2)] erspan_bits(4) by simp
  have s4: "set_bytes (off + 12) (bytes32 (bswap32 n)) ((?Q @ bytes16 ?v @ bytes16 y) @ ?E)
    = ?Q @ bytes16 ?v @ bytes16 y @ be32 n @ bytes16 0 @ bytes16 0x8000" for n y
    using set_chunk [of "?Q @ bytes16 ?v @ bytes16 y" "off + 12" "bytes32 0" "be32 n" "bytes16 0 @ bytes16 0x8000"] Q by (simp add: le32_swap)
  have s5: "swap16_at (off + 8) (?Q @ bytes16 ?v @ bytes16 y @ u) = (?Q @ be16 ?v) @ bytes16 y @ u" for y u
    unfolding swap16_le [OF Q(1)] by simp
  have s6: "swap16_at (off + 10) ((?Q @ be16 ?v) @ bytes16 y @ be32 n @ bytes16 0 @ bytes16 0x8000)
    = (?Q @ be16 ?v @ be16 y @ be32 n @ bytes16 0) @ bytes16 0x8000 @ []" for y n
    unfolding swap16_le [OF Q(3)] by simp
  have s7: "swap16_at (off + 18) ((?Q @ be16 ?v @ be16 y @ be32 n @ bytes16 0) @ bytes16 0x8000 @ [])
    = ?Q @ be16 ?v @ be16 y @ be32 n @ be16 0 @ be16 0x8000" for y n
    using swap16_le [where pre = "?Q @ be16 ?v @ be16 y @ be32 n @ bytes16 0" and k = "off + 18" and x = "0x8000" and post = "[]"] Q
    by (simp add: bytes16_def be16_def)
  show ?thesis
    unfolding fill_erspan_iii_def Let_def s0 s1 s2 [OF refl] s3 s4 s5 s6 s7 erspan_iii_wire_def by simp
qed

section \<open>What the nodes write\<close>

definition gre_header :: "(u8 list \<Rightarrow> u16) \<Rightarrow> sf_interface_t \<Rightarrow> additional_action_t \<Rightarrow> u16 \<Rightarrow> u8 list" where
  "gre_header checksum intf ad len =
    (if gre_dip_type ad = 4 then outer4 checksum intf (gre_dmac ad) (gre_dscp ad) (gre_dip ad) IP_PRO_GRE (4 + len)
     else outer6 intf (gre_dmac ad) (gre_dscp ad) (gre_dip ad) IP_PRO_GRE (4 + len)) @ be16 0 @ be16 0x6558"

definition vxlan_header :: "(u8 list \<Rightarrow> u16) \<Rightarrow> sf_interface_t \<Rightarrow> additional_action_t \<Rightarrow> u16 \<Rightarrow> u8 list" where
  "vxlan_header checksum intf ad len =
    (if vxlan_dip_type ad = 4 then outer4 checksum intf (vxlan_dmac ad) (vxlan_dscp ad) (vxlan_dip ad) IP_PRO_UDP (8 + 8 + len)
     else outer6 intf (vxlan_dmac ad) (vxlan_dscp ad) (vxlan_dip ad) IP_PRO_UDP (8 + 8 + len)) @ vxlan_wire ad len"

text \<open>Type 1 has only the GRE header; the sequence number and the time are those of the packet.\<close>

definition erspan_wire :: "additional_action_t \<Rightarrow> sf_wdata_t \<Rightarrow> u32 \<Rightarrow> u64 \<Rightarrow> u8 list" where
  "erspan_wire ad w seq ts =
    (if erspan_type ad = 1 then be16 0 @ be16 0x88BE
     else if erspan_type ad = 2 then gre_seq_wire 0x88BE seq @ erspan_ii_wire w (erspan_session_id ad)
     else gre_seq_wire 0x22EB seq @ erspan_iii_wire w (erspan_session_id ad) ts)"

definition erspan_header ::
  "(u8 list \<Rightarrow> u16) \<Rightarrow> sf_interface_t \<Rightarrow> additional_action_t \<Rightarrow> sf_wdata_t \<Rightarrow> u32 \<Rightarrow> u64 \<Rightarrow> u8 list" where
  "erspan_header checksum intf ad w seq ts =
    (let wire = erspan_wire ad w seq ts; payload = word_of_nat (length wire) + current_length w
     in (if erspan_dip_type ad = 4 then outer4 checksum intf (erspan_dmac ad) (erspan_dscp ad) (erspan_dip ad) IP_PRO_GRE payload
         else outer6 intf (erspan_dmac ad) (erspan_dscp ad) (erspan_dip ad) IP_PRO_GRE payload) @ wire)"

definition outer_size :: "u8 \<Rightarrow> nat" where
  "outer_size dip_type = (if dip_type = 4 then 34 else 54)"

definition erspan_size :: "additional_action_t \<Rightarrow> nat" where
  "erspan_size ad = outer_size (erspan_dip_type ad) + (if erspan_type ad = 1 then 4 else if erspan_type ad = 2 then 16 else 20)"

lemma outer_length:
  assumes "intf_ok intf" "length dmac = 6"
  shows "length (outer4 checksum intf dmac tos daddr p payload) = 34" "length (outer6 intf dmac tos daddr p payload) = 54"
  using assms by (auto simp: outer4_def outer6_def eth_wire_def ip4_wire_def ip4_fields_def ip6_wire_def src4_def src6_def intf_ok_def)

lemma gre_header_length:
  "intf_ok intf \<Longrightarrow> length (gre_dmac ad) = 6 \<Longrightarrow> length (gre_header checksum intf ad len) = outer_size (gre_dip_type ad) + 4"
  by (simp add: gre_header_def outer_length outer_size_def)

lemma vxlan_header_length:
  "intf_ok intf \<Longrightarrow> length (vxlan_dmac ad) = 6 \<Longrightarrow> length (vxlan_header checksum intf ad len) = outer_size (vxlan_dip_type ad) + 16"
  by (simp add: vxlan_header_def outer_length outer_size_def vxlan_wire_def)

lemma erspan_wire_length: "length (erspan_wire ad w seq ts) = (if erspan_type ad = 1 then 4 else if erspan_type ad = 2 then 16 else 20)"
  by (simp add: erspan_wire_def gre_seq_wire_def erspan_ii_wire_def erspan_iii_wire_def)

lemma erspan_header_length:
  "intf_ok intf \<Longrightarrow> length (erspan_dmac ad) = 6 \<Longrightarrow> length (erspan_header checksum intf ad w seq ts) = erspan_size ad"
  by (simp add: erspan_header_def outer_length erspan_size_def outer_size_def erspan_wire_length Let_def)

text \<open>Each node writes its header or overruns the buffer, nothing else.\<close>

lemma encap_gre_eq:
  assumes a: "get_action_nocheck (enc_actions E) (awd b) = Some a" and i: "interface_of (enc_interfaces E) (awd b) = Some intf"
    and ok: "intf_ok intf" "length (gre_dmac (additional_actions a)) = 6" and t: "gre_dip_type (additional_actions a) \<in> {4, 6}"
  shows "encap_gre E g b =
    do { w \<leftarrow> push_header (gre_header (enc_ip4_checksum E) intf (additional_actions a) (current_length (awd b))) (awd b);
         Some (b\<lparr>awd := w\<rparr>, g) }"
proof -
  have l: "IPV4_HEADER_LEN + GRE_HEADER_LEN + x = 20 + (4 + x)" "GRE_HEADER_LEN + x = 4 + x" for x
    by (simp_all add: IPV4_HEADER_LEN_def GRE_HEADER_LEN_def)
  have t4: "gre_encap_hdr_template = ip4_tpl IP_PRO_GRE @ be16 0 @ be16 0x6558"
    unfolding gre_encap_hdr_template_def gre4_template by (simp add: IP_PRO_GRE_def be16_def)
  have t6: "gre_encap_hdr_template_ipv6 = ip6_tpl IP_PRO_GRE @ be16 0 @ be16 0x6558"
    unfolding gre_encap_hdr_template_ipv6_def gre6_template by (simp add: IP_PRO_GRE_def be16_def)
  let ?ad = "additional_actions a" and ?len = "current_length (awd b)"
  have f4: "fill_ip4 (enc_ip4_checksum E) intf (gre_dscp ?ad) (gre_dip ?ad) (IPV4_HEADER_LEN + GRE_HEADER_LEN + ?len)
      (fill_mac intf (gre_dmac ?ad) gre_encap_hdr_template)
    = outer4 (enc_ip4_checksum E) intf (gre_dmac ?ad) (gre_dscp ?ad) (gre_dip ?ad) IP_PRO_GRE (4 + ?len) @ be16 0 @ be16 0x6558"
    unfolding l t4 by (rule fill_ip4_wire [OF ok])
  have f6: "fill_ip6 intf (gre_dscp ?ad) (gre_dip ?ad) (GRE_HEADER_LEN + ?len) (fill_mac intf (gre_dmac ?ad) gre_encap_hdr_template_ipv6)
    = outer6 intf (gre_dmac ?ad) (gre_dscp ?ad) (gre_dip ?ad) IP_PRO_GRE (4 + ?len) @ be16 0 @ be16 0x6558"
    unfolding l t6 by (rule fill_ip6_wire [OF ok])
  show ?thesis using t by (auto simp: encap_gre_def a i f4 f6 gre_header_def Let_def)
qed

lemma encap_vxlan_eq:
  assumes a: "get_action_nocheck (enc_actions E) (awd b) = Some a" and i: "interface_of (enc_interfaces E) (awd b) = Some intf"
    and ok: "intf_ok intf" "length (vxlan_dmac (additional_actions a)) = 6" and t: "vxlan_dip_type (additional_actions a) \<in> {4, 6}"
  shows "encap_vxlan E g b =
    do { w \<leftarrow> push_header (vxlan_header (enc_ip4_checksum E) intf (additional_actions a) (current_length (awd b))) (awd b);
         Some (b\<lparr>awd := w\<rparr>, g) }"
proof -
  have l: "IPV4_HEADER_LEN + UDP_HEADER_LEN + VXLAN_HEADER_LEN + x = 20 + (8 + 8 + x)" "UDP_HEADER_LEN + VXLAN_HEADER_LEN + x = 8 + 8 + x" for x
    by (simp_all add: IPV4_HEADER_LEN_def UDP_HEADER_LEN_def VXLAN_HEADER_LEN_def)
  let ?t = "[0x12, 0xb5, 0, 0, 0, 0, 0, 0, 8, 0, 0, 0, 0, 0, 0, 0] :: u8 list"
  let ?ad = "additional_actions a" and ?len = "current_length (awd b)"
  have m: "length (fill_mac intf (vxlan_dmac ?ad) (ip4_tpl IP_PRO_UDP)) = 34" "length (fill_mac intf (vxlan_dmac ?ad) (ip6_tpl IP_PRO_UDP)) = 54"
    and s: "fill_mac intf (vxlan_dmac ?ad) (ip4_tpl IP_PRO_UDP @ u) = fill_mac intf (vxlan_dmac ?ad) (ip4_tpl IP_PRO_UDP) @ u"
      "fill_mac intf (vxlan_dmac ?ad) (ip6_tpl IP_PRO_UDP @ u) = fill_mac intf (vxlan_dmac ?ad) (ip6_tpl IP_PRO_UDP) @ u" for u
    using ok by (simp_all add: fill_mac_def set_bytes_def intf_ok_def)
  have f4: "fill_vxlan 34 ?ad ?len (fill_mac intf (vxlan_dmac ?ad) vxlan_encap_hdr_template)
    = fill_mac intf (vxlan_dmac ?ad) (ip4_tpl IP_PRO_UDP @ vxlan_wire ?ad ?len)"
    unfolding vxlan4_template s by (rule fill_vxlan_wire [OF m(1)])
  have e4: "fill_ip4 (enc_ip4_checksum E) intf (vxlan_dscp ?ad) (vxlan_dip ?ad) (IPV4_HEADER_LEN + UDP_HEADER_LEN + VXLAN_HEADER_LEN + ?len)
      (fill_vxlan 34 ?ad ?len (fill_mac intf (vxlan_dmac ?ad) vxlan_encap_hdr_template))
    = outer4 (enc_ip4_checksum E) intf (vxlan_dmac ?ad) (vxlan_dscp ?ad) (vxlan_dip ?ad) IP_PRO_UDP (8 + 8 + ?len) @ vxlan_wire ?ad ?len"
    unfolding l f4 by (rule fill_ip4_wire [OF ok])
  have f6: "fill_vxlan 54 ?ad ?len (fill_mac intf (vxlan_dmac ?ad) vxlan_encap_hdr_template_ipv6)
    = fill_mac intf (vxlan_dmac ?ad) (ip6_tpl IP_PRO_UDP @ vxlan_wire ?ad ?len)"
    unfolding vxlan6_template s by (rule fill_vxlan_wire [OF m(2)])
  have e6: "fill_ip6 intf (vxlan_dscp ?ad) (vxlan_dip ?ad) (UDP_HEADER_LEN + VXLAN_HEADER_LEN + ?len)
      (fill_vxlan 54 ?ad ?len (fill_mac intf (vxlan_dmac ?ad) vxlan_encap_hdr_template_ipv6))
    = outer6 intf (vxlan_dmac ?ad) (vxlan_dscp ?ad) (vxlan_dip ?ad) IP_PRO_UDP (8 + 8 + ?len) @ vxlan_wire ?ad ?len"
    unfolding l f6 by (rule fill_ip6_wire [OF ok])
  show ?thesis
    using t by (auto simp: encap_vxlan_def a i e4 e6 vxlan_header_def Let_def)
qed

definition erspan_next :: "additional_action_t \<Rightarrow> encap_state \<Rightarrow> encap_state" where
  "erspan_next ad g =
    (if erspan_type ad = 1 then g
     else if erspan_type ad = 2 then g\<lparr>sf_gre_option_template := sf_gre_option_template g + 1\<rparr>
     else g\<lparr>sf_gre_option_template := sf_gre_option_template g + 1, clock_reads := clock_reads g + 1\<rparr>)"

definition grow_delta :: "nat \<Rightarrow> action_buf \<Rightarrow> action_buf" where
  "grow_delta n b = b\<lparr>additional_list := (additional_list b)\<lparr>delta := delta (additional_list b) + word_of_nat n\<rparr>\<rparr>"

lemma push_erspan_eq:
  "push_erspan h b g = do { w \<leftarrow> push_header h (awd b); Some ((grow_delta (length h) b)\<lparr>awd := w\<rparr>, g) }"
  by (cases b) (simp add: push_erspan_def grow_delta_def Let_def)

lemma erspan_common:
  assumes "intf_ok intf" "length dmac = 6"
  shows "fill_ip4 checksum intf tos daddr (20 + pl) (fill_mac intf dmac (erspan_encap_common_hdr_template @ t))
      = outer4 checksum intf dmac tos daddr IP_PRO_GRE pl @ [0, 0] @ be16 0x88BE @ t"
    "fill_ip6 intf tos daddr pl (fill_mac intf dmac (erspan_encap_common_hdr_template_ipv6 @ t))
      = outer6 intf dmac tos daddr IP_PRO_GRE pl @ [0, 0] @ be16 0x88BE @ t"
proof -
  have t4: "erspan_encap_common_hdr_template @ t = ip4_tpl IP_PRO_GRE @ [0, 0] @ be16 0x88BE @ t"
    unfolding erspan_encap_common_hdr_template_def gre4_template by (simp add: IP_PRO_GRE_def)
  have t6: "erspan_encap_common_hdr_template_ipv6 @ t = ip6_tpl IP_PRO_GRE @ [0, 0] @ be16 0x88BE @ t"
    unfolding erspan_encap_common_hdr_template_ipv6_def gre6_template by (simp add: IP_PRO_GRE_def)
  show "fill_ip4 checksum intf tos daddr (20 + pl) (fill_mac intf dmac (erspan_encap_common_hdr_template @ t))
      = outer4 checksum intf dmac tos daddr IP_PRO_GRE pl @ [0, 0] @ be16 0x88BE @ t"
    unfolding t4 by (rule fill_ip4_wire [OF assms])
  show "fill_ip6 intf tos daddr pl (fill_mac intf dmac (erspan_encap_common_hdr_template_ipv6 @ t))
      = outer6 intf dmac tos daddr IP_PRO_GRE pl @ [0, 0] @ be16 0x88BE @ t"
    unfolding t6 by (rule fill_ip6_wire [OF assms])
qed

lemma encap_erspan_eq:
  assumes a: "get_action_nocheck (enc_actions E) (awd b) = Some a" and i: "interface_of (enc_interfaces E) (awd b) = Some intf"
    and ok: "intf_ok intf" "length (erspan_dmac (additional_actions a)) = 6"
    and t: "erspan_dip_type (additional_actions a) \<in> {4, 6}" "erspan_type (additional_actions a) \<in> {1, 2, 3}"
    and c: "cpu_clock_pre_second E \<noteq> 0" and l2: "cur_pos (awd b) \<le> uint (l2_hdr_offset (awd b))"
  shows "encap_erspan E g b =
    do { w \<leftarrow> push_header (erspan_header (enc_ip4_checksum E) intf (additional_actions a) (awd b) (sf_gre_option_template g)
                 (erspan_timestamp E (clock_reads g) (awd b))) (awd b);
         Some ((grow_delta (erspan_size (additional_actions a)) b)\<lparr>awd := w\<rparr>, erspan_next (additional_actions a) g) }"
proof -
  let ?ad = "additional_actions a" and ?w = "awd b" and ?ts = "erspan_timestamp E (clock_reads g) (awd b)"
  let ?o4 = "outer4 (enc_ip4_checksum E) intf (erspan_dmac ?ad) (erspan_dscp ?ad) (erspan_dip ?ad) IP_PRO_GRE"
  let ?o6 = "outer6 intf (erspan_dmac ?ad) (erspan_dscp ?ad) (erspan_dip ?ad) IP_PRO_GRE"
  note len = outer_length [OF ok]
  let ?n = "current_length ?w"
  have l: "IPV4_HEADER_LEN + GRE_HEADER_LEN + ?n = 20 + (4 + ?n)" "GRE_HEADER_LEN + ?n = 4 + ?n"
    "IPV4_HEADER_LEN + GRE_HEADER_LEN + 4 + 8 + ?n = 20 + (16 + ?n)" "GRE_HEADER_LEN + 4 + 8 + ?n = 16 + ?n"
    "IPV4_HEADER_LEN + GRE_HEADER_LEN + 4 + 12 + ?n = 20 + (20 + ?n)" "GRE_HEADER_LEN + 4 + 12 + ?n = 20 + ?n"
    by (simp_all add: IPV4_HEADER_LEN_def GRE_HEADER_LEN_def)
  have ii: "fill_erspan_ii 34 ?w ?ad s (?o4 p @ [0, 0] @ be16 0x88BE @ bytes32 s @ sf_erspan_ii_header_template)
      = ?o4 p @ gre_seq_wire 0x88BE s @ erspan_ii_wire ?w (erspan_session_id ?ad)"
    "fill_erspan_ii 54 ?w ?ad s (?o6 p @ [0, 0] @ be16 0x88BE @ bytes32 s @ sf_erspan_ii_header_template)
      = ?o6 p @ gre_seq_wire 0x88BE s @ erspan_ii_wire ?w (erspan_session_id ?ad)" for s p
    by (rule fill_erspan_ii_wire [OF len(1) l2], rule fill_erspan_ii_wire [OF len(2) l2])
  have iii: "fill_erspan_iii 34 ?w ?ad s ?ts (?o4 p @ [0, 0] @ be16 0x88BE @ bytes32 s @ sf_erspan_iii_header_template)
      = ?o4 p @ gre_seq_wire 0x22EB s @ erspan_iii_wire ?w (erspan_session_id ?ad) ?ts"
    "fill_erspan_iii 54 ?w ?ad s ?ts (?o6 p @ [0, 0] @ be16 0x88BE @ bytes32 s @ sf_erspan_iii_header_template)
      = ?o6 p @ gre_seq_wire 0x22EB s @ erspan_iii_wire ?w (erspan_session_id ?ad) ?ts" for s p
    by (rule fill_erspan_iii_wire [OF len(1) l2], rule fill_erspan_iii_wire [OF len(2) l2])
  have h: "erspan_header (enc_ip4_checksum E) intf ?ad ?w s ?ts =
    (if erspan_dip_type ?ad = 4 then ?o4 else ?o6) ((if erspan_type ?ad = 1 then 4 else if erspan_type ?ad = 2 then 16 else 20) + current_length ?w)
      @ erspan_wire ?ad ?w s ?ts" for s
    by (simp add: erspan_header_def Let_def erspan_wire_length)
  have z: "be16 0 = [0, 0]" by code_simp
  have n: "(2 :: u8) = 1 \<longleftrightarrow> False" "(3 :: u8) = 1 \<longleftrightarrow> False" "(3 :: u8) = 2 \<longleftrightarrow> False" by simp_all
  note run = Let_def i Option.bind.simps n c if_True if_False refl simp_thms l erspan_common [OF ok] ii iii z
    erspan_wire_def erspan_next_def
  have p4: "encap_erspan_proc E ?ad g b =
    push_erspan (?o4 ((if erspan_type ?ad = 1 then 4 else if erspan_type ?ad = 2 then 16 else 20) + current_length ?w)
      @ erspan_wire ?ad ?w (sf_gre_option_template g) ?ts) b (erspan_next ?ad g)"
    using t(2) by (elim insertE emptyE; simp only: encap_erspan_proc_def run) simp_all
  have p6: "encap_erspan_proc_ipv6 E ?ad g b =
    push_erspan (?o6 ((if erspan_type ?ad = 1 then 4 else if erspan_type ?ad = 2 then 16 else 20) + current_length ?w)
      @ erspan_wire ?ad ?w (sf_gre_option_template g) ?ts) b (erspan_next ?ad g)"
    using t(2) by (elim insertE emptyE; simp only: encap_erspan_proc_ipv6_def run) simp_all
  show ?thesis
    using t(1) unfolding encap_erspan_def a h
    by (auto simp: p4 p6 push_erspan_eq len erspan_wire_length erspan_size_def outer_size_def Let_def)
qed

section \<open>One node\<close>

text \<open>What the nodes rely on: the action of the packet, its interface, addresses of their sizes.\<close>

definition encap_ok :: "'f encap_env \<Rightarrow> sf_wdata_t \<Rightarrow> additional_action_t \<Rightarrow> sf_interface_t \<Rightarrow> bool" where
  "encap_ok E w ad intf \<longleftrightarrow>
    (\<exists>a. get_action_nocheck (enc_actions E) w = Some a \<and> ad = additional_actions a)
    \<and> interface_of (enc_interfaces E) w = Some intf \<and> intf_ok intf \<and> cpu_clock_pre_second E \<noteq> 0"

definition gre_ok :: "additional_action_t \<Rightarrow> bool" where
  "gre_ok ad \<longleftrightarrow> length (gre_dmac ad) = 6 \<and> gre_dip_type ad \<in> {4, 6}"

definition vxlan_ok :: "additional_action_t \<Rightarrow> bool" where
  "vxlan_ok ad \<longleftrightarrow> length (vxlan_dmac ad) = 6 \<and> vxlan_dip_type ad \<in> {4, 6}"

definition erspan_ok :: "additional_action_t \<Rightarrow> bool" where
  "erspan_ok ad \<longleftrightarrow> length (erspan_dmac ad) = 6 \<and> erspan_dip_type ad \<in> {4, 6} \<and> erspan_type ad \<in> {1, 2, 3}"

lemma encap_ok_meta: "same_meta w w' \<Longrightarrow> encap_ok E w' ad intf \<longleftrightarrow> encap_ok E w ad intf"
  by (auto simp: same_meta_def encap_ok_def get_action_nocheck_def interface_of_def)

text \<open>The outcome of a node that has to write \<open>h\<close>: the header in front of the packet, or no room for it.\<close>

definition writes :: "u8 list \<Rightarrow> sf_wdata_t \<Rightarrow> (sf_wdata_t \<Rightarrow> 'r option) \<Rightarrow> 'r option \<Rightarrow> bool" where
  "writes h w k r \<longleftrightarrow> (if int (length h) \<le> headroom w then \<exists>w'. r = k w' \<and> pushed h w w' else r = None)"

lemma writes_push:
  assumes "unat (current_length w) + length h < 2 ^ 16"
  shows "writes h w k (do { w' \<leftarrow> push_header h w; k w' })"
proof (cases "int (length h) \<le> headroom w")
  case True
  then show ?thesis using pushed_header [OF True assms] by (auto simp: writes_def)
next
  case False
  then show ?thesis using push_header_none [of w h] by (simp add: writes_def)
qed

lemma gre_writes:
  assumes E: "encap_ok E (awd b) ad intf" and ok: "gre_ok ad" and len: "unat (current_length (awd b)) + 58 < 2 ^ 16"
  shows "writes (gre_header (enc_ip4_checksum E) intf ad (current_length (awd b))) (awd b) (\<lambda>w. Some (b\<lparr>awd := w\<rparr>, g)) (encap_gre E g b)"
proof -
  obtain a where a: "get_action_nocheck (enc_actions E) (awd b) = Some a" "ad = additional_actions a"
    and i: "interface_of (enc_interfaces E) (awd b) = Some intf" "intf_ok intf" using E by (auto simp: encap_ok_def)
  have ok': "length (gre_dmac (additional_actions a)) = 6" "gre_dip_type (additional_actions a) \<in> {4, 6}" using ok a(2) by (simp_all add: gre_ok_def)
  show ?thesis
    unfolding encap_gre_eq [OF a(1) i ok', folded a(2)]
    by (rule writes_push) (use len gre_header_length [OF i(2) ok'(1)] in \<open>simp add: a(2) outer_size_def\<close>)
qed

lemma vxlan_writes:
  assumes E: "encap_ok E (awd b) ad intf" and ok: "vxlan_ok ad" and len: "unat (current_length (awd b)) + 70 < 2 ^ 16"
  shows "writes (vxlan_header (enc_ip4_checksum E) intf ad (current_length (awd b))) (awd b) (\<lambda>w. Some (b\<lparr>awd := w\<rparr>, g)) (encap_vxlan E g b)"
proof -
  obtain a where a: "get_action_nocheck (enc_actions E) (awd b) = Some a" "ad = additional_actions a"
    and i: "interface_of (enc_interfaces E) (awd b) = Some intf" "intf_ok intf" using E by (auto simp: encap_ok_def)
  have ok': "length (vxlan_dmac (additional_actions a)) = 6" "vxlan_dip_type (additional_actions a) \<in> {4, 6}"
    using ok a(2) by (simp_all add: vxlan_ok_def)
  show ?thesis
    unfolding encap_vxlan_eq [OF a(1) i ok', folded a(2)]
    by (rule writes_push) (use len vxlan_header_length [OF i(2) ok'(1)] in \<open>simp add: a(2) outer_size_def\<close>)
qed

lemma erspan_writes:
  assumes E: "encap_ok E (awd b) ad intf" and ok: "erspan_ok ad" and len: "unat (current_length (awd b)) + 74 < 2 ^ 16"
    and l2: "cur_pos (awd b) \<le> uint (l2_hdr_offset (awd b))"
  shows "writes (erspan_header (enc_ip4_checksum E) intf ad (awd b) (sf_gre_option_template g) (erspan_timestamp E (clock_reads g) (awd b)))
    (awd b) (\<lambda>w. Some ((grow_delta (erspan_size ad) b)\<lparr>awd := w\<rparr>, erspan_next ad g)) (encap_erspan E g b)"
proof -
  obtain a where a: "get_action_nocheck (enc_actions E) (awd b) = Some a" "ad = additional_actions a"
    and i: "interface_of (enc_interfaces E) (awd b) = Some intf" "intf_ok intf" and c: "cpu_clock_pre_second E \<noteq> 0"
    using E by (auto simp: encap_ok_def)
  have ok': "length (erspan_dmac (additional_actions a)) = 6" "erspan_dip_type (additional_actions a) \<in> {4, 6}"
    "erspan_type (additional_actions a) \<in> {1, 2, 3}"
    using ok a(2) by (simp_all add: erspan_ok_def)
  show ?thesis
    unfolding encap_erspan_eq [OF a(1) i ok' c l2, folded a(2)]
    by (rule writes_push) (use len erspan_header_length [OF i(2) ok'(1)] in \<open>simp add: a(2) outer_size_def erspan_size_def\<close>)
qed

text \<open>C39: The GRE and the VXLAN node.  If the buffer has room in front of the packet, the packet becomes, byte for byte,
  an Ethernet header from the interface's address to the action's, an IPv4 or IPv6 header with the action's code point
  and destination, the source of the interface or the default one, the length of what follows and a checksum over the
  final fields, then the GRE header, or the UDP header and the VXLAN header with the action's port and identifier, then
  the packet as it was; no byte of the packet, none further back and no other metadata changes.  If there is no room,
  the node writes outside the buffer.\<close>

theorem tunnel_encap_correct:
  assumes "encap_ok E (awd b) ad intf" "gre_ok ad" "vxlan_ok ad" and "unat (current_length (awd b)) + 70 < 2 ^ 16"
    and h: "h = gre_header (enc_ip4_checksum E) intf ad (current_length (awd b))"
    and k: "k = vxlan_header (enc_ip4_checksum E) intf ad (current_length (awd b))"
  shows "(if int (outer_size (gre_dip_type ad) + 4) \<le> headroom (awd b)
        then \<exists>w'. encap_gre E g b = Some (b\<lparr>awd := w'\<rparr>, g) \<and> pushed h (awd b) w' else encap_gre E g b = None)
    \<and> (if int (outer_size (vxlan_dip_type ad) + 16) \<le> headroom (awd b)
        then \<exists>w'. encap_vxlan E g b = Some (b\<lparr>awd := w'\<rparr>, g) \<and> pushed k (awd b) w' else encap_vxlan E g b = None)"
proof
  have i: "intf_ok intf" using assms(1) by (simp add: encap_ok_def)
  have "length h = outer_size (gre_dip_type ad) + 4" unfolding h using i assms(2) by (simp add: gre_ok_def gre_header_length)
  then show "if int (outer_size (gre_dip_type ad) + 4) \<le> headroom (awd b)
    then \<exists>w'. encap_gre E g b = Some (b\<lparr>awd := w'\<rparr>, g) \<and> pushed h (awd b) w' else encap_gre E g b = None"
    using gre_writes [OF assms(1,2)] assms(4) unfolding writes_def h by simp
  have "length k = outer_size (vxlan_dip_type ad) + 16" unfolding k using i assms(3) by (simp add: vxlan_ok_def vxlan_header_length)
  then show "if int (outer_size (vxlan_dip_type ad) + 16) \<le> headroom (awd b)
    then \<exists>w'. encap_vxlan E g b = Some (b\<lparr>awd := w'\<rparr>, g) \<and> pushed k (awd b) w' else encap_vxlan E g b = None"
    using vxlan_writes [OF assms(1,3,4)] unfolding writes_def k by simp
qed

text \<open>C38: The ERSPAN node.  The same for its three types, with the GRE header, for types 2 and 3 the sequence number of
  the counter, and the ERSPAN header with the session, the priority and (type 3) the tag of the mirrored frame and the
  time; the counter advances by one for each header of type 2 or 3 and wraps, and \<open>delta\<close> grows by the size written.\<close>

theorem erspan_encap_correct:
  assumes "encap_ok E (awd b) ad intf" "erspan_ok ad" and "unat (current_length (awd b)) + 74 < 2 ^ 16"
    and "cur_pos (awd b) \<le> uint (l2_hdr_offset (awd b))"
    and h: "h = erspan_header (enc_ip4_checksum E) intf ad (awd b) (sf_gre_option_template g) (erspan_timestamp E (clock_reads g) (awd b))"
  shows "if int (erspan_size ad) \<le> headroom (awd b)
    then \<exists>w'. encap_erspan E g b = Some ((grow_delta (erspan_size ad) b)\<lparr>awd := w'\<rparr>, erspan_next ad g) \<and> pushed h (awd b) w'
    else encap_erspan E g b = None"
proof -
  have "length h = erspan_size ad" unfolding h using assms(1,2) by (simp add: encap_ok_def erspan_ok_def erspan_header_length)
  then show ?thesis using erspan_writes [OF assms(1-4), of g] unfolding writes_def h by simp
qed

definition ex_intf :: sf_interface_t where
  "ex_intf = \<lparr>mac = [2, 0, 0, 0, 0, 1], ipv4_addr = [10, 0, 0, 1], ipv6_addr = zero_addr\<rparr>"

definition ex_encap :: additional_action_t where
  "ex_encap = (additional_actions zero_action)\<lparr>switch_flags := 7, gre_dip_type := 4, vxlan_dip_type := 6, vxlan_vni := 0x2a0000,
     erspan_dip_type := 4, erspan_type := 3, erspan_session_id := 5\<rparr>"

definition ex_encap_env :: "int encap_env" where
  "ex_encap_env = \<lparr>enc_actions = replicate MAX_ACTION_NUM (zero_action\<lparr>ref_counter := 1, action_type := 2, additional_actions := ex_encap\<rparr>),
     enc_interfaces = [ex_intf], enc_ip4_checksum = (\<lambda>bs. of_nat (length bs)), vlib_time_now = int, clib_cpu_time_now = of_nat,
     cpu_clock_pre_second = 1000, ts_vlib_time = 0, ts_milisecond_time = 0, f_sub = (-), f_mul = (*), f_add = (+),
     f_of_u64 = uint, f_to_u64 = word_of_int\<rparr>"

definition ex_encap_buf :: action_buf where
  "ex_encap_buf = \<lparr>awd = (ex_wdata (\<lambda>_. 0) 100)\<lparr>interface_id := 1, arg_to_next := 1\<rparr>, additional_list = reset_addtional_list\<rparr>"

lemma ex_encap_ok:
  "encap_ok ex_encap_env (awd ex_encap_buf) ex_encap ex_intf" "gre_ok ex_encap" "vxlan_ok ex_encap" "erspan_ok ex_encap"
  "unat (current_length (awd ex_encap_buf)) = 100" "headroom (awd ex_encap_buf) = 128"
  "cur_pos (awd ex_encap_buf) \<le> uint (l2_hdr_offset (awd ex_encap_buf))"
  by (simp_all add: encap_ok_def ex_encap_env_def ex_encap_buf_def ex_encap_def ex_intf_def get_action_nocheck_def interface_of_def
      arr_read_def intf_ok_def gre_ok_def vxlan_ok_def erspan_ok_def zero_action_def MAX_ACTION_NUM_def ex_wdata_def headroom_def
      cur_pos_def VLIB_BUFFER_PRE_DATA_SIZE_def)

lemma ex_encap_sizes: "outer_size (gre_dip_type ex_encap) = 34" "outer_size (vxlan_dip_type ex_encap) = 54" "erspan_size ex_encap = 54"
  by (simp_all add: ex_encap_def outer_size_def erspan_size_def)

theorem tunnel_encap_correct_witness:
  "\<forall>g. \<exists>w'. encap_vxlan ex_encap_env g ex_encap_buf = Some (ex_encap_buf\<lparr>awd := w'\<rparr>, g) \<and> unat (current_length w') = 170 \<and> headroom w' = 58"
proof
  fix g
  have "length (vxlan_header (enc_ip4_checksum ex_encap_env) ex_intf ex_encap (current_length (awd ex_encap_buf))) = 70"
    using ex_encap_ok(1,3) by (simp add: vxlan_header_length encap_ok_def vxlan_ok_def ex_encap_sizes)
  then show "\<exists>w'. encap_vxlan ex_encap_env g ex_encap_buf = Some (ex_encap_buf\<lparr>awd := w'\<rparr>, g) \<and> unat (current_length w') = 170 \<and> headroom w' = 58"
    using tunnel_encap_correct [OF ex_encap_ok(1-3) _ refl refl, of g] ex_encap_ok(5,6)
    by (auto simp: ex_encap_sizes pushed_def headroom_def)
qed

theorem erspan_encap_correct_witness:
  "\<exists>w'. encap_erspan ex_encap_env \<lparr>sf_gre_option_template = 7, clock_reads = 0\<rparr> ex_encap_buf
      = Some ((grow_delta 54 ex_encap_buf)\<lparr>awd := w'\<rparr>, \<lparr>sf_gre_option_template = 8, clock_reads = 1\<rparr>)
    \<and> unat (current_length w') = 154"
proof -
  let ?g = "\<lparr>sf_gre_option_template = 7, clock_reads = 0\<rparr>"
  have n: "erspan_next ex_encap ?g = \<lparr>sf_gre_option_template = 8, clock_reads = 1\<rparr>" by (simp add: erspan_next_def ex_encap_def)
  have "length (erspan_header (enc_ip4_checksum ex_encap_env) ex_intf ex_encap (awd ex_encap_buf) 7
      (erspan_timestamp ex_encap_env 0 (awd ex_encap_buf))) = 54"
    using ex_encap_ok(1,4) by (simp add: erspan_header_length encap_ok_def erspan_ok_def ex_encap_sizes)
  then show ?thesis
    using erspan_encap_correct [OF ex_encap_ok(1,4) _ ex_encap_ok(7) refl, of ?g] ex_encap_ok(5,6)
    by (auto simp: ex_encap_sizes pushed_def n)
qed

section \<open>Along the path\<close>

text \<open>The nodes a packet visits from the next index \<open>nx\<close>: the encapsulation nodes, until another node is next.\<close>

fun run_path :: "'f encap_env \<Rightarrow> nat \<Rightarrow> nat \<Rightarrow> encap_state \<Rightarrow> action_buf \<Rightarrow> ((action_buf \<times> nat) \<times> encap_state) option" where
  "run_path E 0 nx g b = Some ((b, nx), g)"
| "run_path E (Suc k) nx g b =
    (if nx = unat SF_NEXT_NODE_ACTION_GRE_ENCAPSULATION then do { ((b, nx), g) \<leftarrow> encap_gre_x1 E g b; run_path E k nx g b }
     else if nx = unat SF_NEXT_NODE_ACTION_ERSPAN_ENCAPSULATION then do { ((b, nx), g) \<leftarrow> encap_erspan_x1 E g b; run_path E k nx g b }
     else if nx = unat SF_NEXT_NODE_ACTION_VXLAN_ENCAPSULATION then do { ((b, nx), g) \<leftarrow> encap_vxlan_x1 E g b; run_path E k nx g b }
     else Some ((b, nx), g))"

text \<open>The list of the packet still holds \<open>xs\<close>.\<close>

definition path_rest :: "sf_additional_list_t \<Rightarrow> u8 list \<Rightarrow> bool" where
  "path_rest l xs \<longleftrightarrow> take (length xs) (drop (unat (addi_pre_index l)) (addtional_list l)) = xs
    \<and> unat (addi_pre_index l) + length xs < 100"

lemma path_rest_delta: "path_rest (l\<lparr>delta := d\<rparr>) xs = path_rest l xs"
  by (simp add: path_rest_def)

lemma pop_next_rest:
  assumes "path_rest (additional_list b) (x # xs)"
  shows "\<exists>l. pop_next b = Some (b\<lparr>additional_list := l\<rparr>, unat x) \<and> path_rest l xs"
proof -
  let ?l = "additional_list b"
  let ?i = "unat (addi_pre_index ?l)"
  have t: "take (Suc (length xs)) (drop ?i (addtional_list ?l)) = x # xs" and n: "?i + Suc (length xs) < 100"
    using assms by (simp_all add: path_rest_def)
  have i: "?i < length (addtional_list ?l)" using t by (metis drop_eq_Nil list.distinct(1) not_le take_Nil)
  then have d: "addtional_list ?l ! ?i = x" "take (length xs) (drop (Suc ?i) (addtional_list ?l)) = xs"
    using t by (simp_all add: Cons_nth_drop_Suc [symmetric])
  have "unat (addi_pre_index ?l + 1) = Suc ?i" using n by (simp add: unat_word_ariths)
  then show ?thesis
    using i d n by (intro exI [of _ "?l\<lparr>addi_pre_index := addi_pre_index ?l + 1\<rparr>"])
      (simp add: pop_next_def pop_addtional_list_def arr_read_def path_rest_def)
qed

text \<open>From \<open>nx\<close> on, the header \<open>h\<close> gets in front of the packet before it reaches the node \<open>fwd\<close>, or there is no room.\<close>

definition reaches ::
  "u8 list \<Rightarrow> u8 \<Rightarrow> encap_state \<Rightarrow> sf_wdata_t \<Rightarrow> ((action_buf \<times> nat) \<times> encap_state) option \<Rightarrow> bool" where
  "reaches h fwd g' w r \<longleftrightarrow>
    (if int (length h) \<le> headroom w then \<exists>b'. r = Some ((b', unat fwd), g') \<and> packet_of (awd b') = h @ packet_of w
     else r = None)"

lemma reaches_write:
  assumes W: "writes h w (\<lambda>w'. Some (f w', g1)) r"
    and step: "\<And>w'. pushed h w w' \<Longrightarrow> int (length h) \<le> headroom w \<Longrightarrow> reaches h' fwd g' w' (rest (f w') g1)"
  shows "reaches (h' @ h) fwd g' w (do { (b, g) \<leftarrow> r; rest b g })"
proof (cases "int (length h) \<le> headroom w")
  case True
  then obtain w' where r: "r = Some (f w', g1)" and p: "pushed h w w'" using W by (auto simp: writes_def)
  have "headroom w' = headroom w - int (length h)" "packet_of w' = h @ packet_of w" using p by (simp_all add: pushed_def headroom_def)
  then show ?thesis using step [OF p True] r by (auto simp: reaches_def)
next
  case False
  then show ?thesis using W by (simp add: writes_def reaches_def)
qed

lemma pushed_len: "pushed h w w' \<Longrightarrow> current_length w' = current_length w + word_of_nat (length h)"
proof -
  assume "pushed h w w'"
  then have "unat (current_length w') = unat (current_length w) + length h" by (simp add: pushed_def)
  then show ?thesis by (metis of_nat_add of_nat_unat ucast_id)
qed

definition after_pop :: "'f encap_env \<Rightarrow> nat \<Rightarrow> action_buf \<Rightarrow> encap_state \<Rightarrow> ((action_buf \<times> nat) \<times> encap_state) option" where
  "after_pop E k b g = do { (b, nx) \<leftarrow> pop_next b; run_path E k nx g b }"

lemma run_path_nodes:
  "run_path E (Suc k) (unat SF_NEXT_NODE_ACTION_GRE_ENCAPSULATION) g b = do { (b, g) \<leftarrow> encap_gre E g b; after_pop E k b g }"
  "run_path E (Suc k) (unat SF_NEXT_NODE_ACTION_ERSPAN_ENCAPSULATION) g b = do { (b, g) \<leftarrow> encap_erspan E g b; after_pop E k b g }"
  "run_path E (Suc k) (unat SF_NEXT_NODE_ACTION_VXLAN_ENCAPSULATION) g b = do { (b, g) \<leftarrow> encap_vxlan E g b; after_pop E k b g }"
  by (auto simp: encap_gre_x1_def encap_erspan_x1_def encap_vxlan_x1_def after_pop_def SF_NEXT_NODE_ACTION_GRE_ENCAPSULATION_def
      SF_NEXT_NODE_ACTION_ERSPAN_ENCAPSULATION_def SF_NEXT_NODE_ACTION_VXLAN_ENCAPSULATION_def split: Option.bind_splits prod.splits)

lemma run_path_fwd: "fwd \<in> {4, 5} \<Longrightarrow> run_path E k (unat (fwd :: u8)) g b = Some ((b, unat fwd), g)"
  by (cases k) (auto simp: SF_NEXT_NODE_ACTION_GRE_ENCAPSULATION_def SF_NEXT_NODE_ACTION_ERSPAN_ENCAPSULATION_def
      SF_NEXT_NODE_ACTION_VXLAN_ENCAPSULATION_def)

declare run_path.simps [simp del]

lemma after_pop_rest:
  assumes "path_rest (additional_list b) (x # xs)"
  shows "\<exists>l. after_pop E k b g = run_path E k (unat x) g (b\<lparr>additional_list := l\<rparr>) \<and> path_rest l xs"
  using pop_next_rest [OF assms] by (auto simp: after_pop_def)

definition path_ok :: "'f encap_env \<Rightarrow> additional_action_t \<Rightarrow> sf_interface_t \<Rightarrow> nat \<Rightarrow> sf_wdata_t \<Rightarrow> bool" where
  "path_ok E ad intf n w \<longleftrightarrow> encap_ok E w ad intf \<and> unat (current_length w) + n < 2 ^ 16 \<and> 0 \<le> headroom w"

lemma path_ok_pushed:
  assumes "path_ok E ad intf n w" "pushed h w w'" "int (length h) \<le> headroom w" "length h + m \<le> n"
  shows "path_ok E ad intf m w'"
proof -
  have "same_meta w w'" "unat (current_length w') = unat (current_length w) + length h" using assms(2) by (simp_all add: pushed_def)
  moreover have "0 \<le> headroom w'" using assms(2,3) by (simp add: pushed_def headroom_def)
  ultimately show ?thesis using assms(1,4) encap_ok_meta [of w w' E ad intf] by (simp add: path_ok_def)
qed


definition gre_part where
  "gre_part E intf ad len = (if bit (switch_flags ad) 0 then gre_header (enc_ip4_checksum E) intf ad len else [])"

definition vxlan_part where
  "vxlan_part E intf ad len = (if bit (switch_flags ad) 1 then vxlan_header (enc_ip4_checksum E) intf ad len else [])"

definition erspan_part where
  "erspan_part E intf ad w g =
    (if bit (switch_flags ad) 2
     then erspan_header (enc_ip4_checksum E) intf ad w (sf_gre_option_template g) (erspan_timestamp E (clock_reads g) w) else [])"

lemma gre_stage:
  assumes P: "path_ok E ad intf 58 (awd b)" and c: "bit (switch_flags ad) 0 \<longrightarrow> gre_ok ad" and fwd: "fwd \<in> {4, 5}"
    and path: "x # xs = (if bit (switch_flags ad) 0 then [SF_NEXT_NODE_ACTION_GRE_ENCAPSULATION] else []) @ [fwd]"
    and rest: "path_rest (additional_list b) xs"
  shows "reaches (gre_part E intf ad (current_length (awd b))) fwd g (awd b) (run_path E (Suc k) (unat x) g b)"
proof (cases "bit (switch_flags ad) 0")
  case False
  then show ?thesis using path run_path_fwd [OF fwd, of E "Suc k" g b] P by (simp add: reaches_def gre_part_def path_ok_def)
next
  case True
  then have x: "x = SF_NEXT_NODE_ACTION_GRE_ENCAPSULATION" "xs = [fwd]" using path by simp_all
  let ?h = "gre_header (enc_ip4_checksum E) intf ad (current_length (awd b))"
  have W: "writes ?h (awd b) (\<lambda>w'. Some (b\<lparr>awd := w'\<rparr>, g)) (encap_gre E g b)"
    using P c True by (intro gre_writes) (simp_all add: path_ok_def)
  have "reaches ([] @ ?h) fwd g (awd b) (do { (b, g) \<leftarrow> encap_gre E g b; after_pop E k b g })"
  proof (rule reaches_write [OF W])
    fix w' assume p: "pushed ?h (awd b) w'" and room: "int (length ?h) \<le> headroom (awd b)"
    obtain l where "after_pop E k (b\<lparr>awd := w'\<rparr>) g = run_path E k (unat fwd) g ((b\<lparr>awd := w'\<rparr>)\<lparr>additional_list := l\<rparr>)"
      using after_pop_rest [of "b\<lparr>awd := w'\<rparr>" fwd "[]" E k g] rest x(2) by auto
    then show "reaches [] fwd g w' (after_pop E k (b\<lparr>awd := w'\<rparr>) g)"
      using p room by (simp add: run_path_fwd [OF fwd] reaches_def pushed_def headroom_def)
  qed
  then show ?thesis using True x by (simp add: run_path_nodes gre_part_def)
qed

lemma vxlan_stage:
  assumes P: "path_ok E ad intf 128 (awd b)" and c: "bit (switch_flags ad) 0 \<longrightarrow> gre_ok ad" "bit (switch_flags ad) 1 \<longrightarrow> vxlan_ok ad"
    and fwd: "fwd \<in> {4, 5}"
    and path: "x # xs = (if bit (switch_flags ad) 1 then [SF_NEXT_NODE_ACTION_VXLAN_ENCAPSULATION] else [])
      @ (if bit (switch_flags ad) 0 then [SF_NEXT_NODE_ACTION_GRE_ENCAPSULATION] else []) @ [fwd]"
    and rest: "path_rest (additional_list b) xs" and V: "V = vxlan_part E intf ad (current_length (awd b))"
  shows "reaches (gre_part E intf ad (current_length (awd b) + word_of_nat (length V)) @ V) fwd g (awd b)
    (run_path E (Suc (Suc k)) (unat x) g b)"
proof (cases "bit (switch_flags ad) 1")
  case False
  have P': "path_ok E ad intf 58 (awd b)" using P by (simp add: path_ok_def)
  have p': "x # xs = (if bit (switch_flags ad) 0 then [SF_NEXT_NODE_ACTION_GRE_ENCAPSULATION] else []) @ [fwd]" using path False by simp
  show ?thesis using gre_stage [OF P' c(1) fwd p' rest, of g "Suc k"] False by (simp add: V vxlan_part_def)
next
  case True
  have x: "x = SF_NEXT_NODE_ACTION_VXLAN_ENCAPSULATION" and xs: "xs = (if bit (switch_flags ad) 0 then [SF_NEXT_NODE_ACTION_GRE_ENCAPSULATION] else []) @ [fwd]"
    using path True by simp_all
  obtain y ys where y: "xs = y # ys" unfolding xs by (cases "bit (switch_flags ad) 0") auto
  have v: "V = vxlan_header (enc_ip4_checksum E) intf ad (current_length (awd b))" using V True by (simp add: vxlan_part_def)
  have n: "length V \<le> 70" unfolding v using P c(2) True by (simp add: path_ok_def encap_ok_def vxlan_ok_def vxlan_header_length outer_size_def)
  have W: "writes V (awd b) (\<lambda>w'. Some (b\<lparr>awd := w'\<rparr>, g)) (encap_vxlan E g b)"
    unfolding v using P c True by (intro vxlan_writes) (simp_all add: path_ok_def)
  have "reaches (gre_part E intf ad (current_length (awd b) + word_of_nat (length V)) @ V) fwd g (awd b)
    (do { (b, g) \<leftarrow> encap_vxlan E g b; after_pop E (Suc k) b g })"
  proof (rule reaches_write [OF W])
    fix w' assume p: "pushed V (awd b) w'" and room: "int (length V) \<le> headroom (awd b)"
    let ?b = "b\<lparr>awd := w'\<rparr>"
    obtain l where l: "after_pop E (Suc k) ?b g = run_path E (Suc k) (unat y) g (?b\<lparr>additional_list := l\<rparr>)" "path_rest l ys"
      using after_pop_rest [of ?b y ys E "Suc k" g] rest y by auto
    have "path_ok E ad intf 58 (awd (?b\<lparr>additional_list := l\<rparr>))" using path_ok_pushed [OF P p room] n by simp
    then have "reaches (gre_part E intf ad (current_length w')) fwd g w' (run_path E (Suc k) (unat y) g (?b\<lparr>additional_list := l\<rparr>))"
      using gre_stage [of E ad intf "?b\<lparr>additional_list := l\<rparr>" fwd y ys g k] c(1) fwd xs y l(2) by simp
    then show "reaches (gre_part E intf ad (current_length (awd b) + word_of_nat (length V))) fwd g w' (after_pop E (Suc k) ?b g)"
      using l(1) pushed_len [OF p] by simp
  qed
  then show ?thesis unfolding x run_path_nodes .
qed

lemma erspan_stage:
  assumes P: "path_ok E ad intf 202 (awd b)" and c: "bit (switch_flags ad) 0 \<longrightarrow> gre_ok ad" "bit (switch_flags ad) 1 \<longrightarrow> vxlan_ok ad"
    "bit (switch_flags ad) 2 \<longrightarrow> erspan_ok ad" and fwd: "fwd \<in> {4, 5}" and l2: "cur_pos (awd b) \<le> uint (l2_hdr_offset (awd b))"
    and path: "x # xs = encap_path (switch_flags ad) @ [fwd]" and rest: "path_rest (additional_list b) xs"
    and R: "R = erspan_part E intf ad (awd b) g" and V: "V = vxlan_part E intf ad (current_length (awd b) + word_of_nat (length R))"
    and G: "G = gre_part E intf ad (current_length (awd b) + word_of_nat (length R) + word_of_nat (length V))"
  shows "reaches (G @ V @ R) fwd (if bit (switch_flags ad) 2 then erspan_next ad g else g) (awd b)
    (run_path E (Suc (Suc (Suc k))) (unat x) g b)"
proof (cases "bit (switch_flags ad) 2")
  case False
  have P': "path_ok E ad intf 128 (awd b)" using P by (simp add: path_ok_def)
  have p': "x # xs = (if bit (switch_flags ad) 1 then [SF_NEXT_NODE_ACTION_VXLAN_ENCAPSULATION] else [])
      @ (if bit (switch_flags ad) 0 then [SF_NEXT_NODE_ACTION_GRE_ENCAPSULATION] else []) @ [fwd]"
    using path False by (simp add: encap_path_def)
  have r: "R = []" using R False by (simp add: erspan_part_def)
  show ?thesis using vxlan_stage [OF P' c(1,2) fwd p' rest refl, of g "Suc k"] False by (simp add: G V r)
next
  case True
  have x: "x = SF_NEXT_NODE_ACTION_ERSPAN_ENCAPSULATION" and xs: "xs = (if bit (switch_flags ad) 1 then [SF_NEXT_NODE_ACTION_VXLAN_ENCAPSULATION] else [])
      @ (if bit (switch_flags ad) 0 then [SF_NEXT_NODE_ACTION_GRE_ENCAPSULATION] else []) @ [fwd]"
    using path True by (simp_all add: encap_path_def)
  obtain y ys where y: "xs = y # ys" unfolding xs by (cases "bit (switch_flags ad) 1"; cases "bit (switch_flags ad) 0") auto
  have r: "R = erspan_header (enc_ip4_checksum E) intf ad (awd b) (sf_gre_option_template g) (erspan_timestamp E (clock_reads g) (awd b))"
    using R True by (simp add: erspan_part_def)
  have n: "length R \<le> 74"
    unfolding r using P c(3) True by (simp add: path_ok_def encap_ok_def erspan_ok_def erspan_header_length erspan_size_def outer_size_def)
  let ?g = "erspan_next ad g" and ?f = "\<lambda>w'. (grow_delta (erspan_size ad) b)\<lparr>awd := w'\<rparr>"
  have W: "writes R (awd b) (\<lambda>w'. Some (?f w', ?g)) (encap_erspan E g b)"
    unfolding r using P c True l2 by (intro erspan_writes) (simp_all add: path_ok_def)
  have "reaches ((G @ V) @ R) fwd ?g (awd b) (do { (b, g) \<leftarrow> encap_erspan E g b; after_pop E (Suc (Suc k)) b g })"
  proof (rule reaches_write [OF W])
    fix w' assume p: "pushed R (awd b) w'" and room: "int (length R) \<le> headroom (awd b)"
    have "path_rest (additional_list (?f w')) (y # ys)" using rest y by (simp add: grow_delta_def path_rest_delta)
    then obtain l where l: "after_pop E (Suc (Suc k)) (?f w') ?g = run_path E (Suc (Suc k)) (unat y) ?g ((?f w')\<lparr>additional_list := l\<rparr>)" "path_rest l ys"
      using after_pop_rest by blast
    have "path_ok E ad intf 128 (awd ((?f w')\<lparr>additional_list := l\<rparr>))" using path_ok_pushed [OF P p room] n by simp
    then show "reaches (G @ V) fwd ?g w' (after_pop E (Suc (Suc k)) (?f w') ?g)"
      using vxlan_stage [of E ad intf "(?f w')\<lparr>additional_list := l\<rparr>" fwd y ys V ?g k] c(1,2) fwd xs y l pushed_len [OF p] by (simp add: G V)
  qed
  then show ?thesis using True unfolding x run_path_nodes by simp
qed

text \<open>The size of all the headers an action asks for.\<close>

definition path_size :: "additional_action_t \<Rightarrow> nat" where
  "path_size ad = (if bit (switch_flags ad) 0 then outer_size (gre_dip_type ad) + 4 else 0)
     + (if bit (switch_flags ad) 1 then outer_size (vxlan_dip_type ad) + 16 else 0)
     + (if bit (switch_flags ad) 2 then erspan_size ad else 0)"

text \<open>C4: From the action to the wire.  A packet whose action forwards it with some encapsulations leaves the action node
  and, after at most three encapsulation nodes, reaches the forwarding node of the action with the headers in front, the
  GRE header outermost, then VXLAN, then ERSPAN, then the untouched packet, each with the lengths of all it encloses -
  if the headers fit in the 128 bytes before the buffer's data; otherwise a node on the path writes outside the buffer.\<close>

theorem encap_path_correct:
  assumes "length (enc_actions E) = MAX_ACTION_NUM" and i: "i = arg_to_next (awd b)" "1 \<le> uint i" "uint i \<le> 128"
    and a: "a = enc_actions E ! unat (i - 1)" "ref_counter a \<noteq> 0" "action_type a \<in> {2, 3}" "ad = additional_actions a"
      "switch_flags ad \<noteq> 0"
    and ok: "bit (switch_flags ad) 0 \<longrightarrow> gre_ok ad" "bit (switch_flags ad) 1 \<longrightarrow> vxlan_ok ad" "bit (switch_flags ad) 2 \<longrightarrow> erspan_ok ad"
    and intf: "interface_of (enc_interfaces E) (awd b) = Some intf" "intf_ok intf" and clock: "cpu_clock_pre_second E \<noteq> 0"
    and window: "unat (current_length (awd b)) + 202 < 2 ^ 16" "- 128 \<le> cur_pos (awd b)" "cur_pos (awd b) \<le> uint (l2_hdr_offset (awd b))"
    and R: "R = erspan_part E intf ad (awd b) g" and V: "V = vxlan_part E intf ad (current_length (awd b) + word_of_nat (length R))"
    and G: "G = gre_part E intf ad (current_length (awd b) + word_of_nat (length R) + word_of_nat (length V))"
  shows "\<exists>nx b1. get_action_forward_path (enc_actions E) b = Some (nx, b1) \<and>
    (if int (path_size ad) \<le> headroom (awd b)
     then \<exists>b'. run_path E 3 (unat nx) g b1
           = Some ((b', unat (action_type a + 2)), if bit (switch_flags ad) 2 then erspan_next ad g else g)
         \<and> packet_of (awd b') = G @ V @ R @ packet_of (awd b)
     else run_path E 3 (unat nx) g b1 = None)"
proof -
  let ?w = "(set_arg2_to_next 0 (set_arg1_to_next (ucast (arg_to_next (awd b) AND 0xFFFF)) (awd b)))\<lparr>interface_out := forward_interface_id a\<rparr>"
  let ?fwd = "ucast (action_type a + 2) :: u8"
  have un: "uint i = int (unat i)" by simp
  have u: "1 \<le> unat i" "unat i \<le> 128" using i(2,3) unfolding un by linarith+
  have some: "get_action (enc_actions E) (arg_to_next (awd b)) = Some (Some a)"
    using get_action_total [OF assms(1), of i] i a(1,2) by (simp add: is_valid_action_id_def MAX_ACTION_NUM_def)
  obtain y ys where y: "encap_path (switch_flags ad) @ [?fwd] = y # ys" by (cases "encap_path (switch_flags ad)") auto
  obtain l where l: "get_action_forward_path (enc_actions E) b = Some (ucast y, b\<lparr>awd := ?w, additional_list := l\<rparr>)"
    "addi_pre_index l = 1" "take (length ys) (drop 1 (addtional_list l)) = ys" "length ys < 9"
    using forward_path_list [OF some a(3) a(5) [unfolded a(4)] refl y [unfolded a(4)]] by blast
  let ?b = "b\<lparr>awd := ?w, additional_list := l\<rparr>"
  have mask: "i AND 0xFFFF = i"
  proof -
    have "i AND 0xFFFF = take_bit 16 i" by (simp add: take_bit_eq_mask mask_eq_exp_minus_1)
    also have "\<dots> = i"
    proof (rule word_unat_eq_iff [THEN iffD2])
      have "unat i < 2 ^ 16" using u(2) by simp
      then have "take_bit 16 (unat i) = unat i" by (rule take_bit_nat_eq_self)
      then show "unat (take_bit 16 i) = unat i" by (simp only: unsigned_take_bit_eq)
    qed
    finally show ?thesis .
  qed
  have arg: "arg_to_next ?w = i" using arg_reset [of "awd b"] mask by (simp flip: i(1))
  have sub: "unat (i - 1) = unat i - 1" using u by (simp add: unat_sub word_le_nat_alt)
  have meta: "current_length ?w = current_length (awd b)" "cur_pos ?w = cur_pos (awd b)" "l2_hdr_offset ?w = l2_hdr_offset (awd b)"
    "interface_id ?w = interface_id (awd b)" "data_ptr ?w = data_ptr (awd b)" "timestamp ?w = timestamp (awd b)"
    by (simp_all add: cur_pos_def set_arg2_to_next_def set_arg1_to_next_def)
  have act: "get_action_nocheck (enc_actions E) ?w = Some a"
    using u arg mask a(1) sub assms(1) by (auto simp: get_action_nocheck_def arr_read_def MAX_ACTION_NUM_def Let_def)
  have ok': "encap_ok E ?w ad intf"
    using act a(4) intf clock meta(4) by (auto simp: encap_ok_def interface_of_def)
  have P: "path_ok E ad intf 202 (awd ?b)"
    using ok' window meta(1,2) by (simp add: path_ok_def headroom_def VLIB_BUFFER_PRE_DATA_SIZE_def)
  have fwd: "?fwd \<in> {4, 5}" "unat ?fwd = unat (action_type a + 2)" using a(3) by auto
  have rest: "path_rest (additional_list ?b) ys" using l(2-4) by (simp add: path_rest_def)
  have same: "erspan_part E intf ad ?w g = erspan_part E intf ad (awd b) g"
    by (simp only: erspan_part_def erspan_header_def erspan_wire_def erspan_ii_wire_def erspan_iii_wire_def mirror_cos_def mirror_vlan_def
        tagged_def erspan_timestamp_def meta)
  have l2: "cur_pos (awd ?b) \<le> uint (l2_hdr_offset (awd ?b))" using window(3) meta(2,3) by simp
  have run: "reaches (G @ V @ R) ?fwd (if bit (switch_flags ad) 2 then erspan_next ad g else g) ?w (run_path E 3 (unat y) g ?b)"
    using erspan_stage [OF P ok fwd(1) l2 y [symmetric] rest, of R g V G 0] same meta(1) R V G
    by (simp add: numeral_3_eq_3)
  have n: "length (G @ V @ R) = path_size ad"
    using ok intf(2) by (auto simp: G V R gre_part_def vxlan_part_def erspan_part_def path_size_def gre_ok_def vxlan_ok_def
        erspan_ok_def gre_header_length vxlan_header_length erspan_header_length)
  have pk: "packet_of ?w = packet_of (awd b)" "headroom ?w = headroom (awd b)" by (simp_all only: packet_of_def headroom_def meta)
  have nx: "unat (ucast y :: u32) = unat y" using unsigned_less [of y, where 'a = nat] by (simp add: unsigned_ucast_eq take_bit_nat_eq_self)
  let ?g = "if bit (switch_flags ad) 2 then erspan_next ad g else g"
  have r: "if int (path_size ad) \<le> headroom (awd b)
    then \<exists>b'. run_path E 3 (unat y) g ?b = Some ((b', unat (action_type a + 2)), ?g) \<and> packet_of (awd b') = (G @ V @ R) @ packet_of (awd b)
    else run_path E 3 (unat y) g ?b = None"
    using run unfolding reaches_def n pk fwd(2) .
  show ?thesis
    by (rule exI [of _ "ucast y"], rule exI [of _ ?b], rule conjI, rule l(1), unfold nx) (use r in \<open>simp only: append_assoc\<close>)
qed

text \<open>Three encapsulations of 162 bytes: too many for a packet at the start of the data, not for one 50 bytes further on.\<close>

definition ex_later_buf :: action_buf where
  "ex_later_buf = ex_encap_buf\<lparr>awd := (awd ex_encap_buf)\<lparr>current_data := 50, l2_hdr_offset := 50\<rparr>\<rparr>"

theorem encap_path_correct_witness:
  "(\<exists>nx b1. get_action_forward_path (enc_actions ex_encap_env) ex_encap_buf = Some (nx, b1)
      \<and> run_path ex_encap_env 3 (unat nx) \<lparr>sf_gre_option_template = 7, clock_reads = 0\<rparr> b1 = None)
   \<and> (\<exists>nx b1 b' h. get_action_forward_path (enc_actions ex_encap_env) ex_later_buf = Some (nx, b1)
      \<and> run_path ex_encap_env 3 (unat nx) \<lparr>sf_gre_option_template = 7, clock_reads = 0\<rparr> b1
        = Some ((b', 4), \<lparr>sf_gre_option_template = 8, clock_reads = 1\<rparr>)
      \<and> packet_of (awd b') = h @ packet_of (awd ex_later_buf))"
proof -
  let ?g = "\<lparr>sf_gre_option_template = 7, clock_reads = 0\<rparr>"
  let ?a = "zero_action\<lparr>ref_counter := 1, action_type := 2, additional_actions := ex_encap\<rparr>"
  have acts: "length (enc_actions ex_encap_env) = MAX_ACTION_NUM" and a: "?a = enc_actions ex_encap_env ! unat (1 - 1 :: u32)"
    by (simp_all add: ex_encap_env_def MAX_ACTION_NUM_def)
  have rest: "ref_counter ?a \<noteq> 0" "action_type ?a \<in> {2, 3}" "ex_encap = additional_actions ?a" "switch_flags ex_encap \<noteq> 0"
    "cpu_clock_pre_second ex_encap_env \<noteq> 0" "intf_ok ex_intf" "1 \<le> uint (1 :: u32)" "uint (1 :: u32) \<le> 128"
    by (simp_all add: ex_encap_def ex_encap_env_def intf_ok_def ex_intf_def)
  have flags: "bit (switch_flags ex_encap) 0" "bit (switch_flags ex_encap) 1" "bit (switch_flags ex_encap) 2"
    by (simp_all add: ex_encap_def bit_numeral_rec)
  have n: "path_size ex_encap = 162" using flags by (simp add: path_size_def ex_encap_sizes)
  have nxt: "erspan_next ex_encap ?g = \<lparr>sf_gre_option_template = 8, clock_reads = 1\<rparr>" by (simp add: erspan_next_def ex_encap_def)
  have b1: "(1 :: u32) = arg_to_next (awd ex_encap_buf)" "interface_of (enc_interfaces ex_encap_env) (awd ex_encap_buf) = Some ex_intf"
    "unat (current_length (awd ex_encap_buf)) + 202 < 2 ^ 16" "- 128 \<le> cur_pos (awd ex_encap_buf)"
    "cur_pos (awd ex_encap_buf) \<le> uint (l2_hdr_offset (awd ex_encap_buf))" "headroom (awd ex_encap_buf) = 128"
    by (simp_all add: ex_encap_buf_def ex_encap_env_def ex_wdata_def interface_of_def arr_read_def cur_pos_def headroom_def VLIB_BUFFER_PRE_DATA_SIZE_def)
  have b2: "(1 :: u32) = arg_to_next (awd ex_later_buf)" "interface_of (enc_interfaces ex_encap_env) (awd ex_later_buf) = Some ex_intf"
    "unat (current_length (awd ex_later_buf)) + 202 < 2 ^ 16" "- 128 \<le> cur_pos (awd ex_later_buf)"
    "cur_pos (awd ex_later_buf) \<le> uint (l2_hdr_offset (awd ex_later_buf))" "headroom (awd ex_later_buf) = 178"
    by (simp_all add: ex_later_buf_def ex_encap_buf_def ex_encap_env_def ex_wdata_def interface_of_def arr_read_def cur_pos_def headroom_def
        VLIB_BUFFER_PRE_DATA_SIZE_def)
  note run = encap_path_correct [where E = ex_encap_env and g = ?g, OF acts _ rest(7,8) a rest(1-4) _ _ _ _ rest(6,5) _ _ _ refl refl refl]
  have ok: "gre_ok ex_encap" "vxlan_ok ex_encap" "erspan_ok ex_encap" by (rule ex_encap_ok(2), rule ex_encap_ok(3), rule ex_encap_ok(4))
  have first: "\<exists>nx b1. get_action_forward_path (enc_actions ex_encap_env) ex_encap_buf = Some (nx, b1) \<and> run_path ex_encap_env 3 (unat nx) ?g b1 = None"
    using run [of ex_encap_buf, OF b1(1) _ _ _ b1(2-5)] ok n b1(6) by simp
  have second: "\<exists>nx b1 b' h. get_action_forward_path (enc_actions ex_encap_env) ex_later_buf = Some (nx, b1)
      \<and> run_path ex_encap_env 3 (unat nx) ?g b1 = Some ((b', 4), erspan_next ex_encap ?g)
      \<and> packet_of (awd b') = h @ packet_of (awd ex_later_buf)"
    using run [of ex_later_buf, OF b2(1) _ _ _ b2(2-5)] ok n b2(6) flags by (simp split: if_splits) (metis append_assoc)
  show ?thesis by (rule conjI, rule first, rule second [unfolded nxt])
qed

text \<open>The packets of a frame that get a sequence number.\<close>

definition numbered :: "'f encap_env \<Rightarrow> action_buf \<Rightarrow> bool" where
  "numbered E b \<longleftrightarrow> (case get_action_nocheck (enc_actions E) (awd b) of None \<Rightarrow> False
     | Some a \<Rightarrow> erspan_dip_type (additional_actions a) \<in> {4, 6} \<and> erspan_type (additional_actions a) \<in> {2, 3})"

lemma push_erspan_state: "push_erspan h b g = Some (b', g') \<Longrightarrow> g' = g"
  by (auto simp: push_erspan_def bind_eq_Some_conv Let_def)

lemma counter_moves: "g = g\<lparr>sf_gre_option_template := sf_gre_option_template g + 1\<rparr> \<longleftrightarrow> False"
  "g = g\<lparr>sf_gre_option_template := sf_gre_option_template g + 1, clock_reads := k\<rparr> \<longleftrightarrow> False"
  by (cases g; simp)+

lemma erspan_counts:
  assumes "encap_erspan E g b = Some (b', g')"
  shows "sf_gre_option_template g' = sf_gre_option_template g + (if numbered E b then 1 else 0)"
  using assms
  by (auto simp: encap_erspan_def numbered_def encap_erspan_proc_def encap_erspan_proc_ipv6_def Let_def bind_eq_Some_conv
      counter_moves dest!: push_erspan_state split: if_splits)

lemma run_erspan_counts:
  assumes "run_packets (encap_erspan_x1 E) g bs = Some (rs, g')"
  shows "sf_gre_option_template g' = sf_gre_option_template g + word_of_nat (length (filter (numbered E) bs))"
  using assms
proof (induction bs arbitrary: g rs)
  case (Cons b bs)
  obtain r g1 rs' where r: "encap_erspan_x1 E g b = Some (r, g1)" "run_packets (encap_erspan_x1 E) g1 bs = Some (rs', g')"
    using Cons.prems by (auto simp: bind_eq_Some_conv)
  obtain b1 where "encap_erspan E g b = Some (b1, g1)" using r(1) by (auto simp: encap_erspan_x1_def bind_eq_Some_conv)
  from erspan_counts [OF this] Cons.IH [OF r(2)] show ?case by simp
qed simp

text \<open>C40: A frame of an encapsulation node.  On a frame of distinct buffers, for any room VPP leaves in the next frames,
  the unrolled loops of the three nodes return what handling the packets one by one from left to right gives; and the
  ERSPAN counter, which all packets share, advances by exactly the number of packets with a header of type 2 or 3.\<close>

theorem encap_nodes_frame:
  assumes "frames_ok fresh" "distinct from"
    and "run_packets (encap_gre_x1 E) g (map (bufs s) from) = Some (rg, g1)"
    and "run_packets (encap_vxlan_x1 E) g (map (bufs s) from) = Some (rv, g2)"
    and "run_packets (encap_erspan_x1 E) g (map (bufs s) from) = Some (re, g3)"
  shows "(\<exists>s'. encap_gre_node E fresh left from g s = Some (Some (g1, s')) \<and> enq s' = enq s @ zip from (map snd rg)
      \<and> map (bufs s') from = map fst rg)
    \<and> (\<exists>s'. encap_vxlan_node E fresh left from g s = Some (Some (g2, s')) \<and> enq s' = enq s @ zip from (map snd rv)
      \<and> map (bufs s') from = map fst rv)
    \<and> (\<exists>s'. encap_erspan_node E fresh left from g s = Some (Some (g3, s')) \<and> enq s' = enq s @ zip from (map snd re)
      \<and> map (bufs s') from = map fst re)
    \<and> sf_gre_option_template g3 = sf_gre_option_template g + word_of_nat (length (filter (numbered E) (map (bufs s) from)))"
  unfolding encap_gre_node_def encap_vxlan_node_def encap_erspan_node_def
  using gren.shared_node_eq [OF assms(1,2,3)] vxlann.shared_node_eq [OF assms(1,2,4)] erspann.shared_node_eq [OF assms(1,2,5)]
    run_erspan_counts [OF assms(5)]
  by blast

lemma ex_runs:
  "\<exists>r. run_packets (encap_gre_x1 ex_encap_env) g [ex_encap_buf] = Some ([r], g)"
  "\<exists>r. run_packets (encap_vxlan_x1 ex_encap_env) g [ex_encap_buf] = Some ([r], g)"
  "\<exists>r. run_packets (encap_erspan_x1 ex_encap_env) g [ex_encap_buf] = Some ([r], erspan_next ex_encap g)"
proof -
  have i: "intf_ok ex_intf" by (simp add: intf_ok_def ex_intf_def)
  have pop: "\<exists>r. pop_next b = Some r" if "additional_list b = (additional_list ex_encap_buf)\<lparr>delta := d\<rparr>" for b :: action_buf and d
    using that by (simp add: pop_next_def pop_addtional_list_def arr_read_def ex_encap_buf_def reset_addtional_list_def)
  have d: "additional_list ex_encap_buf = (additional_list ex_encap_buf)\<lparr>delta := 0\<rparr>" by (simp add: ex_encap_buf_def reset_addtional_list_def)
  have "length (gre_header c ex_intf ex_encap n) = 38" "length (vxlan_header c ex_intf ex_encap n) = 70"
    "length (erspan_header c ex_intf ex_encap w q t) = 54" for c n w q t
    using i ex_encap_ok(2-4)
    by (simp_all add: gre_header_length vxlan_header_length erspan_header_length gre_ok_def vxlan_ok_def erspan_ok_def ex_encap_sizes)
  note sizes = this ex_encap_ok(6)
  obtain w where w: "encap_gre ex_encap_env g ex_encap_buf = Some (ex_encap_buf\<lparr>awd := w\<rparr>, g)"
    using gre_writes [OF ex_encap_ok(1,2), of g] sizes ex_encap_ok(5) by (auto simp: writes_def)
  obtain r where r: "pop_next (ex_encap_buf\<lparr>awd := w\<rparr>) = Some r" using pop [of "ex_encap_buf\<lparr>awd := w\<rparr>" 0] d by auto
  show "\<exists>r. run_packets (encap_gre_x1 ex_encap_env) g [ex_encap_buf] = Some ([r], g)"
    by (intro exI [of _ r]) (simp add: encap_gre_x1_def w r)
  obtain w2 where w2: "encap_vxlan ex_encap_env g ex_encap_buf = Some (ex_encap_buf\<lparr>awd := w2\<rparr>, g)"
    using vxlan_writes [OF ex_encap_ok(1,3), of g] sizes ex_encap_ok(5) by (auto simp: writes_def)
  obtain r2 where r2: "pop_next (ex_encap_buf\<lparr>awd := w2\<rparr>) = Some r2" using pop [of "ex_encap_buf\<lparr>awd := w2\<rparr>" 0] d by auto
  show "\<exists>r. run_packets (encap_vxlan_x1 ex_encap_env) g [ex_encap_buf] = Some ([r], g)"
    by (intro exI [of _ r2]) (simp add: encap_vxlan_x1_def w2 r2)
  obtain w3 where w3: "encap_erspan ex_encap_env g ex_encap_buf = Some ((grow_delta (erspan_size ex_encap) ex_encap_buf)\<lparr>awd := w3\<rparr>, erspan_next ex_encap g)"
    using erspan_writes [OF ex_encap_ok(1,4) _ ex_encap_ok(7), of g] sizes ex_encap_ok(5) by (auto simp: writes_def)
  obtain r3 where r3: "pop_next ((grow_delta (erspan_size ex_encap) ex_encap_buf)\<lparr>awd := w3\<rparr>) = Some r3"
    using pop [of "(grow_delta (erspan_size ex_encap) ex_encap_buf)\<lparr>awd := w3\<rparr>"
        "delta (additional_list ex_encap_buf) + word_of_nat (erspan_size ex_encap)"] by (auto simp: grow_delta_def)
  show "\<exists>r. run_packets (encap_erspan_x1 ex_encap_env) g [ex_encap_buf] = Some ([r], erspan_next ex_encap g)"
    by (intro exI [of _ r3]) (simp add: encap_erspan_x1_def w3 r3)
qed

theorem encap_nodes_frame_witness:
  "\<exists>s'. encap_erspan_node ex_encap_env (\<lambda>_. 1) (\<lambda>_. 1) [3] \<lparr>sf_gre_option_template = 7, clock_reads = 0\<rparr> \<lparr>bufs = \<lambda>_. ex_encap_buf, enq = []\<rparr>
      = Some (Some (\<lparr>sf_gre_option_template = 8, clock_reads = 1\<rparr>, s')) \<and> map fst (enq s') = [3]"
proof -
  let ?g = "\<lparr>sf_gre_option_template = 7, clock_reads = 0\<rparr>" and ?s = "\<lparr>bufs = \<lambda>_. ex_encap_buf, enq = []\<rparr>"
  have bs: "map (bufs ?s) [3] = [ex_encap_buf]" by simp
  have n: "erspan_next ex_encap ?g = \<lparr>sf_gre_option_template = 8, clock_reads = 1\<rparr>" by (simp add: erspan_next_def ex_encap_def)
  obtain r1 r2 r3 where r: "run_packets (encap_gre_x1 ex_encap_env) ?g (map (bufs ?s) [3]) = Some ([r1], ?g)"
    "run_packets (encap_vxlan_x1 ex_encap_env) ?g (map (bufs ?s) [3]) = Some ([r2], ?g)"
    "run_packets (encap_erspan_x1 ex_encap_env) ?g (map (bufs ?s) [3]) = Some ([r3], erspan_next ex_encap ?g)"
    using ex_runs [of ?g] unfolding bs by blast
  have f: "frames_ok (\<lambda>_. 1)" "distinct [3 :: nat]" by (simp_all add: frames_ok_def)
  show ?thesis using encap_nodes_frame [OF f r, of "\<lambda>_. 1"] unfolding n by auto
qed

end
