(* ===== verification/Acl_Hash.thy ===== *)
theory Acl_Hash
  imports Sf_Crc32
begin

text \<open>
  The hash table in which the management library looks for a rule with the same fields
  (\<open>nshell-lib/sf_plugin_api/sf_acl_hash.c\<close>): 256 buckets, each the head of a doubly linked list of rule numbers,
  with links kept in an array beside the rules.  A rule number counts from 1 and 0 ends a list.  \<open>None\<close> is an access
  outside an array or a search that does not return.  The hash value is a parameter: it is \<open>sf_crc32_gen\<close> of
  \<open>Sf_Crc32\<close> or, on processors with the instruction, \<open>clib_crc32c\<close> of VPP.
\<close>

section \<open>State and operations\<close>

record sf_acl_hash_bucket_t =
  node_cnt :: u8
  hash_next_rule :: nat

record sf_acl_hash_node_t =
  hash_prev :: nat
  hash_next :: nat

record acl_table =
  hash_buckets :: "sf_acl_hash_bucket_t list"
  hash_nodes :: "sf_acl_hash_node_t list"

definition acl_hash_index :: "(u8 list \<Rightarrow> u32) \<Rightarrow> u8 list \<Rightarrow> nat \<Rightarrow> nat" where
  "acl_hash_index crc key hash_bucket_cnt = unat (crc key) mod hash_bucket_cnt"

definition node_at :: "acl_table \<Rightarrow> nat \<Rightarrow> sf_acl_hash_node_t option" where
  "node_at t r = (if r = 0 then None else arr_read (hash_nodes t) (r - 1))"

definition upd_node :: "(sf_acl_hash_node_t \<Rightarrow> sf_acl_hash_node_t) \<Rightarrow> nat \<Rightarrow> acl_table \<Rightarrow> acl_table option" where
  "upd_node f r t =
    do { n \<leftarrow> node_at t r;
         ns \<leftarrow> arr_write (hash_nodes t) (r - 1) (f n);
         Some (t\<lparr>hash_nodes := ns\<rparr>) }"

definition upd_bucket :: "(sf_acl_hash_bucket_t \<Rightarrow> sf_acl_hash_bucket_t) \<Rightarrow> nat \<Rightarrow> acl_table \<Rightarrow> acl_table option" where
  "upd_bucket f i t =
    do { b \<leftarrow> arr_read (hash_buckets t) i;
         bs \<leftarrow> arr_write (hash_buckets t) i (f b);
         Some (t\<lparr>hash_buckets := bs\<rparr>) }"

text \<open>The loop of the search; \<open>cmp r\<close> compares the fields of rule \<open>r\<close> with the key.\<close>

partial_function (option) acl_find_loop :: "acl_table \<Rightarrow> (nat \<Rightarrow> bool option) \<Rightarrow> nat \<Rightarrow> nat option" where
  "acl_find_loop t cmp r =
    (if r = 0 then Some 0
     else do { same \<leftarrow> cmp r;
               if same then Some r
               else do { n \<leftarrow> node_at t r; acl_find_loop t cmp (hash_next n) } })"

definition acl_hash_find :: "(u8 list \<Rightarrow> u32) \<Rightarrow> acl_table \<Rightarrow> nat \<Rightarrow> u8 list \<Rightarrow> (nat \<Rightarrow> bool option) \<Rightarrow> nat option" where
  "acl_hash_find crc t hash_bucket_cnt key rule_cfg_cmp =
    do { bucket \<leftarrow> arr_read (hash_buckets t) (acl_hash_index crc key hash_bucket_cnt);
         if node_cnt bucket = 0 then Some 0
         else acl_find_loop t rule_cfg_cmp (hash_next_rule bucket) }"

definition acl_hash_insert :: "(u8 list \<Rightarrow> u32) \<Rightarrow> acl_table \<Rightarrow> nat \<Rightarrow> u8 list \<Rightarrow> nat \<Rightarrow> acl_table option" where
  "acl_hash_insert crc t hash_bucket_cnt key rule_id =
    do { let hash_index = acl_hash_index crc key hash_bucket_cnt;
         bucket \<leftarrow> arr_read (hash_buckets t) hash_index;
         t \<leftarrow> upd_node (\<lambda>n. n\<lparr>hash_next := hash_next_rule bucket\<rparr>) rule_id t;
         t \<leftarrow> upd_node (\<lambda>n. n\<lparr>hash_prev := 0\<rparr>) rule_id t;
         t \<leftarrow> (if hash_next_rule bucket \<noteq> 0
               then upd_node (\<lambda>n. n\<lparr>hash_prev := rule_id\<rparr>) (hash_next_rule bucket) t else Some t);
         t \<leftarrow> upd_bucket (\<lambda>b. b\<lparr>hash_next_rule := rule_id\<rparr>) hash_index t;
         if node_cnt bucket \<noteq> 0xFF
         then upd_bucket (\<lambda>b. b\<lparr>node_cnt := node_cnt b + 1\<rparr>) hash_index t else Some t }"

text \<open>The code reads \<open>hash_prev\<close> into both variables and never writes \<open>hash_next\<close>.\<close>

definition acl_hash_free :: "(u8 list \<Rightarrow> u32) \<Rightarrow> acl_table \<Rightarrow> nat \<Rightarrow> u8 list \<Rightarrow> nat \<Rightarrow> acl_table option" where
  "acl_hash_free crc t hash_bucket_cnt key rule_id =
    do { let hash_index = acl_hash_index crc key hash_bucket_cnt;
         n \<leftarrow> node_at t rule_id;
         let hash_rule_prev = hash_prev n;
         let hash_rule_next = hash_prev n;
         t \<leftarrow> upd_node (\<lambda>n. n\<lparr>hash_prev := 0\<rparr>) rule_id t;
         t \<leftarrow> upd_node (\<lambda>n. n\<lparr>hash_prev := 0\<rparr>) rule_id t;
         t \<leftarrow> (if hash_rule_prev = 0
               then upd_bucket (\<lambda>b. b\<lparr>hash_next_rule := hash_rule_next\<rparr>) hash_index t
               else upd_node (\<lambda>n. n\<lparr>hash_prev := hash_rule_next\<rparr>) hash_rule_prev t);
         t \<leftarrow> (if hash_rule_next \<noteq> 0
               then upd_node (\<lambda>n. n\<lparr>hash_prev := hash_rule_prev\<rparr>) hash_rule_next t else Some t);
         bucket \<leftarrow> arr_read (hash_buckets t) hash_index;
         if node_cnt bucket \<noteq> 0xFF
         then upd_bucket (\<lambda>b. b\<lparr>node_cnt := node_cnt b - 1\<rparr>) hash_index t else Some t }"

section \<open>The lists of a table\<close>

definition link :: "nat \<Rightarrow> ptr" where
  "link r = (if r = 0 then None else Some r)"

definition next_of :: "acl_table \<Rightarrow> pfield" where
  "next_of t r = link (hash_next (hash_nodes t ! (r - 1)))"

definition rule_ids :: "acl_table \<Rightarrow> nat set" where
  "rule_ids t = {1..length (hash_nodes t)}"

definition bucket_list :: "acl_table \<Rightarrow> nat \<Rightarrow> nat list \<Rightarrow> bool" where
  "bucket_list t b rs \<longleftrightarrow> chain (next_of t) (link (hash_next_rule (hash_buckets t ! b))) rs \<and> set rs \<subseteq> rule_ids t"

text \<open>
  \<open>acl_lists crc cnt key_of t L\<close>: bucket \<open>b\<close> holds the list \<open>L b\<close>, every rule is in the bucket of its key, once, and the
  count of a bucket is the length of its list until it reaches 255 and stays there.
\<close>

definition cnt_ok :: "u8 \<Rightarrow> nat \<Rightarrow> bool" where
  "cnt_ok c n \<longleftrightarrow> (c \<noteq> 0xFF \<longrightarrow> unat c = n)"

fun prevs_ok :: "acl_table \<Rightarrow> nat \<Rightarrow> nat list \<Rightarrow> bool" where
  "prevs_ok t p [] \<longleftrightarrow> True"
| "prevs_ok t p (r # rs) \<longleftrightarrow> hash_prev (hash_nodes t ! (r - 1)) = p \<and> prevs_ok t r rs"

definition acl_lists ::
  "(u8 list \<Rightarrow> u32) \<Rightarrow> (nat \<Rightarrow> u8 list) \<Rightarrow> acl_table \<Rightarrow> (nat \<Rightarrow> nat list) \<Rightarrow> bool" where
  "acl_lists crc key_of t L \<longleftrightarrow> 0 < length (hash_buckets t)
     \<and> (\<forall>b<length (hash_buckets t). bucket_list t b (L b) \<and> prevs_ok t 0 (L b) \<and> distinct (L b)
          \<and> (\<forall>r\<in>set (L b). acl_hash_index crc (key_of r) (length (hash_buckets t)) = b)
          \<and> cnt_ok (node_cnt (hash_buckets t ! b)) (length (L b)))"

definition stored :: "acl_table \<Rightarrow> (nat \<Rightarrow> nat list) \<Rightarrow> nat set" where
  "stored t L = (\<Union>b<length (hash_buckets t). set (L b))"

lemma link_simps [simp]: "link 0 = None" "r \<noteq> 0 \<Longrightarrow> link r = Some r" "link r = None \<longleftrightarrow> r = 0"
  "link r = Some x \<longleftrightarrow> r = x \<and> r \<noteq> 0"
  by (auto simp: link_def)

lemma index_less: "0 < n \<Longrightarrow> acl_hash_index crc key n < n"
  by (simp add: acl_hash_index_def)

lemma node_at_in: "r \<in> rule_ids t \<Longrightarrow> node_at t r = Some (hash_nodes t ! (r - 1))"
  by (auto simp: node_at_def rule_ids_def arr_simps)

lemma upd_node_in:
  "r \<in> rule_ids t \<Longrightarrow>
    upd_node f r t = Some (t\<lparr>hash_nodes := (hash_nodes t)[r - 1 := f (hash_nodes t ! (r - 1))]\<rparr>)"
  by (auto simp: upd_node_def node_at_in rule_ids_def arr_simps)

lemma upd_bucket_in:
  "i < length (hash_buckets t) \<Longrightarrow>
    upd_bucket f i t = Some (t\<lparr>hash_buckets := (hash_buckets t)[i := f (hash_buckets t ! i)]\<rparr>)"
  by (simp add: upd_bucket_def arr_simps)

lemma next_of_eq: "next_of t x = link (hash_next (hash_nodes t ! (x - 1)))"
  by (simp add: next_of_def)

text \<open>The search along a list is the search of the list.\<close>

lemma find_loop_list:
  assumes "chain (next_of t) (link r) rs" "set rs \<subseteq> rule_ids t" "\<forall>x\<in>set rs. cmp x = Some (same x)"
  shows "acl_find_loop t cmp r = Some (case find same rs of None \<Rightarrow> 0 | Some x \<Rightarrow> x)"
  using assms
proof (induction rs arbitrary: r)
  case Nil
  then show ?case by (subst acl_find_loop.simps) simp
next
  case (Cons x xs)
  then have x: "r = x" "r \<noteq> 0" "x \<in> rule_ids t" "cmp x = Some (same x)" by auto
  have "chain (next_of t) (link (hash_next (hash_nodes t ! (x - 1)))) xs"
    using Cons.prems(1) unfolding next_of_eq [symmetric] by simp
  then show ?case
    using Cons x by (subst acl_find_loop.simps) (simp add: node_at_in)
qed

lemma acl_listsD:
  assumes "acl_lists crc key_of t L" "b < length (hash_buckets t)"
  shows "chain (next_of t) (link (hash_next_rule (hash_buckets t ! b))) (L b)" "set (L b) \<subseteq> rule_ids t"
    "prevs_ok t 0 (L b)" "distinct (L b)"
    "\<And>r. r \<in> set (L b) \<Longrightarrow> acl_hash_index crc (key_of r) (length (hash_buckets t)) = b"
    "cnt_ok (node_cnt (hash_buckets t ! b)) (length (L b))"
  using assms by (auto simp: acl_lists_def bucket_list_def)

lemma stored_bucket:
  assumes "acl_lists crc key_of t L" "r \<in> stored t L"
  shows "r \<in> set (L (acl_hash_index crc (key_of r) (length (hash_buckets t))))"
  using assms acl_listsD(5) [OF assms(1)] by (fastforce simp: stored_def)

text \<open>The search returns and finds exactly what is stored.\<close>

lemma hash_find_eq:
  assumes "acl_lists crc key_of t L" "\<forall>r\<in>rule_ids t. cmp r = Some (key_of r = key)"
  shows "acl_hash_find crc t (length (hash_buckets t)) key cmp
    = Some (case find (\<lambda>r. key_of r = key) (L (acl_hash_index crc key (length (hash_buckets t)))) of None \<Rightarrow> 0 | Some r \<Rightarrow> r)"
proof -
  let ?b = "acl_hash_index crc key (length (hash_buckets t))"
  have b: "?b < length (hash_buckets t)" using assms(1) by (auto simp: acl_lists_def intro: index_less)
  note L = acl_listsD [OF assms(1) b]
  show ?thesis
  proof (cases "node_cnt (hash_buckets t ! ?b) = 0")
    case True
    then have "L ?b = []" using L(6) by (simp add: cnt_ok_def)
    then show ?thesis using True b by (simp add: acl_hash_find_def arr_simps)
  next
    case False
    moreover have "\<forall>x\<in>set (L ?b). cmp x = Some (key_of x = key)" using L(2) assms(2) by blast
    ultimately show ?thesis using b find_loop_list [OF L(1,2)] by (simp add: acl_hash_find_def arr_simps)
  qed
qed

lemma hash_find_stored:
  assumes "acl_lists crc key_of t L" "\<forall>r\<in>rule_ids t. cmp r = Some (key_of r = key)"
  obtains r where "acl_hash_find crc t (length (hash_buckets t)) key cmp = Some r"
    "r = 0 \<Longrightarrow> \<forall>x\<in>stored t L. key_of x \<noteq> key" "r \<noteq> 0 \<Longrightarrow> r \<in> stored t L \<and> key_of r = key"
proof -
  let ?b = "acl_hash_index crc key (length (hash_buckets t))"
  have b: "?b < length (hash_buckets t)" using assms(1) by (auto simp: acl_lists_def intro: index_less)
  have pos: "0 \<notin> set (L ?b)" using acl_listsD(2) [OF assms(1) b] by (auto simp: rule_ids_def)
  show ?thesis
  proof (cases "find (\<lambda>r. key_of r = key) (L ?b)")
    case None
    then have "\<forall>x\<in>stored t L. key_of x \<noteq> key" using stored_bucket [OF assms(1)] by (fastforce simp: find_None_iff)
    then show ?thesis using that [of 0] hash_find_eq [OF assms] None by simp
  next
    case (Some r)
    then have "r \<in> set (L ?b)" "key_of r = key" by (auto simp: find_Some_iff)
    then show ?thesis using that [of r] hash_find_eq [OF assms] Some b pos by (auto simp: stored_def)
  qed
qed

section \<open>Insertion\<close>

text \<open>Operations that leave the arrays' lengths alone keep the meaning of lists that they do not touch.\<close>

lemma next_of_cong:
  assumes "\<And>x. x \<in> set rs \<Longrightarrow> hash_next (hash_nodes t' ! (x - 1)) = hash_next (hash_nodes t ! (x - 1))"
  shows "chain (next_of t') p rs \<longleftrightarrow> chain (next_of t) p rs"
  by (rule chain_cong) (simp only: next_of_eq assms)

lemma prevs_ok_cong:
  assumes "\<And>x. x \<in> set rs \<Longrightarrow> hash_prev (hash_nodes t' ! (x - 1)) = hash_prev (hash_nodes t ! (x - 1))"
  shows "prevs_ok t' p rs \<longleftrightarrow> prevs_ok t p rs"
  using assms by (induction rs arbitrary: p) auto

definition insert_nodes :: "sf_acl_hash_node_t list \<Rightarrow> nat \<Rightarrow> nat \<Rightarrow> sf_acl_hash_node_t list" where
  "insert_nodes ns r h =
    (let ns = ns[r - 1 := \<lparr>hash_prev = 0, hash_next = h\<rparr>]
     in if h = 0 then ns else ns[h - 1 := (ns ! (h - 1))\<lparr>hash_prev := r\<rparr>])"

lemma insert_nodes_nth:
  assumes "r \<in> {1..length ns}" "h \<noteq> r" "h \<le> length ns" "x \<in> {1..length ns}"
  shows "hash_next (insert_nodes ns r h ! (x - 1)) = (if x = r then h else hash_next (ns ! (x - 1)))"
    "hash_prev (insert_nodes ns r h ! (x - 1)) = (if x = r then 0 else if x = h then r else hash_prev (ns ! (x - 1)))"
proof -
  have "ns \<noteq> []" using assms(1) by auto
  then show "hash_next (insert_nodes ns r h ! (x - 1)) = (if x = r then h else hash_next (ns ! (x - 1)))"
    "hash_prev (insert_nodes ns r h ! (x - 1)) = (if x = r then 0 else if x = h then r else hash_prev (ns ! (x - 1)))"
    using assms by (auto simp: insert_nodes_def Let_def nth_list_update)
qed

lemma insert_nodes_length [simp]: "length (insert_nodes ns r h) = length ns"
  by (simp add: insert_nodes_def Let_def)

lemma hash_insert_eq:
  assumes "i = acl_hash_index crc key (length (hash_buckets t))" "i < length (hash_buckets t)" "r \<in> rule_ids t"
    "h = hash_next_rule (hash_buckets t ! i)" "h \<le> length (hash_nodes t)" "c = node_cnt (hash_buckets t ! i)"
  shows "acl_hash_insert crc t (length (hash_buckets t)) key r
    = Some \<lparr>hash_buckets = (hash_buckets t)[i := \<lparr>node_cnt = if c = 0xFF then c else c + 1, hash_next_rule = r\<rparr>],
            hash_nodes = insert_nodes (hash_nodes t) r h\<rparr>"
proof -
  have full: "n\<lparr>hash_next := h', hash_prev := 0\<rparr> = \<lparr>hash_prev = 0, hash_next = h'\<rparr>"
    "b\<lparr>hash_next_rule := r, node_cnt := k\<rparr> = \<lparr>node_cnt = k, hash_next_rule = r\<rparr>"
    "b\<lparr>hash_next_rule := r\<rparr> = \<lparr>node_cnt = node_cnt b, hash_next_rule = r\<rparr>"
    "u\<lparr>hash_nodes := ns, hash_buckets := bs\<rparr> = \<lparr>hash_buckets = bs, hash_nodes = ns\<rparr>"
    for n :: sf_acl_hash_node_t and b :: sf_acl_hash_bucket_t and u :: acl_table and h' k ns bs by simp_all
  show ?thesis
    using assms(2,3,5)
    by (auto simp: acl_hash_insert_def assms(1) [symmetric] assms(4) [symmetric] assms(6) [symmetric] arr_simps upd_node_in upd_bucket_in rule_ids_def
        insert_nodes_def Let_def full)
qed

lemma cnt_ok_Suc: "cnt_ok c n \<Longrightarrow> cnt_ok (if c = 0xFF then c else c + 1) (Suc n)"
proof (cases "c = 0xFF")
  case False
  assume "cnt_ok c n"
  then have n: "unat c = n" using False by (simp add: cnt_ok_def)
  have "unat c \<noteq> unat (0xFF :: u8)" using False by (simp only: word_unat_eq_iff not_False_eq_True)
  then have "unat c + 1 < 256" using unsigned_less [of c, where 'a = nat] by simp
  then have "unat (c + 1) = Suc n" using n by (simp add: unat_word_ariths)
  then show ?thesis using False by (auto simp: cnt_ok_def)
qed (simp add: cnt_ok_def)

lemma hash_insert_lists:
  assumes L: "acl_lists crc key_of t L" and r: "r \<in> rule_ids t" "r \<notin> stored t L"
    and i: "i = acl_hash_index crc (key_of r) (length (hash_buckets t))"
  obtains t' where "acl_hash_insert crc t (length (hash_buckets t)) (key_of r) r = Some t'"
    "acl_lists crc key_of t' (L(i := r # L i))"
    "length (hash_buckets t') = length (hash_buckets t)" "length (hash_nodes t') = length (hash_nodes t)"
proof -
  have i_less: "i < length (hash_buckets t)" using L unfolding i by (auto simp: acl_lists_def intro: index_less)
  define h where "h = hash_next_rule (hash_buckets t ! i)"
  have h: "h \<noteq> r" "h \<le> length (hash_nodes t)" "h \<noteq> 0 \<Longrightarrow> \<exists>rs. L i = h # rs"
  proof -
    have "h \<noteq> 0 \<Longrightarrow> \<exists>rs. L i = h # rs"
      using acl_listsD(1) [OF L i_less] by (auto simp: h_def chain_Some)
    then show "h \<noteq> 0 \<Longrightarrow> \<exists>rs. L i = h # rs" "h \<noteq> r" "h \<le> length (hash_nodes t)"
      using acl_listsD(2) [OF L i_less] r i_less by (cases "h = 0"; force simp: rule_ids_def stored_def)+
  qed
  define t' where "t' = \<lparr>hash_buckets = (hash_buckets t)[i := \<lparr>node_cnt = if node_cnt (hash_buckets t ! i) = 0xFF then node_cnt (hash_buckets t ! i)
        else node_cnt (hash_buckets t ! i) + 1, hash_next_rule = r\<rparr>], hash_nodes = insert_nodes (hash_nodes t) r h\<rparr>"
  have run: "acl_hash_insert crc t (length (hash_buckets t)) (key_of r) r = Some t'"
    unfolding t'_def by (rule hash_insert_eq) (use i i_less r h_def h in auto)
  have nth: "hash_next (hash_nodes t' ! (x - 1)) = (if x = r then h else hash_next (hash_nodes t ! (x - 1)))"
    "hash_prev (hash_nodes t' ! (x - 1)) = (if x = r then 0 else if x = h then r else hash_prev (hash_nodes t ! (x - 1)))"
    if "x \<in> rule_ids t" for x
    unfolding t'_def acl_table.select_convs
    by (rule insert_nodes_nth; use r h that in \<open>simp add: rule_ids_def\<close>)+
  have ids: "rule_ids t' = rule_ids t" and len: "length (hash_buckets t') = length (hash_buckets t)"
    by (simp_all add: rule_ids_def t'_def)
  have old: "bucket_list t' b (L b) \<and> prevs_ok t' 0 (L b)" if b: "b < length (hash_buckets t)" "b \<noteq> i" for b
  proof -
    note Lb = acl_listsD [OF L b(1)]
    have "r \<notin> set (L b)" using r(2) b(1) by (auto simp: stored_def)
    moreover have "h \<notin> set (L b)"
    proof
      assume "h \<in> set (L b)"
      moreover from this have "h \<noteq> 0" using Lb(2) by (auto simp: rule_ids_def)
      ultimately show False
        using Lb(5) [of h] acl_listsD(5) [OF L i_less, of h] h(3) b(2) by force
    qed
    ultimately have eq: "hash_next (hash_nodes t' ! (x - 1)) = hash_next (hash_nodes t ! (x - 1))"
      "hash_prev (hash_nodes t' ! (x - 1)) = hash_prev (hash_nodes t ! (x - 1))" if "x \<in> set (L b)" for x
      using that Lb(2) nth [of x] by (auto simp only: if_False subset_iff split: if_splits)
    have "hash_next_rule (hash_buckets t' ! b) = hash_next_rule (hash_buckets t ! b)" using b by (simp add: t'_def)
    then show ?thesis
      using Lb(1-3) next_of_cong [OF eq(1), of "L b"] prevs_ok_cong [OF eq(2), of "L b"] by (simp add: bucket_list_def ids)
  qed
  have new: "bucket_list t' i (r # L i) \<and> prevs_ok t' 0 (r # L i)"
  proof -
    note Li = acl_listsD [OF L i_less]
    have rn: "r \<notin> set (L i)" using r(2) i_less by (auto simp: stored_def)
    then have nx: "chain (next_of t') p (L i) \<longleftrightarrow> chain (next_of t) p (L i)" for p
      using nth(1) Li(2) by (intro next_of_cong) (metis subset_iff)
    have "prevs_ok t' r (L i)"
    proof (cases "h = 0")
      case True
      then have "L i = []" using Li(1) by (simp add: h_def)
      then show ?thesis by simp
    next
      case False
      then obtain rs where rs: "L i = h # rs" using h(3) by blast
      have "prevs_ok t' h rs \<longleftrightarrow> prevs_ok t h rs"
        using nth(2) Li(2,4) rn rs by (intro prevs_ok_cong) (force simp only: subset_iff list.set(2) insert_iff distinct.simps split: if_splits)
      then show ?thesis using Li(2,3) nth(2) [of h] h(1) rs by simp
    qed
    moreover have "next_of t' r = link h" using nth(1) [OF r(1)] by (simp only: next_of_eq if_True simp_thms)
    moreover have "hash_next_rule (hash_buckets t' ! i) = r" using i_less by (simp add: t'_def)
    ultimately show ?thesis
      using Li(1,2) r(1) nth(2) [OF r(1)] unfolding bucket_list_def ids
      by (auto simp: nx h_def rule_ids_def)
  qed
  have "acl_lists crc key_of t' (L(i := r # L i))"
    unfolding acl_lists_def len
  proof (intro conjI allI impI)
    show "0 < length (hash_buckets t)" using i_less by linarith
    fix b assume b: "b < length (hash_buckets t)"
    note Lb = acl_listsD [OF L b]
    show "bucket_list t' b ((L(i := r # L i)) b)" "prevs_ok t' 0 ((L(i := r # L i)) b)"
      using old [OF b] new by auto
    show "distinct ((L(i := r # L i)) b)" using Lb(4) r(2) b by (auto simp: stored_def)
    show "\<forall>x\<in>set ((L(i := r # L i)) b). acl_hash_index crc (key_of x) (length (hash_buckets t)) = b"
      using Lb(5) i by auto
    show "cnt_ok (node_cnt (hash_buckets t' ! b)) (length ((L(i := r # L i)) b))"
      using Lb(6) cnt_ok_Suc [OF Lb(6)] b by (auto simp: t'_def nth_list_update split: if_splits)
  qed
  then show ?thesis by (rule that [OF run]) (simp_all add: t'_def)
qed

section \<open>Removal\<close>

definition free_cnt :: "u8 \<Rightarrow> u8" where
  "free_cnt c = (if c = 0xFF then c else c - 1)"

text \<open>What the code does to the first rule of a list, and to a later one behind rule \<open>p\<close>.\<close>

lemma hash_free_first:
  assumes "i = acl_hash_index crc key (length (hash_buckets t))" "i < length (hash_buckets t)" "r \<in> rule_ids t"
    "hash_prev (hash_nodes t ! (r - 1)) = 0"
  shows "acl_hash_free crc t (length (hash_buckets t)) key r
    = Some (t\<lparr>hash_buckets := (hash_buckets t)[i := \<lparr>node_cnt = free_cnt (node_cnt (hash_buckets t ! i)), hash_next_rule = 0\<rparr>]\<rparr>)"
proof -
  have full: "b\<lparr>hash_next_rule := k', node_cnt := k\<rparr> = \<lparr>node_cnt = k, hash_next_rule = k'\<rparr>"
    "b\<lparr>hash_next_rule := k'\<rparr> = \<lparr>node_cnt = node_cnt b, hash_next_rule = k'\<rparr>"
    for b :: sf_acl_hash_bucket_t and k k' by simp_all
  have "(hash_nodes t)[r - 1 := (hash_nodes t ! (r - 1))\<lparr>hash_prev := 0\<rparr>] = hash_nodes t"
  proof -
    have "(hash_nodes t ! (r - 1))\<lparr>hash_prev := 0\<rparr> = hash_nodes t ! (r - 1)"
      using assms(4) by (metis sf_acl_hash_node_t.surjective sf_acl_hash_node_t.update_convs(1) old.unit.exhaust)
    then show ?thesis by simp
  qed
  then have step: "upd_node (\<lambda>n. n\<lparr>hash_prev := 0\<rparr>) r t = Some t" using assms(3) by (simp add: upd_node_in)
  show ?thesis
    using assms(2-4) step
    by (auto simp: acl_hash_free_def assms(1) [symmetric] node_at_in upd_bucket_in arr_simps free_cnt_def full)
qed

lemma hash_free_later:
  assumes "i = acl_hash_index crc key (length (hash_buckets t))" "i < length (hash_buckets t)" "r \<in> rule_ids t" "p \<in> rule_ids t"
    "p \<noteq> r" "hash_prev (hash_nodes t ! (r - 1)) = p"
  obtains t' where "acl_hash_free crc t (length (hash_buckets t)) key r = Some t'"
    "length (hash_buckets t') = length (hash_buckets t)" "length (hash_nodes t') = length (hash_nodes t)"
    "\<And>x. hash_next (hash_nodes t' ! (x - 1)) = hash_next (hash_nodes t ! (x - 1))"
    "\<And>b. b < length (hash_buckets t) \<Longrightarrow> hash_next_rule (hash_buckets t' ! b) = hash_next_rule (hash_buckets t ! b)"
    "\<And>b. b < length (hash_buckets t) \<Longrightarrow>
      node_cnt (hash_buckets t' ! b) = (if b = i then free_cnt (node_cnt (hash_buckets t ! b)) else node_cnt (hash_buckets t ! b))"
proof -
  have p: "p \<noteq> 0" "p - 1 < length (hash_nodes t)" "r - 1 < length (hash_nodes t)" "p - 1 \<noteq> r - 1"
    using assms(3-5) by (auto simp: rule_ids_def)
  define ns where "ns = (hash_nodes t)[r - 1 := (hash_nodes t ! (r - 1))\<lparr>hash_prev := 0\<rparr>, p - 1 := (hash_nodes t ! (p - 1))\<lparr>hash_prev := p\<rparr>]"
  define c where "c = node_cnt (hash_buckets t ! i)"
  define bs where "bs = (if c = 0xFF then hash_buckets t else (hash_buckets t)[i := (hash_buckets t ! i)\<lparr>node_cnt := c - 1\<rparr>])"
  have "acl_hash_free crc t (length (hash_buckets t)) key r = Some \<lparr>hash_buckets = bs, hash_nodes = ns\<rparr>"
    using assms(2,3,4,6) p
    by (auto simp: acl_hash_free_def assms(1) [symmetric] node_at_in upd_bucket_in upd_node_in rule_ids_def arr_simps ns_def bs_def c_def
        nth_list_update list_update_overwrite)
  then show ?thesis
    by (rule that) (use assms(2) p in \<open>auto simp: ns_def bs_def c_def nth_list_update free_cnt_def\<close>)
qed

lemma prevs_ok_append: "prevs_ok t p (xs @ y # z # zs) \<Longrightarrow> hash_prev (hash_nodes t ! (z - 1)) = y"
  by (induction xs arbitrary: p) auto

text \<open>Removing the only rule of a bucket is right.\<close>

lemma free_only:
  assumes L: "acl_lists crc key_of t L" and i: "i = acl_hash_index crc (key_of r) (length (hash_buckets t))" and Li: "L i = [r]"
  obtains t' where "acl_hash_free crc t (length (hash_buckets t)) (key_of r) r = Some t'"
    "acl_lists crc key_of t' (L(i := []))"
proof -
  have i_less: "i < length (hash_buckets t)" using L unfolding i by (auto simp: acl_lists_def intro: index_less)
  note I = acl_listsD [OF L i_less, unfolded Li]
  define t' where "t' = t\<lparr>hash_buckets := (hash_buckets t)[i := \<lparr>node_cnt = free_cnt (node_cnt (hash_buckets t ! i)), hash_next_rule = 0\<rparr>]\<rparr>"
  have run: "acl_hash_free crc t (length (hash_buckets t)) (key_of r) r = Some t'"
    unfolding t'_def by (rule hash_free_first [OF i i_less]) (use I(2,3) in simp_all)
  have same: "next_of t' = next_of t" "rule_ids t' = rule_ids t" "length (hash_buckets t') = length (hash_buckets t)"
    "prevs_ok t' p rs = prevs_ok t p rs" for p rs
    by (auto simp: t'_def next_of_def rule_ids_def intro!: prevs_ok_cong)
  have cnt: "cnt_ok (free_cnt (node_cnt (hash_buckets t ! i))) 0"
    using I(6) by (auto simp: cnt_ok_def free_cnt_def unat_sub word_le_nat_alt)
  have "acl_lists crc key_of t' (L(i := []))"
    unfolding acl_lists_def same
  proof (intro conjI allI impI)
    show "0 < length (hash_buckets t)" using i_less by linarith
    fix b assume b: "b < length (hash_buckets t)"
    have bucket: "hash_buckets t' ! b = (if b = i then \<lparr>node_cnt = free_cnt (node_cnt (hash_buckets t ! i)), hash_next_rule = 0\<rparr>
      else hash_buckets t ! b)" using b by (simp add: t'_def nth_list_update)
    note B = acl_listsD [OF L b]
    show "bucket_list t' b ((L(i := [])) b)"
      using B(1,2) unfolding bucket_list_def same bucket by simp
    show "prevs_ok t 0 ((L(i := [])) b)" "distinct ((L(i := [])) b)" using B(3,4) by simp_all
    show "\<forall>r\<in>set ((L(i := [])) b). acl_hash_index crc (key_of r) (length (hash_buckets t)) = b"
      using B(5) by simp
    show "cnt_ok (node_cnt (hash_buckets t' ! b)) (length ((L(i := [])) b))"
      using B(6) cnt unfolding bucket by simp
  qed
  with run show ?thesis by (rule that)
qed

text \<open>A search that enters a set of rules closed under the links, none of which has the key, does not return.\<close>

lemma find_loop_closed:
  assumes "\<And>x. x \<in> C \<Longrightarrow> x \<in> rule_ids t \<and> cmp x = Some False \<and> hash_next (hash_nodes t ! (x - 1)) \<in> C" "r \<in> C"
  shows "acl_find_loop t cmp r = None"
proof -
  have "u = t \<longrightarrow> c = cmp \<longrightarrow> r \<notin> C" if run: "acl_find_loop u c r = Some y" for u c r y
  proof (rule acl_find_loop.raw_induct [OF _ run])
    fix loop u c r y
    assume IH: "\<And>u c r y. loop u c r = Some y \<Longrightarrow> u = t \<longrightarrow> c = cmp \<longrightarrow> r \<notin> C"
      and body: "(if r = 0 then Some 0 else do { same \<leftarrow> c r; if same then Some r
        else do { n \<leftarrow> node_at u r; loop u c (hash_next n) } }) = Some y"
    show "u = t \<longrightarrow> c = cmp \<longrightarrow> r \<notin> C"
    proof (intro impI notI)
      assume "u = t" "c = cmp" "r \<in> C"
      then have "loop t cmp (hash_next (hash_nodes t ! (r - 1))) = Some y"
        using assms(1) [of r] body by (auto simp: node_at_in rule_ids_def split: if_splits)
      then show False using IH assms(1) [OF \<open>r \<in> C\<close>] by blast
    qed
  qed
  then show ?thesis using assms(2) by (cases "acl_find_loop t cmp r") auto
qed

lemma find_loop_same:
  assumes "\<And>x. hash_next (hash_nodes t' ! (x - 1)) = hash_next (hash_nodes t ! (x - 1))"
    "length (hash_nodes t') = length (hash_nodes t)" "acl_find_loop t cmp r = Some y"
  shows "acl_find_loop t' cmp r = Some y"
proof -
  have "u = t \<longrightarrow> acl_find_loop t' c r = Some y" if run: "acl_find_loop u c r = Some y" for u c r y
  proof (rule acl_find_loop.raw_induct [OF _ run])
    fix loop u c r y
    assume IH: "\<And>u c r y. loop u c r = Some y \<Longrightarrow> u = t \<longrightarrow> acl_find_loop t' c r = Some y"
      and body: "(if r = 0 then Some 0 else do { same \<leftarrow> c r; if same then Some r
        else do { n \<leftarrow> node_at u r; loop u c (hash_next n) } }) = Some y"
    show "u = t \<longrightarrow> acl_find_loop t' c r = Some y"
    proof
      assume u: "u = t"
      have unfold: "acl_find_loop t' c r = (if r = 0 then Some 0 else do { same \<leftarrow> c r; if same then Some r
        else do { n \<leftarrow> node_at t' r; acl_find_loop t' c (hash_next n) } })" by (rule acl_find_loop.simps)
      have node: "node_at t' r = Some (hash_nodes t' ! (r - 1)) \<and> hash_next n = hash_next (hash_nodes t' ! (r - 1))"
        if "node_at t r = Some n" for n
        using that assms(1) [of r] assms(2) by (auto simp: node_at_def arr_read_def split: if_splits)
      show "acl_find_loop t' c r = Some y"
      proof (cases "r = 0 \<or> c r = Some True")
        case True
        then show ?thesis using body unfolding unfold by auto
      next
        case False
        then obtain n where n: "r \<noteq> 0" "c r = Some False" "node_at t r = Some n" "loop t c (hash_next n) = Some y"
          using body u by (auto simp: bind_eq_Some_conv)
        then show ?thesis using node [OF n(3)] IH [OF n(4)] unfolding unfold by simp
      qed
    qed
  qed
  then show ?thesis using assms(3) by blast
qed

lemma find_same:
  assumes "\<And>x. hash_next (hash_nodes t' ! (x - 1)) = hash_next (hash_nodes t ! (x - 1))"
    "length (hash_nodes t') = length (hash_nodes t)" "length (hash_buckets t') = length (hash_buckets t)"
    "i = acl_hash_index crc key (length (hash_buckets t))" "i < length (hash_buckets t)"
    "hash_next_rule (hash_buckets t' ! i) = hash_next_rule (hash_buckets t ! i)"
    "node_cnt (hash_buckets t' ! i) \<noteq> 0" "node_cnt (hash_buckets t ! i) \<noteq> 0"
    "acl_hash_find crc t (length (hash_buckets t)) key cmp = Some y"
  shows "acl_hash_find crc t' (length (hash_buckets t)) key cmp = Some y"
  using assms(3-9) find_loop_same [OF assms(1,2)] by (auto simp: acl_hash_find_def arr_simps assms(4) [symmetric])

section \<open>Properties\<close>

definition zero_table :: "nat \<Rightarrow> nat \<Rightarrow> acl_table" where
  "zero_table m n = \<lparr>hash_buckets = replicate m \<lparr>node_cnt = 0, hash_next_rule = 0\<rparr>,
     hash_nodes = replicate n \<lparr>hash_prev = 0, hash_next = 0\<rparr>\<rparr>"

lemma zero_table_lists: "0 < m \<Longrightarrow> acl_lists crc key_of (zero_table m n) (\<lambda>_. [])"
  by (simp add: acl_lists_def zero_table_def bucket_list_def cnt_ok_def)

lemma stored_insert:
  assumes "length (hash_buckets t') = length (hash_buckets t)" "i < length (hash_buckets t)"
  shows "stored t' (L(i := r # L i)) = insert r (stored t L)"
  using assms by (auto simp: stored_def split: if_splits)

text \<open>C34: In a table whose lists are in order, a search returns; it reports 0 only if no stored rule has the key, and otherwise a stored
  rule with the key.  Inserting a rule that is not stored makes no access outside the arrays and keeps the lists in order, with
  this rule added.  The table of zeros is in order.
\<close>

theorem acl_hash_correct:
  assumes "acl_lists crc key_of t L" "\<forall>r\<in>rule_ids t. cmp r = Some (key_of r = key)"
  shows "(\<exists>r. acl_hash_find crc t (length (hash_buckets t)) key cmp = Some r
      \<and> (r = 0 \<longrightarrow> (\<forall>x\<in>stored t L. key_of x \<noteq> key)) \<and> (r \<noteq> 0 \<longrightarrow> r \<in> stored t L \<and> key_of r = key))
    \<and> (\<forall>r\<in>rule_ids t. r \<notin> stored t L \<longrightarrow>
        (\<exists>t' L'. acl_hash_insert crc t (length (hash_buckets t)) (key_of r) r = Some t'
          \<and> acl_lists crc key_of t' L' \<and> stored t' L' = insert r (stored t L)))
    \<and> (\<forall>m n. 0 < m \<longrightarrow> acl_lists crc key_of (zero_table m n) (\<lambda>_. []) \<and> stored (zero_table m n) (\<lambda>_. []) = {})"
proof (intro conjI ballI impI allI)
  show "\<exists>r. acl_hash_find crc t (length (hash_buckets t)) key cmp = Some r
      \<and> (r = 0 \<longrightarrow> (\<forall>x\<in>stored t L. key_of x \<noteq> key)) \<and> (r \<noteq> 0 \<longrightarrow> r \<in> stored t L \<and> key_of r = key)"
    using hash_find_stored [OF assms] by metis
next
  fix r assume r: "r \<in> rule_ids t" "r \<notin> stored t L"
  define i where "i = acl_hash_index crc (key_of r) (length (hash_buckets t))"
  have "i < length (hash_buckets t)" using assms(1) unfolding i_def by (auto simp: acl_lists_def intro: index_less)
  then show "\<exists>t' L'. acl_hash_insert crc t (length (hash_buckets t)) (key_of r) r = Some t'
      \<and> acl_lists crc key_of t' L' \<and> stored t' L' = insert r (stored t L)"
    using hash_insert_lists [OF assms(1) r i_def] stored_insert by metis
qed (simp_all add: zero_table_lists stored_def)

lemma chain_successor:
  "chain f q (xs @ z # ys) \<Longrightarrow> x \<in> set xs \<Longrightarrow> \<exists>v\<in>set (xs @ [z]). f x = Some v"
proof (induction xs arbitrary: q)
  case (Cons a xs)
  then show ?case by (cases xs) auto
qed simp

text \<open>Closing the cycle: a rule is inserted again that was left in the list of its bucket.\<close>

lemma reinsert_diverges:
  assumes lists: "chain (next_of t) (link (hash_next_rule (hash_buckets t ! i))) (xs @ p # r # ys)" "set (xs @ p # r # ys) \<subseteq> rule_ids t"
      "distinct (xs @ p # r # ys)"
    and i: "i = acl_hash_index crc key (length (hash_buckets t))" "i < length (hash_buckets t)"
  obtains t' where "acl_hash_insert crc t (length (hash_buckets t)) key r = Some t'"
    "\<forall>k cmp. acl_hash_index crc k (length (hash_buckets t)) = i \<and> (\<forall>x\<in>set (xs @ p # r # ys). cmp x = Some False)
      \<longrightarrow> acl_hash_find crc t' (length (hash_buckets t)) k cmp = None"
proof -
  define h where "h = hash_next_rule (hash_buckets t ! i)"
  define c where "c = node_cnt (hash_buckets t ! i)"
  define t' where "t' = \<lparr>hash_buckets = (hash_buckets t)[i := \<lparr>node_cnt = if c = 0xFF then c else c + 1, hash_next_rule = r\<rparr>],
      hash_nodes = insert_nodes (hash_nodes t) r h\<rparr>"
  have h: "h = hd (xs @ [p])" "h \<noteq> r" "h \<in> rule_ids t"
    using lists by (cases xs; auto simp: h_def chain_Some)+
  have run: "acl_hash_insert crc t (length (hash_buckets t)) key r = Some t'"
    unfolding t'_def by (rule hash_insert_eq) (use i h lists(2) h_def c_def in \<open>auto simp: rule_ids_def\<close>)
  have nth: "hash_next (hash_nodes t' ! (x - 1)) = (if x = r then h else hash_next (hash_nodes t ! (x - 1)))" if "x \<in> rule_ids t" for x
    unfolding t'_def acl_table.select_convs
    by (rule insert_nodes_nth) (use h lists(2) that in \<open>auto simp: rule_ids_def\<close>)
  have nexts: "hash_next (hash_nodes t ! (x - 1)) \<in> set (xs @ [p, r])" if "x \<in> set (xs @ [p])" for x
    using chain_successor [of "next_of t" _ "xs @ [p]" r ys x] lists(1) that by (auto simp: next_of_eq)
  have "acl_hash_find crc t' (length (hash_buckets t)) k cmp = None"
    if k: "acl_hash_index crc k (length (hash_buckets t)) = i" "\<forall>x\<in>set (xs @ p # r # ys). cmp x = Some False" for k cmp
  proof -
    have "acl_find_loop t' cmp r = None"
    proof (rule find_loop_closed [where C = "set (xs @ [p, r])"])
      fix x assume x: "x \<in> set (xs @ [p, r])"
      then have ids: "x \<in> rule_ids t" "cmp x = Some False" using lists(2) k(2) by auto
      moreover have "rule_ids t' = rule_ids t" by (simp add: rule_ids_def t'_def)
      moreover have "hash_next (hash_nodes t' ! (x - 1)) \<in> set (xs @ [p, r])"
        using nth [OF ids(1)] nexts [of x] x h(1) by (cases xs) auto
      ultimately show "x \<in> rule_ids t' \<and> cmp x = Some False \<and> hash_next (hash_nodes t' ! (x - 1)) \<in> set (xs @ [p, r])" by simp
    qed simp
    moreover have "(if c = 0xFF then c else c + 1) \<noteq> 0"
    proof -
      have "(- 1 :: u8) = 0xFF" by simp
      then have "c + 1 = 0 \<longleftrightarrow> c = 0xFF" using eq_neg_iff_add_eq_0 [of c 1] by (simp only:)
      then show ?thesis by simp
    qed
    ultimately show ?thesis using i(2) by (simp add: acl_hash_find_def k(1) arr_simps t'_def)
  qed
  then show ?thesis by (intro that [OF run]) blast
qed

lemma find_after_later:
  assumes L: "acl_lists crc key_of t L" and i: "i = acl_hash_index crc (key_of r) (length (hash_buckets t))"
    and Li: "L i = xs @ p # r # ys"
  obtains t' where "acl_hash_free crc t (length (hash_buckets t)) (key_of r) r = Some t'"
    "length (hash_buckets t') = length (hash_buckets t)" "rule_ids t' = rule_ids t"
    "chain (next_of t') (link (hash_next_rule (hash_buckets t' ! i))) (L i)"
    "\<forall>key cmp y. acl_hash_find crc t (length (hash_buckets t)) key cmp = Some y \<longrightarrow>
      acl_hash_find crc t' (length (hash_buckets t)) key cmp = Some y"
proof -
  have i_less: "i < length (hash_buckets t)" using L unfolding i by (auto simp: acl_lists_def intro: index_less)
  note I = acl_listsD [OF L i_less, unfolded Li]
  have prev: "hash_prev (hash_nodes t ! (r - 1)) = p" using I(3) by (rule prevs_ok_append)
  obtain t' where t': "acl_hash_free crc t (length (hash_buckets t)) (key_of r) r = Some t'"
    "length (hash_buckets t') = length (hash_buckets t)" "length (hash_nodes t') = length (hash_nodes t)"
    "\<And>x. hash_next (hash_nodes t' ! (x - 1)) = hash_next (hash_nodes t ! (x - 1))"
    "\<And>b. b < length (hash_buckets t) \<Longrightarrow> hash_next_rule (hash_buckets t' ! b) = hash_next_rule (hash_buckets t ! b)"
    "\<And>b. b < length (hash_buckets t) \<Longrightarrow>
      node_cnt (hash_buckets t' ! b) = (if b = i then free_cnt (node_cnt (hash_buckets t ! b)) else node_cnt (hash_buckets t ! b))"
    by (rule hash_free_later [OF i i_less _ _ _ prev]) (use I(2,4) in auto)
  have cnt: "free_cnt (node_cnt (hash_buckets t ! i)) \<noteq> 0" "node_cnt (hash_buckets t ! i) \<noteq> 0"
  proof -
    let ?c = "node_cnt (hash_buckets t ! i)"
    have "?c \<noteq> 0xFF \<Longrightarrow> 2 \<le> unat ?c" using I(6) by (simp add: cnt_ok_def)
    then show "?c \<noteq> 0" by fastforce
    show "free_cnt ?c \<noteq> 0"
    proof
      assume "free_cnt ?c = 0"
      then have "?c = 1 \<and> ?c \<noteq> 0xFF" by (auto simp: free_cnt_def split: if_splits)
      then show False using \<open>?c \<noteq> 0xFF \<Longrightarrow> 2 \<le> unat ?c\<close> by simp
    qed
  qed
  show ?thesis
  proof (rule that [OF t'(1,2)])
    show "rule_ids t' = rule_ids t" by (simp add: rule_ids_def t'(3))
    show "chain (next_of t') (link (hash_next_rule (hash_buckets t' ! i))) (L i)"
      unfolding t'(5) [OF i_less] by (subst next_of_cong [OF t'(4)]) (rule acl_listsD(1) [OF L i_less])
    show "\<forall>key cmp y. acl_hash_find crc t (length (hash_buckets t)) key cmp = Some y \<longrightarrow>
      acl_hash_find crc t' (length (hash_buckets t)) key cmp = Some y"
    proof (intro allI impI)
    fix key cmp y assume run: "acl_hash_find crc t (length (hash_buckets t)) key cmp = Some y"
    define j where "j = acl_hash_index crc key (length (hash_buckets t))"
    have j: "j < length (hash_buckets t)" using L unfolding j_def by (auto simp: acl_lists_def intro: index_less)
    show "acl_hash_find crc t' (length (hash_buckets t)) key cmp = Some y"
    proof (cases "node_cnt (hash_buckets t ! j) = 0")
      case True
      then have "node_cnt (hash_buckets t' ! j) = 0" using t'(6) [OF j] cnt(2) by (cases "j = i") simp_all
      then show ?thesis using True run j t'(2) by (simp add: acl_hash_find_def j_def [symmetric] arr_simps)
    next
      case False
      moreover have "node_cnt (hash_buckets t' ! j) \<noteq> 0" using t'(6) [OF j] cnt False by (cases "j = i") simp_all
      ultimately show ?thesis using find_same [OF t'(4,3,2) j_def j t'(5) [OF j]] run by blast
    qed
    qed
  qed
qed

text \<open>C35: What removing a stored rule does.  If it is the only rule of its bucket, the bucket becomes empty and the table stays in
  order.  If it is the first of several, every search in the bucket reports that nothing is stored, although the other
  rules still are.  If another rule is before it, every search answers as before, so the rule is still found; and when it is then
  inserted again, the list becomes a cycle and no search in the bucket for a key without a rule returns.
\<close>

theorem acl_hash_free_effect:
  assumes L: "acl_lists crc key_of t L" and r: "r \<in> set (L i)"
    and i: "i = acl_hash_index crc (key_of r) (length (hash_buckets t))"
    and cmp: "\<And>key x. x \<in> rule_ids t \<Longrightarrow> cmp key x = Some (key_of x = key)"
  shows "\<exists>t'. acl_hash_free crc t (length (hash_buckets t)) (key_of r) r = Some t'
    \<and> (L i = [r] \<longrightarrow> acl_lists crc key_of t' (L(i := [])))
    \<and> (hd (L i) = r \<longrightarrow> (\<forall>key. acl_hash_index crc key (length (hash_buckets t)) = i \<longrightarrow>
          acl_hash_find crc t' (length (hash_buckets t)) key (cmp key) = Some 0))
    \<and> (hd (L i) \<noteq> r \<longrightarrow>
        (\<forall>key. acl_hash_find crc t' (length (hash_buckets t)) key (cmp key) = acl_hash_find crc t (length (hash_buckets t)) key (cmp key))
        \<and> (\<exists>t''. acl_hash_insert crc t' (length (hash_buckets t)) (key_of r) r = Some t''
            \<and> (\<forall>key. acl_hash_index crc key (length (hash_buckets t)) = i \<and> (\<forall>x\<in>set (L i). key_of x \<noteq> key) \<longrightarrow>
                acl_hash_find crc t'' (length (hash_buckets t)) key (cmp key) = None)))"
proof -
  have i_less: "i < length (hash_buckets t)" using L unfolding i by (auto simp: acl_lists_def intro: index_less)
  note I = acl_listsD [OF L i_less]
  show ?thesis
  proof (cases "hd (L i) = r")
    case True
    then obtain rs where rs: "L i = r # rs" using r by (cases "L i") auto
    define t' where "t' = t\<lparr>hash_buckets := (hash_buckets t)[i := \<lparr>node_cnt = free_cnt (node_cnt (hash_buckets t ! i)), hash_next_rule = 0\<rparr>]\<rparr>"
    have run: "acl_hash_free crc t (length (hash_buckets t)) (key_of r) r = Some t'"
      unfolding t'_def by (rule hash_free_first [OF i i_less]) (use I(2,3) rs in simp_all)
    have "acl_hash_find crc t' (length (hash_buckets t)) key (cmp key) = Some 0"
      if "acl_hash_index crc key (length (hash_buckets t)) = i" for key
      using i_less by (simp add: acl_hash_find_def that t'_def arr_simps acl_find_loop.simps [of _ _ 0])
    moreover have "L i = [r] \<Longrightarrow> acl_lists crc key_of t' (L(i := []))"
      using free_only [OF L i] run by (metis option.inject)
    ultimately show ?thesis using run True by blast
  next
    case False
    obtain us ys where "L i = us @ r # ys" using r by (meson split_list)
    moreover from this have "us \<noteq> []" using False by auto
    ultimately obtain xs p where Li: "L i = xs @ p # r # ys" by (metis append_butlast_last_id append.assoc append_Cons append_Nil)
    obtain t' where t': "acl_hash_free crc t (length (hash_buckets t)) (key_of r) r = Some t'"
      "length (hash_buckets t') = length (hash_buckets t)" "rule_ids t' = rule_ids t"
      "chain (next_of t') (link (hash_next_rule (hash_buckets t' ! i))) (L i)"
      "\<forall>key cmp y. acl_hash_find crc t (length (hash_buckets t)) key cmp = Some y \<longrightarrow>
        acl_hash_find crc t' (length (hash_buckets t)) key cmp = Some y"
      by (rule find_after_later [OF L i Li]) (rule that)
    have same: "acl_hash_find crc t' (length (hash_buckets t)) key (cmp key) = acl_hash_find crc t (length (hash_buckets t)) key (cmp key)" for key
      using hash_find_stored [OF L, of "cmp key" key] cmp t'(5) by metis
    obtain t'' where t'': "acl_hash_insert crc t' (length (hash_buckets t')) (key_of r) r = Some t''"
      "\<forall>k cmp. acl_hash_index crc k (length (hash_buckets t')) = i \<and> (\<forall>x\<in>set (xs @ p # r # ys). cmp x = Some False)
        \<longrightarrow> acl_hash_find crc t'' (length (hash_buckets t')) k cmp = None"
    proof (rule reinsert_diverges)
      show "chain (next_of t') (link (hash_next_rule (hash_buckets t' ! i))) (xs @ p # r # ys)" using t'(4) by (simp only: Li)
      show "set (xs @ p # r # ys) \<subseteq> rule_ids t'" "distinct (xs @ p # r # ys)" using I(2,4) by (simp_all only: Li t'(3))
      show "i = acl_hash_index crc (key_of r) (length (hash_buckets t'))" "i < length (hash_buckets t')"
        using i i_less by (simp_all only: t'(2))
    qed (rule that)
    have "acl_hash_find crc t'' (length (hash_buckets t)) key (cmp key) = None"
      if "acl_hash_index crc key (length (hash_buckets t)) = i" "\<forall>x\<in>set (L i). key_of x \<noteq> key" for key
    proof -
      have "\<forall>x\<in>set (xs @ p # r # ys). cmp key x = Some False"
      proof
        fix x assume "x \<in> set (xs @ p # r # ys)"
        then have "x \<in> rule_ids t" "key_of x \<noteq> key" using that(2) I(2) unfolding Li by blast+
        then show "cmp key x = Some False" using cmp by simp
      qed
      then show ?thesis using t''(2) that(1) unfolding t'(2) by blast
    qed
    then show ?thesis using t'(1) t''(1) False same unfolding t'(2) Li by auto
  qed
qed

text \<open>A table with two buckets and three rules, two of them in one bucket.\<close>

definition ex_crc :: "u8 list \<Rightarrow> u32" where "ex_crc key = ucast (hd key)"
definition ex_key :: "nat \<Rightarrow> u8 list" where "ex_key r = [if r = 1 then 2 else if r = 2 then 4 else 1]"
definition ex_lists :: "nat \<Rightarrow> nat list" where "ex_lists b = (if b = 0 then [2, 1] else [3])"
definition ex_table :: acl_table where
  "ex_table = \<lparr>hash_buckets = [\<lparr>node_cnt = 2, hash_next_rule = 2\<rparr>, \<lparr>node_cnt = 1, hash_next_rule = 3\<rparr>],
    hash_nodes = [\<lparr>hash_prev = 2, hash_next = 0\<rparr>, \<lparr>hash_prev = 0, hash_next = 1\<rparr>, \<lparr>hash_prev = 0, hash_next = 0\<rparr>]\<rparr>"

lemma ex_table_ok: "acl_lists ex_crc ex_key ex_table ex_lists" "length (hash_buckets ex_table) = 2" "rule_ids ex_table = {1, 2, 3}"
proof -
  show ids: "rule_ids ex_table = {1, 2, 3}" by (auto simp: rule_ids_def ex_table_def)
  show len: "length (hash_buckets ex_table) = 2" by (simp add: ex_table_def)
  have two: "(\<forall>b<2. P b) \<longleftrightarrow> P 0 \<and> P 1" for P :: "nat \<Rightarrow> bool" by (auto simp: less_2_cases_iff)
  show "acl_lists ex_crc ex_key ex_table ex_lists"
    unfolding acl_lists_def len two bucket_list_def ids
    by (simp add: ex_table_def ex_lists_def ex_key_def ex_crc_def acl_hash_index_def next_of_def cnt_ok_def)
qed

theorem acl_hash_correct_witness:
  "(\<exists>r. acl_hash_find ex_crc ex_table 2 [4] (\<lambda>x. Some (ex_key x = [4])) = Some r
      \<and> (r = 0 \<longrightarrow> (\<forall>x\<in>stored ex_table ex_lists. ex_key x \<noteq> [4])) \<and> (r \<noteq> 0 \<longrightarrow> r \<in> stored ex_table ex_lists \<and> ex_key r = [4]))"
  using acl_hash_correct [OF ex_table_ok(1), of "\<lambda>x. Some (ex_key x = [4])" "[4]"] unfolding ex_table_ok(2) by simp

theorem acl_hash_free_effect_witness:
  "\<exists>t' t''. acl_hash_free ex_crc ex_table 2 [2] 1 = Some t' \<and> acl_hash_insert ex_crc t' 2 [2] 1 = Some t''
    \<and> acl_hash_find ex_crc t'' 2 [6] (\<lambda>x. Some (ex_key x = [6])) = None"
proof -
  have ex: "1 \<in> set (ex_lists 0)" "0 = acl_hash_index ex_crc (ex_key 1) (length (hash_buckets ex_table))" "hd (ex_lists 0) \<noteq> 1"
    "acl_hash_index ex_crc [6] 2 = 0" "\<forall>x\<in>set (ex_lists 0). ex_key x \<noteq> [6]" "ex_key 1 = [2]"
    unfolding ex_table_ok(2) by (simp_all add: ex_lists_def ex_key_def ex_crc_def acl_hash_index_def)
  show ?thesis
    using acl_hash_free_effect [OF ex_table_ok(1) ex(1,2), of "\<lambda>k x. Some (ex_key x = k)"] ex(3-5)
    unfolding ex_table_ok(2) ex(6) by blast
qed

end
