(* ===== verification/Acl_Rules.thy ===== *)
theory Acl_Rules
  imports Acl_Hash
begin

text \<open>
  The interface through which the management programs create, replace, delete and read rules
  (\<open>nshell-lib/sf_plugin_api/sf_acl_tuple_api.c\<close>, \<open>sf_acl_api.c\<close>), on the shared configuration of
  \<open>acl/include/sf_acl_shm.h\<close>.  A rule has an outer number, chosen by the user, and an actual one, its
  place in the array of its IP version; the two maps between them, the bitmap of used places and the hash table are
  kept in step.  The structures and functions for IPv4 and IPv6 are the same text up to the length of an address; they are
  one definition here, with the version as an argument.  There is one group (\<open>MAX_RULE_GROUP_CNT\<close> is 1), so an
  array of groups is its only element.  \<open>None\<close> is an access outside an array or a search that does not return.
\<close>

section \<open>State\<close>

definition MAX_TUPLE_RULE_PER_GROUP :: nat where "MAX_TUPLE_RULE_PER_GROUP = 2048"
definition TUPLE_RULE_BITMAP_CNT :: nat where "TUPLE_RULE_BITMAP_CNT = 32"
definition TUPLE_RULE_HASH_BUCKET_CNT :: nat where "TUPLE_RULE_HASH_BUCKET_CNT = 256"
definition MAX_RULE_GROUP_CNT :: int where "MAX_RULE_GROUP_CNT = 1"
definition MAX_RULE_PER_GROUP :: int where "MAX_RULE_PER_GROUP = 4096"

definition ACL_RULE_TYPE_NONE :: nat where "ACL_RULE_TYPE_NONE = 0"
definition ACL_RULE_TYPE_TUPLE4 :: nat where "ACL_RULE_TYPE_TUPLE4 = 1"
definition ACL_RULE_TYPE_TUPLE6 :: nat where "ACL_RULE_TYPE_TUPLE6 = 2"

definition FAIL_REASON_INTERNAL_ERROR :: int where "FAIL_REASON_INTERNAL_ERROR = -1"
definition FAIL_REASON_OLD_RULE_EXIST :: int where "FAIL_REASON_OLD_RULE_EXIST = -2"
definition FAIL_REASON_INVALID_ID :: int where "FAIL_REASON_INVALID_ID = -3"
definition FAIL_REASON_INVALID_CFG :: int where "FAIL_REASON_INVALID_CFG = -4"
definition FAIL_REASON_RULE_FULL :: int where "FAIL_REASON_RULE_FULL = -5"

text \<open>The members that the configuration of a rule shares with its stored form, and the two forms.\<close>

record tuple_members =
  sport_min :: u16
  sport_max :: u16
  dport_min :: u16
  dport_max :: u16
  proto_min :: u8
  proto_max :: u8
  sip_mask :: u8
  dip_mask :: u8

record sf_tuple_rule_cfg_t = tuple_members +
  is_ipv6 :: u8
  sip_str :: string
  dip_str :: string

record sf_tuple46_rule_cfg_t = tuple_members +
  sip_bytes :: "u8 list"
  dip_bytes :: "u8 list"

record sf_map_rule_t =
  outer_id_valid :: bool
  outer_group_id :: nat
  outer_rule_id :: nat

record sf_tuple46_rule_t =
  map_rule :: sf_map_rule_t
  rule_cfg :: sf_tuple46_rule_cfg_t

record sf_rule_map_t =
  rule_type :: nat
  actual_rule_id :: nat

text \<open>The arrays of one IP version, and the configuration.\<close>

record acl_family =
  tuple_rule_bitmap :: "u64 list"
  tuple_hash :: acl_table
  tuple_rules :: "sf_tuple46_rule_t list"

record acl_conf =
  acl_sync_flag :: int
  acl_sync_times :: int
  rule_map :: "sf_rule_map_t list"
  family_v4 :: acl_family
  family_v6 :: acl_family

definition fam :: "bool \<Rightarrow> acl_conf \<Rightarrow> acl_family" where
  "fam is6 c = (if is6 then family_v6 c else family_v4 c)"

definition set_fam :: "bool \<Rightarrow> acl_family \<Rightarrow> acl_conf \<Rightarrow> acl_conf" where
  "set_fam is6 F c = (if is6 then c\<lparr>family_v6 := F\<rparr> else c\<lparr>family_v4 := F\<rparr>)"

text \<open>
  What is not in the repository: \<open>inet_pton\<close> (the bytes, if it returns 1) and \<open>inet_ntop\<close> of the operating system, and the hash
  value (\<open>get_hash_index_nshell\<close>), which is \<open>sf_crc32_gen\<close> of \<open>Sf_Crc32\<close> or an instruction.
\<close>

record acl_env =
  inet_pton :: "bool \<Rightarrow> string \<Rightarrow> u8 list option"
  inet_ntop :: "bool \<Rightarrow> u8 list \<Rightarrow> string"
  get_hash_index :: "u8 list \<Rightarrow> u32"

section \<open>Rules and the hash table\<close>

definition le16_bytes :: "u16 \<Rightarrow> u8 list" where
  "le16_bytes x = [ucast x, ucast (drop_bit 8 x)]"

text \<open>The bytes of a stored rule, which have no padding: the key of the hash table and what \<open>memcmp\<close> compares.\<close>

definition cfg_bytes :: "sf_tuple46_rule_cfg_t \<Rightarrow> u8 list" where
  "cfg_bytes r = le16_bytes (sport_min r) @ le16_bytes (sport_max r) @ le16_bytes (dport_min r) @ le16_bytes (dport_max r)
     @ [proto_min r, proto_max r, sip_mask r, dip_mask r] @ sip_bytes r @ dip_bytes r"

definition rule_at :: "acl_family \<Rightarrow> nat \<Rightarrow> sf_tuple46_rule_t option" where
  "rule_at F r = (if r = 0 then None else arr_read (tuple_rules F) (r - 1))"

definition upd_rule :: "(sf_tuple46_rule_t \<Rightarrow> sf_tuple46_rule_t) \<Rightarrow> nat \<Rightarrow> acl_family \<Rightarrow> acl_family option" where
  "upd_rule f r F =
    do { x \<leftarrow> rule_at F r;
         rs \<leftarrow> arr_write (tuple_rules F) (r - 1) (f x);
         Some (F\<lparr>tuple_rules := rs\<rparr>) }"

definition tuple_rule_cfg_cmp :: "acl_family \<Rightarrow> u8 list \<Rightarrow> nat \<Rightarrow> bool option" where
  "tuple_rule_cfg_cmp F key actual = do { x \<leftarrow> rule_at F actual; Some (cfg_bytes (rule_cfg x) = key) }"

text \<open>
  \<open>copy_tuple_cfg_to_tuple4/6\<close>: the return value and the destination, which keeps its addresses from the point where
  \<open>inet_pton\<close> fails.
\<close>

definition copy_tuple_cfg ::
  "acl_env \<Rightarrow> bool \<Rightarrow> sf_tuple46_rule_cfg_t \<Rightarrow> sf_tuple_rule_cfg_t \<Rightarrow> int \<times> sf_tuple46_rule_cfg_t" where
  "copy_tuple_cfg E is6 dst cfg =
    (let dst = dst\<lparr>sport_min := sport_min cfg, sport_max := sport_max cfg, dport_min := dport_min cfg, dport_max := dport_max cfg,
        proto_min := proto_min cfg, proto_max := proto_max cfg, sip_mask := sip_mask cfg, dip_mask := dip_mask cfg\<rparr>
     in case inet_pton E is6 (sip_str cfg) of
          None \<Rightarrow> (-1, dst)
        | Some sip \<Rightarrow>
            (let dst = dst\<lparr>sip_bytes := sip\<rparr>
             in case inet_pton E is6 (dip_str cfg) of
                  None \<Rightarrow> (-1, dst)
                | Some dip \<Rightarrow> (0, dst\<lparr>dip_bytes := dip\<rparr>)))"

definition junk_cfg :: sf_tuple46_rule_cfg_t where
  "junk_cfg = \<lparr>sport_min = 0, sport_max = 0, dport_min = 0, dport_max = 0, proto_min = 0, proto_max = 0, sip_mask = 0, dip_mask = 0,
     sip_bytes = [], dip_bytes = []\<rparr>"

text \<open>\<open>tuple_rule_find_v4/v6\<close>; the local copy is written completely before it is used.\<close>

definition tuple_rule_find :: "acl_env \<Rightarrow> bool \<Rightarrow> acl_family \<Rightarrow> sf_tuple_rule_cfg_t \<Rightarrow> int option" where
  "tuple_rule_find E is6 F cfg =
    (case copy_tuple_cfg E is6 junk_cfg cfg of (ret, tmp_cfg) \<Rightarrow>
       if ret \<noteq> 0 then Some (-1)
       else map_option int (acl_hash_find (get_hash_index E) (tuple_hash F) TUPLE_RULE_HASH_BUCKET_CNT (cfg_bytes tmp_cfg)
              (tuple_rule_cfg_cmp F (cfg_bytes tmp_cfg))))"

definition tuple_hash_find_actual :: "acl_env \<Rightarrow> acl_conf \<Rightarrow> sf_tuple_rule_cfg_t \<Rightarrow> int option" where
  "tuple_hash_find_actual E c cfg =
    (if is_ipv6 cfg \<noteq> 0 then tuple_rule_find E True (fam True c) cfg else tuple_rule_find E False (fam False c) cfg)"

definition tuple_hash_find_outer :: "acl_conf \<Rightarrow> nat \<Rightarrow> bool \<Rightarrow> int option" where
  "tuple_hash_find_outer c actual is6 =
    (if actual \<noteq> 0 then
       do { x \<leftarrow> rule_at (fam is6 c) actual;
            Some (if outer_id_valid (map_rule x) then int (outer_rule_id (map_rule x)) else 0) }
     else Some 0)"

definition tuple_hash_insert :: "acl_env \<Rightarrow> nat \<Rightarrow> acl_family \<Rightarrow> acl_family option" where
  "tuple_hash_insert E actual F =
    do { x \<leftarrow> rule_at F actual;
         t \<leftarrow> acl_hash_insert (get_hash_index E) (tuple_hash F) TUPLE_RULE_HASH_BUCKET_CNT (cfg_bytes (rule_cfg x)) actual;
         Some (F\<lparr>tuple_hash := t\<rparr>) }"

definition tuple_hash_free :: "acl_env \<Rightarrow> nat \<Rightarrow> acl_family \<Rightarrow> acl_family option" where
  "tuple_hash_free E actual F =
    do { x \<leftarrow> rule_at F actual;
         t \<leftarrow> acl_hash_free (get_hash_index E) (tuple_hash F) TUPLE_RULE_HASH_BUCKET_CNT (cfg_bytes (rule_cfg x)) actual;
         Some (F\<lparr>tuple_hash := t\<rparr>) }"

section \<open>The bitmap\<close>

fun used_cnt_loop :: "nat \<Rightarrow> u64 \<Rightarrow> int \<Rightarrow> int" where
  "used_cnt_loop 0 bitmap cnt = cnt"
| "used_cnt_loop (Suc k) bitmap cnt =
    (let cnt = (if bitmap AND 1 \<noteq> 0 then cnt + 1 else cnt);
         bitmap = drop_bit 1 bitmap
     in if bitmap = 0 then cnt else used_cnt_loop k bitmap cnt)"

definition calculate_used_cnt :: "u64 \<Rightarrow> int" where
  "calculate_used_cnt bitmap = (if bitmap = 0 then 0 else if bitmap = - 1 then 64 else used_cnt_loop 64 bitmap 0)"

definition tuple_bitmap_get_used_cnt :: "u64 list \<Rightarrow> int" where
  "tuple_bitmap_get_used_cnt ptr = fold (\<lambda>w total. total + calculate_used_cnt w) ptr 0"

text \<open>The index of the first word that is not full, from index \<open>i\<close> on, and the first clear bit of a word.\<close>

fun first_word :: "u64 list \<Rightarrow> nat \<Rightarrow> nat" where
  "first_word [] i = i"
| "first_word (w # ws) i = (if w \<noteq> - 1 then i else first_word ws (i + 1))"

fun first_bit :: "nat \<Rightarrow> nat \<Rightarrow> u64 \<Rightarrow> nat option" where
  "first_bit 0 i temp = None"
| "first_bit (Suc k) i temp = (if temp AND 1 = 0 then Some i else first_bit k (i + 1) (drop_bit 1 temp))"

definition tuple_bitmap_get_first_unused :: "u64 list \<Rightarrow> nat option" where
  "tuple_bitmap_get_first_unused ptr =
    (let bitmap_index = first_word ptr 0
     in if bitmap_index = TUPLE_RULE_BITMAP_CNT then Some 0
        else do { temp \<leftarrow> arr_read ptr bitmap_index;
                  Some (case first_bit 64 0 temp of None \<Rightarrow> 0 | Some inner_index \<Rightarrow> bitmap_index * 64 + inner_index + 1) })"

definition bitmap_get_mask :: "nat \<Rightarrow> u64" where "bitmap_get_mask i = push_bit (i mod 64) 1"

definition tuple_bitmap_set_used_flag :: "nat \<Rightarrow> u64 list \<Rightarrow> u64 list option" where
  "tuple_bitmap_set_used_flag actual ptr =
    do { w \<leftarrow> arr_read ptr ((actual - 1) div 64);
         arr_write ptr ((actual - 1) div 64) (w OR bitmap_get_mask (actual - 1)) }"

definition tuple_bitmap_unset_used_flag :: "nat \<Rightarrow> u64 list \<Rightarrow> u64 list option" where
  "tuple_bitmap_unset_used_flag actual ptr =
    do { w \<leftarrow> arr_read ptr ((actual - 1) div 64);
         arr_write ptr ((actual - 1) div 64) (w AND NOT (bitmap_get_mask (actual - 1))) }"

section \<open>Configuration of one rule\<close>

definition AF_check :: "acl_env \<Rightarrow> bool \<Rightarrow> string \<Rightarrow> bool" where
  "AF_check E is6 s \<longleftrightarrow> inet_pton E is6 s \<noteq> None"

definition check_tuple_rule_cfg :: "acl_env \<Rightarrow> sf_tuple_rule_cfg_t \<Rightarrow> int" where
  "check_tuple_rule_cfg E cfg =
    (let is6 = is_ipv6 cfg \<noteq> 0; ip_mask_max = if is6 then 128 else 32 :: u8
     in if is_ipv6 cfg > 1 then -1
        else if sport_min cfg > sport_max cfg \<or> dport_min cfg > dport_max cfg \<or> proto_min cfg > proto_max cfg then -1
        else if sip_mask cfg > ip_mask_max \<or> dip_mask cfg > ip_mask_max then -1
        else if \<not> AF_check E is6 (sip_str cfg) then -1
        else if \<not> AF_check E is6 (dip_str cfg) then -1
        else 0)"

definition bad_group :: "int \<Rightarrow> bool" where "bad_group g \<longleftrightarrow> g \<le> 0 \<or> g > MAX_RULE_GROUP_CNT"
definition bad_outer :: "int \<Rightarrow> bool" where "bad_outer r \<longleftrightarrow> r \<le> 0 \<or> r > MAX_RULE_PER_GROUP"
definition bad_actual :: "int \<Rightarrow> bool" where "bad_actual r \<longleftrightarrow> r \<le> 0 \<or> r > int MAX_TUPLE_RULE_PER_GROUP"

text \<open>\<open>set_tuple4/6_rule_cfg\<close>; the result of the copy is not looked at.\<close>

definition set_tuple_rule_cfg ::
  "acl_env \<Rightarrow> int \<Rightarrow> nat \<Rightarrow> sf_tuple_rule_cfg_t \<Rightarrow> bool \<Rightarrow> acl_conf \<Rightarrow> (int \<times> acl_conf) option" where
  "set_tuple_rule_cfg E group_id actual cfg is6 c =
    (if bad_group group_id then Some (-1, c)
     else if bad_actual (int actual) then Some (-1, c)
     else if (is_ipv6 cfg \<noteq> 0) \<noteq> is6 then Some (-1, c)
     else do { F \<leftarrow> upd_rule (\<lambda>x. x\<lparr>rule_cfg := snd (copy_tuple_cfg E is6 (rule_cfg x) cfg)\<rparr>) actual (fam is6 c);
               Some (0, set_fam is6 F c) })"

definition get_tuple_rule_cfg_inline ::
  "acl_env \<Rightarrow> acl_conf \<Rightarrow> int \<Rightarrow> nat \<Rightarrow> bool \<Rightarrow> sf_tuple_rule_cfg_t option \<Rightarrow> (int \<times> sf_tuple_rule_cfg_t option) option" where
  "get_tuple_rule_cfg_inline E c group_id actual is6 out =
    (if bad_group group_id then Some (-1, out)
     else if bad_actual (int actual) then Some (-1, out)
     else case out of
            None \<Rightarrow> Some (-1, None)
          | Some _ \<Rightarrow>
              do { x \<leftarrow> rule_at (fam is6 c) actual;
                   let s = rule_cfg x;
                   Some (0, Some \<lparr>sport_min = sport_min s, sport_max = sport_max s, dport_min = dport_min s, dport_max = dport_max s,
                     proto_min = proto_min s, proto_max = proto_max s, sip_mask = sip_mask s, dip_mask = dip_mask s,
                     is_ipv6 = (if is6 then 1 else 0), sip_str = inet_ntop E is6 (sip_bytes s), dip_str = inet_ntop E is6 (dip_bytes s)\<rparr>) })"

definition rule_map_at :: "acl_conf \<Rightarrow> int \<Rightarrow> sf_rule_map_t option" where
  "rule_map_at c outer = arr_read (rule_map c) (nat (outer - 1))"

definition get_tuple_rule_cfg ::
  "acl_env \<Rightarrow> acl_conf option \<Rightarrow> int \<Rightarrow> int \<Rightarrow> sf_tuple_rule_cfg_t option \<Rightarrow> (int \<times> sf_tuple_rule_cfg_t option) option" where
  "get_tuple_rule_cfg E conf group_id outer out =
    (case conf of
       None \<Rightarrow> Some (-1, out)
     | Some c \<Rightarrow>
         if bad_group group_id \<or> bad_outer outer then Some (-1, out)
         else do { m \<leftarrow> rule_map_at c outer;
                   if rule_type m = ACL_RULE_TYPE_TUPLE4 then get_tuple_rule_cfg_inline E c group_id (actual_rule_id m) False out
                   else if rule_type m = ACL_RULE_TYPE_TUPLE6 then get_tuple_rule_cfg_inline E c group_id (actual_rule_id m) True out
                   else Some (-1, out) })"

section \<open>Creating and deleting\<close>

definition tuple_map_rule_map :: "int \<Rightarrow> int \<Rightarrow> nat \<Rightarrow> bool \<Rightarrow> acl_conf \<Rightarrow> acl_conf option" where
  "tuple_map_rule_map group_id outer actual is6 c =
    do { m \<leftarrow> arr_write (rule_map c) (nat (outer - 1))
           \<lparr>rule_type = if is6 then ACL_RULE_TYPE_TUPLE6 else ACL_RULE_TYPE_TUPLE4, actual_rule_id = actual\<rparr>;
         F \<leftarrow> upd_rule (\<lambda>x. x\<lparr>map_rule := \<lparr>outer_id_valid = True, outer_group_id = nat group_id, outer_rule_id = nat outer\<rparr>\<rparr>)
           actual (fam is6 c);
         Some (set_fam is6 F (c\<lparr>rule_map := m\<rparr>)) }"

definition zero_map_rule :: sf_map_rule_t where
  "zero_map_rule = \<lparr>outer_id_valid = False, outer_group_id = 0, outer_rule_id = 0\<rparr>"

definition upd_bitmap :: "(u64 list \<Rightarrow> u64 list option) \<Rightarrow> acl_family \<Rightarrow> acl_family option" where
  "upd_bitmap f F = do { b \<leftarrow> f (tuple_rule_bitmap F); Some (F\<lparr>tuple_rule_bitmap := b\<rparr>) }"

definition tuple_delete_old_map :: "acl_env \<Rightarrow> int \<Rightarrow> nat \<Rightarrow> bool \<Rightarrow> acl_conf \<Rightarrow> (int \<times> acl_conf) option" where
  "tuple_delete_old_map E group_id actual is6 c =
    (if bad_group group_id then Some (-1, c)
     else if bad_actual (int actual) then Some (-1, c)
     else do { F \<leftarrow> upd_rule (\<lambda>x. x\<lparr>map_rule := zero_map_rule\<rparr>) actual (fam is6 c);
               F \<leftarrow> tuple_hash_free E actual F;
               F \<leftarrow> upd_bitmap (tuple_bitmap_unset_used_flag actual) F;
               Some (0, set_fam is6 F c) })"

definition acl_delete_old_map :: "acl_env \<Rightarrow> acl_conf option \<Rightarrow> int \<Rightarrow> int \<Rightarrow> bool \<Rightarrow> (int \<times> acl_conf option) option" where
  "acl_delete_old_map E conf group_id outer no_check =
    (case conf of
       None \<Rightarrow> Some (-1, None)
     | Some c \<Rightarrow>
         if bad_group group_id \<or> bad_outer outer then Some (-1, conf)
         else do { m \<leftarrow> rule_map_at c outer;
                   let clear = (\<lambda>(ret, c). do { ms \<leftarrow> arr_write (rule_map c) (nat (outer - 1)) \<lparr>rule_type = 0, actual_rule_id = 0\<rparr>;
                                               Some (ret :: int, Some (c\<lparr>rule_map := ms\<rparr>)) });
                   if rule_type m = ACL_RULE_TYPE_TUPLE4 then tuple_delete_old_map E group_id (actual_rule_id m) False c \<bind> clear
                   else if rule_type m = ACL_RULE_TYPE_TUPLE6 then tuple_delete_old_map E group_id (actual_rule_id m) True c \<bind> clear
                   else if rule_type m = ACL_RULE_TYPE_NONE then (if \<not> no_check then Some (-2, conf) else clear (0, c))
                   else Some (-1, conf) })"

definition acl_get_rule_map_type :: "acl_conf option \<Rightarrow> int \<Rightarrow> int \<Rightarrow> int option" where
  "acl_get_rule_map_type conf group_id outer =
    (case conf of
       None \<Rightarrow> Some (-1)
     | Some c \<Rightarrow>
         if bad_group group_id \<or> bad_outer outer then Some (-1)
         else do { m \<leftarrow> rule_map_at c outer; Some (int (rule_type m)) })"

text \<open>The end of \<open>tuple_try_map_new_rule\<close>, from the deletion of the old rule on.\<close>

definition map_new_rule :: "acl_env \<Rightarrow> int \<Rightarrow> int \<Rightarrow> nat \<Rightarrow> bool \<Rightarrow> bool \<Rightarrow> acl_conf \<Rightarrow> (int \<times> acl_conf option) option" where
  "map_new_rule E group_id outer actual is6 check_old c =
    do { (ret, conf) \<leftarrow> (if \<not> check_old then acl_delete_old_map E (Some c) group_id outer True else Some (0, Some c));
         case conf of
           None \<Rightarrow> None
         | Some c \<Rightarrow>
             if ret < 0 then Some (FAIL_REASON_INTERNAL_ERROR, Some c)
             else do { c \<leftarrow> tuple_map_rule_map group_id outer actual is6 c;
                       F \<leftarrow> upd_bitmap (tuple_bitmap_set_used_flag actual) (fam is6 c);
                       F \<leftarrow> tuple_hash_insert E actual F;
                       Some (0, Some (set_fam is6 F c)) } }"

definition tuple_try_map_new_rule ::
  "acl_env \<Rightarrow> acl_conf option \<Rightarrow> int \<Rightarrow> int \<Rightarrow> sf_tuple_rule_cfg_t option \<Rightarrow> bool \<Rightarrow> (int \<times> acl_conf option) option" where
  "tuple_try_map_new_rule E conf group_id outer cfg check_old =
    (case conf of
       None \<Rightarrow> Some (FAIL_REASON_INTERNAL_ERROR, None)
     | Some c \<Rightarrow>
         if bad_group group_id then Some (FAIL_REASON_INVALID_ID, conf)
         else if bad_outer outer then Some (FAIL_REASON_INVALID_ID, conf)
         else case cfg of
           None \<Rightarrow> Some (FAIL_REASON_INTERNAL_ERROR, conf)
         | Some rc \<Rightarrow>
             do { old \<leftarrow> (if check_old then acl_get_rule_map_type conf group_id outer else Some 0);
                  if old > 0 then Some (FAIL_REASON_OLD_RULE_EXIST, conf)
                  else if check_tuple_rule_cfg E rc \<noteq> 0 then Some (FAIL_REASON_INVALID_CFG, conf)
                  else do {
                    let is6 = (is_ipv6 rc \<noteq> 0);
                    found \<leftarrow> tuple_hash_find_actual E c rc;
                    let actual = unat (word_of_int found :: u32);
                    if actual = 0 then do {
                      actual \<leftarrow> tuple_bitmap_get_first_unused (tuple_rule_bitmap (fam is6 c));
                      if actual = 0 then Some (FAIL_REASON_RULE_FULL, conf)
                      else do {
                        (ret, c) \<leftarrow> set_tuple_rule_cfg E group_id actual rc is6 c;
                        if ret \<noteq> 0 then Some (FAIL_REASON_INTERNAL_ERROR, Some c)
                        else map_new_rule E group_id outer actual is6 check_old c } }
                    else do {
                      duplicate \<leftarrow> tuple_hash_find_outer c actual is6;
                      if duplicate > 0 then (if duplicate = outer then Some (0, conf) else Some (duplicate, conf))
                      else map_new_rule E group_id outer actual is6 check_old c } } })"

section \<open>The invariant\<close>

definition slots :: "nat set" where "slots = {1..2048}"
definition outers :: "nat set" where "outers = {1..4096}"

definition links_ok :: "acl_table \<Rightarrow> bool" where
  "links_ok t \<longleftrightarrow> length (hash_buckets t) = 256 \<and> length (hash_nodes t) = 2048
     \<and> (\<forall>b\<in>set (hash_buckets t). hash_next_rule b \<le> 2048) \<and> (\<forall>n\<in>set (hash_nodes t). hash_prev n \<le> 2048 \<and> hash_next n \<le> 2048)"

definition slot :: "acl_family \<Rightarrow> nat \<Rightarrow> sf_tuple46_rule_t" where "slot F r = tuple_rules F ! (r - 1)"
definition word_of :: "nat \<Rightarrow> nat" where "word_of r = (r - 1) div 64"
definition bit_of :: "nat \<Rightarrow> nat" where "bit_of r = (r - 1) mod 64"
definition used :: "acl_family \<Rightarrow> nat \<Rightarrow> bool" where "used F r = bit (tuple_rule_bitmap F ! word_of r) (bit_of r)"
definition in_map :: "acl_family \<Rightarrow> nat \<Rightarrow> bool" where "in_map F r = outer_id_valid (map_rule (slot F r))"
definition outer_of :: "acl_family \<Rightarrow> nat \<Rightarrow> nat" where "outer_of F r = outer_rule_id (map_rule (slot F r))"
definition entry :: "acl_conf \<Rightarrow> nat \<Rightarrow> sf_rule_map_t" where "entry c r = rule_map c ! (r - 1)"
definition type_of :: "bool \<Rightarrow> nat" where "type_of is6 = (if is6 then ACL_RULE_TYPE_TUPLE6 else ACL_RULE_TYPE_TUPLE4)"
definition addr_len :: "bool \<Rightarrow> nat" where "addr_len is6 = (if is6 then 16 else 4)"
definition no_entry :: sf_rule_map_t where "no_entry = \<lparr>rule_type = 0, actual_rule_id = 0\<rparr>"

definition shape_ok :: "acl_family \<Rightarrow> bool" where
  "shape_ok F \<longleftrightarrow> length (tuple_rule_bitmap F) = 32 \<and> length (tuple_rules F) = 2048 \<and> links_ok (tuple_hash F)"

text \<open>The addresses have the length of their family, and no prefix is longer.\<close>

definition cfg_ok :: "bool \<Rightarrow> sf_tuple46_rule_cfg_t \<Rightarrow> bool" where
  "cfg_ok k s \<longleftrightarrow> length (sip_bytes s) = addr_len k \<and> length (dip_bytes s) = addr_len k
     \<and> unat (sip_mask s) \<le> 8 * addr_len k \<and> unat (dip_mask s) \<le> 8 * addr_len k"

definition slot_ok :: "acl_conf \<Rightarrow> bool \<Rightarrow> nat \<Rightarrow> bool" where
  "slot_ok c k r \<longleftrightarrow> (used (fam k c) r \<longleftrightarrow> in_map (fam k c) r)
     \<and> cfg_ok k (rule_cfg (slot (fam k c) r))
     \<and> (in_map (fam k c) r \<longrightarrow> outer_of (fam k c) r \<in> outers
          \<and> entry c (outer_of (fam k c) r) = \<lparr>rule_type = type_of k, actual_rule_id = r\<rparr>)"

definition entry_ok :: "acl_conf \<Rightarrow> nat \<Rightarrow> bool" where
  "entry_ok c n \<longleftrightarrow> entry c n = no_entry \<or>
     (\<exists>k. \<exists>r\<in>slots. entry c n = \<lparr>rule_type = type_of k, actual_rule_id = r\<rparr> \<and> in_map (fam k c) r \<and> outer_of (fam k c) r = n)"

text \<open>
  The configuration is consistent: the map from outer to actual numbers and the one back are inverse to each other, the
  bitmap marks the places in use, and no link of the hash tables leaves its array (the lists themselves may be in disorder).
\<close>

definition acl_inv :: "acl_conf \<Rightarrow> bool" where
  "acl_inv c \<longleftrightarrow> length (rule_map c) = 4096 \<and> (\<forall>k. shape_ok (fam k c)) \<and> (\<forall>k. \<forall>r\<in>slots. slot_ok c k r) \<and> (\<forall>n\<in>outers. entry_ok c n)"

text \<open>What the configuration means: for every outer number the IP version and fields of its rule.\<close>

definition rules_of :: "acl_conf \<Rightarrow> nat \<Rightarrow> (bool \<times> sf_tuple46_rule_cfg_t) option" where
  "rules_of c n =
    (if n \<notin> outers \<or> rule_type (entry c n) = ACL_RULE_TYPE_NONE then None
     else let k = (rule_type (entry c n) = ACL_RULE_TYPE_TUPLE6)
          in Some (k, rule_cfg (slot (fam k c) (actual_rule_id (entry c n)))))"

lemmas acl_consts = MAX_TUPLE_RULE_PER_GROUP_def MAX_RULE_GROUP_CNT_def MAX_RULE_PER_GROUP_def ACL_RULE_TYPE_NONE_def
  ACL_RULE_TYPE_TUPLE4_def ACL_RULE_TYPE_TUPLE6_def TUPLE_RULE_HASH_BUCKET_CNT_def TUPLE_RULE_BITMAP_CNT_def

lemma fam_set_fam [simp]: "fam k (set_fam k' F c) = (if k = k' then F else fam k c)"
  by (simp add: fam_def set_fam_def)

lemma set_fam_rule_map [simp]: "rule_map (set_fam k F c) = rule_map c" "fam k (c\<lparr>rule_map := m\<rparr>) = fam k c"
  "entry (set_fam k F c) n = entry c n"
  by (simp_all add: fam_def set_fam_def entry_def)

lemma set_fam_fam [simp]: "set_fam k (fam k c) c = c"
  by (simp add: fam_def set_fam_def)

lemma type_of_inj [simp]: "type_of k = type_of k' \<longleftrightarrow> k = k'" "type_of k \<noteq> 0" "type_of k = ACL_RULE_TYPE_TUPLE6 \<longleftrightarrow> k"
  "type_of k = ACL_RULE_TYPE_TUPLE4 \<longleftrightarrow> \<not> k" "type_of k \<noteq> ACL_RULE_TYPE_NONE"
  by (auto simp: type_of_def acl_consts)

lemma rules_of_entry:
  "n \<in> outers \<Longrightarrow> entry c n = \<lparr>rule_type = type_of k, actual_rule_id = r\<rparr> \<Longrightarrow> rules_of c n = Some (k, rule_cfg (slot (fam k c) r))"
  "entry c n = no_entry \<Longrightarrow> rules_of c n = None" "n \<notin> outers \<Longrightarrow> rules_of c n = None"
  by (simp_all add: rules_of_def no_entry_def acl_consts) (auto simp: type_of_def acl_consts)

lemma acl_invD:
  assumes "acl_inv c"
  shows "length (rule_map c) = 4096" "shape_ok (fam k c)" "r \<in> slots \<Longrightarrow> slot_ok c k r" "n \<in> outers \<Longrightarrow> entry_ok c n"
  using assms by (auto simp: acl_inv_def)

section \<open>The parts of an operation\<close>

lemma rule_at_in: "shape_ok F \<Longrightarrow> r \<in> slots \<Longrightarrow> rule_at F r = Some (slot F r)"
  by (auto simp: rule_at_def shape_ok_def slots_def slot_def arr_simps)

lemma upd_rule_in:
  assumes "shape_ok F" "r \<in> slots"
  obtains F' where "upd_rule f r F = Some F'" "shape_ok F'" "used F' = used F" "tuple_hash F' = tuple_hash F"
    "\<forall>x\<in>slots. slot F' x = (if x = r then f (slot F r) else slot F x)"
proof -
  let ?F' = "F\<lparr>tuple_rules := (tuple_rules F)[r - 1 := f (slot F r)]\<rparr>"
  have "r - 1 < length (tuple_rules F)" using assms by (auto simp: shape_ok_def slots_def)
  moreover have "slot ?F' x = (if x = r then f (slot F r) else slot F x)" if "x \<in> slots" for x
    using assms(2) that calculation by (auto simp: slot_def slots_def nth_list_update)
  moreover have "used ?F' = used F" by (simp add: used_def fun_eq_iff)
  ultimately show ?thesis
    using assms by (intro that [of ?F']) (simp_all add: upd_rule_def rule_at_in arr_simps shape_ok_def)
qed

text \<open>The hash table stays inside its arrays, whatever its links are.\<close>

lemma links_okD:
  assumes "links_ok t"
  shows "rule_ids t = slots" "b < 256 \<Longrightarrow> hash_next_rule (hash_buckets t ! b) \<le> 2048"
    "r \<in> slots \<Longrightarrow> hash_prev (hash_nodes t ! (r - 1)) \<le> 2048" "length (hash_buckets t) = 256" "length (hash_nodes t) = 2048"
proof -
  show "rule_ids t = slots" "length (hash_buckets t) = 256" "length (hash_nodes t) = 2048"
    using assms by (simp_all add: links_ok_def rule_ids_def slots_def)
  then show "b < 256 \<Longrightarrow> hash_next_rule (hash_buckets t ! b) \<le> 2048"
    "r \<in> slots \<Longrightarrow> hash_prev (hash_nodes t ! (r - 1)) \<le> 2048"
    using assms nth_mem [of b "hash_buckets t"] nth_mem [of "r - 1" "hash_nodes t"] by (auto simp: links_ok_def slots_def)
qed

lemma links_upd_node:
  assumes "links_ok t" "r \<in> slots" "\<And>n. hash_prev n \<le> 2048 \<and> hash_next n \<le> 2048 \<Longrightarrow> hash_prev (f n) \<le> 2048 \<and> hash_next (f n) \<le> 2048"
  obtains t' where "upd_node f r t = Some t'" "links_ok t'" "hash_buckets t' = hash_buckets t"
proof -
  have "r - 1 < length (hash_nodes t)" using assms(2) links_okD(5) [OF assms(1)] by (auto simp: slots_def)
  then have "hash_prev (f (hash_nodes t ! (r - 1))) \<le> 2048 \<and> hash_next (f (hash_nodes t ! (r - 1))) \<le> 2048"
    using assms(1,3) nth_mem by (auto simp: links_ok_def)
  then have "links_ok (t\<lparr>hash_nodes := (hash_nodes t)[r - 1 := f (hash_nodes t ! (r - 1))]\<rparr>)"
    using assms(1) by (auto simp: links_ok_def dest!: set_update_subset_insert [THEN subsetD])
  then show ?thesis using that upd_node_in [of r t f] assms(2) links_okD(1) [OF assms(1)] by simp
qed

lemma links_upd_bucket:
  assumes "links_ok t" "i < 256" "\<And>b. hash_next_rule b \<le> 2048 \<Longrightarrow> hash_next_rule (f b) \<le> 2048"
  obtains t' where "upd_bucket f i t = Some t'" "links_ok t'" "hash_nodes t' = hash_nodes t"
proof -
  have i: "i < length (hash_buckets t)" using assms(2) links_okD(4) [OF assms(1)] by simp
  then have "hash_next_rule (f (hash_buckets t ! i)) \<le> 2048"
    using assms(1,3) nth_mem by (auto simp: links_ok_def)
  then have "links_ok (t\<lparr>hash_buckets := (hash_buckets t)[i := f (hash_buckets t ! i)]\<rparr>)"
    using assms(1) by (auto simp: links_ok_def dest!: set_update_subset_insert [THEN subsetD])
  then show ?thesis using that upd_bucket_in [of i t f] i by simp
qed

lemma acl_index_256: "acl_hash_index crc key 256 < 256"
  by (simp add: index_less)

lemma links_insert:
  assumes "links_ok t" "r \<in> slots"
  obtains t' where "acl_hash_insert crc t 256 key r = Some t'" "links_ok t'"
proof -
  define i where "i = acl_hash_index crc key 256"
  have i: "i < 256" by (simp add: i_def acl_index_256)
  define h where "h = hash_next_rule (hash_buckets t ! i)"
  have h: "h \<le> 2048" using links_okD(2) [OF assms(1) i] by (simp add: h_def)
  have r: "r \<le> 2048" using assms(2) by (simp add: slots_def)
  obtain t1 where t1: "upd_node (\<lambda>n. n\<lparr>hash_next := h\<rparr>) r t = Some t1" "links_ok t1" "hash_buckets t1 = hash_buckets t"
    using links_upd_node [OF assms, of "\<lambda>n. n\<lparr>hash_next := h\<rparr>"] h by auto
  obtain t2 where t2: "upd_node (\<lambda>n. n\<lparr>hash_prev := 0\<rparr>) r t1 = Some t2" "links_ok t2" "hash_buckets t2 = hash_buckets t"
    using links_upd_node [OF t1(2) assms(2), of "\<lambda>n. n\<lparr>hash_prev := 0\<rparr>"] t1(3) by auto
  obtain t3 where t3: "(if h \<noteq> 0 then upd_node (\<lambda>n. n\<lparr>hash_prev := r\<rparr>) h t2 else Some t2) = Some t3" "links_ok t3"
  proof (cases "h = 0")
    case True
    then show ?thesis using that [of t2] t2 by simp
  next
    case False
    then have "h \<in> slots" using h by (simp add: slots_def)
    then show ?thesis using that False links_upd_node [OF t2(2), of h "\<lambda>n. n\<lparr>hash_prev := r\<rparr>"] r by auto
  qed
  obtain t4 where t4: "upd_bucket (\<lambda>b. b\<lparr>hash_next_rule := r\<rparr>) i t3 = Some t4" "links_ok t4"
    using links_upd_bucket [OF t3(2) i, of "\<lambda>b. b\<lparr>hash_next_rule := r\<rparr>"] r by auto
  obtain t5 where t5: "upd_bucket (\<lambda>b. b\<lparr>node_cnt := node_cnt b + 1\<rparr>) i t4 = Some t5" "links_ok t5"
    using links_upd_bucket [OF t4(2) i, of "\<lambda>b. b\<lparr>node_cnt := node_cnt b + 1\<rparr>"] by auto
  have read: "arr_read (hash_buckets t) i = Some (hash_buckets t ! i)"
    using i links_okD(4) [OF assms(1)] by (simp add: arr_simps)
  have "acl_hash_insert crc t 256 key r = (if node_cnt (hash_buckets t ! i) \<noteq> 0xFF then Some t5 else Some t4)"
    unfolding acl_hash_insert_def i_def [symmetric] Let_def read bind.bind_lunit h_def [symmetric] t1(1) t2(1) t3(1) t4(1) t5(1) by simp
  then show ?thesis using that t4(2) t5(2) by (cases "node_cnt (hash_buckets t ! i) = 0xFF") auto
qed

lemma links_free:
  assumes "links_ok t" "r \<in> slots"
  obtains t' where "acl_hash_free crc t 256 key r = Some t'" "links_ok t'"
proof -
  define i where "i = acl_hash_index crc key 256"
  have i: "i < 256" by (simp add: i_def acl_index_256)
  define p where "p = hash_prev (hash_nodes t ! (r - 1))"
  have p: "p \<le> 2048" using links_okD(3) [OF assms] by (simp add: p_def)
  have node: "node_at t r = Some (hash_nodes t ! (r - 1))" using assms links_okD(1) by (simp add: node_at_in)
  obtain t1 where t1: "upd_node (\<lambda>n. n\<lparr>hash_prev := 0\<rparr>) r t = Some t1" "links_ok t1"
    using links_upd_node [OF assms, of "\<lambda>n. n\<lparr>hash_prev := 0\<rparr>"] by auto
  obtain t2 where t2: "upd_node (\<lambda>n. n\<lparr>hash_prev := 0\<rparr>) r t1 = Some t2" "links_ok t2"
    using links_upd_node [OF t1(2) assms(2), of "\<lambda>n. n\<lparr>hash_prev := 0\<rparr>"] by auto
  obtain t3 where t3: "(if p = 0 then upd_bucket (\<lambda>b. b\<lparr>hash_next_rule := p\<rparr>) i t2
      else upd_node (\<lambda>n. n\<lparr>hash_prev := p\<rparr>) p t2) = Some t3" "links_ok t3"
  proof (cases "p = 0")
    case True
    then show ?thesis using that links_upd_bucket [OF t2(2) i, of "\<lambda>b. b\<lparr>hash_next_rule := 0\<rparr>"] by auto
  next
    case False
    then have "p \<in> slots" using p by (simp add: slots_def)
    then show ?thesis using that False links_upd_node [OF t2(2), of p "\<lambda>n. n\<lparr>hash_prev := p\<rparr>"] p by auto
  qed
  obtain t4 where t4: "(if p \<noteq> 0 then upd_node (\<lambda>n. n\<lparr>hash_prev := p\<rparr>) p t3 else Some t3) = Some t4" "links_ok t4"
  proof (cases "p = 0")
    case True
    then show ?thesis using that [of t3] t3 by simp
  next
    case False
    then have "p \<in> slots" using p by (simp add: slots_def)
    then show ?thesis using that False links_upd_node [OF t3(2), of p "\<lambda>n. n\<lparr>hash_prev := p\<rparr>"] p by auto
  qed
  obtain t5 where t5: "upd_bucket (\<lambda>b. b\<lparr>node_cnt := node_cnt b - 1\<rparr>) i t4 = Some t5" "links_ok t5"
    using links_upd_bucket [OF t4(2) i, of "\<lambda>b. b\<lparr>node_cnt := node_cnt b - 1\<rparr>"] by auto
  have read: "arr_read (hash_buckets t4) i = Some (hash_buckets t4 ! i)"
    using i links_okD(4) [OF t4(2)] by (simp add: arr_simps)
  have "acl_hash_free crc t 256 key r = (if node_cnt (hash_buckets t4 ! i) \<noteq> 0xFF then Some t5 else Some t4)"
    unfolding acl_hash_free_def i_def [symmetric] Let_def node bind.bind_lunit p_def [symmetric] t1(1) t2(1) t3(1) t4(1) read t5(1) by simp
  then show ?thesis using that t4(2) t5(2) by (cases "node_cnt (hash_buckets t4 ! i) = 0xFF") auto
qed

lemma hash_insert_family:
  assumes "shape_ok F" "r \<in> slots"
  obtains F' where "tuple_hash_insert E r F = Some F'" "shape_ok F'" "slot F' = slot F" "used F' = used F"
    "acl_hash_insert (get_hash_index E) (tuple_hash F) 256 (cfg_bytes (rule_cfg (slot F r))) r = Some (tuple_hash F')"
proof -
  have "links_ok (tuple_hash F)" using assms(1) by (simp add: shape_ok_def)
  then obtain t where "acl_hash_insert (get_hash_index E) (tuple_hash F) 256 (cfg_bytes (rule_cfg (slot F r))) r = Some t" "links_ok t"
    using links_insert [OF _ assms(2)] by blast
  then show ?thesis
    using assms by (intro that [of "F\<lparr>tuple_hash := t\<rparr>"])
      (simp_all add: tuple_hash_insert_def rule_at_in TUPLE_RULE_HASH_BUCKET_CNT_def shape_ok_def slot_def used_def fun_eq_iff)
qed

lemma hash_free_family:
  assumes "shape_ok F" "r \<in> slots"
  obtains F' where "tuple_hash_free E r F = Some F'" "shape_ok F'" "slot F' = slot F" "used F' = used F"
proof -
  have "links_ok (tuple_hash F)" using assms(1) by (simp add: shape_ok_def)
  then obtain t where "acl_hash_free (get_hash_index E) (tuple_hash F) 256 (cfg_bytes (rule_cfg (slot F r))) r = Some t" "links_ok t"
    using links_free [OF _ assms(2)] by blast
  then show ?thesis
    using assms by (intro that [of "F\<lparr>tuple_hash := t\<rparr>"])
      (simp_all add: tuple_hash_free_def rule_at_in TUPLE_RULE_HASH_BUCKET_CNT_def shape_ok_def slot_def used_def fun_eq_iff)
qed

text \<open>The bitmap.\<close>

lemma slot_word: "r \<in> slots \<Longrightarrow> word_of r < 32"
  by (auto simp: slots_def word_of_def)

lemma same_slot: "r \<in> slots \<Longrightarrow> x \<in> slots \<Longrightarrow> word_of x = word_of r \<Longrightarrow> bit_of x = bit_of r \<Longrightarrow> x = r"
proof -
  assume "r \<in> slots" "x \<in> slots" "word_of x = word_of r" "bit_of x = bit_of r"
  moreover have "x - 1 = word_of x * 64 + bit_of x" "r - 1 = word_of r * 64 + bit_of r"
    by (simp_all only: word_of_def bit_of_def div_mult_mod_eq)
  ultimately have "x - 1 = r - 1" "0 < x" "0 < r" by (simp_all add: slots_def)
  then show ?thesis by linarith
qed

lemma bit_bitmap_mask: "bit (bitmap_get_mask (r - 1)) n \<longleftrightarrow> n = bit_of r"
  by (auto simp: bitmap_get_mask_def bit_of_def bit_simps)

lemma set_used:
  assumes "shape_ok F" "r \<in> slots"
  obtains F' where "upd_bitmap (tuple_bitmap_set_used_flag r) F = Some F'" "shape_ok F'" "slot F' = slot F"
    "tuple_hash F' = tuple_hash F"
    "\<forall>x\<in>slots. used F' x \<longleftrightarrow> x = r \<or> used F x"
proof -
  let ?b = "(tuple_rule_bitmap F)[word_of r := tuple_rule_bitmap F ! word_of r OR bitmap_get_mask (r - 1)]"
  have i: "word_of r < length (tuple_rule_bitmap F)" using assms slot_word by (simp add: shape_ok_def)
  have "used (F\<lparr>tuple_rule_bitmap := ?b\<rparr>) x \<longleftrightarrow> x = r \<or> used F x" if "x \<in> slots" for x
  proof (cases "word_of x = word_of r")
    case True
    then show ?thesis
      using i same_slot [OF assms(2) that] by (auto simp: used_def bit_or_iff bit_bitmap_mask simp del: One_nat_def)
  next
    case False
    then show ?thesis using same_slot [OF assms(2) that] by (auto simp: used_def)
  qed
  moreover have "tuple_bitmap_set_used_flag r (tuple_rule_bitmap F) = Some ?b"
    unfolding tuple_bitmap_set_used_flag_def word_of_def [symmetric] using i by (simp add: arr_simps)
  ultimately show ?thesis
    using assms(1) by (intro that [of "F\<lparr>tuple_rule_bitmap := ?b\<rparr>"]) (simp_all add: upd_bitmap_def shape_ok_def slot_def fun_eq_iff)
qed

lemma unset_used:
  assumes "shape_ok F" "r \<in> slots"
  obtains F' where "upd_bitmap (tuple_bitmap_unset_used_flag r) F = Some F'" "shape_ok F'" "slot F' = slot F"
    "tuple_hash F' = tuple_hash F"
    "\<forall>x\<in>slots. used F' x \<longleftrightarrow> x \<noteq> r \<and> used F x"
proof -
  let ?b = "(tuple_rule_bitmap F)[word_of r := tuple_rule_bitmap F ! word_of r AND NOT (bitmap_get_mask (r - 1))]"
  have i: "word_of r < length (tuple_rule_bitmap F)" using assms slot_word by (simp add: shape_ok_def)
  have bit_less: "bit (w :: u64) n \<Longrightarrow> n < 64" for w n using bit_imp_le_length [of w n] by simp
  have "used (F\<lparr>tuple_rule_bitmap := ?b\<rparr>) x \<longleftrightarrow> x \<noteq> r \<and> used F x" if "x \<in> slots" for x
  proof (cases "word_of x = word_of r")
    case True
    then show ?thesis
      using i same_slot [OF assms(2) that]
      by (auto simp: used_def bit_and_iff bit_not_iff bit_bitmap_mask possible_bit_word simp del: One_nat_def dest: bit_less)
  next
    case False
    then show ?thesis using same_slot [OF assms(2) that] by (auto simp: used_def)
  qed
  moreover have "tuple_bitmap_unset_used_flag r (tuple_rule_bitmap F) = Some ?b"
    unfolding tuple_bitmap_unset_used_flag_def word_of_def [symmetric] using i by (simp add: arr_simps)
  ultimately show ?thesis
    using assms(1) by (intro that [of "F\<lparr>tuple_rule_bitmap := ?b\<rparr>"]) (simp_all add: upd_bitmap_def shape_ok_def slot_def fun_eq_iff)
qed

lemma first_word_spec:
  "first_word ws i \<le> i + length ws \<and> i \<le> first_word ws i
    \<and> (\<forall>j<first_word ws i - i. ws ! j = - 1) \<and> (first_word ws i < i + length ws \<longrightarrow> ws ! (first_word ws i - i) \<noteq> - 1)"
proof (induction ws i rule: first_word.induct)
  case (2 w ws i)
  show ?case
  proof (cases "w = - 1")
    case True
    have "(w # ws) ! j = - 1" if "j < first_word ws (i + 1) - i" for j
      using 2 [OF _] True that by (cases j) auto
    then show ?thesis using 2 True by (auto simp: Suc_diff_le)
  qed simp
qed simp

lemma first_bit_spec:
  "case first_bit k i w of None \<Rightarrow> \<forall>j<k. bit w j | Some m \<Rightarrow> i \<le> m \<and> m < i + k \<and> \<not> bit w (m - i)"
proof (induction k i w rule: first_bit.induct)
  case (2 k i w)
  have low: "w AND 1 = 0 \<longleftrightarrow> \<not> bit w 0" by (simp add: and_one_eq bit_0 even_iff_mod_2_eq_zero)
  have next_bit: "bit (drop_bit 1 w) j \<longleftrightarrow> bit w (Suc j)" for j by (simp add: bit_drop_bit_eq)
  show ?case
  proof (cases "bit w 0")
    case True
    then have eq: "first_bit (Suc k) i w = first_bit k (i + 1) (drop_bit 1 w)" using low by simp
    show ?thesis
    proof (cases "first_bit k (i + 1) (drop_bit 1 w)")
      case None
      then have "\<forall>j<k. bit w (Suc j)" using 2 low True by (simp add: next_bit del: One_nat_def)
      then show ?thesis using None True unfolding eq by (auto simp: less_Suc_eq_0_disj)
    next
      case (Some m)
      then have "i + 1 \<le> m \<and> m < i + 1 + k \<and> \<not> bit w (Suc (m - (i + 1)))"
        using 2 low True by (simp add: next_bit del: One_nat_def)
      moreover from this have "Suc (m - (i + 1)) = m - i" by linarith
      ultimately show ?thesis using Some unfolding eq by simp
    qed
  qed (simp add: low)
qed simp

lemma first_unused_spec:
  assumes "shape_ok F"
  obtains r where "tuple_bitmap_get_first_unused (tuple_rule_bitmap F) = Some r"
    "r = 0 \<Longrightarrow> \<forall>x\<in>slots. used F x" "r \<noteq> 0 \<Longrightarrow> r \<in> slots \<and> \<not> used F r"
proof -
  let ?ws = "tuple_rule_bitmap F"
  define i where "i = first_word ?ws 0"
  have len: "length ?ws = 32" using assms by (simp add: shape_ok_def)
  have i: "i \<le> 32" "\<And>j. j < i \<Longrightarrow> ?ws ! j = - 1" "i < 32 \<Longrightarrow> ?ws ! i \<noteq> - 1"
    using first_word_spec [of ?ws 0] len by (auto simp: i_def)
  show ?thesis
  proof (cases "i = 32")
    case True
    have "used F x" if "x \<in> slots" for x
      using i(2) [of "word_of x"] slot_word [OF that] True by (simp add: used_def bit_of_def bit_minus_1_iff possible_bit_word)
    then show ?thesis
      by (intro that [of 0]) (simp_all add: tuple_bitmap_get_first_unused_def i_def [symmetric] True TUPLE_RULE_BITMAP_CNT_def)
  next
    case False
    then have "i < 32" using i(1) by simp
    then have "\<not> (\<forall>j<64. bit (?ws ! i) j)"
      using i(3) by (auto intro!: bit_eqI simp: bit_minus_1_iff possible_bit_word)
    then obtain m where m: "first_bit 64 0 (?ws ! i) = Some m" "m < 64" "\<not> bit (?ws ! i) m"
      using first_bit_spec [where k = 64 and i = 0 and w = "?ws ! i"] by (auto split: option.splits)
    let ?r = "i * 64 + m + 1"
    have "word_of ?r = i" "bit_of ?r = m" using m(2) by (simp_all add: word_of_def bit_of_def)
    then have "?r \<in> slots" "\<not> used F ?r" using m \<open>i < 32\<close> by (auto simp: slots_def used_def)
    then show ?thesis
      using m \<open>i < 32\<close> len
      by (intro that [of ?r]) (simp_all add: tuple_bitmap_get_first_unused_def i_def [symmetric] arr_simps TUPLE_RULE_BITMAP_CNT_def)
  qed
qed

section \<open>Linking and unlinking a rule\<close>

lemma entry_upd:
  "length (rule_map c) = 4096 \<Longrightarrow> n \<in> outers \<Longrightarrow> m \<in> outers \<Longrightarrow>
    entry (c\<lparr>rule_map := (rule_map c)[n - 1 := e]\<rparr>) m = (if m = n then e else entry c m)"
  by (auto simp: entry_def outers_def nth_list_update)

text \<open>
  \<open>changed c k r n e F' c'\<close>: the configuration \<open>c'\<close> differs from \<open>c\<close> in the entry of the outer number \<open>n\<close>, which is
  \<open>e\<close>, and in the family \<open>k\<close>, which is \<open>F'\<close> and differs in place \<open>r\<close>.
\<close>

definition changed where
  "changed c k r n e F' c' \<longleftrightarrow> c' = set_fam k F' (c\<lparr>rule_map := (rule_map c)[n - 1 := e]\<rparr>) \<and> shape_ok F'
     \<and> (\<forall>x\<in>slots. x \<noteq> r \<longrightarrow> slot F' x = slot (fam k c) x \<and> (used F' x \<longleftrightarrow> used (fam k c) x))
     \<and> rule_cfg (slot F' r) = rule_cfg (slot (fam k c) r) \<and> (used F' r \<longleftrightarrow> in_map F' r)"

lemma changed_places:
  assumes "changed c k r n e F' c'" "x \<in> slots" "k' \<noteq> k \<or> x \<noteq> r"
  shows "slot (fam k' c') x = slot (fam k' c) x" "used (fam k' c') x = used (fam k' c) x"
    "in_map (fam k' c') x = in_map (fam k' c) x" "outer_of (fam k' c') x = outer_of (fam k' c) x"
proof -
  show s: "slot (fam k' c') x = slot (fam k' c) x" and "used (fam k' c') x = used (fam k' c) x"
    using assms by (auto simp: changed_def)
  show "in_map (fam k' c') x = in_map (fam k' c) x" "outer_of (fam k' c') x = outer_of (fam k' c) x"
    by (simp_all only: in_map_def outer_of_def s)
qed

lemma changed_cfg: "changed c k r n e F' c' \<Longrightarrow> x \<in> slots \<Longrightarrow> rule_cfg (slot (fam k' c') x) = rule_cfg (slot (fam k' c) x)"
  using changed_places(1) [of c k r n e F' c' x k'] by (cases "k' = k \<and> x = r") (auto simp: changed_def)

lemma changed_entry:
  "changed c k r n e F' c' \<Longrightarrow> acl_inv c \<Longrightarrow> n \<in> outers \<Longrightarrow> m \<in> outers \<Longrightarrow> entry c' m = (if m = n then e else entry c m)"
  by (simp add: changed_def entry_upd [unfolded One_nat_def] acl_invD(1))

lemma changed_inv:
  assumes ch: "changed c k r n e F' c'" and inv: "acl_inv c" and n: "n \<in> outers" and r: "r \<in> slots"
    and slot_r: "slot_ok c' k r" and entry_n: "entry_ok c' n"
    and others: "\<And>k' x. x \<in> slots \<Longrightarrow> k' \<noteq> k \<or> x \<noteq> r \<Longrightarrow> in_map (fam k' c) x \<Longrightarrow> outer_of (fam k' c) x \<noteq> n"
      "\<And>m. m \<in> outers \<Longrightarrow> m \<noteq> n \<Longrightarrow> entry c m \<noteq> \<lparr>rule_type = type_of k, actual_rule_id = r\<rparr>"
  shows "acl_inv c'"
  unfolding acl_inv_def
proof (intro conjI allI ballI)
  show "length (rule_map c') = 4096" using ch acl_invD(1) [OF inv] by (simp add: changed_def)
  show "shape_ok (fam k' c')" for k' using ch acl_invD(2) [OF inv] by (simp add: changed_def)
  show "slot_ok c' k' x" if x: "x \<in> slots" for k' x
  proof (cases "k' = k \<and> x = r")
    case True
    then show ?thesis using slot_r by simp
  next
    case False
    note same = changed_places [OF ch x, of k'] changed_cfg [OF ch x, of k']
    have "slot_ok c k' x" using acl_invD(3) [OF inv x] .
    moreover have "in_map (fam k' c) x \<Longrightarrow> outer_of (fam k' c) x \<noteq> n" using others(1) [OF x] False by blast
    ultimately show ?thesis
      using same False changed_entry [OF ch inv n, of "outer_of (fam k' c) x"] by (simp add: slot_ok_def)
  qed
  show "entry_ok c' m" if m: "m \<in> outers" for m
  proof (cases "m = n")
    case True
    then show ?thesis using entry_n by simp
  next
    case False
    have eq: "entry c' m = entry c m" using changed_entry [OF ch inv n m] False by simp
    consider "entry c m = no_entry" | k' x where "x \<in> slots" "entry c m = \<lparr>rule_type = type_of k', actual_rule_id = x\<rparr>"
      "in_map (fam k' c) x" "outer_of (fam k' c) x = m"
      using acl_invD(4) [OF inv m] by (auto simp: entry_ok_def)
    then show ?thesis
    proof cases
      case 1
      then show ?thesis using eq by (simp add: entry_ok_def)
    next
      case (2 k' x)
      then have "k' \<noteq> k \<or> x \<noteq> r" using others(2) [OF m False] by auto
      then show ?thesis using 2 eq changed_places(3,4) [OF ch 2(1), of k'] unfolding entry_ok_def by metis
    qed
  qed
qed

lemma changed_rules:
  assumes ch: "changed c k r n e F' c'" and inv: "acl_inv c" and n: "n \<in> outers" and m: "m \<noteq> n"
  shows "rules_of c' m = rules_of c m"
proof (cases "m \<in> outers")
  case True
  have eq: "entry c' m = entry c m" using changed_entry [OF ch inv n True] m by simp
  consider "entry c m = no_entry" | k' x where "x \<in> slots" "entry c m = \<lparr>rule_type = type_of k', actual_rule_id = x\<rparr>"
    using acl_invD(4) [OF inv True] by (auto simp: entry_ok_def)
  then show ?thesis
    by cases (use True eq changed_cfg [OF ch] in \<open>auto simp: rules_of_entry\<close>)
qed (simp add: rules_of_entry(3))

definition attached where "attached c k r n c' \<longleftrightarrow> acl_inv c' \<and> rules_of c' = (rules_of c)(n \<mapsto> (k, rule_cfg (slot (fam k c) r)))
   \<and> in_map (fam k c') r \<and> (\<forall>k'. \<forall>x\<in>slots. k' \<noteq> k \<or> x \<noteq> r \<longrightarrow> slot (fam k' c') x = slot (fam k' c) x)
   \<and> (\<forall>k'. \<forall>x\<in>slots. rule_cfg (slot (fam k' c') x) = rule_cfg (slot (fam k' c) x))"

lemma outers_slots: "n \<in> outers \<Longrightarrow> nat (int n - 1) = n - 1" "n \<in> outers \<Longrightarrow> n - 1 < 4096"
  by (auto simp: outers_def)

lemma attach:
  assumes inv: "acl_inv c" and n: "n \<in> outers" "entry c n = no_entry" and r: "r \<in> slots" "\<not> in_map (fam k c) r"
  obtains c' where "map_new_rule E g (int n) r k True c = Some (0, Some c')" "attached c k r n c'"
    "tuple_hash (fam (\<not> k) c') = tuple_hash (fam (\<not> k) c)"
    "acl_hash_insert (get_hash_index E) (tuple_hash (fam k c)) 256 (cfg_bytes (rule_cfg (slot (fam k c) r))) r = Some (tuple_hash (fam k c'))"
proof -
  let ?F = "fam k c" and ?e = "\<lparr>rule_type = type_of k, actual_rule_id = r\<rparr>"
  let ?mr = "\<lparr>outer_id_valid = True, outer_group_id = nat g, outer_rule_id = n\<rparr>"
  have shape: "shape_ok ?F" using acl_invD(2) [OF inv] .
  obtain F1 where F1: "upd_rule (\<lambda>x. x\<lparr>map_rule := ?mr\<rparr>) r ?F = Some F1" "shape_ok F1" "used F1 = used ?F" "tuple_hash F1 = tuple_hash ?F"
    "\<forall>x\<in>slots. slot F1 x = (if x = r then (slot ?F r)\<lparr>map_rule := ?mr\<rparr> else slot ?F x)"
    using upd_rule_in [OF shape r(1), of "\<lambda>x. x\<lparr>map_rule := ?mr\<rparr>"] by blast
  obtain F2 where F2: "upd_bitmap (tuple_bitmap_set_used_flag r) F1 = Some F2" "shape_ok F2" "slot F2 = slot F1" "tuple_hash F2 = tuple_hash F1"
    "\<forall>x\<in>slots. used F2 x \<longleftrightarrow> x = r \<or> used F1 x"
    using set_used [OF F1(2) r(1)] by blast
  obtain F3 where F3: "tuple_hash_insert E r F2 = Some F3" "shape_ok F3" "slot F3 = slot F2" "used F3 = used F2"
    "acl_hash_insert (get_hash_index E) (tuple_hash F2) 256 (cfg_bytes (rule_cfg (slot F2 r))) r = Some (tuple_hash F3)"
    using hash_insert_family [OF F2(2) r(1)] by blast
  have slot_r: "slot F3 r = (slot ?F r)\<lparr>map_rule := ?mr\<rparr>" using F1(5) F2(3) F3(3) r(1) by simp
  let ?c' = "set_fam k F3 (c\<lparr>rule_map := (rule_map c)[n - 1 := ?e]\<rparr>)"
  have ch: "changed c k r n ?e F3 ?c'"
    using F1(3,5) F2(3,5) F3(2-4) r(1) slot_r by (simp add: changed_def in_map_def)
  have run: "map_new_rule E g (int n) r k True c = Some (0, Some ?c')"
    using F1(1) F2(1) F3(1) n(1) acl_invD(1) [OF inv]
    by (simp add: map_new_rule_def tuple_map_rule_map_def arr_simps outers_slots outers_slots(2) [unfolded One_nat_def] type_of_def [symmetric] set_fam_def fam_def split: if_splits)
  have cfg: "acl_hash_insert (get_hash_index E) (tuple_hash ?F) 256 (cfg_bytes (rule_cfg (slot ?F r))) r = Some (tuple_hash (fam k ?c'))"
    using F3(5) F2(3,4) F1(4,5) r(1) by simp
  have "acl_inv ?c'"
  proof (rule changed_inv [OF ch inv n(1) r(1)])
    have e: "entry ?c' n = ?e" using changed_entry [OF ch inv n(1) n(1)] by simp
    show "slot_ok ?c' k r"
      using acl_invD(3) [OF inv r(1), of k] ch slot_r n(1) e by (simp add: slot_ok_def changed_def in_map_def outer_of_def)
    show "entry_ok ?c' n"
      using e r(1) slot_r unfolding entry_ok_def by (auto simp: in_map_def outer_of_def intro!: exI [of _ k] bexI [of _ r])
    show "outer_of (fam k' c) x \<noteq> n" if "x \<in> slots" "in_map (fam k' c) x" for k' x
      using acl_invD(3) [OF inv that(1), of k'] that(2) n(2) by (auto simp: slot_ok_def no_entry_def)
    show "entry c m \<noteq> ?e" if "m \<in> outers" for m
      using acl_invD(4) [OF inv that] r(2) by (auto simp: entry_ok_def no_entry_def)
  qed
  moreover have "rules_of ?c' = (rules_of c)(n \<mapsto> (k, rule_cfg (slot ?F r)))"
  proof
    fix m
    show "rules_of ?c' m = ((rules_of c)(n \<mapsto> (k, rule_cfg (slot ?F r)))) m"
      using changed_rules [OF ch inv n(1), of m] changed_entry [OF ch inv n(1) n(1)] slot_r n(1)
      by (cases "m = n") (simp_all add: rules_of_entry(1))
  qed
  moreover have "in_map (fam k ?c') r" using slot_r by (simp add: in_map_def)
  ultimately have "attached c k r n ?c'"
    using changed_places(1) [OF ch] changed_cfg [OF ch] by (simp add: attached_def)
  then show ?thesis using that [OF run _ _ cfg] by simp
qed

definition detached where "detached c k r n c' \<longleftrightarrow> acl_inv c' \<and> rules_of c' = (rules_of c)(n := None) \<and> entry c' n = no_entry
   \<and> \<not> in_map (fam k c') r \<and> (\<forall>k'. \<forall>x\<in>slots. k' \<noteq> k \<or> x \<noteq> r \<longrightarrow> slot (fam k' c') x = slot (fam k' c) x)
   \<and> (\<forall>k'. \<forall>x\<in>slots. rule_cfg (slot (fam k' c') x) = rule_cfg (slot (fam k' c) x))"

lemma good_ids [simp]: "\<not> bad_group 1" "n \<in> outers \<Longrightarrow> \<not> bad_outer (int n)" "r \<in> slots \<Longrightarrow> \<not> bad_actual (int r)"
  by (auto simp: bad_group_def bad_outer_def bad_actual_def outers_def slots_def acl_consts)

lemma detach:
  assumes inv: "acl_inv c" and n: "n \<in> outers" and e: "entry c n = \<lparr>rule_type = type_of k, actual_rule_id = r\<rparr>"
  obtains c' where "acl_delete_old_map E (Some c) 1 (int n) no_check = Some (0, Some c')" "detached c k r n c'" "r \<in> slots"
    "in_map (fam k c) r"
proof -
  let ?F = "fam k c"
  have r: "r \<in> slots" "in_map ?F r" "outer_of ?F r = n"
    using acl_invD(4) [OF inv n] e by (auto simp: entry_ok_def no_entry_def)
  have shape: "shape_ok ?F" using acl_invD(2) [OF inv] .
  obtain F1 where F1: "upd_rule (\<lambda>x. x\<lparr>map_rule := zero_map_rule\<rparr>) r ?F = Some F1" "shape_ok F1" "used F1 = used ?F" "tuple_hash F1 = tuple_hash ?F"
    "\<forall>x\<in>slots. slot F1 x = (if x = r then (slot ?F r)\<lparr>map_rule := zero_map_rule\<rparr> else slot ?F x)"
    using upd_rule_in [OF shape r(1), of "\<lambda>x. x\<lparr>map_rule := zero_map_rule\<rparr>"] by blast
  obtain F2 where F2: "tuple_hash_free E r F1 = Some F2" "shape_ok F2" "slot F2 = slot F1" "used F2 = used F1"
    using hash_free_family [OF F1(2) r(1)] by blast
  obtain F3 where F3: "upd_bitmap (tuple_bitmap_unset_used_flag r) F2 = Some F3" "shape_ok F3" "slot F3 = slot F2"
    "\<forall>x\<in>slots. used F3 x \<longleftrightarrow> x \<noteq> r \<and> used F2 x"
    using unset_used [OF F2(2) r(1)] by blast
  have slot_r: "slot F3 r = (slot ?F r)\<lparr>map_rule := zero_map_rule\<rparr>" using F1(5) F2(3) F3(3) r(1) by simp
  let ?c' = "set_fam k F3 (c\<lparr>rule_map := (rule_map c)[n - 1 := no_entry]\<rparr>)"
  have ch: "changed c k r n no_entry F3 ?c'"
    using F1(3,5) F2(3,4) F3(2-4) r(1) slot_r by (simp add: changed_def in_map_def zero_map_rule_def)
  have del: "tuple_delete_old_map E 1 r k c = Some (0, set_fam k F3 c)"
    using F1(1) F2(1) F3(1) r(1) by (simp add: tuple_delete_old_map_def)
  have read: "rule_map_at c (int n) = Some \<lparr>rule_type = type_of k, actual_rule_id = r\<rparr>"
    using e acl_invD(1) [OF inv] outers_slots [OF n] by (simp add: rule_map_at_def arr_simps entry_def)
  have run: "acl_delete_old_map E (Some c) 1 (int n) no_check = Some (0, Some ?c')"
    using del n acl_invD(1) [OF inv] outers_slots(2) [OF n, unfolded One_nat_def] outers_slots(1) [OF n, unfolded One_nat_def]
    unfolding acl_delete_old_map_def
    by (cases k) (simp_all add: read Let_def no_entry_def [symmetric] arr_simps set_fam_def)
  have out: "\<not> in_map (fam k ?c') r" using slot_r by (simp add: in_map_def zero_map_rule_def)
  have gone: "entry ?c' n = no_entry" using changed_entry [OF ch inv n n] by simp
  have "acl_inv ?c'"
  proof (rule changed_inv [OF ch inv n r(1)])
    show "slot_ok ?c' k r"
      using acl_invD(3) [OF inv r(1), of k] ch slot_r out by (simp add: slot_ok_def changed_def)
    show "entry_ok ?c' n" using gone by (simp add: entry_ok_def)
    show "outer_of (fam k' c) x \<noteq> n" if "x \<in> slots" "k' \<noteq> k \<or> x \<noteq> r" "in_map (fam k' c) x" for k' x
      using acl_invD(3) [OF inv that(1), of k'] that(2,3) e by (auto simp: slot_ok_def)
    show "entry c m \<noteq> \<lparr>rule_type = type_of k, actual_rule_id = r\<rparr>" if "m \<in> outers" "m \<noteq> n" for m
      using acl_invD(4) [OF inv that(1)] r(3) that(2) by (auto simp: entry_ok_def no_entry_def)
  qed
  moreover have "rules_of ?c' = (rules_of c)(n := None)"
    using changed_rules [OF ch inv n] gone by (auto simp: fun_eq_iff rules_of_entry(2))
  ultimately have "detached c k r n ?c'"
    using changed_places(1) [OF ch] changed_cfg [OF ch] gone out by (simp add: detached_def)
  then show ?thesis using that run r by blast
qed

lemma delete_none:
  assumes inv: "acl_inv c" and n: "n \<in> outers" and e: "entry c n = no_entry"
  shows "acl_delete_old_map E (Some c) 1 (int n) no_check = Some (if no_check then 0 else -2, Some c)"
proof -
  have i: "n - 1 < length (rule_map c)" "nat (int n - 1) = n - 1" using acl_invD(1) [OF inv] outers_slots [OF n] by simp_all
  have same: "(rule_map c)[n - 1 := no_entry] = rule_map c" using e list_update_id [of "rule_map c" "n - 1"] by (simp add: entry_def)
  have read: "rule_map_at c (int n) = Some no_entry" using i e by (simp add: rule_map_at_def arr_simps entry_def)
  have wr: "arr_write (rule_map c) (nat (int n - 1)) no_entry = Some (rule_map c)"
    unfolding i(2) using i(1) same by (simp add: arr_simps)
  have "rule_type no_entry = 0" by (simp add: no_entry_def)
  then show ?thesis
    using n wr unfolding acl_delete_old_map_def no_entry_def [symmetric] Let_def
    by (simp add: acl_consts read)
qed

section \<open>Storing and finding the fields of a rule\<close>

text \<open>The documented behaviour of \<open>inet_pton\<close>: it writes an address of its family.\<close>

definition pton_ok :: "acl_env \<Rightarrow> bool" where
  "pton_ok E \<longleftrightarrow> (\<forall>k s b. inet_pton E k s = Some b \<longrightarrow> length b = addr_len k)"

definition is6_of :: "sf_tuple_rule_cfg_t \<Rightarrow> bool" where "is6_of cfg \<longleftrightarrow> is_ipv6 cfg \<noteq> 0"

definition stored_cfg :: "acl_env \<Rightarrow> sf_tuple_rule_cfg_t \<Rightarrow> sf_tuple46_rule_cfg_t" where
  "stored_cfg E cfg = snd (copy_tuple_cfg E (is6_of cfg) junk_cfg cfg)"

lemma copy_checked:
  assumes "check_tuple_rule_cfg E cfg = 0"
  shows "copy_tuple_cfg E (is6_of cfg) dst cfg = (0, stored_cfg E cfg)"
proof -
  obtain a b where "inet_pton E (is6_of cfg) (sip_str cfg) = Some a" "inet_pton E (is6_of cfg) (dip_str cfg) = Some b"
    using assms by (auto simp: check_tuple_rule_cfg_def AF_check_def is6_of_def Let_def split: if_splits)
  then show ?thesis by (simp add: stored_cfg_def copy_tuple_cfg_def Let_def junk_cfg_def)
qed

lemma stored_cfg_ok:
  assumes "check_tuple_rule_cfg E cfg = 0" "pton_ok E"
  shows "cfg_ok (is6_of cfg) (stored_cfg E cfg)"
proof -
  obtain a b where pton: "inet_pton E (is6_of cfg) (sip_str cfg) = Some a" "inet_pton E (is6_of cfg) (dip_str cfg) = Some b"
    using assms(1) by (auto simp: check_tuple_rule_cfg_def AF_check_def is6_of_def Let_def split: if_splits)
  have "sip_mask cfg \<le> (if is6_of cfg then 128 else 32) \<and> dip_mask cfg \<le> (if is6_of cfg then 128 else 32)"
    using assms(1) by (auto simp: check_tuple_rule_cfg_def is6_of_def Let_def split: if_splits)
  then have "unat (sip_mask cfg) \<le> 8 * addr_len (is6_of cfg)" "unat (dip_mask cfg) \<le> 8 * addr_len (is6_of cfg)"
    by (auto simp: addr_len_def word_le_nat_alt)
  then show ?thesis
    using assms(2) pton by (simp add: stored_cfg_def copy_tuple_cfg_def Let_def pton_ok_def cfg_ok_def)
qed

lemma stored_cfg_lengths:
  assumes "check_tuple_rule_cfg E cfg = 0" "pton_ok E"
  shows "length (sip_bytes (stored_cfg E cfg)) = addr_len (is6_of cfg)"
  using stored_cfg_ok [OF assms] by (simp add: cfg_ok_def)

lemma le16_bytes_inj: "le16_bytes x = le16_bytes y \<longleftrightarrow> x = y"
proof
  assume "le16_bytes x = le16_bytes y"
  then have eq: "(ucast x :: u8) = ucast y" "(ucast (drop_bit 8 x) :: u8) = ucast (drop_bit 8 y)" by (simp_all add: le16_bytes_def)
  show "x = y"
  proof (rule bit_word_eqI)
    fix i assume i: "i < LENGTH(16)"
    show "bit x i = bit y i"
    proof (cases "i < 8")
      case True
      then show ?thesis using arg_cong [OF eq(1), of "\<lambda>w. bit w i"] by (simp add: bit_simps)
    next
      case False
      then show ?thesis using arg_cong [OF eq(2), of "\<lambda>w. bit w (i - 8)"] i by (auto simp: bit_simps)
    qed
  qed
qed simp

lemma le16_bytes_append: "le16_bytes x @ xs = le16_bytes y @ ys \<longleftrightarrow> x = y \<and> xs = ys"
proof -
  have "length (le16_bytes x) = length (le16_bytes y)" by (simp add: le16_bytes_def)
  then show ?thesis by (simp add: le16_bytes_inj)
qed

lemma cfg_bytes_inj:
  assumes "cfg_bytes a = cfg_bytes b" "length (sip_bytes a) = length (sip_bytes b)"
  shows "a = b"
  using assms
  by (cases a; cases b) (simp add: cfg_bytes_def le16_bytes_append)

text \<open>Whatever the links are, a search that returns gives 0 or a place with the same fields.\<close>

lemma find_loop_sound:
  assumes "acl_find_loop t cmp r = Some y"
  shows "y = 0 \<or> cmp y = Some True"
proof (rule acl_find_loop.raw_induct [OF _ assms])
  fix loop t cmp r y
  assume IH: "\<And>t cmp r y. loop t cmp r = Some y \<Longrightarrow> y = 0 \<or> cmp y = Some True"
    and body: "(if r = 0 then Some 0 else do { same \<leftarrow> cmp r; if same then Some r
      else do { n \<leftarrow> node_at t r; loop t cmp (hash_next n) } }) = Some y"
  show "y = 0 \<or> cmp y = Some True"
    using body IH by (auto simp: bind_eq_Some_conv split: if_splits)
qed

lemma hash_find_sound:
  assumes "shape_ok F" "acl_hash_find crc (tuple_hash F) n key (tuple_rule_cfg_cmp F key) = Some y"
  shows "y = 0 \<or> y \<in> slots \<and> cfg_bytes (rule_cfg (slot F y)) = key"
proof -
  have "y = 0 \<or> tuple_rule_cfg_cmp F key y = Some True"
    using assms(2) find_loop_sound by (auto simp: acl_hash_find_def bind_eq_Some_conv split: if_splits)
  then show ?thesis
    using assms(1) by (auto simp: tuple_rule_cfg_cmp_def bind_eq_Some_conv rule_at_def arr_read_def shape_ok_def slots_def slot_def split: if_splits)
qed

lemma find_actual_eq:
  assumes "check_tuple_rule_cfg E cfg = 0"
  shows "tuple_hash_find_actual E c cfg = map_option int (acl_hash_find (get_hash_index E) (tuple_hash (fam (is6_of cfg) c)) 256
    (cfg_bytes (stored_cfg E cfg)) (tuple_rule_cfg_cmp (fam (is6_of cfg) c) (cfg_bytes (stored_cfg E cfg))))"
  using copy_checked [OF assms, of junk_cfg]
  by (cases "is6_of cfg") (simp_all add: tuple_hash_find_actual_def tuple_rule_find_def is6_of_def TUPLE_RULE_HASH_BUCKET_CNT_def)

lemma unat_slot: "y = 0 \<or> y \<in> slots \<Longrightarrow> unat (word_of_int (int y) :: u32) = y"
  by (auto simp: slots_def unsigned_of_nat take_bit_nat_eq_self)

lemma find_actual_sound:
  assumes "acl_inv c" "check_tuple_rule_cfg E cfg = 0" "pton_ok E" "tuple_hash_find_actual E c cfg = Some f"
  obtains y where "f = int y" "unat (word_of_int f :: u32) = y"
    "y \<noteq> 0 \<Longrightarrow> y \<in> slots \<and> rule_cfg (slot (fam (is6_of cfg) c) y) = stored_cfg E cfg"
proof -
  let ?F = "fam (is6_of cfg) c"
  obtain y where y: "f = int y" "acl_hash_find (get_hash_index E) (tuple_hash ?F) 256
    (cfg_bytes (stored_cfg E cfg)) (tuple_rule_cfg_cmp ?F (cfg_bytes (stored_cfg E cfg))) = Some y"
    using assms(4) unfolding find_actual_eq [OF assms(2)] by auto
  have sound: "y = 0 \<or> y \<in> slots \<and> cfg_bytes (rule_cfg (slot ?F y)) = cfg_bytes (stored_cfg E cfg)"
    by (rule hash_find_sound [OF acl_invD(2) [OF assms(1)] y(2)])
  have same: "rule_cfg (slot ?F y) = stored_cfg E cfg" if "y \<in> slots" "cfg_bytes (rule_cfg (slot ?F y)) = cfg_bytes (stored_cfg E cfg)"
  proof (rule cfg_bytes_inj [OF that(2)])
    have "length (sip_bytes (rule_cfg (slot ?F y))) = addr_len (is6_of cfg)"
      using acl_invD(3) [OF assms(1) that(1), of "is6_of cfg"] unfolding slot_ok_def cfg_ok_def by blast
    then show "length (sip_bytes (rule_cfg (slot ?F y))) = length (sip_bytes (stored_cfg E cfg))"
      by (simp only: stored_cfg_lengths [OF assms(2,3)])
  qed
  show ?thesis
  proof (rule that [OF y(1)])
    show "unat (word_of_int f :: u32) = y" unfolding y(1) by (rule unat_slot) (use sound in blast)
    show "y \<in> slots \<and> rule_cfg (slot ?F y) = stored_cfg E cfg" if "y \<noteq> 0" using sound same that by blast
  qed
qed

section \<open>Creating a rule\<close>

lemma set_cfg:
  assumes inv: "acl_inv c" and r: "r \<in> slots" "\<not> in_map (fam (is6_of cfg) c) r"
    and cfg: "check_tuple_rule_cfg E cfg = 0" "pton_ok E"
  obtains c' where "set_tuple_rule_cfg E 1 r cfg (is6_of cfg) c = Some (0, c')" "acl_inv c'" "rules_of c' = rules_of c"
    "rule_cfg (slot (fam (is6_of cfg) c') r) = stored_cfg E cfg"
    "\<forall>k. \<forall>x\<in>slots. k \<noteq> is6_of cfg \<or> x \<noteq> r \<longrightarrow> slot (fam k c') x = slot (fam k c) x"
    "\<forall>k. \<forall>x\<in>slots. in_map (fam k c') x = in_map (fam k c) x" "\<forall>k. tuple_hash (fam k c') = tuple_hash (fam k c)"
    "\<forall>n. entry c' n = entry c n"
proof -
  let ?k = "is6_of cfg"
  let ?f = "\<lambda>x. x\<lparr>rule_cfg := snd (copy_tuple_cfg E ?k (rule_cfg x) cfg)\<rparr>"
  have f: "?f x = x\<lparr>rule_cfg := stored_cfg E cfg\<rparr>" for x using copy_checked [OF cfg(1)] by simp
  obtain F where F: "upd_rule ?f r (fam ?k c) = Some F" "shape_ok F" "used F = used (fam ?k c)" "tuple_hash F = tuple_hash (fam ?k c)"
    "\<forall>x\<in>slots. slot F x = (if x = r then ?f (slot (fam ?k c) r) else slot (fam ?k c) x)"
    using upd_rule_in [OF acl_invD(2) [OF inv] r(1), of ?f] by blast
  let ?c' = "set_fam ?k F c"
  have run: "set_tuple_rule_cfg E 1 r cfg ?k c = Some (0, ?c')"
    using F(1) r(1) by (simp add: set_tuple_rule_cfg_def is6_of_def)
  have other: "slot (fam k ?c') x = slot (fam k c) x" if "x \<in> slots" "k \<noteq> ?k \<or> x \<noteq> r" for k x
    using F(5) that by auto
  have here: "slot (fam ?k ?c') r = (slot (fam ?k c) r)\<lparr>rule_cfg := stored_cfg E cfg\<rparr>" using F(5) r(1) f by simp
  have maps: "in_map (fam k ?c') x = in_map (fam k c) x" "outer_of (fam k ?c') x = outer_of (fam k c) x" if "x \<in> slots" for k x
    using other [OF that, of k] here by (cases "k = ?k \<and> x = r"; simp add: in_map_def outer_of_def)+
  have useds: "used (fam k ?c') x = used (fam k c) x" for k x using F(3) by simp
  have "acl_inv ?c'"
    unfolding acl_inv_def
  proof (intro conjI allI ballI)
    show "length (rule_map ?c') = 4096" using acl_invD(1) [OF inv] by simp
    show "shape_ok (fam k ?c')" for k using F(2) acl_invD(2) [OF inv] by simp
    show "slot_ok ?c' k x" if x: "x \<in> slots" for k x
    proof (cases "k = ?k \<and> x = r")
      case True
      then show ?thesis
        using acl_invD(3) [OF inv x, of k] maps [OF x, of k] useds [of k x] here stored_cfg_ok [OF cfg] r(2)
        unfolding slot_ok_def set_fam_rule_map(3) by simp
    next
      case False
      then have "slot (fam k ?c') x = slot (fam k c) x" using other [OF x, of k] by blast
      then show ?thesis
        using acl_invD(3) [OF inv x, of k] unfolding slot_ok_def set_fam_rule_map(3) maps [OF x] useds by simp
    qed
    show "entry_ok ?c' n" if "n \<in> outers" for n
      using acl_invD(4) [OF inv that] maps unfolding entry_ok_def set_fam_rule_map(3) by blast
  qed
  moreover have "rules_of ?c' = rules_of c"
  proof
    fix n
    show "rules_of ?c' n = rules_of c n"
    proof (cases "n \<in> outers")
      case True
      consider "entry c n = no_entry" | k x where "x \<in> slots" "entry c n = \<lparr>rule_type = type_of k, actual_rule_id = x\<rparr>" "in_map (fam k c) x"
        using acl_invD(4) [OF inv True] unfolding entry_ok_def by blast
      then show ?thesis
      proof cases
        case (2 k x)
        then have "slot (fam k ?c') x = slot (fam k c) x" using other [of x k] r(2) by blast
        then show ?thesis
          using rules_of_entry(1) [OF True, of c k x] rules_of_entry(1) [OF True, of ?c' k x] 2(2) by (simp only: set_fam_rule_map(3))
      qed (simp add: rules_of_entry(2))
    qed (simp add: rules_of_entry(3))
  qed
  ultimately show ?thesis
    using that [OF run] here other maps F(4) by simp
qed

lemma map_new_rule_step:
  assumes inv: "acl_inv c" and n: "n \<in> outers" and r: "r \<in> slots" "\<not> in_map (fam k c) r" and old: "check_old \<Longrightarrow> entry c n = no_entry"
  obtains c' where "map_new_rule E 1 (int n) r k check_old c = Some (0, Some c')" "acl_inv c'"
    "rules_of c' = (rules_of c)(n \<mapsto> (k, rule_cfg (slot (fam k c) r)))"
proof (cases "entry c n = no_entry")
  case True
  obtain c' where c': "map_new_rule E 1 (int n) r k True c = Some (0, Some c')" "attached c k r n c'"
    using attach [OF inv n True r] by blast
  moreover have "map_new_rule E 1 (int n) r k check_old c = map_new_rule E 1 (int n) r k True c"
    by (cases check_old) (simp_all add: map_new_rule_def delete_none [OF inv n True])
  ultimately show ?thesis using that unfolding attached_def by metis
next
  case False
  then have "\<not> check_old" using old by blast
  obtain k0 r0 where e: "entry c n = \<lparr>rule_type = type_of k0, actual_rule_id = r0\<rparr>"
    using acl_invD(4) [OF inv n] False unfolding entry_ok_def by blast
  obtain c1 where c1: "acl_delete_old_map E (Some c) 1 (int n) True = Some (0, Some c1)" "detached c k0 r0 n c1" "r0 \<in> slots" "in_map (fam k0 c) r0"
    using detach [OF inv n e] by blast
  have "k \<noteq> k0 \<or> r \<noteq> r0" using c1(4) r(2) by blast
  moreover have "\<forall>k'. \<forall>x\<in>slots. k' \<noteq> k0 \<or> x \<noteq> r0 \<longrightarrow> slot (fam k' c1) x = slot (fam k' c) x"
    using c1(2) unfolding detached_def by (elim conjE)
  ultimately have "slot (fam k c1) r = slot (fam k c) r" using r(1) by blast
  then have d: "acl_inv c1" "rules_of c1 = (rules_of c)(n := None)" "entry c1 n = no_entry"
    "slot (fam k c1) r = slot (fam k c) r"
    using c1(2) by (simp_all add: detached_def)
  have out: "\<not> in_map (fam k c1) r" using r(2) d(4) by (simp add: in_map_def)
  obtain c' where c': "map_new_rule E 1 (int n) r k True c1 = Some (0, Some c')" "attached c1 k r n c'"
    using attach [OF d(1) n d(3) r(1) out] by blast
  have "map_new_rule E 1 (int n) r k check_old c = Some (0, Some c')"
    using \<open>\<not> check_old\<close> c1(1) c'(1) by (simp add: map_new_rule_def)
  moreover have "rules_of c' = (rules_of c)(n \<mapsto> (k, rule_cfg (slot (fam k c) r)))"
    using c'(2) d(2,4) by (simp add: attached_def)
  moreover have "acl_inv c'" using c'(2) by (simp add: attached_def)
  ultimately show ?thesis by (intro that)
qed

lemma rule_map_type:
  assumes "acl_inv c" "n \<in> outers"
  shows "acl_get_rule_map_type (Some c) 1 (int n) = Some (int (rule_type (entry c n)))"
  using assms(2) acl_invD(1) [OF assms(1)] outers_slots [OF assms(2)]
  by (simp add: acl_get_rule_map_type_def rule_map_at_def arr_simps entry_def)

text \<open>The operation from the search on.\<close>

lemma try_start:
  assumes inv: "acl_inv c" and n: "n \<in> outers" and cfg: "check_tuple_rule_cfg E cfg = 0"
    and old: "check_old \<longrightarrow> entry c n = no_entry"
    and y: "tuple_hash_find_actual E c cfg = Some (int y)" "y = 0 \<or> y \<in> slots"
  shows "tuple_try_map_new_rule E (Some c) 1 (int n) (Some cfg) check_old =
    (if y = 0 then do {
         actual \<leftarrow> tuple_bitmap_get_first_unused (tuple_rule_bitmap (fam (is6_of cfg) c));
         if actual = 0 then Some (FAIL_REASON_RULE_FULL, Some c)
         else do { (ret, c) \<leftarrow> set_tuple_rule_cfg E 1 actual cfg (is6_of cfg) c;
                   if ret \<noteq> 0 then Some (FAIL_REASON_INTERNAL_ERROR, Some c) else map_new_rule E 1 (int n) actual (is6_of cfg) check_old c } }
     else do { duplicate \<leftarrow> tuple_hash_find_outer c y (is6_of cfg);
               if duplicate > 0 then (if duplicate = int n then Some (0, Some c) else Some (duplicate, Some c))
               else map_new_rule E 1 (int n) y (is6_of cfg) check_old c })"
proof -
  have "unat (word_of_int (int y) :: u32) = y" by (rule unat_slot) (use y(2) in blast)
  moreover have "(if check_old then acl_get_rule_map_type (Some c) 1 (int n) else Some 0) = Some 0"
    using rule_map_type [OF inv n] old by (auto simp: no_entry_def)
  ultimately show ?thesis
    using n cfg y(1) by (simp add: tuple_try_map_new_rule_def is6_of_def [symmetric] Let_def del: of_int_of_nat_eq cong: if_cong)
qed

text \<open>The rules of one version are as many as its places in use.\<close>

lemma rules_places:
  assumes inv: "acl_inv c"
  shows "bij_betw (outer_of (fam k c)) {x \<in> slots. in_map (fam k c) x} {n. \<exists>s. rules_of c n = Some (k, s)}"
proof (rule bij_betwI')
  fix x y assume xy: "x \<in> {x \<in> slots. in_map (fam k c) x}" "y \<in> {x \<in> slots. in_map (fam k c) x}"
  have "entry c (outer_of (fam k c) z) = \<lparr>rule_type = type_of k, actual_rule_id = z\<rparr>" if "z \<in> slots" "in_map (fam k c) z" for z
    using acl_invD(3) [OF inv that(1), of k] that(2) unfolding slot_ok_def by blast
  then show "outer_of (fam k c) x = outer_of (fam k c) y \<longleftrightarrow> x = y" using xy by (metis (mono_tags, lifting) mem_Collect_eq sf_rule_map_t.select_convs(2))
next
  fix x assume x: "x \<in> {x \<in> slots. in_map (fam k c) x}"
  then have "outer_of (fam k c) x \<in> outers" "entry c (outer_of (fam k c) x) = \<lparr>rule_type = type_of k, actual_rule_id = x\<rparr>"
    using acl_invD(3) [OF inv, of x k] unfolding slot_ok_def by blast+
  then show "outer_of (fam k c) x \<in> {n. \<exists>s. rules_of c n = Some (k, s)}" using rules_of_entry(1) by blast
next
  fix n assume "n \<in> {n. \<exists>s. rules_of c n = Some (k, s)}"
  then obtain s where n: "rules_of c n = Some (k, s)" by blast
  then have "n \<in> outers" "entry c n \<noteq> no_entry" by (auto simp: rules_of_def no_entry_def acl_consts split: if_splits)
  then obtain k' x where x: "x \<in> slots" "entry c n = \<lparr>rule_type = type_of k', actual_rule_id = x\<rparr>" "in_map (fam k' c) x" "outer_of (fam k' c) x = n"
    using acl_invD(4) [OF inv] unfolding entry_ok_def by blast
  then have "k' = k" using rules_of_entry(1) [OF \<open>n \<in> outers\<close> x(2)] n by simp
  then show "\<exists>x\<in>{x \<in> slots. in_map (fam k c) x}. n = outer_of (fam k c) x" using x by blast
qed

lemma all_used_iff:
  assumes "acl_inv c"
  shows "(\<forall>x\<in>slots. in_map (fam k c) x) \<longleftrightarrow> card {n. \<exists>s. rules_of c n = Some (k, s)} = 2048"
proof -
  have card: "card {n. \<exists>s. rules_of c n = Some (k, s)} = card {x \<in> slots. in_map (fam k c) x}"
    using bij_betw_same_card [OF rules_places [OF assms, of k]] by simp
  have slots: "finite slots" "card slots = 2048" by (simp_all add: slots_def)
  show ?thesis
  proof
    assume "\<forall>x\<in>slots. in_map (fam k c) x"
    then have "{x \<in> slots. in_map (fam k c) x} = slots" by blast
    then show "card {n. \<exists>s. rules_of c n = Some (k, s)} = 2048" using card slots by simp
  next
    assume "card {n. \<exists>s. rules_of c n = Some (k, s)} = 2048"
    then have "card {x \<in> slots. in_map (fam k c) x} = card slots" using card slots by simp
    then have "{x \<in> slots. in_map (fam k c) x} = slots" using slots(1) by (intro card_subset_eq) auto
    then show "\<forall>x\<in>slots. in_map (fam k c) x" by blast
  qed
qed

text \<open>The only ways in which the operation ends, once a search for the fields has returned.\<close>

lemma create_cases:
  assumes inv: "acl_inv c" and ok: "pton_ok E" and n: "n \<in> outers" and cfg: "check_tuple_rule_cfg E cfg = 0"
    and old: "check_old \<longrightarrow> entry c n = no_entry"
    and y: "tuple_hash_find_actual E c cfg = Some (int y)" "y = 0 \<or> y \<in> slots \<and> rule_cfg (slot (fam (is6_of cfg) c) y) = stored_cfg E cfg"
  obtains (full) "tuple_try_map_new_rule E (Some c) 1 (int n) (Some cfg) check_old = Some (FAIL_REASON_RULE_FULL, Some c)"
      "y = 0" "\<forall>x\<in>slots. in_map (fam (is6_of cfg) c) x"
  | (duplicate) m where "tuple_try_map_new_rule E (Some c) 1 (int n) (Some cfg) check_old = Some (if m = n then 0 else int m, Some c)"
      "m \<in> outers" "rules_of c m = Some (is6_of cfg, stored_cfg E cfg)" "y \<noteq> 0" "in_map (fam (is6_of cfg) c) y" "m = outer_of (fam (is6_of cfg) c) y"
  | (new) c' where "tuple_try_map_new_rule E (Some c) 1 (int n) (Some cfg) check_old = Some (0, Some c')"
      "acl_inv c'" "rules_of c' = (rules_of c)(n \<mapsto> (is6_of cfg, stored_cfg E cfg))" "y = 0 \<or> \<not> in_map (fam (is6_of cfg) c) y"
      "y = 0 \<longrightarrow> (\<exists>x\<in>slots. \<not> in_map (fam (is6_of cfg) c) x)"
proof -
  let ?k = "is6_of cfg"
  have ys: "y = 0 \<or> y \<in> slots" using y(2) by blast
  note start = try_start [OF inv n cfg old y(1) ys]
  show ?thesis
  proof (cases "y = 0")
    case True
    obtain r where r: "tuple_bitmap_get_first_unused (tuple_rule_bitmap (fam ?k c)) = Some r"
      "r = 0 \<Longrightarrow> \<forall>x\<in>slots. used (fam ?k c) x" "r \<noteq> 0 \<Longrightarrow> r \<in> slots \<and> \<not> used (fam ?k c) r"
      using first_unused_spec [OF acl_invD(2) [OF inv]] by metis
    have used_map: "used (fam ?k c) x = in_map (fam ?k c) x" if "x \<in> slots" for x
      using acl_invD(3) [OF inv that, of ?k] unfolding slot_ok_def by blast
    show ?thesis
    proof (cases "r = 0")
      case True
      then show ?thesis using full start r(1,2) used_map \<open>y = 0\<close> by simp
    next
      case False
      then have free: "r \<in> slots" "\<not> in_map (fam ?k c) r" using r(3) used_map by blast+
      obtain c1 where c1: "set_tuple_rule_cfg E 1 r cfg ?k c = Some (0, c1)" "acl_inv c1" "rules_of c1 = rules_of c"
        "rule_cfg (slot (fam ?k c1) r) = stored_cfg E cfg" "\<forall>k. \<forall>x\<in>slots. in_map (fam k c1) x = in_map (fam k c) x"
        "\<forall>m. entry c1 m = entry c m"
        using set_cfg [OF inv free cfg ok] by metis
      have out: "\<not> in_map (fam ?k c1) r" using c1(5) free by blast
      obtain c' where c': "map_new_rule E 1 (int n) r ?k check_old c1 = Some (0, Some c')" "acl_inv c'"
        "rules_of c' = (rules_of c1)(n \<mapsto> (?k, rule_cfg (slot (fam ?k c1) r)))"
        using map_new_rule_step [OF c1(2) n free(1) out] c1(6) old by metis
      have "tuple_try_map_new_rule E (Some c) 1 (int n) (Some cfg) check_old = Some (0, Some c')"
        using start \<open>y = 0\<close> r(1) False c1(1) c'(1) by simp
      then show ?thesis using new c'(2,3) c1(3,4) \<open>y = 0\<close> free by auto
    qed
  next
    case False
    then have ys: "y \<in> slots" "rule_cfg (slot (fam ?k c) y) = stored_cfg E cfg" using y(2) by blast+
    have dup: "tuple_hash_find_outer c y ?k = Some (if in_map (fam ?k c) y then int (outer_of (fam ?k c) y) else 0)"
      using False ys(1) acl_invD(2) [OF inv] by (simp add: tuple_hash_find_outer_def rule_at_in in_map_def outer_of_def)
    show ?thesis
    proof (cases "in_map (fam ?k c) y")
      case True
      let ?m = "outer_of (fam ?k c) y"
      have m: "?m \<in> outers" "entry c ?m = \<lparr>rule_type = type_of ?k, actual_rule_id = y\<rparr>"
        using acl_invD(3) [OF inv ys(1), of ?k] True unfolding slot_ok_def by blast+
      then have "0 < ?m" by (simp add: outers_def)
      then have "tuple_try_map_new_rule E (Some c) 1 (int n) (Some cfg) check_old = Some (if ?m = n then 0 else int ?m, Some c)"
        using start False dup True by simp
      then show ?thesis using duplicate m rules_of_entry(1) [OF m] ys(2) False True by metis
    next
      case out: False
      obtain c' where c': "map_new_rule E 1 (int n) y ?k check_old c = Some (0, Some c')" "acl_inv c'"
        "rules_of c' = (rules_of c)(n \<mapsto> (?k, rule_cfg (slot (fam ?k c) y)))"
        using map_new_rule_step [OF inv n ys(1) out] old by metis
      have "tuple_try_map_new_rule E (Some c) 1 (int n) (Some cfg) check_old = Some (0, Some c')"
        using start False dup out c'(1) by simp
      then show ?thesis using new c'(2,3) ys(2) out False by simp
    qed
  qed
qed

section \<open>Properties\<close>

text \<open>Reading back the configuration of a rule.\<close>

definition shown_cfg :: "acl_env \<Rightarrow> bool \<Rightarrow> sf_tuple46_rule_cfg_t \<Rightarrow> sf_tuple_rule_cfg_t" where
  "shown_cfg E k s = \<lparr>sport_min = sport_min s, sport_max = sport_max s, dport_min = dport_min s, dport_max = dport_max s,
     proto_min = proto_min s, proto_max = proto_max s, sip_mask = sip_mask s, dip_mask = dip_mask s,
     is_ipv6 = (if k then 1 else 0), sip_str = inet_ntop E k (sip_bytes s), dip_str = inet_ntop E k (dip_bytes s)\<rparr>"

definition good_rule_id :: "int \<Rightarrow> int \<Rightarrow> bool" where
  "good_rule_id group_id outer \<longleftrightarrow> group_id = 1 \<and> 1 \<le> outer \<and> outer \<le> 4096"

lemma good_rule_id_iff: "good_rule_id g r \<longleftrightarrow> \<not> (bad_group g \<or> bad_outer r)"
  by (auto simp: good_rule_id_def bad_group_def bad_outer_def acl_consts)

lemma good_rule_idE:
  assumes "good_rule_id g r" obtains n where "g = 1" "r = int n" "n \<in> outers"
  using assms by (auto simp: good_rule_id_def outers_def intro!: that [of "nat r"])

lemma get_rule:
  assumes "acl_inv c"
  shows "get_tuple_rule_cfg E (Some c) g r (Some out) =
    Some (case (if good_rule_id g r then rules_of c (nat r) else None) of
            None \<Rightarrow> (-1, Some out) | Some (k, s) \<Rightarrow> (0, Some (shown_cfg E k s)))"
proof (cases "good_rule_id g r")
  case True
  then obtain n where n: "g = 1" "r = int n" "n \<in> outers" by (rule good_rule_idE)
  have i: "n - 1 < length (rule_map c)" using acl_invD(1) [OF assms] outers_slots [OF n(3)] by simp
  have read: "rule_map_at c (int n) = Some (entry c n)" using i outers_slots(1) [OF n(3)] by (simp add: rule_map_at_def arr_simps entry_def)
  consider "entry c n = no_entry" | k x where "x \<in> slots" "entry c n = \<lparr>rule_type = type_of k, actual_rule_id = x\<rparr>"
    using acl_invD(4) [OF assms n(3)] unfolding entry_ok_def by blast
  then show ?thesis
  proof cases
    case 1
    then show ?thesis
      using n True read by (simp add: get_tuple_rule_cfg_def rules_of_entry(2)) (simp add: no_entry_def acl_consts)
  next
    case (2 k x)
    then show ?thesis
      using n True read acl_invD(2) [OF assms, of k]
      by (cases k) (simp_all add: get_tuple_rule_cfg_def rules_of_entry(1) get_tuple_rule_cfg_inline_def rule_at_in shown_cfg_def Let_def)
  qed
next
  case False
  then show ?thesis by (auto simp: get_tuple_rule_cfg_def good_rule_id_iff)
qed

lemma delete_rule:
  assumes "acl_inv c"
  shows "\<exists>ret c'. acl_delete_old_map E (Some c) g r no_check = Some (ret, Some c') \<and> acl_inv c'
    \<and> (ret = 0 \<longleftrightarrow> good_rule_id g r \<and> (no_check \<or> rules_of c (nat r) \<noteq> None))
    \<and> rules_of c' = (if ret = 0 then (rules_of c)(nat r := None) else rules_of c)"
proof (cases "good_rule_id g r")
  case True
  then obtain n where n: "g = 1" "r = int n" "n \<in> outers" by (rule good_rule_idE)
  consider "entry c n = no_entry" | k x where "entry c n = \<lparr>rule_type = type_of k, actual_rule_id = x\<rparr>"
    using acl_invD(4) [OF assms n(3)] unfolding entry_ok_def by blast
  then show ?thesis
  proof cases
    case 1
    then have "rules_of c n = None" by (rule rules_of_entry(2))
    then show ?thesis
      using delete_none [OF assms n(3) 1, of E no_check] True assms n(1,2) by (cases no_check) auto
  next
    case (2 k x)
    obtain c' where "acl_delete_old_map E (Some c) 1 (int n) no_check = Some (0, Some c')" "detached c k x n c'"
      using detach [OF assms n(3) 2] by blast
    then show ?thesis using rules_of_entry(1) [OF n(3) 2] True n(1,2) by (auto simp: detached_def)
  qed
next
  case False
  then show ?thesis using assms by (auto simp: acl_delete_old_map_def good_rule_id_iff)
qed

definition zero_cfg :: "bool \<Rightarrow> sf_tuple46_rule_cfg_t" where
  "zero_cfg k = \<lparr>sport_min = 0, sport_max = 0, dport_min = 0, dport_max = 0, proto_min = 0, proto_max = 0, sip_mask = 0, dip_mask = 0,
     sip_bytes = replicate (addr_len k) 0, dip_bytes = replicate (addr_len k) 0\<rparr>"

definition zero_family :: "bool \<Rightarrow> acl_family" where
  "zero_family k = \<lparr>tuple_rule_bitmap = replicate 32 0, tuple_hash = zero_table 256 2048,
     tuple_rules = replicate 2048 \<lparr>map_rule = zero_map_rule, rule_cfg = zero_cfg k\<rparr>\<rparr>"

text \<open>The memory of the configuration after \<open>sf_memset_zero\<close>.\<close>

definition zero_conf :: "int \<Rightarrow> int \<Rightarrow> acl_conf" where
  "zero_conf flag cnt = \<lparr>acl_sync_flag = flag, acl_sync_times = cnt, rule_map = replicate 4096 no_entry,
     family_v4 = zero_family False, family_v6 = zero_family True\<rparr>"

lemma zero_conf_inv: "acl_inv (zero_conf flag cnt)" "rules_of (zero_conf flag cnt) = Map.empty"
proof -
  let ?c = "zero_conf flag cnt"
  have f: "fam k ?c = zero_family k" for k by (simp add: fam_def zero_conf_def)
  have e: "entry ?c n = no_entry" if "n \<in> outers" for n
    using outers_slots(2) [OF that] by (simp add: entry_def zero_conf_def nth_replicate)
  have s: "slot (zero_family k) r = \<lparr>map_rule = zero_map_rule, rule_cfg = zero_cfg k\<rparr>" if "r \<in> slots" for k r
    using that by (auto simp: slot_def zero_family_def slots_def)
  have u: "\<not> used (zero_family k) r" if "r \<in> slots" for k r
    using slot_word [OF that] by (simp add: used_def zero_family_def)
  have shape: "shape_ok (zero_family k)" for k
    by (simp add: shape_ok_def zero_family_def links_ok_def zero_table_def)
  show "acl_inv ?c"
    unfolding acl_inv_def f
  proof (intro conjI allI ballI)
    show "length (rule_map ?c) = 4096" by (simp add: zero_conf_def)
    show "shape_ok (zero_family k)" for k by (rule shape)
    show "slot_ok ?c k r" if "r \<in> slots" for k r
      using s [OF that] u [OF that] by (simp add: slot_ok_def f in_map_def zero_map_rule_def zero_cfg_def cfg_ok_def)
    show "entry_ok ?c n" if "n \<in> outers" for n using e [OF that] by (simp add: entry_ok_def)
  qed
  show "rules_of ?c = Map.empty"
    using rules_of_entry(2,3) e by blast
qed

text \<open>
  The numbers on the list of a bucket, in the order of the links, and the place that the search for the fields of a rule
  must stop at: the first one with these fields, or 0 where the list ends before.  A list may have neither: its links form a
  cycle on which no rule has the fields.
\<close>

fun acl_chain_at :: "acl_table \<Rightarrow> nat \<Rightarrow> nat \<Rightarrow> nat" where
  "acl_chain_at t b 0 = hash_next_rule (hash_buckets t ! b)"
| "acl_chain_at t b (Suc i) = hash_next (hash_nodes t ! (acl_chain_at t b i - 1))"

definition same_fields :: "acl_env \<Rightarrow> acl_conf \<Rightarrow> sf_tuple_rule_cfg_t \<Rightarrow> nat \<Rightarrow> bool" where
  "same_fields E c rc x \<longleftrightarrow> rule_cfg (slot (fam (is6_of rc) c) x) = stored_cfg E rc"

definition acl_bucket_of :: "acl_env \<Rightarrow> sf_tuple_rule_cfg_t \<Rightarrow> nat" where
  "acl_bucket_of E rc = acl_hash_index (get_hash_index E) (cfg_bytes (stored_cfg E rc)) 256"

definition first_match :: "acl_env \<Rightarrow> acl_conf \<Rightarrow> sf_tuple_rule_cfg_t \<Rightarrow> nat \<Rightarrow> bool" where
  "first_match E c rc y \<longleftrightarrow>
    (let t = tuple_hash (fam (is6_of rc) c); at = acl_chain_at t (acl_bucket_of E rc)
     in if node_cnt (hash_buckets t ! acl_bucket_of E rc) = 0 then y = 0
        else \<exists>i. y = at i \<and> (\<forall>j<i. at j \<noteq> 0 \<and> \<not> same_fields E c rc (at j)) \<and> (y = 0 \<or> same_fields E c rc y))"

text \<open>
  What creating a rule must give, as an operation on the map of the rules: a reason for every unacceptable argument; no
  return exactly if the search has no end; a positive number if the fields are there under another outer number (0 under this one);
  a reason if no place of the version is left; and otherwise 0 and the rule in the map.
\<close>

definition create_spec ::
  "acl_env \<Rightarrow> acl_conf \<Rightarrow> int \<Rightarrow> int \<Rightarrow> sf_tuple_rule_cfg_t option \<Rightarrow> bool \<Rightarrow> (int \<times> acl_conf option) option \<Rightarrow> bool" where
  "create_spec E c g r cfg check_old res \<longleftrightarrow>
    (if \<not> good_rule_id g r then res = Some (FAIL_REASON_INVALID_ID, Some c)
     else case cfg of
       None \<Rightarrow> res = Some (FAIL_REASON_INTERNAL_ERROR, Some c)
     | Some rc \<Rightarrow>
         if check_old \<and> rules_of c (nat r) \<noteq> None then res = Some (FAIL_REASON_OLD_RULE_EXIST, Some c)
         else if check_tuple_rule_cfg E rc \<noteq> 0 then res = Some (FAIL_REASON_INVALID_CFG, Some c)
         else if \<nexists>y. first_match E c rc y then res = None
         else \<exists>y. first_match E c rc y \<and>
           (if y \<noteq> 0 \<and> in_map (fam (is6_of rc) c) y
            then \<exists>m>0. res = Some (if m = nat r then 0 else int m, Some c) \<and> rules_of c m = Some (is6_of rc, stored_cfg E rc)
            else if y = 0 \<and> card {n. \<exists>s. rules_of c n = Some (is6_of rc, s)} = 2048 then res = Some (FAIL_REASON_RULE_FULL, Some c)
            else \<exists>c'. res = Some (0, Some c') \<and> acl_inv c' \<and> rules_of c' = (rules_of c)(nat r \<mapsto> (is6_of rc, stored_cfg E rc))))"

lemma acl_chain_step:
  assumes "links_ok t" "b < 256"
  shows "acl_chain_at t b i \<le> 2048"
proof (induction i)
  case 0
  then show ?case using assms links_okD(4) [OF assms(1)] by (simp add: links_ok_def)
next
  case (Suc i)
  then have "acl_chain_at t b i - 1 < length (hash_nodes t)" using assms(1) by (simp add: links_ok_def)
  then show ?case using assms(1) by (simp add: links_ok_def)
qed

lemma find_loop_chain:
  assumes links: "links_ok t" and b: "b < 256" and cmp: "\<And>x. x \<in> slots \<Longrightarrow> cmp x = Some (same x)"
    and before: "\<forall>j<i. acl_chain_at t b (k + j) \<noteq> 0 \<and> \<not> same (acl_chain_at t b (k + j))"
    and last: "acl_chain_at t b (k + i) = 0 \<or> same (acl_chain_at t b (k + i))"
  shows "acl_find_loop t cmp (acl_chain_at t b k) = Some (acl_chain_at t b (k + i))"
  using before last
proof (induction i arbitrary: k)
  case 0
  then show ?case
    using cmp [of "acl_chain_at t b k"] acl_chain_step [OF links b, of k]
    by (cases "acl_chain_at t b k = 0") (simp_all add: acl_find_loop.simps [of t cmp "acl_chain_at t b k"] acl_find_loop.simps [of t cmp 0] slots_def)
next
  case (Suc i)
  have x: "acl_chain_at t b k \<noteq> 0" "\<not> same (acl_chain_at t b k)" using Suc.prems(1) by fastforce+
  then have "acl_chain_at t b k \<in> slots" using acl_chain_step [OF links b, of k] by (simp add: slots_def)
  moreover have "\<forall>j<i. acl_chain_at t b (Suc k + j) \<noteq> 0 \<and> \<not> same (acl_chain_at t b (Suc k + j))"
    using Suc.prems(1) by (metis Suc_mono add_Suc_right add_Suc)
  then have "acl_find_loop t cmp (acl_chain_at t b (Suc k)) = Some (acl_chain_at t b (Suc k + i))"
    by (rule Suc.IH) (use Suc.prems(2) in simp)
  ultimately show ?case
    using x cmp links_okD(1) [OF links] by (simp add: acl_find_loop.simps [of t cmp "acl_chain_at t b k"] node_at_in)
qed

lemma find_loop_endless:
  assumes links: "links_ok t" and b: "b < 256" and cmp: "\<And>x. x \<in> slots \<Longrightarrow> cmp x = Some (same x)"
    and never: "\<forall>i. acl_chain_at t b i \<noteq> 0 \<and> \<not> same (acl_chain_at t b i)"
  shows "acl_find_loop t cmp (acl_chain_at t b 0) = None"
proof (rule find_loop_closed [where C = "range (acl_chain_at t b)"])
  fix x assume "x \<in> range (acl_chain_at t b)"
  then obtain i where i: "x = acl_chain_at t b i" by blast
  then have "x \<in> slots" using never acl_chain_step [OF links b, of i] by (metis One_nat_def Suc_leI atLeastAtMost_iff neq0_conv slots_def)
  moreover have "hash_next (hash_nodes t ! (x - 1)) = acl_chain_at t b (Suc i)" using i by simp
  then have "hash_next (hash_nodes t ! (x - 1)) \<in> range (acl_chain_at t b)" by blast
  moreover have "\<not> same x" using i never by blast
  ultimately show "x \<in> rule_ids t \<and> cmp x = Some False \<and> hash_next (hash_nodes t ! (x - 1)) \<in> range (acl_chain_at t b)"
    using cmp links_okD(1) [OF links] by simp
qed (rule rangeI)

lemma chain_stops:
  assumes "\<not> (\<forall>i::nat. f i \<noteq> (0::nat) \<and> \<not> same (f i))"
  obtains i where "\<forall>j<i. f j \<noteq> 0 \<and> \<not> same (f j)" "f i = 0 \<or> same (f i)"
proof -
  from assms obtain k where k: "f k = 0 \<or> same (f k)" by auto
  obtain i where i: "f i = 0 \<or> same (f i)" "\<And>j. j < i \<Longrightarrow> \<not> (f j = 0 \<or> same (f j))"
    using exists_least_iff [of "\<lambda>i. f i = 0 \<or> same (f i)"] k by metis
  show ?thesis by (rule that [of i]) (use i in auto)
qed

text \<open>The search of the code returns what it must stop at, and does not return if there is nothing to stop at.\<close>

lemma find_actual_first:
  assumes inv: "acl_inv c" and ok: "pton_ok E" and cfg: "check_tuple_rule_cfg E rc = 0"
  shows "(\<exists>y. tuple_hash_find_actual E c rc = Some (int y) \<and> (\<forall>z. first_match E c rc z \<longleftrightarrow> z = y))
    \<or> tuple_hash_find_actual E c rc = None \<and> (\<forall>z. \<not> first_match E c rc z)"
proof -
  let ?F = "fam (is6_of rc) c" and ?key = "cfg_bytes (stored_cfg E rc)"
  let ?t = "tuple_hash ?F" and ?b = "acl_bucket_of E rc" and ?cmp = "tuple_rule_cfg_cmp ?F ?key"
  let ?at = "acl_chain_at ?t ?b" and ?same = "same_fields E c rc"
  have shape: "shape_ok ?F" by (rule acl_invD(2) [OF inv])
  then have links: "links_ok ?t" by (simp add: shape_ok_def)
  have b: "?b < 256" by (simp add: acl_bucket_of_def index_less)
  have same: "cfg_bytes (rule_cfg (slot ?F x)) = ?key \<longleftrightarrow> ?same x" if "x \<in> slots" for x
  proof
    have "length (sip_bytes (rule_cfg (slot ?F x))) = length (sip_bytes (stored_cfg E rc))"
      using acl_invD(3) [OF inv that, of "is6_of rc"] unfolding slot_ok_def cfg_ok_def stored_cfg_lengths [OF cfg ok] by blast
    then show "?same x" if "cfg_bytes (rule_cfg (slot ?F x)) = ?key"
      using cfg_bytes_inj [OF that] by (simp only: same_fields_def)
  qed (simp add: same_fields_def)
  have cmp: "?cmp x = Some (?same x)" if "x \<in> slots" for x
    using same [OF that] rule_at_in [OF shape that] by (simp add: tuple_rule_cfg_cmp_def)
  have find: "tuple_hash_find_actual E c rc =
    map_option int (if node_cnt (hash_buckets ?t ! ?b) = 0 then Some 0 else acl_find_loop ?t ?cmp (?at 0))"
    using b links_okD(4) [OF links] unfolding find_actual_eq [OF cfg]
    by (simp add: acl_hash_find_def arr_simps acl_bucket_of_def [symmetric])
  consider (empty) "node_cnt (hash_buckets ?t ! ?b) = 0"
    | (endless) "node_cnt (hash_buckets ?t ! ?b) \<noteq> 0" "\<forall>i. ?at i \<noteq> 0 \<and> \<not> ?same (?at i)"
    | (stops) i where "node_cnt (hash_buckets ?t ! ?b) \<noteq> 0" "\<forall>j<i. ?at j \<noteq> 0 \<and> \<not> ?same (?at j)" "?at i = 0 \<or> ?same (?at i)"
    using chain_stops [of ?at ?same] by blast
  then show ?thesis
  proof cases
    case empty
    then show ?thesis using find by (intro disjI1 exI [of _ 0]) (simp add: first_match_def Let_def)
  next
    case endless
    then have "tuple_hash_find_actual E c rc = None"
      using find find_loop_endless [OF links b cmp endless(2)] by simp
    moreover have "\<forall>z. \<not> first_match E c rc z" using endless by (auto simp: first_match_def Let_def)
    ultimately show ?thesis by blast
  next
    case (stops i)
    have "acl_find_loop ?t ?cmp (?at 0) = Some (?at i)"
      using find_loop_chain [of ?t ?b ?cmp ?same i 0, OF links b cmp] stops(2,3) by simp
    then have "tuple_hash_find_actual E c rc = Some (int (?at i))" using find stops(1) by simp
    moreover have "first_match E c rc z \<longleftrightarrow> z = ?at i" for z
    proof
      assume "first_match E c rc z"
      then obtain k where k: "z = ?at k" "\<forall>j<k. ?at j \<noteq> 0 \<and> \<not> ?same (?at j)" "z = 0 \<or> ?same z"
        using stops(1) by (auto simp: first_match_def Let_def)
      have "k = i" using k stops(2,3) by (metis linorder_neqE_nat)
      then show "z = ?at i" using k(1) by simp
    next
      assume "z = ?at i"
      then show "first_match E c rc z" using stops by (auto simp: first_match_def Let_def)
    qed
    ultimately show ?thesis by blast
  qed
qed

lemma zero_conf_match: "first_match E (zero_conf flag cnt) rc 0"
proof -
  have "acl_bucket_of E rc < 256" by (simp add: acl_bucket_of_def index_less)
  then show ?thesis by (simp add: first_match_def Let_def fam_def zero_conf_def zero_family_def zero_table_def)
qed

text \<open>With valid numbers and fields, after the check for an old rule.\<close>

lemma create_late:
  assumes inv: "acl_inv c" and ok: "pton_ok E" and n: "n \<in> outers" and cfg: "check_tuple_rule_cfg E rc = 0"
    and old: "check_old \<longrightarrow> entry c n = no_entry" and y: "tuple_hash_find_actual E c rc = Some (int y)"
  shows "if y \<noteq> 0 \<and> in_map (fam (is6_of rc) c) y
      then \<exists>m>0. tuple_try_map_new_rule E (Some c) 1 (int n) (Some rc) check_old = Some (if m = n then 0 else int m, Some c)
        \<and> rules_of c m = Some (is6_of rc, stored_cfg E rc)
      else if y = 0 \<and> card {n. \<exists>s. rules_of c n = Some (is6_of rc, s)} = 2048
        then tuple_try_map_new_rule E (Some c) 1 (int n) (Some rc) check_old = Some (FAIL_REASON_RULE_FULL, Some c)
      else \<exists>c'. tuple_try_map_new_rule E (Some c) 1 (int n) (Some rc) check_old = Some (0, Some c') \<and> acl_inv c'
        \<and> rules_of c' = (rules_of c)(n \<mapsto> (is6_of rc, stored_cfg E rc))"
proof -
  note full_iff = all_used_iff [OF inv, of "is6_of rc"]
  have ys: "y = 0 \<or> y \<in> slots \<and> rule_cfg (slot (fam (is6_of rc) c) y) = stored_cfg E rc"
    by (rule find_actual_sound [OF inv cfg ok y]) auto
  show ?thesis
  proof (cases rule: create_cases [OF inv ok n cfg old y ys, case_names full duplicate new])
    case full
    then show ?thesis using full_iff by simp
  next
    case (duplicate m)
    moreover have "0 < m" using duplicate(2) by (simp add: outers_def)
    ultimately show ?thesis by auto
  next
    case (new c')
    then show ?thesis using full_iff by auto
  qed
qed

lemma create_spec_late:
  assumes "good_rule_id g r" "\<not> (check_old \<and> rules_of c (nat r) \<noteq> None)" "check_tuple_rule_cfg E rc = 0" "\<forall>z. first_match E c rc z \<longleftrightarrow> z = y"
  shows "create_spec E c g r (Some rc) check_old res \<longleftrightarrow>
    (if y \<noteq> 0 \<and> in_map (fam (is6_of rc) c) y
     then \<exists>m>0. res = Some (if m = nat r then 0 else int m, Some c) \<and> rules_of c m = Some (is6_of rc, stored_cfg E rc)
     else if y = 0 \<and> card {n. \<exists>s. rules_of c n = Some (is6_of rc, s)} = 2048 then res = Some (FAIL_REASON_RULE_FULL, Some c)
     else \<exists>c'. res = Some (0, Some c') \<and> acl_inv c' \<and> rules_of c' = (rules_of c)(nat r \<mapsto> (is6_of rc, stored_cfg E rc)))"
proof -
  have pass: "(check_old \<and> rules_of c (nat r) \<noteq> None) = False" "(\<nexists>y. first_match E c rc y) = False" "(\<not> good_rule_id g r) = False"
    "(check_tuple_rule_cfg E rc \<noteq> 0) = False"
    using assms by simp_all
  show ?thesis
    unfolding create_spec_def option.case pass if_False unfolding assms(4) [rule_format] by (simp only: simp_thms)
qed

lemma create_step:
  assumes inv: "acl_inv c" and ok: "pton_ok E"
  shows "create_spec E c g r cfg check_old (tuple_try_map_new_rule E (Some c) g r cfg check_old)"
proof (cases "good_rule_id g r \<and> cfg \<noteq> None")
  case False
  then consider "\<not> good_rule_id g r" | "good_rule_id g r" "cfg = None" by blast
  then show ?thesis
    by cases (auto simp: create_spec_def tuple_try_map_new_rule_def good_rule_id_iff)
next
  case True
  then obtain n rc where n: "g = 1" "r = int n" "n \<in> outers" "cfg = Some rc" by (auto elim: good_rule_idE)
  have good: "good_rule_id 1 (int n)" "\<not> bad_group 1" "\<not> bad_outer (int n)" using True n by (auto simp: good_rule_id_iff)
  note type = rule_map_type [OF inv n(3)]
  have old: "rules_of c n \<noteq> None \<longleftrightarrow> 0 < rule_type (entry c n)" "rules_of c n = None \<longleftrightarrow> entry c n = no_entry"
    using acl_invD(4) [OF inv n(3)] rules_of_entry(1) [OF n(3)] rules_of_entry(2) [of c n]
    unfolding entry_ok_def by (auto simp: no_entry_def type_of_def acl_consts)
  have nat_n: "nat (int n) = n" by simp
  consider (old) "check_old" "rules_of c n \<noteq> None" | (bad) "\<not> (check_old \<and> rules_of c n \<noteq> None)" "check_tuple_rule_cfg E rc \<noteq> 0"
    | (late) "\<not> (check_old \<and> rules_of c n \<noteq> None)" "check_tuple_rule_cfg E rc = 0" by blast
  then show ?thesis
  proof cases
    case old
    then show ?thesis
      using type good n(4) \<open>rules_of c n \<noteq> None \<longleftrightarrow> 0 < rule_type (entry c n)\<close>
      unfolding n(1,2) by (simp add: create_spec_def tuple_try_map_new_rule_def)
  next
    case bad
    then show ?thesis
      using type good n(4) old(1)
      unfolding n(1,2) by (cases check_old) (simp_all add: create_spec_def tuple_try_map_new_rule_def)
  next
    case late
    then have gone: "check_old \<longrightarrow> entry c n = no_entry" using old(2) by blast
    have not_old: "\<not> (check_old \<and> rules_of c (nat (int n)) \<noteq> None)" using late(1) by simp
    consider y where "tuple_hash_find_actual E c rc = Some (int y)" "\<forall>z. first_match E c rc z \<longleftrightarrow> z = y"
      | "tuple_hash_find_actual E c rc = None" "\<forall>z. \<not> first_match E c rc z"
      using find_actual_first [OF inv ok late(2)] by (elim disjE exE conjE) (rule that; assumption)+
    then show ?thesis
    proof cases
      case (1 y)
      show ?thesis
        using create_late [OF inv ok n(3) late(2) gone 1(1)]
        unfolding n(1,2,4) create_spec_late [OF good(1) not_old late(2) 1(2)] nat_n by assumption
    next
      case 2
      then have "tuple_try_map_new_rule E (Some c) 1 (int n) (Some rc) check_old = None"
        using type good late old(1) by (cases check_old) (simp_all add: tuple_try_map_new_rule_def Let_def)
      moreover have "(\<nexists>y. first_match E c rc y) = True" "(check_old \<and> rules_of c (nat (int n)) \<noteq> None) = False"
        "(\<not> good_rule_id 1 (int n)) = False" "(check_tuple_rule_cfg E rc \<noteq> 0) = False"
        using 2(2) late(2) good(1) not_old by simp_all
      ultimately show ?thesis unfolding n(1,2,4) create_spec_def option.case by (simp only: if_True if_False)
    qed
  qed
qed

text \<open>C13: The operations on rules, with their array of places, bitmap, hash table and two-way map, are operations on a finite map from outer
  numbers to rules, and keep these structures consistent, even if the lists of the hash table are in disorder.  Creating a rule gives
  exactly what \<open>create_spec\<close> says: a reason for arguments that are not valid or an outer number in use; the other outer number under which the
  same fields are found; a reason if all places of the IP version are taken; and otherwise 0, with the outer number mapped
  to the fields given.  It does not return exactly if the list searched is a cycle without these fields (deleting rules can leave such lists).
  Deleting always returns and removes exactly the outer number; reading shows exactly what the map holds.  The zeroed configuration is
  the empty map, and creating a valid rule in it returns.
\<close>

theorem acl_rules_refine:
  assumes "acl_inv c" "pton_ok E"
  shows "(\<forall>g r cfg check_old. create_spec E c g r cfg check_old (tuple_try_map_new_rule E (Some c) g r cfg check_old))
    \<and> (\<forall>g r no_check. \<exists>ret c'. acl_delete_old_map E (Some c) g r no_check = Some (ret, Some c') \<and> acl_inv c'
        \<and> (ret = 0 \<longleftrightarrow> good_rule_id g r \<and> (no_check \<or> rules_of c (nat r) \<noteq> None))
        \<and> rules_of c' = (if ret = 0 then (rules_of c)(nat r := None) else rules_of c))
    \<and> (\<forall>g r out. get_tuple_rule_cfg E (Some c) g r (Some out) =
        Some (case (if good_rule_id g r then rules_of c (nat r) else None) of
                None \<Rightarrow> (-1, Some out) | Some (k, s) \<Rightarrow> (0, Some (shown_cfg E k s))))
    \<and> (\<forall>flag cnt. acl_inv (zero_conf flag cnt) \<and> rules_of (zero_conf flag cnt) = Map.empty
        \<and> (\<forall>rc. first_match E (zero_conf flag cnt) rc 0))"
  by (intro conjI allI impI create_step [OF assms] delete_rule [OF assms(1)] get_rule [OF assms(1)] zero_conf_inv zero_conf_match)

section \<open>Creating rules in a table in order\<close>

text \<open>The hash tables are in order and hold exactly the rules that the maps know.\<close>

definition hash_ok :: "acl_env \<Rightarrow> acl_conf \<Rightarrow> bool \<Rightarrow> bool" where
  "hash_ok E c k \<longleftrightarrow> (\<exists>L. acl_lists (get_hash_index E) (\<lambda>r. cfg_bytes (rule_cfg (slot (fam k c) r))) (tuple_hash (fam k c)) L
     \<and> stored (tuple_hash (fam k c)) L = {r \<in> slots. in_map (fam k c) r})"

lemma acl_lists_cong:
  assumes "acl_lists crc key t L" "\<And>r. r \<in> stored t L \<Longrightarrow> key' r = key r"
  shows "acl_lists crc key' t L"
  using assms unfolding acl_lists_def stored_def by fastforce

lemma hash_ok_find:
  assumes inv: "acl_inv c" and ok: "pton_ok E" and cfg: "check_tuple_rule_cfg E cfg = 0" and hash: "hash_ok E c (is6_of cfg)"
  obtains y where "tuple_hash_find_actual E c cfg = Some (int y)"
    "y \<noteq> 0 \<Longrightarrow> y \<in> slots \<and> in_map (fam (is6_of cfg) c) y \<and> rule_cfg (slot (fam (is6_of cfg) c) y) = stored_cfg E cfg"
    "y = 0 \<Longrightarrow> \<forall>x\<in>slots. in_map (fam (is6_of cfg) c) x \<longrightarrow> rule_cfg (slot (fam (is6_of cfg) c) x) \<noteq> stored_cfg E cfg"
proof -
  let ?F = "fam (is6_of cfg) c" and ?key = "cfg_bytes (stored_cfg E cfg)"
  have shape: "shape_ok ?F" by (rule acl_invD(2) [OF inv])
  then have links: "links_ok (tuple_hash ?F)" by (simp add: shape_ok_def)
  obtain L where L: "acl_lists (get_hash_index E) (\<lambda>r. cfg_bytes (rule_cfg (slot ?F r))) (tuple_hash ?F) L"
    "stored (tuple_hash ?F) L = {r \<in> slots. in_map ?F r}"
    using hash unfolding hash_ok_def by blast
  have cmp: "\<forall>r\<in>rule_ids (tuple_hash ?F). tuple_rule_cfg_cmp ?F ?key r = Some (cfg_bytes (rule_cfg (slot ?F r)) = ?key)"
    using links_okD(1) [OF links] rule_at_in [OF shape] by (simp add: tuple_rule_cfg_cmp_def)
  obtain y where y: "acl_hash_find (get_hash_index E) (tuple_hash ?F) 256 ?key (tuple_rule_cfg_cmp ?F ?key) = Some y"
    "y = 0 \<Longrightarrow> \<forall>x\<in>stored (tuple_hash ?F) L. cfg_bytes (rule_cfg (slot ?F x)) \<noteq> ?key"
    "y \<noteq> 0 \<Longrightarrow> y \<in> stored (tuple_hash ?F) L \<and> cfg_bytes (rule_cfg (slot ?F y)) = ?key"
    using hash_find_stored [OF L(1) cmp] links_okD(4) [OF links] by metis
  have same: "cfg_bytes (rule_cfg (slot ?F x)) = ?key \<longleftrightarrow> rule_cfg (slot ?F x) = stored_cfg E cfg" if "x \<in> slots" for x
  proof
    assume eq: "cfg_bytes (rule_cfg (slot ?F x)) = ?key"
    have "length (sip_bytes (rule_cfg (slot ?F x))) = addr_len (is6_of cfg)"
      using acl_invD(3) [OF inv that, of "is6_of cfg"] unfolding slot_ok_def cfg_ok_def by blast
    then show "rule_cfg (slot ?F x) = stored_cfg E cfg"
      by (intro cfg_bytes_inj [OF eq]) (simp only: stored_cfg_lengths [OF cfg ok])
  qed simp
  show ?thesis
  proof (rule that)
    show "tuple_hash_find_actual E c cfg = Some (int y)" using y(1) by (simp add: find_actual_eq [OF cfg])
    show "y \<in> slots \<and> in_map ?F y \<and> rule_cfg (slot ?F y) = stored_cfg E cfg" if "y \<noteq> 0"
      using y(3) [OF that] same [of y] unfolding L(2) by blast
    show "\<forall>x\<in>slots. in_map ?F x \<longrightarrow> rule_cfg (slot ?F x) \<noteq> stored_cfg E cfg" if "y = 0"
      using y(2) [OF that] same unfolding L(2) by blast
  qed
qed

text \<open>The new rule is added to the lists of its version; the other version is not touched.\<close>

lemma create_hash_ok:
  assumes inv: "acl_inv c" and ok: "pton_ok E" and n: "n \<in> outers" "entry c n = no_entry" and cfg: "check_tuple_rule_cfg E cfg = 0"
    and hash: "\<forall>k. hash_ok E c k" and y: "tuple_hash_find_actual E c cfg = Some 0"
    and free: "\<exists>x\<in>slots. \<not> in_map (fam (is6_of cfg) c) x"
  obtains c' where "tuple_try_map_new_rule E (Some c) 1 (int n) (Some cfg) check_old = Some (0, Some c')" "acl_inv c'"
    "rules_of c' = (rules_of c)(n \<mapsto> (is6_of cfg, stored_cfg E cfg))" "\<forall>k. hash_ok E c' k"
proof -
  let ?k = "is6_of cfg"
  have used_map: "used (fam ?k c) x = in_map (fam ?k c) x" if "x \<in> slots" for x
    using acl_invD(3) [OF inv that, of ?k] unfolding slot_ok_def by blast
  obtain r where r: "tuple_bitmap_get_first_unused (tuple_rule_bitmap (fam ?k c)) = Some r"
    "r = 0 \<Longrightarrow> \<forall>x\<in>slots. used (fam ?k c) x" "r \<noteq> 0 \<Longrightarrow> r \<in> slots \<and> \<not> used (fam ?k c) r"
    using first_unused_spec [OF acl_invD(2) [OF inv]] by metis
  then have r0: "r \<noteq> 0" "r \<in> slots" "\<not> in_map (fam ?k c) r" using free used_map by blast+
  obtain c1 where c1: "set_tuple_rule_cfg E 1 r cfg ?k c = Some (0, c1)" "acl_inv c1" "rules_of c1 = rules_of c"
    "rule_cfg (slot (fam ?k c1) r) = stored_cfg E cfg"
    "\<forall>k. \<forall>x\<in>slots. k \<noteq> ?k \<or> x \<noteq> r \<longrightarrow> slot (fam k c1) x = slot (fam k c) x"
    "\<forall>k. \<forall>x\<in>slots. in_map (fam k c1) x = in_map (fam k c) x" "\<forall>k. tuple_hash (fam k c1) = tuple_hash (fam k c)"
    "\<forall>m. entry c1 m = entry c m"
    by (rule set_cfg [OF inv r0(2,3) cfg ok]) (rule that; assumption)
  have out: "\<not> in_map (fam ?k c1) r" and gone: "entry c1 n = no_entry" using c1(6,8) r0(2,3) n(2) by simp_all
  obtain c' where c': "map_new_rule E 1 (int n) r ?k True c1 = Some (0, Some c')" "attached c1 ?k r n c'"
    "tuple_hash (fam (\<not> ?k) c') = tuple_hash (fam (\<not> ?k) c1)"
    "acl_hash_insert (get_hash_index E) (tuple_hash (fam ?k c1)) 256 (cfg_bytes (rule_cfg (slot (fam ?k c1) r))) r = Some (tuple_hash (fam ?k c'))"
    using attach [OF c1(2) n(1) gone r0(2) out] by metis
  have any: "map_new_rule E 1 (int n) r ?k check_old c1 = map_new_rule E 1 (int n) r ?k True c1"
    by (cases check_old) (simp_all add: map_new_rule_def delete_none [OF c1(2) n(1) gone])
  have run: "tuple_try_map_new_rule E (Some c) 1 (int n) (Some cfg) check_old = Some (0, Some c')"
    using try_start [OF inv n(1) cfg, of check_old 0] n(2) y r(1) r0(1) c1(1) c'(1) any by simp
  have at: "acl_inv c'" "rules_of c' = (rules_of c)(n \<mapsto> (?k, stored_cfg E cfg))" "in_map (fam ?k c') r"
    "\<forall>k. \<forall>x\<in>slots. k \<noteq> ?k \<or> x \<noteq> r \<longrightarrow> slot (fam k c') x = slot (fam k c1) x"
    "\<forall>k. \<forall>x\<in>slots. rule_cfg (slot (fam k c') x) = rule_cfg (slot (fam k c1) x)"
    using c'(2) c1(3,4) by (simp_all add: attached_def)
  have old: "slot (fam k c') x = slot (fam k c) x" if "x \<in> slots" "k \<noteq> ?k \<or> x \<noteq> r" for k x
    using at(4) c1(5) that by metis
  have "hash_ok E c' k" for k
  proof -
    let ?key = "\<lambda>x. cfg_bytes (rule_cfg (slot (fam k c) x))" and ?key' = "\<lambda>x. cfg_bytes (rule_cfg (slot (fam k c') x))"
    obtain L where L: "acl_lists (get_hash_index E) ?key (tuple_hash (fam k c)) L" "stored (tuple_hash (fam k c)) L = {x \<in> slots. in_map (fam k c) x}"
      using hash unfolding hash_ok_def by blast
    have keys: "?key' x = ?key x" if "x \<in> stored (tuple_hash (fam k c)) L" for x
      using that old [of x k] r0(3) unfolding L(2) by (cases "k = ?k \<and> x = r") auto
    note L' = acl_lists_cong [OF L(1), of ?key', OF keys]
    show ?thesis
    proof (cases "k = ?k")
      case True
      have links: "links_ok (tuple_hash (fam k c))" using acl_invD(2) [OF inv, of k] by (simp add: shape_ok_def)
      have key_r: "?key' r = cfg_bytes (rule_cfg (slot (fam ?k c1) r))" using at(5) r0(2) True by simp
      have new: "r \<in> rule_ids (tuple_hash (fam k c))" "r \<notin> stored (tuple_hash (fam k c)) L"
        using links_okD(1) [OF links] r0(2,3) True unfolding L(2) by simp_all
      define i where "i = acl_hash_index (get_hash_index E) (?key' r) (length (hash_buckets (tuple_hash (fam k c))))"
      obtain t' where t': "acl_hash_insert (get_hash_index E) (tuple_hash (fam k c)) (length (hash_buckets (tuple_hash (fam k c)))) (?key' r) r = Some t'"
        "acl_lists (get_hash_index E) ?key' t' (L(i := r # L i))" "length (hash_buckets t') = length (hash_buckets (tuple_hash (fam k c)))"
        using hash_insert_lists [OF L' new i_def] by metis
      have "t' = tuple_hash (fam k c')"
        using t'(1) c'(4) c1(7) True unfolding key_r links_okD(4) [OF links] by simp
      moreover have "stored t' (L(i := r # L i)) = insert r (stored (tuple_hash (fam k c)) L)"
        by (rule stored_insert [OF t'(3)]) (use links_okD(4) [OF links] acl_index_256 in \<open>simp add: i_def\<close>)
      moreover have "insert r {x \<in> slots. in_map (fam k c) x} = {x \<in> slots. in_map (fam k c') x}"
      proof -
        have "in_map (fam k c') x \<longleftrightarrow> x = r \<or> in_map (fam k c) x" if "x \<in> slots" for x
          using old [OF that, of k] at(3) True by (cases "x = r") (simp_all add: in_map_def)
        then show ?thesis using r0(2) by auto
      qed
      ultimately show ?thesis using t'(2) L(2) unfolding hash_ok_def by auto
    next
      case False
      then have "tuple_hash (fam k c') = tuple_hash (fam k c)" using c'(3) c1(7) by (cases k) auto
      moreover have "{x \<in> slots. in_map (fam k c) x} = {x \<in> slots. in_map (fam k c') x}"
        using old [of _ k] False by (auto simp: in_map_def)
      ultimately show ?thesis using L' L(2) unfolding hash_ok_def by auto
    qed
  qed
  then show ?thesis using that run at(1,2) by blast
qed

text \<open>C33: As long as the hash tables are in order, creating a rule with valid fields under a free outer number returns, and returns the number under
  which the same fields are already stored, if there is one; the reason \<open>FAIL_REASON_RULE_FULL\<close> if 2048 rules of the IP version exist; and
  otherwise 0, with the rule added and the hash tables in order again.
\<close>

theorem acl_create_correct:
  assumes inv: "acl_inv c" and ok: "pton_ok E" and hash: "\<forall>k. hash_ok E c k"
    and n: "n \<in> outers" "rules_of c n = None" and cfg: "check_tuple_rule_cfg E cfg = 0"
  shows "\<exists>ret c'. tuple_try_map_new_rule E (Some c) 1 (int n) (Some cfg) check_old = Some (ret, Some c') \<and>
    (if \<exists>m. rules_of c m = Some (is6_of cfg, stored_cfg E cfg)
     then c' = c \<and> ret > 0 \<and> rules_of c (nat ret) = Some (is6_of cfg, stored_cfg E cfg)
     else if card {m. \<exists>s. rules_of c m = Some (is6_of cfg, s)} = 2048 then c' = c \<and> ret = FAIL_REASON_RULE_FULL
     else ret = 0 \<and> acl_inv c' \<and> (\<forall>k. hash_ok E c' k) \<and> rules_of c' = (rules_of c)(n \<mapsto> (is6_of cfg, stored_cfg E cfg)))"
proof -
  let ?k = "is6_of cfg"
  obtain y where y: "tuple_hash_find_actual E c cfg = Some (int y)"
    "y \<noteq> 0 \<Longrightarrow> y \<in> slots \<and> in_map (fam ?k c) y \<and> rule_cfg (slot (fam ?k c) y) = stored_cfg E cfg"
    "y = 0 \<Longrightarrow> \<forall>x\<in>slots. in_map (fam ?k c) x \<longrightarrow> rule_cfg (slot (fam ?k c) x) \<noteq> stored_cfg E cfg"
    using hash_ok_find [OF inv ok cfg] hash by metis
  have gone: "entry c n = no_entry"
    using acl_invD(4) [OF inv n(1)] n(2) rules_of_entry(1) [OF n(1)] by (fastforce simp: entry_ok_def)
  have ys: "y = 0 \<or> y \<in> slots \<and> rule_cfg (slot (fam ?k c) y) = stored_cfg E cfg" using y(2) by blast
  have old: "check_old \<longrightarrow> entry c n = no_entry" using gone by simp
  have known: "(\<exists>m. rules_of c m = Some (?k, stored_cfg E cfg)) \<longleftrightarrow> y \<noteq> 0"
  proof
    assume "\<exists>m. rules_of c m = Some (?k, stored_cfg E cfg)"
    then obtain m where m: "rules_of c m = Some (?k, stored_cfg E cfg)" by blast
    then have "m \<in> {n. \<exists>s. rules_of c n = Some (?k, s)}" by blast
    then obtain x where x: "x \<in> slots" "in_map (fam ?k c) x" "m = outer_of (fam ?k c) x"
      using rules_places [OF inv, of ?k] unfolding bij_betw_def by blast
    then have "m \<in> outers" "entry c m = \<lparr>rule_type = type_of ?k, actual_rule_id = x\<rparr>"
      using acl_invD(3) [OF inv x(1), of ?k] unfolding slot_ok_def by blast+
    then have "rule_cfg (slot (fam ?k c) x) = stored_cfg E cfg" using rules_of_entry(1) m by simp
    then show "y \<noteq> 0" using y(3) x by blast
  next
    assume "y \<noteq> 0"
    then have yy: "y \<in> slots" "in_map (fam ?k c) y" "rule_cfg (slot (fam ?k c) y) = stored_cfg E cfg" using y(2) by blast+
    then have "outer_of (fam ?k c) y \<in> outers" "entry c (outer_of (fam ?k c) y) = \<lparr>rule_type = type_of ?k, actual_rule_id = y\<rparr>"
      using acl_invD(3) [OF inv yy(1), of ?k] unfolding slot_ok_def by blast+
    then show "\<exists>m. rules_of c m = Some (?k, stored_cfg E cfg)" using rules_of_entry(1) yy(3) by metis
  qed
  show ?thesis
  proof (cases "y = 0 \<and> (\<exists>x\<in>slots. \<not> in_map (fam ?k c) x)")
    case True
    then have y0: "tuple_hash_find_actual E c cfg = Some 0" and free: "\<exists>x\<in>slots. \<not> in_map (fam ?k c) x" using y(1) by simp_all
    obtain c' where "tuple_try_map_new_rule E (Some c) 1 (int n) (Some cfg) check_old = Some (0, Some c')" "acl_inv c'"
      "rules_of c' = (rules_of c)(n \<mapsto> (?k, stored_cfg E cfg))" "\<forall>k. hash_ok E c' k"
      by (rule create_hash_ok [where check_old = check_old, OF inv ok n(1) gone cfg hash y0 free]) (rule that; assumption)
    then show ?thesis using True known all_used_iff [OF inv, of ?k] by auto
  next
    case other: False
    show ?thesis
    proof (cases rule: create_cases [OF inv ok n(1) cfg old y(1) ys, case_names full duplicate new])
      case full
      then show ?thesis using known all_used_iff [OF inv, of ?k] by auto
    next
      case (duplicate m)
      have "m \<noteq> n" using duplicate(3) n(2) by auto
      moreover have "0 < m" using duplicate(2) by (simp add: outers_def)
      ultimately show ?thesis using duplicate known by auto
    next
      case (new c')
      have y0: "y = 0" using new(4) y(2) by blast
      have all: "\<forall>x\<in>slots. in_map (fam ?k c) x" using other y0 by blast
      have "tuple_try_map_new_rule E (Some c) 1 (int n) (Some cfg) check_old = Some (FAIL_REASON_RULE_FULL, Some c)"
      proof -
        obtain r where r: "tuple_bitmap_get_first_unused (tuple_rule_bitmap (fam ?k c)) = Some r" "r \<noteq> 0 \<Longrightarrow> r \<in> slots \<and> \<not> used (fam ?k c) r"
          using first_unused_spec [OF acl_invD(2) [OF inv]] by metis
        have "r = 0"
          using r(2) acl_invD(3) [OF inv, of r ?k] all unfolding slot_ok_def by blast
        then show ?thesis using try_start [OF inv n(1) cfg old y(1)] y0 r(1) by simp
      qed
      then show ?thesis using new(1) by (simp add: FAIL_REASON_RULE_FULL_def)
    qed
  qed
qed

lemma zero_conf_hash: "hash_ok E (zero_conf flag cnt) k"
proof -
  have hash: "tuple_hash (fam k (zero_conf flag cnt)) = zero_table 256 2048" by (simp add: fam_def zero_conf_def zero_family_def)
  have "{r \<in> slots. in_map (fam k (zero_conf flag cnt)) r} = {}"
    by (auto simp: fam_def zero_conf_def zero_family_def in_map_def slot_def zero_map_rule_def slots_def)
  then show ?thesis
    using zero_table_lists [of 256] unfolding hash_ok_def hash by (auto simp: stored_def intro!: exI [of _ "\<lambda>_. []"])
qed

definition ex_env :: acl_env where
  "ex_env = \<lparr>inet_pton = (\<lambda>k s. Some (replicate (addr_len k) (of_nat (length s)))), inet_ntop = (\<lambda>k b. ''''), get_hash_index = (\<lambda>_. 7)\<rparr>"

definition ex_rule :: sf_tuple_rule_cfg_t where
  "ex_rule = \<lparr>sport_min = 1, sport_max = 2, dport_min = 80, dport_max = 80, proto_min = 6, proto_max = 17, sip_mask = 24, dip_mask = 0,
     is_ipv6 = 0, sip_str = ''10.0.0.1'', dip_str = ''10.0.0.2''\<rparr>"

lemma ex_env_ok: "pton_ok ex_env" "check_tuple_rule_cfg ex_env ex_rule = 0"
  by (simp_all add: pton_ok_def ex_env_def check_tuple_rule_cfg_def ex_rule_def AF_check_def)

text \<open>A rule is created in the zeroed configuration, read back and deleted.\<close>

theorem acl_rules_refine_witness:
  "\<exists>c' c''. tuple_try_map_new_rule ex_env (Some (zero_conf 0 0)) 1 5 (Some ex_rule) True = Some (0, Some c')
    \<and> rules_of c' = [5 \<mapsto> (False, stored_cfg ex_env ex_rule)]
    \<and> get_tuple_rule_cfg ex_env (Some c') 1 5 (Some ex_rule) = Some (0, Some (shown_cfg ex_env False (stored_cfg ex_env ex_rule)))
    \<and> create_spec ex_env c' 1 5 (Some ex_rule) True (Some (FAIL_REASON_OLD_RULE_EXIST, Some c'))
    \<and> acl_delete_old_map ex_env (Some c') 1 5 False = Some (0, Some c'') \<and> rules_of c'' = Map.empty"
proof -
  let ?c = "zero_conf 0 0"
  note start = acl_rules_refine [OF zero_conf_inv(1) [of 0 0] ex_env_ok(1)]
  have match: "first_match ex_env ?c ex_rule 0" using start by blast
  have only: "\<forall>y. first_match ex_env ?c ex_rule y \<longleftrightarrow> y = 0"
    using find_actual_first [OF zero_conf_inv(1) [of 0 0] ex_env_ok] match by metis
  have good: "good_rule_id 1 5" "is6_of ex_rule = False" by (simp_all add: good_rule_id_def is6_of_def ex_rule_def)
  have "create_spec ex_env ?c 1 5 (Some ex_rule) True (tuple_try_map_new_rule ex_env (Some ?c) 1 5 (Some ex_rule) True)"
    using start by blast
  then obtain c' where c': "tuple_try_map_new_rule ex_env (Some ?c) 1 5 (Some ex_rule) True = Some (0, Some c')" "acl_inv c'"
    "rules_of c' = [5 \<mapsto> (False, stored_cfg ex_env ex_rule)]"
    using create_spec_late [OF good(1) _ ex_env_ok(2) only, of True] by (auto simp: zero_conf_inv(2) good)
  note next_ops = acl_rules_refine [OF c'(2) ex_env_ok(1)]
  obtain ret c'' where c'': "acl_delete_old_map ex_env (Some c') 1 5 False = Some (ret, Some c'')"
    "ret = 0 \<longleftrightarrow> good_rule_id 1 5 \<and> (False \<or> rules_of c' (nat 5) \<noteq> None)"
    "rules_of c'' = (if ret = 0 then (rules_of c')(nat 5 := None) else rules_of c')"
    using next_ops by blast
  have "get_tuple_rule_cfg ex_env (Some c') 1 5 (Some ex_rule) = Some (0, Some (shown_cfg ex_env False (stored_cfg ex_env ex_rule)))"
    using next_ops good c'(3) by simp
  moreover have "create_spec ex_env c' 1 5 (Some ex_rule) True (Some (FAIL_REASON_OLD_RULE_EXIST, Some c'))"
    using good c'(3) by (simp add: create_spec_def)
  ultimately show ?thesis using c' c'' good by (intro exI [of _ c'] exI [of _ c'']) simp
qed

theorem acl_create_correct_witness:
  "\<exists>c'. tuple_try_map_new_rule ex_env (Some (zero_conf 0 0)) 1 (int 5) (Some ex_rule) True = Some (0, Some c')
    \<and> rules_of c' = [5 \<mapsto> (False, stored_cfg ex_env ex_rule)]"
proof -
  have five: "5 \<in> outers" by (simp add: outers_def)
  have none: "rules_of (zero_conf 0 0) = Map.empty" "\<forall>k. hash_ok ex_env (zero_conf 0 0) k" by (simp_all add: zero_conf_inv(2) zero_conf_hash)
  have "is6_of ex_rule = False" by (simp add: is6_of_def ex_rule_def)
  then show ?thesis
    using acl_create_correct [OF zero_conf_inv(1) ex_env_ok(1) none(2) five _ ex_env_ok(2), of True]
    by (auto simp: none(1))
qed

end
