(* ===== verification/Acl_Sync.thy ===== *)
theory Acl_Sync
  imports Acl_Rules Actions
begin

text \<open>
  How the rules in shared memory reach the classifier (\<open>src/acl/other/acl_tuple_sync.c\<close>, \<open>acl_sync_process.c\<close>, and the part of
  \<open>sf_acl_api.c\<close> that controls it): the management API sets a flag, a process of the main thread builds a new classification
  table from all rules, puts its address where the workers look for it, waits until no worker uses the old one, and frees that.

  The classifier itself is \<open>librte_acl\<close> of DPDK and not in the repository.  Its functions are the parameter \<open>rte_ops\<close>, on an
  opaque state; \<open>rte_doc\<close> states their documented behaviour.  There is one group of rules (\<open>MAX_RULE_GROUP_CNT\<close>).
\<close>

section \<open>The synchronisation flag\<close>

definition ACL_STILL_SYNC :: int where "ACL_STILL_SYNC = 3"
definition ACL_NEED_SYNC :: int where "ACL_NEED_SYNC = 2"
definition ACL_PREPARE_SYNC :: int where "ACL_PREPARE_SYNC = 1"
definition ACL_SYNC_OK :: int where "ACL_SYNC_OK = 0"
definition ACL_SYNC_FAILED :: int where "ACL_SYNC_FAILED = -2"

text \<open>\<open>INIT_CONFIG_FUNC_DEFINITION\<close>: the whole configuration becomes zero, except flag and counter on a reset.\<close>

definition acl_init_config :: "bool \<Rightarrow> acl_conf option \<Rightarrow> int \<times> acl_conf option" where
  "acl_init_config is_reset conf =
    (case conf of
       None \<Rightarrow> (-1, None)
     | Some c \<Rightarrow>
         if is_reset \<and> acl_sync_flag c > 0 then (-1, Some c)
         else (0, Some (if is_reset then zero_conf (acl_sync_flag c) (acl_sync_times c) else zero_conf 0 0)))"

definition acl_get_sync_times :: "acl_conf option \<Rightarrow> int" where
  "acl_get_sync_times conf = (case conf of None \<Rightarrow> -1 | Some c \<Rightarrow> acl_sync_times c)"

definition acl_get_sync_flag :: "acl_conf option \<Rightarrow> int" where
  "acl_get_sync_flag conf = (case conf of None \<Rightarrow> -1 | Some c \<Rightarrow> acl_sync_flag c)"

definition acl_set_sync_flag_need :: "acl_conf option \<Rightarrow> int \<times> acl_conf option" where
  "acl_set_sync_flag_need conf =
    (case conf of
       None \<Rightarrow> (-1, None)
     | Some c \<Rightarrow> if acl_sync_flag c \<noteq> ACL_STILL_SYNC then (0, Some (c\<lparr>acl_sync_flag := ACL_NEED_SYNC\<rparr>)) else (-1, Some c))"

definition acl_set_sync_flag_prepare :: "acl_conf option \<Rightarrow> int \<times> acl_conf option" where
  "acl_set_sync_flag_prepare conf =
    (case conf of
       None \<Rightarrow> (-1, None)
     | Some c \<Rightarrow> if acl_sync_flag c \<le> 0 then (0, Some (c\<lparr>acl_sync_flag := ACL_PREPARE_SYNC\<rparr>)) else (-1, Some c))"

definition acl_set_sync_flag_fail :: "acl_conf option \<Rightarrow> int \<times> acl_conf option" where
  "acl_set_sync_flag_fail conf =
    (case conf of None \<Rightarrow> (-1, None) | Some c \<Rightarrow> (0, Some (c\<lparr>acl_sync_flag := ACL_SYNC_FAILED\<rparr>)))"

text \<open>The next outer number in use above \<open>start\<close>, and 0 if there is none; \<open>k\<close> numbers are left.\<close>

fun next_rule_loop :: "acl_conf \<Rightarrow> nat \<Rightarrow> int \<Rightarrow> int option" where
  "next_rule_loop c 0 i = Some 0"
| "next_rule_loop c (Suc k) i =
    (if i < 1 then None
     else do { m \<leftarrow> rule_map_at c i;
               if rule_type m \<noteq> 0 then Some i else next_rule_loop c k (i + 1) })"

definition acl_sys_conf_find_next_rule :: "acl_conf option \<Rightarrow> int \<Rightarrow> int \<Rightarrow> int option" where
  "acl_sys_conf_find_next_rule conf group_id start_rule_id =
    (case conf of
       None \<Rightarrow> Some (-1)
     | Some c \<Rightarrow> if bad_group group_id then Some (-1)
                 else next_rule_loop c (nat (MAX_RULE_PER_GROUP - start_rule_id)) (start_rule_id + 1))"

section \<open>The counters of hits\<close>

text \<open>\<open>acl_stat\<close> in shared memory, per outer number; -1 is returned as an unsigned 64-bit number.\<close>

definition acl_get_rule_hit :: "u64 list option \<Rightarrow> int \<Rightarrow> int \<Rightarrow> u64 option" where
  "acl_get_rule_hit stat group_id outer =
    (case stat of
       None \<Rightarrow> Some (- 1)
     | Some hits \<Rightarrow> if bad_group group_id \<or> bad_outer outer then Some (- 1) else arr_read hits (nat (outer - 1)))"

definition acl_clear_rule_hit_single :: "u64 list option \<Rightarrow> int \<Rightarrow> int \<Rightarrow> (int \<times> u64 list option) option" where
  "acl_clear_rule_hit_single stat group_id outer =
    (case stat of
       None \<Rightarrow> Some (-1, None)
     | Some hits \<Rightarrow>
         if bad_group group_id \<or> bad_outer outer then Some (-1, stat)
         else do { hits \<leftarrow> arr_write hits (nat (outer - 1)) 0; Some (0, Some hits) })"

definition acl_clear_rule_hit_all :: "u64 list option \<Rightarrow> int \<times> u64 list option" where
  "acl_clear_rule_hit_all stat = (case stat of None \<Rightarrow> (-1, None) | Some hits \<Rightarrow> (0, Some (replicate (nat MAX_RULE_PER_GROUP) 0)))"

section \<open>The classifier\<close>

datatype rte_field_type = RTE_ACL_FIELD_TYPE_MASK | RTE_ACL_FIELD_TYPE_RANGE

record rte_acl_field_def =
  rte_type :: rte_field_type
  rte_size :: nat
  rte_field_index :: nat
  rte_input_index :: nat
  rte_offset :: nat

text \<open>\<open>acl46_rule_cfg\<close>; a field is the pair \<open>value\<close>, \<open>mask_range\<close> of unions that were zeroed before.\<close>

record acl46_rule_cfg =
  category_mask :: u32
  priority :: int
  userdata :: u32
  rte_fields :: "(u64 \<times> u64) list"

text \<open>
  The functions of the library; a context is an address, \<open>None\<close> is NULL.  A packet is given to \<open>rte_acl_classify\<close> as the
  function from the distance to its data pointer to the byte there.
\<close>

record 'r rte_ops =
  rte_acl_create :: "string \<Rightarrow> 'r \<Rightarrow> ptr \<times> 'r"
  rte_acl_set_ctx_classify :: "addr \<Rightarrow> 'r \<Rightarrow> int \<times> 'r"
  rte_acl_add_rules :: "addr \<Rightarrow> acl46_rule_cfg \<Rightarrow> 'r \<Rightarrow> int \<times> 'r"
  rte_acl_build :: "addr \<Rightarrow> rte_acl_field_def list \<Rightarrow> 'r \<Rightarrow> int \<times> 'r"
  rte_acl_free :: "addr \<Rightarrow> 'r \<Rightarrow> 'r"
  rte_acl_classify :: "addr \<Rightarrow> (nat \<Rightarrow> u8) list \<Rightarrow> 'r \<Rightarrow> u32 list"

section \<open>Translation of a rule\<close>

text \<open>Indices of \<open>acl_rte_def.h\<close>, and the offsets of the fields in the packed metadata: 64 bytes are before \<open>l3l4_wdatas\<close>.\<close>

definition PROTO_FIELD :: nat where "PROTO_FIELD = 0"
definition SIP_FIELD :: "nat \<Rightarrow> nat" where "SIP_FIELD i = i"
definition DIP_FIELD :: "nat \<Rightarrow> nat" where "DIP_FIELD i = 4 + i"
definition SPORT_FIELD :: nat where "SPORT_FIELD = 9"
definition DPORT_FIELD :: nat where "DPORT_FIELD = 10"
definition NUM_FIELDS_IPV46 :: nat where "NUM_FIELDS_IPV46 = 11"

definition l3l4_offset :: nat where "l3l4_offset = 64"
definition PROTO_offset :: nat where "PROTO_offset = l3l4_offset + 3"
definition SIP_offset :: nat where "SIP_offset = l3l4_offset + 8"
definition DIP_offset :: nat where "DIP_offset = l3l4_offset + 24"
definition SPORT_offset :: nat where "SPORT_offset = l3l4_offset + 42 + 2"
definition DPORT_offset :: nat where "DPORT_offset = l3l4_offset + 42 + 4"

definition acl_rte_ipv46_defs :: "rte_acl_field_def list" where
  "acl_rte_ipv46_defs =
    (let range = (\<lambda>size i input off. \<lparr>rte_type = RTE_ACL_FIELD_TYPE_RANGE, rte_size = size, rte_field_index = i, rte_input_index = input, rte_offset = off\<rparr>);
         addr = (\<lambda>i off. \<lparr>rte_type = RTE_ACL_FIELD_TYPE_MASK, rte_size = 4, rte_field_index = i, rte_input_index = i, rte_offset = off\<rparr>)
     in [range 1 PROTO_FIELD PROTO_FIELD PROTO_offset,
         addr (SIP_FIELD 1) SIP_offset, addr (SIP_FIELD 2) (SIP_offset + 4), addr (SIP_FIELD 3) (SIP_offset + 8), addr (SIP_FIELD 4) (SIP_offset + 12),
         addr (DIP_FIELD 1) DIP_offset, addr (DIP_FIELD 2) (DIP_offset + 4), addr (DIP_FIELD 3) (DIP_offset + 8), addr (DIP_FIELD 4) (DIP_offset + 12),
         range 2 SPORT_FIELD SPORT_FIELD SPORT_offset,
         range 2 DPORT_FIELD SPORT_FIELD DPORT_offset])"

text \<open>The addresses of a rule as arrays of 32-bit words in host byte order; an index behind the end is a memory error.\<close>

definition rule_word :: "u8 list \<Rightarrow> nat \<Rightarrow> u32 option" where
  "rule_word bytes i =
    do { b0 \<leftarrow> arr_read bytes (4 * i); b1 \<leftarrow> arr_read bytes (4 * i + 1); b2 \<leftarrow> arr_read bytes (4 * i + 2); b3 \<leftarrow> arr_read bytes (4 * i + 3);
         Some (bswap32 (le32 b0 b1 b2 b3)) }"

definition shared_fields :: "sf_tuple46_rule_cfg_t \<Rightarrow> (u64 \<times> u64) list" where
  "shared_fields raw =
    (((replicate NUM_FIELDS_IPV46 (0, 0))
      [PROTO_FIELD := (ucast (proto_min raw), ucast (proto_max raw))])
      [SPORT_FIELD := (ucast (sport_min raw), ucast (sport_max raw))])
      [DPORT_FIELD := (ucast (dport_min raw), ucast (dport_max raw))]"

definition trans_shm_to_rte_tuple4 :: "sf_tuple46_rule_cfg_t \<Rightarrow> (u64 \<times> u64) list option" where
  "trans_shm_to_rte_tuple4 raw =
    do { s \<leftarrow> rule_word (sip_bytes raw) 0;
         d \<leftarrow> rule_word (dip_bytes raw) 0;
         let f = shared_fields raw;
         let f = f[SIP_FIELD 1 := (ucast s, ucast (sip_mask raw))];
         let f = f[DIP_FIELD 1 := (ucast d, ucast (dip_mask raw))];
         let f = f[SIP_FIELD 2 := (0, 32), SIP_FIELD 3 := (0, 32), SIP_FIELD 4 := (0, 32)];
         let f = f[DIP_FIELD 2 := (0, 32), DIP_FIELD 3 := (0, 32), DIP_FIELD 4 := (0, 32)];
         Some f }"

definition mask_sub :: "u8 \<Rightarrow> u8" where "mask_sub m = (if m > 32 then m - 32 else 0)"
definition mask_get :: "u8 \<Rightarrow> u64" where "mask_get m = (if m > 32 then 32 else ucast m)"

definition trans_shm_to_rte_tuple6 :: "sf_tuple46_rule_cfg_t \<Rightarrow> (u64 \<times> u64) list option" where
  "trans_shm_to_rte_tuple6 raw =
    do { s0 \<leftarrow> rule_word (sip_bytes raw) 0; s1 \<leftarrow> rule_word (sip_bytes raw) 1;
         s2 \<leftarrow> rule_word (sip_bytes raw) 2; s3 \<leftarrow> rule_word (sip_bytes raw) 3;
         let f = shared_fields raw;
         let m = sip_mask raw;
         let f = f[SIP_FIELD 1 := (ucast s0, mask_get m)]; let m = mask_sub m;
         let f = f[SIP_FIELD 2 := (ucast s1, mask_get m)]; let m = mask_sub m;
         let f = f[SIP_FIELD 3 := (ucast s2, mask_get m)]; let m = mask_sub m;
         let f = f[SIP_FIELD 4 := (ucast s3, mask_get m)];
         d0 \<leftarrow> rule_word (dip_bytes raw) 0; d1 \<leftarrow> rule_word (dip_bytes raw) 1;
         d2 \<leftarrow> rule_word (dip_bytes raw) 2; d3 \<leftarrow> rule_word (dip_bytes raw) 3;
         let m = dip_mask raw;
         let f = f[DIP_FIELD 1 := (ucast d0, mask_get m)]; let m = mask_sub m;
         let f = f[DIP_FIELD 2 := (ucast d1, mask_get m)]; let m = mask_sub m;
         let f = f[DIP_FIELD 3 := (ucast d2, mask_get m)]; let m = mask_sub m;
         let f = f[DIP_FIELD 4 := (ucast d3, mask_get m)];
         Some f }"

section \<open>Building and exchanging tables\<close>

definition sf_rte_rule_priority :: "nat \<Rightarrow> int" where
  "sf_rte_rule_priority rule_id = 0xFFFFFF - int rule_id"

text \<open>The loop over the places of one IP version: the number of rules added, or -1, and the state of the library.\<close>

primrec add_rules_loop ::
  "'r rte_ops \<Rightarrow> bool \<Rightarrow> addr \<Rightarrow> sf_tuple46_rule_t list \<Rightarrow> int \<Rightarrow> 'r \<Rightarrow> (int \<times> 'r) option" where
  "add_rules_loop R is6 context [] rule_cnt r = Some (rule_cnt, r)"
| "add_rules_loop R is6 context (x # xs) rule_cnt r =
    (if outer_id_valid (map_rule x) \<and> outer_rule_id (map_rule x) \<noteq> 0
     then do { f \<leftarrow> (if is6 then trans_shm_to_rte_tuple6 (rule_cfg x) else trans_shm_to_rte_tuple4 (rule_cfg x));
               let outer = outer_rule_id (map_rule x);
               case rte_acl_add_rules R context \<lparr>category_mask = 1, priority = sf_rte_rule_priority outer, userdata = of_nat outer, rte_fields = f\<rparr> r of
                 (ret, r) \<Rightarrow> if ret < 0 then Some (-1, r) else add_rules_loop R is6 context xs (rule_cnt + 1) r }
     else add_rules_loop R is6 context xs rule_cnt r)"

definition rte_acl_table_add_rules :: "'r rte_ops \<Rightarrow> acl_conf \<Rightarrow> addr \<Rightarrow> 'r \<Rightarrow> (int \<times> 'r) option" where
  "rte_acl_table_add_rules R c context r =
    do { (rule_cnt, r) \<leftarrow> add_rules_loop R False context (tuple_rules (family_v4 c)) 0 r;
         if rule_cnt < 0 then Some (-1, r)
         else add_rules_loop R True context (tuple_rules (family_v6 c)) rule_cnt r }"

definition rte_acl_table_free :: "'r rte_ops \<Rightarrow> ptr \<Rightarrow> 'r \<Rightarrow> 'r" where
  "rte_acl_table_free R ctx r = (case ctx of None \<Rightarrow> r | Some a \<Rightarrow> rte_acl_free R a r)"

text \<open>\<open>sprintf\<close> with the number of the one group.\<close>

definition table_name_model :: "string list" where
  "table_name_model = [''v46s1_g'', ''v46s2_g'']"

definition format_rte_acl_table_name :: "string \<Rightarrow> string" where
  "format_rte_acl_table_name model = model @ ''1''"

text \<open>
  \<open>rte_acl_table_setup\<close>: the return value, the new table if it is 0 (NULL if there are no rules), and the state of the
  library.  \<open>pre\<close> is the entry of \<open>pre_table_name_model\<close>.
\<close>

definition rte_acl_table_setup :: "'r rte_ops \<Rightarrow> acl_conf \<Rightarrow> int \<Rightarrow> nat \<Rightarrow> 'r \<Rightarrow> (int \<times> ptr \<times> 'r) option" where
  "rte_acl_table_setup R c group_id pre r =
    (if bad_group group_id then Some (-2, None, r)
     else do {
       model \<leftarrow> arr_read table_name_model pre;
       case rte_acl_create R (format_rte_acl_table_name model) r of
         (None, r) \<Rightarrow> Some (-1, None, r)
       | (Some context, r) \<Rightarrow>
           (case rte_acl_set_ctx_classify R context r of (ret, r) \<Rightarrow>
              if ret \<noteq> 0 then Some (-1, None, rte_acl_free R context r)
              else do {
                (ret, r) \<leftarrow> rte_acl_table_add_rules R c context r;
                if ret < 0 then Some (-1, None, rte_acl_free R context r)
                else if ret = 0 then Some (0, None, rte_acl_table_free R (Some context) r)
                else case rte_acl_build R context acl_rte_ipv46_defs r of (ret, r) \<Rightarrow>
                       if ret \<noteq> 0 then Some (-1, None, rte_acl_free R context r)
                       else Some (0, Some context, r) }) })"

record sf_acl_main_t =
  v46_context :: ptr
  pre_table_name_model :: nat

text \<open>
  \<open>sync_rte_tuple_rules\<close>: the number of failed groups with a minus sign.  Waiting for the workers (\<open>check_sync\<close>) changes nothing
  here; what it is for is the subject of the last section.
\<close>

definition sync_rte_tuple_rules :: "'r rte_ops \<Rightarrow> acl_conf \<Rightarrow> sf_acl_main_t \<Rightarrow> 'r \<Rightarrow> (int \<times> sf_acl_main_t \<times> 'r) option" where
  "sync_rte_tuple_rules R c m r =
    do { (ret, v46, r) \<leftarrow> rte_acl_table_setup R c 1 (pre_table_name_model m) r;
         if ret \<noteq> 0 then Some (-1, m, r)
         else
           do { let swap = v46_context m;
                let m = m\<lparr>v46_context := v46\<rparr>;
                let m = (if v46 \<noteq> None then m\<lparr>pre_table_name_model := (if pre_table_name_model m = 0 then 1 else 0)\<rparr> else m);
                Some (0, m, rte_acl_table_free R swap r) } }"

text \<open>One round of the process \<open>sf_acl_sync_process\<close> after it wakes up.\<close>

definition acl_sync_process ::
  "'r rte_ops \<Rightarrow> acl_conf option \<Rightarrow> sf_acl_main_t \<Rightarrow> 'r \<Rightarrow> (acl_conf option \<times> sf_acl_main_t \<times> 'r) option" where
  "acl_sync_process R conf m r =
    (case conf of
       None \<Rightarrow> Some (None, m, r)
     | Some c \<Rightarrow>
         let c = (if acl_sync_flag c = ACL_STILL_SYNC then c\<lparr>acl_sync_flag := ACL_SYNC_FAILED\<rparr> else c)
         in if acl_sync_flag c \<noteq> ACL_NEED_SYNC then Some (Some c, m, r)
            else
              do { let c = c\<lparr>acl_sync_flag := ACL_STILL_SYNC\<rparr>;
                   (ret, m, r) \<leftarrow> sync_rte_tuple_rules R c m r;
                   if ret \<noteq> 0 then Some (Some (c\<lparr>acl_sync_flag := ACL_SYNC_FAILED\<rparr>), m, r)
                   else Some (Some (c\<lparr>acl_sync_flag := ACL_SYNC_OK, acl_sync_times := (acl_sync_times c + 1) mod 2 ^ 31\<rparr>), m, r) })"

section \<open>What the metadata shows to the classifier\<close>

definition le64_bytes :: "u64 \<Rightarrow> u8 list" where
  "le64_bytes x = map (\<lambda>i. ucast (drop_bit (8 * i) x)) [0..<8]"

definition addr_mem :: "ip_addr_t \<Rightarrow> u8 list" where
  "addr_mem a = le64_bytes (addr_v6_upper a) @ le64_bytes (addr_v6_lower a)"

text \<open>The packed members of \<open>l3l4_wdatas\<close>; \<open>rest\<close> stands for the bytes around them.\<close>

definition l3l4_bytes :: "sf_wdata_t \<Rightarrow> u8 list" where
  "l3l4_bytes w =
    (let i = ip_wdata w; l = l4_wdata w
     in le16_bytes (ip_offset i) @ [ip_version i, ip_protocol i] @ le16_bytes (ip_header_len i) @ le16_bytes (ip_payload_len i)
          @ addr_mem (sip i) @ addr_mem (dip i) @ [if is_frag i then 1 else 0, reass_over i]
          @ le16_bytes (l4_offset l) @ le16_bytes (l4_sport l) @ le16_bytes (l4_dport l) @ le16_bytes (l4_header_len l))"

definition wdata_bytes :: "(nat \<Rightarrow> u8) \<Rightarrow> sf_wdata_t \<Rightarrow> nat \<Rightarrow> u8" where
  "wdata_bytes rest w off =
    (if l3l4_offset \<le> off \<and> off < l3l4_offset + 50 then l3l4_bytes w ! (off - l3l4_offset) else rest off)"

section \<open>The documented behaviour of the classifier\<close>

record rte_table =
  table_name :: string
  table_rules :: "acl46_rule_cfg list"
  table_built :: "rte_acl_field_def list option"

text \<open>Fields of a packet are in network byte order, those of a rule in host byte order.\<close>

definition be_value :: "u8 list \<Rightarrow> u64" where
  "be_value bytes = foldl (\<lambda>v b. push_bit 8 v OR ucast b) 0 bytes"

definition rte_field_match :: "rte_acl_field_def \<Rightarrow> u64 \<times> u64 \<Rightarrow> (nat \<Rightarrow> u8) \<Rightarrow> bool" where
  "rte_field_match d f data \<longleftrightarrow>
    (let x = be_value (map (\<lambda>i. data (rte_offset d + i)) [0..<rte_size d]); n = 8 * rte_size d
     in case rte_type d of
          RTE_ACL_FIELD_TYPE_RANGE \<Rightarrow> fst f \<le> x \<and> x \<le> snd f
        | RTE_ACL_FIELD_TYPE_MASK \<Rightarrow> \<forall>j<min n (unat (snd f)). bit (fst f) (n - 1 - j) = bit x (n - 1 - j))"

definition rte_match :: "rte_acl_field_def list \<Rightarrow> acl46_rule_cfg \<Rightarrow> (nat \<Rightarrow> u8) \<Rightarrow> bool" where
  "rte_match defs x data \<longleftrightarrow> bit (category_mask x) 0
     \<and> (\<forall>d\<in>set defs. rte_field_match d (rte_fields x ! rte_field_index d) data)"

text \<open>The result for a packet in category 0: the user data of the matching rule of highest priority, and 0 if no rule matches.\<close>

definition rte_result :: "rte_acl_field_def list \<Rightarrow> acl46_rule_cfg list \<Rightarrow> (nat \<Rightarrow> u8) \<Rightarrow> u32 \<Rightarrow> bool" where
  "rte_result defs rules data v \<longleftrightarrow> ((\<forall>x\<in>set rules. \<not> rte_match defs x data) \<longrightarrow> v = 0)
     \<and> (\<forall>x\<in>set rules. rte_match defs x data \<and> (\<forall>y\<in>set rules. rte_match defs y data \<and> y \<noteq> x \<longrightarrow> priority y < priority x)
          \<longrightarrow> v = userdata x)"

text \<open>
  \<open>T r a\<close> is the table at address \<open>a\<close> in the state \<open>r\<close> of the library.  A table is created under a name not in use, at a new
  address, or not at all; the other functions on a table change no other table, and failing ones change no rules; the result of
  a classification is defined once the table is built.
\<close>

definition rte_doc :: "'r rte_ops \<Rightarrow> ('r \<Rightarrow> addr \<Rightarrow> rte_table option) \<Rightarrow> bool" where
  "rte_doc R T \<longleftrightarrow>
     (\<forall>name r. (\<forall>a t. T r a = Some t \<longrightarrow> table_name t \<noteq> name) \<longrightarrow>
        (case rte_acl_create R name r of
           (None, r') \<Rightarrow> T r' = T r
         | (Some a, r') \<Rightarrow> T r a = None \<and> T r' = (T r)(a \<mapsto> \<lparr>table_name = name, table_rules = [], table_built = None\<rparr>)))
   \<and> (\<forall>a r. T r a \<noteq> None \<longrightarrow> T (snd (rte_acl_set_ctx_classify R a r)) = T r)
   \<and> (\<forall>a x r t. T r a = Some t \<longrightarrow>
        (case rte_acl_add_rules R a x r of (ret, r') \<Rightarrow>
           T r' = (if ret < 0 then T r else (T r)(a \<mapsto> t\<lparr>table_rules := table_rules t @ [x], table_built := None\<rparr>))))
   \<and> (\<forall>a defs r t. T r a = Some t \<longrightarrow>
        (case rte_acl_build R a defs r of (ret, r') \<Rightarrow>
           \<exists>b. (ret = 0 \<longrightarrow> b = Some defs) \<and> T r' = (T r)(a \<mapsto> t\<lparr>table_built := b\<rparr>)))
   \<and> (\<forall>a r. T r a \<noteq> None \<longrightarrow> T (rte_acl_free R a r) = (T r)(a := None))
   \<and> (\<forall>a r t defs datas. T r a = Some t \<and> table_built t = Some defs \<longrightarrow>
        list_all2 (rte_result defs (table_rules t)) datas (rte_acl_classify R a datas r))"

section \<open>The meaning of the rules\<close>

text \<open>Bit \<open>i\<close> of an address, counted from the first bit on the wire.\<close>

definition addr_bit :: "u8 list \<Rightarrow> nat \<Rightarrow> bool" where
  "addr_bit bytes i = bit (bytes ! (i div 8)) (7 - i mod 8)"

definition same_prefix :: "nat \<Rightarrow> u8 list \<Rightarrow> u8 list \<Rightarrow> bool" where
  "same_prefix n a b \<longleftrightarrow> (\<forall>i<n. addr_bit a i = addr_bit b i)"

text \<open>An IPv4 rule also asks that the other twelve bytes of the address are zero; the version of the packet is not looked at.\<close>

definition addr_match :: "bool \<Rightarrow> nat \<Rightarrow> u8 list \<Rightarrow> u8 list \<Rightarrow> bool" where
  "addr_match is6 n rule_addr a \<longleftrightarrow>
    (if is6 then same_prefix n rule_addr a else same_prefix n rule_addr a \<and> drop 4 a = replicate 12 0)"

definition tuple_match :: "bool \<Rightarrow> sf_tuple46_rule_cfg_t \<Rightarrow> sf_wdata_t \<Rightarrow> bool" where
  "tuple_match is6 s w \<longleftrightarrow>
    (let i = ip_wdata w; sport = clib_net_to_host_u16 (l4_sport (l4_wdata w)); dport = clib_net_to_host_u16 (l4_dport (l4_wdata w))
     in proto_min s \<le> ip_protocol i \<and> ip_protocol i \<le> proto_max s
        \<and> sport_min s \<le> sport \<and> sport \<le> sport_max s \<and> dport_min s \<le> dport \<and> dport \<le> dport_max s
        \<and> addr_match is6 (unat (sip_mask s)) (sip_bytes s) (addr_mem (sip i))
        \<and> addr_match is6 (unat (dip_mask s)) (dip_bytes s) (addr_mem (dip i)))"

definition rule_matches :: "acl_conf \<Rightarrow> sf_wdata_t \<Rightarrow> nat \<Rightarrow> bool" where
  "rule_matches c w n \<longleftrightarrow> (case rules_of c n of None \<Rightarrow> False | Some (is6, s) \<Rightarrow> tuple_match is6 s w)"

text \<open>The matching rule with the least outer number, and 0 if there is none.\<close>

definition acl_lookup :: "acl_conf \<Rightarrow> sf_wdata_t \<Rightarrow> nat" where
  "acl_lookup c w = (case filter (rule_matches c w) [1..<4097] of [] \<Rightarrow> 0 | n # _ \<Rightarrow> n)"

section \<open>A translated rule matches as the rule means\<close>

lemma byte_high: "8 \<le> k \<Longrightarrow> \<not> bit (b :: u8) k"
  by (auto dest: bit_imp_le_length)

lemma less4: "q < 4 \<longleftrightarrow> q = 0 \<or> q = 1 \<or> q = 2 \<or> q = (3 :: nat)"
  by auto

lemma le32_bit: "q < 4 \<Longrightarrow> t < 8 \<Longrightarrow> bit (le32 b0 b1 b2 b3) (8 * q + t) \<longleftrightarrow> bit ([b0, b1, b2, b3] ! q) t"
  unfolding less4 by (elim disjE) (simp_all add: le32_def bit_simps byte_high)

lemma bswap32_bit: "q < 4 \<Longrightarrow> t < 8 \<Longrightarrow> bit (bswap32 x) (8 * q + t) \<longleftrightarrow> bit x (8 * (3 - q) + t)"
  unfolding less4 by (elim disjE) (auto simp: bswap32_def clib_net_to_host_u16_def bit_simps add_ac dest: bit_imp_le_length)

lemma be_value4_bit: "q < 4 \<Longrightarrow> t < 8 \<Longrightarrow> bit (be_value [b0, b1, b2, b3]) (8 * q + t) \<longleftrightarrow> bit ([b3, b2, b1, b0] ! q) t"
  unfolding less4 by (elim disjE) (simp_all add: be_value_def bit_simps byte_high)

lemma be_value2: "be_value (le16_bytes p) = ucast (clib_net_to_host_u16 p)"
  unfolding be_value_def le16_bytes_def clib_net_to_host_u16_def
  by (rule bit_word_eqI) (auto simp: bit_simps dest: bit_imp_le_length)

text \<open>Bit \<open>j\<close> on the wire of a 32-bit word.\<close>

lemma wire_index: "j < 32 \<Longrightarrow> 31 - j = 8 * (3 - j div 8) + (7 - j mod 8) \<and> 3 - j div 8 < 4 \<and> 3 - (3 - j div 8) = j div 8 \<and> j div 8 < 4"
  for j :: nat
  by presburger

lemma rev_nth4: "q < 4 \<Longrightarrow> [b3, b2, b1, b0] ! (3 - q) = [b0, b1, b2, b3] ! q"
  unfolding less4 by (elim disjE) simp_all

lemma wire_bit:
  assumes "j < 32"
  shows "bit (bswap32 (le32 b0 b1 b2 b3)) (31 - j) \<longleftrightarrow> addr_bit [b0, b1, b2, b3] j"
    and "bit (be_value [b0, b1, b2, b3]) (31 - j) \<longleftrightarrow> addr_bit [b0, b1, b2, b3] j"
proof -
  note w = wire_index [OF assms]
  have t: "7 - j mod 8 < 8" by simp
  show "bit (bswap32 (le32 b0 b1 b2 b3)) (31 - j) \<longleftrightarrow> addr_bit [b0, b1, b2, b3] j"
    using w by (simp only: bswap32_bit [OF _ t] le32_bit [OF _ t] addr_bit_def)
  show "bit (be_value [b0, b1, b2, b3]) (31 - j) \<longleftrightarrow> addr_bit [b0, b1, b2, b3] j"
    using w by (simp only: be_value4_bit [OF _ t] rev_nth4 addr_bit_def)
qed

lemma addr_bit_part: "j < 32 \<Longrightarrow> addr_bit [b ! (4 * i), b ! (4 * i + 1), b ! (4 * i + 2), b ! (4 * i + 3)] j = addr_bit b (32 * i + j)"
proof -
  assume j: "j < 32"
  have split: "(32 * i + j) div 8 = 4 * i + j div 8" "(32 * i + j) mod 8 = j mod 8" by presburger+
  have "j div 8 < 4" using j by simp
  then show ?thesis unfolding addr_bit_def split less4 by (elim disjE) simp_all
qed

lemma rule_word_bits:
  assumes "4 * i + 4 \<le> length bytes"
  shows "\<exists>x. rule_word bytes i = Some x \<and> (\<forall>j<32. bit x (31 - j) = addr_bit bytes (32 * i + j))"
  using assms by (simp add: rule_word_def arr_simps wire_bit(1) addr_bit_part [symmetric] del: One_nat_def)

lemma mask_field_match:
  assumes "rte_type d = RTE_ACL_FIELD_TYPE_MASK" "rte_size d = 4" "\<forall>k<4. data (rte_offset d + k) = a ! (4 * i + k)"
  shows "rte_field_match d (v, m) data \<longleftrightarrow> (\<forall>j<min 32 (unat m). bit v (31 - j) = addr_bit a (32 * i + j))"
proof -
  have upt: "[0..<4] = [0, 1, 2, 3 :: nat]" by (simp add: upt_rec)
  have data: "map (\<lambda>k. data (rte_offset d + k)) [0..<4] = [a ! (4 * i), a ! (4 * i + 1), a ! (4 * i + 2), a ! (4 * i + 3)]"
    using assms(3) [rule_format, of 0] assms(3) [rule_format, of 1] assms(3) [rule_format, of 2] assms(3) [rule_format, of 3]
    by (simp add: upt)
  have "bit (be_value (map (\<lambda>k. data (rte_offset d + k)) [0..<4])) (31 - j) = addr_bit a (32 * i + j)" if "j < 32" for j
    unfolding data wire_bit(2) [OF that] addr_bit_part [OF that] by (rule refl)
  then show ?thesis using assms(1,2) by (auto simp: rte_field_match_def Let_def)
qed

lemma unat_mask_sub: "unat (mask_sub m) = unat m - 32"
  by (cases "m > 32") (simp_all add: mask_sub_def unat_sub order.strict_implies_order word_less_nat_alt not_less)

lemma unat_mask_get: "unat (mask_get m) = min 32 (unat m)"
  by (cases "32 < unat m") (simp_all add: mask_get_def word_less_nat_alt unsigned_ucast_eq take_bit_word_eq_self take_bit_nat_eq_self)

lemma prefix_parts:
  assumes "n \<le> 128"
  shows "same_prefix n a b \<longleftrightarrow> (\<forall>i<4. \<forall>j<min 32 (n - 32 * i). addr_bit a (32 * i + j) = addr_bit b (32 * i + j))"
proof
  assume parts: "\<forall>i<4. \<forall>j<min 32 (n - 32 * i). addr_bit a (32 * i + j) = addr_bit b (32 * i + j)"
  have "addr_bit a x = addr_bit b x" if "x < n" for x
  proof -
    have "32 * (x div 32) + x mod 32 = x" by simp
    then have "x div 32 < 4" "x mod 32 < min 32 (n - 32 * (x div 32))" using that assms by linarith+
    then have "addr_bit a (32 * (x div 32) + x mod 32) = addr_bit b (32 * (x div 32) + x mod 32)" using parts by blast
    then show ?thesis by simp
  qed
  then show "same_prefix n a b" by (simp add: same_prefix_def)
qed (auto simp: same_prefix_def)

lemma zero_byte: "b = (0 :: u8) \<longleftrightarrow> (\<forall>t<8. \<not> bit b (7 - t))"
proof
  assume all: "\<forall>t<8. \<not> bit b (7 - t)"
  have "\<not> bit b n" if "n < 8" for n using all [rule_format, of "7 - n"] that by simp
  then show "b = 0" by (intro bit_word_eqI) simp
qed simp

lemma zero_tail:
  assumes "length a = 16"
  shows "drop 4 a = replicate 12 0 \<longleftrightarrow> (\<forall>i\<in>{1, 2, 3}. \<forall>j<32. \<not> addr_bit a (32 * i + j))"
proof
  assume "drop 4 a = replicate 12 0"
  then have zero: "drop 4 a ! k = 0" if "k < 12" for k using that by simp
  have "a ! m = 0" if "4 \<le> m" "m < 16" for m using zero [of "m - 4"] that assms by simp
  then show "\<forall>i\<in>{1, 2, 3}. \<forall>j<32. \<not> addr_bit a (32 * i + j)" by (auto simp: addr_bit_def)
next
  assume all: "\<forall>i\<in>{1, 2, 3}. \<forall>j<32. \<not> addr_bit a (32 * i + j)"
  show "drop 4 a = replicate 12 0"
  proof (rule nth_equalityI)
    fix k assume "k < length (drop 4 a)"
    then have k: "k < 12" using assms by simp
    have "\<not> bit (a ! (4 + k)) (7 - t)" if t: "t < 8" for t
    proof -
      have "(4 + k) div 4 \<in> {1, 2, 3}" "8 * ((4 + k) mod 4) + t < 32" using k t by auto
      then have "\<not> addr_bit a (32 * ((4 + k) div 4) + (8 * ((4 + k) mod 4) + t))" using all by blast
      moreover have eq: "32 * ((4 + k) div 4) + (8 * ((4 + k) mod 4) + t) = 8 * (4 + k) + t"
        using mult_div_mod_eq [of 4 "4 + k"] by (simp only: distrib_left add_ac mult.assoc [symmetric])
      ultimately have "\<not> addr_bit a (8 * (4 + k) + t)" by (simp only: eq not_False_eq_True)
      moreover have "(8 * (4 + k) + t) div 8 = 4 + k" "(8 * (4 + k) + t) mod 8 = t" using t by presburger+
      ultimately show ?thesis by (simp only: addr_bit_def not_False_eq_True)
    qed
    then have "a ! (4 + k) = 0" by (simp only: zero_byte) blast
    then show "drop 4 a ! k = replicate 12 0 ! k" using k assms by simp
  qed (simp add: assms)
qed

lemma addr_mem_length [simp]: "length (addr_mem a) = 16" "length (le64_bytes x) = 8" "length (le16_bytes p) = 2"
  by (simp_all add: addr_mem_def le64_bytes_def le16_bytes_def)

text \<open>The bytes at the offsets of the fields.\<close>

lemma wdata_fields:
  "wdata_bytes rest w PROTO_offset = ip_protocol (ip_wdata w)"
  "k < 16 \<Longrightarrow> wdata_bytes rest w (SIP_offset + k) = addr_mem (sip (ip_wdata w)) ! k"
  "k < 16 \<Longrightarrow> wdata_bytes rest w (DIP_offset + k) = addr_mem (dip (ip_wdata w)) ! k"
  "k < 2 \<Longrightarrow> wdata_bytes rest w (SPORT_offset + k) = le16_bytes (l4_sport (l4_wdata w)) ! k"
  "k < 2 \<Longrightarrow> wdata_bytes rest w (DPORT_offset + k) = le16_bytes (l4_dport (l4_wdata w)) ! k"
  by (simp_all add: wdata_bytes_def l3l4_bytes_def Let_def l3l4_offset_def PROTO_offset_def SIP_offset_def DIP_offset_def SPORT_offset_def
      DPORT_offset_def nth_append nth_Cons' le16_bytes_def)

lemma unat_to64: "unat (ucast (x :: u8) :: u64) = unat x" "unat (ucast (y :: u16) :: u64) = unat y"
proof -
  have "unat x < 2 ^ 8" "unat y < 2 ^ 16" by (rule order_less_le_trans [OF unsigned_less], simp)+
  then show "unat (ucast x :: u64) = unat x" "unat (ucast y :: u64) = unat y"
    by (simp_all add: unsigned_ucast_eq take_bit_word_eq_self take_bit_nat_eq_self)
qed

lemma bit_ucast64: "bit (ucast (x :: u32) :: u64) n \<longleftrightarrow> bit x n"
  by (auto simp: bit_simps dest: bit_imp_le_length)

text \<open>The four fields of one address, on a packet whose address bytes \<open>a\<close> are at \<open>off\<close>.\<close>

definition addr_def :: "nat \<Rightarrow> nat \<Rightarrow> rte_acl_field_def" where
  "addr_def i off = \<lparr>rte_type = RTE_ACL_FIELD_TYPE_MASK, rte_size = 4, rte_field_index = i, rte_input_index = i, rte_offset = off\<rparr>"

lemma addr_def_match:
  assumes "i < 4" "\<forall>k<16. data (off + k) = a ! k"
  shows "rte_field_match (addr_def n (off + 4 * i)) (v, m) data \<longleftrightarrow> (\<forall>j<min 32 (unat m). bit v (31 - j) = addr_bit a (32 * i + j))"
proof (rule mask_field_match)
  show "\<forall>k<4. data (rte_offset (addr_def n (off + 4 * i)) + k) = a ! (4 * i + k)"
  proof (intro allI impI)
    fix k :: nat assume "k < 4"
    then have "4 * i + k < 16" using assms(1) by simp
    then have "data (off + (4 * i + k)) = a ! (4 * i + k)" using assms(2) by blast
    then show "data (rte_offset (addr_def n (off + 4 * i)) + k) = a ! (4 * i + k)" by (simp add: addr_def_def add.assoc)
  qed
qed (simp_all add: addr_def_def)

lemma all4: "(\<forall>i<4. P i) \<longleftrightarrow> P 0 \<and> P 1 \<and> P 2 \<and> P (3 :: nat)"
  by (auto simp: less4)

lemma addr6_match:
  assumes a: "\<forall>k<16. data (off + k) = a ! k" and n: "unat m \<le> 128"
    and x: "\<forall>i<4. \<forall>j<32. bit (x i :: u32) (31 - j) = addr_bit rb (32 * i + j)"
  shows "(\<forall>i<4. rte_field_match (addr_def (c i) (off + 4 * i)) (ucast (x i), mask_get ((mask_sub ^^ i) m)) data)
    \<longleftrightarrow> addr_match True (unat m) rb a"
proof -
  have mask: "unat ((mask_sub ^^ i) m) = unat m - 32 * i" for i
    by (induction i) (simp_all add: unat_mask_sub)
  have "rte_field_match (addr_def (c i) (off + 4 * i)) (ucast (x i), mask_get ((mask_sub ^^ i) m)) data
      \<longleftrightarrow> (\<forall>j<min 32 (unat m - 32 * i). addr_bit rb (32 * i + j) = addr_bit a (32 * i + j))" if i: "i < 4" for i
    using x i by (simp add: addr_def_match [OF i a] bit_ucast64 unat_mask_get mask)
  then show ?thesis using prefix_parts [OF n] by (simp add: addr_match_def)
qed

lemma addr4_match:
  assumes a: "\<forall>k<16. data (off + k) = a ! k" "length a = 16" and n: "unat (m :: u8) \<le> 32"
    and x: "\<forall>j<32. bit (x :: u32) (31 - j) = addr_bit rb j"
  shows "rte_field_match (addr_def c0 off) (ucast x, ucast m) data \<and>
      (\<forall>i\<in>{1, 2, 3}. rte_field_match (addr_def (c i) (off + 4 * i)) (0, 32) data)
    \<longleftrightarrow> addr_match False (unat m) rb a"
proof -
  have "rte_field_match (addr_def c0 off) (ucast x, ucast m) data \<longleftrightarrow> same_prefix (unat m) rb a"
    using addr_def_match [OF _ a(1), of 0 c0 "ucast x" "ucast m"] n x by (auto simp: bit_ucast64 unat_to64 same_prefix_def)
  moreover have "rte_field_match (addr_def (c i) (off + 4 * i)) (0, 32) data \<longleftrightarrow> (\<forall>j<32. \<not> addr_bit a (32 * i + j))" if "i \<in> {1, 2, 3}" for i
    using addr_def_match [OF _ a(1), of i "c i" 0 32] that by auto
  ultimately show ?thesis using zero_tail [OF a(2)] by (simp add: addr_match_def)
qed

text \<open>The fields of a rule in order, and the definitions in order.\<close>

lemma shared_fields_list:
  "shared_fields raw = (ucast (proto_min raw), ucast (proto_max raw)) # replicate 8 (0, 0)
     @ [(ucast (sport_min raw), ucast (sport_max raw)), (ucast (dport_min raw), ucast (dport_max raw))]"
  by (simp add: shared_fields_def NUM_FIELDS_IPV46_def PROTO_FIELD_def SPORT_FIELD_def DPORT_FIELD_def eval_nat_numeral)

definition range_def :: "nat \<Rightarrow> nat \<Rightarrow> nat \<Rightarrow> nat \<Rightarrow> rte_acl_field_def" where
  "range_def n i input off = \<lparr>rte_type = RTE_ACL_FIELD_TYPE_RANGE, rte_size = n, rte_field_index = i, rte_input_index = input, rte_offset = off\<rparr>"

lemma defs_list:
  "acl_rte_ipv46_defs = range_def 1 0 0 PROTO_offset
     # addr_def 1 (SIP_offset + 4 * 0) # addr_def 2 (SIP_offset + 4 * 1) # addr_def 3 (SIP_offset + 4 * 2) # addr_def 4 (SIP_offset + 4 * 3)
     # addr_def 5 (DIP_offset + 4 * 0) # addr_def 6 (DIP_offset + 4 * 1) # addr_def 7 (DIP_offset + 4 * 2) # addr_def 8 (DIP_offset + 4 * 3)
     # [range_def 2 9 9 SPORT_offset, range_def 2 10 9 DPORT_offset]"
  by (simp add: acl_rte_ipv46_defs_def range_def_def addr_def_def PROTO_FIELD_def SIP_FIELD_def DIP_FIELD_def SPORT_FIELD_def DPORT_FIELD_def)

lemma range1_match: "rte_field_match (range_def 1 i n off) (ucast lo, ucast hi) data \<longleftrightarrow> lo \<le> data off \<and> data off \<le> (hi :: u8)"
  by (simp add: range_def_def rte_field_match_def be_value_def word_le_nat_alt unat_to64)

lemma range2_match:
  assumes "\<forall>k<2. data (off + k) = le16_bytes p ! k"
  shows "rte_field_match (range_def 2 i n off) (ucast lo, ucast hi) data
    \<longleftrightarrow> lo \<le> clib_net_to_host_u16 p \<and> clib_net_to_host_u16 p \<le> (hi :: u16)"
proof -
  have "map (\<lambda>k. data (off + k)) [0..<2] = le16_bytes p"
    using assms [rule_format, of 0] assms [rule_format, of 1] by (simp add: upt_rec le16_bytes_def)
  then show ?thesis
    by (simp add: range_def_def rte_field_match_def be_value2 word_le_nat_alt unat_to64)
qed

definition fields_match :: "(u64 \<times> u64) list \<Rightarrow> (nat \<Rightarrow> u8) \<Rightarrow> bool" where
  "fields_match f data \<longleftrightarrow> (\<forall>d\<in>set acl_rte_ipv46_defs. rte_field_match d (f ! rte_field_index d) data)"

lemma fields_match_list:
  "fields_match [p, s1, s2, s3, s4, d1, d2, d3, d4, sp, dp] data \<longleftrightarrow> rte_field_match (range_def 1 0 0 PROTO_offset) p data
     \<and> rte_field_match (addr_def 1 (SIP_offset + 4 * 0)) s1 data \<and> rte_field_match (addr_def 2 (SIP_offset + 4 * 1)) s2 data
     \<and> rte_field_match (addr_def 3 (SIP_offset + 4 * 2)) s3 data \<and> rte_field_match (addr_def 4 (SIP_offset + 4 * 3)) s4 data
     \<and> rte_field_match (addr_def 5 (DIP_offset + 4 * 0)) d1 data \<and> rte_field_match (addr_def 6 (DIP_offset + 4 * 1)) d2 data
     \<and> rte_field_match (addr_def 7 (DIP_offset + 4 * 2)) d3 data \<and> rte_field_match (addr_def 8 (DIP_offset + 4 * 3)) d4 data
     \<and> rte_field_match (range_def 2 9 9 SPORT_offset) sp data \<and> rte_field_match (range_def 2 10 9 DPORT_offset) dp data"
proof -
  have index: "rte_field_index (addr_def i off) = i" "rte_field_index (range_def n i input off) = i" for n i input off
    by (simp_all add: addr_def_def range_def_def)
  show ?thesis unfolding fields_match_def defs_list by (simp add: index eval_nat_numeral)
qed

lemma addr_fields:
  "\<forall>k<16. wdata_bytes rest w (SIP_offset + k) = addr_mem (sip (ip_wdata w)) ! k"
  "\<forall>k<16. wdata_bytes rest w (DIP_offset + k) = addr_mem (dip (ip_wdata w)) ! k"
  "\<forall>k<2. wdata_bytes rest w (SPORT_offset + k) = le16_bytes (l4_sport (l4_wdata w)) ! k"
  "\<forall>k<2. wdata_bytes rest w (DPORT_offset + k) = le16_bytes (l4_dport (l4_wdata w)) ! k"
  by (simp_all add: wdata_fields)

lemma trans6_match:
  assumes "cfg_ok True s"
  shows "\<exists>f. trans_shm_to_rte_tuple6 s = Some f \<and> (\<forall>rest w. fields_match f (wdata_bytes rest w) = tuple_match True s w)"
proof -
  have len: "length (sip_bytes s) = 16" "length (dip_bytes s) = 16" and n: "unat (sip_mask s) \<le> 128" "unat (dip_mask s) \<le> 128"
    using assms by (simp_all add: cfg_ok_def addr_len_def)
  have "\<forall>i<4. \<exists>x. rule_word (sip_bytes s) i = Some x \<and> (\<forall>j<32. bit x (31 - j) = addr_bit (sip_bytes s) (32 * i + j))"
    using len by (intro allI impI rule_word_bits) simp
  then obtain x where x: "\<forall>i<4. rule_word (sip_bytes s) i = Some (x i)" "\<forall>i<4. \<forall>j<32. bit (x i) (31 - j) = addr_bit (sip_bytes s) (32 * i + j)"
    by metis
  have "\<forall>i<4. \<exists>x. rule_word (dip_bytes s) i = Some x \<and> (\<forall>j<32. bit x (31 - j) = addr_bit (dip_bytes s) (32 * i + j))"
    using len by (intro allI impI rule_word_bits) simp
  then obtain y where y: "\<forall>i<4. rule_word (dip_bytes s) i = Some (y i)" "\<forall>i<4. \<forall>j<32. bit (y i) (31 - j) = addr_bit (dip_bytes s) (32 * i + j)"
    by metis
  let ?m = "\<lambda>m i. mask_get ((mask_sub ^^ i) m)"
  let ?f = "[(ucast (proto_min s), ucast (proto_max s)),
    (ucast (x 0), ?m (sip_mask s) 0), (ucast (x 1), ?m (sip_mask s) 1), (ucast (x 2), ?m (sip_mask s) 2), (ucast (x 3), ?m (sip_mask s) 3),
    (ucast (y 0), ?m (dip_mask s) 0), (ucast (y 1), ?m (dip_mask s) 1), (ucast (y 2), ?m (dip_mask s) 2), (ucast (y 3), ?m (dip_mask s) 3),
    (ucast (sport_min s), ucast (sport_max s)), (ucast (dport_min s), ucast (dport_max s))]"
  have "trans_shm_to_rte_tuple6 s = Some ?f"
    using x(1) y(1) by (simp add: all4 trans_shm_to_rte_tuple6_def shared_fields_list SIP_FIELD_def DIP_FIELD_def eval_nat_numeral Let_def)
  moreover have "fields_match ?f (wdata_bytes rest w) = tuple_match True s w" for rest w
    using addr6_match [OF addr_fields(1) n(1) x(2), of "\<lambda>i. 1 + i" rest w] addr6_match [OF addr_fields(2) n(2) y(2), of "\<lambda>i. 5 + i" rest w]
    by (simp add: fields_match_list all4 range1_match range2_match [OF addr_fields(3)] range2_match [OF addr_fields(4)] wdata_fields(1)
        tuple_match_def Let_def del: One_nat_def) blast
  ultimately show ?thesis by blast
qed

lemma trans4_match:
  assumes "cfg_ok False s"
  shows "\<exists>f. trans_shm_to_rte_tuple4 s = Some f \<and> (\<forall>rest w. fields_match f (wdata_bytes rest w) = tuple_match False s w)"
proof -
  have len: "length (sip_bytes s) = 4" "length (dip_bytes s) = 4" and n: "unat (sip_mask s) \<le> 32" "unat (dip_mask s) \<le> 32"
    using assms by (simp_all add: cfg_ok_def addr_len_def)
  obtain x where x: "rule_word (sip_bytes s) 0 = Some x" "\<forall>j<32. bit x (31 - j) = addr_bit (sip_bytes s) j"
    using rule_word_bits [of 0 "sip_bytes s"] len by auto
  obtain y where y: "rule_word (dip_bytes s) 0 = Some y" "\<forall>j<32. bit y (31 - j) = addr_bit (dip_bytes s) j"
    using rule_word_bits [of 0 "dip_bytes s"] len by auto
  let ?f = "[(ucast (proto_min s), ucast (proto_max s)),
    (ucast x, ucast (sip_mask s)), (0, 32), (0, 32), (0, 32), (ucast y, ucast (dip_mask s)), (0, 32), (0, 32), (0, 32),
    (ucast (sport_min s), ucast (sport_max s)), (ucast (dport_min s), ucast (dport_max s))]"
  have "trans_shm_to_rte_tuple4 s = Some ?f"
    using x(1) y(1) by (simp add: trans_shm_to_rte_tuple4_def shared_fields_list SIP_FIELD_def DIP_FIELD_def eval_nat_numeral Let_def)
  moreover have "fields_match ?f (wdata_bytes rest w) = tuple_match False s w" for rest w
    using addr4_match [OF addr_fields(1) addr_mem_length(1) n(1) x(2), of 1 rest w "\<lambda>i. 1 + i"] addr4_match [OF addr_fields(2) addr_mem_length(1) n(2) y(2), of 5 rest w "\<lambda>i. 5 + i"]
    by (simp add: fields_match_list range1_match range2_match [OF addr_fields(3)] range2_match [OF addr_fields(4)] wdata_fields(1)
        tuple_match_def Let_def del: One_nat_def) blast
  ultimately show ?thesis by blast
qed

section \<open>The new table\<close>

lemma rte_docD:
  assumes "rte_doc R T"
  shows "\<forall>a t. T r a = Some t \<longrightarrow> table_name t \<noteq> name \<Longrightarrow> rte_acl_create R name r = (None, r') \<Longrightarrow> T r' = T r"
    and "\<forall>a t. T r a = Some t \<longrightarrow> table_name t \<noteq> name \<Longrightarrow> rte_acl_create R name r = (Some a, r')
      \<Longrightarrow> T r a = None \<and> T r' = (T r)(a \<mapsto> \<lparr>table_name = name, table_rules = [], table_built = None\<rparr>)"
    and "T r a \<noteq> None \<Longrightarrow> rte_acl_set_ctx_classify R a r = (ret, r') \<Longrightarrow> T r' = T r"
    and "T r a = Some t \<Longrightarrow> rte_acl_add_rules R a x r = (ret, r')
      \<Longrightarrow> T r' = (if ret < 0 then T r else (T r)(a \<mapsto> t\<lparr>table_rules := table_rules t @ [x], table_built := None\<rparr>))"
    and "T r a = Some t \<Longrightarrow> rte_acl_build R a defs r = (ret, r') \<Longrightarrow> \<exists>b. (ret = 0 \<longrightarrow> b = Some defs) \<and> T r' = (T r)(a \<mapsto> t\<lparr>table_built := b\<rparr>)"
    and "T r a \<noteq> None \<Longrightarrow> T (rte_acl_free R a r) = (T r)(a := None)"
    and "T r a = Some t \<Longrightarrow> table_built t = Some defs \<Longrightarrow> list_all2 (rte_result defs (table_rules t)) datas (rte_acl_classify R a datas r)"
proof -
  note doc = assms [unfolded rte_doc_def]
  note doc1 = doc [THEN conjunct1] and doc2 = doc [THEN conjunct2, THEN conjunct1]
    and doc3 = doc [THEN conjunct2, THEN conjunct2, THEN conjunct1]
    and doc4 = doc [THEN conjunct2, THEN conjunct2, THEN conjunct2, THEN conjunct1]
    and doc5 = doc [THEN conjunct2, THEN conjunct2, THEN conjunct2, THEN conjunct2, THEN conjunct1]
    and doc6 = doc [THEN conjunct2, THEN conjunct2, THEN conjunct2, THEN conjunct2, THEN conjunct2]
  show "T r' = T r" if "\<forall>a t. T r a = Some t \<longrightarrow> table_name t \<noteq> name" "rte_acl_create R name r = (None, r')"
    using doc1 [THEN spec, THEN spec, THEN mp, OF that(1)] that(2) by simp
  show "T r a = None \<and> T r' = (T r)(a \<mapsto> \<lparr>table_name = name, table_rules = [], table_built = None\<rparr>)"
    if "\<forall>a t. T r a = Some t \<longrightarrow> table_name t \<noteq> name" "rte_acl_create R name r = (Some a, r')"
    using doc1 [THEN spec, THEN spec, THEN mp, OF that(1)] that(2) by simp
  show "T r' = T r" if "T r a \<noteq> None" "rte_acl_set_ctx_classify R a r = (ret, r')"
    using doc2 [THEN spec, THEN spec, THEN mp, OF that(1)] that(2) by simp
  show "T r' = (if ret < 0 then T r else (T r)(a \<mapsto> t\<lparr>table_rules := table_rules t @ [x], table_built := None\<rparr>))"
    if "T r a = Some t" "rte_acl_add_rules R a x r = (ret, r')"
    using doc3 [THEN spec, THEN spec, THEN spec, THEN spec, THEN mp, OF that(1), of x] that(2) by simp
  show "\<exists>b. (ret = 0 \<longrightarrow> b = Some defs) \<and> T r' = (T r)(a \<mapsto> t\<lparr>table_built := b\<rparr>)"
    if "T r a = Some t" "rte_acl_build R a defs r = (ret, r')"
    using doc4 [THEN spec, THEN spec, THEN spec, THEN spec, THEN mp, OF that(1), of defs] that(2) by simp
  show "T (rte_acl_free R a r) = (T r)(a := None)" if "T r a \<noteq> None"
    using doc5 [THEN spec, THEN spec, THEN mp, OF that] .
  show "list_all2 (rte_result defs (table_rules t)) datas (rte_acl_classify R a datas r)"
    if "T r a = Some t" "table_built t = Some defs"
    using doc6 that by blast
qed

definition trans_fields :: "bool \<Rightarrow> sf_tuple46_rule_cfg_t \<Rightarrow> (u64 \<times> u64) list option" where
  "trans_fields is6 s = (if is6 then trans_shm_to_rte_tuple6 s else trans_shm_to_rte_tuple4 s)"

lemma trans_fields_match:
  "cfg_ok k s \<Longrightarrow> \<exists>f. trans_fields k s = Some f \<and> (\<forall>rest w. fields_match f (wdata_bytes rest w) = tuple_match k s w)"
  using trans4_match trans6_match by (cases k) (simp_all add: trans_fields_def)

definition rte_rule_of :: "nat \<Rightarrow> bool \<Rightarrow> sf_tuple46_rule_cfg_t \<Rightarrow> acl46_rule_cfg" where
  "rte_rule_of n is6 s =
    \<lparr>category_mask = 1, priority = sf_rte_rule_priority n, userdata = of_nat n, rte_fields = the (trans_fields is6 s)\<rparr>"

definition mapped :: "sf_tuple46_rule_t \<Rightarrow> bool" where
  "mapped x \<longleftrightarrow> outer_id_valid (map_rule x) \<and> outer_rule_id (map_rule x) \<noteq> 0"

definition added_rules :: "bool \<Rightarrow> sf_tuple46_rule_t list \<Rightarrow> acl46_rule_cfg list" where
  "added_rules is6 xs = map (\<lambda>x. rte_rule_of (outer_rule_id (map_rule x)) is6 (rule_cfg x)) (filter mapped xs)"

lemma add_rules_loop_run:
  assumes doc: "rte_doc R T" and "T r a = Some t" "\<forall>x\<in>set xs. cfg_ok k (rule_cfg x)" "cnt \<ge> 0"
  shows "\<exists>ret r'. add_rules_loop R k a xs cnt r = Some (ret, r') \<and>
    (\<exists>t'. T r' = (T r)(a \<mapsto> t') \<and> table_name t' = table_name t \<and>
       (ret \<ge> 0 \<longrightarrow> table_rules t' = table_rules t @ added_rules k xs \<and> ret = cnt + int (length (added_rules k xs))))"
  using assms(2-)
proof (induction xs arbitrary: r t cnt)
  case Nil
  then show ?case by (auto simp: added_rules_def fun_upd_idem intro!: exI [of _ t])
next
  case (Cons x xs)
  show ?case
  proof (cases "mapped x")
    case False
    then show ?thesis using Cons.IH [OF Cons.prems(1)] Cons.prems(2,3) by (auto simp: mapped_def added_rules_def)
  next
    case True
    obtain f where f: "trans_fields k (rule_cfg x) = Some f" using trans_fields_match Cons.prems(2) by fastforce
    let ?z = "rte_rule_of (outer_rule_id (map_rule x)) k (rule_cfg x)"
    obtain ret r1 where add: "rte_acl_add_rules R a ?z r = (ret, r1)" by fastforce
    have z: "?z = \<lparr>category_mask = 1, priority = sf_rte_rule_priority (outer_rule_id (map_rule x)),
        userdata = of_nat (outer_rule_id (map_rule x)), rte_fields = f\<rparr>"
      by (simp add: rte_rule_of_def f)
    have step: "add_rules_loop R k a (x # xs) cnt r = (if ret < 0 then Some (-1, r1) else add_rules_loop R k a xs (cnt + 1) r1)"
      using True f add unfolding z by (simp add: mapped_def trans_fields_def)
    have T1: "T r1 = (if ret < 0 then T r else (T r)(a \<mapsto> t\<lparr>table_rules := table_rules t @ [?z], table_built := None\<rparr>))"
      using rte_docD(4) [OF doc Cons.prems(1) add] .
    show ?thesis
    proof (cases "ret < 0")
      case True
      then show ?thesis using step T1 Cons.prems(1) by (auto intro!: exI [of _ t])
    next
      case False
      let ?t = "t\<lparr>table_rules := table_rules t @ [?z], table_built := None\<rparr>"
      have start: "T r1 a = Some ?t" "\<forall>x\<in>set xs. cfg_ok k (rule_cfg x)" "cnt + 1 \<ge> 0" using T1 False Cons.prems by simp_all
      from Cons.IH [OF start]
      obtain ret' r' t' where IH: "add_rules_loop R k a xs (cnt + 1) r1 = Some (ret', r')" "T r' = (T r1)(a \<mapsto> t')"
        "table_name t' = table_name ?t"
        "ret' \<ge> 0 \<longrightarrow> table_rules t' = table_rules ?t @ added_rules k xs \<and> ret' = cnt + 1 + int (length (added_rules k xs))"
        by (elim exE conjE) (rule that; assumption)
      have "added_rules k (x # xs) = ?z # added_rules k xs" using True by (simp add: added_rules_def)
      then show ?thesis using step False T1 IH by (auto intro!: exI [of _ t'])
    qed
  qed
qed

definition rte_rules_of :: "acl_conf \<Rightarrow> acl46_rule_cfg set" where
  "rte_rules_of c = {rte_rule_of n k s | n k s. rules_of c n = Some (k, s)}"

lemma tuple_rules_slots: "shape_ok F \<Longrightarrow> set (tuple_rules F) = slot F ` slots"
proof -
  assume "shape_ok F"
  then have len: "length (tuple_rules F) = 2048" by (simp add: shape_ok_def)
  have slots: "slots = Suc ` {..<2048}" by (auto simp: slots_def image_Suc_lessThan)
  show ?thesis unfolding slots using len by (auto simp: set_conv_nth slot_def image_image)
qed

lemma rules_of_slot:
  assumes "acl_inv c"
  shows "rules_of c n = Some (k, s) \<longleftrightarrow> (\<exists>r\<in>slots. in_map (fam k c) r \<and> outer_of (fam k c) r = n \<and> rule_cfg (slot (fam k c) r) = s)"
proof
  assume n: "rules_of c n = Some (k, s)"
  then have "n \<in> outers" using rules_of_entry(3) by fastforce
  then have "entry_ok c n" by (rule acl_invD(4) [OF assms])
  then consider "entry c n = no_entry"
    | k' r where "r \<in> slots" "entry c n = \<lparr>rule_type = type_of k', actual_rule_id = r\<rparr>" "in_map (fam k' c) r" "outer_of (fam k' c) r = n"
    by (auto simp: entry_ok_def)
  then show "\<exists>r\<in>slots. in_map (fam k c) r \<and> outer_of (fam k c) r = n \<and> rule_cfg (slot (fam k c) r) = s"
    by cases (use n rules_of_entry(1) [OF \<open>n \<in> outers\<close>] in \<open>auto simp: rules_of_entry(2)\<close>)
next
  assume "\<exists>r\<in>slots. in_map (fam k c) r \<and> outer_of (fam k c) r = n \<and> rule_cfg (slot (fam k c) r) = s"
  then show "rules_of c n = Some (k, s)"
    using acl_invD(3) [OF assms] rules_of_entry(1) by (fastforce simp: slot_ok_def)
qed

lemma added_rules_of:
  assumes inv: "acl_inv c"
  shows "set (added_rules k (tuple_rules (fam k c))) = {rte_rule_of n k s | n s. rules_of c n = Some (k, s)}"
proof -
  have "mapped (slot (fam k c) r) \<longleftrightarrow> in_map (fam k c) r" if "r \<in> slots" for r
    using acl_invD(3) [OF inv that, of k] by (auto simp: mapped_def in_map_def slot_ok_def outer_of_def outers_def)
  then have "set (added_rules k (tuple_rules (fam k c))) = {rte_rule_of (outer_of (fam k c) r) k (rule_cfg (slot (fam k c) r)) | r. r \<in> slots \<and> in_map (fam k c) r}"
    unfolding added_rules_def by (auto simp: tuple_rules_slots [OF acl_invD(2) [OF inv]] outer_of_def)
  also have "\<dots> = {rte_rule_of n k s | n s. rules_of c n = Some (k, s)}" unfolding rules_of_slot [OF inv] by blast
  finally show ?thesis .
qed

lemma rules_cfg_ok: "acl_inv c \<Longrightarrow> \<forall>x\<in>set (tuple_rules (fam k c)). cfg_ok k (rule_cfg x)"
  using acl_invD(2,3) by (auto simp: tuple_rules_slots slot_ok_def)

lemma table_add_rules_run:
  assumes doc: "rte_doc R T" and inv: "acl_inv c" and t: "T r a = Some t" "table_rules t = []"
  shows "\<exists>ret r'. rte_acl_table_add_rules R c a r = Some (ret, r') \<and>
    (\<exists>t'. T r' = (T r)(a \<mapsto> t') \<and> table_name t' = table_name t \<and>
       (ret \<ge> 0 \<longrightarrow> set (table_rules t') = rte_rules_of c \<and> ret = int (length (table_rules t'))))"
proof -
  let ?xs = "\<lambda>k. added_rules k (tuple_rules (fam k c))"
  from add_rules_loop_run [OF doc t(1) rules_cfg_ok [OF inv] order_refl, of False]
  obtain ret4 r4 t4 where v4: "add_rules_loop R False a (tuple_rules (fam False c)) 0 r = Some (ret4, r4)" "T r4 = (T r)(a \<mapsto> t4)"
    "table_name t4 = table_name t" "ret4 \<ge> 0 \<longrightarrow> table_rules t4 = table_rules t @ ?xs False \<and> ret4 = 0 + int (length (?xs False))"
    by (elim exE conjE) (rule that; assumption)
  have run4: "rte_acl_table_add_rules R c a r = (if ret4 < 0 then Some (-1, r4) else add_rules_loop R True a (tuple_rules (fam True c)) ret4 r4)"
    using v4(1) by (simp add: rte_acl_table_add_rules_def fam_def)
  show ?thesis
  proof (cases "ret4 < 0")
    case True
    then show ?thesis unfolding run4 using v4(2,3) by (auto intro!: exI [of _ t4])
  next
    case False
    have start: "T r4 a = Some t4" "ret4 \<ge> 0" using v4(2) False by simp_all
    from add_rules_loop_run [OF doc start(1) rules_cfg_ok [OF inv] start(2), of True]
    obtain ret6 r6 t6 where v6: "add_rules_loop R True a (tuple_rules (fam True c)) ret4 r4 = Some (ret6, r6)" "T r6 = (T r4)(a \<mapsto> t6)"
      "table_name t6 = table_name t4" "ret6 \<ge> 0 \<longrightarrow> table_rules t6 = table_rules t4 @ ?xs True \<and> ret6 = ret4 + int (length (?xs True))"
      by (elim exE conjE) (rule that; assumption)
    have "set (?xs False) \<union> set (?xs True) = rte_rules_of c"
      unfolding added_rules_of [OF inv] rte_rules_of_def by (auto, metis (full_types))
    then have rules: "ret6 \<ge> 0 \<longrightarrow> set (table_rules t6) = rte_rules_of c \<and> ret6 = int (length (table_rules t6))"
      using v6(4) v4(4) start(2) t(2) by simp
    have run: "rte_acl_table_add_rules R c a r = Some (ret6, r6)" using run4 False v6(1) by simp
    have "T r6 = (T r)(a \<mapsto> t6)" using v6(2) v4(2) by simp
    then show ?thesis using run v6(3) v4(3) rules by (intro exI conjI) simp_all
  qed
qed

definition model_name :: "nat \<Rightarrow> string" where
  "model_name pre = format_rte_acl_table_name (table_name_model ! pre)"

lemma model_name_differ: "pre < 2 \<Longrightarrow> model_name (1 - pre) \<noteq> model_name pre"
  by (auto simp: model_name_def format_rte_acl_table_name_def table_name_model_def less_2_cases_iff)

text \<open>What a setup does: it fails and leaves no trace, or there are no rules and no table, or a new built table holds the rules.\<close>

lemma table_setup_run:
  assumes doc: "rte_doc R T" and inv: "acl_inv c" and pre: "pre < 2" and new: "\<forall>a t. T r a = Some t \<longrightarrow> table_name t \<noteq> model_name pre"
  shows "\<exists>ret v r'. rte_acl_table_setup R c 1 pre r = Some (ret, v, r') \<and> (ret \<noteq> 0 \<longrightarrow> T r' = T r)
    \<and> (ret = 0 \<longrightarrow> (case v of
        None \<Rightarrow> T r' = T r \<and> rte_rules_of c = {}
      | Some a \<Rightarrow> T r a = None \<and> (\<exists>t. T r' = (T r)(a \<mapsto> t) \<and> table_name t = model_name pre
          \<and> set (table_rules t) = rte_rules_of c \<and> table_built t = Some acl_rte_ipv46_defs)))"
proof -
  have name: "arr_read table_name_model pre = Some (table_name_model ! pre)" using pre by (simp add: table_name_model_def arr_simps)
  note steps = rte_acl_table_setup_def bad_group_def MAX_RULE_GROUP_CNT_def name model_name_def [symmetric]
  obtain p r1 where create: "rte_acl_create R (model_name pre) r = (p, r1)" by fastforce
  show ?thesis
  proof (cases p)
    case None
    then have "T r1 = T r" using rte_docD(1) [OF doc new] create by simp
    then show ?thesis using create None by (simp add: steps)
  next
    case (Some a)
    let ?t = "\<lparr>table_name = model_name pre, table_rules = [], table_built = None\<rparr>"
    have T1: "T r a = None" "T r1 = (T r)(a \<mapsto> ?t)" using rte_docD(2) [OF doc new] create Some by auto
    obtain ret2 r2 where set: "rte_acl_set_ctx_classify R a r1 = (ret2, r2)" by fastforce
    have T2: "T r2 = T r1" using rte_docD(3) [OF doc _ set] T1(2) by simp
    have gone: "T (rte_acl_free R a s) = T r" if "T s = (T r)(a \<mapsto> t)" for s t
      using rte_docD(6) [OF doc, of s a] that T1(1) by (simp add: fun_upd_idem)
    show ?thesis
    proof (cases "ret2 = 0")
      case False
      then show ?thesis using create Some set gone [of r2 ?t] T1(2) T2 by (simp add: steps)
    next
      case True
      have T2a: "T r2 a = Some ?t" "table_rules ?t = []" using T2 T1(2) by simp_all
      from table_add_rules_run [OF doc inv T2a]
      obtain ret3 r3 t3 where add: "rte_acl_table_add_rules R c a r2 = Some (ret3, r3)" "T r3 = (T r2)(a \<mapsto> t3)" "table_name t3 = table_name ?t"
        "ret3 \<ge> 0 \<longrightarrow> set (table_rules t3) = rte_rules_of c \<and> ret3 = int (length (table_rules t3))"
        by (elim exE conjE) (rule that; assumption)
      have T3: "T r3 = (T r)(a \<mapsto> t3)" using add(2) T2 T1(2) by simp
      consider "ret3 < 0" | "ret3 = 0" | "ret3 > 0" by linarith
      then show ?thesis
      proof cases
        case 1
        then show ?thesis using create Some set True add(1) gone [OF T3] by (simp add: steps)
      next
        case 2
        then have "ret3 \<ge> 0" by simp
        then have rules: "set (table_rules t3) = rte_rules_of c" "ret3 = int (length (table_rules t3))" using add(4) by blast+
        then have "table_rules t3 = []" using 2 by simp
        with rules(1) have "rte_rules_of c = {}" by (metis list.set(1))
        then show ?thesis using create Some set True add(1) gone [OF T3] 2 by (simp add: steps rte_acl_table_free_def)
      next
        case 3
        obtain ret4 r4 where build: "rte_acl_build R a acl_rte_ipv46_defs r3 = (ret4, r4)" by fastforce
        have "T r3 a = Some t3" using T3 by simp
        from rte_docD(5) [OF doc this build]
        obtain b where b: "ret4 = 0 \<longrightarrow> b = Some acl_rte_ipv46_defs" "T r4 = (T r3)(a \<mapsto> t3\<lparr>table_built := b\<rparr>)" by blast
        have T4: "T r4 = (T r)(a \<mapsto> t3\<lparr>table_built := b\<rparr>)" using b(2) T3 by simp
        show ?thesis
        proof (cases "ret4 = 0")
          case False
          then show ?thesis using create Some set True add(1) 3 build gone [OF T4] by (simp add: steps)
        next
          case built: True
          have "rte_acl_table_setup R c 1 pre r = Some (0, Some a, r4)"
            using create Some set True add(1) 3 build built by (simp add: steps)
          moreover have "\<exists>t. T r4 = (T r)(a \<mapsto> t) \<and> table_name t = model_name pre
              \<and> set (table_rules t) = rte_rules_of c \<and> table_built t = Some acl_rte_ipv46_defs"
            using T4 add(3,4) 3 b(1) built by (intro exI [of _ "t3\<lparr>table_built := b\<rparr>"]) simp
          ultimately show ?thesis using T1(1) by simp
        qed
      qed
    qed
  qed
qed

text \<open>
  The state between two synchronisations: of the tables with our two names only the one the workers use exists, it is built, and
  its name is not the one that comes next.
\<close>

definition main_ok :: "('r \<Rightarrow> addr \<Rightarrow> rte_table option) \<Rightarrow> sf_acl_main_t \<Rightarrow> 'r \<Rightarrow> bool" where
  "main_ok T m r \<longleftrightarrow> pre_table_name_model m < 2
     \<and> (\<forall>a t. T r a = Some t \<and> table_name t \<in> {model_name 0, model_name 1} \<longrightarrow> v46_context m = Some a)
     \<and> (\<forall>a. v46_context m = Some a \<longrightarrow> (\<exists>t. T r a = Some t \<and> table_name t = model_name (1 - pre_table_name_model m)
          \<and> table_built t = Some acl_rte_ipv46_defs))"

text \<open>The table in use holds the rules of \<open>c\<close>.\<close>

definition in_sync :: "('r \<Rightarrow> addr \<Rightarrow> rte_table option) \<Rightarrow> acl_conf \<Rightarrow> sf_acl_main_t \<Rightarrow> 'r \<Rightarrow> bool" where
  "in_sync T c m r \<longleftrightarrow> (case v46_context m of None \<Rightarrow> rte_rules_of c = {}
     | Some a \<Rightarrow> \<exists>t. T r a = Some t \<and> set (table_rules t) = rte_rules_of c)"

lemma sync_run:
  assumes doc: "rte_doc R T" and inv: "acl_inv c" and main: "main_ok T m r"
  shows "\<exists>ret m' r'. sync_rte_tuple_rules R c m r = Some (ret, m', r') \<and> main_ok T m' r'
    \<and> (ret \<noteq> 0 \<longrightarrow> m' = m \<and> T r' = T r) \<and> (ret = 0 \<longrightarrow> in_sync T c m' r')"
proof -
  let ?pre = "pre_table_name_model m"
  have pre: "?pre < 2" and mine: "\<And>a t. T r a = Some t \<Longrightarrow> table_name t \<in> {model_name 0, model_name 1} \<Longrightarrow> v46_context m = Some a"
    and live: "\<And>a. v46_context m = Some a \<Longrightarrow> \<exists>t. T r a = Some t \<and> table_name t = model_name (1 - ?pre) \<and> table_built t = Some acl_rte_ipv46_defs"
    using main unfolding main_ok_def by auto
  have two: "model_name ?pre \<in> {model_name 0, model_name 1}" "model_name (1 - ?pre) \<in> {model_name 0, model_name 1}"
    using pre by (auto simp: less_2_cases_iff)
  have new: "\<forall>a t. T r a = Some t \<longrightarrow> table_name t \<noteq> model_name ?pre"
  proof (intro allI impI notI)
    fix a t assume t: "T r a = Some t" "table_name t = model_name ?pre"
    then have "v46_context m = Some a" using mine two(1) by simp
    then show False using live t model_name_differ [OF pre] by fastforce
  qed
  from table_setup_run [OF doc inv pre new]
  obtain ret v r1 where run: "rte_acl_table_setup R c 1 ?pre r = Some (ret, v, r1)" "ret \<noteq> 0 \<longrightarrow> T r1 = T r"
    "ret = 0 \<longrightarrow> (case v of
        None \<Rightarrow> T r1 = T r \<and> rte_rules_of c = {}
      | Some a \<Rightarrow> T r a = None \<and> (\<exists>t. T r1 = (T r)(a \<mapsto> t) \<and> table_name t = model_name ?pre
          \<and> set (table_rules t) = rte_rules_of c \<and> table_built t = Some acl_rte_ipv46_defs))"
    by (elim exE conjE) (rule that; assumption)
  show ?thesis
  proof (cases "ret = 0")
    case False
    have "main_ok T m r1" using main run(2) False by (simp add: main_ok_def)
    then show ?thesis using run False by (simp add: sync_rte_tuple_rules_def)
  next
    case ret: True
    let ?m = "m\<lparr>v46_context := v, pre_table_name_model := (if v \<noteq> None then 1 - ?pre else ?pre)\<rparr>"
    let ?r = "rte_acl_table_free R (v46_context m) r1"
    have step: "sync_rte_tuple_rules R c m r = Some (0, ?m, ?r)"
      using run(1) ret pre by (auto simp: sync_rte_tuple_rules_def less_2_cases_iff)
    have free: "T ?r = (case v46_context m of None \<Rightarrow> T r1 | Some a \<Rightarrow> (T r1)(a := None))"
    proof (cases "v46_context m")
      case (Some a)
      obtain t where t: "T r a = Some t" using live [OF Some] by blast
      have "T r1 a \<noteq> None" using run(3) ret t by (cases v) auto
      then show ?thesis using Some rte_docD(6) [OF doc] by (simp add: rte_acl_table_free_def)
    qed (simp add: rte_acl_table_free_def)
    show ?thesis
    proof (cases v)
      case None
      then have T1: "T r1 = T r" "rte_rules_of c = {}" using run(3) ret by simp_all
      have "\<not> (T ?r a = Some t \<and> table_name t \<in> {model_name 0, model_name 1})" for a t
        using mine [of a t] free T1 by (cases "v46_context m") (auto split: if_splits)
      then have "main_ok T ?m ?r" using pre None unfolding main_ok_def by simp
      moreover have "in_sync T c ?m ?r" using T1 None by (simp add: in_sync_def)
      ultimately show ?thesis using step by (intro exI conjI) (assumption, simp_all)
    next
      case (Some n)
      then obtain t where t: "T r n = None" "T r1 = (T r)(n \<mapsto> t)" "table_name t = model_name ?pre" "set (table_rules t) = rte_rules_of c"
        "table_built t = Some acl_rte_ipv46_defs" using run(3) ret by auto
      have differ: "v46_context m \<noteq> Some n" using live t(1) by force
      then have n: "T ?r n = Some t" using free t(2) by (cases "v46_context m") auto
      have only: "a = n" if a: "T ?r a = Some u" "table_name u \<in> {model_name 0, model_name 1}" for a u
      proof (rule ccontr)
        assume "a \<noteq> n"
        then have "T r a = Some u" "v46_context m \<noteq> Some a" using a(1) free t(2) by (cases "v46_context m"; auto split: if_splits)+
        then show False using mine a(2) by simp
      qed
      have "1 - (1 - ?pre) = ?pre" using pre by simp
      then have "main_ok T ?m ?r" unfolding main_ok_def using n t(3,5) pre Some by (auto dest: only)
      moreover have "in_sync T c ?m ?r" using n t(4) Some by (simp add: in_sync_def)
      ultimately show ?thesis using step by (intro exI conjI) (assumption, simp_all)
    qed
  qed
qed

section \<open>Classification after a synchronisation\<close>

text \<open>What a worker does with the packets of a frame: without a table no packet matches.\<close>

definition acl_results :: "'r rte_ops \<Rightarrow> ptr \<Rightarrow> (nat \<Rightarrow> u8) list \<Rightarrow> 'r \<Rightarrow> u32 list" where
  "acl_results R ctx datas r = (case ctx of None \<Rightarrow> replicate (length datas) 0 | Some a \<Rightarrow> rte_acl_classify R a datas r)"

lemma rte_rule_of_match:
  assumes "acl_inv c" "rules_of c n = Some (k, s)"
  shows "rte_match acl_rte_ipv46_defs (rte_rule_of n k s) (wdata_bytes rest w) \<longleftrightarrow> rule_matches c w n"
proof -
  obtain r where "r \<in> slots" "rule_cfg (slot (fam k c) r) = s" using assms(2) rules_of_slot [OF assms(1)] by auto
  then have "cfg_ok k s" using acl_invD(3) [OF assms(1), of r k] by (auto simp: slot_ok_def)
  then obtain f where "trans_fields k s = Some f" "\<forall>rest w. fields_match f (wdata_bytes rest w) = tuple_match k s w"
    using trans_fields_match by blast
  then show ?thesis
    using assms(2) by (simp add: rte_match_def rte_rule_of_def fields_match_def [symmetric] rule_matches_def)
qed

lemma rules_of_outers: "rules_of c n = Some y \<Longrightarrow> 1 \<le> n \<and> n < 4097"
  using rules_of_entry(3) [of n c] by (cases "n \<in> outers") (auto simp: outers_def)

lemma filter_least: "filter P [i..<j] = n # ns \<Longrightarrow> P n \<and> (\<forall>m. i \<le> m \<and> m < j \<and> P m \<longrightarrow> n \<le> m)"
proof -
  assume f: "filter P [i..<j] = n # ns"
  have "sorted (filter P [i..<j])" by (rule sorted_wrt_filter) simp
  then have least: "\<forall>m\<in>set (n # ns). n \<le> m" unfolding f by simp
  have "set (n # ns) = {m. i \<le> m \<and> m < j \<and> P m}" unfolding f [symmetric] by auto
  then show ?thesis using least by auto
qed

lemma filter_none: "filter P [i..<j] = [] \<Longrightarrow> \<forall>m. i \<le> m \<and> m < j \<longrightarrow> \<not> P m"
  by (auto simp: filter_empty_conv)

lemma lookup_least:
  "acl_lookup c w = 0 \<and> (\<forall>n. \<not> rule_matches c w n)
   \<or> rule_matches c w (acl_lookup c w) \<and> (\<forall>n. rule_matches c w n \<longrightarrow> acl_lookup c w \<le> n)"
proof -
  have range: "1 \<le> n \<and> n < 4097" if "rule_matches c w n" for n
    using that rules_of_outers by (auto simp: rule_matches_def split: option.splits)
  show ?thesis
  proof (cases "filter (rule_matches c w) [1..<4097]")
    case Nil
    then have none: "\<not> rule_matches c w n" for n using filter_none [OF Nil] range [of n] by blast
    have "acl_lookup c w = 0" unfolding acl_lookup_def Nil by simp
    then show ?thesis using none by blast
  next
    case (Cons n ns)
    have l: "acl_lookup c w = n" unfolding acl_lookup_def Cons by simp
    have "rule_matches c w n \<and> (\<forall>m. rule_matches c w m \<longrightarrow> n \<le> m)" using filter_least [OF Cons] range by blast
    then show ?thesis unfolding l by blast
  qed
qed

lemma rte_result_lookup:
  assumes inv: "acl_inv c" and rules: "set rules = rte_rules_of c" and v: "rte_result acl_rte_ipv46_defs rules (wdata_bytes rest w) v"
  shows "v = of_nat (acl_lookup c w)"
proof -
  let ?m = "\<lambda>x. rte_match acl_rte_ipv46_defs x (wdata_bytes rest w)"
  have of_rule: "\<exists>n k s. x = rte_rule_of n k s \<and> rules_of c n = Some (k, s) \<and> (?m x \<longleftrightarrow> rule_matches c w n)" if "x \<in> set rules" for x
    using that rte_rule_of_match [OF inv] unfolding rules rte_rules_of_def by blast
  consider "acl_lookup c w = 0" "\<forall>n. \<not> rule_matches c w n"
    | "rule_matches c w (acl_lookup c w)" "\<forall>n. rule_matches c w n \<longrightarrow> acl_lookup c w \<le> n"
    using lookup_least [of c w] by auto
  then show ?thesis
  proof cases
    case 1
    then have "\<forall>x\<in>set rules. \<not> ?m x" using of_rule by blast
    then show ?thesis using v 1(1) by (simp add: rte_result_def)
  next
    case 2
    let ?n = "acl_lookup c w"
    obtain k s where n: "rules_of c ?n = Some (k, s)" using 2(1) by (auto simp: rule_matches_def split: option.splits)
    let ?x = "rte_rule_of ?n k s"
    have "?x \<in> set rules" using n unfolding rules rte_rules_of_def by blast
    moreover have "?m ?x" using rte_rule_of_match [OF inv n] 2(1) by blast
    moreover have "priority y < priority ?x" if y: "y \<in> set rules" "?m y" "y \<noteq> ?x" for y
    proof -
      obtain n' k' s' where y': "y = rte_rule_of n' k' s'" "rules_of c n' = Some (k', s')" "?m y \<longleftrightarrow> rule_matches c w n'"
        using of_rule [OF y(1)] by blast
      have "?n \<le> n'" using 2(2) y(2) y'(3) by blast
      moreover have "n' \<noteq> ?n" using y(3) y'(1,2) n by auto
      ultimately show ?thesis using y'(1) by (simp add: rte_rule_of_def sf_rte_rule_priority_def)
    qed
    ultimately have "v = userdata ?x" using v unfolding rte_result_def by blast
    then show ?thesis by (simp add: rte_rule_of_def)
  qed
qed

lemma results_in_sync:
  assumes doc: "rte_doc R T" and inv: "acl_inv c" and main: "main_ok T m r" and sync: "in_sync T c m r"
  shows "acl_results R (v46_context m) (map (\<lambda>(rest, w). wdata_bytes rest w) ps) r = map (\<lambda>(rest, w). of_nat (acl_lookup c w)) ps"
proof (cases "v46_context m")
  case None
  then have "rules_of c n = None" for n using sync by (cases "rules_of c n") (auto simp: in_sync_def rte_rules_of_def)
  then have "acl_lookup c w = 0" for w using lookup_least [of c w] by (simp add: rule_matches_def)
  then show ?thesis using None by (simp add: acl_results_def map_replicate_const [symmetric] split_def)
next
  case (Some a)
  then obtain t where t: "T r a = Some t" "table_built t = Some acl_rte_ipv46_defs" "set (table_rules t) = rte_rules_of c"
    using main sync by (auto simp: main_ok_def in_sync_def)
  have "list_all2 (rte_result acl_rte_ipv46_defs (table_rules t)) (map (\<lambda>(rest, w). wdata_bytes rest w) ps)
      (rte_acl_classify R a (map (\<lambda>(rest, w). wdata_bytes rest w) ps) r)"
    using rte_docD(7) [OF doc t(1,2)] .
  then have "list_all2 (\<lambda>(rest, w) v. v = of_nat (acl_lookup c w)) ps (rte_acl_classify R a (map (\<lambda>(rest, w). wdata_bytes rest w) ps) r)"
    unfolding list_all2_map1 by (rule list_all2_mono) (auto simp: rte_result_lookup [OF inv t(3)])
  then have "list_all2 (=) (rte_acl_classify R a (map (\<lambda>(rest, w). wdata_bytes rest w) ps) r) (map (\<lambda>(rest, w). of_nat (acl_lookup c w)) ps)"
    by (auto simp: list_all2_conv_all_nth split_def)
  then show ?thesis using Some by (simp add: acl_results_def list.rel_eq)
qed

lemma acl_conf_flag [simp]: "acl_inv (c\<lparr>acl_sync_flag := f\<rparr>) = acl_inv c" "rules_of (c\<lparr>acl_sync_flag := f\<rparr>) = rules_of c"
  "acl_inv (c\<lparr>acl_sync_times := n\<rparr>) = acl_inv c" "rules_of (c\<lparr>acl_sync_times := n\<rparr>) = rules_of c"
proof -
  have parts: "fam k (c\<lparr>acl_sync_flag := f\<rparr>) = fam k c" "fam k (c\<lparr>acl_sync_times := n\<rparr>) = fam k c"
    "entry (c\<lparr>acl_sync_flag := f\<rparr>) i = entry c i" "entry (c\<lparr>acl_sync_times := n\<rparr>) i = entry c i" for k i
    by (simp_all add: fam_def entry_def)
  show "acl_inv (c\<lparr>acl_sync_flag := f\<rparr>) = acl_inv c" "acl_inv (c\<lparr>acl_sync_times := n\<rparr>) = acl_inv c"
    by (simp_all add: acl_inv_def slot_ok_def entry_ok_def parts)
  show "rules_of (c\<lparr>acl_sync_flag := f\<rparr>) = rules_of c" "rules_of (c\<lparr>acl_sync_times := n\<rparr>) = rules_of c"
    by (rule ext, simp only: rules_of_def parts)+
qed

lemma acl_lookup_cong: "rules_of c = rules_of c' \<Longrightarrow> acl_lookup c = acl_lookup c'"
  unfolding acl_lookup_def [abs_def] rule_matches_def [abs_def] by simp

text \<open>C7: One round of the synchronisation process.  Without a request it changes nothing (a request found half done is marked
  failed).  With a request it makes no memory error, keeps the rules, leaves no table behind and never asks for a table under the
  name of the one in use; it either ends with the flag 0, one more in the counter, and from then on every packet is
  classified by the matching rule with the least number (0 without one); or it ends with the flag -2, and
  tables and classification are as before.
\<close>

theorem acl_sync_correct:
  assumes doc: "rte_doc R T" and inv: "acl_inv c" and main: "main_ok T m r"
  shows "(acl_sync_flag c \<noteq> ACL_NEED_SYNC \<longrightarrow>
      (\<exists>f. acl_sync_process R (Some c) m r = Some (Some (c\<lparr>acl_sync_flag := f\<rparr>), m, r)
        \<and> f = (if acl_sync_flag c = ACL_STILL_SYNC then ACL_SYNC_FAILED else acl_sync_flag c)))
    \<and> (acl_sync_flag c = ACL_NEED_SYNC \<longrightarrow>
      (\<exists>c' m' r'. acl_sync_process R (Some c) m r = Some (Some c', m', r') \<and> acl_inv c' \<and> rules_of c' = rules_of c \<and> main_ok T m' r' \<and>
        (acl_sync_flag c' = ACL_SYNC_OK \<and> acl_sync_times c' = (acl_sync_times c + 1) mod 2 ^ 31 \<and>
           (\<forall>ps. acl_results R (v46_context m') (map (\<lambda>(rest, w). wdata_bytes rest w) ps) r'
                 = map (\<lambda>(rest, w). of_nat (acl_lookup c w)) ps)
         \<or> acl_sync_flag c' = ACL_SYNC_FAILED \<and> acl_sync_times c' = acl_sync_times c \<and> m' = m \<and> T r' = T r)))"
proof (intro conjI impI)
  assume "acl_sync_flag c \<noteq> ACL_NEED_SYNC"
  then show "\<exists>f. acl_sync_process R (Some c) m r = Some (Some (c\<lparr>acl_sync_flag := f\<rparr>), m, r)
      \<and> f = (if acl_sync_flag c = ACL_STILL_SYNC then ACL_SYNC_FAILED else acl_sync_flag c)"
    by (simp add: acl_sync_process_def ACL_NEED_SYNC_def ACL_SYNC_FAILED_def ACL_STILL_SYNC_def)
next
  assume need: "acl_sync_flag c = ACL_NEED_SYNC"
  let ?c = "c\<lparr>acl_sync_flag := ACL_STILL_SYNC\<rparr>"
  have inv': "acl_inv ?c" using inv by simp
  from sync_run [OF doc inv' main]
  obtain ret m' r' where run: "sync_rte_tuple_rules R ?c m r = Some (ret, m', r')" "main_ok T m' r'"
    "ret \<noteq> 0 \<longrightarrow> m' = m \<and> T r' = T r" "ret = 0 \<longrightarrow> in_sync T ?c m' r'"
    by (elim exE conjE) (rule that; assumption)
  have same: "rules_of ?c = rules_of c" by simp
  let ?c' = "if ret \<noteq> 0 then ?c\<lparr>acl_sync_flag := ACL_SYNC_FAILED\<rparr>
    else ?c\<lparr>acl_sync_flag := ACL_SYNC_OK, acl_sync_times := (acl_sync_times c + 1) mod 2 ^ 31\<rparr>"
  have step: "acl_sync_process R (Some c) m r = Some (Some ?c', m', r')"
    using need run(1) by (simp add: acl_sync_process_def ACL_NEED_SYNC_def ACL_STILL_SYNC_def)
  have results: "acl_results R (v46_context m') (map (\<lambda>(rest, w). wdata_bytes rest w) ps) r' = map (\<lambda>(rest, w). of_nat (acl_lookup c w)) ps"
    if "ret = 0" for ps
    using results_in_sync [OF doc inv' run(2), of ps] run(4) that unfolding acl_lookup_cong [OF same] by simp
  show "\<exists>c' m' r'. acl_sync_process R (Some c) m r = Some (Some c', m', r') \<and> acl_inv c' \<and> rules_of c' = rules_of c \<and> main_ok T m' r' \<and>
        (acl_sync_flag c' = ACL_SYNC_OK \<and> acl_sync_times c' = (acl_sync_times c + 1) mod 2 ^ 31 \<and>
           (\<forall>ps. acl_results R (v46_context m') (map (\<lambda>(rest, w). wdata_bytes rest w) ps) r'
                 = map (\<lambda>(rest, w). of_nat (acl_lookup c w)) ps)
         \<or> acl_sync_flag c' = ACL_SYNC_FAILED \<and> acl_sync_times c' = acl_sync_times c \<and> m' = m \<and> T r' = T r)"
    by (rule exI [of _ ?c'], rule exI [of _ m'], rule exI [of _ r']) (use step run(2,3) inv results in simp)
qed

lemma sorted_last: "x \<in> set xs \<Longrightarrow> sorted xs \<Longrightarrow> x \<le> last xs"
  by (induction xs) (auto split: if_splits)

text \<open>A classifier as documented that keeps its tables in a list and tries every rule.\<close>

definition ex_table_at :: "rte_table option list \<Rightarrow> addr \<Rightarrow> rte_table option" where
  "ex_table_at r a = (if a < length r then r ! a else None)"

definition ex_best :: "acl46_rule_cfg list \<Rightarrow> u32" where
  "ex_best xs = (if xs = [] then 0 else userdata (last (sort_key priority xs)))"

definition ex_rte :: "rte_table option list rte_ops" where
  "ex_rte = \<lparr>rte_acl_create = (\<lambda>name r. (Some (length r), r @ [Some \<lparr>table_name = name, table_rules = [], table_built = None\<rparr>])),
     rte_acl_set_ctx_classify = (\<lambda>a r. (0, r)),
     rte_acl_add_rules = (\<lambda>a x r. case ex_table_at r a of None \<Rightarrow> (-1, r)
       | Some t \<Rightarrow> (0, r[a := Some (t\<lparr>table_rules := table_rules t @ [x], table_built := None\<rparr>)])),
     rte_acl_build = (\<lambda>a defs r. case ex_table_at r a of None \<Rightarrow> (-1, r) | Some t \<Rightarrow> (0, r[a := Some (t\<lparr>table_built := Some defs\<rparr>)])),
     rte_acl_free = (\<lambda>a r. r[a := None]),
     rte_acl_classify = (\<lambda>a datas r. map (\<lambda>data. case ex_table_at r a of None \<Rightarrow> 0
       | Some t \<Rightarrow> ex_best (filter (\<lambda>x. rte_match (the (table_built t)) x data) (table_rules t))) datas)\<rparr>"

lemma ex_table_update: "ex_table_at r a \<noteq> None \<Longrightarrow> ex_table_at (r[a := v]) = (ex_table_at r)(a := v)"
  by (auto simp: ex_table_at_def fun_eq_iff split: if_splits)

lemma ex_best_result: "rte_result defs rules data (ex_best (filter (\<lambda>x. rte_match defs x data) rules))"
  unfolding rte_result_def
proof (intro conjI impI ballI)
  assume "\<forall>x\<in>set rules. \<not> rte_match defs x data"
  then show "ex_best (filter (\<lambda>x. rte_match defs x data) rules) = 0" by (simp add: ex_best_def filter_empty_conv)
next
  fix x assume x: "x \<in> set rules"
    and best: "rte_match defs x data \<and> (\<forall>y\<in>set rules. rte_match defs y data \<and> y \<noteq> x \<longrightarrow> priority y < priority x)"
  let ?ms = "sort_key priority (filter (\<lambda>x. rte_match defs x data) rules)"
  have xs: "x \<in> set ?ms" using x best by simp
  then have ne: "?ms \<noteq> []" by (metis list.set(1) empty_iff)
  have last: "last ?ms \<in> set ?ms" using ne by (rule last_in_set)
  have "priority x \<le> priority (last ?ms)"
  proof -
    have "priority x \<in> set (map priority ?ms)" using xs by simp
    then have "priority x \<le> last (map priority ?ms)" by (rule sorted_last) simp
    then show ?thesis using ne by (simp add: last_map)
  qed
  then have "last ?ms = x" using last best by (auto simp: not_less)
  then show "ex_best (filter (\<lambda>x. rte_match defs x data) rules) = userdata x"
    using x best by (auto simp: ex_best_def filter_empty_conv)
qed

lemma ex_rte_doc: "rte_doc ex_rte ex_table_at"
proof -
  have create: "ex_table_at r (length r) = None" "ex_table_at (r @ [v]) = (ex_table_at r)(length r := v)" for r v
    by (auto simp: ex_table_at_def nth_append fun_eq_iff)
  show ?thesis
    unfolding rte_doc_def ex_rte_def
    by (intro conjI allI impI) (auto simp: create ex_table_update ex_best_result list_all2_map2 list.rel_refl list_all2_same)
qed

text \<open>A configuration with one rule, under the number 5, for packets whose fields are all zero.\<close>

lemma ex_one_rule:
  "\<exists>c. acl_inv c \<and> rules_of c = [5 \<mapsto> (False, zero_cfg False)]"
proof -
  have places: "5 \<in> outers" "1 \<in> slots" by (simp_all add: outers_def slots_def)
  have slot1: "slot (fam False (zero_conf 0 0)) 1 = \<lparr>map_rule = zero_map_rule, rule_cfg = zero_cfg False\<rparr>"
    by (simp add: slot_def fam_def zero_conf_def zero_family_def)
  have "entry (zero_conf 0 0) 5 = no_entry" by (simp add: entry_def zero_conf_def)
  moreover have "\<not> in_map (fam False (zero_conf 0 0)) 1" unfolding in_map_def slot1 by (simp add: zero_map_rule_def)
  ultimately obtain c where "acl_inv c" "rules_of c = (rules_of (zero_conf 0 0))(5 \<mapsto> (False, rule_cfg (slot (fam False (zero_conf 0 0)) 1)))"
    using map_new_rule_step [OF zero_conf_inv(1) places] by metis
  then show ?thesis by (auto simp: zero_conf_inv(2) slot1 [unfolded One_nat_def])
qed

definition ex_packet :: "u8 \<Rightarrow> sf_wdata_t" where
  "ex_packet proto = undefined\<lparr>ip_wdata := undefined\<lparr>ip_protocol := proto, sip := zero_addr, dip := zero_addr\<rparr>,
     l4_wdata := undefined\<lparr>l4_sport := 0, l4_dport := 0\<rparr>\<rparr>"

lemma ex_packet_match: "tuple_match False (zero_cfg False) (ex_packet p) \<longleftrightarrow> p = 0"
proof -
  have zero: "addr_mem zero_addr = replicate 16 0"
    by (simp add: addr_mem_def le64_bytes_def zero_addr_def upt_rec eval_nat_numeral)
  have "clib_net_to_host_u16 0 = 0" by (simp add: clib_net_to_host_u16_def)
  then show ?thesis
    by (simp add: tuple_match_def zero_cfg_def ex_packet_def zero addr_match_def same_prefix_def)
qed

theorem acl_sync_correct_witness:
  "\<exists>c c' m' r'. rules_of c = [5 \<mapsto> (False, zero_cfg False)]
    \<and> acl_sync_process ex_rte (Some c) \<lparr>v46_context = None, pre_table_name_model = 0\<rparr> [] = Some (Some c', m', r')
    \<and> main_ok ex_table_at m' r'
    \<and> (acl_sync_flag c' = ACL_SYNC_OK \<longrightarrow>
        acl_results ex_rte (v46_context m') (map (\<lambda>(rest, w). wdata_bytes rest w) [(\<lambda>_. 1, ex_packet 0), (\<lambda>_. 1, ex_packet 6)]) r' = [5, 0])"
proof -
  obtain c0 where c0: "acl_inv c0" "rules_of c0 = [5 \<mapsto> (False, zero_cfg False)]" using ex_one_rule by blast
  define c where "c = c0\<lparr>acl_sync_flag := ACL_NEED_SYNC\<rparr>"
  have c: "acl_inv c" "rules_of c = [5 \<mapsto> (False, zero_cfg False)]" "acl_sync_flag c = ACL_NEED_SYNC"
    using c0 by (simp_all add: c_def)
  let ?m = "\<lparr>v46_context = None, pre_table_name_model = 0\<rparr>"
  have main: "main_ok ex_table_at ?m []" by (simp add: main_ok_def ex_table_at_def)
  have matches: "rule_matches c (ex_packet p) n \<longleftrightarrow> n = 5 \<and> p = 0" for p n
    using c(2) by (auto simp: rule_matches_def ex_packet_match)
  have look: "acl_lookup c (ex_packet 0) = 5" "acl_lookup c (ex_packet 6) = 0"
    using lookup_least [of c "ex_packet 0"] lookup_least [of c "ex_packet 6"] by (auto simp: matches)
  from acl_sync_correct [OF ex_rte_doc c(1) main, THEN conjunct2, THEN mp, OF c(3)]
  obtain c' m' r' where run: "acl_sync_process ex_rte (Some c) ?m [] = Some (Some c', m', r')" "main_ok ex_table_at m' r'"
    "acl_sync_flag c' = ACL_SYNC_OK \<longrightarrow> (\<forall>ps. acl_results ex_rte (v46_context m') (map (\<lambda>(rest, w). wdata_bytes rest w) ps) r'
                 = map (\<lambda>(rest, w). of_nat (acl_lookup c w)) ps)"
    unfolding ACL_SYNC_OK_def ACL_SYNC_FAILED_def by fastforce
  let ?ps = "[(\<lambda>_. 1, ex_packet 0), (\<lambda>_. 1, ex_packet 6)]"
  have "acl_sync_flag c' = ACL_SYNC_OK \<longrightarrow> acl_results ex_rte (v46_context m') (map (\<lambda>(rest, w). wdata_bytes rest w) ?ps) r' = [5, 0]"
    using run(3) [THEN mp, THEN spec, of ?ps] look by simp
  then show ?thesis
    by (intro exI [of _ c] exI [of _ c'] exI [of _ m'] exI [of _ r'] conjI c(2) run(1,2))
qed

end
