(* ===== verification/Acl_Workers.thy ===== *)
theory Acl_Workers
  imports Acl_Sync
begin

text \<open>
  The exchange of the classification table while workers classify packets: \<open>sync_rte_tuple_rules\<close> of
  \<open>src/acl/other/acl_tuple_sync.c\<close> on the main thread against the node \<open>sf_acl_entry\<close> (\<open>src/acl/nodes/acl_entry.c\<close>) on every
  worker, step by step.  A worker holds its lock while it classifies; the main thread stores the address of the new table without a
  lock, then takes and releases the lock of every worker once (\<open>sf_rte_table_sync\<close>), and then frees the old table.  Every access to the
  shared address \<open>v46_context\<close> is a step of its own, so the test against NULL and the use of the address are two steps.
\<close>

section \<open>Steps\<close>

datatype worker_pc =
    W_idle
  | W_locked
  | W_tested
  | W_classify ptr
  | W_done

text \<open>Before the next exchange; waiting for worker \<open>i\<close>, or holding its lock, with the old table; about to free it.\<close>

datatype main_pc =
    M_idle
  | M_wait ptr nat
  | M_holds ptr nat

record sync_state =
  shared :: ptr
  live :: "addr set"
  sync_lock :: "nat \<Rightarrow> bool"
  wpc :: "nat \<Rightarrow> worker_pc"
  mpc :: main_pc

inductive sync_step :: "nat \<Rightarrow> sync_state \<Rightarrow> sync_state \<Rightarrow> bool" for n where
  worker_lock: "w < n \<Longrightarrow> wpc s w = W_idle \<Longrightarrow> \<not> sync_lock s w
    \<Longrightarrow> sync_step n s (s\<lparr>sync_lock := (sync_lock s)(w := True), wpc := (wpc s)(w := W_locked)\<rparr>)"
| worker_no_table: "w < n \<Longrightarrow> wpc s w = W_locked \<Longrightarrow> shared s = None
    \<Longrightarrow> sync_step n s (s\<lparr>wpc := (wpc s)(w := W_done)\<rparr>)"
| worker_test: "w < n \<Longrightarrow> wpc s w = W_locked \<Longrightarrow> shared s \<noteq> None
    \<Longrightarrow> sync_step n s (s\<lparr>wpc := (wpc s)(w := W_tested)\<rparr>)"
| worker_read: "w < n \<Longrightarrow> wpc s w = W_tested
    \<Longrightarrow> sync_step n s (s\<lparr>wpc := (wpc s)(w := W_classify (shared s))\<rparr>)"
| worker_return: "w < n \<Longrightarrow> wpc s w = W_classify p
    \<Longrightarrow> sync_step n s (s\<lparr>wpc := (wpc s)(w := W_done)\<rparr>)"
| worker_unlock: "w < n \<Longrightarrow> wpc s w = W_done
    \<Longrightarrow> sync_step n s (s\<lparr>sync_lock := (sync_lock s)(w := False), wpc := (wpc s)(w := W_idle)\<rparr>)"
| main_swap: "mpc s = M_idle \<Longrightarrow> v = None \<or> (\<exists>a. v = Some a \<and> a \<notin> live s)
    \<Longrightarrow> sync_step n s (s\<lparr>shared := v, live := live s \<union> set_option v, mpc := M_wait (shared s) 0\<rparr>)"
| main_lock: "mpc s = M_wait old i \<Longrightarrow> i < n \<Longrightarrow> \<not> sync_lock s i
    \<Longrightarrow> sync_step n s (s\<lparr>sync_lock := (sync_lock s)(i := True), mpc := M_holds old i\<rparr>)"
| main_unlock: "mpc s = M_holds old i
    \<Longrightarrow> sync_step n s (s\<lparr>sync_lock := (sync_lock s)(i := False), mpc := M_wait old (Suc i)\<rparr>)"
| main_free: "mpc s = M_wait old n
    \<Longrightarrow> sync_step n s (s\<lparr>live := live s - set_option old, mpc := M_idle\<rparr>)"

definition sync_init :: sync_state where
  "sync_init = \<lparr>shared = None, live = {}, sync_lock = (\<lambda>_. False), wpc = (\<lambda>_. W_idle), mpc = M_idle\<rparr>"

inductive reachable :: "nat \<Rightarrow> sync_state \<Rightarrow> bool" for n where
  start: "reachable n sync_init"
| step: "reachable n s \<Longrightarrow> sync_step n s s' \<Longrightarrow> reachable n s'"

inductive_cases sync_stepE: "sync_step n s s'"

section \<open>The invariant\<close>

text \<open>Whether the main thread has waited for worker \<open>w\<close> since the last exchange, or there is nothing to wait for.\<close>

fun passed :: "main_pc \<Rightarrow> nat \<Rightarrow> bool" where
  "passed M_idle w \<longleftrightarrow> True"
| "passed (M_wait old i) w \<longleftrightarrow> w < i"
| "passed (M_holds old i) w \<longleftrightarrow> w \<le> i"

fun old_table :: "main_pc \<Rightarrow> ptr" where
  "old_table M_idle = None"
| "old_table (M_wait old i) = old"
| "old_table (M_holds old i) = old"

text \<open>
  A lock is held by its worker, between lock and unlock, or by the main thread, not by both; a worker that classifies uses the
  table in use, or the old one and then the main thread has not waited for it yet; exactly these tables exist.
\<close>

definition sync_inv :: "nat \<Rightarrow> sync_state \<Rightarrow> bool" where
  "sync_inv n s \<longleftrightarrow>
     (\<forall>w<n. sync_lock s w \<longleftrightarrow> wpc s w \<noteq> W_idle \<or> (\<exists>old. mpc s = M_holds old w))
   \<and> (\<forall>w old. mpc s = M_holds old w \<longrightarrow> w < n \<and> wpc s w = W_idle)
   \<and> (\<forall>w old. mpc s = M_wait old w \<longrightarrow> w \<le> n)
   \<and> (\<forall>w p. w < n \<and> wpc s w = W_classify p \<longrightarrow> p = shared s \<or> p = old_table (mpc s) \<and> \<not> passed (mpc s) w)
   \<and> live s = set_option (shared s) \<union> set_option (old_table (mpc s))
   \<and> set_option (shared s) \<inter> set_option (old_table (mpc s)) = {}"

lemma sync_inv_init: "sync_inv n sync_init"
  by (simp add: sync_inv_def sync_init_def)

lemma sync_inv_step: "sync_step n s s' \<Longrightarrow> sync_inv n s \<Longrightarrow> sync_inv n s'"
proof (induction rule: sync_step.induct)
  case (worker_lock w s)
  then show ?case by (auto simp: sync_inv_def split: if_splits)
next
  case (worker_no_table w s)
  then show ?case by (auto simp: sync_inv_def split: if_splits)
next
  case (worker_test w s)
  then show ?case by (auto simp: sync_inv_def split: if_splits)
next
  case (worker_read w s)
  then show ?case by (auto simp: sync_inv_def split: if_splits)
next
  case (worker_return w s p)
  then show ?case by (auto simp: sync_inv_def split: if_splits)
next
  case (worker_unlock w s)
  then show ?case by (auto simp: sync_inv_def split: if_splits)
next
  case (main_swap s v)
  then show ?case by (auto simp: sync_inv_def split: if_splits)
next
  case (main_lock s old i)
  then have idle: "wpc s i = W_idle" by (auto simp: sync_inv_def)
  have "\<forall>w p. w < n \<and> wpc s w = W_classify p \<longrightarrow> p = shared s \<or> p = old \<and> i < w"
  proof (intro allI impI)
    fix w p assume w: "w < n \<and> wpc s w = W_classify p"
    then have "p = shared s \<or> p = old \<and> \<not> w < i" using main_lock by (auto simp: sync_inv_def)
    moreover have "w \<noteq> i" using w idle by auto
    ultimately show "p = shared s \<or> p = old \<and> i < w" by auto
  qed
  then show ?case using main_lock idle by (auto simp: sync_inv_def not_le)
next
  case (main_unlock s old i)
  then have i: "i < n" "wpc s i = W_idle" by (simp_all add: sync_inv_def)
  have "p = shared s \<or> p = old \<and> \<not> w < Suc i" if "w < n" "wpc s w = W_classify p" for w p
    using main_unlock that by (simp add: sync_inv_def less_Suc_eq_le)
  then show ?case using main_unlock i unfolding sync_inv_def by (simp add: Suc_le_eq)
next
  case (main_free s old)
  then show ?case by (auto simp: sync_inv_def split: if_splits)
qed

lemma reachable_inv: "reachable n s \<Longrightarrow> sync_inv n s"
  by (induction rule: reachable.induct) (auto intro: sync_inv_init sync_inv_step)

section \<open>An exchange can always be completed\<close>

definition leads_to :: "nat \<Rightarrow> sync_state \<Rightarrow> (sync_state \<Rightarrow> bool) \<Rightarrow> bool" where
  "leads_to n s Q \<longleftrightarrow> (\<exists>s'. (sync_step n)\<^sup>*\<^sup>* s s' \<and> Q s')"

lemma leads_to_now: "Q s \<Longrightarrow> leads_to n s Q"
  by (auto simp: leads_to_def)

lemma leads_to_step: "sync_step n s s1 \<Longrightarrow> leads_to n s1 Q \<Longrightarrow> leads_to n s Q"
  by (auto simp: leads_to_def intro: converse_rtranclp_into_rtranclp)

lemma leads_to_trans: "leads_to n s P \<Longrightarrow> (\<And>s1. P s1 \<Longrightarrow> leads_to n s1 Q) \<Longrightarrow> leads_to n s Q"
  unfolding leads_to_def by (meson rtranclp_trans)

lemma sync_inv_steps: "(sync_step n)\<^sup>*\<^sup>* s s' \<Longrightarrow> sync_inv n s \<Longrightarrow> sync_inv n s'"
  by (induction rule: rtranclp_induct) (auto intro: sync_inv_step)

lemma leads_to_inv: "leads_to n s Q \<Longrightarrow> sync_inv n s \<Longrightarrow> leads_to n s (\<lambda>s. Q s \<and> sync_inv n s)"
  by (auto simp: leads_to_def intro: sync_inv_steps)

text \<open>A worker that holds its lock can go on to release it, and the main thread does not move meanwhile.\<close>

lemma worker_finishes:
  assumes "w < n"
  shows "leads_to n s (\<lambda>s'. wpc s' = (wpc s)(w := W_idle) \<and> mpc s' = mpc s \<and> shared s' = shared s)"
proof -
  let ?same = "\<lambda>t. mpc t = mpc s \<and> shared t = shared s \<and> (wpc t)(w := W_idle) = (wpc s)(w := W_idle)"
  let ?Q = "\<lambda>s'. wpc s' = (wpc s)(w := W_idle) \<and> mpc s' = mpc s \<and> shared s' = shared s"
  have finished: "leads_to n t ?Q" if "wpc t w = W_done" "?same t" for t
    by (rule leads_to_step [OF worker_unlock [OF assms that(1)]], rule leads_to_now) (use that(2) in simp)
  have classify: "leads_to n t ?Q" if "wpc t w = W_classify p" "?same t" for t p
    by (rule leads_to_step [OF worker_return [OF assms that(1)]], rule finished) (use that(2) in simp_all)
  have tested: "leads_to n t ?Q" if "wpc t w = W_tested" "?same t" for t
    by (rule leads_to_step [OF worker_read [OF assms that(1)]], rule classify) (use that(2) in simp_all)
  have locked: "leads_to n t ?Q" if "wpc t w = W_locked" "?same t" for t
  proof (cases "shared t")
    case None
    show ?thesis by (rule leads_to_step [OF worker_no_table [OF assms that(1) None]], rule finished) (use that(2) in simp_all)
  next
    case (Some a)
    then have "shared t \<noteq> None" by simp
    show ?thesis by (rule leads_to_step [OF worker_test [OF assms that(1) \<open>shared t \<noteq> None\<close>]], rule tested) (use that(2) in simp_all)
  qed
  show ?thesis
  proof (cases "wpc s w")
    case W_idle
    then show ?thesis by (intro leads_to_now) (simp add: fun_upd_idem)
  qed (auto intro: locked tested classify finished)
qed

lemma main_finishes:
  "mpc s = M_wait old i \<Longrightarrow> sync_inv n s
    \<Longrightarrow> leads_to n s (\<lambda>s'. mpc s' = M_idle \<and> shared s' = shared s \<and> (\<forall>w. wpc s w = W_idle \<longrightarrow> wpc s' w = W_idle))"
proof (induction "n - i" arbitrary: s i)
  case 0
  then have "i = n" by (simp add: sync_inv_def)
  then have "mpc s = M_wait old n" using 0(2) by simp
  show ?case by (rule leads_to_step [OF main_free [OF \<open>mpc s = M_wait old n\<close>]], rule leads_to_now) simp
next
  case (Suc d)
  let ?Q = "\<lambda>s'. mpc s' = M_idle \<and> shared s' = shared s \<and> (\<forall>w. wpc s w = W_idle \<longrightarrow> wpc s' w = W_idle)"
  have i: "i < n" using Suc.hyps(2) by simp
  show ?case
  proof (rule leads_to_trans [OF leads_to_inv [OF worker_finishes [OF i] Suc.prems(2)]])
    fix t assume t: "(wpc t = (wpc s)(i := W_idle) \<and> mpc t = mpc s \<and> shared t = shared s) \<and> sync_inv n t"
    then have m: "mpc t = M_wait old i" and free: "\<not> sync_lock t i" using Suc.prems(1) i by (auto simp: sync_inv_def)
    let ?t1 = "t\<lparr>sync_lock := (sync_lock t)(i := True), mpc := M_holds old i\<rparr>"
    let ?t2 = "?t1\<lparr>sync_lock := (sync_lock ?t1)(i := False), mpc := M_wait old (Suc i)\<rparr>"
    have step1: "sync_step n t ?t1" by (rule main_lock [OF m i free])
    have step2: "sync_step n ?t1 ?t2" by (rule main_unlock) simp
    have inv: "sync_inv n ?t2" using sync_inv_step [OF step2 sync_inv_step [OF step1]] t by blast
    have "leads_to n ?t2 (\<lambda>s'. mpc s' = M_idle \<and> shared s' = shared ?t2 \<and> (\<forall>w. wpc ?t2 w = W_idle \<longrightarrow> wpc s' w = W_idle))"
      using Suc.hyps(1) [of "Suc i" ?t2] Suc.hyps(2) inv by simp
    then have "leads_to n ?t2 ?Q" using t by (auto simp: leads_to_def)
    then show "leads_to n t ?Q" by (rule leads_to_step [OF step1 leads_to_step [OF step2]])
  qed
qed

text \<open>C8: In every state that the workers and the main thread can reach in any interleaving: a table that a worker classifies
  with exists; of all tables only the one in use and, during an exchange, the old one exist, so between exchanges nothing is left
  over; the main thread and a worker never hold the same lock; and the main thread can always come to the end of its exchange.
\<close>

theorem acl_exchange_safe:
  assumes "reachable n s"
  shows "(\<forall>w<n. \<forall>a. wpc s w = W_classify (Some a) \<longrightarrow> a \<in> live s)
    \<and> live s = set_option (shared s) \<union> set_option (old_table (mpc s))
    \<and> (\<forall>w old. mpc s = M_holds old w \<longrightarrow> wpc s w = W_idle)
    \<and> (\<exists>s'. (sync_step n)\<^sup>*\<^sup>* s s' \<and> mpc s' = M_idle \<and> shared s' = shared s \<and> live s' = set_option (shared s))"
proof -
  have inv: "sync_inv n s" using assms by (rule reachable_inv)
  have "leads_to n s (\<lambda>s'. mpc s' = M_idle \<and> shared s' = shared s)"
  proof (cases "mpc s")
    case M_idle
    then show ?thesis by (intro leads_to_now) simp
  next
    case (M_wait old i)
    then show ?thesis using main_finishes [OF M_wait inv] by (auto simp: leads_to_def)
  next
    case (M_holds old i)
    let ?t = "s\<lparr>sync_lock := (sync_lock s)(i := False), mpc := M_wait old (Suc i)\<rparr>"
    have step: "sync_step n s ?t" by (rule main_unlock [OF M_holds])
    have "leads_to n ?t (\<lambda>s'. mpc s' = M_idle \<and> shared s' = shared s)"
      using main_finishes [of ?t old "Suc i", OF _ sync_inv_step [OF step inv]] by (auto simp: leads_to_def)
    then show ?thesis by (rule leads_to_step [OF step])
  qed
  from leads_to_inv [OF this inv]
  obtain s' where s': "(sync_step n)\<^sup>*\<^sup>* s s'" "mpc s' = M_idle" "shared s' = shared s" "sync_inv n s'"
    unfolding leads_to_def by (elim exE conjE) (rule that; assumption)
  then have "live s' = set_option (shared s)" by (simp add: sync_inv_def)
  then have "(sync_step n)\<^sup>*\<^sup>* s s' \<and> mpc s' = M_idle \<and> shared s' = shared s \<and> live s' = set_option (shared s)"
    using s' by (intro conjI)
  then have finishes: "\<exists>s'. (sync_step n)\<^sup>*\<^sup>* s s' \<and> mpc s' = M_idle \<and> shared s' = shared s \<and> live s' = set_option (shared s)"
    by (rule exI)
  have exists: "\<forall>w<n. \<forall>a. wpc s w = W_classify (Some a) \<longrightarrow> a \<in> live s"
  proof (intro allI impI)
    fix w a assume "w < n" "wpc s w = W_classify (Some a)"
    then have "Some a = shared s \<or> Some a = old_table (mpc s)" using inv unfolding sync_inv_def by blast
    then show "a \<in> live s" using inv unfolding sync_inv_def by (metis UnI1 UnI2 option.set_intros)
  qed
  have "live s = set_option (shared s) \<union> set_option (old_table (mpc s))" "\<forall>w old. mpc s = M_holds old w \<longrightarrow> wpc s w = W_idle"
    using inv by (simp_all add: sync_inv_def)
  then show ?thesis using exists finishes by (intro conjI)
qed

text \<open>C37: The worker tests the shared address and reads it again to pass it on.  With at least one worker, a state is reachable in which it
  classifies with NULL: the main thread took away the last rule, and with it the table, between the two reads.
\<close>

theorem acl_null_race:
  assumes "0 < n"
  shows "\<exists>s. reachable n s \<and> wpc s 0 = W_classify None \<and> mpc s = M_wait (Some a) 0"
proof -
  let ?s1 = "sync_init\<lparr>shared := Some a, live := live sync_init \<union> set_option (Some a), mpc := M_wait (shared sync_init) 0\<rparr>"
  have r1: "reachable n ?s1" by (rule reachable.step [OF start main_swap]) (simp_all add: sync_init_def)
  obtain s where s: "(sync_step n)\<^sup>*\<^sup>* ?s1 s" "mpc s = M_idle" "shared s = Some a" "wpc s 0 = W_idle"
    using main_finishes [of ?s1 "shared sync_init" 0, OF _ reachable_inv [OF r1]] by (auto simp: leads_to_def sync_init_def)
  have r: "reachable n s" using s(1) r1 by (induction rule: rtranclp_induct) (auto intro: reachable.step)
  have free: "\<not> sync_lock s 0" using reachable_inv [OF r] s(2,4) assms by (auto simp: sync_inv_def)
  let ?s2 = "s\<lparr>sync_lock := (sync_lock s)(0 := True), wpc := (wpc s)(0 := W_locked)\<rparr>"
  let ?s3 = "?s2\<lparr>wpc := (wpc ?s2)(0 := W_tested)\<rparr>"
  let ?s4 = "?s3\<lparr>shared := None, live := live ?s3 \<union> set_option None, mpc := M_wait (shared ?s3) 0\<rparr>"
  let ?s5 = "?s4\<lparr>wpc := (wpc ?s4)(0 := W_classify (shared ?s4))\<rparr>"
  have "reachable n ?s2" by (rule reachable.step [OF r worker_lock [OF assms s(4) free]])
  then have "reachable n ?s3" by (rule reachable.step) (rule worker_test [OF assms], use s(3) in simp_all)
  then have "reachable n ?s4" by (rule reachable.step) (rule main_swap, use s(2) in simp_all)
  then have "reachable n ?s5" by (rule reachable.step) (rule worker_read [OF assms], simp)
  then show ?thesis by (rule exI [of _ ?s5, OF conjI]) (use s(3) in simp)
qed

definition ex_swapped :: sync_state where
  "ex_swapped = sync_init\<lparr>shared := Some 7, live := {7}, mpc := M_wait None 0\<rparr>"

lemma ex_swapped_reachable: "reachable 2 ex_swapped"
proof -
  have "sync_step 2 sync_init (sync_init\<lparr>shared := Some 7, live := live sync_init \<union> set_option (Some 7), mpc := M_wait (shared sync_init) 0\<rparr>)"
    by (rule main_swap) (simp_all add: sync_init_def)
  then show ?thesis using reachable.step [OF start] by (simp add: ex_swapped_def sync_init_def)
qed

theorem acl_exchange_safe_witness:
  "\<exists>s'. (sync_step 2)\<^sup>*\<^sup>* ex_swapped s' \<and> mpc s' = M_idle \<and> live s' = {7}"
  using acl_exchange_safe [OF ex_swapped_reachable] by (auto simp: ex_swapped_def)

theorem acl_null_race_witness: "\<exists>s a. reachable 3 s \<and> wpc s 0 = W_classify None \<and> mpc s = M_wait (Some a) 0"
  using acl_null_race [of 3 0] by auto

end
