(* ===== verification/Acl_Entry.thy ===== *)
theory Acl_Entry
  imports Acl_Sync
begin

text \<open>
  The node \<open>sf_acl_entry\<close> (\<open>acl/nodes/acl_entry.c\<close>): it classifies all packets of a frame in one call, then gives
  every packet the action of its rule on its interface, or the interface's default action, counts the hit and sends
  the packet to the actions or, when it has been reassembled, to the node that forwards reassembled packets.  Two
  packets at a time or one, the loop is the left-to-right run; the properties put it together with the rules of
  \<open>Acl_Rules\<close> and their synchronisation in \<open>Acl_Sync\<close>.
\<close>

section \<open>The node\<close>

definition SF_NEXT_NODE_SF_ACTION_MAIN :: nat where "SF_NEXT_NODE_SF_ACTION_MAIN = 0"
definition SF_ACL_NEXT_NODE_IP_REASS_FORWARD :: nat where "SF_ACL_NEXT_NODE_IP_REASS_FORWARD = 1"

record sf_ingress_config_t =
  default_action_id :: u8
  rule_to_action :: "u8 list"

text \<open>The interfaces, the worker's index and the results of the classification, which the loop only reads.\<close>

record acl_entry_env =
  ingress_configs :: "sf_ingress_config_t list"
  worker_index :: nat
  class_results :: "u32 list"

text \<open>\<open>intf_id - 1\<close> wraps for an interface of 0.\<close>

definition ingress_config :: "sf_ingress_config_t list \<Rightarrow> u8 \<Rightarrow> sf_ingress_config_t option" where
  "ingress_config cfgs intf_id = arr_read cfgs (unat (ucast intf_id - 1 :: u32))"

definition get_interface_rule_to_action :: "sf_ingress_config_t list \<Rightarrow> u8 \<Rightarrow> u32 \<Rightarrow> u8 option" where
  "get_interface_rule_to_action cfgs intf_id rule_id =
    do { i \<leftarrow> ingress_config cfgs intf_id; arr_read (rule_to_action i) (unat (ucast rule_id - 1 :: u64)) }"

definition get_interface_default_action :: "sf_ingress_config_t list \<Rightarrow> u8 \<Rightarrow> u8 option" where
  "get_interface_default_action cfgs intf_id = do { i \<leftarrow> ingress_config cfgs intf_id; Some (default_action_id i) }"

text \<open>One group of 4096 rules for each worker.\<close>

definition hit_index :: "nat \<Rightarrow> u32 \<Rightarrow> nat" where
  "hit_index wi rule_id = wi * 4096 + unat rule_id - 1"

definition update_acl_rule_hit_quick :: "nat \<Rightarrow> u32 \<Rightarrow> u32 list \<Rightarrow> u32 list option" where
  "update_acl_rule_hit_quick wi rule_id hits =
    do { v \<leftarrow> arr_read hits (hit_index wi rule_id); arr_write hits (hit_index wi rule_id) (v + 1) }"

definition acl_next :: "sf_wdata_t \<Rightarrow> nat" where
  "acl_next w = (if unused8 w AND UNUSED8_FLAG_IP_REASS_PKT \<noteq> 0 then SF_ACL_NEXT_NODE_IP_REASS_FORWARD
     else SF_NEXT_NODE_SF_ACTION_MAIN)"

definition acl_hit :: "acl_entry_env \<Rightarrow> u32 \<Rightarrow> sf_wdata_t \<Rightarrow> u32 list \<Rightarrow> (sf_wdata_t \<times> u32 list) option" where
  "acl_hit E result w hits =
    (if result \<noteq> 0 then
       do { hits \<leftarrow> update_acl_rule_hit_quick (worker_index E) result hits;
            a \<leftarrow> get_interface_rule_to_action (ingress_configs E) (interface_id w) result;
            Some (w\<lparr>arg_to_next := ucast a\<rparr>, hits) }
     else Some (w, hits))"

definition acl_default :: "acl_entry_env \<Rightarrow> sf_wdata_t \<Rightarrow> sf_wdata_t option" where
  "acl_default E w =
    (if arg_to_next w = 0 then
       do { a \<leftarrow> get_interface_default_action (ingress_configs E) (interface_id w); Some (w\<lparr>arg_to_next := ucast a\<rparr>) }
     else Some w)"

text \<open>The state that the packets of a frame share: \<open>pkt_index\<close> and the counters.  \<open>data[pkt_index]\<close> is the buffer at hand.\<close>

definition acl_entry_x1 ::
  "acl_entry_env \<Rightarrow> nat \<times> u32 list \<Rightarrow> sf_wdata_t \<Rightarrow> ((sf_wdata_t \<times> nat) \<times> nat \<times> u32 list) option" where
  "acl_entry_x1 E g w0 =
    (case g of (k, hits) \<Rightarrow>
       do { result0 \<leftarrow> arr_read (class_results E) k;
            let w0 = sf_wqe_reset_wdata w0;
            let next0 = acl_next w0;
            let w0 = w0\<lparr>arg_to_next := 0\<rparr>;
            (w0, hits) \<leftarrow> acl_hit E result0 w0 hits;
            w0 \<leftarrow> acl_default E w0;
            Some ((w0, next0), k + 1, hits) })"

definition acl_entry_x2 ::
  "acl_entry_env \<Rightarrow> nat \<times> u32 list \<Rightarrow> sf_wdata_t \<Rightarrow> sf_wdata_t
    \<Rightarrow> ((sf_wdata_t \<times> nat) \<times> (sf_wdata_t \<times> nat) \<times> nat \<times> u32 list) option" where
  "acl_entry_x2 E g w0 w1 =
    (case g of (k, hits) \<Rightarrow>
       do { result0 \<leftarrow> arr_read (class_results E) k;
            result1 \<leftarrow> arr_read (class_results E) (k + 1);
            let w0 = sf_wqe_reset_wdata w0;
            let w1 = sf_wqe_reset_wdata w1;
            let next0 = acl_next w0;
            let next1 = acl_next w1;
            let w0 = w0\<lparr>arg_to_next := 0\<rparr>;
            let w1 = w1\<lparr>arg_to_next := 0\<rparr>;
            (w0, hits) \<leftarrow> acl_hit E result0 w0 hits;
            (w1, hits) \<leftarrow> acl_hit E result1 w1 hits;
            w0 \<leftarrow> acl_default E w0;
            w1 \<leftarrow> acl_default E w1;
            Some ((w0, next0), (w1, next1), k + 2, hits) })"

interpretation acle: dual_shared_node "acl_entry_x2 E" "acl_entry_x1 E" for E
proof
  show "acl_entry_x2 E g a b = do { (r0, g) \<leftarrow> acl_entry_x1 E g a; (r1, g) \<leftarrow> acl_entry_x1 E g b; Some (r0, r1, g) }" for g a b
    by (cases g) (auto simp: acl_entry_x2_def acl_entry_x1_def Let_def split: Option.bind_splits prod.splits)
qed

text \<open>The whole node; \<open>rest b\<close> stands for the bytes of the metadata of the buffer \<open>b\<close> around the decoded headers.\<close>

definition acl_entry_node ::
  "'r rte_ops \<Rightarrow> sf_acl_main_t \<Rightarrow> sf_ingress_config_t list \<Rightarrow> nat \<Rightarrow> (nat \<Rightarrow> nat \<Rightarrow> u8) \<Rightarrow> (nat \<Rightarrow> nat) \<Rightarrow> (nat \<Rightarrow> nat) \<Rightarrow> nat list
    \<Rightarrow> 'r \<Rightarrow> u32 list \<Rightarrow> sf_wdata_t vstate \<Rightarrow> (nat \<times> u32 list, sf_wdata_t) shared_state option" where
  "acl_entry_node R m cfgs wi rest fresh left from r hits s =
    (let results = acl_results R (v46_context m) (map (\<lambda>b. wdata_bytes (rest b) (bufs s b)) from) r;
         E = \<lparr>ingress_configs = cfgs, worker_index = wi, class_results = results\<rparr>
     in shared_node (acl_entry_x2 E) (acl_entry_x1 E) fresh left from (0, hits) s)"

section \<open>What the node decides\<close>

text \<open>The action of the matching rule with the least number, if the interface gives it one, else the default action.\<close>

definition decided :: "acl_conf \<Rightarrow> sf_ingress_config_t list \<Rightarrow> sf_wdata_t \<Rightarrow> u8" where
  "decided c cfgs w =
    (let i = cfgs ! (unat (interface_id w) - 1); n = acl_lookup c w; a = (if n = 0 then 0 else rule_to_action i ! (n - 1))
     in if a = 0 then default_action_id i else a)"

definition cfgs_ok :: "sf_ingress_config_t list \<Rightarrow> sf_wdata_t \<Rightarrow> bool" where
  "cfgs_ok cfgs w \<longleftrightarrow> 1 \<le> unat (interface_id w) \<and> unat (interface_id w) \<le> length cfgs
     \<and> length (rule_to_action (cfgs ! (unat (interface_id w) - 1))) = 4096"

definition entry_result :: "acl_conf \<Rightarrow> sf_ingress_config_t list \<Rightarrow> sf_wdata_t \<Rightarrow> sf_wdata_t \<times> nat" where
  "entry_result c cfgs w = ((sf_wqe_reset_wdata w)\<lparr>arg_to_next := ucast (decided c cfgs w)\<rparr>, acl_next w)"

definition hits_after :: "acl_conf \<Rightarrow> nat \<Rightarrow> sf_wdata_t list \<Rightarrow> u32 list \<Rightarrow> u32 list" where
  "hits_after c wi ws hits =
    fold (\<lambda>w hits. let n = acl_lookup c w in if n = 0 then hits else hits[wi * 4096 + n - 1 := hits ! (wi * 4096 + n - 1) + 1]) ws hits"

lemma lookup_bound: "acl_lookup c w \<le> 4096"
  using lookup_least [of c w] rules_of_outers [of c "acl_lookup c w"] by (auto simp: rule_matches_def split: option.splits)

lemma unat_ucast32: "unat (ucast (a :: u8) :: u32) = unat a"
  using unsigned_less [of a, where 'a = nat] by (simp add: unsigned_ucast_eq take_bit_nat_eq_self)

lemma ingress_config_ok: "cfgs_ok cfgs w \<Longrightarrow> ingress_config cfgs (interface_id w) = Some (cfgs ! (unat (interface_id w) - 1))"
proof -
  assume ok: "cfgs_ok cfgs w"
  have "unat (ucast (interface_id w) - 1 :: u32) = unat (interface_id w) - 1"
    using ok by (simp add: cfgs_ok_def unat_sub word_le_nat_alt unat_ucast32)
  then show ?thesis using ok by (auto simp: ingress_config_def arr_read_def cfgs_ok_def)
qed

lemma packet_step:
  assumes ok: "cfgs_ok cfgs w" and len: "(wi + 1) * 4096 \<le> length hits" and k: "k < length rs" "rs ! k = of_nat (acl_lookup c w)"
  shows "acl_entry_x1 \<lparr>ingress_configs = cfgs, worker_index = wi, class_results = rs\<rparr> (k, hits) w
    = Some (entry_result c cfgs w, k + 1, hits_after c wi [w] hits)"
proof -
  let ?E = "\<lparr>ingress_configs = cfgs, worker_index = wi, class_results = rs\<rparr>" and ?n = "acl_lookup c w"
  let ?w = "(sf_wqe_reset_wdata w)\<lparr>arg_to_next := 0\<rparr>" and ?i = "cfgs ! (unat (interface_id w) - 1)"
  have same: "interface_id ?w = interface_id w" "acl_next (sf_wqe_reset_wdata w) = acl_next w"
    by (simp_all add: sf_wqe_reset_wdata_def acl_next_def)
  note cfg = ingress_config_ok [OF ok]
  have n: "unat (of_nat ?n :: u32) = ?n" using lookup_bound [of c w] by (simp add: unat_of_nat)
  have z: "(of_nat ?n :: u32) = 0 \<longleftrightarrow> ?n = 0" using n by (metis unat_0 unat_eq_zero)
  have dflt: "acl_default ?E (?w\<lparr>arg_to_next := ucast a\<rparr>)
    = Some ((sf_wqe_reset_wdata w)\<lparr>arg_to_next := ucast (if a = 0 then default_action_id ?i else a)\<rparr>)" for a :: u8
  proof -
    have "(ucast a :: u32) = 0 \<longleftrightarrow> a = 0" using unat_ucast32 [of a] by (simp add: word_unat_eq_iff)
    then show ?thesis using cfg by (simp add: acl_default_def get_interface_default_action_def sf_wqe_reset_wdata_def)
  qed
  show ?thesis
  proof (cases "?n = 0")
    case True
    have "acl_hit ?E 0 ?w hits = Some (?w\<lparr>arg_to_next := ucast (0 :: u8)\<rparr>, hits)" by (simp add: acl_hit_def)
    then show ?thesis using dflt [of 0] True k same
      by (simp add: acl_entry_x1_def arr_read_in entry_result_def decided_def hits_after_def Let_def)
  next
    case False
    have idx: "hit_index wi (of_nat ?n) = wi * 4096 + ?n - 1" by (simp add: hit_index_def n)
    have "?n - 1 < 4096" using lookup_bound [of c w] False by linarith
    then have i: "wi * 4096 + ?n - 1 < length hits" using len False by simp
    have hit: "update_acl_rule_hit_quick wi (of_nat ?n) hits = Some (hits_after c wi [w] hits)"
      using i False by (simp add: update_acl_rule_hit_quick_def idx arr_read_in arr_write_def hits_after_def Let_def)
    have "unat (ucast (of_nat ?n :: u32) - 1 :: u64) = ?n - 1"
    proof -
      have "unat (ucast (of_nat ?n :: u32) :: u64) = ?n" using n lookup_bound [of c w] by (simp add: unsigned_ucast_eq take_bit_nat_eq_self)
      then show ?thesis using False by (simp add: unat_sub word_le_nat_alt)
    qed
    then have rule: "get_interface_rule_to_action cfgs (interface_id w) (of_nat ?n) = Some (rule_to_action ?i ! (?n - 1))"
      using cfg ok \<open>?n - 1 < 4096\<close> by (simp add: get_interface_rule_to_action_def arr_read_in cfgs_ok_def)
    have "acl_hit ?E (of_nat ?n) ?w hits = Some (?w\<lparr>arg_to_next := ucast (rule_to_action ?i ! (?n - 1))\<rparr>, hits_after c wi [w] hits)"
      using hit rule same(1) False z by (simp add: acl_hit_def)
    then show ?thesis using dflt [of "rule_to_action ?i ! (?n - 1)"] False k same
      by (simp add: acl_entry_x1_def arr_read_in entry_result_def decided_def Let_def)
  qed
qed

lemma hits_after_length [simp]: "length (hits_after c wi ws hits) = length hits"
  unfolding hits_after_def by (induction ws arbitrary: hits) (simp_all add: Let_def)

lemma hits_after_Cons: "hits_after c wi (w # ws) hits = hits_after c wi ws (hits_after c wi [w] hits)"
  by (simp add: hits_after_def)

lemma run_entry:
  assumes "\<forall>w\<in>set ws. cfgs_ok cfgs w" "(wi + 1) * 4096 \<le> length hits" "drop k rs = map (\<lambda>w. of_nat (acl_lookup c w)) ws"
  shows "run_packets (acl_entry_x1 \<lparr>ingress_configs = cfgs, worker_index = wi, class_results = rs\<rparr>) (k, hits) ws
    = Some (map (entry_result c cfgs) ws, k + length ws, hits_after c wi ws hits)"
  using assms
proof (induction ws arbitrary: k hits)
  case Nil
  then show ?case by (simp add: hits_after_def)
next
  case (Cons w ws)
  have k: "k < length rs" using Cons.prems(3) by (metis drop_eq_Nil list.distinct(1) list.simps(9) not_le)
  then have d: "rs ! k = of_nat (acl_lookup c w)" "drop (k + 1) rs = map (\<lambda>w. of_nat (acl_lookup c w)) ws"
    using Cons.prems(3) by (simp_all add: Cons_nth_drop_Suc [symmetric])
  have "run_packets (acl_entry_x1 \<lparr>ingress_configs = cfgs, worker_index = wi, class_results = rs\<rparr>) (k + 1, hits_after c wi [w] hits) ws
    = Some (map (entry_result c cfgs) ws, k + 1 + length ws, hits_after c wi ws (hits_after c wi [w] hits))"
    using Cons.prems(1,2) d(2) by (intro Cons.IH) simp_all
  then show ?case
    using packet_step [OF _ Cons.prems(2) k d(1)] Cons.prems(1) by (simp add: hits_after_Cons [of c wi w ws])
qed

text \<open>Each counter of the worker has gone up by the number of packets of its rule, modulo its width; no other has moved.\<close>

lemma hits_after_nth:
  assumes "(wi + 1) * 4096 \<le> length hits" "j < length hits"
  shows "hits_after c wi ws hits ! j = hits ! j
    + of_nat (length (filter (\<lambda>w. acl_lookup c w \<noteq> 0 \<and> wi * 4096 + acl_lookup c w - 1 = j) ws))"
  using assms
proof (induction ws arbitrary: hits)
  case Nil
  then show ?case by (simp add: hits_after_def)
next
  case (Cons w ws)
  let ?n = "acl_lookup c w"
  have "?n \<noteq> 0 \<Longrightarrow> wi * 4096 + ?n - 1 < length hits" using lookup_bound [of c w] Cons.prems(1) by simp
  then have "hits_after c wi [w] hits ! j = hits ! j + (if ?n \<noteq> 0 \<and> wi * 4096 + ?n - 1 = j then 1 else 0)"
    using Cons.prems(2) by (auto simp: hits_after_def Let_def nth_list_update)
  then show ?case unfolding hits_after_Cons [of c wi w ws] using Cons.IH [of "hits_after c wi [w] hits"] Cons.prems by simp
qed

text \<open>C3: From the rules to the action.  While the classifier holds the rules of the configuration, a frame of distinct
  buffers from configured interfaces passes the node without a memory error, for any room VPP leaves in its next frames:
  every packet gets its window back to the Ethernet header and the action that its interface gives to the matching rule
  with the least number, or the interface's default action when there is no such rule or action; it goes on in order, a
  reassembled packet to its forwarding node and any other to the actions; and of the counters exactly the one of the
  worker and the rule goes up by one for each packet of the rule, modulo its width.\<close>

theorem acl_entry_correct:
  assumes doc: "rte_doc R T" and inv: "acl_inv c" and main: "main_ok T m r" and sync: "in_sync T c m r"
    and frame: "frames_ok fresh" "distinct from" and cfgs: "\<forall>b\<in>set from. cfgs_ok cfgs (bufs s b)"
    and len: "(wi + 1) * 4096 \<le> length hits"
  shows "\<exists>hits' s'. acl_entry_node R m cfgs wi rest fresh left from r hits s = Some (Some ((length from, hits'), s'))
    \<and> enq s' = enq s @ map (\<lambda>b. (b, acl_next (bufs s b))) from
    \<and> (\<forall>b\<in>set from. bufs s' b = (sf_wqe_reset_wdata (bufs s b))\<lparr>arg_to_next := ucast (decided c cfgs (bufs s b))\<rparr>)
    \<and> (\<forall>b. b \<notin> set from \<longrightarrow> bufs s' b = bufs s b)
    \<and> length hits' = length hits
    \<and> (\<forall>j<length hits. hits' ! j = hits ! j
        + of_nat (length (filter (\<lambda>b. acl_lookup c (bufs s b) \<noteq> 0 \<and> wi * 4096 + acl_lookup c (bufs s b) - 1 = j) from)))"
proof -
  let ?ws = "map (bufs s) from" and ?rs = "map (\<lambda>w. of_nat (acl_lookup c w)) (map (bufs s) from)"
  let ?E = "\<lparr>ingress_configs = cfgs, worker_index = wi, class_results = ?rs\<rparr>" and ?h = "hits_after c wi (map (bufs s) from) hits"
  have results: "acl_results R (v46_context m) (map (\<lambda>b. wdata_bytes (rest b) (bufs s b)) from) r = ?rs"
    using results_in_sync [OF doc inv main sync, of "map (\<lambda>b. (rest b, bufs s b)) from"] by (simp add: comp_def)
  have run: "run_packets (acl_entry_x1 ?E) (0, hits) ?ws = Some (map (entry_result c cfgs) ?ws, length from, ?h)"
    using run_entry [of ?ws cfgs wi hits 0 ?rs c] cfgs len by simp
  obtain s' where s': "shared_node (acl_entry_x2 ?E) (acl_entry_x1 ?E) fresh left from (0, hits) s = Some (Some ((length from, ?h), s'))"
    "enq s' = enq s @ zip from (map snd (map (entry_result c cfgs) ?ws))" "map (bufs s') from = map fst (map (entry_result c cfgs) ?ws)"
    "\<forall>b. b \<notin> set from \<longrightarrow> bufs s' b = bufs s b"
    using acle.shared_node_eq [OF frame run] by blast
  have "acl_entry_node R m cfgs wi rest fresh left from r hits s = Some (Some ((length from, ?h), s'))"
    using s'(1) unfolding acl_entry_node_def results Let_def .
  moreover have "enq s' = enq s @ map (\<lambda>b. (b, acl_next (bufs s b))) from"
    using s'(2) by (simp add: entry_result_def comp_def zip_map2 zip_same_conv_map)
  moreover have "\<forall>b\<in>set from. bufs s' b = (sf_wqe_reset_wdata (bufs s b))\<lparr>arg_to_next := ucast (decided c cfgs (bufs s b))\<rparr>"
    using s'(3) by (simp add: entry_result_def)
  moreover have "\<forall>j<length hits. ?h ! j = hits ! j
        + of_nat (length (filter (\<lambda>b. acl_lookup c (bufs s b) \<noteq> 0 \<and> wi * 4096 + acl_lookup c (bufs s b) - 1 = j) from))"
    using hits_after_nth [OF len] by (simp add: filter_map comp_def)
  ultimately show ?thesis using s'(4) by (intro exI [of _ ?h] exI [of _ s'] conjI) (assumption | simp)+
qed

text \<open>Two packets from interface 1, one of rule 5 to action 3 and one of no rule to the default action 9.\<close>

definition ex_ingress :: "sf_ingress_config_t list" where
  "ex_ingress = [\<lparr>default_action_id = 9, rule_to_action = (replicate 4096 0)[4 := 3]\<rparr>]"

definition ex_frame :: "sf_wdata_t vstate" where
  "ex_frame = \<lparr>bufs = (\<lambda>b. (ex_packet (if b = 2 then 0 else 6))\<lparr>interface_id := 1\<rparr>), enq = []\<rparr>"

theorem acl_entry_correct_witness:
  "\<exists>m r hits' s'. acl_entry_node ex_rte m ex_ingress 0 (\<lambda>_ _. 1) (\<lambda>_. 1) (\<lambda>_. 1) [2, 7] r (replicate 4096 0) ex_frame
      = Some (Some ((2, hits'), s'))
    \<and> arg_to_next (bufs s' 2) = 3 \<and> arg_to_next (bufs s' 7) = 9 \<and> hits' ! 4 = 1 \<and> hits' ! 5 = 0"
proof -
  obtain c where c: "acl_inv c" "rules_of c = [5 \<mapsto> (False, zero_cfg False)]" using ex_one_rule by blast
  let ?t = "\<lparr>table_name = model_name 1, table_rules = [rte_rule_of 5 False (zero_cfg False)], table_built = Some acl_rte_ipv46_defs\<rparr>"
  let ?m = "\<lparr>v46_context = Some 0, pre_table_name_model = 0\<rparr>" and ?r = "[Some ?t]"
  have at: "ex_table_at ?r a = (if a = 0 then Some ?t else None)" for a by (simp add: ex_table_at_def)
  have main: "main_ok ex_table_at ?m ?r" by (auto simp: main_ok_def at [unfolded One_nat_def] split: if_splits)
  have "rte_rules_of c = {rte_rule_of 5 False (zero_cfg False)}" using c(2) by (auto simp: rte_rules_of_def)
  then have sync: "in_sync ex_table_at c ?m ?r" by (simp add: in_sync_def at [unfolded One_nat_def])
  have rule: "rule_matches c (w\<lparr>interface_id := i\<rparr>) n \<longleftrightarrow> rule_matches c w n" for w i n
    by (simp add: rule_matches_def tuple_match_def Let_def split: option.split)
  have matches: "rule_matches c (ex_packet p) n \<longleftrightarrow> n = 5 \<and> p = 0" for p n
    using c(2) by (auto simp: rule_matches_def ex_packet_match)
  have look: "acl_lookup c (bufs ex_frame 2) = 5" "acl_lookup c (bufs ex_frame 7) = 0"
    using lookup_least [of c "bufs ex_frame 2"] lookup_least [of c "bufs ex_frame 7"] by (auto simp: ex_frame_def rule matches)
  have frame: "frames_ok (\<lambda>_. 1)" "distinct [2, 7 :: nat]" by (simp_all add: frames_ok_def)
  have cfgs: "\<forall>b\<in>set [2, 7]. cfgs_ok ex_ingress (bufs ex_frame b)" by (simp add: cfgs_ok_def ex_ingress_def ex_frame_def)
  have dec: "decided c ex_ingress (bufs ex_frame 2) = 3" "decided c ex_ingress (bufs ex_frame 7) = 9"
    using look by (simp_all add: decided_def ex_ingress_def ex_frame_def)
  from acl_entry_correct [OF ex_rte_doc c(1) main sync frame cfgs, of 0 "replicate 4096 0" "\<lambda>_ _. 1" "\<lambda>_. 1"]
  obtain hits' s' where run: "acl_entry_node ex_rte ?m ex_ingress 0 (\<lambda>_ _. 1) (\<lambda>_. 1) (\<lambda>_. 1) [2, 7] ?r (replicate 4096 0) ex_frame
      = Some (Some ((2, hits'), s'))"
    "\<forall>b\<in>set [2, 7]. bufs s' b = (sf_wqe_reset_wdata (bufs ex_frame b))\<lparr>arg_to_next := ucast (decided c ex_ingress (bufs ex_frame b))\<rparr>"
    "\<forall>j<4096. hits' ! j = 0 + of_nat (length (filter (\<lambda>b. acl_lookup c (bufs ex_frame b) \<noteq> 0 \<and> 0 * 4096 + acl_lookup c (bufs ex_frame b) - 1 = j) [2, 7]))"
    by auto
  have "hits' ! 4 = 1" "hits' ! 5 = 0" using run(3) [THEN spec, of 4] run(3) [THEN spec, of 5] by (simp_all add: look)
  moreover have "arg_to_next (bufs s' 2) = 3" "arg_to_next (bufs s' 7) = 9" using run(2) by (simp_all add: dec)
  ultimately show ?thesis
    by (intro exI [of _ ?m] exI [of _ ?r] exI [of _ hits'] exI [of _ s'] conjI run(1))
qed

end
