(* ===== verification/Spec2Isabelle.thy ===== *)
theory Spec2Isabelle
  imports Sf_Hash Sf_Timer Reass_Nodes Action_Encap Acl_Workers Acl_Entry
begin

text \<open>
  A verification library for the data plane of Tapplet, a set of VPP plugins that decode packets,
  reassemble IP fragments, classify packets by rules and send them, possibly encapsulated, to a choice of
  interfaces.  The program is C; everything named below is under \<open>src/\<close> of the repository.

  \<^bold>\<open>How the program is put together.\<close>  VPP runs a graph of nodes; a node receives a frame of buffer
  indices and hands each buffer to a next node.  A packet enters at \<open>sf_eth_input\<close>, passes the decoding
  nodes (\<open>sf_main/nodes/decode\<close>), which record headers in the metadata \<open>sf_wdata_t\<close> kept beside the packet
  (\<open>sf_lib/sf_net\<close>); fragments go to the nodes of \<open>ip_reass\<close>, which keep flows in a hash table
  (\<open>sf_lib/sf_hash\<close>) with a timer (\<open>sf_lib/sf_timer\<close>) and nodes from a pool (\<open>sf_lib/sf_pool\<close>);
  all packets reach the rules (\<open>acl\<close>), which name an action, and the nodes of \<open>actions\<close>, which choose a
  path through encapsulation nodes to a forwarding node.  Configuration is written into shared memory by
  the management library \<open>nshell-lib/sf_plugin_api\<close> and read by the nodes.

  \<^bold>\<open>Theories.\<close>
  \<^item> \<open>Sf_Prelude\<close>: C integers as words, pointers as addresses with \<open>None\<close> for NULL, checked array access,
    pointer chains in a store.
  \<^item> \<open>Vlib_Loop\<close>, \<open>Vlib_Shared\<close>: the frame loop that every node repeats, with its two-packet and its
    one-packet body.  The locales \<open>dual_loop\<close> and \<open>dual_shared_node\<close> state when the unrolled loop is the
    left-to-right run of the one-packet body, for any room VPP leaves in its frames.
  \<^item> \<open>Sf_Pool\<close>: \<open>sf_pool.h\<close>, \<open>sf_pool.c\<close>.  Its invariant accounts for every node of the pool; the abstract
    specification is a set of disjoint blocks that clients hold, under any interleaving of the workers.
  \<^item> \<open>Sf_Hash\<close>: \<open>generic_hash.c\<close>, \<open>generic_hash.h\<close>.  Insertion and removal refine an update of the list of stored
    nodes; statistics counters, iteration, the bucket count.
  \<^item> \<open>Sf_Timer\<close>: \<open>sf_timer.c\<close> and its input node.  Submitting, stopping, expiring and delivering timers,
    related to the list of handles in each bucket; \<open>expired_chunks\<close> and \<open>waiting_chunks\<close> say what a run of the node takes off the wheel.
  \<^item> \<open>Pkt_Wdata\<close>, \<open>Pkt_Decode\<close>: metadata, header layouts and the decoding nodes.
  \<^item> \<open>Reass_Data\<close>, \<open>Reass_Split\<close>, \<open>Reass_Build\<close>, \<open>Reass_Proc\<close>, \<open>Reass_Nodes\<close>: the reassembly plugin.  \<open>Reass_Proc\<close> relates
    the concrete state (table, pools, timers, linked fragments) to a map from flow keys to lists of
    fragments, on which \<open>reass_step\<close> is a deterministic specification of one call; \<open>Reass_Build\<close> shows the bytes of the
    rebuilt datagram; \<open>Reass_Split\<close> shows that flattening a tree of fragments is its preorder; \<open>Reass_Nodes\<close> holds the
    nodes, and a run of overlapping fragments that ends in a packet with old memory.
  \<^item> \<open>Sf_Crc32\<close>, \<open>Acl_Hash\<close>, \<open>Acl_Rules\<close>: the interface that configures rules (\<open>nshell-lib/sf_plugin_api\<close>): the CRC
    over a rule, the hash table that finds equal rules, and creating, reading, replacing and deleting a rule as a
    refinement of a map from numbers to rules.  \<open>create_spec\<close> gives the outcome of creating a rule for every argument, and
    exactly when the search of a list in disorder has no end.
  \<^item> \<open>Acl_Sync\<close>, \<open>Acl_Workers\<close>, \<open>Acl_Entry\<close>: the plugin \<open>acl\<close>.  \<open>Acl_Sync\<close> takes the configured rules to the table of
    the classifier and relates its answer to the rule with the least number that matches the packet; \<open>Acl_Workers\<close>
    interleaves the exchange of tables with the workers that classify; \<open>Acl_Entry\<close> is the node, from the bytes of a
    packet's metadata to its action.
  \<^item> \<open>Actions\<close>, \<open>Action_Encap\<close>: the table of actions with its configuration interface, the path of a packet through
    the forwarding nodes, load balancing (with the overflow of its 32-bit running weight), and the nodes that put GRE, VXLAN and ERSPAN headers in front of a packet, byte
    for byte.  The path that the table of actions promises is the one the nodes take when they pop it.

  \<^bold>\<open>Conventions.\<close>  A C integer is a word of its width where it can wrap, a natural number where an invariant
  shows that it does not; the running weight of the weighted round robin is an \<open>int\<close> that wraps around by \<open>int32\<close>.  An access outside an array, a dereference of NULL, and a division by zero are the value
  \<open>None\<close>; theorems that an operation is safe state that its value is \<open>Some\<close>.  Loops whose end
  depends on a linked structure or on VPP are \<open>partial_function (option)\<close>; each has a theorem that it returns.
  Loops with a counter are structural recursion on the number of rounds left, so no fuel bound is assumed.  A lock
  makes the guarded operation one step of the model.

  \<^bold>\<open>Interfaces.\<close>  What one component relies on in another is a locale, interpreted on the model of its provider:
  the frame loops (\<open>Vlib_Loop\<close>, \<open>Vlib_Shared\<close>), interpreted on every node; pool, table and timer for the reassembly
  nodes.

  \<^bold>\<open>Parameters.\<close>  Code that is not in the repository is an argument of the definitions: the 64-bit float clock
  and the arithmetic on it (\<open>f64_ops\<close>), the allocator of VPP (\<open>malloc\<close>), the room in VPP's frames (\<open>fresh_room\<close>,
  \<open>left_room\<close>), the hash value of a key (\<open>getHashIndex\<close> is an intrinsic of the processor or of VPP), the conversions of
  addresses from and to text (\<open>acl_env\<close>), the checksum of an IPv4 header, and the content of memory that
  has not been written.  The classifier \<open>librte_acl\<close> is the argument \<open>rte_ops\<close>; \<open>rte_doc\<close> states what its manual
  promises, and \<open>ex_rte\<close> is a classifier that satisfies it.

  \<^bold>\<open>Not modelled.\<close>  The DPDK plugin (\<open>src/dpdk\<close>) is a driver copied from VPP.  Command line and text formatting, packet traces,
  plugin registration, the allocation of vectors and pools at start and the mapping of the shared memory are input and
  output or calls of libraries.  The nodes that hand packets to another worker, copy them to and from huge buffers for
  transmission, output or drop them move buffers between queues of VPP and DPDK and decide nothing.  The statistics
  of interfaces are read for display only.  The management server, the command shell and the tests are not C.
\<close>

end
